(* ===== verification/Tor_Prelude.thy ===== *)
theory Tor_Prelude
  imports Main "HOL-Library.Word" "HOL-Library.Multiset" "HOL-Library.Sublist"
begin

text \<open>
  Shared ground of the development: names for the C integer types of the LP64 platforms
  the code is built for, the collections of facts the component proofs share, and generic
  lemmas on words, lists and options.

  A C \<open>unsigned\<close> integer of a fixed width is a word of that width, so that \<open>+\<close>, \<open>-\<close> and
  \<open>*\<close> wrap as they do in C.  A signed integer is an \<open>int\<close>; where a signed value is stored
  into a narrower field, the truncation is written out.  Bytes (\<open>char\<close>, \<open>uint8_t\<close>) are
  words of eight bits, and a block of memory or a string without its terminating NUL is a
  list of bytes.
\<close>

unbundle bit_operations_syntax

type_synonym u8 = "8 word"
type_synonym u16 = "16 word"
type_synonym u32 = "32 word"
type_synonym u64 = "64 word"
type_synonym bytes = "u8 list"

named_theorems c_word "facts that carry word arithmetic over to natural numbers"
named_theorems c_list "facts about bounded loops over lists"

abbreviation UINT32_MAX :: u32 where "UINT32_MAX \<equiv> 4294967295"
abbreviation UINT64_MAX :: u64 where "UINT64_MAX \<equiv> 18446744073709551615"
abbreviation INT32_MAX :: int where "INT32_MAX \<equiv> 2147483647"
abbreviation INT64_MAX :: int where "INT64_MAX \<equiv> 9223372036854775807"

text \<open>The value a signed 32-bit field holds after an assignment of an arbitrary integer.\<close>

definition to_int32 :: "int \<Rightarrow> int" where
  "to_int32 v = (v + 2 ^ 31) mod 2 ^ 32 - 2 ^ 31"

lemma to_int32_id [simp]: "- (2 ^ 31) \<le> v \<Longrightarrow> v < 2 ^ 31 \<Longrightarrow> to_int32 v = v"
  by (simp add: to_int32_def)

lemma to_int32_range: "- (2 ^ 31) \<le> to_int32 v \<and> to_int32 v < 2 ^ 31"
proof -
  have "0 \<le> (v + 2 ^ 31) mod 2 ^ 32" "(v + 2 ^ 31) mod 2 ^ 32 < 2 ^ 32" by simp_all
  then show ?thesis unfolding to_int32_def by simp
qed

subsection \<open>Results\<close>

text \<open>How a call ends: in a failed assertion, with the error value of the function (\<open>-1\<close> or NULL), or with
  a result.\<close>

datatype 'a outcome = Assertion_failed | Minus_1 | Done 'a

definition and_then :: "'a outcome \<Rightarrow> ('a \<Rightarrow> 'b outcome) \<Rightarrow> 'b outcome" where
  "and_then r f = (case r of Assertion_failed \<Rightarrow> Assertion_failed | Minus_1 \<Rightarrow> Minus_1 | Done x \<Rightarrow> f x)"

lemma and_then_simps [simp]:
  "and_then Assertion_failed f = Assertion_failed" "and_then Minus_1 f = Minus_1" "and_then (Done x) f = f x"
  by (simp_all add: and_then_def)

lemma and_then_cong [fundef_cong]:
  "r = r' \<Longrightarrow> (\<And>x. r' = Done x \<Longrightarrow> f x = g x) \<Longrightarrow> and_then r f = and_then r' g"
  by (cases r') simp_all

lemma and_then_Done: "and_then r f = Done y \<longleftrightarrow> (\<exists>x. r = Done x \<and> f x = Done y)"
  by (cases r) simp_all

subsection \<open>Words\<close>

lemma unat_u32_max [c_word]: "unat UINT32_MAX = 4294967295"
  by simp

lemma unat_u64_max [c_word]: "unat UINT64_MAX = 18446744073709551615"
  by simp

lemma unat_u32_less [c_word]: "unat (a :: u32) \<le> 4294967295"
  using unsigned_less [of a, where ?'a = nat] by simp

lemma unat_u64_less [c_word]: "unat (a :: u64) \<le> 18446744073709551615"
  using unsigned_less [of a, where ?'a = nat] by simp

lemma unat_u8_less [c_word]: "unat (a :: u8) \<le> 255"
  using unsigned_less [of a, where ?'a = nat] by simp

lemma unat_add_exact:
  fixes a b :: "'a::len word"
  shows "unat a + unat b < 2 ^ LENGTH('a) \<Longrightarrow> unat (a + b) = unat a + unat b"
  by (simp add: unat_word_ariths)

lemma unat_mult_exact:
  fixes a b :: "'a::len word"
  shows "unat a * unat b < 2 ^ LENGTH('a) \<Longrightarrow> unat (a * b) = unat a * unat b"
  by (simp add: unat_word_ariths)

lemma unat_sub_exact:
  fixes a b :: "'a::len word"
  shows "unat b \<le> unat a \<Longrightarrow> unat (a - b) = unat a - unat b"
  by (simp add: unat_sub word_le_nat_alt)

lemma unat_div_exact: "unat (a div b) = unat a div unat (b :: 'a::len word)"
  by (simp add: unat_div)

lemma unat_mod_exact: "unat (a mod b) = unat a mod unat (b :: 'a::len word)"
  by (simp add: unat_mod)

lemma unat_inj_iff: "(unat (a :: 'a::len word) = unat b) = (a = b)"
  by (metis unsigned_word_eqI)

lemma unat_ucast_u32_u64 [simp]: "unat (ucast (x :: u32) :: u64) = unat x"
proof -
  have "unat x < 2 ^ 64" using unat_u32_less [of x] by simp
  then show ?thesis by (simp add: unsigned_ucast_eq take_bit_nat_eq_self)
qed

lemma sint_word_of_int_u32: "sint (word_of_int x :: u32) = to_int32 x"
  by (simp add: int_word_sint to_int32_def)

lemma sint_u32_eq: "sint (b :: u32) = to_int32 (int (unat b))"
  using sint_word_of_int_u32 [of "uint b"] by simp

lemma unat_word_of_int_u64: "0 \<le> x \<Longrightarrow> x < 2 ^ 64 \<Longrightarrow> unat (word_of_int x :: u64) = nat x"
  by (simp add: unat_eq_nat_uint unsigned_of_int take_bit_int_eq_self)

text \<open>Shifts, masks and disjoint unions of bit fields, on the natural numbers.\<close>

lemma unat_push_bit_exact:
  fixes w :: "'a::len word"
  shows "unat w * 2 ^ k < 2 ^ LENGTH('a) \<Longrightarrow> unat (push_bit k w) = unat w * 2 ^ k"
  unfolding unsigned_push_bit_eq by (simp add: push_bit_eq_mult [where 'a = nat] take_bit_nat_eq_self)

lemma unat_drop_bit: "unat (drop_bit k (w :: 'a::len word)) = unat w div 2 ^ k"
  using unsigned_less [of w, where ?'a = nat]
  unfolding unsigned_drop_bit_eq by (simp add: drop_bit_eq_div [where 'a = nat] take_bit_nat_eq_self)

lemma unat_and_mask: "unat ((w :: 'a::len word) AND mask k) = unat w mod 2 ^ k"
  by (metis take_bit_eq_mask take_bit_eq_mod unsigned_take_bit_eq)

lemma unat_shift_or:
  fixes w x :: "'a::len word"
  assumes "unat w * 2 ^ k + unat x < 2 ^ LENGTH('a)" "unat x < 2 ^ k"
  shows "unat (push_bit k w OR x) = unat w * 2 ^ k + unat x"
proof -
  have "unat (take_bit k x) = unat x"
    using assms(2) by (metis mod_less take_bit_eq_mod unsigned_take_bit_eq)
  then have "take_bit k x = x" by (simp add: unsigned_word_eqI)
  then have "\<not> bit x n" if "k \<le> n" for n
    using that by (metis bit_take_bit_iff not_le)
  then have "push_bit k w AND x = 0"
    by (auto simp: bit_eq_iff bit_and_iff bit_push_bit_iff)
  then have "push_bit k w OR x = push_bit k w + x" by (simp only: disjunctive_add_eq_or)
  moreover have "unat (push_bit k w) = unat w * 2 ^ k" using assms(1) by (intro unat_push_bit_exact) simp
  ultimately show ?thesis using assms(1) by (simp add: unat_add_exact)
qed

subsection \<open>Lists\<close>

lemma nth_eq_take_drop: "i < length xs \<Longrightarrow> xs = take i xs @ xs ! i # drop (Suc i) xs"
  by (simp add: id_take_nth_drop)

lemma find_first_index:
  "\<exists>x\<in>set xs. P x \<Longrightarrow> \<exists>i<length xs. P (xs ! i) \<and> (\<forall>j<i. \<not> P (xs ! j))"
proof -
  assume "\<exists>x\<in>set xs. P x"
  then have ex: "\<exists>i. i < length xs \<and> P (xs ! i)" by (auto simp: in_set_conv_nth)
  define k where "k = (LEAST i. i < length xs \<and> P (xs ! i))"
  have k: "k < length xs \<and> P (xs ! k)" unfolding k_def using ex by (rule LeastI_ex)
  have "\<not> P (xs ! j)" if "j < k" for j
    using not_less_Least [of j "\<lambda>i. i < length xs \<and> P (xs ! i)"] that k unfolding k_def by auto
  with k show ?thesis by blast
qed

end
