(* ===== verification/Int_Math.thy ===== *)
theory Int_Math
  imports Tor_Prelude
begin

text \<open>
  The integer helpers of \<open>lib/intmath\<close>: saturating addition and multiplication, base-2
  logarithm and rounding, rounding up to a multiple, fraction simplification, and the weak
  linear congruential generator.
\<close>

section \<open>Definitions\<close>

definition tor_add_u32_nowrap :: "u32 \<Rightarrow> u32 \<Rightarrow> u32" where
  "tor_add_u32_nowrap a b = (if a > UINT32_MAX - b then UINT32_MAX else a + b)"

text \<open>One \<open>if\<close> of \<open>tor_log2\<close>: shift by \<open>k\<close> when the value reaches \<open>2^k\<close>, adding \<open>k\<close>
  to the result.\<close>

definition log2_step :: "nat \<Rightarrow> u64 \<times> nat \<Rightarrow> u64 \<times> nat" where
  "log2_step k s = (let (u, r) = s in if u \<ge> push_bit k 1 then (drop_bit k u, r + k) else (u, r))"

definition tor_log2 :: "u64 \<Rightarrow> nat" where
  "tor_log2 u64 =
     (let s = log2_step 32 (u64, 0);
          s = log2_step 16 s;
          s = log2_step 8 s;
          s = log2_step 4 s;
          (u, r) = log2_step 2 s
      in if u \<ge> push_bit 1 1 then r + 1 else r)"

definition round_to_power_of_2 :: "u64 \<Rightarrow> u64" where
  "round_to_power_of_2 u64 =
     (if u64 = 0 then 1
      else let lg2 = tor_log2 u64;
               low = push_bit lg2 1
           in if lg2 = 63 then low
              else let high = push_bit (lg2 + 1) 1
                   in if high - u64 < u64 - low then high else low)"

definition nybble_table :: "nat list" where
  "nybble_table = [0, 1, 1, 2, 1, 2, 2, 3, 1, 2, 2, 3, 2, 3, 3, 4]"

definition n_bits_set_u8 :: "u8 \<Rightarrow> nat" where
  "n_bits_set_u8 v = nybble_table ! unat (v AND 15) + nybble_table ! unat (drop_bit 4 v)"

text \<open>The three rounding functions have one body at three types; \<open>None\<close> is the failed
  assertion that the divisor is positive.\<close>

definition round_to_next_multiple_of :: "u32 \<Rightarrow> u32 \<Rightarrow> u32 option" where
  "round_to_next_multiple_of number divisor =
     (if \<not> divisor > 0 then None
      else if UINT32_MAX - divisor + 1 < number then Some UINT32_MAX
      else let number = number + (divisor - 1);
               number = number - number mod divisor
           in Some number)"

definition round_uint32_to_next_multiple_of :: "u32 \<Rightarrow> u32 \<Rightarrow> u32 option" where
  "round_uint32_to_next_multiple_of number divisor =
     (if \<not> divisor > 0 then None
      else if UINT32_MAX - divisor + 1 < number then Some UINT32_MAX
      else let number = number + (divisor - 1);
               number = number - number mod divisor
           in Some number)"

definition round_uint64_to_next_multiple_of :: "u64 \<Rightarrow> u64 \<Rightarrow> u64 option" where
  "round_uint64_to_next_multiple_of number divisor =
     (if \<not> divisor > 0 then None
      else if UINT64_MAX - divisor + 1 < number then Some UINT64_MAX
      else let number = number + (divisor - 1);
               number = number - number mod divisor
           in Some number)"

function gcd64 :: "u64 \<Rightarrow> u64 \<Rightarrow> u64" where
  "gcd64 a b = (if b \<noteq> 0 then gcd64 b (a mod b) else a)"
  by pat_completeness auto
termination
  by (relation "measure (\<lambda>(a, b). unat b)")
    (auto simp: unat_mod_exact unat_gt_0)

declare gcd64.simps [simp del]

definition tor_mul_u64_nowrap :: "u64 \<Rightarrow> u64 \<Rightarrow> u64" where
  "tor_mul_u64_nowrap a b =
     (if a = 0 \<or> b = 0 then 0
      else if UINT64_MAX div a < b then UINT64_MAX
      else a * b)"

text \<open>\<open>None\<close> is the division by zero that \<open>0/0\<close> would make.\<close>

definition simplify_fraction64 :: "u64 \<Rightarrow> u64 \<Rightarrow> (u64 \<times> u64) option" where
  "simplify_fraction64 numer denom =
     (let g = gcd64 numer denom
      in if g = 0 then None else Some (numer div g, denom div g))"

record tor_weak_rng_t =
  rng_state :: u32

definition TOR_WEAK_RANDOM_MAX :: int where
  "TOR_WEAK_RANDOM_MAX = INT32_MAX"

definition tor_init_weak_random :: "u32 \<Rightarrow> tor_weak_rng_t" where
  "tor_init_weak_random seed = \<lparr>rng_state = seed AND 0x7fffffff\<rparr>"

definition tor_weak_random :: "tor_weak_rng_t \<Rightarrow> tor_weak_rng_t \<times> int" where
  "tor_weak_random rng =
     (let s = (rng_state rng * 1103515245 + 12345) AND 0x7fffffff
      in (rng\<lparr>rng_state := s\<rparr>, uint s))"

text \<open>The rejection loop: draw until the scaled value is below the requested limit (\<open>top\<close> in the source).  Not returning is
  \<open>None\<close>.\<close>

partial_function (option) weak_random_loop ::
    "tor_weak_rng_t \<Rightarrow> int \<Rightarrow> int \<Rightarrow> (tor_weak_rng_t \<times> int) option" where
  "weak_random_loop rng divisor limit =
     (let (rng', v) = tor_weak_random rng; result = v div divisor
      in if result \<ge> limit then weak_random_loop rng' divisor limit else Some (rng', result))"

definition tor_weak_random_range :: "tor_weak_rng_t \<Rightarrow> int \<Rightarrow> (tor_weak_rng_t \<times> int) option" where
  "tor_weak_random_range rng limit =
     (if \<not> limit > 0 then None
      else weak_random_loop rng (TOR_WEAK_RANDOM_MAX div limit) limit)"

section \<open>Saturating arithmetic\<close>

lemma tor_add_u32_nowrap_saturates:
  "unat (tor_add_u32_nowrap a b) = min (unat a + unat b) (2 ^ 32 - 1)"
proof -
  have "unat (UINT32_MAX - b) = 4294967295 - unat b"
    using unat_u32_less [of b] by (subst unat_sub_exact) simp_all
  then have "a > UINT32_MAX - b \<longleftrightarrow> unat a + unat b > 4294967295"
    using unat_u32_less [of b] by (auto simp: word_less_nat_alt)
  then show ?thesis
    by (auto simp: tor_add_u32_nowrap_def unat_add_exact min_def)
qed

lemma tor_mul_u64_nowrap_saturates:
  "unat (tor_mul_u64_nowrap a b) = min (unat a * unat b) (2 ^ 64 - 1)"
proof (cases "a = 0 \<or> b = 0")
  case True
  then show ?thesis by (auto simp: tor_mul_u64_nowrap_def)
next
  case False
  then have a: "unat a > 0" by (simp add: unat_gt_0)
  have "UINT64_MAX div a < b \<longleftrightarrow> 18446744073709551615 div unat a < unat b"
    by (simp add: word_less_nat_alt unat_div_exact)
  also have "\<dots> \<longleftrightarrow> 18446744073709551615 < unat a * unat b"
    using a by (simp add: div_less_iff_less_mult mult.commute)
  finally show ?thesis
    using False by (auto simp: tor_mul_u64_nowrap_def unat_mult_exact min_def)
qed

section \<open>Base-2 logarithm\<close>

lemma unat_two_power [c_word]: "k < 64 \<Longrightarrow> unat (2 ^ k :: u64) = 2 ^ k"
proof -
  assume k: "k < 64"
  have "(2 ^ k :: u64) = word_of_nat (2 ^ k)" by simp
  moreover have "(2 :: nat) ^ k < 2 ^ 64" using k by (intro power_strict_increasing) simp_all
  ultimately show ?thesis by (simp only: unat_of_nat take_bit_nat_eq_self_iff) simp
qed

definition log2_inv :: "nat \<Rightarrow> nat \<Rightarrow> u64 \<times> nat \<Rightarrow> bool" where
  "log2_inv n k s \<longleftrightarrow> (case s of (u, r) \<Rightarrow> unat u = n div 2 ^ r \<and> 0 < unat u \<and> unat u < 2 ^ k)"

lemma log2_step_inv:
  assumes "log2_inv n (2 * k) s" "k < 64"
  shows "log2_inv n k (log2_step k s)"
proof -
  obtain u r where s: "s = (u, r)" by (cases s)
  have u: "unat u = n div 2 ^ r" "0 < unat u" "unat u < 2 ^ (2 * k)"
    using assms(1) by (auto simp: s log2_inv_def)
  have ge: "u \<ge> push_bit k 1 \<longleftrightarrow> 2 ^ k \<le> unat u"
    by (simp add: word_le_nat_alt unat_two_power assms(2))
  have "unat (drop_bit k u) = unat u div 2 ^ k"
    using assms(2) by (simp add: drop_bit_eq_div unat_div_exact unat_two_power)
  moreover have "unat u div 2 ^ k < 2 ^ k"
    using u(3) by (simp add: less_mult_imp_div_less power_add mult_2)
  ultimately show ?thesis
    using u ge by (auto simp: s log2_inv_def log2_step_def div_mult2_eq power_add div_greater_zero_iff)
qed

lemma log2_final:
  assumes "log2_inv n 2 (u, r)"
  shows "2 ^ (if u \<ge> push_bit 1 1 then r + 1 else r) \<le> n \<and>
         n < 2 ^ ((if u \<ge> push_bit 1 1 then r + 1 else r) + 1)"
proof -
  have u: "unat u = n div 2 ^ r" "0 < unat u" "unat u < 4"
    using assms by (auto simp: log2_inv_def)
  obtain m where m: "n = unat u * 2 ^ r + m" "m < 2 ^ r"
    using u(1) div_mult_mod_eq [of n "2 ^ r"] by (metis mod_less_divisor zero_less_numeral zero_less_power)
  have "unat u = 1 \<or> unat u = 2 \<or> unat u = 3" using u by linarith
  then show ?thesis
    using m by (elim disjE) (simp_all add: word_le_nat_alt)
qed

text \<open>For a positive argument the six tests of \<open>tor_log2\<close> bracket it between two
  consecutive powers of two.\<close>

lemma tor_log2_bracket:
  assumes "u \<noteq> 0"
  shows "2 ^ tor_log2 u \<le> unat u \<and> unat u < 2 ^ (tor_log2 u + 1)"
proof -
  have "unat u < 2 ^ 64" using unsigned_less [of u, where ?'a = nat] by simp
  then have i: "log2_inv (unat u) (2 * 32) (u, 0)"
    using assms by (simp add: log2_inv_def unat_gt_0)
  define s1 where "s1 = log2_step 32 (u, 0)"
  define s2 where "s2 = log2_step 16 s1"
  define s3 where "s3 = log2_step 8 s2"
  define s4 where "s4 = log2_step 4 s3"
  obtain v r where s5: "log2_step 2 s4 = (v, r)" by (cases "log2_step 2 s4")
  have "log2_inv (unat u) 32 s1" unfolding s1_def by (rule log2_step_inv [OF i]) simp
  then have "log2_inv (unat u) 16 s2" unfolding s2_def by (intro log2_step_inv) simp_all
  then have "log2_inv (unat u) 8 s3" unfolding s3_def by (intro log2_step_inv) simp_all
  then have "log2_inv (unat u) 4 s4" unfolding s4_def by (intro log2_step_inv) simp_all
  then have "log2_inv (unat u) 2 (log2_step 2 s4)" by (intro log2_step_inv) simp_all
  then have "log2_inv (unat u) 2 (v, r)" by (simp add: s5)
  from log2_final [OF this] show ?thesis
    by (simp add: tor_log2_def Let_def flip: s1_def s2_def s3_def s4_def) (simp add: s5)
qed

lemma tor_log2_less_64: "tor_log2 u < 64"
proof (cases "u = 0")
  case True
  then show ?thesis by (simp add: tor_log2_def log2_step_def)
next
  case False
  have "(2::nat) ^ tor_log2 u < 2 ^ 64"
    using tor_log2_bracket [OF False] unsigned_less [of u, where ?'a = nat] by simp
  then show ?thesis by (rule power_less_imp_less_exp [rotated]) simp
qed


lemma unat_pow_diffs:
  assumes "u \<noteq> 0" "tor_log2 u \<noteq> 63"
  shows "unat (2 ^ (tor_log2 u + 1) - u) = 2 ^ (tor_log2 u + 1) - unat u"
    and "unat (u - 2 ^ tor_log2 u) = unat u - 2 ^ tor_log2 u"
proof -
  have "tor_log2 u + 1 < 64" "tor_log2 u < 64"
    using tor_log2_less_64 [of u] assms(2) by linarith+
  then show "unat (2 ^ (tor_log2 u + 1) - u) = 2 ^ (tor_log2 u + 1) - unat u"
    "unat (u - 2 ^ tor_log2 u) = unat u - 2 ^ tor_log2 u"
    using tor_log2_bracket [OF assms(1)]
    by (simp_all only: unat_sub_exact unat_two_power less_imp_le)
qed

lemma pow2_ge_or_le:
  fixes k r :: nat
  shows "(2::nat) ^ k \<le> 2 ^ r \<or> 2 ^ (r + 1) \<le> (2::nat) ^ k"
  by (metis Suc_eq_plus1 le_numeral_extra(4) not_less_eq_eq one_le_numeral power_increasing)

text \<open>\<open>round_to_power_of_2\<close> returns a power of two, none of the 64 representable powers is
  closer, and of two equally close ones it is the lower.\<close>

lemma round_to_power_of_2_nearest:
  fixes u :: u64
  defines "d \<equiv> \<lambda>k::nat. \<bar>2 ^ k - int (unat u)\<bar>"
  shows "\<exists>r<64. unat (round_to_power_of_2 u) = 2 ^ r \<and>
           (\<forall>k<64. d r \<le> d k \<and> (d k = d r \<longrightarrow> r \<le> k))"
proof (cases "u = 0")
  case True
  have "d 0 \<le> d k" for k using True by (simp add: d_def)
  then show ?thesis
    using True by (intro exI [of _ 0]) (simp add: round_to_power_of_2_def)
next
  case False
  define r where "r = tor_log2 u"
  have r: "2 ^ r \<le> int (unat u)" "int (unat u) < 2 ^ (r + 1)"
    using tor_log2_bracket [OF False]
    by (simp_all add: r_def flip: of_nat_less_iff [where 'a = int] of_nat_le_iff [where 'a = int])
  have r64: "r < 64" by (simp add: r_def tor_log2_less_64)
  have split: "(2::int) ^ k \<le> 2 ^ r \<or> 2 ^ (r + 1) \<le> (2::int) ^ k" for k
    using pow2_ge_or_le [of k r]
    by (metis of_nat_le_iff of_nat_numeral of_nat_power)
  have low: "(2::int) ^ k = 2 ^ r \<longleftrightarrow> k = r" and mono: "(2::int) ^ k \<le> 2 ^ r \<longleftrightarrow> k \<le> r" for k r :: nat
    by simp_all
  show ?thesis
  proof (cases "r = 63")
    case True
    have "(2::int) ^ k \<le> 2 ^ r" if "k < 64" for k
      using that True by (intro power_increasing) simp_all
    then have "d r \<le> d k \<and> (d k = d r \<longrightarrow> r \<le> k)" if "k < 64" for k
      using r that mono [of r k] unfolding d_def by (smt (verit))
    moreover have "unat (round_to_power_of_2 u) = 2 ^ r"
      using False True r64 by (simp add: round_to_power_of_2_def r_def unat_two_power)
    ultimately show ?thesis using r64 by blast
  next
    case r63: False
    define hi where "hi \<longleftrightarrow> 2 ^ (r + 1) - int (unat u) < int (unat u) - 2 ^ r"
    have bnd: "unat u < 2 ^ (r + 1)" "2 ^ r \<le> unat u"
      using tor_log2_bracket [OF False] by (simp_all add: r_def)
    have "(push_bit (r + 1) 1 - u < u - push_bit r 1) = (2 ^ (r + 1) - unat u < unat u - 2 ^ r)"
      using unat_pow_diffs [OF False] r63 by (simp add: word_less_nat_alt r_def)
    also have "\<dots> = hi"
    proof -
      have "int (2 ^ (r + 1)) = 2 ^ (r + 1)" "int (2 ^ r) = 2 ^ r" by simp_all
      then show ?thesis using bnd unfolding hi_def by linarith
    qed
    finally have res: "unat (round_to_power_of_2 u) = 2 ^ (if hi then r + 1 else r)"
      using False r63 r64 unat_two_power [of "r + 1"] unat_two_power [of r]
      by (simp add: round_to_power_of_2_def Let_def flip: r_def)
    have "d (if hi then r + 1 else r) \<le> d k \<and>
        (d k = d (if hi then r + 1 else r) \<longrightarrow> (if hi then r + 1 else r) \<le> k)" for k
      using split [of k] r low [of k r] mono [of "r + 1" k] mono [of r k]
      unfolding d_def hi_def by (smt (verit) not_less_eq_eq Suc_eq_plus1)
    then show ?thesis using res r63 r64 by (intro exI [of _ "if hi then r + 1 else r"]) auto
  qed
qed

section \<open>Bit counting and rounding to a multiple\<close>

lemma nybble_table_bits:
  assumes "i < 16"
  shows "nybble_table ! i = length (filter (bit i) [0..<4])"
proof -
  have "list_all (\<lambda>k. nybble_table ! k = length (filter (bit k) [0..<4])) [0..<16]"
    by code_simp
  with assms show ?thesis by (simp add: list_all_iff)
qed

text \<open>\<open>n_bits_set_u8\<close> is the number of bits that are set.\<close>

lemma n_bits_set_u8_popcount:
  "n_bits_set_u8 v = length (filter (bit v) [0..<8])"
proof -
  have lo: "unat (v AND 15) < 16"
    using word_and_le1 [of v 15] by (simp add: word_le_nat_alt)
  have hi: "unat (drop_bit 4 v) < 16"
    using unat_u8_less [of v] by (simp add: drop_bit_eq_div unat_div_exact)
  have "filter (bit (unat (v AND 15))) [0..<4] = filter (bit v) [0..<4]"
    by (simp add: upt_rec bit_unsigned_iff bit_and_iff)
  moreover have "length (filter (bit (unat (drop_bit 4 v))) [0..<4]) = length (filter (bit v) [4..<8])"
    by (simp add: upt_rec bit_unsigned_iff bit_drop_bit_eq)
  moreover have "[0..<8] = [0..<4] @ [4..<8]" by (simp add: upt_rec)
  ultimately show ?thesis
    unfolding n_bits_set_u8_def nybble_table_bits [OF lo] nybble_table_bits [OF hi] by simp
qed

text \<open>What the rounding functions do: the least multiple of the divisor at or above the
  number when number + divisor is at most \<open>2^w\<close>, the largest value of the type beyond.\<close>

definition is_round_up :: "nat \<Rightarrow> nat \<Rightarrow> nat \<Rightarrow> bool" where
  "is_round_up n d m \<longleftrightarrow> d dvd m \<and> n \<le> m \<and> (\<forall>x. d dvd x \<and> n \<le> x \<longrightarrow> m \<le> x)"

lemma round_up_nat:
  fixes n d :: nat
  assumes "0 < d"
  shows "is_round_up n d (n + (d - 1) - (n + (d - 1)) mod d)"
proof -
  define m where "m = n + (d - 1) - (n + (d - 1)) mod d"
  have m: "m = (n + (d - 1)) div d * d"
    unfolding m_def by (simp add: minus_mod_eq_div_mult)
  have "m \<le> x" if "d dvd x" "n \<le> x" for x
  proof -
    obtain k where k: "x = k * d" using \<open>d dvd x\<close> by (metis dvd_div_mult_self)
    have "(n + (d - 1)) div d \<le> (k * d + (d - 1)) div d"
      using \<open>n \<le> x\<close> k by (intro div_le_mono) simp
    also have "\<dots> = k" using assms by (intro div_nat_eqI) (auto simp: mult.commute)
    finally show ?thesis unfolding m k by (rule mult_le_mono1)
  qed
  moreover have "(n + (d - 1)) mod d < d" using assms by simp
  then have "n \<le> m" unfolding m_def by linarith
  moreover have "d dvd m" by (simp add: m)
  ultimately show ?thesis unfolding m_def [symmetric] by (simp add: is_round_up_def)
qed

lemma round_word_body:
  fixes n d :: "'a::len word"
  assumes "0 < d" "unat n + (unat d - 1) < 2 ^ LENGTH('a)"
  shows "unat (n + (d - 1) - (n + (d - 1)) mod d) =
    unat n + (unat d - 1) - (unat n + (unat d - 1)) mod unat d"
proof -
  have "unat (d - 1) = unat d - 1"
    using assms(1) by (simp add: unat_sub_exact Suc_le_eq unat_gt_0)
  then have s: "unat (n + (d - 1)) = unat n + (unat d - 1)"
    using assms(2) by (simp add: unat_add_exact)
  show ?thesis by (simp add: unat_sub_exact unat_mod_exact s)
qed

lemma round_guard_32:
  assumes "0 < d"
  shows "UINT32_MAX - d + 1 < (n :: u32) \<longleftrightarrow> 2 ^ 32 < unat n + unat d"
proof -
  have d: "1 \<le> unat d" "unat d \<le> 4294967295"
    using assms unat_u32_less [of d] by (simp_all add: Suc_le_eq unat_gt_0)
  have "unat (UINT32_MAX - d) = 4294967295 - unat d"
    using d by (simp add: unat_sub_exact)
  then have "unat (UINT32_MAX - d + 1) = 4294967296 - unat d"
    using d unat_add_exact [of "UINT32_MAX - d" 1] by simp
  then show ?thesis using d by (auto simp: word_less_nat_alt)
qed

lemma round_guard_64:
  assumes "0 < d"
  shows "UINT64_MAX - d + 1 < (n :: u64) \<longleftrightarrow> 2 ^ 64 < unat n + unat d"
proof -
  have d: "1 \<le> unat d" "unat d \<le> 18446744073709551615"
    using assms unat_u64_less [of d] by (simp_all add: Suc_le_eq unat_gt_0)
  have "unat (UINT64_MAX - d) = 18446744073709551615 - unat d"
    using d by (simp add: unat_sub_exact)
  then have "unat (UINT64_MAX - d + 1) = 18446744073709551616 - unat d"
    using d unat_add_exact [of "UINT64_MAX - d" 1] by simp
  then show ?thesis using d by (auto simp: word_less_nat_alt)
qed

lemma round_uint32_cases:
  assumes "0 < d"
  obtains "2 ^ 32 < unat n + unat d" "round_uint32_to_next_multiple_of n d = Some UINT32_MAX"
  | m where "unat n + unat d \<le> 2 ^ 32" "round_uint32_to_next_multiple_of n d = Some m"
      "is_round_up (unat n) (unat d) (unat m)"
proof (cases "2 ^ 32 < unat n + unat d")
  case True
  then show ?thesis
    using that(1) assms round_guard_32 [OF assms, of n]
    by (simp add: round_uint32_to_next_multiple_of_def)
next
  case False
  have d: "0 < unat d" using assms by (simp add: unat_gt_0)
  define m where "m = n + (d - 1) - (n + (d - 1)) mod d"
  have "unat m = unat n + (unat d - 1) - (unat n + (unat d - 1)) mod unat d"
    unfolding m_def using assms False d by (intro round_word_body) simp_all
  then have "is_round_up (unat n) (unat d) (unat m)"
    using round_up_nat [OF d, of "unat n"] by simp
  then show ?thesis
    using that(2) [of m] False assms round_guard_32 [OF assms, of n]
    by (simp add: round_uint32_to_next_multiple_of_def m_def Let_def)
qed

lemma round_uint64_cases:
  assumes "0 < d"
  obtains "2 ^ 64 < unat n + unat d" "round_uint64_to_next_multiple_of n d = Some UINT64_MAX"
  | m where "unat n + unat d \<le> 2 ^ 64" "round_uint64_to_next_multiple_of n d = Some m"
      "is_round_up (unat n) (unat d) (unat m)"
proof (cases "2 ^ 64 < unat n + unat d")
  case True
  then show ?thesis
    using that(1) assms round_guard_64 [OF assms, of n]
    by (simp add: round_uint64_to_next_multiple_of_def)
next
  case False
  have d: "0 < unat d" using assms by (simp add: unat_gt_0)
  define m where "m = n + (d - 1) - (n + (d - 1)) mod d"
  have "unat m = unat n + (unat d - 1) - (unat n + (unat d - 1)) mod unat d"
    unfolding m_def using assms False d by (intro round_word_body) simp_all
  then have "is_round_up (unat n) (unat d) (unat m)"
    using round_up_nat [OF d, of "unat n"] by simp
  then show ?thesis
    using that(2) [of m] False assms round_guard_64 [OF assms, of n]
    by (simp add: round_uint64_to_next_multiple_of_def m_def Let_def)
qed

lemma round_to_next_eq: "round_to_next_multiple_of = round_uint32_to_next_multiple_of"
  by (simp add: fun_eq_iff round_to_next_multiple_of_def round_uint32_to_next_multiple_of_def)

section \<open>Greatest common divisor and fractions\<close>

lemma unat_gcd64: "unat (gcd64 a b) = gcd (unat a) (unat b)"
proof (induction a b rule: gcd64.induct)
  case (1 a b)
  show ?case
  proof (cases "b = 0")
    case True
    then show ?thesis by (simp add: gcd64.simps)
  next
    case False
    then have "unat (gcd64 a b) = gcd (unat b) (unat a mod unat b)"
      using "1.IH" by (simp add: gcd64.simps [of a b] unat_mod_exact)
    then show ?thesis by (simp add: gcd.commute flip: gcd_red_nat)
  qed
qed

text \<open>\<open>simplify_fraction64\<close> keeps the value of the fraction and leaves it in lowest terms.\<close>

lemma simplify_fraction64_lowest:
  assumes "denom > 0"
  shows "\<exists>p q. simplify_fraction64 numer denom = Some (p, q) \<and> coprime (unat p) (unat q) \<and>
    unat p * unat denom = unat numer * unat q \<and> q > 0"
proof -
  define g where "g = gcd (unat numer) (unat denom)"
  have d: "0 < unat denom" using assms by (simp add: unat_gt_0)
  then have g: "0 < g" by (simp add: g_def)
  have ug: "unat (gcd64 numer denom) = g" by (simp add: unat_gcd64 g_def)
  then have g0: "gcd64 numer denom \<noteq> 0" using g by auto
  obtain p' q' where pq: "unat numer = p' * g" "unat denom = q' * g" "coprime p' q'"
    using gcd_coprime_exists [of "unat numer" "unat denom"] g unfolding g_def by auto
  have "unat (numer div gcd64 numer denom) = p'" "unat (denom div gcd64 numer denom) = q'"
    using g by (simp_all add: unat_div_exact ug pq)
  then have "simplify_fraction64 numer denom =
      Some (numer div gcd64 numer denom, denom div gcd64 numer denom) \<and>
      coprime (unat (numer div gcd64 numer denom)) (unat (denom div gcd64 numer denom)) \<and>
      unat (numer div gcd64 numer denom) * unat denom =
        unat numer * unat (denom div gcd64 numer denom) \<and> denom div gcd64 numer denom > 0"
    using g0 pq d by (simp add: simplify_fraction64_def word_less_nat_alt Let_def)
  then show ?thesis by blast
qed

section \<open>The weak random generator\<close>

text \<open>The sum \<open>1 + a + ... + a^(n-1)\<close>; for \<open>a mod 4 = 1\<close> it is divisible by exactly the
  powers of two that divide \<open>n\<close>, which makes the generator's period maximal.\<close>

definition geo :: "nat \<Rightarrow> nat \<Rightarrow> nat" where
  "geo a n = (\<Sum>i<n. a ^ i)"

lemma geo_0 [simp]: "geo a 0 = 0" and geo_Suc: "geo a (Suc n) = a * geo a n + 1"
proof -
  show "geo a 0 = 0" by (simp add: geo_def)
  show "geo a (Suc n) = a * geo a n + 1"
    by (simp add: geo_def sum.lessThan_Suc_shift sum_distrib_left del: sum.lessThan_Suc)
qed

lemma geo_add: "geo a (m + n) = geo a m + a ^ m * geo a n"
  by (induction m) (simp_all add: geo_Suc algebra_simps)

lemma pow_mod_4: "a mod 4 = 1 \<Longrightarrow> a ^ n mod 4 = (1 :: nat)"
  by (metis mod_mod_trivial power_mod power_one)

lemma geo_parity: "odd a \<Longrightarrow> even (geo a n) \<longleftrightarrow> even n"
  by (induction n) (simp_all add: geo_Suc)

lemma geo_double: "geo a (2 * m) = geo a m * (1 + a ^ m)"
  unfolding mult_2 geo_add by (simp add: algebra_simps)

lemma pow2_dvd_odd_mult: "odd q \<Longrightarrow> 2 ^ k dvd g * q \<longleftrightarrow> 2 ^ k dvd (g :: nat)"
  by (simp add: coprime_dvd_mult_left_iff)

lemma pow2_dvd_geo:
  assumes a: "a mod 4 = 1"
  shows "2 ^ k dvd geo a n \<longleftrightarrow> 2 ^ k dvd n"
proof (induction k arbitrary: n)
  case 0
  then show ?case by simp
next
  case (Suc k)
  have "odd a" using a by presburger
  show ?case
  proof (cases "even n")
    case False
    then have "\<not> 2 ^ Suc k dvd n" "\<not> 2 ^ Suc k dvd geo a n"
      using geo_parity [OF \<open>odd a\<close>, of n] by (auto dest: dvd_mult_left)
    then show ?thesis by simp
  next
    case True
    then obtain m where m: "n = 2 * m" by blast
    have "(1 + a ^ m) mod 4 = 2" using pow_mod_4 [OF a, of m] by presburger
    define q where "q = (1 + a ^ m) div 2"
    have q: "1 + a ^ m = 2 * q" "odd q"
      using \<open>(1 + a ^ m) mod 4 = 2\<close> unfolding q_def by presburger+
    have "2 ^ Suc k dvd geo a n \<longleftrightarrow> 2 ^ k dvd geo a m * q"
      unfolding m geo_double q(1) by (simp add: mult.left_commute)
    also have "\<dots> \<longleftrightarrow> 2 ^ k dvd geo a m"
      by (rule pow2_dvd_odd_mult [OF q(2)])
    also have "\<dots> \<longleftrightarrow> 2 ^ Suc k dvd n" by (simp add: Suc.IH m)
    finally show ?thesis .
  qed
qed

lemma mod_affine: "(y mod m * a + c) mod m = (y * a + c) mod (m :: nat)"
  by (metis mod_add_left_eq mod_mult_left_eq)

lemma mod_add_self_dvd: "(y + g) mod m = y mod m \<Longrightarrow> m dvd (g :: nat)"
  using mod_eq_dvd_iff_nat [of y "y + g" m] by simp

text \<open>A linear congruential generator modulo a power of two, with the parameters that give
  it full period.\<close>

definition lcg_step :: "nat \<Rightarrow> nat \<Rightarrow> nat \<Rightarrow> nat \<Rightarrow> nat" where
  "lcg_step a c k x = (x * a + c) mod 2 ^ k"

locale full_period_lcg =
  fixes a c k :: nat
  assumes a_mod_4: "a mod 4 = 1" and c_odd: "odd c"
begin

abbreviation lcg :: "nat \<Rightarrow> nat" where "lcg \<equiv> lcg_step a c k"

lemma a_split: "a = (a - 1) + 1" and a_pred_even: "even (a - 1)"
  using a_mod_4 by presburger+

lemma lcg_iter: "(lcg ^^ n) x mod 2 ^ k = (x + geo a n * ((a - 1) * x + c)) mod 2 ^ k"
proof (induction n)
  case 0
  then show ?case by simp
next
  case (Suc n)
  define b where "b = a - 1"
  have a: "a = b + 1" using a_split by (simp add: b_def)
  have "(lcg ^^ Suc n) x mod 2 ^ k = ((lcg ^^ n) x mod 2 ^ k * a + c) mod 2 ^ k"
    by (simp add: lcg_step_def mod_affine)
  also have "\<dots> = ((x + geo a n * (b * x + c)) * a + c) mod 2 ^ k"
    unfolding Suc.IH b_def by (rule mod_affine)
  also have "(x + geo a n * (b * x + c)) * a + c = x + geo a (Suc n) * (b * x + c)"
    by (simp add: geo_Suc algebra_simps) (simp add: a algebra_simps)
  finally show ?case by (simp add: b_def)
qed

lemma lcg_iter_less: "0 < n \<Longrightarrow> (lcg ^^ n) x < 2 ^ k"
  by (cases n) (simp_all add: lcg_step_def)

lemma lcg_inj:
  assumes "i < j" "j \<le> 2 ^ k" "0 < i"
  shows "(lcg ^^ i) x \<noteq> (lcg ^^ j) x"
proof
  assume eq: "(lcg ^^ i) x = (lcg ^^ j) x"
  define y where "y = (lcg ^^ i) x"
  define n where "n = j - i"
  have "j = n + i" using assms(1) by (simp add: n_def)
  then have "(lcg ^^ j) x = (lcg ^^ n) y" by (simp add: y_def funpow_add)
  then have "(y + geo a n * ((a - 1) * y + c)) mod 2 ^ k = y mod 2 ^ k"
    using eq lcg_iter [of n y] by (simp add: y_def)
  then have "2 ^ k dvd geo a n * ((a - 1) * y + c)"
    by (rule mod_add_self_dvd)
  moreover have "odd ((a - 1) * y + c)" using a_pred_even c_odd by simp
  ultimately have "2 ^ k dvd geo a n" using pow2_dvd_odd_mult by blast
  then have "2 ^ k dvd n" using pow2_dvd_geo [OF a_mod_4] by blast
  then have "2 ^ k \<le> n" using assms(1) by (intro dvd_imp_le) (simp_all add: n_def)
  then show False using assms unfolding n_def by linarith
qed

text \<open>Every value is drawn within one period.\<close>

lemma lcg_hits_all: "v < 2 ^ k \<Longrightarrow> \<exists>n. (lcg ^^ Suc n) x = v"
proof -
  assume v: "v < 2 ^ k"
  let ?f = "\<lambda>n. (lcg ^^ n) x"
  have "inj_on ?f {1..2 ^ k}"
    by (rule linorder_inj_onI) (use lcg_inj [of _ _ x] in \<open>auto simp: Suc_le_eq\<close>)
  moreover have "?f ` {1..2 ^ k} \<subseteq> {..<2 ^ k}" using lcg_iter_less [of _ x] by fastforce
  ultimately have "?f ` {1..2 ^ k} = {..<2 ^ k}"
    by (intro card_subset_eq) (simp_all add: card_image)
  with v have "v \<in> ?f ` {1..2 ^ k}" by blast
  then obtain n where "n \<in> {1..2 ^ k}" "?f n = v" by blast
  then show ?thesis by (cases n) auto
qed

end

text \<open>The constants of \<open>tor_weak_random\<close>.\<close>

abbreviation weak_lcg :: "nat \<Rightarrow> nat" where
  "weak_lcg \<equiv> lcg_step 1103515245 12345 31"

interpretation weak: full_period_lcg 1103515245 12345 31
  by unfold_locales simp_all

lemma tor_weak_random_lcg:
  "unat (rng_state (fst (tor_weak_random rng))) = weak_lcg (unat (rng_state rng))"
  "snd (tor_weak_random rng) = int (weak_lcg (unat (rng_state rng)))"
proof -
  define s where "s = rng_state rng * 1103515245 + 12345"
  have m: "s AND 0x7fffffff = take_bit 31 s"
    by (simp add: take_bit_eq_mask mask_eq_exp_minus_1)
  have "unat (s AND 0x7fffffff) = unat s mod 2 ^ 31"
    unfolding m by (metis take_bit_eq_mod unsigned_take_bit_eq)
  also have "\<dots> = weak_lcg (unat (rng_state rng))"
    by (simp add: s_def lcg_step_def unat_word_ariths mod_mod_cancel mod_simps)
  finally have u: "unat (s AND 0x7fffffff) = weak_lcg (unat (rng_state rng))" .
  moreover have "uint (s AND 0x7fffffff) = int (unat (s AND 0x7fffffff))" by simp
  ultimately show "unat (rng_state (fst (tor_weak_random rng))) = weak_lcg (unat (rng_state rng))"
    "snd (tor_weak_random rng) = int (weak_lcg (unat (rng_state rng)))"
    by (simp_all add: tor_weak_random_def Let_def flip: s_def)
qed

lemma weak_random_loop_returns:
  "int ((weak_lcg ^^ Suc n) (unat (rng_state rng))) div dv < limit \<Longrightarrow>
     \<exists>r. weak_random_loop rng dv limit = Some r"
proof (induction n arbitrary: rng)
  case 0
  then show ?case
    by (subst weak_random_loop.simps)
      (simp add: tor_weak_random_lcg case_prod_unfold Let_def)
next
  case (Suc n)
  obtain rng' v where d: "tor_weak_random rng = (rng', v)" by (cases "tor_weak_random rng")
  have "unat (rng_state rng') = weak_lcg (unat (rng_state rng))"
    using tor_weak_random_lcg(1) [of rng] by (simp add: d)
  then have "int ((weak_lcg ^^ Suc n) (unat (rng_state rng'))) div dv < limit"
    using Suc.prems by (simp add: funpow_swap1)
  from Suc.IH [OF this] show ?case
    by (subst weak_random_loop.simps) (auto simp: d Let_def)
qed

lemma weak_random_loop_range:
  assumes "weak_random_loop rng dv limit = Some r" "0 < dv"
  shows "0 \<le> snd r \<and> snd r < limit"
proof -
  have "0 < dv \<longrightarrow> 0 \<le> snd r \<and> snd r < limit"
  proof (rule weak_random_loop.raw_induct
      [where P = "\<lambda>rng dv limit r. 0 < dv \<longrightarrow> 0 \<le> snd r \<and> snd r < limit", OF _ assms(1)])
    fix f rng dv limit and r :: "tor_weak_rng_t \<times> int"
    assume IH: "\<And>rng dv limit r. f rng dv limit = Some r \<Longrightarrow> 0 < dv \<longrightarrow> 0 \<le> snd r \<and> snd r < limit"
      and eq: "(let (rng', v) = tor_weak_random rng; result = v div dv
        in if limit \<le> result then f rng' dv limit else Some (rng', result)) = Some r"
    obtain rng' v where d: "tor_weak_random rng = (rng', v)" by (cases "tor_weak_random rng")
    have "0 \<le> v" using tor_weak_random_lcg(2) [of rng] by (simp add: d)
    then have "0 < dv \<Longrightarrow> 0 \<le> v div dv" by (simp add: pos_imp_zdiv_nonneg_iff)
    then show "0 < dv \<longrightarrow> 0 \<le> snd r \<and> snd r < limit"
      using eq IH [of rng' dv limit r] by (auto simp: d Let_def split: if_splits)
  qed
  with assms(2) show ?thesis by simp
qed

section \<open>Properties\<close>

text \<open>C40: for every positive limit of the C type \<open>int\<close> and from any state of the generator,
  \<open>tor_weak_random_range\<close> returns (its rejection loop ends), and the value it returns is at
  least 0 and below the limit.\<close>

theorem tor_weak_random_range_total:
  assumes "0 < limit" "limit \<le> INT32_MAX"
  shows "\<exists>rng' r. tor_weak_random_range rng limit = Some (rng', r) \<and> 0 \<le> r \<and> r < limit"
proof -
  define dv where "dv = TOR_WEAK_RANDOM_MAX div limit"
  have dv: "0 < dv"
    using assms by (simp add: dv_def TOR_WEAK_RANDOM_MAX_def pos_imp_zdiv_pos_iff)
  obtain n where "(weak_lcg ^^ Suc n) (unat (rng_state rng)) = 0"
    using weak.lcg_hits_all [of 0 "unat (rng_state rng)"] by auto
  then have "int ((weak_lcg ^^ Suc n) (unat (rng_state rng))) div dv < limit"
    using assms(1) by (simp del: funpow.simps)
  then obtain r where r: "weak_random_loop rng dv limit = Some r"
    using weak_random_loop_returns by blast
  then have "tor_weak_random_range rng limit = Some (fst r, snd r)"
    using assms(1) by (simp add: tor_weak_random_range_def dv_def)
  then show ?thesis using weak_random_loop_range [OF r dv] by blast
qed

theorem tor_weak_random_range_total_witness:
  "\<exists>rng' r. tor_weak_random_range (tor_init_weak_random 12345) 6 = Some (rng', r) \<and> 0 \<le> r \<and> r < 6"
  using tor_weak_random_range_total [of 6 "tor_init_weak_random 12345"] by simp

text \<open>The three functions that round up to a multiple of a positive divisor fail only on
  a zero divisor, return the least multiple that is not below the number as long as number
  plus divisor does not exceed the type's range, and saturate beyond that, even when the
  number is a multiple itself.\<close>

theorem round_to_next_multiple:
  "(round_uint32_to_next_multiple_of n d = None \<longleftrightarrow> d = 0) \<and>
   (round_uint64_to_next_multiple_of n' d' = None \<longleftrightarrow> d' = 0) \<and>
   round_to_next_multiple_of n d = round_uint32_to_next_multiple_of n d \<and>
   (\<forall>m. round_uint32_to_next_multiple_of n d = Some m \<longrightarrow>
      (if unat n + unat d \<le> 2 ^ 32 then is_round_up (unat n) (unat d) (unat m) else m = UINT32_MAX)) \<and>
   (\<forall>m. round_uint64_to_next_multiple_of n' d' = Some m \<longrightarrow>
      (if unat n' + unat d' \<le> 2 ^ 64 then is_round_up (unat n') (unat d') (unat m) else m = UINT64_MAX))"
proof (intro conjI)
  show "round_uint32_to_next_multiple_of n d = None \<longleftrightarrow> d = 0"
    "round_uint64_to_next_multiple_of n' d' = None \<longleftrightarrow> d' = 0"
    by (simp_all add: round_uint32_to_next_multiple_of_def round_uint64_to_next_multiple_of_def
        Let_def word_gt_0)
  show "round_to_next_multiple_of n d = round_uint32_to_next_multiple_of n d"
    by (simp add: round_to_next_eq)
  show "\<forall>m. round_uint32_to_next_multiple_of n d = Some m \<longrightarrow>
      (if unat n + unat d \<le> 2 ^ 32 then is_round_up (unat n) (unat d) (unat m) else m = UINT32_MAX)"
  proof (cases "0 < d")
    case True
    then show ?thesis by (rule round_uint32_cases [of d n]) auto
  qed (simp add: round_uint32_to_next_multiple_of_def)
  show "\<forall>m. round_uint64_to_next_multiple_of n' d' = Some m \<longrightarrow>
      (if unat n' + unat d' \<le> 2 ^ 64 then is_round_up (unat n') (unat d') (unat m) else m = UINT64_MAX)"
  proof (cases "0 < d'")
    case True
    then show ?thesis by (rule round_uint64_cases [of d' n']) auto
  qed (simp add: round_uint64_to_next_multiple_of_def)
qed

theorem round_to_next_multiple_witness:
  "is_round_up 13 5 15 \<and> round_uint32_to_next_multiple_of 13 5 = Some 15 \<and>
   round_uint32_to_next_multiple_of 4294967290 10 = Some UINT32_MAX \<and> 10 dvd (4294967290 :: nat)"
  using round_to_next_multiple [of 13 5 13 5]
  by (simp add: round_uint32_to_next_multiple_of_def)

text \<open>\<open>round_to_power_of_2\<close> returns a power of two that is representable in 64 bits, no
  representable power of two is closer to its argument, and of two equally close ones it is
  the lower.\<close>

theorem round_to_power_of_2_is_nearest:
  fixes u :: u64
  shows "\<exists>r<64. unat (round_to_power_of_2 u) = 2 ^ r \<and>
     (\<forall>k<64. \<bar>2 ^ r - int (unat u)\<bar> \<le> \<bar>2 ^ k - int (unat u)\<bar> \<and>
        (\<bar>2 ^ k - int (unat u)\<bar> = \<bar>2 ^ r - int (unat u)\<bar> \<longrightarrow> r \<le> k))"
  by (rule round_to_power_of_2_nearest)

theorem round_to_power_of_2_is_nearest_witness:
  "\<exists>r<64. unat (round_to_power_of_2 6) = 2 ^ r \<and> round_to_power_of_2 6 = 4"
  using round_to_power_of_2_is_nearest [of 6]
  by (auto simp: round_to_power_of_2_def tor_log2_def log2_step_def word_le_nat_alt)

text \<open>\<open>tor_add_u32_nowrap\<close> and \<open>tor_mul_u64_nowrap\<close> are addition and multiplication that
  saturate at the largest value of their type, and never wrap.\<close>

theorem nowrap_saturates:
  "unat (tor_add_u32_nowrap a b) = min (unat a + unat b) (2 ^ 32 - 1) \<and>
   unat (tor_mul_u64_nowrap c d) = min (unat c * unat d) (2 ^ 64 - 1)"
  by (simp only: tor_add_u32_nowrap_saturates tor_mul_u64_nowrap_saturates simp_thms)

text \<open>\<open>simplify_fraction64\<close> on a fraction with a positive denominator keeps the value of
  the fraction and leaves numerator and denominator without a common divisor; \<open>gcd64\<close>, on
  which it rests, terminates with the greatest common divisor.\<close>

theorem simplify_fraction64_lowest_terms:
  assumes "denom > 0"
  shows "unat (gcd64 numer denom) = gcd (unat numer) (unat denom) \<and>
    (\<exists>p q. simplify_fraction64 numer denom = Some (p, q) \<and> coprime (unat p) (unat q) \<and>
      unat p * unat denom = unat numer * unat q \<and> q > 0)"
  using unat_gcd64 simplify_fraction64_lowest [OF assms] by blast

theorem simplify_fraction64_lowest_terms_witness:
  "\<exists>p q. simplify_fraction64 6 4 = Some (p, q) \<and> coprime (unat p) (unat q) \<and> unat p * 4 = 6 * unat q"
  using simplify_fraction64_lowest_terms [of 4 6] by auto

text \<open>\<open>n_bits_set_u8\<close>, which adds two table entries, is the number of bits set in the
  byte.\<close>

theorem n_bits_set_u8_counts:
  "n_bits_set_u8 v = card {i. i < 8 \<and> bit v i}"
proof -
  have "n_bits_set_u8 v = length (filter (bit v) [0..<8])" by (rule n_bits_set_u8_popcount)
  also have "\<dots> = card (set (filter (bit v) [0..<8]))"
    by (rule distinct_card [symmetric]) simp
  also have "set (filter (bit v) [0..<8]) = {i. i < 8 \<and> bit v i}" by auto
  finally show ?thesis .
qed

end
