(* ===== verification/Token_Bucket.thy ===== *)
theory Token_Bucket
  imports Tor_Prelude
begin

text \<open>
  The token buckets of \<open>lib/evloop/token_bucket.c\<close>, which limit the bandwidth of
  connections and the rate of circuit creation.  A bucket level is a signed 32-bit field
  that may be negative; refilling works on unsigned 64-bit and 32-bit intermediates whose
  wrap-around is kept.  A division by a zero rate, which the code only warns about when a
  configuration is set, is \<open>None\<close>.
\<close>

section \<open>Definitions\<close>

record token_bucket_cfg_t =
  cfg_rate :: u32
  cfg_burst :: int

record token_bucket_raw_t =
  bucket :: int

record token_bucket_rw_t =
  rw_cfg :: token_bucket_cfg_t
  read_bucket :: token_bucket_raw_t
  write_bucket :: token_bucket_raw_t
  rw_last_refilled :: u32

record token_bucket_ctr_t =
  ctr_cfg :: token_bucket_cfg_t
  counter :: token_bucket_raw_t
  ctr_last_refilled :: u32

definition TOKEN_BUCKET_MAX_BURST :: u32 where
  "TOKEN_BUCKET_MAX_BURST = 2147483647"

definition TICKS_PER_STEP :: nat where
  "TICKS_PER_STEP = 16"

definition STAMP_TICKS_PER_SECOND :: u64 where
  "STAMP_TICKS_PER_SECOND = 953"

definition TB_READ :: nat where "TB_READ = 1"
definition TB_WRITE :: nat where "TB_WRITE = 2"

definition token_bucket_cfg_init :: "u32 \<Rightarrow> u32 \<Rightarrow> token_bucket_cfg_t" where
  "token_bucket_cfg_init rate burst =
     (let burst = (if burst > TOKEN_BUCKET_MAX_BURST then TOKEN_BUCKET_MAX_BURST else burst)
      in \<lparr>cfg_rate = rate, cfg_burst = sint burst\<rparr>)"

definition token_bucket_raw_reset ::
    "token_bucket_raw_t \<Rightarrow> token_bucket_cfg_t \<Rightarrow> token_bucket_raw_t" where
  "token_bucket_raw_reset b cfg = b\<lparr>bucket := cfg_burst cfg\<rparr>"

definition token_bucket_raw_adjust ::
    "token_bucket_raw_t \<Rightarrow> token_bucket_cfg_t \<Rightarrow> token_bucket_raw_t" where
  "token_bucket_raw_adjust b cfg =
     b\<lparr>bucket := (if bucket b > cfg_burst cfg then cfg_burst cfg else bucket b)\<rparr>"

definition token_bucket_raw_refill_steps ::
    "token_bucket_raw_t \<Rightarrow> token_bucket_cfg_t \<Rightarrow> u32 \<Rightarrow> (token_bucket_raw_t \<times> bool) option" where
  "token_bucket_raw_refill_steps b cfg elapsed =
     (let was_empty = (bucket b \<le> 0);
          gap = (word_of_int (cfg_burst cfg) :: u64) - word_of_int (bucket b)
      in if cfg_rate cfg = 0 then None
         else let b' = (if ucast elapsed > gap div ucast (cfg_rate cfg)
                        then b\<lparr>bucket := cfg_burst cfg\<rparr>
                        else b\<lparr>bucket := sint ((word_of_int (bucket b) :: u32) + cfg_rate cfg * elapsed)\<rparr>)
              in Some (b', was_empty \<and> bucket b' > 0))"

text \<open>\<open>n\<close> is a 64-bit \<open>ssize_t\<close>; the difference is truncated to the 32-bit field.\<close>

definition token_bucket_raw_dec :: "token_bucket_raw_t \<Rightarrow> int \<Rightarrow> token_bucket_raw_t \<times> bool" where
  "token_bucket_raw_dec b n =
     (if n < 0 then (b, False)
      else let becomes_empty = (bucket b > 0 \<and> n \<ge> bucket b)
           in (b\<lparr>bucket := to_int32 (bucket b - n)\<rparr>, becomes_empty))"

definition token_bucket_raw_get :: "token_bucket_raw_t \<Rightarrow> int" where
  "token_bucket_raw_get b = (if bucket b \<ge> 0 then bucket b else 0)"

definition monotime_coarse_stamp_units_to_approx_msec :: "u64 \<Rightarrow> u64" where
  "monotime_coarse_stamp_units_to_approx_msec units = (units * 1000) div STAMP_TICKS_PER_SECOND"

definition rate_per_sec_to_rate_per_step :: "u32 \<Rightarrow> u32" where
  "rate_per_sec_to_rate_per_step rate =
     (let units = (ucast rate :: u64) * of_nat TICKS_PER_STEP;
          val = (ucast (monotime_coarse_stamp_units_to_approx_msec units div 1000) :: u32)
      in if val \<noteq> 0 then val else 1)"

definition token_bucket_rw_adjust :: "token_bucket_rw_t \<Rightarrow> u32 \<Rightarrow> u32 \<Rightarrow> token_bucket_rw_t" where
  "token_bucket_rw_adjust b rate burst =
     (let cfg = token_bucket_cfg_init (rate_per_sec_to_rate_per_step rate) burst
      in b\<lparr>rw_cfg := cfg,
           read_bucket := token_bucket_raw_adjust (read_bucket b) cfg,
           write_bucket := token_bucket_raw_adjust (write_bucket b) cfg\<rparr>)"

definition token_bucket_rw_reset :: "token_bucket_rw_t \<Rightarrow> u32 \<Rightarrow> token_bucket_rw_t" where
  "token_bucket_rw_reset b now_ts_stamp =
     b\<lparr>read_bucket := token_bucket_raw_reset (read_bucket b) (rw_cfg b),
       write_bucket := token_bucket_raw_reset (write_bucket b) (rw_cfg b),
       rw_last_refilled := now_ts_stamp\<rparr>"

definition token_bucket_rw_init :: "u32 \<Rightarrow> u32 \<Rightarrow> u32 \<Rightarrow> token_bucket_rw_t" where
  "token_bucket_rw_init rate burst now_ts_stamp =
     (let b = \<lparr>rw_cfg = \<lparr>cfg_rate = 0, cfg_burst = 0\<rparr>, read_bucket = \<lparr>bucket = 0\<rparr>,
               write_bucket = \<lparr>bucket = 0\<rparr>, rw_last_refilled = 0\<rparr>;
          b = token_bucket_rw_adjust b rate burst
      in token_bucket_rw_reset b now_ts_stamp)"

definition token_bucket_rw_refill ::
    "token_bucket_rw_t \<Rightarrow> u32 \<Rightarrow> (token_bucket_rw_t \<times> nat) option" where
  "token_bucket_rw_refill b now_ts_stamp =
     (let elapsed_ticks = now_ts_stamp - rw_last_refilled b
      in if elapsed_ticks \<le> UINT32_MAX div 4 then
           (let elapsed_steps = elapsed_ticks div of_nat TICKS_PER_STEP
            in if elapsed_steps = 0 then Some (b, 0)
               else case token_bucket_raw_refill_steps (read_bucket b) (rw_cfg b) elapsed_steps of
                 None \<Rightarrow> None
               | Some (rb, r) \<Rightarrow>
                   (case token_bucket_raw_refill_steps (write_bucket b) (rw_cfg b) elapsed_steps of
                      None \<Rightarrow> None
                    | Some (wb, w) \<Rightarrow>
                        Some (b\<lparr>read_bucket := rb, write_bucket := wb,
                                rw_last_refilled := now_ts_stamp\<rparr>,
                              (if r then TB_READ else 0) + (if w then TB_WRITE else 0))))
         else Some (b\<lparr>rw_last_refilled := now_ts_stamp\<rparr>, 0))"

definition token_bucket_rw_dec_read :: "token_bucket_rw_t \<Rightarrow> int \<Rightarrow> token_bucket_rw_t \<times> bool" where
  "token_bucket_rw_dec_read b n =
     (let (rb, r) = token_bucket_raw_dec (read_bucket b) n in (b\<lparr>read_bucket := rb\<rparr>, r))"

definition token_bucket_rw_dec_write :: "token_bucket_rw_t \<Rightarrow> int \<Rightarrow> token_bucket_rw_t \<times> bool" where
  "token_bucket_rw_dec_write b n =
     (let (wb, w) = token_bucket_raw_dec (write_bucket b) n in (b\<lparr>write_bucket := wb\<rparr>, w))"

definition token_bucket_rw_dec :: "token_bucket_rw_t \<Rightarrow> int \<Rightarrow> int \<Rightarrow> token_bucket_rw_t \<times> nat" where
  "token_bucket_rw_dec b n_read n_written =
     (let (b, r) = token_bucket_rw_dec_read b n_read;
          (b, w) = token_bucket_rw_dec_write b n_written
      in (b, (if r then TB_READ else 0) + (if w then TB_WRITE else 0)))"

definition token_bucket_ctr_adjust :: "token_bucket_ctr_t \<Rightarrow> u32 \<Rightarrow> u32 \<Rightarrow> token_bucket_ctr_t" where
  "token_bucket_ctr_adjust b rate burst =
     (let cfg = token_bucket_cfg_init rate burst
      in b\<lparr>ctr_cfg := cfg, counter := token_bucket_raw_adjust (counter b) cfg\<rparr>)"

definition token_bucket_ctr_reset :: "token_bucket_ctr_t \<Rightarrow> u32 \<Rightarrow> token_bucket_ctr_t" where
  "token_bucket_ctr_reset b now_ts_sec =
     b\<lparr>counter := token_bucket_raw_reset (counter b) (ctr_cfg b), ctr_last_refilled := now_ts_sec\<rparr>"

definition token_bucket_ctr_init :: "u32 \<Rightarrow> u32 \<Rightarrow> u32 \<Rightarrow> token_bucket_ctr_t" where
  "token_bucket_ctr_init rate burst now_ts_sec =
     (let b = \<lparr>ctr_cfg = \<lparr>cfg_rate = 0, cfg_burst = 0\<rparr>, counter = \<lparr>bucket = 0\<rparr>, ctr_last_refilled = 0\<rparr>;
          b = token_bucket_ctr_adjust b rate burst
      in token_bucket_ctr_reset b now_ts_sec)"

definition token_bucket_ctr_refill :: "token_bucket_ctr_t \<Rightarrow> u32 \<Rightarrow> token_bucket_ctr_t option" where
  "token_bucket_ctr_refill b now_ts_sec =
     (let elapsed_sec = now_ts_sec - ctr_last_refilled b
      in if elapsed_sec \<le> UINT32_MAX div 4 then
           (case token_bucket_raw_refill_steps (counter b) (ctr_cfg b) elapsed_sec of
              None \<Rightarrow> None
            | Some (c, _) \<Rightarrow> Some (b\<lparr>counter := c, ctr_last_refilled := now_ts_sec\<rparr>))
         else Some (b\<lparr>ctr_last_refilled := now_ts_sec\<rparr>))"

definition token_bucket_ctr_dec :: "token_bucket_ctr_t \<Rightarrow> int \<Rightarrow> token_bucket_ctr_t \<times> bool" where
  "token_bucket_ctr_dec b n =
     (let (c, r) = token_bucket_raw_dec (counter b) n in (b\<lparr>counter := c\<rparr>, r))"

section \<open>The raw bucket refines a saturating counter\<close>

text \<open>A bucket agrees with its configuration: the rate is positive, the burst fits the field,
  and the level is a 32-bit value at most the burst.\<close>

definition cfg_ok :: "token_bucket_cfg_t \<Rightarrow> bool" where
  "cfg_ok cfg \<longleftrightarrow> cfg_rate cfg > 0 \<and> 0 \<le> cfg_burst cfg \<and> cfg_burst cfg < 2 ^ 31"

definition raw_ok :: "token_bucket_cfg_t \<Rightarrow> token_bucket_raw_t \<Rightarrow> bool" where
  "raw_ok cfg b \<longleftrightarrow> - (2 ^ 31) \<le> bucket b \<and> bucket b \<le> cfg_burst cfg"

text \<open>The tokens that \<open>t\<close> time units are worth.\<close>

definition refill_amount :: "token_bucket_cfg_t \<Rightarrow> nat \<Rightarrow> int" where
  "refill_amount cfg t = int (unat (cfg_rate cfg)) * int t"

lemma refill_amount_nonneg: "0 \<le> refill_amount cfg t"
  unfolding refill_amount_def by (intro mult_nonneg_nonneg) linarith+

lemma cfg_init_ok:
  assumes "rate > 0"
  shows "cfg_ok (token_bucket_cfg_init rate burst)"
    and "cfg_burst (token_bucket_cfg_init rate burst) = min (int (unat burst)) (2 ^ 31 - 1)"
proof -
  have b: "cfg_burst (token_bucket_cfg_init rate burst) = min (int (unat burst)) (2 ^ 31 - 1)"
    using unat_u32_less [of burst]
    by (auto simp: token_bucket_cfg_init_def TOKEN_BUCKET_MAX_BURST_def word_less_nat_alt
        sint_u32_eq min_def simp del: of_nat_unat)
  show "cfg_burst (token_bucket_cfg_init rate burst) = min (int (unat burst)) (2 ^ 31 - 1)"
    by (rule b)
  have "cfg_rate (token_bucket_cfg_init rate burst) = rate"
    by (simp add: token_bucket_cfg_init_def Let_def)
  then show "cfg_ok (token_bucket_cfg_init rate burst)"
    using assms by (simp add: cfg_ok_def b)
qed

lemma refill_gap:
  assumes "raw_ok cfg b" "cfg_ok cfg"
  shows "unat ((word_of_int (cfg_burst cfg) :: u64) - word_of_int (bucket b)) =
    nat (cfg_burst cfg - bucket b)"
proof -
  have "0 \<le> cfg_burst cfg - bucket b" "cfg_burst cfg - bucket b < 2 ^ 64"
    using assms by (simp_all add: raw_ok_def cfg_ok_def)
  then have "unat (word_of_int (cfg_burst cfg - bucket b) :: u64) = nat (cfg_burst cfg - bucket b)"
    by (rule unat_word_of_int_u64)
  then show ?thesis by simp
qed

text \<open>The comparison of the elapsed time with the quotient of the gap decides, without
  overflow, whether the refill reaches the burst.\<close>

lemma refill_guard:
  fixes elapsed :: u32
  assumes "raw_ok cfg b" "cfg_ok cfg"
  shows "ucast elapsed > ((word_of_int (cfg_burst cfg) :: u64) - word_of_int (bucket b)) div ucast (cfg_rate cfg)
    \<longleftrightarrow> bucket b + refill_amount cfg (unat elapsed) > cfg_burst cfg"
proof -
  define g where "g = cfg_burst cfg - bucket b"
  have g: "0 \<le> g" using assms(1) by (simp add: raw_ok_def g_def)
  have r: "0 < unat (cfg_rate cfg)" using assms(2) by (auto simp: cfg_ok_def word_less_nat_alt)
  have "ucast elapsed > ((word_of_int (cfg_burst cfg) :: u64) - word_of_int (bucket b)) div ucast (cfg_rate cfg)
    \<longleftrightarrow> nat g div unat (cfg_rate cfg) < unat elapsed"
    by (simp add: word_less_nat_alt unat_div_exact refill_gap [OF assms] g_def)
  also have "\<dots> \<longleftrightarrow> nat g < unat elapsed * unat (cfg_rate cfg)"
    using r by (simp add: div_less_iff_less_mult)
  also have "\<dots> \<longleftrightarrow> bucket b + refill_amount cfg (unat elapsed) > cfg_burst cfg"
  proof -
    have "int (unat elapsed * unat (cfg_rate cfg)) = refill_amount cfg (unat elapsed)"
      by (simp add: refill_amount_def del: of_nat_unat)
    then show ?thesis using g unfolding g_def by linarith
  qed
  finally show ?thesis .
qed

text \<open>Refilling is saturating addition on the integers: none of the wrap-arounds of the
  unsigned arithmetic can happen.\<close>

lemma refill_steps_saturates:
  fixes elapsed :: u32
  assumes "raw_ok cfg b" "cfg_ok cfg"
  defines "n \<equiv> min (cfg_burst cfg) (bucket b + refill_amount cfg (unat elapsed))"
  shows "token_bucket_raw_refill_steps b cfg elapsed =
    Some (b\<lparr>bucket := n\<rparr>, bucket b \<le> 0 \<and> 0 < n)"
proof -
  let ?m = "refill_amount cfg (unat elapsed)"
  have r: "cfg_rate cfg \<noteq> 0" using assms(2) by (auto simp: cfg_ok_def)
  have "sint ((word_of_int (bucket b) :: u32) + cfg_rate cfg * elapsed) = bucket b + ?m"
    if "bucket b + ?m \<le> cfg_burst cfg"
  proof -
    have "(word_of_int (bucket b) :: u32) + cfg_rate cfg * elapsed = word_of_int (bucket b + ?m)"
      by (simp add: refill_amount_def)
    moreover have "- (2 ^ 31) \<le> bucket b + ?m" "bucket b + ?m < 2 ^ 31"
      using that assms(1,2) refill_amount_nonneg [of cfg "unat elapsed"]
      by (auto simp: raw_ok_def cfg_ok_def)
    ultimately show ?thesis by (simp only: sint_word_of_int_u32 to_int32_id)
  qed
  then show ?thesis
    using refill_guard [OF assms(1,2), of elapsed] r
    by (auto simp: token_bucket_raw_refill_steps_def n_def Let_def min_def simp del: of_nat_unat)
qed

lemma refill_steps_ok:
  assumes "raw_ok cfg b" "cfg_ok cfg" "token_bucket_raw_refill_steps b cfg elapsed = Some (b', e)"
  shows "raw_ok cfg b'" "bucket b \<le> bucket b'"
proof -
  have "b' = b\<lparr>bucket := min (cfg_burst cfg) (bucket b + refill_amount cfg (unat elapsed))\<rparr>"
    using assms by (simp add: refill_steps_saturates)
  then show "raw_ok cfg b'" "bucket b \<le> bucket b'"
    using assms(1,2) refill_amount_nonneg [of cfg "unat elapsed"]
    by (auto simp: raw_ok_def cfg_ok_def min_def)
qed

lemma raw_dec_exact:
  assumes "raw_ok cfg b" "cfg_ok cfg" "0 \<le> n" "- (2 ^ 31) \<le> bucket b - n"
  shows "token_bucket_raw_dec b n = (b\<lparr>bucket := bucket b - n\<rparr>, bucket b > 0 \<and> n \<ge> bucket b)"
    and "raw_ok cfg (fst (token_bucket_raw_dec b n))"
proof -
  have "to_int32 (bucket b - n) = bucket b - n"
    using assms by (intro to_int32_id) (auto simp: raw_ok_def cfg_ok_def)
  then show "token_bucket_raw_dec b n = (b\<lparr>bucket := bucket b - n\<rparr>, bucket b > 0 \<and> n \<ge> bucket b)"
    using assms(3) by (simp add: token_bucket_raw_dec_def)
  then show "raw_ok cfg (fst (token_bucket_raw_dec b n))"
    using assms by (simp add: raw_ok_def)
qed

lemma raw_adjust_ok:
  "cfg_ok cfg \<Longrightarrow> - (2 ^ 31) \<le> bucket b \<Longrightarrow> raw_ok cfg (token_bucket_raw_adjust b cfg)"
  by (auto simp: raw_ok_def cfg_ok_def token_bucket_raw_adjust_def)

lemma raw_reset_ok: "cfg_ok cfg \<Longrightarrow> raw_ok cfg (token_bucket_raw_reset b cfg)"
  by (auto simp: raw_ok_def cfg_ok_def token_bucket_raw_reset_def)

section \<open>The coupled buckets\<close>

lemma rate_per_step_pos: "rate_per_sec_to_rate_per_step rate > 0"
  by (simp add: rate_per_sec_to_rate_per_step_def Let_def word_gt_0)

definition rw_ok :: "token_bucket_rw_t \<Rightarrow> bool" where
  "rw_ok b \<longleftrightarrow> cfg_ok (rw_cfg b) \<and> raw_ok (rw_cfg b) (read_bucket b) \<and> raw_ok (rw_cfg b) (write_bucket b)"

definition ctr_ok :: "token_bucket_ctr_t \<Rightarrow> bool" where
  "ctr_ok b \<longleftrightarrow> cfg_ok (ctr_cfg b) \<and> raw_ok (ctr_cfg b) (counter b)"

lemma rw_init_ok: "rw_ok (token_bucket_rw_init rate burst now)"
  using cfg_init_ok(1) [OF rate_per_step_pos]
  by (simp add: rw_ok_def token_bucket_rw_init_def token_bucket_rw_reset_def
      token_bucket_rw_adjust_def Let_def raw_reset_ok)

lemma rw_adjust_ok: "rw_ok b \<Longrightarrow> rw_ok (token_bucket_rw_adjust b rate burst)"
  using cfg_init_ok(1) [OF rate_per_step_pos]
  by (auto simp: rw_ok_def token_bucket_rw_adjust_def Let_def raw_ok_def [of "rw_cfg b"] intro: raw_adjust_ok)

lemma rw_reset_ok: "rw_ok b \<Longrightarrow> rw_ok (token_bucket_rw_reset b now)"
  by (simp add: rw_ok_def token_bucket_rw_reset_def raw_reset_ok)

lemma ctr_init_ok: "rate > 0 \<Longrightarrow> ctr_ok (token_bucket_ctr_init rate burst now)"
  using cfg_init_ok(1)
  by (simp add: ctr_ok_def token_bucket_ctr_init_def token_bucket_ctr_reset_def
      token_bucket_ctr_adjust_def Let_def raw_reset_ok)

lemma ctr_adjust_ok: "ctr_ok b \<Longrightarrow> rate > 0 \<Longrightarrow> ctr_ok (token_bucket_ctr_adjust b rate burst)"
  using cfg_init_ok(1)
  by (auto simp: ctr_ok_def token_bucket_ctr_adjust_def Let_def raw_ok_def [of "ctr_cfg b"] intro: raw_adjust_ok)

text \<open>The time a refill accounts for: jumps of more than a quarter of the clock's range are
  ignored.\<close>

definition accepted :: "u32 \<Rightarrow> u32 \<Rightarrow> nat" where
  "accepted since now = (if now - since \<le> UINT32_MAX div 4 then unat (now - since) else 0)"

lemma ctr_refill_exact:
  fixes now :: u32
  assumes "ctr_ok b"
  defines "n \<equiv> min (cfg_burst (ctr_cfg b))
      (bucket (counter b) + refill_amount (ctr_cfg b) (accepted (ctr_last_refilled b) now))"
  shows "token_bucket_ctr_refill b now =
    Some (b\<lparr>counter := (counter b)\<lparr>bucket := n\<rparr>, ctr_last_refilled := now\<rparr>)"
proof (cases "now - ctr_last_refilled b \<le> UINT32_MAX div 4")
  case True
  then show ?thesis
    using assms(1)
    by (simp add: token_bucket_ctr_refill_def Let_def ctr_ok_def refill_steps_saturates n_def accepted_def
        del: of_nat_unat)
next
  case False
  then have "n = bucket (counter b)" using assms(1) by (simp add: n_def accepted_def ctr_ok_def raw_ok_def refill_amount_def)
  then show ?thesis using False by (simp add: token_bucket_ctr_refill_def Let_def)
qed

lemma ctr_refill_ok:
  assumes "ctr_ok b" "token_bucket_ctr_refill b now = Some b'"
  shows "ctr_ok b'" "ctr_cfg b' = ctr_cfg b"
    "bucket (counter b') \<le> bucket (counter b) +
       refill_amount (ctr_cfg b) (accepted (ctr_last_refilled b) now)"
proof -
  show "ctr_ok b'" "ctr_cfg b' = ctr_cfg b"
    "bucket (counter b') \<le> bucket (counter b) +
       refill_amount (ctr_cfg b) (accepted (ctr_last_refilled b) now)"
    using assms refill_amount_nonneg [of "ctr_cfg b" "accepted (ctr_last_refilled b) now"]
    unfolding ctr_refill_exact [OF assms(1)]
    by (auto simp: ctr_ok_def raw_ok_def cfg_ok_def min_def)
qed

lemma ctr_dec_ok:
  assumes "ctr_ok b" "0 \<le> n" "- (2 ^ 31) \<le> bucket (counter b) - n"
  shows "ctr_ok (fst (token_bucket_ctr_dec b n))"
    "ctr_cfg (fst (token_bucket_ctr_dec b n)) = ctr_cfg b"
    "ctr_last_refilled (fst (token_bucket_ctr_dec b n)) = ctr_last_refilled b"
    "bucket (counter (fst (token_bucket_ctr_dec b n))) = bucket (counter b) - n"
proof -
  have *: "raw_ok (ctr_cfg b) (counter b)" "cfg_ok (ctr_cfg b)" using assms(1) by (simp_all add: ctr_ok_def)
  note raw_dec_exact [OF * assms(2,3)]
  then show "ctr_ok (fst (token_bucket_ctr_dec b n))"
    "ctr_cfg (fst (token_bucket_ctr_dec b n)) = ctr_cfg b"
    "ctr_last_refilled (fst (token_bucket_ctr_dec b n)) = ctr_last_refilled b"
    "bucket (counter (fst (token_bucket_ctr_dec b n))) = bucket (counter b) - n"
    using * by (simp_all add: token_bucket_ctr_dec_def ctr_ok_def)
qed

text \<open>The steps a refill of the coupled buckets accounts for.\<close>

definition accepted_steps :: "u32 \<Rightarrow> u32 \<Rightarrow> nat" where
  "accepted_steps since now = accepted since now div TICKS_PER_STEP"

definition filled :: "token_bucket_cfg_t \<Rightarrow> nat \<Rightarrow> token_bucket_raw_t \<Rightarrow> token_bucket_raw_t" where
  "filled cfg t b = b\<lparr>bucket := min (cfg_burst cfg) (bucket b + refill_amount cfg t)\<rparr>"

lemma filled_0: "raw_ok cfg b \<Longrightarrow> filled cfg 0 b = b"
  by (simp add: filled_def refill_amount_def raw_ok_def)

lemma filled_ok:
  assumes "raw_ok cfg b" "cfg_ok cfg"
  shows "raw_ok cfg (filled cfg t b)" "bucket b \<le> bucket (filled cfg t b)"
    "bucket (filled cfg t b) \<le> bucket b + refill_amount cfg t"
  using assms refill_amount_nonneg [of cfg t] by (auto simp: filled_def raw_ok_def cfg_ok_def)

lemma rw_refill_exact:
  fixes now :: u32
  assumes "rw_ok b"
  defines "t \<equiv> accepted_steps (rw_last_refilled b) now"
  shows "\<exists>ts fl. token_bucket_rw_refill b now =
      Some (b\<lparr>read_bucket := filled (rw_cfg b) t (read_bucket b),
              write_bucket := filled (rw_cfg b) t (write_bucket b), rw_last_refilled := ts\<rparr>, fl) \<and>
    ts = (if now - rw_last_refilled b \<le> UINT32_MAX div 4 \<and> t = 0 then rw_last_refilled b else now)"
proof -
  let ?e = "now - rw_last_refilled b"
  have ok: "raw_ok (rw_cfg b) (read_bucket b)" "raw_ok (rw_cfg b) (write_bucket b)" "cfg_ok (rw_cfg b)"
    using assms(1) by (simp_all add: rw_ok_def)
  have d: "unat (?e div of_nat TICKS_PER_STEP) = unat ?e div TICKS_PER_STEP"
    by (simp add: unat_div_exact TICKS_PER_STEP_def)
  show ?thesis
  proof (cases "?e \<le> UINT32_MAX div 4")
    case True
    then have t: "t = unat (?e div of_nat TICKS_PER_STEP)"
      by (simp add: t_def accepted_steps_def accepted_def d)
    show ?thesis
    proof (cases "t = 0")
      case True
      then have "?e div of_nat TICKS_PER_STEP = 0" using t by (metis unat_0 unat_inj_iff)
      with \<open>?e \<le> UINT32_MAX div 4\<close> True ok show ?thesis
        by (simp add: token_bucket_rw_refill_def Let_def filled_0)
    next
      case False
      then have "?e div of_nat TICKS_PER_STEP \<noteq> 0" using t by auto
      with \<open>?e \<le> UINT32_MAX div 4\<close> False ok show ?thesis
        by (simp add: token_bucket_rw_refill_def Let_def refill_steps_saturates filled_def t)
    qed
  next
    case False
    then have "t = 0" by (simp add: t_def accepted_steps_def accepted_def)
    with False ok show ?thesis by (simp add: token_bucket_rw_refill_def Let_def filled_0)
  qed
qed

section \<open>Rate limiting\<close>

text \<open>A sequence of refills and withdrawals, run with the operations of a bucket; \<open>None\<close> is a division by zero.
  A withdrawal is made whether or not the level covers it, as \<open>token_bucket_raw_dec\<close> does, so that the level may become
  negative.  The run also adds up what the refills were worth.\<close>

datatype ('t, 'n) limiter_event = Refill 't | Spend 'n

fun limiter_run :: "('s \<Rightarrow> 't \<Rightarrow> 's option) \<Rightarrow> ('s \<Rightarrow> 'n \<Rightarrow> 's) \<Rightarrow> ('s \<Rightarrow> 't \<Rightarrow> int) \<Rightarrow>
    's \<Rightarrow> ('t, 'n) limiter_event list \<Rightarrow> ('s \<times> int) option" where
  "limiter_run refill spend gain s [] = Some (s, 0)"
| "limiter_run refill spend gain s (Refill t # es) =
     (case refill s t of
        None \<Rightarrow> None
      | Some s' \<Rightarrow> map_option (\<lambda>(s'', g). (s'', g + gain s t)) (limiter_run refill spend gain s' es))"
| "limiter_run refill spend gain s (Spend n # es) = limiter_run refill spend gain (spend s n) es"

text \<open>What is withdrawn, and a condition on every withdrawal in the state in which it is made.\<close>

fun withdrawn :: "('n \<Rightarrow> int) \<Rightarrow> ('t, 'n) limiter_event list \<Rightarrow> int" where
  "withdrawn amount [] = 0"
| "withdrawn amount (Refill t # es) = withdrawn amount es"
| "withdrawn amount (Spend n # es) = amount n + withdrawn amount es"

fun each_withdrawal :: "('s \<Rightarrow> 'n \<Rightarrow> bool) \<Rightarrow> ('s \<Rightarrow> 't \<Rightarrow> 's option) \<Rightarrow> ('s \<Rightarrow> 'n \<Rightarrow> 's) \<Rightarrow>
    's \<Rightarrow> ('t, 'n) limiter_event list \<Rightarrow> bool" where
  "each_withdrawal P refill spend s [] = True"
| "each_withdrawal P refill spend s (Refill t # es) =
     (case refill s t of None \<Rightarrow> True | Some s' \<Rightarrow> each_withdrawal P refill spend s' es)"
| "each_withdrawal P refill spend s (Spend n # es) = (P s n \<and> each_withdrawal P refill spend (spend s n) es)"

text \<open>The contract of a bucket: a refill succeeds, adds at most its worth and takes nothing; a withdrawal that the
  32-bit level can represent lowers the level by its amount.\<close>

locale rate_limiter =
  fixes level :: "'s \<Rightarrow> int" and invar :: "'s \<Rightarrow> bool"
    and refill :: "'s \<Rightarrow> 't \<Rightarrow> 's option" and spend :: "'s \<Rightarrow> 'n \<Rightarrow> 's"
    and gain :: "'s \<Rightarrow> 't \<Rightarrow> int" and amount :: "'n \<Rightarrow> int" and fits :: "'s \<Rightarrow> 'n \<Rightarrow> bool"
  assumes refill_law: "invar s \<Longrightarrow>
      \<exists>s'. refill s t = Some s' \<and> invar s' \<and> level s \<le> level s' \<and> level s' \<le> level s + gain s t"
    and spend_law: "invar s \<Longrightarrow> fits s n \<Longrightarrow> invar (spend s n) \<and> level (spend s n) = level s - amount n"
begin

lemma run_bound:
  "invar s \<Longrightarrow> each_withdrawal fits refill spend s es \<Longrightarrow>
   \<exists>s' g. limiter_run refill spend gain s es = Some (s', g) \<and> invar s' \<and> withdrawn amount es \<le> level s + g - level s'"
proof (induction es arbitrary: s)
  case (Cons e es)
  show ?case
  proof (cases e)
    case (Refill t)
    obtain s1 where s1: "refill s t = Some s1" "invar s1" "level s1 \<le> level s + gain s t"
      using refill_law [OF Cons.prems(1)] by blast
    have "each_withdrawal fits refill spend s1 es" using Cons.prems(2) by (simp add: Refill s1(1))
    from Cons.IH [OF s1(2) this] s1(1,3) show ?thesis by (fastforce simp: Refill)
  next
    case (Spend n)
    then have f: "fits s n" "each_withdrawal fits refill spend (spend s n) es" using Cons.prems(2) by simp_all
    note sp = spend_law [OF Cons.prems(1) f(1)]
    from Cons.IH [OF conjunct1 [OF sp] f(2)] sp show ?thesis by (auto simp: Spend)
  qed
qed simp

text \<open>When every withdrawal is covered, there is never a debt.\<close>

lemma covered_level:
  assumes "\<And>s n. P s n \<Longrightarrow> amount n \<le> level s"
  shows "invar s \<Longrightarrow> 0 \<le> level s \<Longrightarrow> each_withdrawal fits refill spend s es \<Longrightarrow> each_withdrawal P refill spend s es \<Longrightarrow>
    limiter_run refill spend gain s es = Some (s', g) \<Longrightarrow> 0 \<le> level s'"
proof (induction es arbitrary: s g)
  case (Cons e es)
  show ?case
  proof (cases e)
    case (Refill t)
    obtain s1 where s1: "refill s t = Some s1" "invar s1" "level s \<le> level s1"
      using refill_law [OF Cons.prems(1)] by blast
    then show ?thesis using Cons.IH [OF s1(2)] Cons.prems by (auto simp: Refill)
  next
    case (Spend n)
    then have "fits s n" "P s n" using Cons.prems(3,4) by simp_all
    then show ?thesis using spend_law [OF Cons.prems(1)] assms Cons.IH [of "spend s n"] Cons.prems by (fastforce simp: Spend)
  qed
qed simp

end

definition ctr_level :: "token_bucket_ctr_t \<Rightarrow> int" where
  "ctr_level b = bucket (counter b)"

definition ctr_spend :: "token_bucket_ctr_t \<Rightarrow> int \<Rightarrow> token_bucket_ctr_t" where
  "ctr_spend b n = fst (token_bucket_ctr_dec b n)"

definition ctr_gain :: "token_bucket_ctr_t \<Rightarrow> u32 \<Rightarrow> int" where
  "ctr_gain b now = refill_amount (ctr_cfg b) (accepted (ctr_last_refilled b) now)"

definition ctr_fits :: "token_bucket_ctr_t \<Rightarrow> int \<Rightarrow> bool" where
  "ctr_fits b n \<longleftrightarrow> 0 \<le> n \<and> - (2 ^ 31) \<le> bucket (counter b) - n"

definition ctr_covers :: "token_bucket_ctr_t \<Rightarrow> int \<Rightarrow> bool" where
  "ctr_covers b n \<longleftrightarrow> n \<le> bucket (counter b)"

interpretation ctr: rate_limiter ctr_level ctr_ok token_bucket_ctr_refill ctr_spend ctr_gain "\<lambda>n. n" ctr_fits
proof (unfold_locales, goal_cases)
  case (1 s t)
  let ?b = "s\<lparr>counter := filled (ctr_cfg s) (accepted (ctr_last_refilled s) t) (counter s), ctr_last_refilled := t\<rparr>"
  have ok: "raw_ok (ctr_cfg s) (counter s)" "cfg_ok (ctr_cfg s)" using 1 by (simp_all add: ctr_ok_def)
  have "token_bucket_ctr_refill s t = Some ?b"
    using ctr_refill_exact [OF 1, of t] by (simp add: filled_def)
  moreover have "ctr_ok ?b \<and> ctr_level s \<le> ctr_level ?b \<and> ctr_level ?b \<le> ctr_level s + ctr_gain s t"
    using filled_ok [OF ok] ok(2) by (simp add: ctr_ok_def ctr_level_def ctr_gain_def)
  ultimately show ?case by blast
next
  case (2 s n)
  then show ?case using ctr_dec_ok [of s n] by (simp add: ctr_level_def ctr_spend_def ctr_fits_def)
qed

text \<open>A withdrawal from the coupled buckets is a number of bytes read and a number of bytes written.\<close>

definition read_level :: "token_bucket_rw_t \<Rightarrow> int" where
  "read_level b = bucket (read_bucket b)"

definition write_level :: "token_bucket_rw_t \<Rightarrow> int" where
  "write_level b = bucket (write_bucket b)"

definition rw_refill :: "token_bucket_rw_t \<Rightarrow> u32 \<Rightarrow> token_bucket_rw_t option" where
  "rw_refill b now = map_option fst (token_bucket_rw_refill b now)"

definition rw_spend :: "token_bucket_rw_t \<Rightarrow> int \<times> int \<Rightarrow> token_bucket_rw_t" where
  "rw_spend b n = fst (token_bucket_rw_dec b (fst n) (snd n))"

definition rw_gain :: "token_bucket_rw_t \<Rightarrow> u32 \<Rightarrow> int" where
  "rw_gain b now = refill_amount (rw_cfg b) (accepted_steps (rw_last_refilled b) now)"

definition rw_fits :: "token_bucket_rw_t \<Rightarrow> int \<times> int \<Rightarrow> bool" where
  "rw_fits b n \<longleftrightarrow> 0 \<le> fst n \<and> 0 \<le> snd n \<and>
     - (2 ^ 31) \<le> bucket (read_bucket b) - fst n \<and> - (2 ^ 31) \<le> bucket (write_bucket b) - snd n"

definition read_covers :: "token_bucket_rw_t \<Rightarrow> int \<times> int \<Rightarrow> bool" where
  "read_covers b n \<longleftrightarrow> fst n \<le> bucket (read_bucket b)"

definition write_covers :: "token_bucket_rw_t \<Rightarrow> int \<times> int \<Rightarrow> bool" where
  "write_covers b n \<longleftrightarrow> snd n \<le> bucket (write_bucket b)"

lemma rw_refill_law:
  assumes "rw_ok s"
  shows "\<exists>s'. rw_refill s t = Some s' \<and> rw_ok s' \<and>
    read_level s \<le> read_level s' \<and> read_level s' \<le> read_level s + rw_gain s t \<and>
    write_level s \<le> write_level s' \<and> write_level s' \<le> write_level s + rw_gain s t"
proof -
  from assms have ok: "raw_ok (rw_cfg s) (read_bucket s)" "raw_ok (rw_cfg s) (write_bucket s)" "cfg_ok (rw_cfg s)"
    by (simp_all add: rw_ok_def)
  show ?thesis
    using rw_refill_exact [OF assms, of t] filled_ok [OF ok(1,3)] filled_ok [OF ok(2,3)] ok(3)
    by (auto simp: read_level_def write_level_def rw_refill_def rw_gain_def rw_ok_def)
qed

lemma rw_spend_law:
  assumes "rw_ok s" "rw_fits s n"
  shows "rw_ok (rw_spend s n)" "read_level (rw_spend s n) = read_level s - fst n"
    "write_level (rw_spend s n) = write_level s - snd n"
proof -
  from assms(1) have ok: "raw_ok (rw_cfg s) (read_bucket s)" "raw_ok (rw_cfg s) (write_bucket s)" "cfg_ok (rw_cfg s)"
    by (simp_all add: rw_ok_def)
  show "rw_ok (rw_spend s n)" "read_level (rw_spend s n) = read_level s - fst n"
    "write_level (rw_spend s n) = write_level s - snd n"
    using raw_dec_exact [OF ok(1,3), of "fst n"] raw_dec_exact [OF ok(2,3), of "snd n"] assms(2) ok(3)
    by (simp_all add: rw_fits_def read_level_def write_level_def rw_spend_def token_bucket_rw_dec_def
        token_bucket_rw_dec_read_def token_bucket_rw_dec_write_def rw_ok_def)
qed

interpretation rw_read: rate_limiter read_level rw_ok rw_refill rw_spend rw_gain fst rw_fits
  using rw_refill_law rw_spend_law by unfold_locales blast+

interpretation rw_write: rate_limiter write_level rw_ok rw_refill rw_spend rw_gain snd rw_fits
  using rw_refill_law rw_spend_law by unfold_locales blast+

lemma rw_init_levels:
  "read_level (token_bucket_rw_init rate burst now) = min (int (unat burst)) (2 ^ 31 - 1)"
  "write_level (token_bucket_rw_init rate burst now) = min (int (unat burst)) (2 ^ 31 - 1)"
proof -
  let ?b = "token_bucket_rw_init rate burst now"
  have "read_level ?b = cfg_burst (token_bucket_cfg_init (rate_per_sec_to_rate_per_step rate) burst)"
    "write_level ?b = cfg_burst (token_bucket_cfg_init (rate_per_sec_to_rate_per_step rate) burst)"
    by (simp_all add: read_level_def write_level_def token_bucket_rw_init_def token_bucket_rw_reset_def
        token_bucket_rw_adjust_def token_bucket_raw_reset_def Let_def)
  then show "read_level ?b = min (int (unat burst)) (2 ^ 31 - 1)" "write_level ?b = min (int (unat burst)) (2 ^ 31 - 1)"
    by (simp_all only: cfg_init_ok(2) [OF rate_per_step_pos])
qed

lemma ctr_init_level:
  assumes "rate > 0"
  shows "ctr_level (token_bucket_ctr_init rate burst now) = min (int (unat burst)) (2 ^ 31 - 1)"
proof -
  have "ctr_level (token_bucket_ctr_init rate burst now) = cfg_burst (token_bucket_cfg_init rate burst)"
    by (simp add: ctr_level_def token_bucket_ctr_init_def token_bucket_ctr_reset_def
        token_bucket_ctr_adjust_def token_bucket_raw_reset_def Let_def)
  then show ?thesis by (simp only: cfg_init_ok(2) [OF assms])
qed

section \<open>Properties\<close>

text \<open>C19: whatever is done with a counter bucket that was set up with a positive rate, refilling it at any times and
  withdrawing any amounts its 32-bit level can represent, no refill divides by zero, the level never exceeds the
  burst, and what was withdrawn exceeds the burst plus the rate times the time the refills accounted for by no more
  than the debt, the negative level, that is left.  If every withdrawal is covered by the level, the level never leaves
  the range from 0 to the burst, and there is no excess.\<close>

theorem ctr_bucket_limits_rate:
  fixes rate burst now :: u32
  defines "b \<equiv> token_bucket_ctr_init rate burst now"
  assumes "rate > 0" "each_withdrawal ctr_fits token_bucket_ctr_refill ctr_spend b es"
  shows "\<exists>b' gained. limiter_run token_bucket_ctr_refill ctr_spend ctr_gain b es = Some (b', gained) \<and>
    bucket (counter b') \<le> cfg_burst (ctr_cfg b') \<and>
    withdrawn (\<lambda>n. n) es \<le> min (int (unat burst)) (2 ^ 31 - 1) + gained - bucket (counter b') \<and>
    (each_withdrawal ctr_covers token_bucket_ctr_refill ctr_spend b es \<longrightarrow>
       0 \<le> bucket (counter b') \<and> withdrawn (\<lambda>n. n) es \<le> min (int (unat burst)) (2 ^ 31 - 1) + gained)"
proof -
  have ok: "ctr_ok b" unfolding b_def by (rule ctr_init_ok [OF assms(2)])
  have l: "ctr_level b = min (int (unat burst)) (2 ^ 31 - 1)" unfolding b_def by (rule ctr_init_level [OF assms(2)])
  then have l0: "0 \<le> ctr_level b" by (simp del: of_nat_unat)
  obtain b' gained where r: "limiter_run token_bucket_ctr_refill ctr_spend ctr_gain b es = Some (b', gained)" "ctr_ok b'"
    "withdrawn (\<lambda>n. n) es \<le> ctr_level b + gained - ctr_level b'"
    using ctr.run_bound [OF ok assms(3)] by blast
  have "0 \<le> ctr_level b'" if "each_withdrawal ctr_covers token_bucket_ctr_refill ctr_spend b es"
    by (rule ctr.covered_level [OF _ ok l0 assms(3) that r(1)]) (simp add: ctr_covers_def ctr_level_def)
  then show ?thesis using r unfolding l by (force simp: ctr_level_def ctr_ok_def raw_ok_def)
qed

lemmas ctr_eval = token_bucket_ctr_init_def token_bucket_ctr_reset_def token_bucket_ctr_adjust_def
  token_bucket_raw_adjust_def token_bucket_raw_reset_def token_bucket_cfg_init_def TOKEN_BUCKET_MAX_BURST_def
  ctr_spend_def token_bucket_ctr_dec_def token_bucket_raw_dec_def token_bucket_ctr_refill_def
  token_bucket_raw_refill_steps_def ctr_gain_def refill_amount_def accepted_def

theorem ctr_bucket_limits_rate_witness:
  "\<exists>b' gained. limiter_run token_bucket_ctr_refill ctr_spend ctr_gain (token_bucket_ctr_init 2 10 100)
       [Spend 10, Refill 103, Spend 6] = Some (b', gained) \<and> gained = 6 \<and> (16 :: int) \<le> 10 + gained"
proof -
  have "each_withdrawal ctr_fits token_bucket_ctr_refill ctr_spend (token_bucket_ctr_init 2 10 100) [Spend 10, Refill 103, Spend 6]"
    "each_withdrawal ctr_covers token_bucket_ctr_refill ctr_spend (token_bucket_ctr_init 2 10 100) [Spend 10, Refill 103, Spend 6]"
    by (simp_all add: ctr_eval ctr_fits_def ctr_covers_def)
  moreover have "\<exists>b'. limiter_run token_bucket_ctr_refill ctr_spend ctr_gain (token_bucket_ctr_init 2 10 100)
      [Spend 10, Refill 103, Spend 6] = Some (b', 6)"
    by (simp add: ctr_eval)
  ultimately show ?thesis using ctr_bucket_limits_rate [of 2 10 100 "[Spend 10, Refill 103, Spend 6]"] by auto
qed

text \<open>C21: the bound for the coupled buckets that limit a connection's bandwidth, for both directions at once and any
  sequence of refills and of reads and writes the 32-bit levels can represent.  Bytes may be taken that a bucket
  does not cover, which leaves it negative: what is read exceeds the burst plus the rate per step times the refill
  steps accounted for by no more than the debt that is left on the bucket, and the next refills pay it.  If every
  read is covered, there is no excess; the same holds for writes.\<close>

theorem rw_bucket_limits_reads:
  fixes rate burst now :: u32
  defines "b \<equiv> token_bucket_rw_init rate burst now" and "full \<equiv> min (int (unat burst)) (2 ^ 31 - 1)"
  assumes "each_withdrawal rw_fits rw_refill rw_spend b es"
  shows "\<exists>b' gained. limiter_run rw_refill rw_spend rw_gain b es = Some (b', gained) \<and>
    bucket (read_bucket b') \<le> cfg_burst (rw_cfg b') \<and> bucket (write_bucket b') \<le> cfg_burst (rw_cfg b') \<and>
    withdrawn fst es \<le> full + gained - bucket (read_bucket b') \<and>
    withdrawn snd es \<le> full + gained - bucket (write_bucket b') \<and>
    (each_withdrawal read_covers rw_refill rw_spend b es \<longrightarrow>
       0 \<le> bucket (read_bucket b') \<and> withdrawn fst es \<le> full + gained) \<and>
    (each_withdrawal write_covers rw_refill rw_spend b es \<longrightarrow>
       0 \<le> bucket (write_bucket b') \<and> withdrawn snd es \<le> full + gained)"
proof -
  have ok: "rw_ok b" unfolding b_def by (rule rw_init_ok)
  have l: "read_level b = full" "write_level b = full" unfolding b_def full_def by (rule rw_init_levels)+
  have "0 \<le> full" unfolding full_def by (simp del: of_nat_unat)
  then have l0: "0 \<le> read_level b" "0 \<le> write_level b" by (simp_all add: l)
  obtain b' gained where r: "limiter_run rw_refill rw_spend rw_gain b es = Some (b', gained)" "rw_ok b'"
    "withdrawn fst es \<le> full + gained - read_level b'" "withdrawn snd es \<le> full + gained - write_level b'"
    using rw_read.run_bound [OF ok assms(3)] rw_write.run_bound [OF ok assms(3)] unfolding l by auto
  have "0 \<le> read_level b'" if "each_withdrawal read_covers rw_refill rw_spend b es"
    by (rule rw_read.covered_level [OF _ ok l0(1) assms(3) that r(1)]) (simp add: read_covers_def read_level_def)
  moreover have "0 \<le> write_level b'" if "each_withdrawal write_covers rw_refill rw_spend b es"
    by (rule rw_write.covered_level [OF _ ok l0(2) assms(3) that r(1)]) (simp add: write_covers_def write_level_def)
  ultimately show ?thesis using r by (force simp: read_level_def write_level_def rw_ok_def raw_ok_def)
qed

lemmas rw_eval = token_bucket_rw_init_def token_bucket_rw_reset_def token_bucket_rw_adjust_def
  token_bucket_raw_adjust_def token_bucket_raw_reset_def token_bucket_cfg_init_def TOKEN_BUCKET_MAX_BURST_def
  rw_spend_def token_bucket_rw_dec_def token_bucket_rw_dec_read_def token_bucket_rw_dec_write_def token_bucket_raw_dec_def
  rw_refill_def token_bucket_rw_refill_def token_bucket_raw_refill_steps_def rw_gain_def refill_amount_def
  accepted_steps_def accepted_def TICKS_PER_STEP_def Let_def

lemma rate_1000: "rate_per_sec_to_rate_per_step 1000 = 16"
  by code_simp

theorem rw_bucket_limits_reads_witness:
  "\<exists>b'. limiter_run rw_refill rw_spend rw_gain (token_bucket_rw_init 1000 64 100)
       [Spend (60, 5), Refill 132, Spend (100, 0)] = Some (b', 32) \<and> bucket (read_bucket b') = - 64 \<and>
     (160 :: int) \<le> 64 + 32 - bucket (read_bucket b') \<and> 0 \<le> bucket (write_bucket b')"
proof -
  let ?b = "token_bucket_rw_init 1000 64 100"
  have "each_withdrawal rw_fits rw_refill rw_spend ?b [Spend (60, 5), Refill 132, Spend (100, 0)]"
    "each_withdrawal write_covers rw_refill rw_spend ?b [Spend (60, 5), Refill 132, Spend (100, 0)]"
    by (simp_all add: rw_eval rate_1000 rw_fits_def write_covers_def)
  moreover have "\<exists>b'. limiter_run rw_refill rw_spend rw_gain ?b [Spend (60, 5), Refill 132, Spend (100, 0)] = Some (b', 32) \<and>
      bucket (read_bucket b') = - 64"
    by (simp add: rw_eval rate_1000)
  ultimately show ?thesis
    using rw_bucket_limits_reads [of 1000 64 100 "[Spend (60, 5), Refill 132, Spend (100, 0)]"] by auto
qed

text \<open>C20: refilling the coupled buckets, from any state their operations can produce and at
  any time stamp, adds to both levels the rate times the whole steps elapsed and stops at the
  burst; the unsigned 64-bit and 32-bit arithmetic behind it never wraps.  A time stamp more
  than a quarter of the clock's range ahead (time running backwards) adds nothing.  Less than
  one step is not lost: the time of the last refill is then left alone.\<close>

theorem rw_refill_adds_rate_times_steps:
  fixes now :: u32
  assumes "rw_ok b"
  shows "\<exists>b' fl. token_bucket_rw_refill b now = Some (b', fl) \<and> rw_ok b' \<and> rw_cfg b' = rw_cfg b \<and>
    (let elapsed = now - rw_last_refilled b;
         steps = (if unat elapsed \<le> (2 ^ 32 - 1) div 4 then unat elapsed div 16 else 0);
         new = (\<lambda>level. min (cfg_burst (rw_cfg b)) (level + int (unat (cfg_rate (rw_cfg b))) * int steps))
     in bucket (read_bucket b') = new (bucket (read_bucket b)) \<and>
        bucket (write_bucket b') = new (bucket (write_bucket b)) \<and>
        rw_last_refilled b' = (if unat elapsed < 16 then rw_last_refilled b else now))"
proof -
  let ?e = "now - rw_last_refilled b"
  define t where "t = accepted_steps (rw_last_refilled b) now"
  have ok: "raw_ok (rw_cfg b) (read_bucket b)" "raw_ok (rw_cfg b) (write_bucket b)" "cfg_ok (rw_cfg b)"
    using assms by (simp_all add: rw_ok_def)
  obtain ts fl where r: "token_bucket_rw_refill b now =
      Some (b\<lparr>read_bucket := filled (rw_cfg b) t (read_bucket b),
              write_bucket := filled (rw_cfg b) t (write_bucket b), rw_last_refilled := ts\<rparr>, fl)"
    "ts = (if ?e \<le> UINT32_MAX div 4 \<and> t = 0 then rw_last_refilled b else now)"
    using rw_refill_exact [OF assms, of now] unfolding t_def by blast
  have q: "?e \<le> UINT32_MAX div 4 \<longleftrightarrow> unat ?e \<le> (2 ^ 32 - 1) div 4"
    by (simp add: word_le_nat_alt unat_div_exact)
  have t: "t = (if unat ?e \<le> (2 ^ 32 - 1) div 4 then unat ?e div 16 else 0)"
    unfolding t_def accepted_steps_def accepted_def q by (simp add: TICKS_PER_STEP_def)
  have "ts = (if unat ?e < 16 then rw_last_refilled b else now)"
    unfolding r(2) q t by (auto simp: div_eq_0_iff)
  with r(1) ok show ?thesis
    using filled_ok(1) [OF ok(1,3)] filled_ok(1) [OF ok(2,3)]
    by (simp add: rw_ok_def filled_def refill_amount_def Let_def t)
qed

theorem rw_refill_adds_rate_times_steps_witness:
  "\<exists>b' fl. token_bucket_rw_refill (token_bucket_rw_init 1000 64 100) 1000 = Some (b', fl) \<and>
     rw_ok b' \<and> rw_last_refilled b' = 1000"
  using rw_refill_adds_rate_times_steps [OF rw_init_ok [of 1000 64 100], of 1000]
  by (auto simp: token_bucket_rw_init_def token_bucket_rw_reset_def Let_def)

text \<open>Every operation on the coupled buckets keeps them well formed: rate positive, burst
  a 31-bit value, both levels 32-bit values at most the burst.  Taking tokens does so as long
  as the difference fits the 32-bit field, and reports exactly which bucket became empty.\<close>

theorem rw_operations_keep_invariant:
  assumes "rw_ok b" "0 \<le> n" "0 \<le> m" "- (2 ^ 31) \<le> bucket (read_bucket b) - n"
    "- (2 ^ 31) \<le> bucket (write_bucket b) - m"
  shows "rw_ok (token_bucket_rw_init rate burst now) \<and> rw_ok (token_bucket_rw_adjust b rate burst) \<and>
    rw_ok (token_bucket_rw_reset b now) \<and>
    (\<exists>b' fl. token_bucket_rw_refill b now = Some (b', fl) \<and> rw_ok b') \<and>
    rw_ok (fst (token_bucket_rw_dec b n m)) \<and>
    snd (token_bucket_rw_dec b n m) =
       (if 0 < bucket (read_bucket b) \<and> bucket (read_bucket b) \<le> n then TB_READ else 0) +
       (if 0 < bucket (write_bucket b) \<and> bucket (write_bucket b) \<le> m then TB_WRITE else 0)"
proof -
  have ok: "raw_ok (rw_cfg b) (read_bucket b)" "raw_ok (rw_cfg b) (write_bucket b)" "cfg_ok (rw_cfg b)"
    using assms(1) by (simp_all add: rw_ok_def)
  have "\<exists>b' fl. token_bucket_rw_refill b now = Some (b', fl) \<and> rw_ok b'"
    using rw_refill_exact [OF assms(1), of now] ok filled_ok(1) [OF ok(1,3)] filled_ok(1) [OF ok(2,3)]
    by (auto simp: rw_ok_def)
  moreover have "rw_ok (fst (token_bucket_rw_dec b n m))"
    "snd (token_bucket_rw_dec b n m) =
       (if 0 < bucket (read_bucket b) \<and> bucket (read_bucket b) \<le> n then TB_READ else 0) +
       (if 0 < bucket (write_bucket b) \<and> bucket (write_bucket b) \<le> m then TB_WRITE else 0)"
    using raw_dec_exact [OF ok(1,3) assms(2,4)] raw_dec_exact [OF ok(2,3) assms(3,5)] ok(3)
    by (simp_all add: token_bucket_rw_dec_def token_bucket_rw_dec_read_def
        token_bucket_rw_dec_write_def rw_ok_def)
  ultimately show ?thesis
    using rw_init_ok rw_adjust_ok [OF assms(1)] rw_reset_ok [OF assms(1)] by blast
qed

theorem rw_operations_keep_invariant_witness:
  "rw_ok (fst (token_bucket_rw_dec (token_bucket_rw_init 1000 64 100) 64 3))"
  using rw_operations_keep_invariant [OF rw_init_ok [of 1000 64 100], of 64 3]
  by (simp add: token_bucket_rw_init_def token_bucket_rw_reset_def token_bucket_rw_adjust_def
      token_bucket_raw_adjust_def token_bucket_raw_reset_def token_bucket_cfg_init_def
      TOKEN_BUCKET_MAX_BURST_def Let_def)

end
