(* ===== verification/Di_Ops.thy ===== *)
theory Di_Ops
  imports Tor_Prelude
begin

text \<open>
  The data-independent operations of \<open>lib/ctime/di_ops.c\<close>.  In this tree the comparisons
  \<open>tor_memcmp\<close> and \<open>tor_memeq\<close> start with a \<open>return memcmp(...)\<close>, so that the branch-free
  loops after it are never reached; both the code that runs and the loops are modelled, and
  shown to agree.  The constant-time map and selection are modelled as they run.
\<close>

section \<open>Definitions\<close>

text \<open>The C library's \<open>memcmp\<close>: the sign of the first difference (here the difference
  itself; only its sign is specified).\<close>

fun memcmp :: "bytes \<Rightarrow> bytes \<Rightarrow> nat \<Rightarrow> int" where
  "memcmp (x # xs) (y # ys) (Suc n) = (if x = y then memcmp xs ys n else uint x - uint y)"
| "memcmp _ _ _ = 0"

definition tor_memcmp :: "bytes \<Rightarrow> bytes \<Rightarrow> nat \<Rightarrow> int" where
  "tor_memcmp a b len = memcmp a b len"

text \<open>The loop of \<open>tor_memcmp\<close>, which runs from the last byte to the first: the value for a
  suffix is combined with the byte before it.\<close>

fun tor_memcmp_loop :: "bytes \<Rightarrow> bytes \<Rightarrow> nat \<Rightarrow> int" where
  "tor_memcmp_loop (x # xs) (y # ys) (Suc n) =
     (let retval = tor_memcmp_loop xs ys n;
          v1 = uint x;
          v2 = uint y;
          equal_p = v1 XOR v2;
          equal_p = equal_p - 1;
          equal_p = drop_bit 8 equal_p;
          retval = retval AND equal_p
      in retval + (v1 - v2))"
| "tor_memcmp_loop _ _ _ = 0"

definition tor_memeq :: "bytes \<Rightarrow> bytes \<Rightarrow> nat \<Rightarrow> bool" where
  "tor_memeq a b sz = (memcmp a b sz = 0)"

fun any_difference :: "bytes \<Rightarrow> bytes \<Rightarrow> nat \<Rightarrow> u32 \<Rightarrow> u32" where
  "any_difference (x # xs) (y # ys) (Suc n) d = any_difference xs ys n (d OR ucast (x XOR y))"
| "any_difference _ _ _ d = d"

definition tor_memeq_loop :: "bytes \<Rightarrow> bytes \<Rightarrow> nat \<Rightarrow> u32" where
  "tor_memeq_loop a b sz = 1 AND drop_bit 8 (any_difference a b sz 0 - 1)"

text \<open>A \<open>di_digest256_map_t\<close>: the linked list of its entries, each a 32-byte key and a
  pointer; the null pointer is 0.\<close>

type_synonym di_digest256_map_t = "(bytes \<times> u64) list"

fun dimap_search_loop :: "di_digest256_map_t \<Rightarrow> bytes \<Rightarrow> u64 \<Rightarrow> u64" where
  "dimap_search_loop [] key result = result"
| "dimap_search_loop ((k, v) # m) key result =
     (let r = (of_bool (tor_memeq k key 32) :: u64) - 1;
          result = result AND r;
          result = result OR (v AND NOT r)
      in dimap_search_loop m key result)"

definition dimap_search :: "di_digest256_map_t \<Rightarrow> bytes \<Rightarrow> u64 \<Rightarrow> u64" where
  "dimap_search m key dflt_val = dimap_search_loop m key dflt_val"

text \<open>\<open>None\<close>: one of the two assertions fails.\<close>

definition dimap_add_entry :: "di_digest256_map_t \<Rightarrow> bytes \<Rightarrow> u64 \<Rightarrow> di_digest256_map_t option" where
  "dimap_add_entry m key val =
     (let old_val = dimap_search m key 0
      in if old_val \<noteq> 0 then None
         else if val = 0 then None
         else Some ((take 32 key, val) # m))"

text \<open>The values handed to the free function, in the order they are freed.\<close>

fun dimap_free :: "di_digest256_map_t \<Rightarrow> u64 list" where
  "dimap_free [] = []"
| "dimap_free ((k, v) # m) = v # dimap_free m"

fun mem_or :: "bytes \<Rightarrow> nat \<Rightarrow> u32 \<Rightarrow> u32" where
  "mem_or (x # xs) (Suc n) total_val = mem_or xs n (total_val OR ucast x)"
| "mem_or _ _ total_val = total_val"

definition safe_mem_is_zero :: "bytes \<Rightarrow> nat \<Rightarrow> u32" where
  "safe_mem_is_zero mem sz = 1 AND drop_bit 8 (mem_or mem sz 0 - 1)"

record select_state =
  i_chosen :: int
  n_chosen :: nat
  total_so_far :: u64
  sel_rand :: u64

fun select_loop :: "u64 list \<Rightarrow> nat \<Rightarrow> select_state \<Rightarrow> select_state" where
  "select_loop [] i s = s"
| "select_loop (e # entries) i s =
     (let s = s\<lparr>total_so_far := total_so_far s + e\<rparr>;
          s = (if total_so_far s > sel_rand s
               then s\<lparr>i_chosen := int i, n_chosen := n_chosen s + 1, sel_rand := word_of_int INT64_MAX\<rparr>
               else s)
      in select_loop entries (i + 1) s)"

text \<open>\<open>None\<close>: one of the four assertions after the loop fails.\<close>

definition select_array_member_cumulative_timei :: "u64 list \<Rightarrow> u64 \<Rightarrow> u64 \<Rightarrow> nat option" where
  "select_array_member_cumulative_timei entries total_val rand_val =
     (let s = select_loop entries 0 \<lparr>i_chosen = - 1, n_chosen = 0, total_so_far = 0, sel_rand = rand_val\<rparr>
      in if total_so_far s = total_val \<and> n_chosen s = 1 \<and> i_chosen s \<ge> 0 \<and> i_chosen s < int (length entries)
         then Some (nat (i_chosen s)) else None)"

fun memcpy_mask :: "u8 \<Rightarrow> bytes \<Rightarrow> bytes \<Rightarrow> nat \<Rightarrow> bytes" where
  "memcpy_mask msk (d # dest) (s # src) (Suc n) =
     ((d AND NOT msk) OR (s AND msk)) # memcpy_mask msk dest src n"
| "memcpy_mask msk dest src n = dest"

definition memcpy_if_true_timei :: "bool \<Rightarrow> bytes \<Rightarrow> bytes \<Rightarrow> nat \<Rightarrow> bytes" where
  "memcpy_if_true_timei s dest src n = memcpy_mask (- of_bool s) dest src n"

section \<open>Comparison\<close>

lemma memcmp_zero_iff:
  "n \<le> length a \<Longrightarrow> n \<le> length b \<Longrightarrow> memcmp a b n = 0 \<longleftrightarrow> take n a = take n b"
  by (induction a b n rule: memcmp.induct) (auto dest: unsigned_word_eqI)

text \<open>The first differing position decides the sign, as the lexicographic order on unsigned
  bytes does.\<close>

lemma memcmp_lex:
  "n \<le> length a \<Longrightarrow> n \<le> length b \<Longrightarrow>
     memcmp a b n < 0 \<longleftrightarrow> (\<exists>i<n. take i a = take i b \<and> a ! i < b ! i)"
proof (induction a b n rule: memcmp.induct)
  case (1 x xs y ys n)
  show ?case
  proof (cases "x = y")
    case True
    have "(\<exists>i<Suc n. take i (x # xs) = take i (y # ys) \<and> (x # xs) ! i < (y # ys) ! i) \<longleftrightarrow>
        (\<exists>i<n. take i xs = take i ys \<and> xs ! i < ys ! i)"
      using True by (simp add: Ex_less_Suc2)
    with 1 True show ?thesis by simp
  next
    case False
    have "(\<exists>i<Suc n. take i (x # xs) = take i (y # ys) \<and> (x # xs) ! i < (y # ys) ! i) \<longleftrightarrow> x < y"
      using False by (simp add: Ex_less_Suc2)
    with False show ?thesis by (simp add: word_less_def)
  qed
qed auto

lemma word_xor_zero: "x XOR y = 0 \<longleftrightarrow> x = (y :: 'a::len word)"
  by (metis xor.assoc xor.left_neutral xor.right_neutral xor_self_eq)

lemma byte_xor_zero: "uint (x :: u8) XOR uint y = 0 \<longleftrightarrow> x = y"
  using word_xor_zero [of x y] by (simp add: uint_0_iff flip: uint_xor)

lemma byte_xor_range:
  fixes x y :: u8
  shows "0 \<le> uint x XOR uint y" "uint x XOR uint y < 256"
  using uint_lt2p [of "x XOR y"] by (simp_all flip: uint_xor)

lemma equal_mask:
  "drop_bit 8 ((uint (x :: u8) XOR uint y) - 1) = (if x = y then - 1 else 0)"
proof (cases "x = y")
  case True
  then show ?thesis by (simp add: drop_bit_eq_div)
next
  case False
  then have "0 < uint x XOR uint y" using byte_xor_zero [of x y] byte_xor_range(1) [of x y] by linarith
  then have "0 \<le> (uint x XOR uint y) - 1" "(uint x XOR uint y) - 1 < 256"
    using byte_xor_range(2) [of x y] by linarith+
  with False show ?thesis by (simp add: drop_bit_eq_div div_pos_pos_trivial)
qed

lemma tor_memcmp_loop_eq: "tor_memcmp_loop a b n = memcmp a b n"
  by (induction a b n rule: memcmp.induct) (simp_all add: Let_def equal_mask)

lemma bytes_or_bound: "(d :: u32) < 256 \<Longrightarrow> d OR ucast (b :: u8) < 256"
proof -
  assume d: "d < 256"
  have "ucast b < (256 :: u32)"
    using unat_u8_less [of b] by (simp add: word_less_nat_alt unsigned_ucast_eq take_bit_nat_eq_self)
  moreover have "x < 256 \<longleftrightarrow> take_bit 8 x = x" for x :: u32
    by (auto simp: take_bit_eq_mod word_less_nat_alt unat_mod_exact mod_less
        simp flip: unat_inj_iff)
  ultimately show ?thesis using d by (simp only: take_bit_or)
qed

lemma any_difference_bound: "d < 256 \<Longrightarrow> any_difference a b n d < 256"
  by (induction a b n d rule: any_difference.induct) (simp_all add: bytes_or_bound)

lemma or_zero_iff: "a OR b = 0 \<longleftrightarrow> a = 0 \<and> b = (0 :: 'a::len word)"
  by (auto simp: bit_eq_iff bit_or_iff)

lemma ucast_u8_zero: "ucast (x :: u8) = (0 :: u32) \<longleftrightarrow> x = 0"
proof -
  have "unat (ucast x :: u32) = unat x"
    using unat_u8_less [of x] by (simp add: unsigned_ucast_eq take_bit_nat_eq_self)
  then show ?thesis by (metis unat_0 unat_inj_iff)
qed

lemma any_difference_zero:
  "any_difference a b n d = 0 \<longleftrightarrow> d = 0 \<and> memcmp a b n = 0"
proof (induction a b n d rule: any_difference.induct)
  case (1 x xs y ys n d)
  have "ucast (x XOR y) = (0 :: u32) \<longleftrightarrow> x = y"
    using word_xor_zero [of x y] by (simp add: ucast_u8_zero)
  with 1 show ?case by (auto simp: or_zero_iff dest: unsigned_word_eqI)
qed simp_all

text \<open>The final expression of the branch-free tests: 1 for 0, and 0 for every other value
  below 256.\<close>

lemma is_zero_expr:
  assumes "(d :: u32) < 256"
  shows "1 AND drop_bit 8 (d - 1) = (if d = 0 then 1 else 0)"
proof (cases "d = 0")
  case True
  have "1 AND drop_bit 8 (- 1 :: u32) = 1" by (simp add: mask_eq_exp_minus_1)
  with True show ?thesis by simp
next
  case False
  then have "unat (d - 1) < 256"
    using assms by (simp add: word_less_nat_alt unat_sub_exact Suc_le_eq unat_gt_0)
  then have "drop_bit 8 (d - 1) = 0"
    by (simp add: drop_bit_eq_div unat_div_exact flip: unat_inj_iff)
  with False show ?thesis by simp
qed

lemma tor_memeq_loop_eq: "tor_memeq_loop a b n = (if tor_memeq a b n then 1 else 0)"
  using any_difference_bound [of 0 a b n] any_difference_zero [of a b n 0]
  by (simp add: tor_memeq_loop_def is_zero_expr tor_memeq_def)

lemma mem_or_bound: "t < 256 \<Longrightarrow> mem_or xs n t < 256"
  by (induction xs n t rule: mem_or.induct) (simp_all add: bytes_or_bound)

lemma mem_or_zero: "n \<le> length xs \<Longrightarrow> mem_or xs n t = 0 \<longleftrightarrow> t = 0 \<and> take n xs = replicate n 0"
proof (induction xs n t rule: mem_or.induct)
  case (1 x xs n t)
  then show ?case by (auto simp: or_zero_iff ucast_u8_zero)
qed auto

section \<open>The constant-time map\<close>

lemma dimap_search_step:
  "dimap_search_loop ((k, v) # m) key result =
     dimap_search_loop m key (if tor_memeq k key 32 then v else result)"
  by (simp add: Let_def)

lemma memeq_keys: "length k = 32 \<Longrightarrow> length key = 32 \<Longrightarrow> tor_memeq k key 32 \<longleftrightarrow> k = key"
  by (simp add: tor_memeq_def memcmp_zero_iff)

definition dimap_ok :: "di_digest256_map_t \<Rightarrow> bool" where
  "dimap_ok m \<longleftrightarrow> distinct (map fst m) \<and> (\<forall>(k, v) \<in> set m. length k = 32 \<and> v \<noteq> 0)"

lemma dimap_search_map_of:
  assumes "dimap_ok m" "length key = 32"
  shows "dimap_search m key d = (case map_of m key of None \<Rightarrow> d | Some v \<Rightarrow> v)"
  using assms(1) unfolding dimap_search_def
proof (induction m arbitrary: d)
  case Nil
  then show ?case by simp
next
  case (Cons e m)
  obtain k v where e: "e = (k, v)" by (cases e)
  have ok: "dimap_ok m" "length k = 32" "k \<notin> fst ` set m"
    using Cons.prems by (auto simp: dimap_ok_def e)
  have "map_of m key = None" if "k = key" using ok(3) that by (simp add: map_of_eq_None_iff)
  then show ?case
    using Cons.IH [OF ok(1)] by (auto simp: e dimap_search_step memeq_keys ok(2) assms(2) simp del: dimap_search_loop.simps)
qed

text \<open>What a user of a map of digests relies on, and what it gets after a series of
  insertions of different keys.\<close>

fun add_all :: "('m \<Rightarrow> 'k \<Rightarrow> 'v \<Rightarrow> 'm option) \<Rightarrow> 'm \<Rightarrow> ('k \<times> 'v) list \<Rightarrow> 'm option" where
  "add_all add m [] = Some m"
| "add_all add m ((k, v) # kvs) = (case add m k v of None \<Rightarrow> None | Some m' \<Rightarrow> add_all add m' kvs)"

locale digest_map =
  fixes empty :: 'm and add :: "'m \<Rightarrow> 'k \<Rightarrow> 'v \<Rightarrow> 'm option" and search :: "'m \<Rightarrow> 'k \<Rightarrow> 'v \<Rightarrow> 'v"
    and invar :: "'m \<Rightarrow> bool" and key_ok :: "'k \<Rightarrow> bool" and val_ok :: "'v \<Rightarrow> bool"
    and null :: 'v
  assumes invar_empty: "invar empty"
    and search_empty: "search empty k d = d"
    and add_law: "invar m \<Longrightarrow> key_ok k \<Longrightarrow> val_ok v \<Longrightarrow> search m k null = null \<Longrightarrow>
      \<exists>m'. add m k v = Some m' \<and> invar m' \<and>
        (\<forall>k' d. key_ok k' \<longrightarrow> search m' k' d = (if k' = k then v else search m k' d))"
begin

lemma add_all_search:
  assumes "invar m" "\<forall>(k, v) \<in> set kvs. key_ok k \<and> val_ok v \<and> search m k null = null"
    "distinct (map fst kvs)"
  shows "\<exists>m'. add_all add m kvs = Some m' \<and> invar m' \<and>
    (\<forall>k d. key_ok k \<longrightarrow> search m' k d = (case map_of kvs k of Some v \<Rightarrow> v | None \<Rightarrow> search m k d))"
  using assms
proof (induction kvs arbitrary: m)
  case Nil
  then show ?case by simp
next
  case (Cons kv kvs)
  obtain k v where kv: "kv = (k, v)" by (cases kv)
  have new: "key_ok k" "val_ok v" "search m k null = null" using Cons.prems(2) by (auto simp: kv)
  obtain m1 where m1: "add m k v = Some m1" "invar m1"
      "\<And>k' d. key_ok k' \<Longrightarrow> search m1 k' d = (if k' = k then v else search m k' d)"
    using add_law [OF Cons.prems(1) new] by blast
  have "\<forall>(k', v') \<in> set kvs. key_ok k' \<and> val_ok v' \<and> search m1 k' null = null"
  proof (clarify, intro conjI)
    fix k' v' assume in_kvs: "(k', v') \<in> set kvs"
    then show k': "key_ok k'" and "val_ok v'" using Cons.prems(2) by (auto simp: kv)
    have "k' \<in> fst ` set kvs" using in_kvs by force
    then have "k' \<noteq> k" using Cons.prems(3) by (auto simp: kv)
    moreover have "search m k' null = null" using in_kvs Cons.prems(2) by (auto simp: kv)
    ultimately show "search m1 k' null = null" using m1(3) [OF k'] by simp
  qed
  from Cons.IH [OF m1(2) this] Cons.prems(3) obtain m' where m': "add_all add m1 kvs = Some m'" "invar m'"
      "\<And>k d. key_ok k \<Longrightarrow> search m' k d = (case map_of kvs k of Some v \<Rightarrow> v | None \<Rightarrow> search m1 k d)"
    by (auto simp: kv)
  have "map_of kvs k = None" using Cons.prems(3) by (auto simp: kv map_of_eq_None_iff)
  then show ?case
    using m' m1 new(1) by (auto simp: kv split: option.splits)
qed

end

interpretation dimap: digest_map "[]" dimap_add_entry dimap_search dimap_ok
    "\<lambda>k. length k = 32" "\<lambda>v. v \<noteq> 0" "0"
proof (unfold_locales, goal_cases)
  case 1
  then show ?case by (simp add: dimap_ok_def)
next
  case (2 k d)
  then show ?case by (simp add: dimap_search_def)
next
  case (3 m k v)
  have "k \<notin> fst ` set m"
  proof
    assume "k \<in> fst ` set m"
    then obtain w where w: "map_of m k = Some w" by (metis domD dom_map_of_conv_image_fst)
    then have "w \<noteq> 0" using 3(1) by (auto simp: dimap_ok_def dest: map_of_SomeD)
    then show False using 3 w by (simp add: dimap_search_map_of)
  qed
  then have ok: "dimap_ok ((k, v) # m)" using 3 by (auto simp: dimap_ok_def)
  have "dimap_add_entry m k v = Some ((k, v) # m)"
    using 3 by (simp add: dimap_add_entry_def)
  moreover have "dimap_search ((k, v) # m) k' d = (if k' = k then v else dimap_search m k' d)"
    if "length k' = 32" for k' d
    using ok 3(1) that by (simp add: dimap_search_map_of)
  ultimately show ?case using ok by blast
qed

section \<open>Selection and conditional copy\<close>

definition prefix_sum :: "u64 list \<Rightarrow> nat \<Rightarrow> nat" where
  "prefix_sum es i = sum_list (map unat (take (Suc i) es))"

text \<open>Before the choice the state is untouched but for the running total; after it, the
  remaining entries change nothing but the total, as long as that stays below \<open>INT64_MAX\<close>.\<close>

lemma select_loop_after:
  assumes "unat (total_so_far s) + sum_list (map unat es) \<le> 2 ^ 63 - 1" "sel_rand s = word_of_int INT64_MAX"
  shows "select_loop es i s = s\<lparr>total_so_far := total_so_far s + sum_list es\<rparr>"
  using assms
proof (induction es arbitrary: i s)
  case Nil
  then show ?case by simp
next
  case (Cons e es)
  have u: "unat (total_so_far s + e) = unat (total_so_far s) + unat e"
    using Cons.prems(1) by (intro unat_add_exact) simp
  then have "\<not> total_so_far s + e > word_of_int INT64_MAX"
    using Cons.prems(1) by (simp add: word_less_nat_alt)
  then show ?case
    using Cons.IH [of "s\<lparr>total_so_far := total_so_far s + e\<rparr>" "i + 1"] Cons.prems u
    by (simp add: add.assoc)
qed

lemma select_loop_choice:
  assumes "unat (total_so_far s) + sum_list (map unat es) \<le> 2 ^ 63 - 1"
    "unat (total_so_far s) \<le> unat (sel_rand s)"
    "unat (sel_rand s) < unat (total_so_far s) + sum_list (map unat es)"
  shows "\<exists>j<length es. unat (sel_rand s) < unat (total_so_far s) + prefix_sum es j \<and>
    (\<forall>k<j. unat (total_so_far s) + prefix_sum es k \<le> unat (sel_rand s)) \<and>
    select_loop es i s = s\<lparr>i_chosen := int (i + j), n_chosen := n_chosen s + 1,
      sel_rand := word_of_int INT64_MAX, total_so_far := total_so_far s + sum_list es\<rparr>"
  using assms
proof (induction es arbitrary: i s)
  case Nil
  then show ?case by simp
next
  case (Cons e es)
  have u: "unat (total_so_far s + e) = unat (total_so_far s) + unat e"
    using Cons.prems(1) by (intro unat_add_exact) simp
  show ?case
  proof (cases "total_so_far s + e > sel_rand s")
    case True
    then have "unat (sel_rand s) < unat (total_so_far s) + unat e" by (simp add: word_less_nat_alt u)
    with True show ?thesis
      using Cons.prems(1) u by (intro exI [of _ 0]) (simp add: prefix_sum_def select_loop_after add.assoc)
  next
    case False
    let ?s = "s\<lparr>total_so_far := total_so_far s + e\<rparr>"
    have le: "unat (total_so_far s) + unat e \<le> unat (sel_rand s)"
      using False by (simp add: word_less_nat_alt u)
    then obtain j where j: "j < length es" "unat (sel_rand s) < unat (total_so_far s) + unat e + prefix_sum es j"
        "\<forall>k<j. unat (total_so_far s) + unat e + prefix_sum es k \<le> unat (sel_rand s)"
        "select_loop es (i + 1) ?s = ?s\<lparr>i_chosen := int (i + 1 + j), n_chosen := n_chosen s + 1,
          sel_rand := word_of_int INT64_MAX, total_so_far := total_so_far s + e + sum_list es\<rparr>"
      using Cons.IH [of ?s "i + 1"] Cons.prems u by (auto simp: add.assoc)
    have "\<forall>k<Suc j. unat (total_so_far s) + prefix_sum (e # es) k \<le> unat (sel_rand s)"
      using j(3) le by (auto simp: prefix_sum_def All_less_Suc2 add.assoc)
    then show ?thesis
      using False j by (intro exI [of _ "Suc j"]) (simp add: prefix_sum_def add.assoc)
  qed
qed

lemma memcpy_mask_cases:
  "n \<le> length dest \<Longrightarrow> n \<le> length src \<Longrightarrow>
     memcpy_mask (- of_bool s) dest src n = (if s then take n src @ drop n dest else dest)"
  by (induction "- of_bool s :: u8" dest src n rule: memcpy_mask.induct) auto

section \<open>Properties\<close>

text \<open>The branch-free loops of \<open>tor_memcmp\<close> and \<open>tor_memeq\<close> compute what the library
  comparison computes that the functions really return: the sign of the first difference, in
  the lexicographic order of unsigned bytes, and whether there is none.\<close>

theorem constant_time_comparison:
  assumes "n \<le> length a" "n \<le> length b"
  shows "tor_memcmp_loop a b n = tor_memcmp a b n \<and>
    (tor_memcmp a b n < 0 \<longleftrightarrow> (\<exists>i<n. take i a = take i b \<and> a ! i < b ! i)) \<and>
    (tor_memcmp a b n = 0 \<longleftrightarrow> take n a = take n b) \<and>
    (tor_memeq a b n \<longleftrightarrow> take n a = take n b) \<and>
    tor_memeq_loop a b n = (if tor_memeq a b n then 1 else 0)"
  using assms
  by (simp add: tor_memcmp_def tor_memeq_def tor_memcmp_loop_eq tor_memeq_loop_eq memcmp_zero_iff memcmp_lex)

theorem constant_time_comparison_witness:
  "tor_memcmp_loop [1, 2, 3] [1, 200, 0] 3 = tor_memcmp [1, 2, 3] [1, 200, 0] 3 \<and>
   tor_memcmp [1, 2, 3] [1, 200, 0] 3 < 0"
proof -
  have "\<exists>i<3. take i [1, 2, 3 :: u8] = take i [1, 200, 0] \<and> [1, 2, 3 :: u8] ! i < [1, 200, 0] ! i"
    by (intro exI [of _ 1]) simp
  then show ?thesis
    using constant_time_comparison [of 3 "[1, 2, 3]" "[1, 200, 0]"] by simp
qed

text \<open>\<open>safe_mem_is_zero\<close> is 1 exactly when the first \<open>sz\<close> bytes are all zero and 0
  otherwise, and \<open>memcpy_if_true_timei\<close> copies exactly the first \<open>n\<close> bytes when its flag is
  set and leaves the destination alone when it is not.\<close>

theorem zero_test_and_conditional_copy:
  assumes "sz \<le> length mem" "n \<le> length dest" "n \<le> length src"
  shows "safe_mem_is_zero mem sz = (if \<forall>i < sz. mem ! i = 0 then 1 else 0) \<and>
    memcpy_if_true_timei s dest src n = (if s then take n src @ drop n dest else dest)"
proof -
  have "take sz mem = replicate sz 0 \<longleftrightarrow> (\<forall>i < sz. mem ! i = 0)"
    using assms(1) by (auto simp: list_eq_iff_nth_eq)
  then show ?thesis
    using mem_or_bound [of 0 mem sz] mem_or_zero [OF assms(1), of 0] memcpy_mask_cases [OF assms(2,3)]
    by (simp add: safe_mem_is_zero_def memcpy_if_true_timei_def is_zero_expr)
qed

theorem zero_test_and_conditional_copy_witness:
  "safe_mem_is_zero [0, 0, 7] 2 = 1 \<and> memcpy_if_true_timei True [1, 2, 3] [9, 8] 2 = [9, 8, 3]"
proof -
  have "\<forall>i<2. [0, 0, 7 :: u8] ! i = 0" by (auto simp: less_2_cases_iff)
  then show ?thesis
    using zero_test_and_conditional_copy [of 2 "[0, 0, 7]" 2 "[1, 2, 3]" "[9, 8]" True] by simp
qed

text \<open>After a series of \<open>dimap_add_entry\<close> calls with different 32-byte keys and non-null
  values, none of which fails, \<open>dimap_search\<close> finds every added key with its value and
  returns the default for every other key; adding a key that is present, or a null value,
  fails.\<close>

theorem dimap_add_then_search:
  assumes "\<forall>(k, v) \<in> set kvs. length k = 32 \<and> v \<noteq> 0" "distinct (map fst kvs)"
  shows "\<exists>m. add_all dimap_add_entry [] kvs = Some m \<and>
    (\<forall>key d. length key = 32 \<longrightarrow>
       dimap_search m key d = (case map_of kvs key of Some v \<Rightarrow> v | None \<Rightarrow> d)) \<and>
    (\<forall>key v. length key = 32 \<and> (map_of kvs key \<noteq> None \<or> v = 0) \<longrightarrow> dimap_add_entry m key v = None)"
proof -
  have "\<forall>(k, v) \<in> set kvs. length k = 32 \<and> v \<noteq> 0 \<and> dimap_search [] k 0 = 0"
    using assms(1) by (auto simp: dimap.search_empty)
  from dimap.add_all_search [OF dimap.invar_empty this assms(2)]
  obtain m where m: "add_all dimap_add_entry [] kvs = Some m" "dimap_ok m"
      "\<And>key d. length key = 32 \<Longrightarrow> dimap_search m key d = (case map_of kvs key of Some v \<Rightarrow> v | None \<Rightarrow> d)"
    unfolding dimap.search_empty by blast
  have full: "dimap_add_entry m key v = None"
    if "length key = 32" "map_of kvs key \<noteq> None \<or> v = 0" for key v
  proof (cases "map_of kvs key")
    case None
    then show ?thesis using that by (simp add: dimap_add_entry_def)
  next
    case (Some w)
    then have "(key, w) \<in> set kvs" by (rule map_of_SomeD)
    then have "w \<noteq> 0" using assms(1) by blast
    then show ?thesis using m(3) [OF that(1), of 0] Some by (simp add: dimap_add_entry_def)
  qed
  show ?thesis
    by (intro exI [of _ m] conjI allI impI) (use m(1,3) full in simp_all)
qed

theorem dimap_add_then_search_witness:
  "\<exists>m. add_all dimap_add_entry [] [(replicate 32 1, 10), (replicate 32 2, 20)] = Some m \<and>
     dimap_search m (replicate 32 2) 5 = 20 \<and> dimap_search m (replicate 32 3) 5 = 5"
proof -
  let ?kvs = "[(replicate 32 (1 :: u8), 10 :: u64), (replicate 32 2, 20)]"
  have *: "\<forall>(k, v) \<in> set ?kvs. length k = 32 \<and> v \<noteq> 0" "distinct (map fst ?kvs)"
    by (simp_all add: replicate_eq_replicate)
  obtain m where m: "add_all dimap_add_entry [] ?kvs = Some m"
    "\<And>key d. length key = 32 \<Longrightarrow> dimap_search m key d = (case map_of ?kvs key of Some v \<Rightarrow> v | None \<Rightarrow> d)"
    using dimap_add_then_search [OF *] by blast
  from m(2) [of "replicate 32 2" 5] m(2) [of "replicate 32 3" 5] m(1) show ?thesis
    by (simp add: replicate_eq_replicate)
qed

text \<open>C22: \<open>select_array_member_cumulative_timei\<close>, given weights whose sum is the stated total
  (at most \<open>INT64_MAX\<close>) and a random value below it, returns, without a failing assertion, the
  first index whose cumulative weight exceeds the random value; so index \<open>i\<close> is selected for
  exactly \<open>entries[i]\<close> of the possible random values.\<close>

theorem weighted_selection:
  assumes "sum_list (map unat entries) = unat tot" "unat tot \<le> 2 ^ 63 - 1" "rand_val < tot"
  shows "\<exists>j<length entries.
    select_array_member_cumulative_timei entries tot rand_val = Some j \<and>
    sum_list (map unat (take j entries)) \<le> unat rand_val \<and>
    unat rand_val < sum_list (map unat (take j entries)) + unat (entries ! j)"
proof -
  let ?s = "\<lparr>i_chosen = - 1, n_chosen = 0, total_so_far = 0, sel_rand = rand_val\<rparr> :: select_state"
  have "unat rand_val < unat tot" using assms(3) by (simp add: word_less_nat_alt)
  then obtain j where j: "j < length entries" "unat rand_val < prefix_sum entries j"
      "\<forall>k<j. prefix_sum entries k \<le> unat rand_val"
      "select_loop entries 0 ?s = ?s\<lparr>i_chosen := int (0 + j), n_chosen := n_chosen ?s + 1,
        sel_rand := word_of_int INT64_MAX, total_so_far := total_so_far ?s + sum_list entries\<rparr>"
    using select_loop_choice [of ?s entries 0] assms by auto
  have "sum_list (map unat (take j entries)) \<le> unat rand_val"
    using j(3) by (cases j) (auto simp: prefix_sum_def)
  moreover have "prefix_sum entries j = sum_list (map unat (take j entries)) + unat (entries ! j)"
    using j(1) by (simp add: prefix_sum_def take_Suc_conv_app_nth)
  moreover have "unat (sum_list es) = sum_list (map unat es)"
    if "sum_list (map unat es) \<le> 2 ^ 63 - 1" for es :: "u64 list"
    using that by (induction es) (simp_all add: unat_add_exact)
  then have "sum_list entries = tot" using assms by (simp flip: unat_inj_iff)
  then have "select_array_member_cumulative_timei entries tot rand_val = Some j"
    using j(1,4) by (simp add: select_array_member_cumulative_timei_def)
  ultimately show ?thesis using j(1,2) by auto
qed

theorem weighted_selection_witness:
  "select_array_member_cumulative_timei [5, 0, 3] 8 6 = Some 2"
proof -
  obtain j where j: "j < 3" "select_array_member_cumulative_timei [5, 0, 3] 8 6 = Some j"
    "unat (6 :: u64) < sum_list (map unat (take j [5, 0, 3 :: u64])) + unat ([5, 0, 3 :: u64] ! j)"
    using weighted_selection [of "[5, 0, 3]" 8 6] by auto
  then have "j = 0 \<or> j = 1 \<or> j = 2" by linarith
  with j show ?thesis by auto
qed

end
