(* ===== verification/Smartlist_Core.thy ===== *)
theory Smartlist_Core
  imports Tor_Prelude
begin

text \<open>
  The resizable array of \<open>lib/smartlist_core/smartlist_core.c\<close>: a block of \<open>capacity\<close>
  pointers of which the first \<open>num_used\<close> are the elements.  A pointer is an \<open>option\<close>, with
  \<open>None\<close> for NULL.  A failed \<open>raw_assert\<close>, and a capacity loop that does not end, is the
  result \<open>None\<close> of an operation.
\<close>

section \<open>Definitions\<close>

record 'a smartlist_t =
  sl_list :: "'a option list"
  num_used :: nat
  capacity :: nat

definition SMARTLIST_DEFAULT_CAPACITY :: nat where
  "SMARTLIST_DEFAULT_CAPACITY = 16"

definition MAX_CAPACITY :: nat where
  "MAX_CAPACITY = 2147483647"

definition smartlist_new :: "'a smartlist_t" where
  "smartlist_new = \<lparr>sl_list = replicate SMARTLIST_DEFAULT_CAPACITY None, num_used = 0,
                    capacity = SMARTLIST_DEFAULT_CAPACITY\<rparr>"

definition smartlist_clear :: "'a smartlist_t \<Rightarrow> 'a smartlist_t" where
  "smartlist_clear sl =
     sl\<lparr>sl_list := replicate (num_used sl) None @ drop (num_used sl) (sl_list sl), num_used := 0\<rparr>"

text \<open>\<open>while (sz > higher) higher *= 2\<close>\<close>

partial_function (option) double_until :: "nat \<Rightarrow> nat \<Rightarrow> nat option" where
  "double_until sz higher = (if sz > higher then double_until sz (higher * 2) else Some higher)"

definition smartlist_ensure_capacity :: "'a smartlist_t \<Rightarrow> nat \<Rightarrow> 'a smartlist_t option" where
  "smartlist_ensure_capacity sl sz =
     (if \<not> sz \<le> MAX_CAPACITY then None
      else if sz > capacity sl then
        (case (if sz > MAX_CAPACITY div 2 then Some MAX_CAPACITY else double_until sz (capacity sl)) of
           None \<Rightarrow> None
         | Some higher \<Rightarrow>
             Some (sl\<lparr>sl_list := sl_list sl @ replicate (higher - capacity sl) None, capacity := higher\<rparr>))
      else Some sl)"

definition smartlist_grow :: "'a smartlist_t \<Rightarrow> nat \<Rightarrow> 'a smartlist_t option" where
  "smartlist_grow sl new_size =
     (case smartlist_ensure_capacity sl new_size of
        None \<Rightarrow> None
      | Some sl \<Rightarrow>
          if new_size > num_used sl
          then Some (sl\<lparr>sl_list := take (num_used sl) (sl_list sl) @ replicate (new_size - num_used sl) None
                          @ drop new_size (sl_list sl),
                        num_used := new_size\<rparr>)
          else Some sl)"

definition smartlist_add :: "'a smartlist_t \<Rightarrow> 'a option \<Rightarrow> 'a smartlist_t option" where
  "smartlist_add sl element =
     (case smartlist_ensure_capacity sl (num_used sl + 1) of
        None \<Rightarrow> None
      | Some sl \<Rightarrow> Some (sl\<lparr>sl_list := (sl_list sl)[num_used sl := element], num_used := num_used sl + 1\<rparr>))"

definition smartlist_add_all :: "'a smartlist_t \<Rightarrow> 'a smartlist_t \<Rightarrow> 'a smartlist_t option" where
  "smartlist_add_all s1 s2 =
     (let new_size = num_used s1 + num_used s2
      in case smartlist_ensure_capacity s1 new_size of
           None \<Rightarrow> None
         | Some s1 \<Rightarrow>
             Some (s1\<lparr>sl_list := take (num_used s1) (sl_list s1) @ take (num_used s2) (sl_list s2)
                        @ drop new_size (sl_list s1),
                      num_used := new_size\<rparr>))"

text \<open>Overwrite slot \<open>i\<close> with the last element and shorten the list.\<close>

definition swap_with_end :: "'a smartlist_t \<Rightarrow> nat \<Rightarrow> 'a smartlist_t" where
  "swap_with_end sl i =
     (let n = num_used sl - 1
      in sl\<lparr>sl_list := (sl_list sl)[i := sl_list sl ! n, n := None], num_used := n\<rparr>)"

function remove_loop :: "'a smartlist_t \<Rightarrow> 'a option \<Rightarrow> nat \<Rightarrow> 'a smartlist_t" where
  "remove_loop sl element i =
     (if i < num_used sl then
        (if sl_list sl ! i = element then remove_loop (swap_with_end sl i) element i
         else remove_loop sl element (i + 1))
      else sl)"
  by pat_completeness auto
termination
  by (relation "measure (\<lambda>(sl, e, i). num_used sl - i)") (auto simp: swap_with_end_def Let_def)

declare remove_loop.simps [simp del]

definition smartlist_remove :: "'a smartlist_t \<Rightarrow> 'a option \<Rightarrow> 'a smartlist_t" where
  "smartlist_remove sl element = (if element = None then sl else remove_loop sl element 0)"

function keeporder_loop :: "'a smartlist_t \<Rightarrow> 'a option \<Rightarrow> nat \<Rightarrow> nat \<Rightarrow> nat \<Rightarrow> 'a smartlist_t" where
  "keeporder_loop sl element num_used_orig i j =
     (if j < num_used_orig then
        (if sl_list sl ! j = element
         then keeporder_loop (sl\<lparr>num_used := num_used sl - 1\<rparr>) element num_used_orig i (j + 1)
         else keeporder_loop (sl\<lparr>sl_list := (sl_list sl)[i := sl_list sl ! j]\<rparr>) element num_used_orig (i + 1) (j + 1))
      else sl)"
  by pat_completeness auto
termination
  by (relation "measure (\<lambda>(sl, e, n, i, j). n - j)") auto

declare keeporder_loop.simps [simp del]

definition smartlist_remove_keeporder :: "'a smartlist_t \<Rightarrow> 'a option \<Rightarrow> 'a smartlist_t" where
  "smartlist_remove_keeporder sl element =
     (if element = None then sl
      else let num_used_orig = num_used sl;
               sl = keeporder_loop sl element num_used_orig 0 0
           in sl\<lparr>sl_list := take (num_used sl) (sl_list sl) @ replicate (num_used_orig - num_used sl) None
                   @ drop num_used_orig (sl_list sl)\<rparr>)"

definition smartlist_pop_last :: "'a smartlist_t \<Rightarrow> 'a smartlist_t \<times> 'a option" where
  "smartlist_pop_last sl =
     (if num_used sl \<noteq> 0 then
        (let n = num_used sl - 1
         in (sl\<lparr>sl_list := (sl_list sl)[n := None], num_used := n\<rparr>, sl_list sl ! n))
      else (sl, None))"

fun contains_loop :: "'a option list \<Rightarrow> nat \<Rightarrow> 'a option \<Rightarrow> bool" where
  "contains_loop (p # ps) (Suc n) element = (if p = element then True else contains_loop ps n element)"
| "contains_loop _ _ element = False"

definition smartlist_contains :: "'a smartlist_t \<Rightarrow> 'a option \<Rightarrow> bool" where
  "smartlist_contains sl element = contains_loop (sl_list sl) (num_used sl) element"

definition smartlist_del :: "'a smartlist_t \<Rightarrow> nat \<Rightarrow> 'a smartlist_t option" where
  "smartlist_del sl idx = (if \<not> idx < num_used sl then None else Some (swap_with_end sl idx))"

definition smartlist_del_keeporder :: "'a smartlist_t \<Rightarrow> nat \<Rightarrow> 'a smartlist_t option" where
  "smartlist_del_keeporder sl idx =
     (if \<not> idx < num_used sl then None
      else let n = num_used sl - 1;
               moved = (if idx < n then take idx (sl_list sl) @ take (n - idx) (drop (idx + 1) (sl_list sl))
                          @ drop n (sl_list sl)
                        else sl_list sl)
           in Some (sl\<lparr>sl_list := moved[n := None], num_used := n\<rparr>))"

definition smartlist_insert :: "'a smartlist_t \<Rightarrow> nat \<Rightarrow> 'a option \<Rightarrow> 'a smartlist_t option" where
  "smartlist_insert sl idx val =
     (if \<not> idx \<le> num_used sl then None
      else if idx = num_used sl then smartlist_add sl val
      else case smartlist_ensure_capacity sl (num_used sl + 1) of
             None \<Rightarrow> None
           | Some sl \<Rightarrow>
               let moved = take (idx + 1) (sl_list sl) @ take (num_used sl - idx) (drop idx (sl_list sl))
                             @ drop (num_used sl + 1) (sl_list sl)
               in Some (sl\<lparr>sl_list := moved[idx := val], num_used := num_used sl + 1\<rparr>))"

section \<open>Invariant and abstraction\<close>

text \<open>The elements of a list, and the invariant the file keeps: the block has the size its
  capacity says, and \<open>everything else in the smartlist code tries to make sure that unused
  entries are always NULL\<close>.\<close>

definition elems :: "'a smartlist_t \<Rightarrow> 'a option list" where
  "elems sl = take (num_used sl) (sl_list sl)"

definition sl_ok :: "'a smartlist_t \<Rightarrow> bool" where
  "sl_ok sl \<longleftrightarrow> length (sl_list sl) = capacity sl \<and> num_used sl \<le> capacity sl \<and> 0 < capacity sl \<and>
     capacity sl \<le> MAX_CAPACITY \<and> drop (num_used sl) (sl_list sl) = replicate (capacity sl - num_used sl) None"

text \<open>The block of a well-formed list is its elements followed by NULLs, and conversely.\<close>

lemma sl_ok_list: "sl_ok sl \<Longrightarrow> sl_list sl = elems sl @ replicate (capacity sl - num_used sl) None"
  unfolding sl_ok_def elems_def by (metis append_take_drop_id)

lemma sl_ok_length: "sl_ok sl \<Longrightarrow> length (elems sl) = num_used sl"
  by (simp add: sl_ok_def elems_def)

lemma sl_okI:
  assumes "sl_list sl = xs @ replicate (capacity sl - length xs) None" "num_used sl = length xs"
    "length xs \<le> capacity sl" "0 < capacity sl" "capacity sl \<le> MAX_CAPACITY"
  shows "sl_ok sl" "elems sl = xs"
  using assms by (simp_all add: sl_ok_def elems_def)

lemma double_until_enough:
  assumes "0 < higher"
  shows "\<exists>k. double_until sz higher = Some (higher * 2 ^ k) \<and> sz \<le> higher * 2 ^ k \<and>
    (k = 0 \<or> higher * 2 ^ (k - 1) < sz)"
  using assms
proof (induction "sz - higher" arbitrary: higher rule: less_induct)
  case less
  show ?case
  proof (cases "sz > higher")
    case True
    then have "sz - higher * 2 < sz - higher" using less.prems by linarith
    then obtain k where k: "double_until sz (higher * 2) = Some (higher * 2 * 2 ^ k)"
        "sz \<le> higher * 2 * 2 ^ k" "k = 0 \<or> higher * 2 * 2 ^ (k - 1) < sz"
      using less.hyps [of "higher * 2"] less.prems by auto
    have "higher * 2 ^ k < sz" using k(3) True by (cases k) auto
    then show ?thesis
      using k(1,2) True
      by (intro exI [of _ "Suc k"]) (simp add: double_until.simps [of sz higher] mult.assoc)
  next
    case False
    then show ?thesis by (intro exI [of _ 0]) (simp add: double_until.simps [of sz higher])
  qed
qed

lemma ensure_capacity_ok:
  assumes "sl_ok sl" "sz \<le> MAX_CAPACITY"
  obtains sl' where "smartlist_ensure_capacity sl sz = Some sl'" "sl_ok sl'" "elems sl' = elems sl"
    "num_used sl' = num_used sl" "sz \<le> capacity sl'" "capacity sl \<le> capacity sl'"
proof (cases "sz > capacity sl")
  case False
  then show ?thesis using assms that [of sl] by (simp add: smartlist_ensure_capacity_def)
next
  case True
  obtain h where h: "(if sz > MAX_CAPACITY div 2 then Some MAX_CAPACITY
      else double_until sz (capacity sl)) = Some h" "sz \<le> h" "h \<le> MAX_CAPACITY"
  proof (cases "sz > MAX_CAPACITY div 2")
    case True
    then show ?thesis using that assms(2) by simp
  next
    case False
    have "0 < capacity sl" using assms(1) by (simp add: sl_ok_def)
    then obtain k where k: "double_until sz (capacity sl) = Some (capacity sl * 2 ^ k)"
        "sz \<le> capacity sl * 2 ^ k" "k = 0 \<or> capacity sl * 2 ^ (k - 1) < sz"
      using double_until_enough by blast
    have "k \<noteq> 0" using k(2) \<open>sz > capacity sl\<close> by (cases k) auto
    then have "capacity sl * 2 ^ k = 2 * (capacity sl * 2 ^ (k - 1))" by (cases k) auto
    then have "capacity sl * 2 ^ k \<le> MAX_CAPACITY"
      using k(3) \<open>k \<noteq> 0\<close> False unfolding MAX_CAPACITY_def by linarith
    then show ?thesis using that k(1,2) False by auto
  qed
  define sl' where "sl' = sl\<lparr>sl_list := sl_list sl @ replicate (h - capacity sl) None, capacity := h\<rparr>"
  have len: "length (elems sl) = num_used sl" "num_used sl \<le> capacity sl" "0 < capacity sl"
    using assms(1) by (simp_all add: sl_ok_length) (simp_all add: sl_ok_def)
  have "sl_list sl' = elems sl @ replicate (h - num_used sl) None"
    using len True h(2) unfolding sl'_def
    by (subst sl_ok_list [OF assms(1)]) (simp flip: replicate_add)
  moreover have "capacity sl' = h" "num_used sl' = num_used sl" by (simp_all add: sl'_def)
  ultimately have "sl_ok sl'" "elems sl' = elems sl"
    using len True h sl_okI [of sl' "elems sl"] by simp_all
  moreover have "smartlist_ensure_capacity sl sz = Some sl'"
    using True assms(2) h(1) by (simp add: smartlist_ensure_capacity_def sl'_def)
  ultimately show ?thesis using that [of sl'] h True by (simp add: sl'_def)
qed

section \<open>The operations refine those of lists\<close>

lemma new_ok: "sl_ok smartlist_new" "elems smartlist_new = []"
  by (simp_all add: smartlist_new_def sl_ok_def elems_def SMARTLIST_DEFAULT_CAPACITY_def MAX_CAPACITY_def)

lemma clear_ok:
  assumes "sl_ok sl"
  shows "sl_ok (smartlist_clear sl)" "elems (smartlist_clear sl) = []"
proof -
  have "sl_list (smartlist_clear sl) = replicate (capacity sl) None"
    using assms by (simp add: smartlist_clear_def sl_ok_def flip: replicate_add)
  then show "sl_ok (smartlist_clear sl)" "elems (smartlist_clear sl) = []"
    using assms by (simp_all add: sl_ok_def elems_def smartlist_clear_def)
qed

lemma add_ok:
  assumes "sl_ok sl" "num_used sl < MAX_CAPACITY"
  shows "\<exists>sl'. smartlist_add sl x = Some sl' \<and> sl_ok sl' \<and> elems sl' = elems sl @ [x]"
proof -
  obtain s1 where s1: "smartlist_ensure_capacity sl (num_used sl + 1) = Some s1" "sl_ok s1"
      "elems s1 = elems sl" "num_used s1 = num_used sl" "num_used sl + 1 \<le> capacity s1"
    using ensure_capacity_ok [OF assms(1), of "num_used sl + 1"] assms(2) by auto
  define sl' where "sl' = s1\<lparr>sl_list := (sl_list s1)[num_used s1 := x], num_used := num_used s1 + 1\<rparr>"
  have len: "length (elems s1) = num_used s1" by (rule sl_ok_length [OF s1(2)])
  obtain k where k: "capacity s1 - num_used s1 = Suc k" using s1(4,5) by (cases "capacity s1 - num_used s1") auto
  have "sl_list sl' = (elems s1 @ [x]) @ replicate (capacity sl' - length (elems s1 @ [x])) None"
    using k unfolding sl'_def
    by (simp add: sl_ok_list [OF s1(2)] list_update_append len)
  moreover have "capacity sl' = capacity s1" "num_used sl' = length (elems s1 @ [x])"
    by (simp_all add: sl'_def len)
  ultimately have "sl_ok sl'" "elems sl' = elems sl @ [x]"
    using sl_okI [of sl' "elems s1 @ [x]"] s1 len by (simp_all add: sl_ok_def)
  then show ?thesis using s1(1) by (simp add: smartlist_add_def sl'_def)
qed

lemma add_all_ok:
  assumes "sl_ok s1" "sl_ok s2" "num_used s1 + num_used s2 \<le> MAX_CAPACITY"
  shows "\<exists>sl'. smartlist_add_all s1 s2 = Some sl' \<and> sl_ok sl' \<and> elems sl' = elems s1 @ elems s2"
proof -
  let ?n = "num_used s1 + num_used s2"
  obtain t where t: "smartlist_ensure_capacity s1 ?n = Some t" "sl_ok t"
      "elems t = elems s1" "num_used t = num_used s1" "?n \<le> capacity t"
    using ensure_capacity_ok [OF assms(1,3)] by metis
  have len: "length (elems t) = num_used t" "length (elems s2) = num_used s2"
    using t(2) assms(2) by (simp_all add: sl_ok_length)
  define sl' where "sl' = t\<lparr>sl_list := take (num_used t) (sl_list t) @ take (num_used s2) (sl_list s2)
      @ drop ?n (sl_list t), num_used := ?n\<rparr>"
  have "drop ?n (sl_list t) = replicate (capacity t - ?n) None"
    unfolding sl_ok_list [OF t(2)] using len t(4) by simp
  moreover have "take (num_used s1) (sl_list t) = elems s1" using t(3,4) by (simp add: elems_def)
  ultimately have "sl_list sl' = (elems s1 @ elems s2) @ replicate (capacity sl' - length (elems s1 @ elems s2)) None"
    using len t(3,4) by (simp add: sl'_def flip: elems_def)
  then have "sl_ok sl'" "elems sl' = elems s1 @ elems s2"
    using sl_okI [of sl' "elems s1 @ elems s2"] t len by (simp_all add: sl'_def sl_ok_def)
  then show ?thesis using t(1) by (simp add: smartlist_add_all_def sl'_def Let_def)
qed

lemma grow_ok:
  assumes "sl_ok sl" "n \<le> MAX_CAPACITY"
  shows "\<exists>sl'. smartlist_grow sl n = Some sl' \<and> sl_ok sl' \<and>
    elems sl' = elems sl @ replicate (n - num_used sl) None"
proof -
  obtain t where t: "smartlist_ensure_capacity sl n = Some t" "sl_ok t"
      "elems t = elems sl" "num_used t = num_used sl" "n \<le> capacity t"
    using ensure_capacity_ok [OF assms] by metis
  have len: "length (elems t) = num_used t" using t(2) by (simp add: sl_ok_length)
  define sl' where "sl' = t\<lparr>sl_list := take (num_used t) (sl_list t) @ replicate (n - num_used t) None
      @ drop n (sl_list t), num_used := n\<rparr>"
  show ?thesis
  proof (cases "n > num_used t")
    case True
    have "drop n (sl_list t) = replicate (capacity t - n) None"
      unfolding sl_ok_list [OF t(2)] using len True by simp
    moreover have "take (num_used sl) (sl_list t) = elems sl" using t(3,4) by (simp add: elems_def)
    ultimately have "sl_list sl' = (elems sl @ replicate (n - num_used sl) None)
        @ replicate (capacity sl' - length (elems sl @ replicate (n - num_used sl) None)) None"
      using len True t(3,4) by (simp add: sl'_def flip: elems_def)
    then have "sl_ok sl'" "elems sl' = elems sl @ replicate (n - num_used sl) None"
      using sl_okI [of sl' "elems sl @ replicate (n - num_used sl) None"] t len True
      by (simp_all add: sl'_def sl_ok_def)
    then show ?thesis using t(1) True by (simp add: smartlist_grow_def sl'_def)
  next
    case False
    then show ?thesis using t by (simp add: smartlist_grow_def)
  qed
qed

lemma update_last: "length ys = Suc k \<Longrightarrow> ys[k := v] = butlast ys @ [v]"
  by (cases ys rule: rev_cases) auto

lemma swap_with_end_ok:
  assumes "sl_ok sl" "i < num_used sl"
  shows "sl_ok (swap_with_end sl i)"
    "elems (swap_with_end sl i) = butlast ((elems sl)[i := last (elems sl)])"
    "num_used (swap_with_end sl i) = num_used sl - 1"
proof -
  define xs where "xs = elems sl"
  have len: "length xs = num_used sl" using assms(1) by (simp add: sl_ok_length xs_def)
  then have ne: "xs \<noteq> []" using assms(2) by auto
  obtain k where k: "num_used sl = Suc k" using assms(2) by (cases "num_used sl") auto
  have l: "sl_list sl = xs @ replicate (capacity sl - num_used sl) None"
    by (simp add: sl_ok_list [OF assms(1)] xs_def)
  have cap: "num_used sl \<le> capacity sl" using assms(1) by (simp add: sl_ok_def)
  have "sl_list sl ! k = last xs" using len k ne by (simp add: l nth_append last_conv_nth)
  then have "sl_list (swap_with_end sl i) =
      xs[i := last xs, k := None] @ replicate (capacity sl - num_used sl) None"
    using assms(2) len k by (simp add: swap_with_end_def l list_update_append Let_def)
  also have "xs[i := last xs, k := None] = butlast (xs[i := last xs]) @ [None]"
    using len k by (intro update_last) simp
  finally have "sl_list (swap_with_end sl i) = butlast (xs[i := last xs])
      @ replicate (capacity (swap_with_end sl i) - length (butlast (xs[i := last xs]))) None"
    using len k cap by (simp add: swap_with_end_def Let_def Suc_diff_le flip: replicate_Suc)
  moreover have "capacity (swap_with_end sl i) = capacity sl"
    and n: "num_used (swap_with_end sl i) = num_used sl - 1"
    by (simp_all add: swap_with_end_def Let_def)
  moreover have "0 < capacity sl" "capacity sl \<le> MAX_CAPACITY" using assms(1) by (simp_all add: sl_ok_def)
  ultimately have "sl_ok (swap_with_end sl i)" "elems (swap_with_end sl i) = butlast (xs[i := last xs])"
    using sl_okI [of "swap_with_end sl i" "butlast (xs[i := last xs])"] len cap by simp_all
  with n show "sl_ok (swap_with_end sl i)"
    "elems (swap_with_end sl i) = butlast ((elems sl)[i := last (elems sl)])"
    "num_used (swap_with_end sl i) = num_used sl - 1"
    by (simp_all add: xs_def)
qed

lemma mset_swap_end:
  "i < length xs \<Longrightarrow> mset (butlast (xs[i := last xs])) = mset xs - {#xs ! i#}"
proof -
  assume i: "i < length xs"
  then have xs: "xs \<noteq> []" by auto
  then have ne: "xs[i := last xs] \<noteq> []" by simp
  have l: "last (xs[i := last xs]) = last xs" using xs by (simp add: last_list_update)
  have "mset (xs[i := last xs]) = mset (butlast (xs[i := last xs]) @ [last xs])"
    using append_butlast_last_id [OF ne] l by simp
  moreover have "mset (xs[i := last xs]) = add_mset (last xs) (mset xs - {#xs ! i#})"
    by (rule mset_update [OF i])
  ultimately show ?thesis by simp
qed

lemma take_swap_end: "i < length xs \<Longrightarrow> take i (butlast (xs[i := last xs])) = take i xs"
  by (auto simp: butlast_conv_take min_def)

lemma remove_loop_ok:
  assumes "sl_ok sl" "e \<notin> set (take i (elems sl))"
  shows "sl_ok (remove_loop sl e i) \<and> take i (elems (remove_loop sl e i)) = take i (elems sl) \<and>
    mset (elems (remove_loop sl e i)) = filter_mset (\<lambda>x. x \<noteq> e) (mset (elems sl))"
  using assms
proof (induction sl e i rule: remove_loop.induct)
  case (1 sl e i)
  have len: "length (elems sl) = num_used sl" by (rule sl_ok_length [OF "1.prems"(1)])
  show ?case
  proof (cases "i < num_used sl")
    case False
    then have "filter_mset (\<lambda>x. x \<noteq> e) (mset (elems sl)) = mset (elems sl)"
      using "1.prems"(2) len by (auto intro!: simp: filter_mset_eq_conv)
    then show ?thesis using False "1.prems"(1) by (simp add: remove_loop.simps [of sl e i])
  next
    case True
    have nth: "sl_list sl ! i = elems sl ! i" using True by (simp add: elems_def)
    show ?thesis
    proof (cases "sl_list sl ! i = e")
      case eq: True
      let ?s = "swap_with_end sl i"
      have s: "sl_ok ?s" "elems ?s = butlast ((elems sl)[i := last (elems sl)])"
        using swap_with_end_ok [OF "1.prems"(1) True] by auto
      have t: "take i (elems ?s) = take i (elems sl)" using True len by (simp add: s(2) take_swap_end)
      have m: "mset (elems ?s) = mset (elems sl) - {#e#}"
        using True len eq nth by (simp add: s(2) mset_swap_end)
      have "filter_mset (\<lambda>x. x \<noteq> e) (mset (elems sl) - {#e#}) = filter_mset (\<lambda>x. x \<noteq> e) (mset (elems sl))"
        by (simp add: multiset_eq_iff)
      with "1.IH"(1) [OF True eq s(1)] "1.prems"(2) t m True eq show ?thesis
        by (simp add: remove_loop.simps [of sl e i])
    next
      case neq: False
      then have "e \<notin> set (take (i + 1) (elems sl))"
        using "1.prems"(2) True len nth by (auto simp: take_Suc_conv_app_nth)
      from "1.IH"(2) [OF True neq "1.prems"(1) this] have
        "sl_ok (remove_loop sl e (i + 1))"
        "take (i + 1) (elems (remove_loop sl e (i + 1))) = take (i + 1) (elems sl)"
        "mset (elems (remove_loop sl e (i + 1))) = filter_mset (\<lambda>x. x \<noteq> e) (mset (elems sl))"
        by auto
      moreover from this(2) have "take i (elems (remove_loop sl e (i + 1))) = take i (elems sl)"
        by (metis le_add1 min.absorb1 take_take)
      ultimately show ?thesis using True neq by (simp add: remove_loop.simps [of sl e i])
    qed
  qed
qed

lemma remove_ok:
  assumes "sl_ok sl" "e \<noteq> None"
  shows "sl_ok (smartlist_remove sl e)"
    "mset (elems (smartlist_remove sl e)) = filter_mset (\<lambda>x. x \<noteq> e) (mset (elems sl))"
  using remove_loop_ok [OF assms(1), of e 0] assms(2) by (auto simp: smartlist_remove_def)

lemma pop_last_ok:
  assumes "sl_ok sl" "elems sl \<noteq> []"
  shows "sl_ok (fst (smartlist_pop_last sl))" "elems (fst (smartlist_pop_last sl)) = butlast (elems sl)"
    "snd (smartlist_pop_last sl) = last (elems sl)"
proof -
  have n: "num_used sl \<noteq> 0" using assms by (auto simp: elems_def)
  have len: "length (elems sl) = num_used sl" by (rule sl_ok_length [OF assms(1)])
  have "fst (smartlist_pop_last sl) = swap_with_end sl (num_used sl - 1)"
    using n by (simp add: smartlist_pop_last_def swap_with_end_def Let_def)
  moreover have "(elems sl)[num_used sl - 1 := last (elems sl)] = elems sl"
    using len assms(2) by (simp add: last_conv_nth)
  ultimately show "sl_ok (fst (smartlist_pop_last sl))"
      "elems (fst (smartlist_pop_last sl)) = butlast (elems sl)"
    using swap_with_end_ok [OF assms(1), of "num_used sl - 1"] n by simp_all
  show "snd (smartlist_pop_last sl) = last (elems sl)"
    using n len assms(2) by (simp add: smartlist_pop_last_def Let_def last_conv_nth) (simp add: elems_def)
qed

lemma contains_ok: "smartlist_contains sl e \<longleftrightarrow> e \<in> set (elems sl)"
proof -
  have "contains_loop ps n e \<longleftrightarrow> e \<in> set (take n ps)" for ps n
    by (induction ps n e rule: contains_loop.induct) auto
  then show ?thesis by (simp add: smartlist_contains_def elems_def)
qed

lemma keeporder_loop_ok:
  fixes e :: "'a option"
  assumes "i \<le> j" "j \<le> n" "n \<le> length (sl_list sl)"
  defines "F \<equiv> filter (\<lambda>x. x \<noteq> e) (drop j (take n (sl_list sl)))"
  defines "r \<equiv> keeporder_loop sl e n i j"
  shows "length (sl_list r) = length (sl_list sl) \<and> capacity r = capacity sl \<and>
    drop n (sl_list r) = drop n (sl_list sl) \<and>
    take (i + length F) (sl_list r) = take i (sl_list sl) @ F \<and>
    num_used r = num_used sl - ((n - j) - length F)"
  using assms(1-3) unfolding F_def r_def
proof (induction sl e n i j rule: keeporder_loop.induct)
  case (1 sl e n i j)
  let ?L = "sl_list sl"
  show ?case
  proof (cases "j < n")
    case False
    then have "keeporder_loop sl e n i j = sl" by (simp add: keeporder_loop.simps [of sl e n i j])
    then show ?thesis using False "1.prems" by simp
  next
    case True
    have d: "drop j (take n ?L) = ?L ! j # drop (j + 1) (take n ?L)"
      using True "1.prems"(3) by (simp add: Cons_nth_drop_Suc [symmetric])
    let ?F = "filter (\<lambda>x. x \<noteq> e) (drop (j + 1) (take n ?L))"
    have lF: "length ?F \<le> n - (j + 1)"
      using length_filter_le [of "\<lambda>x. x \<noteq> e" "drop (j + 1) (take n ?L)"] by simp
    show ?thesis
    proof (cases "?L ! j = e")
      case eq: True
      let ?s = "sl\<lparr>num_used := num_used sl - 1\<rparr>"
      from "1.IH"(1) [OF True eq] "1.prems" True have
        "length (sl_list (keeporder_loop ?s e n i (j + 1))) = length ?L"
        "capacity (keeporder_loop ?s e n i (j + 1)) = capacity sl"
        "drop n (sl_list (keeporder_loop ?s e n i (j + 1))) = drop n ?L"
        "take (i + length ?F) (sl_list (keeporder_loop ?s e n i (j + 1))) = take i ?L @ ?F"
        "num_used (keeporder_loop ?s e n i (j + 1)) = num_used sl - 1 - (n - (j + 1) - length ?F)"
        by simp_all
      then show ?thesis
        using True eq lF by (simp add: keeporder_loop.simps [of sl e n i j] d)
    next
      case neq: False
      let ?s = "sl\<lparr>sl_list := ?L[i := ?L ! j]\<rparr>"
      have i: "i < length ?L" using True "1.prems" by linarith
      have F: "drop (j + 1) (take n (?L[i := ?L ! j])) = drop (j + 1) (take n ?L)"
        using "1.prems" by (simp add: take_update_swap)
      have t: "take (i + 1) (?L[i := ?L ! j]) = take i ?L @ [?L ! j]"
        using i by (simp add: take_Suc_conv_app_nth)
      have S: "sl_list ?s = ?L[i := ?L ! j]" by simp
      have p: "i + 1 \<le> j + 1" "j + 1 \<le> n" "n \<le> length (sl_list ?s)"
        using "1.prems" True by simp_all
      from "1.IH"(2) [OF True neq p, unfolded S F t] i True "1.prems"(1) have
        "length (sl_list (keeporder_loop ?s e n (i + 1) (j + 1))) = length ?L"
        "capacity (keeporder_loop ?s e n (i + 1) (j + 1)) = capacity sl"
        "drop n (sl_list (keeporder_loop ?s e n (i + 1) (j + 1))) = drop n ?L"
        "take (i + 1 + length ?F) (sl_list (keeporder_loop ?s e n (i + 1) (j + 1))) =
           take i ?L @ [?L ! j] @ ?F"
        "num_used (keeporder_loop ?s e n (i + 1) (j + 1)) = num_used sl - (n - (j + 1) - length ?F)"
        by simp_all
      then show ?thesis
        using True neq lF by (simp add: keeporder_loop.simps [of sl e n i j] d)
    qed
  qed
qed

lemma remove_keeporder_ok:
  assumes "sl_ok sl" "e \<noteq> None"
  shows "sl_ok (smartlist_remove_keeporder sl e)"
    "elems (smartlist_remove_keeporder sl e) = filter (\<lambda>x. x \<noteq> e) (elems sl)"
proof -
  define n where "n = num_used sl"
  define F where "F = filter (\<lambda>x. x \<noteq> e) (elems sl)"
  define r where "r = keeporder_loop sl e n 0 0"
  define sl' where "sl' = smartlist_remove_keeporder sl e"
  have n: "n \<le> length (sl_list sl)" "n \<le> capacity sl" using assms(1) by (simp_all add: sl_ok_def n_def)
  have lF: "length F \<le> n"
    using length_filter_le [of "\<lambda>x. x \<noteq> e" "elems sl"] sl_ok_length [OF assms(1)] by (simp add: F_def n_def)
  have r: "capacity r = capacity sl" "drop n (sl_list r) = drop n (sl_list sl)"
      "take (length F) (sl_list r) = F" "num_used r = length F"
    using keeporder_loop_ok [of 0 0 n sl e] n lF by (simp_all add: r_def F_def elems_def n_def)
  have sl': "sl' = r\<lparr>sl_list := take (num_used r) (sl_list r) @ replicate (n - num_used r) None
      @ drop n (sl_list r)\<rparr>"
    using assms(2) unfolding sl'_def smartlist_remove_keeporder_def Let_def n_def r_def by auto
  have "sl_list sl' = F @ replicate (n - length F) None @ replicate (capacity sl - n) None"
    using r assms(1) by (simp add: sl' sl_ok_def flip: n_def)
  then have "sl_list sl' = F @ replicate (capacity sl - length F) None"
    using lF n(2) by (simp flip: replicate_add)
  moreover have "capacity sl' = capacity sl" "num_used sl' = length F"
    using r by (simp_all add: sl')
  moreover have "0 < capacity sl" "capacity sl \<le> MAX_CAPACITY" using assms(1) by (simp_all add: sl_ok_def)
  ultimately have "sl_ok sl'" "elems sl' = F"
    using sl_okI [of sl' F] lF n(2) by simp_all
  then show "sl_ok (smartlist_remove_keeporder sl e)"
    "elems (smartlist_remove_keeporder sl e) = filter (\<lambda>x. x \<noteq> e) (elems sl)"
    by (simp_all add: sl'_def F_def)
qed

lemma del_keeporder_ok:
  fixes sl :: "'a smartlist_t"
  assumes "sl_ok sl" "idx < num_used sl"
  shows "\<exists>sl'. smartlist_del_keeporder sl idx = Some sl' \<and> sl_ok sl' \<and>
    elems sl' = take idx (elems sl) @ drop (idx + 1) (elems sl)"
proof -
  define xs where "xs = elems sl"
  define n where "n = num_used sl - 1"
  define xs' where "xs' = take idx xs @ drop (idx + 1) xs"
  have len: "length xs = Suc n" using assms sl_ok_length [OF assms(1)] by (simp add: xs_def n_def)
  have cap: "Suc n \<le> capacity sl" "0 < capacity sl" "capacity sl \<le> MAX_CAPACITY"
    using assms by (auto simp: sl_ok_def n_def)
  have l: "sl_list sl = xs @ replicate (capacity sl - Suc n) None"
    using sl_ok_list [OF assms(1)] assms(2) by (simp add: xs_def n_def)
  have idx: "idx \<le> n" using assms(2) by (simp add: n_def)
  have lx: "length xs' = n" using len idx by (simp add: xs'_def)
  define moved where "moved = (if idx < n then take idx (sl_list sl)
      @ take (n - idx) (drop (idx + 1) (sl_list sl)) @ drop n (sl_list sl) else sl_list sl)"
  define sl' where "sl' = sl\<lparr>sl_list := moved[n := None], num_used := n\<rparr>"
  have sl': "smartlist_del_keeporder sl idx = Some sl'"
    using assms(2) by (simp add: smartlist_del_keeporder_def Let_def sl'_def moved_def n_def)
  have "take idx (sl_list sl) @ take (n - idx) (drop (idx + 1) (sl_list sl)) = xs'"
    using len idx by (simp add: l xs'_def)
  moreover have "sl_list sl = xs' @ drop n (sl_list sl)" if "idx = n"
    using len that by (simp add: l xs'_def)
  ultimately have moved: "moved = xs' @ drop n (sl_list sl)"
    using idx by (auto simp: moved_def)
  have "drop n xs = [xs ! n]" using len by (simp add: Cons_nth_drop_Suc [symmetric])
  moreover have "replicate (capacity sl - n) (None :: 'a option) = None # replicate (capacity sl - Suc n) None"
    using cap(1) by (simp add: Suc_diff_Suc flip: replicate_Suc)
  ultimately have "(drop n (sl_list sl))[0 := None] = replicate (capacity sl - n) None"
    using len by (simp add: l)
  then have "sl_list sl' = xs' @ replicate (capacity sl' - length xs') None"
    by (simp add: sl'_def moved list_update_append lx)
  moreover have "capacity sl' = capacity sl" "num_used sl' = n" by (simp_all add: sl'_def)
  ultimately have "sl_ok sl'" "elems sl' = xs'"
    using sl_okI [of sl' xs'] cap lx by simp_all
  then show ?thesis using sl' by (simp add: xs'_def xs_def)
qed

lemma insert_ok:
  fixes sl :: "'a smartlist_t"
  assumes "sl_ok sl" "idx \<le> num_used sl" "num_used sl < MAX_CAPACITY"
  shows "\<exists>sl'. smartlist_insert sl idx v = Some sl' \<and> sl_ok sl' \<and>
    elems sl' = take idx (elems sl) @ v # drop idx (elems sl)"
proof (cases "idx = num_used sl")
  case True
  then show ?thesis
    using add_ok [OF assms(1,3), of v] sl_ok_length [OF assms(1)] by (simp add: smartlist_insert_def)
next
  case False
  obtain t where t: "smartlist_ensure_capacity sl (num_used sl + 1) = Some t" "sl_ok t"
      "elems t = elems sl" "num_used t = num_used sl" "num_used sl + 1 \<le> capacity t"
    using ensure_capacity_ok [OF assms(1), of "num_used sl + 1"] assms(3) by auto
  define n where "n = num_used sl"
  define xs where "xs = elems sl"
  define xs' where "xs' = take idx xs @ v # drop idx xs"
  have len: "length xs = n" using sl_ok_length [OF assms(1)] by (simp add: xs_def n_def)
  have idx: "idx < n" using False assms(2) by (simp add: n_def)
  have l: "sl_list t = xs @ replicate (capacity t - n) None"
    using sl_ok_list [OF t(2)] t(3,4) by (simp add: xs_def n_def)
  define moved where "moved = take (idx + 1) (sl_list t) @ take (n - idx) (drop idx (sl_list t))
      @ drop (n + 1) (sl_list t)"
  define sl' where "sl' = t\<lparr>sl_list := moved[idx := v], num_used := n + 1\<rparr>"
  have "moved = take idx xs @ xs ! idx # drop idx xs @ replicate (capacity t - (n + 1)) None"
    using len idx by (simp add: moved_def l take_Suc_conv_app_nth)
  then have "sl_list sl' = xs' @ replicate (capacity sl' - length xs') None"
    using len idx by (simp add: sl'_def xs'_def list_update_append)
  moreover have "capacity sl' = capacity t" "num_used sl' = length xs'"
    using len idx by (simp_all add: sl'_def xs'_def)
  moreover have "length xs' = n + 1" using len idx by (simp add: xs'_def)
  moreover have "0 < capacity t" "capacity t \<le> MAX_CAPACITY" using t(2) by (simp_all add: sl_ok_def)
  ultimately have "sl_ok sl'" "elems sl' = xs'"
    using sl_okI [of sl' xs'] t(5) by (simp_all add: n_def)
  moreover have "smartlist_insert sl idx v = Some sl'"
    using t False idx by (simp add: smartlist_insert_def sl'_def moved_def n_def Let_def)
  ultimately show ?thesis by (simp add: xs'_def xs_def)
qed

section \<open>The growable list, as its clients see it\<close>

text \<open>Clients of the array build lists by appending; they rely on the contents after an append
  as long as the list is below its size limit.\<close>

fun append_each :: "('s \<Rightarrow> 'e \<Rightarrow> 's option) \<Rightarrow> 's \<Rightarrow> 'e list \<Rightarrow> 's option" where
  "append_each app s [] = Some s"
| "append_each app s (e # es) = (case app s e of None \<Rightarrow> None | Some s' \<Rightarrow> append_each app s' es)"

locale growable_list =
  fixes contents :: "'s \<Rightarrow> 'e list" and invar :: "'s \<Rightarrow> bool" and append_elem :: "'s \<Rightarrow> 'e \<Rightarrow> 's option"
    and limit :: nat
  assumes append_law: "invar s \<Longrightarrow> length (contents s) < limit \<Longrightarrow>
    \<exists>s'. append_elem s e = Some s' \<and> invar s' \<and> contents s' = contents s @ [e]"
begin

lemma append_each_contents:
  "invar s \<Longrightarrow> length (contents s) + length es \<le> limit \<Longrightarrow>
     \<exists>s'. append_each append_elem s es = Some s' \<and> invar s' \<and> contents s' = contents s @ es"
proof (induction es arbitrary: s)
  case (Cons e es)
  obtain t where t: "append_elem s e = Some t" "invar t" "contents t = contents s @ [e]"
    using append_law [OF Cons.prems(1), of e] Cons.prems(2) by auto
  with Cons.IH [OF t(2)] Cons.prems(2) show ?case by auto
qed simp

end

interpretation smartlist: growable_list elems sl_ok smartlist_add MAX_CAPACITY
  by unfold_locales (use add_ok in \<open>auto simp: sl_ok_length\<close>)

section \<open>Properties\<close>

text \<open>On a well-formed list \<open>smartlist_insert\<close> below the capacity limit succeeds, puts the
  value at the index and moves the rest up by one, and \<open>smartlist_del_keeporder\<close> of that index
  restores the contents; both keep the representation well formed (unused slots NULL, at most
  \<open>capacity\<close> elements), and an index past the end fails.\<close>

theorem insert_then_del_keeporder:
  assumes "sl_ok sl" "idx \<le> num_used sl" "num_used sl < MAX_CAPACITY"
  shows "\<exists>sl' sl''. smartlist_insert sl idx v = Some sl' \<and> sl_ok sl' \<and>
    elems sl' = take idx (elems sl) @ v # drop idx (elems sl) \<and>
    smartlist_del_keeporder sl' idx = Some sl'' \<and> sl_ok sl'' \<and> elems sl'' = elems sl \<and>
    smartlist_insert sl (num_used sl + 1) v = None \<and> smartlist_del_keeporder sl (num_used sl) = None"
proof -
  obtain sl' where sl': "smartlist_insert sl idx v = Some sl'" "sl_ok sl'"
      "elems sl' = take idx (elems sl) @ v # drop idx (elems sl)"
    using insert_ok [OF assms, of v] by blast
  have len: "length (elems sl) = num_used sl" by (rule sl_ok_length [OF assms(1)])
  have "idx < num_used sl'" using sl_ok_length [OF sl'(2)] assms(2) len by (simp add: sl'(3))
  from del_keeporder_ok [OF sl'(2) this] sl'(3) assms(2) len obtain sl'' where
    "smartlist_del_keeporder sl' idx = Some sl''" "sl_ok sl''" "elems sl'' = elems sl"
    by auto
  with sl' show ?thesis by (auto simp: smartlist_insert_def smartlist_del_keeporder_def)
qed

theorem insert_then_del_keeporder_witness:
  "\<exists>sl' sl''. smartlist_insert (smartlist_new :: nat smartlist_t) 0 (Some 7) = Some sl' \<and>
     elems sl' = [Some 7] \<and> smartlist_del_keeporder sl' 0 = Some sl'' \<and> elems sl'' = []"
proof -
  have "num_used (smartlist_new :: nat smartlist_t) = 0" by (simp add: smartlist_new_def)
  then show ?thesis
    using insert_then_del_keeporder [OF new_ok(1), of 0 "Some (7 :: nat)"]
    by (auto simp: MAX_CAPACITY_def new_ok)
qed

text \<open>Removing an element: \<open>smartlist_remove_keeporder\<close> leaves exactly the other elements in
  their order, \<open>smartlist_remove\<close> leaves the same elements with the same multiplicities in some
  order, and afterwards \<open>smartlist_contains\<close> does not find the element.\<close>

theorem remove_all_occurrences:
  assumes "sl_ok sl"
  shows "elems (smartlist_remove_keeporder sl (Some e)) = filter (\<lambda>x. x \<noteq> Some e) (elems sl) \<and>
    sl_ok (smartlist_remove_keeporder sl (Some e)) \<and>
    mset (elems (smartlist_remove sl (Some e))) = mset (filter (\<lambda>x. x \<noteq> Some e) (elems sl)) \<and>
    sl_ok (smartlist_remove sl (Some e)) \<and>
    \<not> smartlist_contains (smartlist_remove sl (Some e)) (Some e) \<and>
    \<not> smartlist_contains (smartlist_remove_keeporder sl (Some e)) (Some e)"
proof -
  have "mset (elems (smartlist_remove sl (Some e))) = filter_mset (\<lambda>x. x \<noteq> Some e) (mset (elems sl))"
    using remove_ok [OF assms, of "Some e"] by simp
  moreover from this have "Some e \<notin> set (elems (smartlist_remove sl (Some e)))"
    by (simp flip: set_mset_mset)
  ultimately show ?thesis
    using remove_ok [OF assms, of "Some e"] remove_keeporder_ok [OF assms, of "Some e"]
    by (simp add: contains_ok)
qed

theorem remove_all_occurrences_witness:
  "elems (smartlist_remove_keeporder (smartlist_new :: nat smartlist_t) (Some 7)) = []"
  using remove_all_occurrences [OF new_ok(1), of "7 :: nat"] by (simp add: new_ok)

text \<open>C39: starting from a new list, any sequence of at most \<open>MAX_CAPACITY\<close> additions succeeds
  (the doubling loop of \<open>smartlist_ensure_capacity\<close> always ends) and the list holds exactly
  the added elements in order; one addition more fails its assertion.\<close>

theorem add_sequence:
  assumes "length es \<le> MAX_CAPACITY"
  shows "\<exists>sl. append_each smartlist_add smartlist_new es = Some sl \<and> sl_ok sl \<and> elems sl = es \<and>
    (length es = MAX_CAPACITY \<longrightarrow> smartlist_add sl e = None)"
proof -
  obtain sl where sl: "append_each smartlist_add smartlist_new es = Some sl" "sl_ok sl" "elems sl = es"
    using smartlist.append_each_contents [OF new_ok(1), of es] assms by (auto simp: new_ok)
  have "num_used sl = length es" using sl_ok_length [OF sl(2)] sl(3) by simp
  then have "length es = MAX_CAPACITY \<longrightarrow> smartlist_add sl e = None"
    by (simp add: smartlist_add_def smartlist_ensure_capacity_def)
  with sl show ?thesis by blast
qed

theorem add_sequence_witness:
  "\<exists>sl. append_each smartlist_add (smartlist_new :: nat smartlist_t) [Some 1, None, Some 2] = Some sl \<and>
     elems sl = [Some 1, None, Some 2]"
  using add_sequence [of "[Some 1, None, Some 2]" "Some (0 :: nat)"] by (auto simp: MAX_CAPACITY_def)

end
