(* ===== verification/C_Strings.thy ===== *)
theory C_Strings
  imports Tor_Prelude
begin

text \<open>
  Text in C strings: the character tables of \<open>lib/string/compat_ctype\<close>, the checked integer
  parsers of \<open>lib/string/parse_int.c\<close> over the standard library's \<open>strtol\<close> family, decimal
  printing, and \<open>smartlist_split_string\<close> of \<open>lib/smartlist_core/smartlist_split.c\<close>.

  A NUL-terminated string is the list of its characters before the NUL.  A pointer into a
  string is the rest of the string from there on; it points to the terminating NUL when that
  rest is empty.
\<close>

section \<open>Definitions\<close>

subsection \<open>Character classes\<close>

definition TOR_ISALPHA_TABLE :: "u32 list" where
  "TOR_ISALPHA_TABLE = [0, 0, 0x7fffffe, 0x7fffffe, 0, 0, 0, 0]"
definition TOR_ISALNUM_TABLE :: "u32 list" where
  "TOR_ISALNUM_TABLE = [0, 0x3ff0000, 0x7fffffe, 0x7fffffe, 0, 0, 0, 0]"
definition TOR_ISSPACE_TABLE :: "u32 list" where
  "TOR_ISSPACE_TABLE = [0x3e00, 0x1, 0, 0, 0, 0, 0, 0]"
definition TOR_ISXDIGIT_TABLE :: "u32 list" where
  "TOR_ISXDIGIT_TABLE = [0, 0x3ff0000, 0x7e, 0x7e, 0, 0, 0, 0]"
definition TOR_ISDIGIT_TABLE :: "u32 list" where
  "TOR_ISDIGIT_TABLE = [0, 0x3ff0000, 0, 0, 0, 0, 0, 0]"
definition TOR_ISPRINT_TABLE :: "u32 list" where
  "TOR_ISPRINT_TABLE = [0, 0xffffffff, 0xffffffff, 0x7fffffff, 0, 0, 0, 0]"
definition TOR_ISUPPER_TABLE :: "u32 list" where
  "TOR_ISUPPER_TABLE = [0, 0, 0x7fffffe, 0, 0, 0, 0, 0]"
definition TOR_ISLOWER_TABLE :: "u32 list" where
  "TOR_ISLOWER_TABLE = [0, 0, 0, 0x7fffffe, 0, 0, 0, 0]"

text \<open>The body that \<open>DECLARE_CTYPE_FN\<close> gives each of the eight functions.\<close>

definition ctype_lookup :: "u32 list \<Rightarrow> char \<Rightarrow> bool" where
  "ctype_lookup tab c =
     (let u = (of_char c :: u8)
      in tab ! unat (drop_bit 5 u AND 7) AND push_bit (unat (u AND 31)) 1 \<noteq> 0)"

definition TOR_ISALPHA :: "char \<Rightarrow> bool" where "TOR_ISALPHA c = ctype_lookup TOR_ISALPHA_TABLE c"
definition TOR_ISALNUM :: "char \<Rightarrow> bool" where "TOR_ISALNUM c = ctype_lookup TOR_ISALNUM_TABLE c"
definition TOR_ISSPACE :: "char \<Rightarrow> bool" where "TOR_ISSPACE c = ctype_lookup TOR_ISSPACE_TABLE c"
definition TOR_ISDIGIT :: "char \<Rightarrow> bool" where "TOR_ISDIGIT c = ctype_lookup TOR_ISDIGIT_TABLE c"
definition TOR_ISXDIGIT :: "char \<Rightarrow> bool" where "TOR_ISXDIGIT c = ctype_lookup TOR_ISXDIGIT_TABLE c"
definition TOR_ISPRINT :: "char \<Rightarrow> bool" where "TOR_ISPRINT c = ctype_lookup TOR_ISPRINT_TABLE c"
definition TOR_ISLOWER :: "char \<Rightarrow> bool" where "TOR_ISLOWER c = ctype_lookup TOR_ISLOWER_TABLE c"
definition TOR_ISUPPER :: "char \<Rightarrow> bool" where "TOR_ISUPPER c = ctype_lookup TOR_ISUPPER_TABLE c"

text \<open>The two tables of 256 bytes: the identity but for one run of 26 entries each.\<close>

definition TOR_TOUPPER_TABLE :: "nat list" where
  "TOR_TOUPPER_TABLE = [0..<97] @ [65..<91] @ [123..<256]"
definition TOR_TOLOWER_TABLE :: "nat list" where
  "TOR_TOLOWER_TABLE = [0..<65] @ [97..<123] @ [91..<256]"

definition TOR_TOLOWER :: "char \<Rightarrow> char" where
  "TOR_TOLOWER c = char_of (TOR_TOLOWER_TABLE ! of_char c)"
definition TOR_TOUPPER :: "char \<Rightarrow> char" where
  "TOR_TOUPPER c = char_of (TOR_TOUPPER_TABLE ! of_char c)"

text \<open>The cases of the switch.\<close>

definition hex_decode_digit :: "char \<Rightarrow> int" where
  "hex_decode_digit c =
     (case map_of [(CHR ''0'', 0), (CHR ''1'', 1), (CHR ''2'', 2), (CHR ''3'', 3), (CHR ''4'', 4),
        (CHR ''5'', 5), (CHR ''6'', 6), (CHR ''7'', 7), (CHR ''8'', 8), (CHR ''9'', 9),
        (CHR ''A'', 10), (CHR ''a'', 10), (CHR ''B'', 11), (CHR ''b'', 11), (CHR ''C'', 12), (CHR ''c'', 12),
        (CHR ''D'', 13), (CHR ''d'', 13), (CHR ''E'', 14), (CHR ''e'', 14), (CHR ''F'', 15), (CHR ''f'', 15)] c of
        Some v \<Rightarrow> v
      | None \<Rightarrow> - 1)"

subsection \<open>Reading and printing integers\<close>

text \<open>The standard library's conversion, for a base that is 0 or from 2 to 36: white space, an
  optional sign, an optional base prefix, and the longest run of digits.  The result is the
  sign, the magnitude and the rest; \<open>None\<close> if there is no digit.\<close>

definition c_isspace :: "char \<Rightarrow> bool" where
  "c_isspace c = (let n = (of_char c :: nat) in n = 32 \<or> 9 \<le> n \<and> n \<le> 13)"

definition digit_val :: "char \<Rightarrow> nat option" where
  "digit_val c =
     (let n = (of_char c :: nat)
      in if 48 \<le> n \<and> n \<le> 57 then Some (n - 48)
         else if 65 \<le> n \<and> n \<le> 90 then Some (n - 55)
         else if 97 \<le> n \<and> n \<le> 122 then Some (n - 87) else None)"

definition is_digit_of :: "nat \<Rightarrow> char \<Rightarrow> bool" where
  "is_digit_of base c = (case digit_val c of Some d \<Rightarrow> d < base | None \<Rightarrow> False)"

definition digits_value :: "nat \<Rightarrow> string \<Rightarrow> nat" where
  "digits_value base ds = foldl (\<lambda>a c. a * base + (case digit_val c of Some d \<Rightarrow> d | None \<Rightarrow> 0)) 0 ds"

fun split_sign :: "string \<Rightarrow> bool \<times> string" where
  "split_sign (c # s) = (if c = CHR ''-'' then (True, s) else if c = CHR ''+'' then (False, s) else (False, c # s))"
| "split_sign [] = (False, [])"

definition split_base :: "nat \<Rightarrow> string \<Rightarrow> nat \<times> string" where
  "split_base base s =
     (if (base = 0 \<or> base = 16) \<and> (take 2 s = ''0x'' \<or> take 2 s = ''0X'') \<and>
         (case drop 2 s of c # _ \<Rightarrow> is_digit_of 16 c | [] \<Rightarrow> False)
      then (16, drop 2 s)
      else if base = 0 then (if take 1 s = ''0'' then 8 else 10, s)
      else (base, s))"

definition strto_scan :: "string \<Rightarrow> nat \<Rightarrow> (bool \<times> nat \<times> string) option" where
  "strto_scan s base =
     (let (neg, s) = split_sign (dropWhile c_isspace s);
          (base, s) = split_base base s;
          ds = takeWhile (is_digit_of base) s
      in if ds = [] then None else Some (neg, digits_value base ds, drop (length ds) s))"

text \<open>What a conversion function leaves: the value, the end pointer (\<open>None\<close> when it equals the
  start because nothing was converted) and whether \<open>errno\<close> is \<open>ERANGE\<close>.\<close>

record 'r strtox =
  strtox_r :: 'r
  endptr :: "string option"
  erange :: bool

definition strtol :: "string \<Rightarrow> nat \<Rightarrow> int strtox" where
  "strtol s base =
     (case strto_scan s base of
        None \<Rightarrow> \<lparr>strtox_r = 0, endptr = None, erange = False\<rparr>
      | Some (neg, m, rest) \<Rightarrow>
          (let v = (if neg then - int m else int m)
           in if v > INT64_MAX then \<lparr>strtox_r = INT64_MAX, endptr = Some rest, erange = True\<rparr>
              else if v < - INT64_MAX - 1 then \<lparr>strtox_r = - INT64_MAX - 1, endptr = Some rest, erange = True\<rparr>
              else \<lparr>strtox_r = v, endptr = Some rest, erange = False\<rparr>))"

text \<open>The unsigned conversion negates in the unsigned type when there is a minus sign.\<close>

definition strtoull :: "string \<Rightarrow> nat \<Rightarrow> u64 strtox" where
  "strtoull s base =
     (case strto_scan s base of
        None \<Rightarrow> \<lparr>strtox_r = 0, endptr = None, erange = False\<rparr>
      | Some (neg, m, rest) \<Rightarrow>
          if m \<ge> 2 ^ 64 then \<lparr>strtox_r = UINT64_MAX, endptr = Some rest, erange = True\<rparr>
          else \<lparr>strtox_r = (if neg then - of_nat m else of_nat m), endptr = Some rest, erange = False\<rparr>)"

text \<open>\<open>CHECK_STRTOX_RESULT\<close>: the value returned, \<open>*ok\<close>, and \<open>*next\<close>; the
  bounds \<open>min\<close> and \<open>max\<close> are called \<open>lo\<close> and \<open>hi\<close> here.\<close>

definition CHECK_STRTOX_RESULT ::
    "string \<Rightarrow> ('r::{linorder,zero}) strtox \<Rightarrow> 'r \<Rightarrow> 'r \<Rightarrow> bool \<Rightarrow> 'r \<times> bool \<times> string" where
  "CHECK_STRTOX_RESULT s x lo hi want_next =
     (let r = strtox_r x; next = (case endptr x of None \<Rightarrow> s | Some p \<Rightarrow> p); err = (0, False, next)
      in if erange x then err
         else if endptr x = None then err
         else if \<not> want_next \<and> next \<noteq> [] then err
         else if hi < lo then err
         else if r < lo \<or> r > hi then err
         else (r, True, next))"

text \<open>The parsers.  The last component is \<open>*next\<close>, with \<open>None\<close> when it is not written.  The whole
  result is \<open>None\<close> for a base the library functions do not define.\<close>

definition base_defined :: "int \<Rightarrow> bool" where
  "base_defined base = (base = 0 \<or> 2 \<le> base \<and> base \<le> 36)"

definition tor_parse_long ::
    "string \<Rightarrow> int \<Rightarrow> int \<Rightarrow> int \<Rightarrow> bool \<Rightarrow> (int \<times> bool \<times> string option) option" where
  "tor_parse_long s base lo hi want_next =
     (if base < 0 then Some (0, False, None)
      else if \<not> base_defined base then None
      else let (r, ok, next) = CHECK_STRTOX_RESULT s (strtol s (nat base)) lo hi want_next
           in Some (r, ok, if want_next then Some next else None))"

definition tor_parse_ulong ::
    "string \<Rightarrow> int \<Rightarrow> u64 \<Rightarrow> u64 \<Rightarrow> bool \<Rightarrow> (u64 \<times> bool \<times> string option) option" where
  "tor_parse_ulong s base lo hi want_next =
     (if base < 0 then Some (0, False, None)
      else if \<not> base_defined base then None
      else let (r, ok, next) = CHECK_STRTOX_RESULT s (strtoull s (nat base)) lo hi want_next
           in Some (r, ok, if want_next then Some next else None))"

definition tor_parse_uint64 ::
    "string \<Rightarrow> int \<Rightarrow> u64 \<Rightarrow> u64 \<Rightarrow> bool \<Rightarrow> (u64 \<times> bool \<times> string option) option" where
  "tor_parse_uint64 s base lo hi want_next =
     (if base < 0 then Some (0, False, None)
      else if \<not> base_defined base then None
      else let (r, ok, next) = CHECK_STRTOX_RESULT s (strtoull s (nat base)) lo hi want_next
           in Some (r, ok, if want_next then Some next else None))"

text \<open>Decimal output of \<open>printf\<close>.\<close>

fun dec_digits :: "nat \<Rightarrow> string" where
  "dec_digits n = (if n < 10 then [char_of (48 + n)] else dec_digits (n div 10) @ [char_of (48 + n mod 10)])"

declare dec_digits.simps [simp del]

definition print_int :: "int \<Rightarrow> string" where
  "print_int v = (if v < 0 then CHR ''-'' # dec_digits (nat (- v)) else dec_digits (nat v))"

section \<open>Digits\<close>

lemma all_chars: "(\<And>n :: nat. n < 256 \<Longrightarrow> P (char_of n)) \<Longrightarrow> P (c :: char)"
  by (metis char_of_char nat_of_char_less_256)

lemma digit_val_char_of: "d < 10 \<Longrightarrow> digit_val (char_of (48 + d)) = Some d"
  by (simp add: digit_val_def Let_def)

lemma dec_digits_digits: "c \<in> set (dec_digits n) \<Longrightarrow> \<exists>d<10. c = char_of (48 + d :: nat)"
proof (induction n rule: dec_digits.induct)
  case (1 n)
  show ?case
  proof (cases "n < 10")
    case True
    then show ?thesis using "1.prems" by (auto simp: dec_digits.simps [of n])
  next
    case False
    then have "c \<in> set (dec_digits (n div 10)) \<or> c = char_of (48 + n mod 10)"
      using "1.prems" by (auto simp: dec_digits.simps [of n])
    then show ?thesis using "1.IH" [OF False] by (auto intro: exI [of _ "n mod 10"])
  qed
qed

lemma dec_digits_not_Nil [simp]: "dec_digits n \<noteq> []"
  by (simp add: dec_digits.simps [of n])

lemma dec_digits_10: "c \<in> set (dec_digits n) \<Longrightarrow> is_digit_of 10 c"
  using dec_digits_digits [of c n] by (auto simp: is_digit_of_def digit_val_char_of)

lemma digits_value_append:
  "digits_value base (ds @ [c]) = digits_value base ds * base + (case digit_val c of Some d \<Rightarrow> d | None \<Rightarrow> 0)"
  by (simp add: digits_value_def)

lemma digits_value_dec [simp]: "digits_value 10 (dec_digits n) = n"
proof (induction n rule: dec_digits.induct)
  case (1 n)
  show ?case
  proof (cases "n < 10")
    case True
    then show ?thesis by (simp add: dec_digits.simps [of n] digits_value_def digit_val_char_of)
  next
    case False
    then show ?thesis
      using "1.IH" by (simp add: dec_digits.simps [of n] digits_value_append digit_val_char_of)
  qed
qed

lemma takeWhile_dec_digits:
  "(\<forall>c rest'. rest = c # rest' \<longrightarrow> \<not> is_digit_of 10 c) \<Longrightarrow>
     takeWhile (is_digit_of 10) (dec_digits n @ rest) = dec_digits n"
  by (cases rest) (auto simp: takeWhile_append dec_digits_10)

lemma char_digit_neq:
  assumes "(d :: nat) < 10"
  shows "char_of (48 + d) \<noteq> CHR ''-''" "char_of (48 + d) \<noteq> CHR ''+''" "\<not> c_isspace (char_of (48 + d))"
proof -
  show "char_of (48 + d) \<noteq> CHR ''-''" "char_of (48 + d) \<noteq> CHR ''+''"
    using assms by (simp_all add: char_of_eq_iff take_bit_eq_mod)
  show "\<not> c_isspace (char_of (48 + d))" using assms by (simp add: c_isspace_def)
qed

lemma dec_digits_head: obtains d ds where "(d :: nat) < 10" "dec_digits n = char_of (48 + d) # ds"
proof (cases "dec_digits n")
  case (Cons c ds)
  then have "c \<in> set (dec_digits n)" by simp
  then obtain d :: nat where "d < 10" "c = char_of (48 + d)" using dec_digits_digits by blast
  then show ?thesis using that Cons by simp
qed simp

text \<open>Nothing that could continue a decimal number.\<close>

definition no_digit_first :: "string \<Rightarrow> bool" where
  "no_digit_first s = (case s of [] \<Rightarrow> True | c # _ \<Rightarrow> \<not> is_digit_of 10 c)"

lemma strto_scan_unsigned:
  assumes "no_digit_first rest"
  shows "strto_scan (dec_digits n @ rest) 10 = Some (False, n, rest)"
proof -
  obtain d ds where d: "(d :: nat) < 10" "dec_digits n = char_of (48 + d) # ds" by (rule dec_digits_head)
  have sgn: "split_sign (dropWhile c_isspace (dec_digits n @ rest)) = (False, dec_digits n @ rest)"
    using char_digit_neq [OF d(1)] by (simp add: d(2))
  have tw: "takeWhile (is_digit_of 10) (dec_digits n @ rest) = dec_digits n"
    using assms by (intro takeWhile_dec_digits) (auto simp: no_digit_first_def)
  show ?thesis by (simp add: strto_scan_def sgn split_base_def tw)
qed

lemma strto_scan_print_int:
  assumes "no_digit_first rest"
  shows "strto_scan (print_int v @ rest) 10 = Some (v < 0, nat \<bar>v\<bar>, rest)"
proof (cases "v < 0")
  case False
  then show ?thesis using strto_scan_unsigned [OF assms] by (simp add: print_int_def)
next
  case True
  let ?n = "nat (- v)"
  have sgn: "split_sign (dropWhile c_isspace (CHR ''-'' # dec_digits ?n @ rest)) = (True, dec_digits ?n @ rest)"
    by (simp add: c_isspace_def)
  have tw: "takeWhile (is_digit_of 10) (dec_digits ?n @ rest) = dec_digits ?n"
    using assms by (intro takeWhile_dec_digits) (auto simp: no_digit_first_def)
  show ?thesis using True
    by (simp add: print_int_def strto_scan_def sgn split_base_def tw del: dropWhile.simps split_sign.simps)
qed

lemma strtol_print_int:
  assumes "no_digit_first rest" "- INT64_MAX - 1 \<le> v" "v \<le> INT64_MAX"
  shows "strtol (print_int v @ rest) 10 = \<lparr>strtox_r = v, endptr = Some rest, erange = False\<rparr>"
  using assms(2,3) by (auto simp: strtol_def strto_scan_print_int [OF assms(1)] Let_def)

lemma check_strtox_spec:
  "CHECK_STRTOX_RESULT s x lo hi w = (r, ok, next) \<Longrightarrow>
     (if ok then lo \<le> r \<and> r \<le> hi \<and> r = strtox_r x \<and> (w \<or> next = []) \<and> \<not> erange x \<and> endptr x = Some next
      else r = 0)"
  by (auto simp: CHECK_STRTOX_RESULT_def Let_def split: if_splits option.splits)

section \<open>The texts of numbers\<close>

text \<open>What a number looks like to the conversion functions: white space, a sign, the prefix
  \<open>0x\<close> where base 16 is given or allowed and a hexadecimal digit follows it, at least one
  digit of the base, and then the rest, which does not continue the digits.  The magnitude is
  the value of the digits.\<close>

definition hex_prefixed :: "string \<Rightarrow> bool" where
  "hex_prefixed t =
     (\<exists>x c u. (x = CHR ''x'' \<or> x = CHR ''X'') \<and> is_digit_of 16 c \<and> t = CHR ''0'' # x # c # u)"

definition reading :: "nat \<Rightarrow> string \<Rightarrow> bool \<Rightarrow> nat \<Rightarrow> string \<Rightarrow> bool" where
  "reading base s neg m rest =
     (\<exists>ws sg pre ds b. s = ws @ sg @ pre @ ds @ rest \<and>
        (\<forall>c \<in> set ws. c_isspace c) \<and> sg \<in> {[], ''-'', ''+''} \<and> neg = (sg = ''-'') \<and>
        (if (base = 0 \<or> base = 16) \<and> hex_prefixed (pre @ ds @ rest)
         then (pre = ''0x'' \<or> pre = ''0X'') \<and> b = 16
         else pre = [] \<and> b = (if base \<noteq> 0 then base else if hd ds = CHR ''0'' then 8 else 10)) \<and>
        ds \<noteq> [] \<and> (\<forall>c \<in> set ds. is_digit_of b c) \<and> (rest = [] \<or> \<not> is_digit_of b (hd rest)) \<and>
        m = digits_value b ds)"

lemma digit_not_space_or_sign:
  "digit_val c \<noteq> None \<Longrightarrow> \<not> c_isspace c \<and> c \<noteq> CHR ''-'' \<and> c \<noteq> CHR ''+''"
  by (auto simp: digit_val_def c_isspace_def Let_def split: if_splits)

lemma is_digit_of_digit: "is_digit_of b c \<Longrightarrow> digit_val c \<noteq> None"
  by (auto simp: is_digit_of_def split: option.splits)

lemma sign_scanned:
  assumes "\<forall>c \<in> set ws. c_isspace c" "sg \<in> {[], ''-'', ''+''}" "digit_val c \<noteq> None"
  shows "split_sign (dropWhile c_isspace (ws @ sg @ c # t)) = (sg = ''-'', c # t)"
proof -
  have "dropWhile c_isspace (ws @ sg @ c # t) = dropWhile c_isspace (sg @ c # t)"
    using assms(1) by (simp add: dropWhile_append1 dropWhile_append2)
  then show ?thesis
    using assms(2) digit_not_space_or_sign [OF assms(3)] by (auto simp: c_isspace_def)
qed

lemma sign_split:
  "\<exists>sg \<in> {[], ''-'', ''+''}. u = sg @ snd (split_sign u) \<and> fst (split_sign u) = (sg = ''-'')"
proof (cases u)
  case (Cons c t)
  consider "c = CHR ''-''" | "c = CHR ''+''" | "c \<noteq> CHR ''-''" "c \<noteq> CHR ''+''" by blast
  then show ?thesis using Cons by cases simp_all
qed simp

lemma sign_parts:
  obtains ws sg where "s = ws @ sg @ snd (split_sign (dropWhile c_isspace s))"
    "\<forall>c \<in> set ws. c_isspace c" "sg \<in> {[], ''-'', ''+''}"
    "fst (split_sign (dropWhile c_isspace s)) = (sg = ''-'')"
proof -
  obtain sg where sg: "sg \<in> {[], ''-'', ''+''}"
      "dropWhile c_isspace s = sg @ snd (split_sign (dropWhile c_isspace s))"
      "fst (split_sign (dropWhile c_isspace s)) = (sg = ''-'')"
    using sign_split by blast
  have "s = takeWhile c_isspace s @ sg @ snd (split_sign (dropWhile c_isspace s))"
    by (metis sg(2) takeWhile_dropWhile_id)
  then show ?thesis using sg(1,3) by (intro that) (auto dest: set_takeWhileD)
qed

lemma split_base_cases:
  "split_base base t =
     (if (base = 0 \<or> base = 16) \<and> hex_prefixed t then (16, drop 2 t)
      else (if base \<noteq> 0 then base else if take 1 t = ''0'' then 8 else 10, t))"
proof -
  have "hex_prefixed t = ((take 2 t = ''0x'' \<or> take 2 t = ''0X'') \<and>
      (case drop 2 t of c # _ \<Rightarrow> is_digit_of 16 c | [] \<Rightarrow> False))"
  proof (cases "length t < 3")
    case True
    then show ?thesis by (auto simp: hex_prefixed_def split: list.splits dest!: arg_cong [of "drop 2 t" _ length])
  next
    case False
    then obtain a x c u where "t = a # x # c # u"
      by (metis length_Cons less_Suc_eq_0_disj list.size(3) neq_Nil_conv numeral_3_eq_3 list.exhaust)
    then show ?thesis by (auto simp: hex_prefixed_def)
  qed
  then show ?thesis unfolding split_base_def by auto
qed

lemma digits_scanned:
  assumes "\<forall>c \<in> set ds. P c" "rest = [] \<or> \<not> P (hd rest)"
  shows "takeWhile P (ds @ rest) = ds"
  using assms by (cases rest) (auto simp: takeWhile_append)

text \<open>The scanner finds exactly the numbers of this grammar.\<close>

lemma reading_scanned: "strto_scan s base = Some (neg, m, rest) \<Longrightarrow> reading base s neg m rest"
proof -
  assume a: "strto_scan s base = Some (neg, m, rest)"
  define t where "t = snd (split_sign (dropWhile c_isspace s))"
  define b where "b = fst (split_base base t)"
  define u where "u = snd (split_base base t)"
  define ds where "ds = takeWhile (is_digit_of b) u"
  obtain ws sg where s: "s = ws @ sg @ t" and ws: "\<forall>c \<in> set ws. c_isspace c"
      and sg: "sg \<in> {[], ''-'', ''+''}" "fst (split_sign (dropWhile c_isspace s)) = (sg = ''-'')"
    by (rule sign_parts [of s, folded t_def])
  have split: "split_sign (dropWhile c_isspace s) = (sg = ''-'', t)" "split_base base t = (b, u)"
    using sg(2) by (simp_all add: t_def b_def u_def prod_eq_iff)
  have r: "ds \<noteq> []" "neg = (sg = ''-'')" "m = digits_value b ds" "rest = drop (length ds) u"
    using a unfolding strto_scan_def split Let_def prod.case ds_def [symmetric]
    by (simp_all split: if_splits)
  have u: "u = ds @ rest" unfolding r(4) ds_def by (simp add: dropWhile_eq_drop [symmetric])
  have ds: "\<forall>c \<in> set ds. is_digit_of b c" by (auto simp: ds_def dest: set_takeWhileD)
  have rest: "rest = [] \<or> \<not> is_digit_of b (hd rest)"
    using hd_dropWhile [of "is_digit_of b" u] by (auto simp: r(4) ds_def simp flip: dropWhile_eq_drop)
  obtain pre where pre: "t = pre @ ds @ rest"
      "if (base = 0 \<or> base = 16) \<and> hex_prefixed (pre @ ds @ rest)
       then (pre = ''0x'' \<or> pre = ''0X'') \<and> b = 16
       else pre = [] \<and> b = (if base \<noteq> 0 then base else if hd ds = CHR ''0'' then 8 else 10)"
  proof (cases "(base = 0 \<or> base = 16) \<and> hex_prefixed t")
    case True
    then have bu: "b = 16" "u = drop 2 t" by (simp_all add: b_def u_def split_base_cases)
    then have "t = take 2 t @ ds @ rest" by (simp flip: u)
    moreover have "take 2 t = ''0x'' \<or> take 2 t = ''0X''" using True by (auto simp: hex_prefixed_def)
    moreover note bu(1)
    ultimately show ?thesis using that [of "take 2 t"] True by simp
  next
    case False
    then have t: "t = ds @ rest" using u unfolding u_def split_base_cases by (simp only: if_not_P snd_conv if_False)
    have "(take 1 t = ''0'') = (hd ds = CHR ''0'')" using r(1) by (cases ds) (simp_all add: t)
    with False t show ?thesis using that [of "[]"] by (auto simp: b_def split_base_cases)
  qed
  show ?thesis unfolding reading_def using s ws sg(1) r(1-3) ds rest pre by blast
qed

lemma scanned_reading: "reading base s neg m rest \<Longrightarrow> strto_scan s base = Some (neg, m, rest)"
proof -
  assume "reading base s neg m rest"
  then obtain ws sg pre ds b where p: "s = ws @ sg @ pre @ ds @ rest" "\<forall>c \<in> set ws. c_isspace c"
      "sg \<in> {[], ''-'', ''+''}" "neg = (sg = ''-'')" "ds \<noteq> []" "\<forall>c \<in> set ds. is_digit_of b c"
      "rest = [] \<or> \<not> is_digit_of b (hd rest)" "m = digits_value b ds"
    and base: "if (base = 0 \<or> base = 16) \<and> hex_prefixed (pre @ ds @ rest)
       then (pre = ''0x'' \<or> pre = ''0X'') \<and> b = 16
       else pre = [] \<and> b = (if base \<noteq> 0 then base else if hd ds = CHR ''0'' then 8 else 10)"
    unfolding reading_def by blast
  define t where "t = pre @ ds @ rest"
  have sb: "split_base base t = (b, ds @ rest)"
  proof (cases "(base = 0 \<or> base = 16) \<and> hex_prefixed t")
    case True
    then show ?thesis using base by (auto simp: t_def split_base_cases)
  next
    case False
    then have "t = ds @ rest" using base by (simp add: t_def)
    moreover have "(take 1 (ds @ rest) = ''0'') = (hd ds = CHR ''0'')" using p(5) by (cases ds) simp_all
    ultimately show ?thesis using False base by (auto simp: t_def split_base_cases)
  qed
  obtain c v where t: "t = c # v" "digit_val c \<noteq> None"
  proof (cases pre)
    case Nil
    with p(5) obtain d v where "ds = d # v" by (cases ds) auto
    then have "t = d # v @ rest" "is_digit_of b d" using Nil p(6) by (simp_all add: t_def)
    then show ?thesis using is_digit_of_digit that by blast
  next
    case (Cons d v)
    then have "d = CHR ''0''" using base by (auto split: if_splits)
    then have "t = CHR ''0'' # v @ ds @ rest" using Cons by (simp add: t_def)
    then show ?thesis using that by (simp add: digit_val_def)
  qed
  have "split_sign (dropWhile c_isspace s) = (neg, t)"
    using sign_scanned [OF p(2,3) t(2), of v] by (simp add: p(1,4) flip: t_def t(1))
  then show ?thesis
    using p(5,8) by (simp add: strto_scan_def sb digits_scanned [OF p(6,7)])
qed

lemma strto_scan_reading: "strto_scan s base = Some (neg, m, rest) \<longleftrightarrow> reading base s neg m rest"
  using reading_scanned scanned_reading by blast

lemma check_strtox_ok:
  "CHECK_STRTOX_RESULT s x lo hi w = (r, True, next) \<longleftrightarrow>
     \<not> erange x \<and> endptr x = Some next \<and> strtox_r x = r \<and> lo \<le> r \<and> r \<le> hi \<and> (w \<or> next = [])"
  by (auto simp: CHECK_STRTOX_RESULT_def Let_def split: option.splits)

lemma strtol_ok:
  "\<not> erange (strtol s b) \<and> endptr (strtol s b) = Some rest \<and> strtox_r (strtol s b) = r \<longleftrightarrow>
     (\<exists>neg m. reading b s neg m rest \<and> r = (if neg then - int m else int m) \<and>
        - INT64_MAX - 1 \<le> r \<and> r \<le> INT64_MAX)"
proof (cases "strto_scan s b")
  case None
  then show ?thesis by (simp add: strtol_def flip: strto_scan_reading)
next
  case (Some z)
  obtain n k p where z: "z = (n, k, p)" by (cases z)
  define v where "v = (if n then - int k else int k)"
  have "strtol s b = (if v > INT64_MAX then \<lparr>strtox_r = INT64_MAX, endptr = Some p, erange = True\<rparr>
      else if v < - INT64_MAX - 1 then \<lparr>strtox_r = - INT64_MAX - 1, endptr = Some p, erange = True\<rparr>
      else \<lparr>strtox_r = v, endptr = Some p, erange = False\<rparr>)"
    unfolding strtol_def Some z option.case prod.case Let_def v_def ..
  moreover have "(\<exists>neg m. reading b s neg m rest \<and> r = (if neg then - int m else int m) \<and>
        - INT64_MAX - 1 \<le> r \<and> r \<le> INT64_MAX) \<longleftrightarrow>
      p = rest \<and> r = v \<and> - INT64_MAX - 1 \<le> r \<and> r \<le> INT64_MAX"
    unfolding strto_scan_reading [symmetric] Some z v_def by blast
  ultimately show ?thesis by (cases "v > INT64_MAX"; cases "v < - INT64_MAX - 1") auto
qed

lemma strtoull_ok:
  "\<not> erange (strtoull s b) \<and> endptr (strtoull s b) = Some rest \<and> strtox_r (strtoull s b) = u \<longleftrightarrow>
     (\<exists>neg m. reading b s neg m rest \<and> m < 2 ^ 64 \<and> u = (if neg then - of_nat m else of_nat m))"
proof (cases "strto_scan s b")
  case None
  then show ?thesis by (simp add: strtoull_def flip: strto_scan_reading)
next
  case (Some z)
  obtain n k p where z: "z = (n, k, p)" by (cases z)
  define v where "v = (if n then - of_nat k else of_nat k :: u64)"
  have "strtoull s b = (if 2 ^ 64 \<le> k then \<lparr>strtox_r = UINT64_MAX, endptr = Some p, erange = True\<rparr>
      else \<lparr>strtox_r = v, endptr = Some p, erange = False\<rparr>)"
    unfolding strtoull_def Some z option.case prod.case v_def ..
  moreover have "(\<exists>neg m. reading b s neg m rest \<and> m < 2 ^ 64 \<and> u = (if neg then - of_nat m else of_nat m)) \<longleftrightarrow>
      p = rest \<and> k < 2 ^ 64 \<and> u = v"
    unfolding strto_scan_reading [symmetric] Some z v_def by blast
  ultimately show ?thesis by (cases "2 ^ 64 \<le> k") (simp_all del: power_numeral add: not_less, auto)
qed

lemma checked_parse_ok:
  "(let (r, ok, next) = CHECK_STRTOX_RESULT s x lo hi w in Some (r, ok, if w then Some next else None))
     = Some (r, True, nx) \<longleftrightarrow>
   (\<exists>rest. (\<not> erange x \<and> endptr x = Some rest \<and> strtox_r x = r) \<and> lo \<le> r \<and> r \<le> hi \<and>
      (if w then nx = Some rest else nx = None \<and> rest = []))"
proof -
  obtain r' ok' nx' where c: "CHECK_STRTOX_RESULT s x lo hi w = (r', ok', nx')"
    by (cases "CHECK_STRTOX_RESULT s x lo hi w")
  show ?thesis
  proof (cases ok')
    case True
    then show ?thesis using c check_strtox_ok [of s x lo hi w r' nx'] by auto
  next
    case False
    then show ?thesis using c check_strtox_ok [of s x lo hi w r] by auto
  qed
qed

lemma base_defined_nonneg: "base_defined base \<Longrightarrow> \<not> base < 0"
  by (auto simp: base_defined_def)

lemma tor_parse_long_ok:
  "tor_parse_long s base lo hi w = Some (r, True, nx) \<longleftrightarrow>
      base_defined base \<and>
      (\<exists>neg m rest. reading (nat base) s neg m rest \<and> r = (if neg then - int m else int m) \<and>
         - INT64_MAX - 1 \<le> r \<and> r \<le> INT64_MAX \<and> lo \<le> r \<and> r \<le> hi \<and>
         (if w then nx = Some rest else nx = None \<and> rest = []))"
proof (cases "base_defined base")
  case True
  then have "tor_parse_long s base lo hi w = (let (r, ok, next) = CHECK_STRTOX_RESULT s (strtol s (nat base)) lo hi w
      in Some (r, ok, if w then Some next else None))"
    by (simp add: tor_parse_long_def base_defined_nonneg)
  with True show ?thesis by (simp only: checked_parse_ok strtol_ok) blast
qed (simp add: tor_parse_long_def)

lemma tor_parse_ulong_ok:
  "tor_parse_ulong s base lo hi w = Some (u, True, nx) \<longleftrightarrow>
      base_defined base \<and>
      (\<exists>neg m rest. reading (nat base) s neg m rest \<and> m < 2 ^ 64 \<and>
         u = (if neg then - of_nat m else of_nat m) \<and> lo \<le> u \<and> u \<le> hi \<and>
         (if w then nx = Some rest else nx = None \<and> rest = []))"
proof (cases "base_defined base")
  case True
  then have "tor_parse_ulong s base lo hi w = (let (r, ok, next) = CHECK_STRTOX_RESULT s (strtoull s (nat base)) lo hi w
      in Some (r, ok, if w then Some next else None))"
    by (simp add: tor_parse_ulong_def base_defined_nonneg)
  with True show ?thesis by (simp only: checked_parse_ok strtoull_ok) blast
qed (simp add: tor_parse_ulong_def)

lemma failed_parse_zero:
  "tor_parse_long s base lo hi w = Some (r, False, nx) \<Longrightarrow> r = 0"
  "tor_parse_ulong s base lo' hi' w = Some (u, False, nx') \<Longrightarrow> u = 0"
  unfolding tor_parse_long_def tor_parse_ulong_def
  by (auto dest: check_strtox_spec split: if_split_asm prod.split_asm)

section \<open>Character tables\<close>

lemma of_char_less: "of_char c < (256 :: nat)"
  by (metis char_of_char nat_of_char_less_256)

lemma ctype_lookup_bit:
  "ctype_lookup tab c \<longleftrightarrow> bit (tab ! (of_char c div 32)) (of_char c mod 32)"
proof -
  define n where "n = (of_char c :: nat)"
  have n: "n < 256" by (simp add: n_def of_char_less)
  have "(of_char c :: u8) = of_nat n" unfolding n_def by (rule of_nat_of_char [symmetric])
  then have u: "unat (of_char c :: u8) = n" using n by (simp add: unat_of_nat take_bit_nat_eq_self)
  have and7: "w AND 7 = w mod 8" and and31: "w AND 31 = w mod 32" for w :: u8
    using take_bit_eq_mask [of 3 w] take_bit_eq_mask [of 5 w]
    by (simp_all add: take_bit_eq_mod mask_eq_exp_minus_1)
  have "unat (drop_bit 5 (of_char c :: u8) AND 7) = n div 32 mod 8"
    "unat ((of_char c :: u8) AND 31) = n mod 32"
    by (simp_all add: and7 and31 drop_bit_eq_div unat_mod_exact unat_div_exact u)
  moreover have "n div 32 mod 8 = n div 32" using n by simp
  moreover have "w AND push_bit k 1 \<noteq> 0 \<longleftrightarrow> bit w k" if "k < 32" for w :: u32 and k
    using that by (simp add: and_exp_eq_0_iff_not_bit)
  ultimately show ?thesis by (simp add: ctype_lookup_def Let_def flip: n_def)
qed

text \<open>A table row of consecutive ones.\<close>

lemma bit_run: "bit (push_bit a (mask b) :: u32) k \<longleftrightarrow> a \<le> k \<and> k < a + b \<and> k < 32"
  by (auto simp: bit_push_bit_iff bit_mask_iff)

lemma table_rows:
  "(0x7fffffe :: u32) = push_bit 1 (mask 26)" "(0x3ff0000 :: u32) = push_bit 16 (mask 10)"
  "(0x7e :: u32) = push_bit 1 (mask 6)" "(0x3e00 :: u32) = push_bit 9 (mask 5)" "(1 :: u32) = push_bit 0 (mask 1)"
  "(0xffffffff :: u32) = push_bit 0 (mask 32)" "(0x7fffffff :: u32) = push_bit 0 (mask 31)"
  by (simp_all add: mask_eq_exp_minus_1 push_bit_eq_mult)

lemma row_bits:
  "bit (0x7fffffe :: u32) k \<longleftrightarrow> 1 \<le> k \<and> k < 27" "bit (0x3ff0000 :: u32) k \<longleftrightarrow> 16 \<le> k \<and> k < 26"
  "bit (0x7e :: u32) k \<longleftrightarrow> 1 \<le> k \<and> k < 7" "bit (0x3e00 :: u32) k \<longleftrightarrow> 9 \<le> k \<and> k < 14"
  "bit (0xffffffff :: u32) k \<longleftrightarrow> k < 32" "bit (0x7fffffff :: u32) k \<longleftrightarrow> k < 31"
  unfolding table_rows bit_run by auto

lemma row_split:
  fixes n :: nat
  assumes "n < 256"
    and "\<And>q k. q < 8 \<Longrightarrow> k < 32 \<Longrightarrow> P (32 * q + k) q k"
  shows "P n (n div 32) (n mod 32)"
proof -
  have "n div 32 < 8" "n mod 32 < 32" using assms(1) by auto
  from assms(2) [OF this] show ?thesis by simp
qed

lemma less_8_cases:
  "q < (8 :: nat) \<Longrightarrow> P 0 \<Longrightarrow> P 1 \<Longrightarrow> P 2 \<Longrightarrow> P 3 \<Longrightarrow> P 4 \<Longrightarrow> P 5 \<Longrightarrow> P 6 \<Longrightarrow> P 7 \<Longrightarrow> P q"
  by (auto simp: less_Suc_eq numeral_eq_Suc)

lemma ctype_by_rows:
  assumes "\<And>q k. q < 8 \<Longrightarrow> k < 32 \<Longrightarrow> bit (tab ! q) k \<longleftrightarrow> Q (32 * q + k)"
  shows "ctype_lookup tab c \<longleftrightarrow> Q (of_char c)"
  unfolding ctype_lookup_bit by (rule row_split [OF of_char_less]) (rule assms)

lemma TOR_ISUPPER_iff: "TOR_ISUPPER c \<longleftrightarrow> 65 \<le> (of_char c :: nat) \<and> of_char c \<le> (90 :: nat)"
  unfolding TOR_ISUPPER_def
  by (rule ctype_by_rows, erule less_8_cases)
    (simp_all add: TOR_ISUPPER_TABLE_def row_bits bit_1_iff del: bit_numeral_word_iff, arith+)

lemma TOR_ISLOWER_iff: "TOR_ISLOWER c \<longleftrightarrow> 97 \<le> (of_char c :: nat) \<and> of_char c \<le> (122 :: nat)"
  unfolding TOR_ISLOWER_def
  by (rule ctype_by_rows, erule less_8_cases)
    (simp_all add: TOR_ISLOWER_TABLE_def row_bits bit_1_iff del: bit_numeral_word_iff, arith+)

lemma TOR_ISDIGIT_iff: "TOR_ISDIGIT c \<longleftrightarrow> 48 \<le> (of_char c :: nat) \<and> of_char c \<le> (57 :: nat)"
  unfolding TOR_ISDIGIT_def
  by (rule ctype_by_rows, erule less_8_cases)
    (simp_all add: TOR_ISDIGIT_TABLE_def row_bits bit_1_iff del: bit_numeral_word_iff, arith+)

lemma TOR_ISALPHA_iff: "TOR_ISALPHA c \<longleftrightarrow> TOR_ISUPPER c \<or> TOR_ISLOWER c"
  unfolding TOR_ISALPHA_def TOR_ISUPPER_iff TOR_ISLOWER_iff
  by (rule ctype_by_rows, erule less_8_cases)
    (simp_all add: TOR_ISALPHA_TABLE_def row_bits bit_1_iff del: bit_numeral_word_iff, arith+)

lemma TOR_ISALNUM_iff: "TOR_ISALNUM c \<longleftrightarrow> TOR_ISALPHA c \<or> TOR_ISDIGIT c"
  unfolding TOR_ISALNUM_def TOR_ISALPHA_iff TOR_ISUPPER_iff TOR_ISLOWER_iff TOR_ISDIGIT_iff
  by (rule ctype_by_rows, erule less_8_cases)
    (simp_all add: TOR_ISALNUM_TABLE_def row_bits bit_1_iff del: bit_numeral_word_iff, arith+)

lemma TOR_ISXDIGIT_iff: "TOR_ISXDIGIT c \<longleftrightarrow> (let n = (of_char c :: nat) in
    48 \<le> n \<and> n \<le> 57 \<or> 65 \<le> n \<and> n \<le> 70 \<or> 97 \<le> n \<and> n \<le> 102)"
  unfolding TOR_ISXDIGIT_def Let_def
  by (rule ctype_by_rows, erule less_8_cases)
    (simp_all add: TOR_ISXDIGIT_TABLE_def row_bits bit_1_iff del: bit_numeral_word_iff, arith+)

lemma TOR_ISPRINT_iff: "TOR_ISPRINT c \<longleftrightarrow> 32 \<le> (of_char c :: nat) \<and> of_char c \<le> (126 :: nat)"
  unfolding TOR_ISPRINT_def
  by (rule ctype_by_rows, erule less_8_cases)
    (simp_all add: TOR_ISPRINT_TABLE_def row_bits bit_1_iff del: bit_numeral_word_iff, arith+)

lemma TOR_ISSPACE_iff: "TOR_ISSPACE c \<longleftrightarrow> c_isspace c"
  unfolding TOR_ISSPACE_def c_isspace_def Let_def
  by (rule ctype_by_rows, erule less_8_cases)
    (simp_all add: TOR_ISSPACE_TABLE_def row_bits bit_1_iff del: bit_numeral_word_iff, arith+)

lemma TOR_TOLOWER_eq: "TOR_TOLOWER c = (if TOR_ISUPPER c then char_of (of_char c + 32 :: nat) else c)"
  using of_char_less [of c]
  by (auto simp: TOR_TOLOWER_def TOR_TOLOWER_TABLE_def TOR_ISUPPER_iff nth_append simp del: upt_rec_numeral)

lemma TOR_TOUPPER_eq: "TOR_TOUPPER c = (if TOR_ISLOWER c then char_of (of_char c - 32 :: nat) else c)"
  using of_char_less [of c]
  by (auto simp: TOR_TOUPPER_def TOR_TOUPPER_TABLE_def TOR_ISLOWER_iff nth_append simp del: upt_rec_numeral)

lemma char_eq_code: "c = d \<longleftrightarrow> (of_char c :: nat) = of_char d"
  by simp

abbreviation hex_chars :: string where "hex_chars \<equiv> ''0123456789ABCDEFabcdef''"

lemma hex_chars_codes: "hex_chars = map char_of ([48..<58] @ [65..<71] @ [97..<103 :: nat])"
  by code_simp

lemma hex_decode_digit_eq:
  "hex_decode_digit c = (case digit_val c of Some d \<Rightarrow> if d < 16 then int d else - 1 | None \<Rightarrow> - 1)"
proof (cases "c \<in> set hex_chars")
  case True
  have "list_all (\<lambda>c. hex_decode_digit c =
      (case digit_val c of Some d \<Rightarrow> if d < 16 then int d else - 1 | None \<Rightarrow> - 1)) hex_chars"
    by code_simp
  with True show ?thesis by (auto simp only: list_all_iff)
next
  case False
  then have *: "hex_decode_digit c = - 1" by (simp add: hex_decode_digit_def)
  define n where "n = (of_char c :: nat)"
  have "n \<notin> set ([48..<58] @ [65..<71] @ [97..<103])"
  proof
    assume "n \<in> set ([48..<58] @ [65..<71] @ [97..<103])"
    then have "char_of n \<in> set hex_chars" unfolding hex_chars_codes set_map by (rule imageI)
    with False show False by (simp only: n_def char_of_char)
  qed
  then have "\<not> (48 \<le> n \<and> n \<le> 57)" "\<not> (65 \<le> n \<and> n < 71)" "\<not> (97 \<le> n \<and> n < 103)"
    by (auto simp del: upt_rec_numeral)
  then show ?thesis unfolding *
    by (auto simp: digit_val_def Let_def simp flip: n_def)
qed
section \<open>Properties\<close>

text \<open>The bit tables behind the \<open>TOR_IS\<close> macros, the case tables and \<open>hex_decode_digit\<close> are
  the ASCII character classes, case mappings and hexadecimal digit values, for all 256
  characters.\<close>

theorem ctype_tables_are_ascii:
  fixes c :: char
  shows "let n = (of_char c :: nat) in
    TOR_ISUPPER c = (65 \<le> n \<and> n \<le> 90) \<and> TOR_ISLOWER c = (97 \<le> n \<and> n \<le> 122) \<and>
    TOR_ISALPHA c = (TOR_ISUPPER c \<or> TOR_ISLOWER c) \<and> TOR_ISDIGIT c = (48 \<le> n \<and> n \<le> 57) \<and>
    TOR_ISALNUM c = (TOR_ISALPHA c \<or> TOR_ISDIGIT c) \<and>
    TOR_ISXDIGIT c = (TOR_ISDIGIT c \<or> 65 \<le> n \<and> n \<le> 70 \<or> 97 \<le> n \<and> n \<le> 102) \<and>
    TOR_ISPRINT c = (32 \<le> n \<and> n \<le> 126) \<and> TOR_ISSPACE c = (n = 32 \<or> 9 \<le> n \<and> n \<le> 13) \<and>
    TOR_TOLOWER c = (if TOR_ISUPPER c then char_of (n + 32) else c) \<and>
    TOR_TOUPPER c = (if TOR_ISLOWER c then char_of (n - 32) else c) \<and>
    hex_decode_digit c = (if TOR_ISDIGIT c then int n - 48 else if 65 \<le> n \<and> n \<le> 70 then int n - 55
       else if 97 \<le> n \<and> n \<le> 102 then int n - 87 else - 1)"
proof -
  have "hex_decode_digit c = (let n = (of_char c :: nat) in if TOR_ISDIGIT c then int n - 48
      else if 65 \<le> n \<and> n \<le> 70 then int n - 55 else if 97 \<le> n \<and> n \<le> 102 then int n - 87 else - 1)"
    by (auto simp: hex_decode_digit_eq digit_val_def TOR_ISDIGIT_iff Let_def)
  then show ?thesis
    by (simp add: Let_def TOR_TOLOWER_eq TOR_TOUPPER_eq TOR_ISUPPER_iff TOR_ISLOWER_iff TOR_ISALPHA_iff
        TOR_ISDIGIT_iff TOR_ISALNUM_iff TOR_ISXDIGIT_iff TOR_ISPRINT_iff TOR_ISSPACE_iff c_isspace_def)
qed

text \<open>C38: the checked parsers succeed exactly on the texts of numbers.  \<open>tor_parse_long\<close>
  and \<open>tor_parse_ulong\<close> set \<open>*ok\<close> if and only if the base is one the library
  defines, the text reads as a sign, at least one digit and a rest, the number these denote is
  representable and within the requested bounds, and nothing is left over unless the caller
  asks for the rest; the value is then that number (with a minus sign, its negation modulo
  \<open>2^64\<close> for the unsigned type) and \<open>*next\<close> the text after its last digit.  On
  failure the value is 0, and \<open>tor_parse_uint64\<close> is \<open>tor_parse_ulong\<close>.\<close>

theorem parse_result_within_bounds:
  "(tor_parse_long s base lo hi w = Some (r, True, nx) \<longleftrightarrow>
      base_defined base \<and>
      (\<exists>neg m rest. reading (nat base) s neg m rest \<and> r = (if neg then - int m else int m) \<and>
         - INT64_MAX - 1 \<le> r \<and> r \<le> INT64_MAX \<and> lo \<le> r \<and> r \<le> hi \<and>
         (if w then nx = Some rest else nx = None \<and> rest = []))) \<and>
   (tor_parse_ulong s base lo' hi' w = Some (u, True, nx) \<longleftrightarrow>
      base_defined base \<and>
      (\<exists>neg m rest. reading (nat base) s neg m rest \<and> m < 2 ^ 64 \<and>
         u = (if neg then - of_nat m else of_nat m) \<and> lo' \<le> u \<and> u \<le> hi' \<and>
         (if w then nx = Some rest else nx = None \<and> rest = []))) \<and>
   (tor_parse_long s base lo hi w = Some (r, False, nx) \<longrightarrow> r = 0) \<and>
   (tor_parse_ulong s base lo' hi' w = Some (u, False, nx) \<longrightarrow> u = 0) \<and>
   tor_parse_uint64 s base lo' hi' w = tor_parse_ulong s base lo' hi' w"
  by (intro conjI impI tor_parse_long_ok tor_parse_ulong_ok)
    (rule failed_parse_zero, assumption, rule failed_parse_zero, assumption,
      simp only: tor_parse_uint64_def tor_parse_ulong_def)

theorem parse_result_within_bounds_witness:
  "tor_parse_long ''250'' 10 0 255 False = Some (250, True, None) \<and>
   (\<exists>neg m. reading 10 ''250'' neg m [] \<and> 250 = (if neg then - int m else int m)) \<and>
   (\<exists>r. tor_parse_long ''250'' 10 0 200 False = Some (r, False, None) \<and> r = 0) \<and>
   (\<exists>u. tor_parse_ulong ''250'' 10 0 200 False = Some (u, False, None) \<and> u = 0)"
proof -
  note eval = base_defined_def strto_scan_def split_base_def c_isspace_def is_digit_of_def digit_val_def
    digits_value_def CHECK_STRTOX_RESULT_def
  have l: "tor_parse_long ''250'' 10 0 255 False = Some (250, True, None)"
    "tor_parse_long ''250'' 10 0 200 False = Some (0, False, None)"
    by (simp_all add: tor_parse_long_def strtol_def eval)
  have u: "tor_parse_ulong ''250'' 10 0 200 False = Some (0, False, None)"
    by (simp add: tor_parse_ulong_def strtoull_def eval)
  show ?thesis
    using l u parse_result_within_bounds [of "''250''" 10 0 255 False 250 None 0 200 0]
      parse_result_within_bounds [of "''250''" 10 0 200 False 0 None 0 200 0] by auto
qed

text \<open>Printing an integer in decimal and parsing it back with \<open>tor_parse_long\<close> in base 10
  gives the integer, for every value of the 64-bit type within the bounds, and leaves exactly
  the text after it.  For the unsigned parser the same holds of every 64-bit value, but a
  negative decimal is accepted too and read modulo \<open>2^64\<close>.\<close>

theorem print_parse_roundtrip:
  assumes "no_digit_first rest" "- INT64_MAX - 1 \<le> v" "v \<le> INT64_MAX" "lo \<le> v" "v \<le> hi"
    "\<bar>u\<bar> < 2 ^ 64"
  shows "tor_parse_long (print_int v @ rest) 10 lo hi True = Some (v, True, Some rest) \<and>
    tor_parse_long (print_int v) 10 lo hi False = Some (v, True, None) \<and>
    tor_parse_uint64 (print_int u @ rest) 10 0 UINT64_MAX True = Some (word_of_int u, True, Some rest)"
proof -
  have nil: "no_digit_first []" by (simp add: no_digit_first_def)
  have "nat \<bar>u\<bar> < 2 ^ 64" using assms(6) by simp
  then have "strtoull (print_int u @ rest) 10 =
      \<lparr>strtox_r = word_of_int u, endptr = Some rest, erange = False\<rparr>"
    by (simp add: strtoull_def strto_scan_print_int [OF assms(1)] word_of_nat_eq_iff)
  moreover have "\<not> UINT64_MAX < x" for x :: u64
    using unat_u64_less [of x] by (simp add: word_less_nat_alt)
  ultimately show ?thesis
    using strtol_print_int [OF assms(1-3)] strtol_print_int [OF nil assms(2,3)] assms(4,5)
    by (simp add: tor_parse_long_def tor_parse_uint64_def base_defined_def CHECK_STRTOX_RESULT_def Let_def)
qed

theorem print_parse_roundtrip_witness:
  "tor_parse_long (print_int (- 42) @ '','') 10 (- 100) 100 True = Some (- 42, True, Some '','') \<and>
   tor_parse_uint64 (print_int (- 1) @ '','') 10 0 UINT64_MAX True = Some (UINT64_MAX, True, Some '','')"
  using print_parse_roundtrip [of "'',''" "- 42" "- 100" 100 "- 1"]
  by (simp add: no_digit_first_def is_digit_of_def digit_val_def)

end
