(* ===== verification/Util_String.thy ===== *)
theory Util_String
  imports C_Strings Di_Ops
begin

text \<open>
  The string helpers of \<open>lib/string/util_string.c\<close>: substring search, comparison with a prefix
  or suffix, skipping of white space and comments, and the UTF-8 validator.  Memory blocks are
  lists of bytes; text is a list of characters up to its terminating NUL.  In the variants
  with an explicit end \<open>eos\<close>, the list holds the characters before \<open>eos\<close> and may contain NUL.
\<close>

section \<open>Definitions\<close>

subsection \<open>Library comparisons and searches\<close>

fun strncmp :: "string \<Rightarrow> string \<Rightarrow> nat \<Rightarrow> int" where
  "strncmp (c # s) (d # t) (Suc n) = (if c = d then strncmp s t n else of_char c - of_char d)"
| "strncmp (c # s) [] (Suc n) = of_char c"
| "strncmp [] (d # t) (Suc n) = - of_char d"
| "strncmp _ _ _ = 0"

fun strcmp :: "string \<Rightarrow> string \<Rightarrow> int" where
  "strcmp (c # s) (d # t) = (if c = d then strcmp s t else of_char c - of_char d)"
| "strcmp (c # s) [] = of_char c"
| "strcmp [] (d # t) = - of_char d"
| "strcmp [] [] = 0"

text \<open>The case-insensitive comparisons of the library, in the C locale.\<close>

definition strncasecmp :: "string \<Rightarrow> string \<Rightarrow> nat \<Rightarrow> int" where
  "strncasecmp s t n = strncmp (map TOR_TOLOWER s) (map TOR_TOLOWER t) n"

definition strcasecmp :: "string \<Rightarrow> string \<Rightarrow> int" where
  "strcasecmp s t = strcmp (map TOR_TOLOWER s) (map TOR_TOLOWER t)"

text \<open>\<open>memchr\<close> and \<open>strchr\<close>: the index of the first occurrence.\<close>

fun memchr :: "'a list \<Rightarrow> 'a \<Rightarrow> nat option" where
  "memchr [] c = None"
| "memchr (x # xs) c = (if x = c then Some 0 else map_option Suc (memchr xs c))"

text \<open>\<open>memmem\<close> and \<open>strstr\<close>: the index of the first occurrence of the needle.\<close>

fun memmem :: "'a list \<Rightarrow> 'a list \<Rightarrow> nat option" where
  "memmem [] needle = (if needle = [] then Some 0 else None)"
| "memmem (x # xs) needle =
     (if take (length needle) (x # xs) = needle then Some 0 else map_option Suc (memmem xs needle))"

subsection \<open>Substring search\<close>

lemma memchr_less: "memchr xs c = Some k \<Longrightarrow> k < length xs \<and> xs ! k = c \<and> c \<notin> set (take k xs)"
  by (induction xs c arbitrary: k rule: memchr.induct) (auto split: if_splits)

text \<open>The loop for platforms without \<open>memmem\<close>; \<open>p\<close> and \<open>last_start\<close> are offsets.\<close>

function memmem_loop :: "'a list \<Rightarrow> 'a list \<Rightarrow> nat \<Rightarrow> nat \<Rightarrow> nat option" where
  "memmem_loop haystack needle p last_start =
     (case memchr (take (last_start + 1 - p) (drop p haystack)) (hd needle) of
        None \<Rightarrow> None
      | Some k \<Rightarrow>
          (let p = p + k
           in if take (length needle) (drop p haystack) = needle then Some p
              else if p + 1 > last_start then None
              else memmem_loop haystack needle (p + 1) last_start))"
  by pat_completeness auto
termination by (relation "measure (\<lambda>(h, n, p, l). l + 1 - p)") auto

declare memmem_loop.simps [simp del]

text \<open>The outer \<open>None\<close> is the assertion that the needle is not empty.\<close>

definition tor_memmem :: "'a list \<Rightarrow> 'a list \<Rightarrow> nat option option" where
  "tor_memmem haystack needle = (if needle = [] then None else Some (memmem haystack needle))"

definition tor_memmem_fallback :: "'a list \<Rightarrow> 'a list \<Rightarrow> nat option option" where
  "tor_memmem_fallback haystack needle =
     (if needle = [] then None
      else if length needle > length haystack then Some None
      else Some (memmem_loop haystack needle 0 (length haystack - length needle)))"

definition tor_memstr :: "string \<Rightarrow> string \<Rightarrow> nat option option" where
  "tor_memstr haystack needle = tor_memmem haystack needle"

subsection \<open>Zero tests and in-place changes\<close>

function fast_mem_is_zero :: "bytes \<Rightarrow> bool" where
  "fast_mem_is_zero mem =
     (if length mem \<ge> 32 then
        (if memcmp mem (replicate 32 0) 32 \<noteq> 0 then False else fast_mem_is_zero (drop 32 mem))
      else if mem \<noteq> [] then memcmp mem (replicate 32 0) (length mem) = 0
      else True)"
  by pat_completeness auto
termination by (relation "measure length") auto

declare fast_mem_is_zero.simps [simp del]

definition tor_digest_is_zero :: "bytes \<Rightarrow> bool" where
  "tor_digest_is_zero digest = (safe_mem_is_zero digest 20 \<noteq> 0)"

definition tor_digest256_is_zero :: "bytes \<Rightarrow> bool" where
  "tor_digest256_is_zero digest = (safe_mem_is_zero digest 32 \<noteq> 0)"

fun tor_strstrip :: "string \<Rightarrow> string \<Rightarrow> string" where
  "tor_strstrip [] strip = []"
| "tor_strstrip (c # s) strip = (if memchr strip c \<noteq> None then tor_strstrip s strip else c # tor_strstrip s strip)"

fun tor_strlower :: "string \<Rightarrow> string" where
  "tor_strlower [] = []"
| "tor_strlower (c # s) = TOR_TOLOWER c # tor_strlower s"

fun tor_strupper :: "string \<Rightarrow> string" where
  "tor_strupper [] = []"
| "tor_strupper (c # s) = TOR_TOUPPER c # tor_strupper s"

function tor_strreplacechar :: "string \<Rightarrow> char \<Rightarrow> char \<Rightarrow> string" where
  "tor_strreplacechar s c r =
     (case memchr s c of
        None \<Rightarrow> s
      | Some k \<Rightarrow> take k s @ r # tor_strreplacechar (drop (k + 1) s) c r)"
  by pat_completeness auto
termination by (relation "measure (\<lambda>(s, c, r). length s)") (auto dest: memchr_less)

declare tor_strreplacechar.simps [simp del]

fun tor_strisprint :: "string \<Rightarrow> bool" where
  "tor_strisprint [] = True"
| "tor_strisprint (c # s) = (if \<not> TOR_ISPRINT c then False else tor_strisprint s)"

fun tor_strisnonupper :: "string \<Rightarrow> bool" where
  "tor_strisnonupper [] = True"
| "tor_strisnonupper (c # s) = (if TOR_ISUPPER c then False else tor_strisnonupper s)"

fun tor_strisspace :: "string \<Rightarrow> bool" where
  "tor_strisspace [] = True"
| "tor_strisspace (c # s) = (if \<not> TOR_ISSPACE c then False else tor_strisspace s)"

subsection \<open>Prefixes and suffixes\<close>

fun strcmp_opt :: "string option \<Rightarrow> string option \<Rightarrow> int" where
  "strcmp_opt None None = 0"
| "strcmp_opt None (Some _) = - 1"
| "strcmp_opt (Some _) None = 1"
| "strcmp_opt (Some s1) (Some s2) = strcmp s1 s2"

definition strcmpstart :: "string \<Rightarrow> string \<Rightarrow> int" where
  "strcmpstart s1 s2 = strncmp s1 s2 (length s2)"

definition strcasecmpstart :: "string \<Rightarrow> string \<Rightarrow> int" where
  "strcasecmpstart s1 s2 = strncasecmp s1 s2 (length s2)"

definition fast_memcmpstart :: "bytes \<Rightarrow> bytes \<Rightarrow> int" where
  "fast_memcmpstart mem prf = (if length mem < length prf then - 1 else memcmp mem prf (length prf))"

definition strcmpend :: "string \<Rightarrow> string \<Rightarrow> int" where
  "strcmpend s1 s2 =
     (let n1 = length s1; n2 = length s2
      in if n2 > n1 then strcmp s1 s2 else strncmp (drop (n1 - n2) s1) s2 n2)"

definition strcasecmpend :: "string \<Rightarrow> string \<Rightarrow> int" where
  "strcasecmpend s1 s2 =
     (let n1 = length s1; n2 = length s2
      in if n2 > n1 then strcasecmp s1 s2 else strncasecmp (drop (n1 - n2) s1) s2 n2)"

subsection \<open>White space\<close>

abbreviation NL :: char where "NL \<equiv> CHR 0x0A"
abbreviation TAB :: char where "TAB \<equiv> CHR 0x09"
abbreviation CR :: char where "CR \<equiv> CHR 0x0D"
abbreviation NUL :: char where "NUL \<equiv> CHR 0x00"

function eat_whitespace :: "string \<Rightarrow> string" where
  "eat_whitespace [] = []"
| "eat_whitespace (c # s) =
     (if c = CHR '' '' \<or> c = TAB \<or> c = NL \<or> c = CR then eat_whitespace s
      else if c = CHR ''#'' then eat_whitespace (dropWhile (\<lambda>d. d \<noteq> NL) s)
      else c # s)"
  by pat_completeness auto
termination by (relation "measure length") (auto simp: less_Suc_eq_le length_dropWhile_le)

function eat_whitespace_eos :: "string \<Rightarrow> string" where
  "eat_whitespace_eos [] = []"
| "eat_whitespace_eos (c # s) =
     (if c = CHR '' '' \<or> c = TAB \<or> c = NL \<or> c = CR then eat_whitespace_eos s
      else if c = CHR ''#'' then eat_whitespace_eos (dropWhile (\<lambda>d. d \<noteq> NUL \<and> d \<noteq> NL) s)
      else c # s)"
  by pat_completeness auto
termination by (relation "measure length") (auto simp: less_Suc_eq_le length_dropWhile_le)

fun eat_whitespace_no_nl :: "string \<Rightarrow> string" where
  "eat_whitespace_no_nl [] = []"
| "eat_whitespace_no_nl (c # s) =
     (if c = CHR '' '' \<or> c = TAB \<or> c = CR then eat_whitespace_no_nl s else c # s)"

definition eat_whitespace_eos_no_nl :: "string \<Rightarrow> string" where
  "eat_whitespace_eos_no_nl s = eat_whitespace_no_nl s"

fun find_whitespace :: "string \<Rightarrow> string" where
  "find_whitespace [] = []"
| "find_whitespace (c # s) =
     (if c = CHR ''#'' \<or> c = CHR '' '' \<or> c = CR \<or> c = NL \<or> c = TAB then c # s else find_whitespace s)"

fun find_whitespace_eos :: "string \<Rightarrow> string" where
  "find_whitespace_eos [] = []"
| "find_whitespace_eos (c # s) =
     (if c = NUL \<or> c = CHR ''#'' \<or> c = CHR '' '' \<or> c = CR \<or> c = NL \<or> c = TAB then c # s
      else find_whitespace_eos s)"

text \<open>The search for a line: the result is the haystack from the match on.\<close>

function find_str_at_start_of_line :: "string \<Rightarrow> string \<Rightarrow> string option" where
  "find_str_at_start_of_line haystack needle =
     (if strncmp haystack needle (length needle) = 0 then Some haystack
      else case memchr haystack NL of
             None \<Rightarrow> None
           | Some k \<Rightarrow>
               (let haystack = drop (k + 1) haystack
                in if haystack \<noteq> [] then find_str_at_start_of_line haystack needle else None))"
  by pat_completeness auto
termination by (relation "measure (\<lambda>(h, n). length h)") (auto dest: memchr_less)

declare find_str_at_start_of_line.simps [simp del]

fun C_identifier_loop :: "string \<Rightarrow> bool \<Rightarrow> bool" where
  "C_identifier_loop [] is_first = True"
| "C_identifier_loop (c # s) is_first =
     (if is_first then (if \<not> (TOR_ISALPHA c \<or> c = CHR ''_'') then False else C_identifier_loop s False)
      else (if \<not> (TOR_ISALPHA c \<or> TOR_ISDIGIT c \<or> c = CHR ''_'') then False else C_identifier_loop s False))"

definition string_is_C_identifier :: "string \<Rightarrow> bool" where
  "string_is_C_identifier s = (if length s = 0 then False else C_identifier_loop s True)"

subsection \<open>UTF-8\<close>

definition TOP_BITS :: "nat \<Rightarrow> u8" where "TOP_BITS x = push_bit (8 - x) 0xFF"
definition LOW_BITS :: "nat \<Rightarrow> u8" where "LOW_BITS x = drop_bit (8 - x) 0xFF"

definition bytes_in_char :: "u8 \<Rightarrow> nat" where
  "bytes_in_char b =
     (if TOP_BITS 1 AND b = 0 then 1
      else if TOP_BITS 3 AND b = TOP_BITS 2 then 2
      else if TOP_BITS 4 AND b = TOP_BITS 3 then 3
      else if TOP_BITS 5 AND b = TOP_BITS 4 then 4
      else 0)"

definition is_continuation_byte :: "u8 \<Rightarrow> bool" where
  "is_continuation_byte b = (let top2bits = b AND TOP_BITS 2 in top2bits = TOP_BITS 1)"

text \<open>The loop of \<open>validate_char\<close> over the continuation bytes; \<open>None\<close> if one is not.\<close>

fun codepoint_loop :: "bytes \<Rightarrow> u32 \<Rightarrow> u32 option" where
  "codepoint_loop [] codepoint = Some codepoint"
| "codepoint_loop (b # bs) codepoint =
     (if \<not> is_continuation_byte b then None
      else let codepoint = push_bit 6 codepoint;
               codepoint = codepoint OR ucast (b AND LOW_BITS 6)
           in codepoint_loop bs codepoint)"

definition validate_char :: "bytes \<Rightarrow> nat \<Rightarrow> bool" where
  "validate_char c len =
     (if len = 1 then True
      else case codepoint_loop (take (len - 1) (drop 1 c)) (ucast (c ! 0 AND LOW_BITS (7 - len))) of
             None \<Rightarrow> False
           | Some codepoint \<Rightarrow>
               if len = 2 \<and> codepoint \<le> 0x7f then False
               else if len = 3 \<and> codepoint \<le> 0x7ff then False
               else if len = 4 \<and> codepoint \<le> 0xffff then False
               else if codepoint \<ge> 0xd800 \<and> codepoint \<le> 0xdfff then False
               else codepoint \<le> 0x10ffff)"

lemma bytes_in_char_le: "bytes_in_char b \<le> 4"
  by (simp add: bytes_in_char_def)

function utf8_loop :: "bytes \<Rightarrow> bool" where
  "utf8_loop s =
     (if s = [] then True
      else let num_bytes = bytes_in_char (hd s)
           in if num_bytes = 0 then False
              else if num_bytes > length s then False
              else if \<not> validate_char s num_bytes then False
              else utf8_loop (drop num_bytes s))"
  by pat_completeness auto
termination by (relation "measure length") auto

declare utf8_loop.simps [simp del]

definition string_is_utf8 :: "bytes option \<Rightarrow> nat \<Rightarrow> bool" where
  "string_is_utf8 str len =
     (case str of None \<Rightarrow> len = 0 | Some s \<Rightarrow> utf8_loop (take len s))"

text \<open>The comparison with the byte order marks \<open>U+FEFF\<close> and \<open>U+FFFE\<close> in UTF-8 is on the
  NUL-terminated string, so that a NUL ends it early; none of the marks contains a NUL.\<close>

definition string_is_utf8_no_bom :: "bytes option \<Rightarrow> nat \<Rightarrow> bool" where
  "string_is_utf8_no_bom str len =
     (case str of
        Some s \<Rightarrow>
          if len \<ge> 3 \<and> (take 3 s = [0xEF, 0xBB, 0xBF] \<or> take 3 s = [0xEF, 0xBF, 0xBE]) then False
          else string_is_utf8 str len
      | None \<Rightarrow> string_is_utf8 str len)"

section \<open>The UTF-8 validator\<close>

lemma unat_and_top:
  assumes "j < 8"
  shows "unat (push_bit j 0xFF AND (b :: u8)) = unat b div 2 ^ j * 2 ^ j"
proof -
  have "push_bit j 0xFF AND b = push_bit j (drop_bit j b)"
  proof (rule bit_word_eqI)
    fix n assume "n < LENGTH(8)"
    then have n: "n < 8" by simp
    have "(0xFF :: u8) = mask 8" by (simp add: mask_eq_exp_minus_1)
    then have "bit (0xFF :: u8) m \<longleftrightarrow> m < 8" for m by (simp only: bit_mask_iff) simp
    moreover have "n - j < 8" using n by simp
    ultimately show "bit (push_bit j 0xFF AND b) n = bit (push_bit j (drop_bit j b)) n"
      using n by (cases "j \<le> n")
        (simp_all add: bit_and_iff bit_push_bit_iff bit_drop_bit_eq del: bit_numeral_word_iff push_bit_numeral)
  qed
  then have "push_bit j 0xFF AND b = b div 2 ^ j * 2 ^ j"
    by (simp add: push_bit_eq_mult drop_bit_eq_div)
  moreover have "unat (2 ^ j :: u8) = 2 ^ j"
  proof -
    have "(2 ^ j :: u8) = word_of_nat (2 ^ j)" by simp
    moreover have "(2 :: nat) ^ j < 2 ^ 8" using assms by (intro power_strict_increasing) simp_all
    ultimately show ?thesis by (simp only: unat_of_nat take_bit_nat_eq_self_iff) simp
  qed
  moreover have "unat b div 2 ^ j * 2 ^ j < 256"
    using div_times_less_eq_dividend [of "unat b" "2 ^ j"] unat_u8_less [of b] by linarith
  then have "unat b div 2 ^ j * 2 ^ j < 2 ^ LENGTH(8)" by simp
  ultimately show ?thesis by (simp add: unat_mult_exact unat_div_exact)
qed

lemma unat_and_low:
  assumes "x \<le> 8"
  shows "unat ((b :: u8) AND LOW_BITS x) = unat b mod 2 ^ x"
proof -
  have m: "(0xFF :: u8) = mask 8" by (simp add: mask_eq_exp_minus_1)
  have "LOW_BITS x = mask x"
    using assms unfolding LOW_BITS_def m by (simp add: bit_eq_iff bit_drop_bit_eq bit_mask_iff) auto
  then have "b AND LOW_BITS x = take_bit x b" by (simp add: take_bit_eq_mask)
  then show ?thesis by (metis take_bit_eq_mod unsigned_take_bit_eq)
qed

lemma top_bits_value:
  "TOP_BITS 1 = 128" "TOP_BITS 2 = 192" "TOP_BITS 3 = 224" "TOP_BITS 4 = 240" "TOP_BITS 5 = 248"
  by (simp_all add: TOP_BITS_def push_bit_eq_mult)

lemma bytes_in_char_eq:
  "bytes_in_char b = (let n = unat b in if n < 128 then 1 else if 192 \<le> n \<and> n < 224 then 2
     else if 224 \<le> n \<and> n < 240 then 3 else if 240 \<le> n \<and> n < 248 then 4 else 0)"
proof -
  have t: "unat (TOP_BITS 1 AND b) = unat b div 128 * 128" "unat (TOP_BITS 3 AND b) = unat b div 32 * 32"
    "unat (TOP_BITS 4 AND b) = unat b div 16 * 16" "unat (TOP_BITS 5 AND b) = unat b div 8 * 8"
    using unat_and_top [of 7 b] unat_and_top [of 5 b] unat_and_top [of 4 b] unat_and_top [of 3 b]
    by (simp_all add: TOP_BITS_def)
  have "TOP_BITS 1 AND b = 0 \<longleftrightarrow> unat b div 128 * 128 = 0"
    "TOP_BITS 3 AND b = TOP_BITS 2 \<longleftrightarrow> unat b div 32 * 32 = 192"
    "TOP_BITS 4 AND b = TOP_BITS 3 \<longleftrightarrow> unat b div 16 * 16 = 224"
    "TOP_BITS 5 AND b = TOP_BITS 4 \<longleftrightarrow> unat b div 8 * 8 = 240"
    using t by (simp_all add: top_bits_value flip: unat_inj_iff)
  moreover have "(n div 128 * 128 = 0) = (n < 128) \<and> (n div 32 * 32 = 192) = (192 \<le> n \<and> n < 224) \<and>
    (n div 16 * 16 = 224) = (224 \<le> n \<and> n < 240) \<and> (n div 8 * 8 = 240) = (240 \<le> n \<and> n < 248)" for n :: nat
    by (auto; linarith)
  ultimately show ?thesis by (simp add: bytes_in_char_def Let_def)
qed

lemma is_continuation_byte_eq: "is_continuation_byte b \<longleftrightarrow> 128 \<le> unat b \<and> unat b < 192"
proof -
  have "unat (b AND TOP_BITS 2) = unat b div 64 * 64"
    using unat_and_top [of 6 b] by (simp add: TOP_BITS_def and.commute)
  then have "b AND TOP_BITS 2 = TOP_BITS 1 \<longleftrightarrow> unat b div 64 * 64 = 128"
    unfolding top_bits_value unat_inj_iff [symmetric] by simp
  also have "\<dots> \<longleftrightarrow> 128 \<le> unat b \<and> unat b < 192" by (auto; linarith)
  finally show ?thesis by (simp add: is_continuation_byte_def)
qed

lemma codepoint_shift:
  assumes "unat cp < 2 ^ 26"
  shows "unat (push_bit 6 cp OR ucast ((b :: u8) AND LOW_BITS 6) :: u32) = unat cp * 64 + unat b mod 64"
proof -
  have low: "unat (ucast (b AND LOW_BITS 6) :: u32) = unat b mod 64"
    using unat_and_low [of 6 b] unat_u8_less [of "b AND LOW_BITS 6"]
    by (simp add: unsigned_ucast_eq take_bit_nat_eq_self)
  then have tb: "take_bit 6 (ucast (b AND LOW_BITS 6) :: u32) = ucast (b AND LOW_BITS 6)"
    by (simp add: take_bit_eq_mod unat_mod_exact flip: unat_inj_iff)
  have "\<not> bit (ucast (b AND LOW_BITS 6) :: u32) n" if "6 \<le> n" for n
    by (subst tb [symmetric]) (use that in \<open>simp add: bit_take_bit_iff\<close>)
  then have "push_bit 6 cp AND (ucast (b AND LOW_BITS 6) :: u32) = 0"
    by (auto simp: bit_eq_iff bit_and_iff bit_push_bit_iff)
  then have "push_bit 6 cp OR ucast (b AND LOW_BITS 6) = push_bit 6 cp + (ucast (b AND LOW_BITS 6) :: u32)"
    by (simp only: disjunctive_add_eq_or)
  moreover have "unat (push_bit 6 cp :: u32) = unat cp * 64"
    using assms by (simp add: push_bit_eq_mult unat_mult_exact)
  ultimately show ?thesis
    using low assms by (simp add: unat_add_exact)
qed


text \<open>The reference: the UTF-8 encoding of a Unicode scalar value.\<close>

definition utf8_encode :: "nat \<Rightarrow> bytes" where
  "utf8_encode cp = map of_nat
     (if cp < 0x80 then [cp]
      else if cp < 0x800 then [0xC0 + cp div 64, 0x80 + cp mod 64]
      else if cp < 0x10000 then [0xE0 + cp div 4096, 0x80 + cp div 64 mod 64, 0x80 + cp mod 64]
      else [0xF0 + cp div 262144, 0x80 + cp div 4096 mod 64, 0x80 + cp div 64 mod 64, 0x80 + cp mod 64])"

definition scalar_value :: "nat \<Rightarrow> bool" where
  "scalar_value cp \<longleftrightarrow> cp \<le> 0x10FFFF \<and> \<not> (0xD800 \<le> cp \<and> cp \<le> 0xDFFF)"

lemma unat_lead: "x \<le> 8 \<Longrightarrow> unat (ucast ((b :: u8) AND LOW_BITS x) :: u32) = unat b mod 2 ^ x"
  using unat_and_low [of x b] unat_u8_less [of "b AND LOW_BITS x"]
  by (simp add: unsigned_ucast_eq take_bit_nat_eq_self)

definition codepoint_value :: "nat \<Rightarrow> bytes \<Rightarrow> nat" where
  "codepoint_value cp bs = foldl (\<lambda>a b. a * 64 + unat b mod 64) cp bs"

lemma codepoint_loop_value:
  "(unat cp + 1) * 64 ^ length bs \<le> 2 ^ 32 \<Longrightarrow>
     (if list_all is_continuation_byte bs
      then \<exists>cp'. codepoint_loop bs cp = Some cp' \<and> unat cp' = codepoint_value (unat cp) bs
      else codepoint_loop bs cp = None)"
proof (induction bs cp rule: codepoint_loop.induct)
  case (1 cp)
  then show ?case by (simp add: codepoint_value_def)
next
  case (2 b bs cp)
  let ?cp = "push_bit 6 cp OR ucast (b AND LOW_BITS 6)"
  have "(unat cp + 1) * 64 * 1 \<le> (unat cp + 1) * 64 * 64 ^ length bs"
    by (intro mult_le_mono) simp_all
  also have "\<dots> \<le> 2 ^ 32" using "2.prems" by (simp add: algebra_simps)
  finally have "unat cp < 2 ^ 26" by simp
  then have u: "unat ?cp = unat cp * 64 + unat b mod 64" by (rule codepoint_shift)
  have "unat ?cp + 1 \<le> (unat cp + 1) * 64" unfolding u by simp
  then have "(unat ?cp + 1) * 64 ^ length bs \<le> (unat cp + 1) * 64 * 64 ^ length bs"
    by (rule mult_le_mono1)
  also have "\<dots> \<le> 2 ^ 32" using "2.prems" by (simp add: algebra_simps)
  finally show ?case
    using "2.IH" [OF _ refl refl] u by (auto simp: codepoint_value_def Let_def)
qed

lemma validate_char_value:
  assumes "length bs \<in> {1, 2, 3}"
  shows "validate_char (a # bs @ r) (Suc (length bs)) \<longleftrightarrow> list_all is_continuation_byte bs \<and>
     (let cp = codepoint_value (unat a mod 2 ^ (6 - length bs)) bs
      in (if length bs = 1 then 0x7f else if length bs = 2 then 0x7ff else 0xffff) < cp \<and> scalar_value cp)"
proof -
  define cp0 where "cp0 = (ucast (a AND LOW_BITS (6 - length bs)) :: u32)"
  have cp0: "unat cp0 = unat a mod 2 ^ (6 - length bs)" by (simp add: cp0_def unat_lead)
  then have "unat cp0 + 1 \<le> 2 ^ (6 - length bs)" by (simp add: Suc_le_eq)
  then have "(unat cp0 + 1) * 64 ^ length bs \<le> 2 ^ (6 - length bs) * 64 ^ length bs" by (rule mult_le_mono1)
  also have "\<dots> \<le> 2 ^ 32" using assms by auto
  finally have "if list_all is_continuation_byte bs
      then \<exists>cp'. codepoint_loop bs cp0 = Some cp' \<and> unat cp' = codepoint_value (unat cp0) bs
      else codepoint_loop bs cp0 = None"
    by (rule codepoint_loop_value)
  moreover have "take (Suc (length bs) - 1) (drop 1 (a # bs @ r)) = bs" by simp
  ultimately show ?thesis using assms
    by (auto simp: validate_char_def scalar_value_def word_le_nat_alt cp0 Let_def simp flip: cp0_def
        split: if_splits)
qed

lemma split64: "(z :: nat) < 64 \<Longrightarrow> (q * 64 + z) div 64 = q" "z < 64 \<Longrightarrow> (q * 64 + z) mod 64 = z"
  by simp_all

lemma below_3_digits: "(x :: nat) < 16 \<Longrightarrow> y < 64 \<Longrightarrow> z < 64 \<Longrightarrow> (x * 64 + y) * 64 + z < 65536"
proof -
  assume "x < 16" "y < 64" "z < 64"
  then have "x \<le> 15" "y \<le> 63" "z \<le> 63" by simp_all
  moreover have "(x * 64 + y) * 64 + z = 4096 * x + 64 * y + z" by simp
  ultimately show ?thesis by linarith
qed

lemma byte_of_nat: "n = unat (b :: u8) \<Longrightarrow> of_nat n = b"
  by simp

lemma unat_byte: "n < 256 \<Longrightarrow> unat (of_nat n :: u8) = n"
  by (simp add: unat_of_nat take_bit_nat_eq_self)

lemma mod_block: "k * m \<le> n \<Longrightarrow> n < k * m + m \<Longrightarrow> n = k * m + n mod (m :: nat)"
  by (metis add.commute div_mult_mod_eq div_nat_eqI mult.commute mult_Suc_right)

lemma continuation_mod: "is_continuation_byte b \<Longrightarrow> unat b = 128 + unat b mod 64"
  using mod_block [of 2 64 "unat b"] by (simp add: is_continuation_byte_eq)

lemma utf8_decode_char:
  assumes "s = a # t" "n = bytes_in_char a" "n \<noteq> 0" "n \<le> length s" "validate_char s n"
  shows "\<exists>cp. scalar_value cp \<and> take n s = utf8_encode cp"
proof (cases "unat a < 128")
  case True
  then have "n = 1" using assms(2) by (simp add: bytes_in_char_eq Let_def)
  then have "take n s = utf8_encode (unat a)" using True assms(1) by (simp add: utf8_encode_def)
  moreover have "scalar_value (unat a)" using True by (simp add: scalar_value_def)
  ultimately show ?thesis by blast
next
  case False
  define bs where "bs = take (n - 1) t"
  have n: "n \<in> {2, 3, 4}"
    using False assms(2,3) by (auto simp: bytes_in_char_eq Let_def split: if_splits)
  have a: "n = 2 \<Longrightarrow> unat a = 192 + unat a mod 32" "n = 3 \<Longrightarrow> unat a = 224 + unat a mod 16"
      "n = 4 \<Longrightarrow> unat a = 240 + unat a mod 8"
    using assms(2) mod_block [of 6 32 "unat a"] mod_block [of 14 16 "unat a"] mod_block [of 30 8 "unat a"]
    by (simp_all add: bytes_in_char_eq Let_def split: if_splits)
  have lb: "length bs = n - 1" using assms(1,4) by (simp add: bs_def)
  have s: "s = a # bs @ drop (n - 1) t" "n = Suc (length bs)" using assms(1) n lb by (auto simp: bs_def)
  define cp where "cp = codepoint_value (unat a mod 2 ^ (6 - length bs)) bs"
  have "length bs \<in> {1, 2, 3}" using n lb by auto
  moreover have "validate_char (a # bs @ drop (n - 1) t) (Suc (length bs))"
    using assms(5) by (simp only: flip: s)
  ultimately have "list_all is_continuation_byte bs \<and>
      (let cp = cp in (if length bs = 1 then 0x7f else if length bs = 2 then 0x7ff else 0xffff) < cp \<and> scalar_value cp)"
    by (simp only: validate_char_value cp_def)
  then have v: "list_all is_continuation_byte bs" "scalar_value cp"
      "(if length bs = 1 then 0x7f else if length bs = 2 then 0x7ff else 0xffff) < cp"
    unfolding Let_def by blast+
  have "utf8_encode cp = a # bs"
  proof -
    consider b where "bs = [b]" | b c where "bs = [b, c]" | b c d where "bs = [b, c, d]"
      using n lb by (auto simp: length_Suc_conv numeral_eq_Suc)
    then show ?thesis
    proof cases
      case 1
      have cp: "cp = unat a mod 32 * 64 + unat b mod 64" by (simp add: cp_def 1 codepoint_value_def)
      have "unat a mod 32 < 32" "unat b mod 64 < 64" by simp_all
      then have "cp < 0x800" unfolding cp by linarith
      moreover have "\<not> cp < 0x80" using v(3) 1 by simp
      moreover have "192 + cp div 64 = unat a" "128 + cp mod 64 = unat b"
        using a(1) lb v(1) continuation_mod [of b] unfolding cp by (simp_all add: 1 split64)
      ultimately show ?thesis by (simp add: utf8_encode_def 1 del: of_nat_add)
    next
      case 2
      have cp: "cp = (unat a mod 16 * 64 + unat b mod 64) * 64 + unat c mod 64"
        by (simp add: cp_def 2 codepoint_value_def)
      have "unat a mod 16 < 16" "unat b mod 64 < 64" "unat c mod 64 < 64" by simp_all
      then have "cp < 0x10000" unfolding cp by (rule below_3_digits)
      moreover have "\<not> cp < 0x800" using v(3) 2 by simp
      moreover have "cp div 4096 = cp div 64 div 64" by (simp flip: div_mult2_eq)
      moreover have "cp div 64 = unat a mod 16 * 64 + unat b mod 64" "cp mod 64 = unat c mod 64"
        unfolding cp by (rule split64; simp)+
      then have "224 + cp div 64 div 64 = unat a" "128 + cp div 64 mod 64 = unat b" "128 + cp mod 64 = unat c"
        using a(2) lb v(1) continuation_mod [of b] continuation_mod [of c] by (simp_all add: 2 split64)
      ultimately show ?thesis by (simp add: utf8_encode_def 2 del: of_nat_add)
    next
      case 3
      have n4: "n = 4" using n lb by (auto simp: 3)
      have cp: "cp = ((unat a mod 8 * 64 + unat b mod 64) * 64 + unat c mod 64) * 64 + unat d mod 64"
        by (simp add: cp_def 3 codepoint_value_def)
      have "\<not> cp < 0x10000" using v(3) 3 by simp
      moreover have "cp div 262144 = cp div 64 div 64 div 64" "cp div 4096 = cp div 64 div 64"
        by (simp_all flip: div_mult2_eq)
      moreover have q: "cp div 64 = (unat a mod 8 * 64 + unat b mod 64) * 64 + unat c mod 64"
          "cp mod 64 = unat d mod 64"
        unfolding cp by (rule split64; simp)+
      have "cp div 64 div 64 = unat a mod 8 * 64 + unat b mod 64" "cp div 64 mod 64 = unat c mod 64"
        unfolding q by (rule split64; simp)+
      then have "240 + cp div 64 div 64 div 64 = unat a" "128 + cp div 64 div 64 mod 64 = unat b"
          "128 + cp div 64 mod 64 = unat c" "128 + cp mod 64 = unat d"
        using a(3) [OF n4] v(1) continuation_mod [of b] continuation_mod [of c] continuation_mod [of d] q(2)
        by (simp_all add: 3 split64)
      ultimately show ?thesis by (simp add: utf8_encode_def 3 del: of_nat_add)
    qed
  qed
  moreover have "take n s = a # bs" by (simp add: s)
  ultimately show ?thesis using v(2) by auto
qed

lemma utf8_encode_char:
  assumes "scalar_value cp"
  shows "\<exists>a t. utf8_encode cp = a # t \<and> bytes_in_char a = length (utf8_encode cp) \<and>
    validate_char (utf8_encode cp @ r) (length (utf8_encode cp))"
proof -
  have cp: "cp \<le> 0x10FFFF" using assms by (simp add: scalar_value_def)
  have cont: "is_continuation_byte (of_nat (128 + m mod 64))" "unat (of_nat (128 + m mod 64) :: u8) mod 64 = m mod 64" for m
  proof -
    have "m mod 64 < 64" by simp
    then have "unat (of_nat (128 + m mod 64) :: u8) = 128 + m mod 64" by (intro unat_byte) linarith
    moreover have "(128 + k) mod 64 = k mod 64" for k :: nat
      using mod_mult_self3 [of 2 64 k] by simp
    ultimately show "is_continuation_byte (of_nat (128 + m mod 64))"
        "unat (of_nat (128 + m mod 64) :: u8) mod 64 = m mod 64"
      by (simp_all add: is_continuation_byte_eq del: of_nat_add)
  qed
  consider "cp < 0x80" | "0x80 \<le> cp" "cp < 0x800" | "0x800 \<le> cp" "cp < 0x10000" | "0x10000 \<le> cp" by linarith
  then show ?thesis
  proof cases
    case 1
    then show ?thesis by (simp add: utf8_encode_def bytes_in_char_eq validate_char_def unat_byte)
  next
    case 2
    define a where "a = (of_nat (192 + cp div 64) :: u8)"
    define bs where "bs = [of_nat (128 + cp mod 64) :: u8]"
    have q: "cp div 64 < 32" using 2 by linarith
    then have a: "unat a = 192 + cp div 64" unfolding a_def by (intro unat_byte) linarith
    have e: "utf8_encode cp = a # bs" using 2 by (simp add: utf8_encode_def a_def bs_def)
    have "codepoint_value (unat a mod 2 ^ (6 - length bs)) bs = cp"
      using q cont(2) [of cp] mod_mult_self3 [of 6 32 "cp div 64"] by (simp add: a codepoint_value_def bs_def del: of_nat_add)
    then show ?thesis
      using validate_char_value [of bs a r] cont(1) [of cp] assms 2 q
      by (simp add: e bytes_in_char_eq a Let_def bs_def del: of_nat_add)
  next
    case 3
    define a where "a = (of_nat (224 + cp div 4096) :: u8)"
    define bs where "bs = [of_nat (128 + cp div 64 mod 64) :: u8, of_nat (128 + cp mod 64)]"
    have q: "cp div 4096 < 16" using 3 by linarith
    then have a: "unat a = 224 + cp div 4096" unfolding a_def by (intro unat_byte) linarith
    have e: "utf8_encode cp = a # bs" using 3 by (simp add: utf8_encode_def a_def bs_def)
    have d: "cp div 4096 = cp div 64 div 64" by (simp flip: div_mult2_eq)
    have "codepoint_value (unat a mod 2 ^ (6 - length bs)) bs =
        (cp div 4096 * 64 + cp div 64 mod 64) * 64 + cp mod 64"
      using q cont(2) [of cp] cont(2) [of "cp div 64"] mod_mult_self3 [of 14 16 "cp div 4096"]
      by (simp add: a codepoint_value_def bs_def del: of_nat_add)
    also have "\<dots> = cp" unfolding d by (simp only: div_mult_mod_eq)
    finally have "codepoint_value (unat a mod 2 ^ (6 - length bs)) bs = cp" .
    then show ?thesis
      using validate_char_value [of bs a r] cont(1) [of cp] cont(1) [of "cp div 64"] assms 3 q
      by (simp add: e bytes_in_char_eq a Let_def bs_def del: of_nat_add)
  next
    case 4
    define a where "a = (of_nat (240 + cp div 262144) :: u8)"
    define bs where "bs = [of_nat (128 + cp div 4096 mod 64) :: u8, of_nat (128 + cp div 64 mod 64), of_nat (128 + cp mod 64)]"
    have q: "cp div 262144 < 8" using cp by linarith
    then have a: "unat a = 240 + cp div 262144" unfolding a_def by (intro unat_byte) linarith
    have e: "utf8_encode cp = a # bs" using 4 by (simp add: utf8_encode_def a_def bs_def)
    have d: "cp div 262144 = cp div 64 div 64 div 64" "cp div 4096 = cp div 64 div 64" by (simp_all flip: div_mult2_eq)
    have "codepoint_value (unat a mod 2 ^ (6 - length bs)) bs =
        ((cp div 262144 * 64 + cp div 4096 mod 64) * 64 + cp div 64 mod 64) * 64 + cp mod 64"
      using q cont(2) [of cp] cont(2) [of "cp div 64"] cont(2) [of "cp div 4096"]
        mod_mult_self3 [of 30 8 "cp div 262144"]
      by (simp add: a codepoint_value_def bs_def del: of_nat_add)
    also have "\<dots> = cp" unfolding d by (simp only: div_mult_mod_eq)
    finally have "codepoint_value (unat a mod 2 ^ (6 - length bs)) bs = cp" .
    then show ?thesis
      using validate_char_value [of bs a r] cont(1) [of cp] cont(1) [of "cp div 64"] cont(1) [of "cp div 4096"] assms 4 q
      by (simp add: e bytes_in_char_eq a Let_def bs_def del: of_nat_add)
  qed
qed

lemma utf8_loop_encode: "list_all scalar_value cps \<Longrightarrow> utf8_loop (concat (map utf8_encode cps))"
proof (induction cps)
  case Nil
  then show ?case by (simp add: utf8_loop.simps)
next
  case (Cons cp cps)
  define r where "r = concat (map utf8_encode cps)"
  obtain a t where c: "utf8_encode cp = a # t" "bytes_in_char a = length (utf8_encode cp)"
      "validate_char (utf8_encode cp @ r) (length (utf8_encode cp))"
    using utf8_encode_char [of cp r] Cons.prems by auto
  have "utf8_loop r" using Cons by (simp add: r_def)
  then have "utf8_loop (utf8_encode cp @ r)"
    using c by (subst utf8_loop.simps) (simp add: Let_def)
  then show ?case by (simp add: r_def)
qed

lemma utf8_loop_decode: "utf8_loop s \<Longrightarrow> \<exists>cps. list_all scalar_value cps \<and> s = concat (map utf8_encode cps)"
proof (induction s rule: utf8_loop.induct)
  case (1 s)
  show ?case
  proof (cases s)
    case Nil
    then show ?thesis by (intro exI [of _ "[]"]) simp
  next
    case (Cons a t)
    define n where "n = bytes_in_char a"
    have ok: "n \<noteq> 0" "n \<le> length s" "validate_char s n" "utf8_loop (drop n s)"
      using "1.prems" by (subst (asm) utf8_loop.simps, simp add: Cons Let_def n_def split: if_splits)+
    obtain cp where cp: "scalar_value cp" "take n s = utf8_encode cp"
      using utf8_decode_char [OF Cons n_def ok(1-3)] by blast
    have "\<exists>cps. list_all scalar_value cps \<and> drop n s = concat (map utf8_encode cps)"
      using "1.IH" [OF _ refl] ok Cons by (simp add: n_def)
    then obtain cps where "list_all scalar_value cps" "drop n s = concat (map utf8_encode cps)" by blast
    with cp show ?thesis
      by (intro exI [of _ "cp # cps"]) (simp flip: cp(2), metis append_take_drop_id)
  qed
qed

section \<open>Comparison and search\<close>

lemma strncmp_prefix: "NUL \<notin> set t \<Longrightarrow> strncmp s t (length t) = 0 \<longleftrightarrow> prefix t s"
proof (induction t arbitrary: s)
  case Nil
  then show ?case by (cases s) simp_all
next
  case (Cons d t)
  have "(of_char d :: int) \<noteq> 0"
    using Cons.prems of_char_eq_iff [of d NUL, where ?'a = int] by (auto simp del: of_char_eq_iff)
  with Cons show ?case by (cases s) auto
qed

lemma strcmp_zero_iff: "NUL \<notin> set s \<Longrightarrow> NUL \<notin> set t \<Longrightarrow> strcmp s t = 0 \<longleftrightarrow> s = t"
proof (induction s t rule: strcmp.induct)
  case (2 c s)
  then show ?case using of_char_eq_iff [of c NUL, where ?'a = int] by (auto simp del: of_char_eq_iff)
next
  case (3 d t)
  then show ?case using of_char_eq_iff [of d NUL, where ?'a = int] by (auto simp del: of_char_eq_iff)
qed auto

lemma strcmpend_suffix:
  assumes "NUL \<notin> set s1" "NUL \<notin> set s2"
  shows "strcmpend s1 s2 = 0 \<longleftrightarrow> suffix s2 s1"
proof (cases "length s2 > length s1")
  case True
  then have "s1 \<noteq> s2" "\<not> suffix s2 s1" by (auto dest: suffix_length_le)
  then show ?thesis using True strcmp_zero_iff [OF assms] by (simp add: strcmpend_def Let_def)
next
  case False
  let ?r = "drop (length s1 - length s2) s1"
  have "length ?r = length s2" using False by simp
  moreover have "length r = length s2 \<Longrightarrow> prefix s2 r \<longleftrightarrow> s2 = r" for r by (auto simp: prefix_def)
  ultimately have "prefix s2 ?r \<longleftrightarrow> s2 = ?r" by blast
  also have "\<dots> \<longleftrightarrow> suffix s2 s1"
    using False by (metis append_take_drop_id suffix_def suffix_drop diff_diff_cancel length_drop
        append_eq_append_conv not_less)
  finally show ?thesis using False strncmp_prefix [OF assms(2), of ?r] by (simp add: strcmpend_def Let_def)
qed

definition occurs_at :: "'a list \<Rightarrow> 'a list \<Rightarrow> nat \<Rightarrow> bool" where
  "occurs_at needle xs k \<longleftrightarrow> take (length needle) (drop k xs) = needle"

lemma memmem_first:
  "needle \<noteq> [] \<Longrightarrow> (case memmem xs needle of
     Some k \<Rightarrow> k < length xs \<and> occurs_at needle xs k \<and> (\<forall>j<k. \<not> occurs_at needle xs j)
   | None \<Rightarrow> \<forall>j. \<not> occurs_at needle xs j)"
proof (induction xs needle rule: memmem.induct)
  case (1 needle)
  then show ?case by (simp add: occurs_at_def)
next
  case (2 x xs needle)
  have s: "occurs_at needle (x # xs) (Suc j) = occurs_at needle xs j" for j by (simp add: occurs_at_def)
  have z: "occurs_at needle (x # xs) 0 = (take (length needle) (x # xs) = needle)" by (simp add: occurs_at_def)
  show ?case
  proof (cases "take (length needle) (x # xs) = needle")
    case False
    have all: "(\<forall>j. \<not> occurs_at needle (x # xs) j) \<longleftrightarrow> (\<forall>j. \<not> occurs_at needle xs j)"
      using False z s by (metis not0_implies_Suc)
    show ?thesis
      using "2.IH" [OF False "2.prems"] False z s all
      by (cases "memmem xs needle") (auto simp: All_less_Suc2)
  qed (use z in simp)
qed

lemma memmem_unique:
  assumes "needle \<noteq> []" "occurs_at needle xs k" "\<forall>j<k. \<not> occurs_at needle xs j"
  shows "memmem xs needle = Some k"
  using memmem_first [OF assms(1), of xs] assms(2,3)
  by (auto split: option.splits intro: linorder_cases [of k "the (memmem xs needle)"])

lemma memchr_None: "memchr xs c = None \<longleftrightarrow> c \<notin> set xs"
  by (induction xs c rule: memchr.induct) auto

lemma memchr_append: "c \<notin> set xs \<Longrightarrow> memchr (xs @ c # ys) c = Some (length xs)"
  by (induction xs) auto

text \<open>The fallback loop finds the first occurrence at or after \<open>p\<close>, if there is none before.\<close>

lemma occurs_at_hd:
  "needle \<noteq> [] \<Longrightarrow> occurs_at needle xs k \<Longrightarrow> k < length xs \<and> xs ! k = hd needle \<and> k + length needle \<le> length xs"
proof -
  assume a: "needle \<noteq> []" "occurs_at needle xs k"
  then have e: "take (length needle) (drop k xs) = needle" by (simp add: occurs_at_def)
  have "length needle \<le> length (drop k xs)"
    by (metis e length_take min.cobounded1 nat_le_linear min.absorb_iff1 min.commute)
  moreover have "0 < length needle" using a(1) by simp
  ultimately have l: "k < length xs" "k + length needle \<le> length xs" unfolding length_drop by linarith+
  moreover have "hd needle = hd (drop k xs)" using a(1) e by (metis hd_take length_greater_0_conv)
  ultimately show ?thesis using l by (auto simp: hd_drop_conv_nth)
qed

lemma memmem_loop_first:
  assumes "needle \<noteq> []" "length needle \<le> length h" "l = length h - length needle"
    "\<forall>j<p. \<not> occurs_at needle h j" "p \<le> l + 1"
  shows "memmem_loop h needle p l = memmem h needle"
  using assms
proof (induction h needle p l rule: memmem_loop.induct)
  case (1 h needle p l)
  have none: "memmem h needle = None" if "\<And>j. p \<le> j \<Longrightarrow> j \<le> l \<Longrightarrow> \<not> occurs_at needle h j"
  proof -
    have "\<not> occurs_at needle h j" for j
    proof
      assume o: "occurs_at needle h j"
      then have "j + length needle \<le> length h" using occurs_at_hd "1.prems"(1) by blast
      then have "j \<le> l" using "1.prems"(3) by simp
      with o that "1.prems"(4) show False by (metis not_le)
    qed
    then show ?thesis using memmem_first [OF "1.prems"(1), of h] by (auto split: option.splits)
  qed
  let ?w = "take (l + 1 - p) (drop p h)"
  have "0 < length needle" using "1.prems"(1) by simp
  then have "l + 1 \<le> length h" using "1.prems"(2,3) by linarith
  then have w: "length ?w = l + 1 - p" "\<And>i. i < l + 1 - p \<Longrightarrow> ?w ! i = h ! (p + i)" by auto
  show ?case
  proof (cases "memchr ?w (hd needle)")
    case None
    then have nin: "hd needle \<notin> set ?w" by (simp add: memchr_None)
    have "\<not> occurs_at needle h j" if j: "p \<le> j" "j \<le> l" for j
    proof
      assume "occurs_at needle h j"
      then have "h ! j = hd needle" using occurs_at_hd "1.prems"(1) by blast
      then have "?w ! (j - p) = hd needle" "j - p < length ?w"
        using w(1) w(2) [of "j - p"] j by auto
      with nin show False by (metis nth_mem)
    qed
    then show ?thesis using none None by (simp add: memmem_loop.simps [of h needle p l])
  next
    case (Some k)
    have k: "k < length ?w" "?w ! k = hd needle" "hd needle \<notin> set (take k ?w)"
      using memchr_less [OF Some] by auto
    have kl: "p + k \<le> l" using k(1) unfolding w(1) by linarith
    have before: "\<forall>j<p + k. \<not> occurs_at needle h j"
    proof (intro allI impI notI)
      fix j assume j: "j < p + k" "occurs_at needle h j"
      then have "p \<le> j" using "1.prems"(4) not_le by blast
      have "h ! j = hd needle" using occurs_at_hd "1.prems"(1) j(2) by blast
      then have "?w ! (j - p) = hd needle" using w(2) [of "j - p"] kl j(1) \<open>p \<le> j\<close> by simp
      moreover have "j - p < k" using j(1) \<open>p \<le> j\<close> by linarith
      ultimately have "hd needle \<in> set (take k ?w)"
        using k(1) by (auto simp: in_set_conv_nth intro!: exI [of _ "j - p"])
      with k(3) show False by blast
    qed
    show ?thesis
    proof (cases "occurs_at needle h (p + k)")
      case True
      then show ?thesis
        using memmem_unique [OF "1.prems"(1) True before] Some
        by (simp add: memmem_loop.simps [of h needle p l] occurs_at_def Let_def)
    next
      case no: False
      then have b': "\<forall>j<p + k + 1. \<not> occurs_at needle h j" using before by (auto simp: less_Suc_eq)
      show ?thesis
      proof (cases "p + k + 1 > l")
        case True
        then have "memmem h needle = None" using none b' by (meson le_less_trans)
        then show ?thesis using True no Some
          by (simp add: memmem_loop.simps [of h needle p l] occurs_at_def Let_def)
      next
        case False
        then show ?thesis
          using "1.IH" [OF Some refl _ _ "1.prems"(1-3) b'] no Some
          by (simp add: memmem_loop.simps [of h needle p l] occurs_at_def Let_def)
      qed
    qed
  qed
qed

text \<open>A position where a line starts: the beginning, or just after a newline.\<close>

definition line_start :: "string \<Rightarrow> nat \<Rightarrow> bool" where
  "line_start h i \<longleftrightarrow> i = 0 \<or> (i < length h \<and> h ! (i - 1) = NL)"

lemma line_start_Suc:
  assumes "memchr h NL = Some k" "i > 0"
  shows "line_start h i \<longleftrightarrow> k + 1 \<le> i \<and> i < length h \<and> line_start (drop (k + 1) h) (i - (k + 1))"
proof -
  have k: "k < length h" "h ! k = NL" "NL \<notin> set (take k h)" using memchr_less [OF assms(1)] by auto
  have "h ! (i - 1) \<noteq> NL" if "i \<le> k" "0 < i"
  proof
    assume nl: "h ! (i - 1) = NL"
    have "i - 1 < k" using that by simp
    then have "h ! (i - 1) \<in> set (take k h)" using k(1) by (auto simp: in_set_conv_nth intro!: exI [of _ "i - 1"])
    with nl k(3) show False by simp
  qed
  moreover have "drop (k + 1) h ! (i - (k + 1) - 1) = h ! (i - 1)" if "k + 1 < i" "i < length h"
  proof -
    have "k + 1 + (i - (k + 1) - 1) = i - 1" using that by linarith
    then show ?thesis using that by simp
  qed
  ultimately show ?thesis
  proof (cases "i \<le> k")
    case False
    then show ?thesis
      using assms(2) k(1,2) \<open>k + 1 < i \<Longrightarrow> i < length h \<Longrightarrow> drop (k + 1) h ! (i - (k + 1) - 1) = h ! (i - 1)\<close>
      by (cases "i = k + 1") (auto simp: line_start_def)
  qed (use assms(2) in \<open>simp add: line_start_def\<close>)
qed

lemma find_line_first:
  assumes "NUL \<notin> set needle" "needle \<noteq> []"
  shows "case find_str_at_start_of_line h needle of
     Some r \<Rightarrow> \<exists>i. line_start h i \<and> r = drop i h \<and> prefix needle r \<and>
       (\<forall>j<i. line_start h j \<longrightarrow> \<not> prefix needle (drop j h))
   | None \<Rightarrow> \<forall>i. line_start h i \<longrightarrow> \<not> prefix needle (drop i h)"
  using assms
proof (induction h needle rule: find_str_at_start_of_line.induct)
  case (1 h needle)
  note pre = strncmp_prefix [OF "1.prems"(1), of h]
  show ?case
  proof (cases "prefix needle h")
    case True
    then show ?thesis
      using pre by (simp add: find_str_at_start_of_line.simps [of h needle] line_start_def exI [of _ 0])
  next
    case no: False
    show ?thesis
    proof (cases "memchr h NL")
      case None
      then have "\<not> line_start h i" if "i > 0" for i
        using that by (auto simp: line_start_def memchr_None dest: nth_mem)
          (metis One_nat_def Suc_pred diff_less less_trans nth_mem zero_less_one)
      then show ?thesis
        using None no pre by (auto simp: find_str_at_start_of_line.simps [of h needle] gr0_conv_Suc)
          (metis drop0 not0_implies_Suc zero_less_Suc)
    next
      case (Some k)
      let ?h = "drop (k + 1) h"
      have ls: "line_start h i \<longleftrightarrow> k + 1 \<le> i \<and> i < length h \<and> line_start ?h (i - (k + 1))" if "i > 0" for i
        by (rule line_start_Suc [OF Some that])
      have shift: "prefix needle (drop i h) \<longleftrightarrow> prefix needle (drop (i - (k + 1)) ?h)" if "k + 1 \<le> i" for i
        using that by simp
      show ?thesis
      proof (cases "?h = []")
        case True
        then have "\<not> line_start h i" if "i > 0" for i using that ls by auto
        then have "\<forall>i. line_start h i \<longrightarrow> \<not> prefix needle (drop i h)" using no by (metis drop0 gr0I)
        then show ?thesis
          using True Some no pre by (simp add: find_str_at_start_of_line.simps [of h needle] Let_def)
      next
        case ne: False
        have eq: "find_str_at_start_of_line h needle = find_str_at_start_of_line ?h needle"
          using ne Some no pre by (simp add: find_str_at_start_of_line.simps [of h needle] Let_def)
        have IH: "case find_str_at_start_of_line ?h needle of
            Some r \<Rightarrow> \<exists>i. line_start ?h i \<and> r = drop i ?h \<and> prefix needle r \<and>
              (\<forall>j<i. line_start ?h j \<longrightarrow> \<not> prefix needle (drop j ?h))
          | None \<Rightarrow> \<forall>i. line_start ?h i \<longrightarrow> \<not> prefix needle (drop i ?h)"
          using "1.IH" [OF _ Some refl ne "1.prems"] no pre by blast
        show ?thesis
        proof (cases "find_str_at_start_of_line ?h needle")
          case None
          then have "\<forall>i. line_start h i \<longrightarrow> \<not> prefix needle (drop i h)"
            using IH ls shift no by (metis (no_types, lifting) drop0 gr0I option.simps(4))
          then show ?thesis using None eq by simp
        next
          case (Some r)
          then obtain i where i: "line_start ?h i" "r = drop i ?h" "prefix needle r"
              "\<And>j. j < i \<Longrightarrow> line_start ?h j \<Longrightarrow> \<not> prefix needle (drop j ?h)"
            using IH by auto
          have "i + (k + 1) < length h"
          proof -
            have "r \<noteq> []" using i(3) "1.prems"(2) by auto
            then show ?thesis using i(2) by simp
          qed
          then have "line_start h (i + (k + 1))" using ls [of "i + (k + 1)"] i(1) by simp
          moreover have "\<not> prefix needle (drop j h)" if "j < i + (k + 1)" "line_start h j" for j
          proof (cases "j = 0")
            case False
            then have "k + 1 \<le> j" "line_start ?h (j - (k + 1))" using ls [of j] that(2) by auto
            moreover have "j - (k + 1) < i" using that(1) calculation(1) by linarith
            ultimately have "\<not> prefix needle (drop (j - (k + 1)) ?h)" by (intro i(4))
            then show ?thesis by (subst shift [OF \<open>k + 1 \<le> j\<close>])
          qed (use no in simp)
          moreover have "r = drop (i + (k + 1)) h" by (simp add: i(2) add.commute)
          ultimately have "\<exists>n. line_start h n \<and> r = drop n h \<and> prefix needle r \<and>
              (\<forall>j<n. line_start h j \<longrightarrow> \<not> prefix needle (drop j h))"
            using i(3) by blast
          then show ?thesis using Some eq by simp
        qed
      qed
    qed
  qed
qed

lemma eq_replicate_iff: "length xs = n \<Longrightarrow> xs = replicate n z \<longleftrightarrow> (\<forall>x\<in>set xs. x = z)"
  by (metis in_set_replicate replicate_eqI)

lemma fast_mem_is_zero_iff: "fast_mem_is_zero mem \<longleftrightarrow> (\<forall>b\<in>set mem. b = 0)"
proof (induction mem rule: fast_mem_is_zero.induct)
  case (1 mem)
  define z :: bytes where "z = replicate 32 0"
  have z: "length z = 32" "\<And>n. n \<le> 32 \<Longrightarrow> take n z = replicate n 0" unfolding z_def by (simp_all only: length_replicate take_replicate min.absorb1)
  have cmp: "memcmp mem z n = 0 \<longleftrightarrow> (\<forall>b\<in>set (take n mem). b = 0)" if "n \<le> length mem" "n \<le> 32" for n
    using memcmp_zero_iff [of n mem z] eq_replicate_iff [of "take n mem" n 0] that z by simp
  note unf = fast_mem_is_zero.simps [of mem, folded z_def]
  show ?case
  proof (cases "length mem \<ge> 32")
    case True
    have "set mem = set (take 32 mem) \<union> set (drop 32 mem)" by (metis append_take_drop_id set_append)
    then show ?thesis using True "1.IH" [OF True, folded z_def] cmp [of 32] unf by auto
  next
    case False
    then show ?thesis using cmp [of "length mem"] unf by auto
  qed
qed

lemma tor_strreplacechar_map: "tor_strreplacechar s c r = map (\<lambda>d. if d = c then r else d) s"
proof (induction s c r rule: tor_strreplacechar.induct)
  case (1 s c r)
  show ?case
  proof (cases "memchr s c")
    case None
    then have "c \<notin> set s" by (simp add: memchr_None)
    then have "map (\<lambda>d. if d = c then r else d) s = s" by (auto intro: map_idI)
    then show ?thesis using None by (simp add: tor_strreplacechar.simps [of s])
  next
    case (Some k)
    have k: "k < length s" "s ! k = c" "c \<notin> set (take k s)" using memchr_less [OF Some] by auto
    let ?f = "\<lambda>d. if d = c then r else d"
    have "map ?f s = map ?f (take k s @ s ! k # drop (Suc k) s)"
      using nth_eq_take_drop [OF k(1)] by simp
    also have "\<dots> = map ?f (take k s) @ r # map ?f (drop (Suc k) s)" using k(2) by simp
    also have "map ?f (take k s) = take k s" using k(3) by (auto intro: map_idI)
    finally show ?thesis using Some "1.IH" [OF Some] by (simp add: tor_strreplacechar.simps [of s])
  qed
qed

lemma tor_strstrip_filter: "tor_strstrip s strip = filter (\<lambda>c. c \<notin> set strip) s"
  by (induction s strip rule: tor_strstrip.induct) (auto simp: memchr_None)

section \<open>Properties\<close>

text \<open>The marks are the encodings of \<open>U+FEFF\<close> and \<open>U+FFFE\<close>.\<close>

lemma encode_marks: "utf8_encode 0xFEFF = [0xEF, 0xBB, 0xBF]" "utf8_encode 0xFFFE = [0xEF, 0xBF, 0xBE]"
  by (simp_all add: utf8_encode_def)

lemma byte_eq_iff: "k < 256 \<Longrightarrow> (of_nat k :: u8) = w \<longleftrightarrow> k = unat w"
  using unat_byte by auto

lemma encode_head: "\<exists>k bs. utf8_encode c = of_nat k # bs \<and>
    k = (if c < 0x80 then c else if c < 0x800 then 0xC0 + c div 64 else if c < 0x10000 then 0xE0 + c div 4096
         else 0xF0 + c div 262144)"
  by (auto simp: utf8_encode_def simp del: of_nat_add)

text \<open>An encoding that starts with the byte \<open>0xEF\<close> has three bytes, from which the code point is read off.\<close>

lemma three_bytes_from_EF:
  assumes "scalar_value c" "utf8_encode c @ r = 0xEF # y # z # t"
  shows "c = 61440 + (unat y - 128) * 64 + (unat z - 128)"
proof -
  have "c \<le> 0x10FFFF" using assms(1) by (simp add: scalar_value_def)
  then have d: "c div 262144 \<le> 4" using div_le_mono [of c "0x10FFFF" 262144] by simp
  obtain k bs where k: "utf8_encode c = of_nat k # bs"
    "k = (if c < 0x80 then c else if c < 0x800 then 0xC0 + c div 64 else if c < 0x10000 then 0xE0 + c div 4096
          else 0xF0 + c div 262144)" using encode_head [of c] by blast
  have "k < 256"
  proof -
    have "c < 0x800 \<Longrightarrow> c div 64 < 32" "c < 0x10000 \<Longrightarrow> c div 4096 < 16" by simp_all
    then show ?thesis unfolding k(2) using d by (cases "c < 0x800"; cases "c < 0x10000") auto
  qed
  moreover have "(of_nat k :: u8) = 0xEF" using assms(2) unfolding k(1) by (simp only: append_Cons list.inject)
  ultimately have k': "k = 239" using byte_eq_iff [of k "0xEF"] by simp
  have r3: "0x800 \<le> c" "c < 0x10000" "c div 4096 = 15"
  proof -
    have "c < 0x800 \<Longrightarrow> c div 64 < 32" by simp
    then show "0x800 \<le> c" "c < 0x10000" "c div 4096 = 15" using k(2) k' d by (auto split: if_splits)
  qed
  then have e: "utf8_encode c = [of_nat (0xE0 + c div 4096), of_nat (0x80 + c div 64 mod 64), of_nat (0x80 + c mod 64)]"
    by (simp add: utf8_encode_def del: of_nat_add)
  have m: "c div 64 mod 64 < 64" "c mod 64 < 64" by simp_all
  have "(of_nat (0x80 + c div 64 mod 64) :: u8) = y" "(of_nat (0x80 + c mod 64) :: u8) = z"
    using assms(2) unfolding e by (simp_all only: append_Cons list.inject)
  then have b: "0x80 + c div 64 mod 64 = unat y" "0x80 + c mod 64 = unat z"
    using byte_eq_iff [of "0x80 + c div 64 mod 64" y] byte_eq_iff [of "0x80 + c mod 64" z] m by simp_all
  have "c = c div 4096 * 4096 + c div 64 mod 64 * 64 + c mod 64"
  proof -
    have "c div 64 = c div 4096 * 64 + c div 64 mod 64" using div_mult_mod_eq [of "c div 64" 64] by (simp add: div_mult2_eq [symmetric])
    then show ?thesis using div_mult_mod_eq [of c 64] by linarith
  qed
  then show ?thesis unfolding r3(3) b [symmetric] by simp
qed

lemma mark_first:
  assumes "list_all scalar_value cps" "take n s = concat (map utf8_encode cps)" "mark = 0xFEFF \<or> mark = 0xFFFE"
  shows "3 \<le> n \<and> take 3 s = utf8_encode mark \<longleftrightarrow> cps \<noteq> [] \<and> hd cps = mark"
proof
  assume m: "3 \<le> n \<and> take 3 s = utf8_encode mark"
  define y z where "y = utf8_encode mark ! 1" and "z = utf8_encode mark ! 2"
  have yz: "utf8_encode mark = [0xEF, y, z]" "mark = 61440 + (unat y - 128) * 64 + (unat z - 128)"
    using assms(3) by (elim disjE; simp add: y_def z_def encode_marks)+
  have "take 3 (take n s) = [0xEF, y, z]" using m yz(1) by (simp add: min_def)
  then obtain t where t: "concat (map utf8_encode cps) = 0xEF # y # z # t"
    unfolding assms(2) by (metis append_Cons append_Nil append_take_drop_id)
  then obtain c rest where "cps = c # rest" by (cases cps) auto
  then show "cps \<noteq> [] \<and> hd cps = mark"
    using three_bytes_from_EF [of c "concat (map utf8_encode rest)" y z t] t assms(1) yz(2) by simp
next
  assume "cps \<noteq> [] \<and> hd cps = mark"
  then obtain rest where t: "take n s = utf8_encode mark @ rest" using assms(2) by (cases cps) auto
  have l: "length (utf8_encode mark) = 3" using assms(3) by (auto simp: encode_marks)
  then have "3 \<le> length (take n s)" by (simp add: t)
  then have n: "3 \<le> n" by simp
  then have "take 3 s = take 3 (take n s)" by simp
  then show "3 \<le> n \<and> take 3 s = utf8_encode mark" using n t l by simp
qed

text \<open>C36: \<open>string_is_utf8\<close> accepts a buffer exactly when it is the UTF-8 encoding of a sequence
  of Unicode scalar values: no overlong form, no surrogate, nothing above \<open>U+10FFFF\<close>, no
  truncated or stray byte is accepted, and every proper encoding is.  \<open>string_is_utf8_no_bom\<close> accepts exactly those
  whose sequence does not begin with the byte order mark \<open>U+FEFF\<close> or with \<open>U+FFFE\<close>, its image with the bytes swapped.\<close>

theorem utf8_validator_exact:
  assumes "len \<le> length s"
  shows "(string_is_utf8 (Some s) len \<longleftrightarrow>
      (\<exists>cps. list_all scalar_value cps \<and> take len s = concat (map utf8_encode cps))) \<and>
    (string_is_utf8_no_bom (Some s) len \<longleftrightarrow>
      (\<exists>cps. list_all scalar_value cps \<and> take len s = concat (map utf8_encode cps) \<and>
         (cps = [] \<or> hd cps \<notin> {0xFEFF, 0xFFFE})))"
proof -
  have u: "string_is_utf8 (Some s) len \<longleftrightarrow>
      (\<exists>cps. list_all scalar_value cps \<and> take len s = concat (map utf8_encode cps))"
    using assms utf8_loop_encode utf8_loop_decode by (auto simp: string_is_utf8_def)
  have "string_is_utf8_no_bom (Some s) len \<longleftrightarrow> string_is_utf8 (Some s) len \<and>
      \<not> (3 \<le> len \<and> take 3 s = utf8_encode 0xFEFF) \<and> \<not> (3 \<le> len \<and> take 3 s = utf8_encode 0xFFFE)"
    by (auto simp: string_is_utf8_no_bom_def encode_marks)
  then show ?thesis using u mark_first [of _ len s] by blast
qed

theorem utf8_validator_exact_witness:
  "string_is_utf8 (Some [0xEF, 0xBB, 0xBF, 0x41, 0xFF]) 4 \<and> \<not> string_is_utf8_no_bom (Some [0xEF, 0xBB, 0xBF, 0x41, 0xFF]) 4"
proof -
  have "list_all scalar_value [0xFEFF, 0x41] \<and>
      take 4 [0xEF, 0xBB, 0xBF, 0x41, 0xFF] = concat (map utf8_encode [0xFEFF, 0x41])"
    by (simp add: scalar_value_def utf8_encode_def)
  then have "\<exists>cps. list_all scalar_value cps \<and>
      take 4 [0xEF, 0xBB, 0xBF, 0x41, 0xFF] = concat (map utf8_encode cps)" by blast
  moreover have "\<not> string_is_utf8_no_bom (Some [0xEF, 0xBB, 0xBF, 0x41, 0xFF]) 4"
    by (simp add: string_is_utf8_no_bom_def)
  ultimately show ?thesis using utf8_validator_exact [of 4 "[0xEF, 0xBB, 0xBF, 0x41, 0xFF]"] by simp
qed

text \<open>\<open>tor_memmem\<close> finds the first occurrence of a non-empty needle, and the portable
  loop for platforms without \<open>memmem\<close> computes the same; \<open>find_str_at_start_of_line\<close> finds the
  first line that starts with the needle, and \<open>NULL\<close> only if there is none.\<close>

theorem substring_search:
  assumes "needle \<noteq> []" "NUL \<notin> set line" "line \<noteq> []"
  shows "tor_memmem_fallback h needle = tor_memmem h needle \<and>
    (\<forall>k. tor_memmem h needle = Some (Some k) \<longleftrightarrow>
       occurs_at needle h k \<and> (\<forall>j<k. \<not> occurs_at needle h j)) \<and>
    (case find_str_at_start_of_line text line of
       Some r \<Rightarrow> \<exists>i. line_start text i \<and> r = drop i text \<and> prefix line r \<and>
         (\<forall>j<i. line_start text j \<longrightarrow> \<not> prefix line (drop j text))
     | None \<Rightarrow> \<forall>i. line_start text i \<longrightarrow> \<not> prefix line (drop i text))"
proof (intro conjI allI)
  show "tor_memmem_fallback h needle = tor_memmem h needle"
  proof (cases "length needle > length h")
    case True
    then have "\<not> occurs_at needle h k" for k using occurs_at_hd [OF assms(1), of h k] by auto
    then have "memmem h needle = None" using memmem_first [OF assms(1), of h] by (auto split: option.splits)
    then show ?thesis using assms(1) True by (simp add: tor_memmem_def tor_memmem_fallback_def)
  next
    case False
    then show ?thesis
      using memmem_loop_first [OF assms(1), of h "length h - length needle" 0] assms(1)
      by (simp add: tor_memmem_def tor_memmem_fallback_def)
  qed
  show "tor_memmem h needle = Some (Some k) \<longleftrightarrow>
      occurs_at needle h k \<and> (\<forall>j<k. \<not> occurs_at needle h j)" for k
    using memmem_first [OF assms(1), of h] memmem_unique [OF assms(1), of h k] assms(1)
    by (auto simp: tor_memmem_def)
  show "case find_str_at_start_of_line text line of
       Some r \<Rightarrow> \<exists>i. line_start text i \<and> r = drop i text \<and> prefix line r \<and>
         (\<forall>j<i. line_start text j \<longrightarrow> \<not> prefix line (drop j text))
     | None \<Rightarrow> \<forall>i. line_start text i \<longrightarrow> \<not> prefix line (drop i text)"
    by (rule find_line_first [OF assms(2,3)])
qed

theorem substring_search_witness:
  "tor_memmem_fallback ''abcabd'' ''abd'' = tor_memmem ''abcabd'' ''abd'' \<and>
   tor_memmem ''abcabd'' ''abd'' = Some (Some 3)"
  using substring_search [of "''abd''" "''x''" "''abcabd''" "''y''"]
  by (simp add: tor_memmem_def)

text \<open>On NUL-free text \<open>strcmpstart\<close> and \<open>strcmpend\<close> return 0 exactly for a prefix and a
  suffix; \<open>tor_strstrip\<close> removes exactly the given characters, \<open>tor_strreplacechar\<close> replaces
  every occurrence, and \<open>fast_mem_is_zero\<close>, working in blocks of 32 bytes, tests all bytes.\<close>

theorem text_helpers:
  assumes "NUL \<notin> set s1" "NUL \<notin> set s2"
  shows "(strcmpstart s1 s2 = 0 \<longleftrightarrow> prefix s2 s1) \<and> (strcmpend s1 s2 = 0 \<longleftrightarrow> suffix s2 s1) \<and>
    tor_strstrip s1 s2 = filter (\<lambda>c. c \<notin> set s2) s1 \<and>
    tor_strreplacechar s1 c r = map (\<lambda>d. if d = c then r else d) s1 \<and>
    (fast_mem_is_zero mem \<longleftrightarrow> (\<forall>b\<in>set mem. b = 0))"
  using strncmp_prefix [OF assms(2), of s1] strcmpend_suffix [OF assms] fast_mem_is_zero_iff [of mem]
  by (simp add: strcmpstart_def tor_strstrip_filter tor_strreplacechar_map)

theorem text_helpers_witness:
  "strcmpstart ''relay'' ''re'' = 0 \<and> strcmpend ''relay'' ''re'' \<noteq> 0 \<and> fast_mem_is_zero (replicate 33 0)"
proof -
  have "\<forall>b\<in>set (replicate 33 (0 :: u8)). b = 0" by simp
  moreover have "prefix ''re'' ''relay''" "\<not> suffix ''re'' ''relay''"
    by (simp_all add: suffix_def append_eq_Cons_conv)
  ultimately show ?thesis
    using text_helpers [of "''relay''" "''re''" _ _ "replicate 33 0"] by (auto simp del: replicate.simps)
qed

end
