(* ===== verification/Smartlist_Split.thy ===== *)
theory Smartlist_Split
  imports Util_String
begin

text \<open>
  \<open>smartlist_split_string\<close> of \<open>lib/smartlist_core/smartlist_split.c\<close>.  The list it appends to
  is the list of strings; the three flags are booleans.  With an empty separator the loop
  never advances, so that not returning is the result \<open>None\<close>.
\<close>

section \<open>Definitions\<close>

record split_flags =
  SPLIT_SKIP_SPACE :: bool
  SPLIT_IGNORE_BLANK :: bool
  SPLIT_STRIP_SPACE :: bool

definition is_tab_or_space :: "char \<Rightarrow> bool" where
  "is_tab_or_space c = (c = TAB \<or> c = CHR '' '')"

text \<open>Where the current piece ends: the piece, and the text from its end on.\<close>

definition split_end :: "string option \<Rightarrow> int \<Rightarrow> int \<Rightarrow> string \<Rightarrow> string \<times> string" where
  "split_end sep max_n n cp =
     (if max_n > 0 \<and> n = max_n - 1 then (cp, [])
      else case sep of
             Some s \<Rightarrow> (case memmem cp s of Some k \<Rightarrow> (take k cp, drop k cp) | None \<Rightarrow> (cp, []))
           | None \<Rightarrow> (takeWhile (\<lambda>c. \<not> is_tab_or_space c) cp, dropWhile (\<lambda>c. \<not> is_tab_or_space c) cp))"

definition split_next :: "string option \<Rightarrow> string \<Rightarrow> string option" where
  "split_next sep end_p =
     (if end_p = [] then None
      else case sep of
             Some s \<Rightarrow> Some (drop (length s) end_p)
           | None \<Rightarrow> Some (dropWhile is_tab_or_space (drop 1 end_p)))"

definition rstrip :: "string \<Rightarrow> string" where
  "rstrip s = rev (dropWhile TOR_ISSPACE (rev s))"

partial_function (option) split_loop ::
    "string option \<Rightarrow> split_flags \<Rightarrow> int \<Rightarrow> string \<Rightarrow> int \<Rightarrow> string list \<Rightarrow> (string list \<times> int) option" where
  "split_loop sep flags max_n cp n sl =
     (let cp = (if SPLIT_SKIP_SPACE flags then dropWhile TOR_ISSPACE cp else cp);
          (piece, end_p) = split_end sep max_n n cp;
          next = split_next sep end_p;
          piece = (if SPLIT_SKIP_SPACE flags then rstrip piece else piece);
          (sl, n) = (if piece \<noteq> [] \<or> \<not> SPLIT_IGNORE_BLANK flags
                     then (sl @ [if SPLIT_STRIP_SPACE flags then tor_strstrip piece '' '' else piece], n + 1)
                     else (sl, n))
      in case next of None \<Rightarrow> Some (sl, n) | Some cp \<Rightarrow> split_loop sep flags max_n cp n sl)"

definition smartlist_split_string ::
    "string list \<Rightarrow> string \<Rightarrow> string option \<Rightarrow> split_flags \<Rightarrow> int \<Rightarrow> (string list \<times> int) option" where
  "smartlist_split_string sl str sep flags max_n = split_loop sep flags max_n str 0 sl"

section \<open>Termination\<close>

lemma length_dropWhile_less: "xs \<noteq> [] \<Longrightarrow> P (hd xs) \<Longrightarrow> length (dropWhile P xs) < length xs"
  by (cases xs) (auto simp: less_Suc_eq_le length_dropWhile_le)

lemma split_next_shorter:
  assumes "split_end sep max_n n cp = (piece, end_p)" "split_next sep end_p = Some cp'" "sep \<noteq> Some []"
  shows "length cp' < length cp"
proof -
  have le: "length end_p \<le> length cp"
    using assms(1) by (auto simp: split_end_def length_dropWhile_le split: if_splits option.splits)
  have ne: "end_p \<noteq> []" using assms(2) by (auto simp: split_next_def split: if_splits)
  show ?thesis
  proof (cases sep)
    case None
    then have "cp' = dropWhile is_tab_or_space (drop 1 end_p)" using assms(2) ne by (simp add: split_next_def)
    then have "length cp' \<le> length end_p - 1" using length_dropWhile_le [of is_tab_or_space "drop 1 end_p"] by simp
    then show ?thesis using le ne by (cases end_p) auto
  next
    case (Some s)
    then have "cp' = drop (length s) end_p" "s \<noteq> []" using assms(2,3) ne by (auto simp: split_next_def)
    then show ?thesis using le ne by (cases end_p; cases s) auto
  qed
qed

lemma split_loop_returns:
  "sep \<noteq> Some [] \<Longrightarrow> \<exists>sl' n'. split_loop sep flags max_n cp n sl = Some (sl', n')"
proof (induction "length cp" arbitrary: cp n sl rule: less_induct)
  case less
  define cp1 where "cp1 = (if SPLIT_SKIP_SPACE flags then dropWhile TOR_ISSPACE cp else cp)"
  have l1: "length cp1 \<le> length cp" by (simp add: cp1_def length_dropWhile_le)
  obtain piece end_p where e: "split_end sep max_n n cp1 = (piece, end_p)" by (cases "split_end sep max_n n cp1")
  define piece1 where "piece1 = (if SPLIT_SKIP_SPACE flags then rstrip piece else piece)"
  show ?case
  proof (cases "split_next sep end_p")
    case None
    then show ?thesis
      by (subst split_loop.simps) (simp add: e flip: cp1_def piece1_def)
  next
    case (Some cp2)
    have "length cp2 < length cp"
      using split_next_shorter [OF e Some less.prems] l1 by linarith
    from less.hyps [OF this less.prems] Some show ?thesis
      by (subst split_loop.simps) (simp add: e flip: cp1_def piece1_def)
  qed
qed

section \<open>Splitting without flags\<close>

abbreviation no_flags :: split_flags where
  "no_flags \<equiv> \<lparr>SPLIT_SKIP_SPACE = False, SPLIT_IGNORE_BLANK = False, SPLIT_STRIP_SPACE = False\<rparr>"

text \<open>The reference: cut at the first occurrence, and go on after it.\<close>

function (sequential) split_at :: "string \<Rightarrow> string \<Rightarrow> string list" where
  "split_at [] str = [str]"
| "split_at s str = (case memmem str s of
       None \<Rightarrow> [str]
     | Some k \<Rightarrow> take k str # split_at s (drop (k + length s) str))"
  by pat_completeness auto
termination
proof (relation "measure (\<lambda>(s, str). length str)", goal_cases)
  case (2 v va str k)
  then show ?case using memmem_first [of "v # va" str] by (auto split: option.splits)
qed simp

lemma split_at_simps:
  "s \<noteq> [] \<Longrightarrow> split_at s str = (case memmem str s of
       None \<Rightarrow> [str] | Some k \<Rightarrow> take k str # split_at s (drop (k + length s) str))"
proof -
  assume "s \<noteq> []"
  then obtain v va where s: "s = v # va" by (cases s) auto
  show ?thesis unfolding s by (rule split_at.simps(2))
qed

declare split_at.simps(2) [simp del]

lemma split_loop_no_flags:
  assumes "s \<noteq> []"
  shows "split_loop (Some s) no_flags 0 cp n sl =
    Some (sl @ split_at s cp, n + int (length (split_at s cp)))"
proof (induction "length cp" arbitrary: cp n sl rule: less_induct)
  case less
  show ?case
  proof (cases "memmem cp s")
    case None
    then show ?thesis using assms
      by (subst split_loop.simps) (simp add: split_end_def split_next_def split_at_simps)
  next
    case (Some k)
    have k: "k < length cp" "occurs_at s cp k" using memmem_first [OF assms, of cp] Some by auto
    let ?cp = "drop (k + length s) cp"
    have "length ?cp < length cp" using k(1) assms by (cases s) auto
    from less.hyps [OF this, of "n + 1" "sl @ [take k cp]"] show ?thesis
      using Some k(1) assms
      by (subst split_loop.simps)
        (simp add: split_end_def split_next_def split_at_simps [of s cp] add.commute)
  qed
qed

fun join_with :: "string \<Rightarrow> string list \<Rightarrow> string" where
  "join_with s [] = []"
| "join_with s [x] = x"
| "join_with s (x # y # ys) = x @ s @ join_with s (y # ys)"

lemma split_at_not_Nil: "split_at s str \<noteq> []"
  by (cases "s = []") (simp_all add: split_at_simps split: option.splits)

lemma join_with_Cons: "ys \<noteq> [] \<Longrightarrow> join_with s (x # ys) = x @ s @ join_with s ys"
  by (cases ys) simp_all

lemma occurs_in_take:
  "occurs_at s (take k str) j \<Longrightarrow> s \<noteq> [] \<Longrightarrow> k \<le> length str \<Longrightarrow> j < k \<and> occurs_at s str j"
proof -
  assume a: "occurs_at s (take k str) j" "s \<noteq> []" "k \<le> length str"
  have j: "j < k" "j + length s \<le> k" using occurs_at_hd [OF a(2,1)] a(3) by auto
  have "take (length s) (drop j (take k str)) = take (length s) (drop j str)"
    using j by (simp add: drop_take min_def)
  then show ?thesis using a(1) j by (simp add: occurs_at_def)
qed

lemma split_at_join: "s \<noteq> [] \<Longrightarrow> join_with s (split_at s str) = str"
proof (induction s str rule: split_at.induct)
  case (2 v va str)
  define s where "s = v # va"
  have s0: "s \<noteq> []" by (simp add: s_def)
  show ?case unfolding s_def [symmetric]
  proof (cases "memmem str s")
    case (Some k)
    have k: "k < length str" "take (length s) (drop k str) = s"
      using memmem_first [of s str] Some by (auto simp: occurs_at_def s_def)
    have "str = take k str @ drop k str" by simp
    also have "drop k str = s @ drop (k + length s) str"
      using append_take_drop_id [of "length s" "drop k str"] k(2) by (simp add: add.commute)
    finally have "take k str @ s @ drop (k + length s) str = str" by simp
    moreover have "join_with s (split_at s (drop (k + length s) str)) = drop (k + length s) str"
      using "2.IH" [folded s_def, OF Some] by (simp add: s_def)
    ultimately show "join_with s (split_at s str) = str"
      using Some by (simp add: split_at_simps [OF s0, of str] join_with_Cons split_at_not_Nil)
  qed (simp add: split_at_simps [OF s0])
qed simp

lemma split_at_pieces: "s \<noteq> [] \<Longrightarrow> x \<in> set (split_at s str) \<Longrightarrow> \<not> occurs_at s x j"
proof (induction s str rule: split_at.induct)
  case (2 v va str)
  define s where "s = v # va"
  have s0: "s \<noteq> []" by (simp add: s_def)
  show ?case unfolding s_def [symmetric]
  proof (cases "memmem str s")
    case None
    then show "\<not> occurs_at s x j"
      using "2.prems"(2) memmem_first [of s str] by (auto simp: split_at_simps s_def)
  next
    case (Some k)
    have k: "k < length str" "\<forall>j<k. \<not> occurs_at s str j"
      using memmem_first [of s str] Some by (auto simp: s_def)
    then have "\<not> occurs_at s (take k str) j" using occurs_in_take [of s k str j] by (auto simp: s_def)
    moreover have "x = take k str \<or> x \<in> set (split_at s (drop (k + length s) str))"
      using "2.prems"(2) Some by (simp add: split_at_simps s_def)
    ultimately show "\<not> occurs_at s x j"
      using "2.IH" [folded s_def, OF Some] by (auto simp: s_def)
  qed
qed simp

lemma split_loop_empty_sep:
  assumes "split_loop (Some []) no_flags 0 cp n sl = Some r"
  shows "cp = []"
proof -
  have "sep = Some [] \<and> flags = no_flags \<and> max_n = 0 \<longrightarrow> cp = []"
    if "split_loop sep flags max_n cp n sl = Some r" for sep flags max_n
  proof (rule split_loop.raw_induct [where P = "\<lambda>sep flags max_n cp n sl r.
        sep = Some [] \<and> flags = no_flags \<and> max_n = 0 \<longrightarrow> cp = []", OF _ that], intro impI, elim conjE)
    fix f :: "string option \<Rightarrow> split_flags \<Rightarrow> int \<Rightarrow> string \<Rightarrow> int \<Rightarrow> string list \<Rightarrow> (string list \<times> int) option"
      and sep flags max_n cp n sl r
    assume IH: "\<And>sep flags max_n cp n sl r. f sep flags max_n cp n sl = Some r \<Longrightarrow>
        sep = Some [] \<and> flags = no_flags \<and> max_n = 0 \<longrightarrow> cp = []"
      and eq: "(let cp = if SPLIT_SKIP_SPACE flags then dropWhile TOR_ISSPACE cp else cp;
          (piece, end_p) = split_end sep max_n n cp;
          next = split_next sep end_p;
          piece = if SPLIT_SKIP_SPACE flags then rstrip piece else piece;
          (sl, n) = if piece \<noteq> [] \<or> \<not> SPLIT_IGNORE_BLANK flags
                     then (sl @ [if SPLIT_STRIP_SPACE flags then tor_strstrip piece '' '' else piece], n + 1)
                     else (sl, n)
        in case next of None \<Rightarrow> Some (sl, n) | Some cp \<Rightarrow> f sep flags max_n cp n sl) = Some r"
      and c: "sep = Some []" "flags = no_flags" "max_n = 0"
    show "cp = []"
    proof (cases cp)
      case (Cons x xs)
      then have "f (Some []) no_flags 0 cp (n + 1) (sl @ [[]]) = Some r"
        using eq by (simp add: c split_end_def split_next_def)
      from IH [OF this] show ?thesis by simp
    qed simp
  qed
  with assms show ?thesis by blast
qed

section \<open>Properties\<close>

text \<open>The function \<open>smartlist_split_string\<close> returns for every separator but the empty one, for all flags
  and limits (with an empty separator and no flags it never returns on non-empty text).  Without flags and
  limit it appends the pieces whose concatenation with the separator between them is the
  original text, no piece contains the separator, and the count it returns is their number.\<close>

theorem split_string_correct:
  assumes "sep \<noteq> Some []" "s \<noteq> []"
  shows "(\<exists>sl' n. smartlist_split_string sl str sep flags max_n = Some (sl', n)) \<and>
    (str \<noteq> [] \<longrightarrow> smartlist_split_string sl str (Some []) no_flags 0 = None) \<and>
    (\<exists>pieces. smartlist_split_string sl str (Some s) no_flags 0 = Some (sl @ pieces, int (length pieces)) \<and>
       join_with s pieces = str \<and> (\<forall>x\<in>set pieces. \<forall>j. \<not> occurs_at s x j))"
proof (intro conjI)
  show "\<exists>sl' n. smartlist_split_string sl str sep flags max_n = Some (sl', n)"
    using split_loop_returns [OF assms(1)] by (simp add: smartlist_split_string_def)
  show "str \<noteq> [] \<longrightarrow> smartlist_split_string sl str (Some []) no_flags 0 = None"
    using split_loop_empty_sep [of str 0 sl]
    by (cases "split_loop (Some []) no_flags 0 str 0 sl") (auto simp: smartlist_split_string_def)
  show "\<exists>pieces. smartlist_split_string sl str (Some s) no_flags 0 = Some (sl @ pieces, int (length pieces)) \<and>
       join_with s pieces = str \<and> (\<forall>x\<in>set pieces. \<forall>j. \<not> occurs_at s x j)"
    using split_loop_no_flags [OF assms(2), of str 0 sl] split_at_join [OF assms(2), of str]
      split_at_pieces [OF assms(2)]
    by (auto simp: smartlist_split_string_def intro!: exI [of _ "split_at s str"])
qed

theorem split_string_correct_witness:
  "\<exists>pieces. smartlist_split_string [] ''a,b,,c'' (Some '','') no_flags 0 = Some ([] @ pieces, int (length pieces)) \<and>
     join_with '','' pieces = ''a,b,,c''"
  using split_string_correct [of "Some '',''" "'',''" "[]" "''a,b,,c''" no_flags 0] by auto

end
