(* ===== verification/Bin_Ascii.thy ===== *)
theory Bin_Ascii
  imports C_Strings
begin

text \<open>
  The text encodings of \<open>lib/encoding/binascii.c\<close>: base 16, base 32 and base 64.  A function
  that fills a buffer of \<open>destlen\<close> bytes returns the whole buffer as it is left, zero bytes
  included, together with the C return value.  A failing assertion and the return value \<open>-1\<close>
  are separate results; what a failing call leaves in the buffer is not represented.
\<close>

section \<open>Definitions\<close>

definition SIZE_T_CEILING :: nat where "SIZE_T_CEILING = 2 ^ 63 - 1 - 16"
definition C_INT_MAX :: nat where "C_INT_MAX = 2147483647"

definition CEIL_DIV :: "nat \<Rightarrow> nat \<Rightarrow> nat" where
  "CEIL_DIV a b = (a + (b - 1)) div b"

text \<open>A buffer of \<open>destlen\<close> bytes that was zeroed and then written from its start.\<close>

definition buffer :: "nat \<Rightarrow> string \<Rightarrow> string" where
  "buffer destlen written = written @ replicate (destlen - length written) (char_of (0 :: nat))"

definition byte_buffer :: "nat \<Rightarrow> bytes \<Rightarrow> bytes" where
  "byte_buffer destlen written = written @ replicate (destlen - length written) 0"

subsection \<open>Base 16\<close>

definition BASE16_BUFSIZE :: "nat \<Rightarrow> nat" where "BASE16_BUFSIZE n = n * 2 + 1"

fun base16_loop :: "bytes \<Rightarrow> string" where
  "base16_loop [] = []"
| "base16_loop (b # bs) =
     ''0123456789ABCDEF'' ! unat (drop_bit 4 b) # ''0123456789ABCDEF'' ! unat (b AND 0xf) # base16_loop bs"

definition base16_encode :: "nat \<Rightarrow> bytes \<Rightarrow> string outcome" where
  "base16_encode destlen src =
     (let srclen = length src
      in if \<not> srclen < SIZE_T_CEILING div 2 - 1 then Assertion_failed
         else if \<not> destlen \<ge> BASE16_BUFSIZE srclen then Assertion_failed
         else if \<not> destlen < SIZE_T_CEILING then Assertion_failed
         else Done (buffer destlen (base16_loop src)))"

definition hex_str :: "bytes \<Rightarrow> string outcome" where
  "hex_str from =
     (let fromlen = (if length from > (65 - 1) div 2 then (65 - 1) div 2 else length from)
      in base16_encode 65 (take fromlen from))"

fun base16_decode_loop :: "string \<Rightarrow> bytes option" where
  "base16_decode_loop [] = Some []"
| "base16_decode_loop [c] = None"
| "base16_decode_loop (c # d # s) =
     (let v1 = hex_decode_digit c; v2 = hex_decode_digit d
      in if v1 < 0 \<or> v2 < 0 then None
         else map_option (\<lambda>bs. word_of_int (push_bit 4 v1 OR v2) # bs) (base16_decode_loop s))"

definition base16_decode :: "nat \<Rightarrow> string \<Rightarrow> (bytes \<times> nat) outcome" where
  "base16_decode destlen src =
     (let srclen = length src
      in if srclen mod 2 \<noteq> 0 then Minus_1
         else if destlen < srclen div 2 \<or> destlen > C_INT_MAX then Minus_1
         else case base16_decode_loop src of
                None \<Rightarrow> Minus_1
              | Some bs \<Rightarrow> if \<not> length bs \<le> destlen then Assertion_failed
                           else Done (byte_buffer destlen bs, length bs))"

subsection \<open>Base 32\<close>

definition BASE32_CHARS :: string where
  "BASE32_CHARS = ''abcdefghijklmnopqrstuvwxyz234567''"

definition BASE32_NOPAD_BUFSIZE :: "nat \<Rightarrow> nat" where
  "BASE32_NOPAD_BUFSIZE n = CEIL_DIV (n * 8) 5 + 1"

definition base32_encoded_size :: "nat \<Rightarrow> nat option" where
  "base32_encoded_size srclen =
     (if \<not> srclen < SIZE_T_CEILING div 8 then None
      else let enclen = BASE32_NOPAD_BUFSIZE srclen
           in if enclen < C_INT_MAX \<and> enclen > srclen then Some enclen else None)"

definition base32_window :: "bytes \<Rightarrow> nat \<Rightarrow> u32" where
  "base32_window src bitpos =
     (let idx = bitpos div 8;
          v = push_bit 8 (ucast (src ! idx));
          v = (if idx + 1 < length src then v + ucast (src ! (idx + 1)) else v)
      in drop_bit (11 - bitpos mod 8) v AND 0x1F)"

function base32_loop :: "bytes \<Rightarrow> nat \<Rightarrow> string" where
  "base32_loop src bitpos =
     (if bitpos < length src * 8
      then BASE32_CHARS ! unat (base32_window src bitpos) # base32_loop src (bitpos + 5)
      else [])"
  by pat_completeness auto
termination by (relation "measure (\<lambda>(src, b). length src * 8 - b)") auto

declare base32_loop.simps [simp del]

definition base32_encode :: "nat \<Rightarrow> bytes \<Rightarrow> string outcome" where
  "base32_encode destlen src =
     (case base32_encoded_size (length src) of
        None \<Rightarrow> Assertion_failed
      | Some enclen \<Rightarrow>
          if \<not> enclen \<le> destlen then Assertion_failed
          else if \<not> destlen < SIZE_T_CEILING then Assertion_failed
          else Done (buffer destlen (base32_loop src 0)))"

text \<open>A \<open>char\<close> is signed on the platforms modelled; a byte above \<open>0x7F\<close> is negative and in none of
  the ranges.\<close>

definition schar :: "char \<Rightarrow> int" where
  "schar c = (let n = (of_char c :: int) in if n \<ge> 128 then n - 256 else n)"

definition base32_digit :: "char \<Rightarrow> u8 option" where
  "base32_digit c =
     (if schar c > 0x60 \<and> schar c < 0x7B then Some (word_of_int (schar c - 0x61))
      else if schar c > 0x31 \<and> schar c < 0x38 then Some (word_of_int (schar c - 0x18))
      else if schar c > 0x40 \<and> schar c < 0x5B then Some (word_of_int (schar c - 0x41))
      else None)"

fun base32_digits :: "string \<Rightarrow> u8 list option" where
  "base32_digits [] = Some []"
| "base32_digits (c # s) =
     (case base32_digit c of None \<Rightarrow> None | Some t \<Rightarrow> map_option ((#) t) (base32_digits s))"

definition base32_byte :: "u8 list \<Rightarrow> nat \<Rightarrow> u8" where
  "base32_byte tmp bitpos =
     (let t = (\<lambda>k. tmp ! (bitpos div 5 + k))
      in if bitpos mod 40 = 0 then push_bit 3 (t 0) + drop_bit 2 (t 1)
         else if bitpos mod 40 = 8 then push_bit 6 (t 0) + push_bit 1 (t 1) + drop_bit 4 (t 2)
         else if bitpos mod 40 = 16 then push_bit 4 (t 0) + drop_bit 1 (t 1)
         else if bitpos mod 40 = 24 then push_bit 7 (t 0) + push_bit 2 (t 1) + drop_bit 3 (t 2)
         else push_bit 5 (t 0) + t 1)"

definition base32_decode :: "nat \<Rightarrow> string \<Rightarrow> (bytes \<times> nat) outcome" where
  "base32_decode destlen src =
     (let srclen = length src; nbits = (srclen * 5) div 8 * 8
      in if \<not> srclen < SIZE_T_CEILING div 5 then Assertion_failed
         else if \<not> nbits div 8 \<le> destlen then Assertion_failed
         else if \<not> destlen < SIZE_T_CEILING then Assertion_failed
         else case base32_digits src of
                None \<Rightarrow> Minus_1
              | Some tmp \<Rightarrow>
                  (let bs = map (\<lambda>i. base32_byte tmp (8 * i)) [0..<nbits div 8]
                   in Done (byte_buffer destlen bs, length bs)))"

subsection \<open>Base 64\<close>



definition base64_decode_maxsize :: "nat \<Rightarrow> nat option" where
  "base64_decode_maxsize srclen =
     (if \<not> srclen < C_INT_MAX div 3 then None else Some (CEIL_DIV (srclen * 3) 4))"


record base64_enc =
  enc_d :: string
  enc_n :: u32
  enc_linelen :: nat
  enc_n_idx :: nat














section \<open>Base 16\<close>

lemma hex_digit_roundtrip: "i < 16 \<Longrightarrow> hex_decode_digit (''0123456789ABCDEF'' ! i) = int i"
proof -
  have "list_all (\<lambda>i. hex_decode_digit (''0123456789ABCDEF'' ! i) = int i) [0..<16]" by code_simp
  then show "i < 16 \<Longrightarrow> hex_decode_digit (''0123456789ABCDEF'' ! i) = int i" by (simp add: list_all_iff del: upt_rec_numeral)
qed

lemma nybbles: "word_of_int (push_bit 4 (int (unat (drop_bit 4 b))) OR int (unat (b AND 0xf))) = (b :: u8)"
proof -
  have m: "(0xf :: u8) = mask 4" by (simp add: mask_eq_exp_minus_1)
  have lo: "unat (b AND 0xf) = unat b mod 16" unfolding m unat_and_mask by simp
  have hi: "unat (drop_bit 4 b) = unat b div 16" by (simp add: unat_drop_bit)
  have "unat (push_bit 4 (drop_bit 4 b) OR (b AND 0xf)) = unat (drop_bit 4 b) * 2 ^ 4 + unat (b AND 0xf)"
    using unat_u8_less [of b] by (intro unat_shift_or) (simp_all add: lo hi)
  also have "\<dots> = unat b" by (simp add: lo hi)
  finally have "push_bit 4 (drop_bit 4 b) OR (b AND 0xf) = b" by (simp add: unat_inj_iff)
  moreover have "word_of_int (push_bit 4 (int (unat x)) OR int (unat y)) = push_bit 4 x OR y" for x y :: u8
    by (simp add: of_int_or_eq flip: push_bit_of_int)
  ultimately show ?thesis by simp
qed

lemma base16_loop_roundtrip: "base16_decode_loop (base16_loop bs) = Some bs"
proof (induction bs)
  case (Cons b bs)
  have m: "(0xf :: u8) = mask 4" by (simp add: mask_eq_exp_minus_1)
  have "unat (b AND 0xf) < 16" unfolding m unat_and_mask by simp
  moreover have "unat (drop_bit 4 b) < 16" using unat_u8_less [of b] by (simp add: unat_drop_bit)
  ultimately show ?case
    using Cons nybbles [of b] by (simp add: hex_digit_roundtrip Let_def del: of_nat_unat)
qed simp

lemma length_base16_loop: "length (base16_loop bs) = 2 * length bs"
  by (induction bs) simp_all

text \<open>The characters of a base 16 text.\<close>

lemma base16_loop_chars: "set (base16_loop bs) \<subseteq> set ''0123456789ABCDEF''"
proof (induction bs)
  case (Cons b bs)
  have m: "(0xf :: u8) = mask 4" by (simp add: mask_eq_exp_minus_1)
  have "unat (b AND 0xf) < 16" unfolding m unat_and_mask by simp
  moreover have "unat (drop_bit 4 b) < 16" using unat_u8_less [of b] by (simp add: unat_drop_bit)
  moreover have "''0123456789ABCDEF'' ! i \<in> set ''0123456789ABCDEF''" if "i < 16" for i
    by (rule nth_mem) (use that in simp)
  ultimately show ?case using Cons by force
qed simp

section \<open>Base 64\<close>










definition wrapped :: "bool \<Rightarrow> string \<Rightarrow> base64_enc \<Rightarrow> bool" where
  "wrapped ml cs s \<longleftrightarrow> filter (\<lambda>c. c \<noteq> CHR 0x0A) (enc_d s) = cs \<and>
     length (enc_d s) = length cs + (if ml then length cs div 64 else 0) \<and>
     enc_linelen s = (if ml then length cs mod 64 else 0)"



lemma wrapped_update: "wrapped ml cs (s\<lparr>enc_n := x\<rparr>) = wrapped ml cs s"
    "wrapped ml cs (s\<lparr>enc_n_idx := y\<rparr>) = wrapped ml cs s"
  by (simp_all add: wrapped_def)






















section \<open>Base 32\<close>

text \<open>The bits of a byte string, most significant first.\<close>

definition bits_of :: "bytes \<Rightarrow> nat \<Rightarrow> bool" where
  "bits_of src k \<longleftrightarrow> k div 8 < length src \<and> bit (src ! (k div 8)) (7 - k mod 8)"

lemma bit_ucast_u8: "bit (ucast (x :: u8) :: u32) m \<longleftrightarrow> bit x m"
  by (auto simp: bit_ucast_iff dest: bit_imp_le_length)

lemma high_plus_low: "push_bit 8 (ucast (x :: u8)) + ucast (y :: u8) = (push_bit 8 (ucast x) OR ucast y :: u32)"
proof -
  have "push_bit 8 (ucast x) AND (ucast y :: u32) = 0"
    by (auto simp: bit_eq_iff bit_and_iff bit_push_bit_iff bit_ucast_u8 dest: bit_imp_le_length)
  then show ?thesis by (rule disjunctive_add_eq_or)
qed

lemma window_bit:
  assumes "bitpos div 8 < length src" "i < 5"
  shows "bit (base32_window src bitpos) (4 - i) \<longleftrightarrow> bits_of src (bitpos + i)"
proof -
  define idx where "idx = bitpos div 8"
  define r where "r = bitpos mod 8"
  have b: "bitpos = 8 * idx + r" "r < 8" by (simp_all add: idx_def r_def)
  define v :: u32 where "v = (if idx + 1 < length src then push_bit 8 (ucast (src ! idx)) + ucast (src ! (idx + 1))
      else push_bit 8 (ucast (src ! idx)))"
  have v: "bit v m \<longleftrightarrow> (if 8 \<le> m then bit (src ! idx) (m - 8) else idx + 1 < length src \<and> bit (src ! (idx + 1)) m)"
    if "m < 16" for m
    unfolding v_def high_plus_low using that
    by (auto simp: bit_or_iff bit_push_bit_iff bit_ucast_u8 dest: bit_imp_le_length)
  have m: "(0x1F :: u32) = mask 5" by (simp add: mask_eq_exp_minus_1)
  have "base32_window src bitpos = drop_bit (11 - r) v AND 0x1F"
    by (simp add: base32_window_def v_def idx_def r_def Let_def)
  then have "bit (base32_window src bitpos) (4 - i) \<longleftrightarrow> bit v (11 - r + (4 - i))"
    using assms(2) unfolding m by (auto simp: bit_and_iff bit_drop_bit_eq bit_mask_iff)
  also have "11 - r + (4 - i) = 15 - (r + i)" using b(2) assms(2) by linarith
  also have "bit v (15 - (r + i)) \<longleftrightarrow> bits_of src (bitpos + i)"
  proof (cases "r + i < 8")
    case True
    then have "(bitpos + i) div 8 = idx" "(bitpos + i) mod 8 = r + i" by (simp_all add: b(1) add.assoc)
    moreover have "8 \<le> 15 - (r + i)" "15 - (r + i) < 16" "15 - (r + i) - 8 = 7 - (r + i)" using True by linarith+
    ultimately show ?thesis using v [of "15 - (r + i)"] assms(1) by (simp add: bits_of_def flip: idx_def)
  next
    case False
    define j where "j = r + i - 8"
    have j: "r + i = 8 + j" "j < 8" using False b(2) assms(2) by (simp_all add: j_def)
    have e: "bitpos + i = 8 * (idx + 1) + j" using b(1) j(1) by simp
    have "(bitpos + i) div 8 = idx + 1" "(bitpos + i) mod 8 = j" unfolding e using j(2) by (simp_all only: div_mult_self4 mod_mult_self4) simp_all
    moreover have "15 - (r + i) = 7 - j" "7 - j < 16" "\<not> 8 \<le> 7 - j" using j by linarith+
    ultimately show ?thesis using v [of "7 - j"] by (simp add: bits_of_def)
  qed
  finally show ?thesis .
qed

lemma window_less: "unat (base32_window src bitpos) < 32"
proof -
  have m: "(0x1F :: u32) = mask 5" by (simp add: mask_eq_exp_minus_1)
  show ?thesis unfolding base32_window_def Let_def m unat_and_mask by simp
qed

lemma base32_loop_map:
  "base32_loop src b = map (\<lambda>i. BASE32_CHARS ! unat (base32_window src (b + 5 * i)))
     [0..<CEIL_DIV (length src * 8 - b) 5]"
proof (induction src b rule: base32_loop.induct)
  case (1 src b)
  show ?case
  proof (cases "b < length src * 8")
    case True
    have "CEIL_DIV (length src * 8 - b) 5 = Suc (CEIL_DIV (length src * 8 - (b + 5)) 5)"
      using True unfolding CEIL_DIV_def by (cases "b + 5 \<le> length src * 8") auto
    then have "[0..<CEIL_DIV (length src * 8 - b) 5] = 0 # map Suc [0..<CEIL_DIV (length src * 8 - (b + 5)) 5]"
      by (simp only: map_Suc_upt upt_conv_Cons zero_less_Suc)
    then show ?thesis using True "1.IH" [OF True]
      by (simp add: base32_loop.simps [of src b] o_def algebra_simps)
  next
    case False
    then show ?thesis by (simp add: base32_loop.simps [of src b] CEIL_DIV_def)
  qed
qed

lemma base32_chars_roundtrip: "i < 32 \<Longrightarrow> base32_digit (BASE32_CHARS ! i) = Some (of_nat i)"
proof -
  have "list_all (\<lambda>i. base32_digit (BASE32_CHARS ! i) = Some (of_nat i)) [0..<32]" by code_simp
  then show "i < 32 \<Longrightarrow> base32_digit (BASE32_CHARS ! i) = Some (of_nat i)"
    by (simp add: list_all_iff del: upt_rec_numeral)
qed

lemma base32_digits_map:
  "(\<And>x. x \<in> set xs \<Longrightarrow> f x < 32) \<Longrightarrow>
     base32_digits (map (\<lambda>x. BASE32_CHARS ! f x) xs) = Some (map (\<lambda>x. of_nat (f x)) xs)"
  by (induction xs) (simp_all add: base32_chars_roundtrip)

lemma small_bits: "unat (t :: u8) < 32 \<Longrightarrow> bit t n \<Longrightarrow> n < 5"
proof -
  assume a: "unat t < 32" "bit t n"
  have "take_bit 5 t = t" using a(1) by (simp add: take_bit_eq_mod unat_mod_exact flip: unat_inj_iff)
  then show ?thesis using a(2) by (metis bit_take_bit_iff)
qed

lemma or_of_sum: "a AND b = 0 \<Longrightarrow> bit (a + b) n = (bit a n \<or> bit (b :: u8) n)"
  by (simp add: disjunctive_add_eq_or bit_or_iff)

lemma or_of_sum3:
  assumes "a AND b = 0" "a AND c = 0" "b AND c = 0"
  shows "bit (a + b + c) n = (bit a n \<or> bit b n \<or> bit (c :: u8) n)"
proof -
  have "(a + b) AND c = 0"
    using assms by (auto simp: disjunctive_add_eq_or [OF assms(1)] bit_eq_iff bit_and_iff bit_or_iff)
  then show ?thesis using assms(1) by (simp add: or_of_sum)
qed

lemma disjoint_fields:
  assumes "\<And>n. bit (a :: u8) n \<Longrightarrow> \<not> bit b n"
  shows "a AND b = 0"
  using assms by (auto simp: bit_eq_iff bit_and_iff)

lemma two_fields:
  fixes x y :: u8
  assumes "\<And>n. bit y n \<Longrightarrow> n < 5" "5 \<le> a + c"
  shows "bit (push_bit a x + drop_bit c y) n = (bit (push_bit a x) n \<or> bit (drop_bit c y) n)"
proof (rule or_of_sum, rule disjoint_fields)
  fix n assume "bit (push_bit a x) n"
  then have "a \<le> n" by (simp add: bit_push_bit_iff)
  then show "\<not> bit (drop_bit c y) n" using assms(1) [of "c + n"] assms(2) by (auto simp: bit_drop_bit_eq)
qed

lemma three_fields:
  fixes x y z :: u8
  assumes "\<And>n. bit y n \<Longrightarrow> n < 5" "\<And>n. bit z n \<Longrightarrow> n < 5" "b + 5 \<le> a" "5 \<le> b + c"
  shows "bit (push_bit a x + push_bit b y + drop_bit c z) n =
    (bit (push_bit a x) n \<or> bit (push_bit b y) n \<or> bit (drop_bit c z) n)"
proof (intro or_of_sum3 disjoint_fields)
  fix n
  have x: "bit (push_bit a x) n \<Longrightarrow> a \<le> n" by (simp add: bit_push_bit_iff)
  have y: "bit (push_bit b y) n \<Longrightarrow> b \<le> n \<and> n < b + 5" using assms(1) [of "n - b"] by (auto simp: bit_push_bit_iff)
  have z: "bit (drop_bit c z) n \<Longrightarrow> c + n < 5" using assms(2) [of "c + n"] by (simp add: bit_drop_bit_eq)
  show "bit (push_bit a x) n \<Longrightarrow> \<not> bit (push_bit b y) n" using x y assms(3) by linarith
  show "bit (push_bit a x) n \<Longrightarrow> \<not> bit (drop_bit c z) n" using x z assms(3,4) by linarith
  show "bit (push_bit b y) n \<Longrightarrow> \<not> bit (drop_bit c z) n" using y z assms(4) by linarith
qed

lemma two_fields_pick:
  fixes x y :: u8
  assumes "\<And>n. bit y n \<Longrightarrow> n < 5" "a + c = 5" "m < 8"
  shows "bit (push_bit a x + drop_bit c y) (7 - m) = (if a + m \<le> 7 then bit x (7 - m - a) else bit y (c + (7 - m)))"
proof -
  have "\<not> bit y (c + (7 - m))" if "a + m \<le> 7"
    using assms(1) [of "c + (7 - m)"] assms(2) that by linarith
  then show ?thesis
    using two_fields [where x = x and n = "7 - m", OF assms(1) eq_imp_le [OF assms(2) [symmetric]]] assms(3)
    unfolding bit_push_bit_iff bit_drop_bit_eq o_def by (auto simp: le_diff_conv2)
qed

lemma three_fields_pick:
  fixes x y z :: u8
  assumes "\<And>n. bit y n \<Longrightarrow> n < 5" "\<And>n. bit z n \<Longrightarrow> n < 5" "a = b + 5" "b + c = 5" "m < 8"
  shows "bit (push_bit a x + push_bit b y + drop_bit c z) (7 - m) =
    (if a + m \<le> 7 then bit x (7 - m - a) else if b + m \<le> 7 then bit y (7 - m - b) else bit z (c + (7 - m)))"
proof -
  have "\<not> bit z (c + (7 - m))" if "b + m \<le> 7"
    using assms(2) [of "c + (7 - m)"] assms(4) that by linarith
  moreover have "\<not> bit y (7 - m - b)" if "a + m \<le> 7"
    using assms(1) [of "7 - m - b"] assms(3) that by linarith
  ultimately show ?thesis
    using three_fields [where a = a and b = b and c = c and x = x and n = "7 - m", OF assms(1,2)] assms(3,4,5)
    unfolding bit_push_bit_iff bit_drop_bit_eq o_def by (auto simp: le_diff_conv2)
qed

lemma base32_byte_bit:
  assumes small: "\<And>j. j < length tmp \<Longrightarrow> unat (tmp ! j) < 32" and i: "8 * i + 7 < 5 * length tmp" and m: "m < 8"
  shows "bit (base32_byte tmp (8 * i)) (7 - m) \<longleftrightarrow> bit (tmp ! ((8 * i + m) div 5)) (4 - (8 * i + m) mod 5)"
proof -
  define q where "q = i div 5"
  define r where "r = i mod 5"
  have ir: "i = 5 * q + r" "r < 5" by (simp_all add: q_def r_def)
  define t where "t = (\<lambda>k. tmp ! (8 * q + k))"
  have e: "8 * i = 40 * q + 8 * r" by (simp add: ir)
  have d5: "8 * i div 5 = 8 * q + 8 * r div 5" "(8 * i + m) div 5 = 8 * q + (8 * r + m) div 5"
      "(8 * i + m) mod 5 = (8 * r + m) mod 5"
    unfolding e using mod_mult_self4 [of 5 "8 * q" "8 * r + m"] by (simp_all add: add.assoc)
  have m40: "8 * i mod 40 = 8 * r" unfolding e using ir(2) by simp
  have sm: "bit (t k) n \<Longrightarrow> n < 5" if "5 * k \<le> 8 * r + 7" for k n
  proof -
    have "8 * q + k < length tmp" using i that unfolding e by linarith
    from small_bits [OF small [OF this]] show "bit (t k) n \<Longrightarrow> n < 5" by (simp add: t_def)
  qed
  have byte: "base32_byte tmp (8 * i) = (if r = 0 then push_bit 3 (t 0) + drop_bit 2 (t 1)
       else if r = 1 then push_bit 6 (t 1) + push_bit 1 (t 2) + drop_bit 4 (t 3)
       else if r = 2 then push_bit 4 (t 3) + drop_bit 1 (t 4)
       else if r = 3 then push_bit 7 (t 4) + push_bit 2 (t 5) + drop_bit 3 (t 6)
       else push_bit 5 (t 6) + drop_bit 0 (t 7))"
  proof -
    have "r = 0 \<or> r = 1 \<or> r = 2 \<or> r = 3 \<or> r = 4" using ir(2) by linarith
    then show ?thesis
      unfolding base32_byte_def Let_def m40 d5(1) t_def by (elim disjE) (simp_all add: add.assoc, simp_all add: add.commute numeral_3_eq_3)
  qed
  have ms: "m \<in> {0, 1, 2, 3, 4, 5, 6, 7}" using m by auto
  have goal: "bit (tmp ! ((8 * i + m) div 5)) (4 - (8 * i + m) mod 5) = bit (t ((8 * r + m) div 5)) (4 - (8 * r + m) mod 5)"
    by (simp add: d5 t_def)
  consider "r = 0" | "r = 1" | "r = 2" | "r = 3" | "r = 4" using ir(2) by linarith
  then show ?thesis
  proof cases
    case 1
    have "bit (push_bit 3 (t 0) + drop_bit 2 (t 1)) (7 - m) =
        (if 3 + m \<le> 7 then bit (t 0) (7 - m - 3) else bit (t 1) (2 + (7 - m)))"
      by (rule two_fields_pick [OF sm _ m]) (simp_all add: 1)
    moreover have "(8 * r + m) div 5 = (if 3 + m \<le> 7 then 0 else 1)"
        "4 - (8 * r + m) mod 5 = (if 3 + m \<le> 7 then 7 - m - 3 else 2 + (7 - m))"
      unfolding 1 using ms by auto
    ultimately show ?thesis unfolding goal byte by (simp add: 1)
  next
    case 2
    have "bit (push_bit 6 (t 1) + push_bit 1 (t 2) + drop_bit 4 (t 3)) (7 - m) =
        (if 6 + m \<le> 7 then bit (t 1) (7 - m - 6) else if 1 + m \<le> 7 then bit (t 2) (7 - m - 1)
         else bit (t 3) (4 + (7 - m)))"
      by (rule three_fields_pick [OF sm sm _ _ m]) (simp_all add: 2)
    moreover have "(8 * r + m) div 5 = (if 6 + m \<le> 7 then 1 else if 1 + m \<le> 7 then 2 else 3)"
        "4 - (8 * r + m) mod 5 = (if 6 + m \<le> 7 then 7 - m - 6 else if 1 + m \<le> 7 then 7 - m - 1 else 4 + (7 - m))"
      unfolding 2 using ms by auto
    ultimately show ?thesis unfolding goal byte by (simp add: 2)
  next
    case 3
    have "bit (push_bit 4 (t 3) + drop_bit 1 (t 4)) (7 - m) =
        (if 4 + m \<le> 7 then bit (t 3) (7 - m - 4) else bit (t 4) (1 + (7 - m)))"
      by (rule two_fields_pick [OF sm _ m]) (simp_all add: 3)
    moreover have "(8 * r + m) div 5 = (if 4 + m \<le> 7 then 3 else 4)"
        "4 - (8 * r + m) mod 5 = (if 4 + m \<le> 7 then 7 - m - 4 else 1 + (7 - m))"
      unfolding 3 using ms by auto
    ultimately show ?thesis unfolding goal byte by (simp add: 3)
  next
    case 4
    have "bit (push_bit 7 (t 4) + push_bit 2 (t 5) + drop_bit 3 (t 6)) (7 - m) =
        (if 7 + m \<le> 7 then bit (t 4) (7 - m - 7) else if 2 + m \<le> 7 then bit (t 5) (7 - m - 2)
         else bit (t 6) (3 + (7 - m)))"
      by (rule three_fields_pick [OF sm sm _ _ m]) (simp_all add: 4)
    moreover have "(8 * r + m) div 5 = (if 7 + m \<le> 7 then 4 else if 2 + m \<le> 7 then 5 else 6)"
        "4 - (8 * r + m) mod 5 = (if 7 + m \<le> 7 then 7 - m - 7 else if 2 + m \<le> 7 then 7 - m - 2 else 3 + (7 - m))"
      unfolding 4 using ms by auto
    ultimately show ?thesis unfolding goal byte by (simp add: 4)
  next
    case 5
    have "bit (push_bit 5 (t 6) + drop_bit 0 (t 7)) (7 - m) =
        (if 5 + m \<le> 7 then bit (t 6) (7 - m - 5) else bit (t 7) (0 + (7 - m)))"
      by (rule two_fields_pick [OF sm _ m]) (simp_all add: 5)
    moreover have "(8 * r + m) div 5 = (if 5 + m \<le> 7 then 6 else 7)"
        "4 - (8 * r + m) mod 5 = (if 5 + m \<le> 7 then 7 - m - 5 else 0 + (7 - m))"
      unfolding 5 using ms by auto
    ultimately show ?thesis unfolding goal byte by (simp add: 5)
  qed
qed

lemma nat_ceil: "5 * CEIL_DIV (n * 8) 5 div 8 = n" "8 * n \<le> 5 * CEIL_DIV (n * 8) 5"
  unfolding CEIL_DIV_def by presburger+

lemma bits_ext:
  assumes "\<And>m. m < 8 \<Longrightarrow> bit x (7 - m) = bit (y :: u8) (7 - m)"
  shows "x = y"
proof (rule bit_word_eqI)
  fix n assume "n < LENGTH(8)"
  then have "7 - (7 - n) = n" "7 - n < 8" by simp_all
  then show "bit x n = bit y n" using assms [of "7 - n"] by simp
qed

lemma base32_loop_decodes:
  fixes src :: bytes
  defines "tmp \<equiv> map (\<lambda>i. of_nat (unat (base32_window src (5 * i))) :: u8) [0..<CEIL_DIV (length src * 8) 5]"
  shows "base32_digits (base32_loop src 0) = Some tmp"
    "map (\<lambda>i. base32_byte tmp (8 * i)) [0..<length src] = src"
proof -
  show "base32_digits (base32_loop src 0) = Some tmp"
    unfolding base32_loop_map tmp_def using window_less by (simp add: base32_digits_map)
  have lt: "length tmp = CEIL_DIV (length src * 8) 5" by (simp add: tmp_def)
  have small: "unat (tmp ! j) < 32" if "j < length tmp" for j
  proof -
    have "unat (of_nat v :: u8) < 32" if "v < 32" for v
      using that by (simp add: unat_of_nat take_bit_eq_mod)
    from this [OF window_less] show ?thesis using that by (simp add: tmp_def del: of_nat_unat)
  qed
  have tb: "bit (tmp ! j) k = bit (base32_window src (5 * j)) k" if "j < length tmp" "k < 5" for j k
  proof -
    have "tmp ! j = ucast (base32_window src (5 * j))" using that by (simp add: tmp_def)
    then show ?thesis using that(2) by (simp add: bit_ucast_iff)
  qed
  have "base32_byte tmp (8 * i) = src ! i" if i: "i < length src" for i
  proof (rule bits_ext)
    fix m :: nat assume m: "m < 8"
    have top: "8 * i + 7 < 5 * length tmp" using nat_ceil(2) [of "length src"] i unfolding lt by linarith
    define k where "k = 8 * i + m"
    have k: "k < 5 * length tmp" "k < 8 * length src" using top m i by (simp_all add: k_def)
    have "bit (base32_byte tmp (8 * i)) (7 - m) = bit (tmp ! (k div 5)) (4 - k mod 5)"
      unfolding k_def by (rule base32_byte_bit [OF small top m])
    also have "\<dots> = bit (base32_window src (5 * (k div 5))) (4 - k mod 5)"
      by (rule tb) (use k in \<open>simp_all add: less_mult_imp_div_less mult.commute\<close>)
    also have "\<dots> = bits_of src (5 * (k div 5) + k mod 5)"
    proof (rule window_bit)
      have "5 * (k div 5) \<le> k" by simp
      then show "5 * (k div 5) div 8 < length src" using k(2) by (simp add: less_mult_imp_div_less mult.commute)
    qed simp
    also have "\<dots> = bit (src ! i) (7 - m)"
    proof -
      have "k div 8 = i" "k mod 8 = m" using m by (simp_all add: k_def)
      moreover have "5 * (k div 5) + k mod 5 = k" by simp
      ultimately show ?thesis using i by (simp only: bits_of_def)  simp
    qed
    finally show "bit (base32_byte tmp (8 * i)) (7 - m) = bit (src ! i) (7 - m)" .
  qed
  then have "map (\<lambda>i. base32_byte tmp (8 * i)) [0..<length src] = map ((!) src) [0..<length src]" by simp
  then show "map (\<lambda>i. base32_byte tmp (8 * i)) [0..<length src] = src" by (simp only: map_nth)
qed


section \<open>Round trips\<close>

abbreviation c_str :: "string \<Rightarrow> string" where "c_str \<equiv> takeWhile (\<lambda>c. c \<noteq> CHR 0x00)"

lemma nul_char: "char_of (0 :: nat) = CHR 0x00"
  by code_simp

lemma c_str_buffer: "CHR 0x00 \<notin> set s \<Longrightarrow> length s < n \<Longrightarrow> c_str (buffer n s) = s"
proof -
  assume a: "CHR 0x00 \<notin> set s" "length s < n"
  then obtain k where "n - length s = Suc k" by (metis Suc_diff_Suc)
  then have "buffer n s = s @ CHR 0x00 # replicate k (CHR 0x00)" by (simp add: buffer_def nul_char)
  moreover have "c_str (s @ CHR 0x00 # replicate k (CHR 0x00)) = s @ c_str (CHR 0x00 # replicate k (CHR 0x00))"
    by (rule takeWhile_append2) (use a(1) in auto)
  ultimately show ?thesis by simp
qed

lemma length_buffer: "length s \<le> n \<Longrightarrow> length (buffer n s) = n"
  by (simp add: buffer_def)

lemma nth_no_nul: "CHR 0x00 \<notin> set xs \<Longrightarrow> i < length xs \<Longrightarrow> xs ! i \<noteq> CHR 0x00"
  by (metis nth_mem)

lemma base16_loop_no_nul: "CHR 0x00 \<notin> set (base16_loop bs)"
proof (induction bs)
  case (Cons b bs)
  have m: "(0xf :: u8) = mask 4" by (simp add: mask_eq_exp_minus_1)
  have "unat (b AND 0xf) < 16" unfolding m unat_and_mask by simp
  moreover have "unat (drop_bit 4 b) < 16" using unat_u8_less [of b] by (simp add: unat_drop_bit)
  moreover have "''0123456789ABCDEF'' ! i \<noteq> CHR 0x00" if "i < 16" for i
    by (rule nth_no_nul) (use that in simp_all)
  ultimately show ?case using Cons by force
qed simp

text \<open>Base 16.  For any bytes, given a destination that satisfies the assertions of \<open>base16_encode\<close>, the encoder
  leaves a NUL-terminated string of twice the length, and \<open>base16_decode\<close> of that string returns the number of bytes
  and a buffer that holds them followed by zeros.  A string of odd length, a string with a character that is not
  hexadecimal and a destination too small are all answered with \<open>-1\<close>.\<close>

theorem base16_roundtrip:
  assumes "length src < SIZE_T_CEILING div 2 - 1" "BASE16_BUFSIZE (length src) \<le> destlen" "destlen < SIZE_T_CEILING"
    "length src \<le> dl" "dl \<le> C_INT_MAX"
  shows "(\<exists>dest. base16_encode destlen src = Done dest \<and> length dest = destlen \<and> length (c_str dest) = 2 * length src \<and>
      base16_decode dl (c_str dest) = Done (byte_buffer dl src, length src)) \<and>
    (odd (length s) \<longrightarrow> base16_decode dl s = Minus_1) \<and> (dl < length s div 2 \<longrightarrow> base16_decode dl s = Minus_1) \<and>
    (\<forall>i < length s. hex_decode_digit (s ! i) < 0 \<longrightarrow> base16_decode dl s = Minus_1)"
proof -
  have len: "length (base16_loop src) < destlen" using assms(2) by (simp add: BASE16_BUFSIZE_def length_base16_loop)
  then have "base16_encode destlen src = Done (buffer destlen (base16_loop src))"
    using assms by (simp add: base16_encode_def Let_def)
  moreover have "c_str (buffer destlen (base16_loop src)) = base16_loop src"
    using c_str_buffer [OF base16_loop_no_nul len] .
  moreover have "base16_decode dl (base16_loop src) = Done (byte_buffer dl src, length src)"
    using assms(4,5) by (simp add: base16_decode_def Let_def length_base16_loop base16_loop_roundtrip)
  moreover have "i < length t \<Longrightarrow> hex_decode_digit (t ! i) < 0 \<Longrightarrow> even (length t) \<Longrightarrow> base16_decode_loop t = None" for i t
  proof (induction t arbitrary: i rule: base16_decode_loop.induct)
    case (3 c d t)
    show ?case
    proof (cases "i < 2")
      case True
      then have "i = 0 \<or> i = 1" by linarith
      then show ?thesis using "3.prems" by (auto simp: Let_def)
    next
      case False
      then have i: "i = Suc (Suc (i - 2))" by simp
      have "i - 2 < length t" using i "3.prems"(1) by simp
      moreover have "(c # d # t) ! i = t ! (i - 2)" by (subst i) simp
      ultimately show ?thesis using "3.IH" [OF refl refl, of "i - 2"] "3.prems" by (auto simp: Let_def)
    qed
  qed simp_all
  then have "\<forall>i < length s. hex_decode_digit (s ! i) < 0 \<longrightarrow> base16_decode dl s = Minus_1"
    by (auto simp: base16_decode_def Let_def)
  ultimately show ?thesis
    using len by (auto simp: length_buffer length_base16_loop base16_decode_def Let_def odd_iff_mod_2_eq_one)
qed

lemma base16_roundtrip_witness:
  "(\<exists>dest. base16_encode 16 [0xDE, 0xAD] = Done dest \<and> length dest = 16 \<and> length (c_str dest) = 2 * length [0xDE, 0xAD :: u8] \<and>
      base16_decode 4 (c_str dest) = Done (byte_buffer 4 [0xDE, 0xAD], length [0xDE, 0xAD :: u8])) \<and>
    base16_decode 4 ''abc'' = Minus_1"
  using base16_roundtrip [of "[0xDE, 0xAD]" 16 4 "''abc''"]
  by (simp add: SIZE_T_CEILING_def BASE16_BUFSIZE_def C_INT_MAX_def)

lemma base32_loop_props: "length (base32_loop src 0) = CEIL_DIV (length src * 8) 5" "CHR 0x00 \<notin> set (base32_loop src 0)"
proof -
  show "length (base32_loop src 0) = CEIL_DIV (length src * 8) 5" by (simp add: base32_loop_map)
  have n: "CHR 0x00 \<notin> set BASE32_CHARS" "length BASE32_CHARS = 32" by (simp_all add: BASE32_CHARS_def)
  then have "BASE32_CHARS ! unat (base32_window src k) \<noteq> CHR 0x00" for k
    using nth_no_nul [OF n(1), of "unat (base32_window src k)"] window_less [of src k] by simp
  then show "CHR 0x00 \<notin> set (base32_loop src 0)" unfolding base32_loop_map by auto metis
qed

text \<open>Base 32.  Whenever \<open>base32_encoded_size\<close> does not assert and the destination has that size, the encoder
  leaves a NUL-terminated string one shorter than that size, and \<open>base32_decode\<close> of it returns the original bytes
  and their number.\<close>

theorem base32_roundtrip:
  assumes "base32_encoded_size (length src) = Some enclen" "enclen \<le> destlen" "destlen < SIZE_T_CEILING"
    "length src \<le> dl" "dl < SIZE_T_CEILING"
  shows "\<exists>dest. base32_encode destlen src = Done dest \<and> length dest = destlen \<and> length (c_str dest) + 1 = enclen \<and>
      base32_decode dl (c_str dest) = Done (byte_buffer dl src, length src)"
proof -
  let ?s = "base32_loop src 0"
  have e: "enclen = length ?s + 1" "enclen < C_INT_MAX"
    using assms(1) by (auto simp: base32_encoded_size_def Let_def BASE32_NOPAD_BUFSIZE_def base32_loop_props split: if_splits)
  have c: "c_str (buffer destlen ?s) = ?s" using c_str_buffer [OF base32_loop_props(2)] e(1) assms(2) by simp
  have "length ?s * 5 div 8 = length src" using nat_ceil(1) [of "length src"] by (simp add: base32_loop_props mult.commute)
  moreover have "length ?s < SIZE_T_CEILING div 5" using e by (simp add: C_INT_MAX_def SIZE_T_CEILING_def)
  ultimately have "base32_decode dl ?s = Done (byte_buffer dl src, length src)"
    using assms(4,5) by (simp add: base32_decode_def Let_def base32_loop_decodes del: of_nat_unat)
  then show ?thesis
    using assms(1-3) e(1) by (simp add: base32_encode_def c length_buffer)
qed

lemma base32_roundtrip_witness:
  "\<exists>dest. base32_encode 16 [0xDE, 0xAD, 1] = Done dest \<and> length dest = 16 \<and> length (c_str dest) + 1 = 6 \<and>
      base32_decode 4 (c_str dest) = Done (byte_buffer 4 [0xDE, 0xAD, 1], length [0xDE, 0xAD, 1 :: u8])"
  using base32_roundtrip [of "[0xDE, 0xAD, 1]" 6 16 4]
  by (simp add: SIZE_T_CEILING_def base32_encoded_size_def BASE32_NOPAD_BUFSIZE_def C_INT_MAX_def CEIL_DIV_def)











end
