(* ===== verification/Smart_List.thy ===== *)
theory Smart_List
  imports Smartlist_Core Smartlist_Split Di_Ops
begin

text \<open>
  The higher-level list operations of \<open>lib/container/smartlist.c\<close>: searching, comparing,
  set-like and string operations, and binary search; the priority queue is in \<open>Pqueue\<close>.  Here a smartlist is the list of its elements, which is what \<^const>\<open>elems\<close>
  extracts from the block of \<open>Smartlist_Core\<close>; the link between the two is proved for the operations
  that call that file.  A list argument that may be NULL is an \<open>option\<close>.  A comparison callback is a
  parameter \<open>cmp\<close>; what the code relies on, that it is a total preorder on the elements, is the
  locale \<open>comparison\<close>.
\<close>

section \<open>Definitions\<close>

subsection \<open>Order, membership and equality\<close>

function reverse_loop :: "'a list \<Rightarrow> nat \<Rightarrow> int \<Rightarrow> 'a list" where
  "reverse_loop xs i j =
     (if int i < j then reverse_loop (xs[i := xs ! nat j, nat j := xs ! i]) (i + 1) (j - 1) else xs)"
  by pat_completeness auto
termination by (relation "measure (\<lambda>(xs, i, j). nat (j - int i))") auto

declare reverse_loop.simps [simp del]

definition smartlist_reverse :: "'a list \<Rightarrow> 'a list" where
  "smartlist_reverse sl = reverse_loop sl 0 (int (length sl) - 1)"

text \<open>The loop that overwrites a dropped element with the last one and looks at the slot again.\<close>

function drop_swapping :: "('a \<Rightarrow> bool) \<Rightarrow> 'a list \<Rightarrow> nat \<Rightarrow> 'a list" where
  "drop_swapping P sl i =
     (if i < length sl then
        (if P (sl ! i) then drop_swapping P (butlast (sl[i := last sl])) i else drop_swapping P sl (i + 1))
      else sl)"
  by pat_completeness auto
termination by (relation "measure (\<lambda>(P, sl, i). length sl - i)") auto

declare drop_swapping.simps [simp del]

definition smartlist_string_remove :: "string list \<Rightarrow> string \<Rightarrow> string list" where
  "smartlist_string_remove sl element = drop_swapping (\<lambda>s. strcmp element s = 0) sl 0"

fun index_where :: "('a \<Rightarrow> bool) \<Rightarrow> 'a list \<Rightarrow> int \<Rightarrow> int" where
  "index_where P [] i = - 1"
| "index_where P (x # xs) i = (if P x then i else index_where P xs (i + 1))"

definition smartlist_contains_string :: "string list option \<Rightarrow> string \<Rightarrow> bool" where
  "smartlist_contains_string sl element =
     (case sl of None \<Rightarrow> False | Some l \<Rightarrow> list_ex (\<lambda>s. strcmp s element = 0) l)"

definition smartlist_string_pos :: "string list option \<Rightarrow> string \<Rightarrow> int" where
  "smartlist_string_pos sl element =
     (case sl of None \<Rightarrow> - 1 | Some l \<Rightarrow> index_where (\<lambda>s. strcmp s element = 0) l 0)"

definition smartlist_pos :: "'a list option \<Rightarrow> 'a \<Rightarrow> int" where
  "smartlist_pos sl element = (case sl of None \<Rightarrow> - 1 | Some l \<Rightarrow> index_where (\<lambda>p. element = p) l 0)"

definition smartlist_contains_string_case :: "string list option \<Rightarrow> string \<Rightarrow> bool" where
  "smartlist_contains_string_case sl element =
     (case sl of None \<Rightarrow> False | Some l \<Rightarrow> list_ex (\<lambda>s. strcasecmp s element = 0) l)"

definition smartlist_contains_int_as_string :: "string list option \<Rightarrow> int \<Rightarrow> bool" where
  "smartlist_contains_int_as_string sl num = smartlist_contains_string sl (print_int num)"

definition smartlist_strings_eq :: "string list option \<Rightarrow> string list option \<Rightarrow> bool" where
  "smartlist_strings_eq sl1 sl2 =
     (case sl1 of None \<Rightarrow> sl2 = None
      | Some l1 \<Rightarrow> (case sl2 of None \<Rightarrow> False
          | Some l2 \<Rightarrow> if length l1 \<noteq> length l2 then False
                       else list_all (\<lambda>(cp1, cp2). strcmp cp1 cp2 = 0) (zip l1 l2)))"

definition smartlist_ints_eq :: "int list option \<Rightarrow> int list option \<Rightarrow> bool" where
  "smartlist_ints_eq sl1 sl2 =
     (case sl1 of None \<Rightarrow> sl2 = None
      | Some l1 \<Rightarrow> (case sl2 of None \<Rightarrow> False
          | Some l2 \<Rightarrow> if length l1 \<noteq> length l2 then False
                       else list_all (\<lambda>(cp1, cp2). cp1 = cp2) (zip l1 l2)))"

definition smartlist_ptrs_eq :: "'a list option \<Rightarrow> 'a list option \<Rightarrow> bool" where
  "smartlist_ptrs_eq s1 s2 =
     (case (s1, s2) of (None, None) \<Rightarrow> True | (None, Some _) \<Rightarrow> False | (Some _, None) \<Rightarrow> False
      | (Some l1, Some l2) \<Rightarrow> if length l1 \<noteq> length l2 then False
                              else list_all (\<lambda>i. l1 ! i = l2 ! i) [0..<length l1])"

definition smartlist_contains_digest :: "bytes list option \<Rightarrow> bytes \<Rightarrow> bool" where
  "smartlist_contains_digest sl element =
     (case sl of None \<Rightarrow> False | Some l \<Rightarrow> list_ex (\<lambda>d. tor_memeq d element 20) l)"

definition smartlist_overlap :: "'a list \<Rightarrow> 'a list \<Rightarrow> bool" where
  "smartlist_overlap sl1 sl2 = list_ex (\<lambda>e. e \<in> set sl1) sl2"

definition smartlist_intersect :: "'a list \<Rightarrow> 'a list \<Rightarrow> 'a list" where
  "smartlist_intersect sl1 sl2 = drop_swapping (\<lambda>e. e \<notin> set sl2) sl1 0"

definition smartlist_subtract :: "'a list \<Rightarrow> 'a list \<Rightarrow> 'a list" where
  "smartlist_subtract sl1 sl2 = fold (\<lambda>e sl. drop_swapping (\<lambda>x. x = e) sl 0) sl2 sl1"

subsection \<open>Joining\<close>

text \<open>The size computed for the allocation, the two copying loops, and the resulting text; the
  terminating NUL is not part of the text.\<close>

fun join_size :: "string list \<Rightarrow> nat \<Rightarrow> nat \<Rightarrow> nat" where
  "join_size [] join_len n = n"
| "join_size (s # sl) join_len n =
     join_size sl join_len (n + length s + (if sl \<noteq> [] then join_len else 0))"

fun join_loop :: "string list \<Rightarrow> string \<Rightarrow> string \<Rightarrow> string" where
  "join_loop [] join dst = dst"
| "join_loop (s # sl) join dst = join_loop sl join (dst @ s @ (if sl \<noteq> [] then join else []))"

definition smartlist_join_strings2 :: "string list \<Rightarrow> string \<Rightarrow> nat \<Rightarrow> bool \<Rightarrow> string \<times> nat" where
  "smartlist_join_strings2 sl join join_len terminate =
     (let dst = join_loop sl (take join_len join) [];
          dst = (if terminate then dst @ take join_len join else dst)
      in (dst, length dst))"

definition smartlist_join_strings :: "string list \<Rightarrow> string \<Rightarrow> bool \<Rightarrow> string \<times> nat" where
  "smartlist_join_strings sl join terminate = smartlist_join_strings2 sl join (length join) terminate"

subsection \<open>Sorted lists\<close>

record 'a frequency =
  most_frequent :: "'a option"
  most_frequent_count :: int
  cur :: "'a option"
  cur_count :: int

definition close_run :: "'a frequency \<Rightarrow> 'a frequency" where
  "close_run s =
     (if cur s \<noteq> None \<and> cur_count s \<ge> most_frequent_count s
      then s\<lparr>most_frequent := cur s, most_frequent_count := cur_count s\<rparr> else s)"

fun frequency_loop :: "('a \<Rightarrow> 'a \<Rightarrow> int) \<Rightarrow> 'a list \<Rightarrow> 'a frequency \<Rightarrow> 'a frequency" where
  "frequency_loop cmp [] s = s"
| "frequency_loop cmp (item # sl) s =
     (if cur s \<noteq> None \<and> 0 = cmp (the (cur s)) item
      then frequency_loop cmp sl (s\<lparr>cur_count := cur_count s + 1\<rparr>)
      else frequency_loop cmp sl ((close_run s)\<lparr>cur := Some item, cur_count := 1\<rparr>))"

definition smartlist_get_most_frequent :: "('a \<Rightarrow> 'a \<Rightarrow> int) \<Rightarrow> 'a list \<Rightarrow> 'a option \<times> int" where
  "smartlist_get_most_frequent cmp sl =
     (if sl = [] then (None, 0)
      else let s = close_run (frequency_loop cmp sl
                 \<lparr>most_frequent = None, most_frequent_count = 0, cur = None, cur_count = 0\<rparr>)
           in (most_frequent s, most_frequent_count s))"

function uniq_loop :: "('a \<Rightarrow> 'a \<Rightarrow> int) \<Rightarrow> 'a list \<Rightarrow> nat \<Rightarrow> 'a list" where
  "uniq_loop cmp sl i =
     (if i < length sl then
        (if cmp (sl ! (i - 1)) (sl ! i) = 0 then uniq_loop cmp (take i sl @ drop (i + 1) sl) i
         else uniq_loop cmp sl (i + 1))
      else sl)"
  by pat_completeness auto
termination by (relation "measure (\<lambda>(cmp, sl, i). length sl - i)") auto

declare uniq_loop.simps [simp del]

definition smartlist_uniq :: "('a \<Rightarrow> 'a \<Rightarrow> int) \<Rightarrow> 'a list \<Rightarrow> 'a list" where
  "smartlist_uniq cmp sl = uniq_loop cmp sl 1"





subsection \<open>Comparison callbacks and their instances\<close>

definition compare_string_ptrs :: "string \<Rightarrow> string \<Rightarrow> int" where
  "compare_string_ptrs a b = strcmp a b"

text \<open>Pointers are compared as addresses.\<close>

definition compare_ptrs :: "nat \<Rightarrow> nat \<Rightarrow> int" where
  "compare_ptrs a b = (if a < b then - 1 else if a = b then 0 else 1)"

definition compare_digests :: "bytes \<Rightarrow> bytes \<Rightarrow> int" where
  "compare_digests a b = tor_memcmp a b 20"

definition compare_digests256 :: "bytes \<Rightarrow> bytes \<Rightarrow> int" where
  "compare_digests256 a b = tor_memcmp a b 32"

definition smartlist_get_most_frequent_string_count :: "string list \<Rightarrow> string option \<times> int" where
  "smartlist_get_most_frequent_string_count sl = smartlist_get_most_frequent compare_string_ptrs sl"

definition smartlist_get_most_frequent_string :: "string list \<Rightarrow> string option" where
  "smartlist_get_most_frequent_string sl = fst (smartlist_get_most_frequent compare_string_ptrs sl)"

definition smartlist_get_most_frequent_digest256 :: "bytes list \<Rightarrow> bytes option" where
  "smartlist_get_most_frequent_digest256 sl = fst (smartlist_get_most_frequent compare_digests256 sl)"

definition smartlist_uniq_strings :: "string list \<Rightarrow> string list" where
  "smartlist_uniq_strings sl = smartlist_uniq compare_string_ptrs sl"

definition smartlist_uniq_digests :: "bytes list \<Rightarrow> bytes list" where
  "smartlist_uniq_digests sl = smartlist_uniq compare_digests sl"

definition smartlist_uniq_digests256 :: "bytes list \<Rightarrow> bytes list" where
  "smartlist_uniq_digests256 sl = smartlist_uniq compare_digests256 sl"

section \<open>The interface of the comparison callbacks\<close>

locale comparison =
  fixes S :: "'a set" and cmp :: "'a \<Rightarrow> 'a \<Rightarrow> int"
  assumes sign: "a \<in> S \<Longrightarrow> b \<in> S \<Longrightarrow> cmp a b < 0 \<longleftrightarrow> cmp b a > 0"
    and trans: "a \<in> S \<Longrightarrow> b \<in> S \<Longrightarrow> c \<in> S \<Longrightarrow> cmp a b \<le> 0 \<Longrightarrow> cmp b c \<le> 0 \<Longrightarrow> cmp a c \<le> 0"
begin

lemma sign_le: "a \<in> S \<Longrightarrow> b \<in> S \<Longrightarrow> cmp a b \<le> 0 \<longleftrightarrow> cmp b a \<ge> 0"
  using sign [of b a] by linarith

lemma refl: "a \<in> S \<Longrightarrow> cmp a a = 0"
  using sign [of a a] by linarith

lemma zero_sym: "a \<in> S \<Longrightarrow> b \<in> S \<Longrightarrow> cmp a b = 0 \<longleftrightarrow> cmp b a = 0"
  using sign [of a b] sign [of b a] by linarith

lemma not_less: "a \<in> S \<Longrightarrow> b \<in> S \<Longrightarrow> \<not> cmp a b < 0 \<Longrightarrow> cmp b a \<le> 0"
  using sign [of a b] by linarith

end

section \<open>The comparisons of the file satisfy the interface\<close>

lemma strcmp_antisym: "strcmp a b = - strcmp b a"
  by (induction a b rule: strcmp.induct) auto

lemma of_char_nonneg: "0 \<le> (of_char c :: int)"
proof -
  have "(of_char c :: int) = int (of_char c)" by (rule of_nat_of_char [symmetric])
  then show ?thesis by linarith
qed

lemma of_char_pos: "c \<noteq> NUL \<Longrightarrow> 0 < (of_char c :: int)"
  using of_char_eq_iff [of c NUL, where ?'a = int] of_char_nonneg [of c] by (auto simp del: of_char_eq_iff)

lemma strcmp_trans:
  "NUL \<notin> set a \<Longrightarrow> NUL \<notin> set b \<Longrightarrow> NUL \<notin> set c \<Longrightarrow> strcmp a b \<le> 0 \<Longrightarrow> strcmp b c \<le> 0 \<Longrightarrow> strcmp a c \<le> 0"
proof (induction a arbitrary: b c)
  case Nil
  then show ?case using of_char_nonneg by (cases c) auto
next
  case (Cons x a)
  have "b \<noteq> []" using Cons.prems(1,4) of_char_pos [of x] by auto
  then obtain y b' where b: "b = y # b'" by (cases b) auto
  have "c \<noteq> []" using Cons.prems(2,5) of_char_pos [of y] by (auto simp: b)
  then obtain z c' where c: "c = z # c'" by (cases c) auto
  have inj: "of_char u = (of_char v :: int) \<Longrightarrow> u = v" for u v by simp
  show ?case
    using Cons.prems Cons.IH [of b' c'] inj [of x y] inj [of y z] inj [of x z] by (auto simp: b c split: if_splits)
qed

lemma memcmp_antisym: "memcmp a b n = - memcmp b a n"
  by (induction a b n rule: memcmp.induct) auto

lemma memcmp_trans:
  "n \<le> length a \<Longrightarrow> n \<le> length b \<Longrightarrow> n \<le> length c \<Longrightarrow> memcmp a b n \<le> 0 \<Longrightarrow> memcmp b c n \<le> 0 \<Longrightarrow> memcmp a c n \<le> 0"
proof (induction n arbitrary: a b c)
  case (Suc n)
  obtain x a' y b' z c' where e: "a = x # a'" "b = y # b'" "c = z # c'"
    using Suc.prems(1-3) by (metis Suc_le_length_iff)
  have inj: "uint u = uint v \<Longrightarrow> u = v" for u v :: u8 by (rule unsigned_word_eqI)
  show ?case
    using Suc.prems Suc.IH [of a' b' c'] inj [of x y] inj [of y z] inj [of x z] by (auto simp: e split: if_splits)
qed simp

interpretation string_order: comparison "{s. NUL \<notin> set s}" compare_string_ptrs
proof
  show "compare_string_ptrs a b < 0 \<longleftrightarrow> compare_string_ptrs b a > 0" for a b using strcmp_antisym [of a b] by (simp add: compare_string_ptrs_def)
  show "a \<in> {s. NUL \<notin> set s} \<Longrightarrow> b \<in> {s. NUL \<notin> set s} \<Longrightarrow> c \<in> {s. NUL \<notin> set s} \<Longrightarrow> compare_string_ptrs a b \<le> 0 \<Longrightarrow> compare_string_ptrs b c \<le> 0 \<Longrightarrow> compare_string_ptrs a c \<le> 0" for a b c
    using strcmp_trans [of a b c] by (simp add: compare_string_ptrs_def)
qed

interpretation pointer_order: comparison UNIV compare_ptrs
  by unfold_locales (auto simp: compare_ptrs_def split: if_splits)

interpretation digest_order: comparison "{d. 20 \<le> length d}" compare_digests
proof
  show "compare_digests a b < 0 \<longleftrightarrow> compare_digests b a > 0" for a b using memcmp_antisym [of a b 20] by (simp add: compare_digests_def tor_memcmp_def)
  show "a \<in> {d. 20 \<le> length d} \<Longrightarrow> b \<in> {d. 20 \<le> length d} \<Longrightarrow> c \<in> {d. 20 \<le> length d} \<Longrightarrow> compare_digests a b \<le> 0 \<Longrightarrow> compare_digests b c \<le> 0 \<Longrightarrow> compare_digests a c \<le> 0" for a b c
    using memcmp_trans [of 20 a b c] by (simp add: compare_digests_def tor_memcmp_def)
qed

interpretation digest256_order: comparison "{d. 32 \<le> length d}" compare_digests256
proof
  show "compare_digests256 a b < 0 \<longleftrightarrow> compare_digests256 b a > 0" for a b using memcmp_antisym [of a b 32] by (simp add: compare_digests256_def tor_memcmp_def)
  show "a \<in> {d. 32 \<le> length d} \<Longrightarrow> b \<in> {d. 32 \<le> length d} \<Longrightarrow> c \<in> {d. 32 \<le> length d} \<Longrightarrow> compare_digests256 a b \<le> 0 \<Longrightarrow> compare_digests256 b c \<le> 0 \<Longrightarrow> compare_digests256 a c \<le> 0" for a b c
    using memcmp_trans [of 32 a b c] by (simp add: compare_digests256_def tor_memcmp_def)
qed

section \<open>Binary search\<close>







section \<open>Lists in order\<close>

text \<open>What the loop of \<open>smartlist_uniq\<close> leaves after an element.\<close>

fun dedup :: "('a \<Rightarrow> 'a \<Rightarrow> int) \<Rightarrow> 'a \<Rightarrow> 'a list \<Rightarrow> 'a list" where
  "dedup cmp a [] = []"
| "dedup cmp a (x # xs) = (if cmp a x = 0 then dedup cmp a xs else x # dedup cmp x xs)"

lemma uniq_loop_dedup: "uniq_loop cmp (pre @ a # rest) (Suc (length pre)) = pre @ a # dedup cmp a rest"
proof (induction rest arbitrary: pre a)
  case Nil
  then show ?case by (simp add: uniq_loop.simps)
next
  case (Cons x rest)
  have nth: "(pre @ a # x # rest) ! Suc (length pre) = x" "(pre @ a # x # rest) ! length pre = a"
    by (simp_all add: nth_append)
  show ?case
    using Cons.IH [of pre a] Cons.IH [of "pre @ [a]" x]
    by (subst uniq_loop.simps) (simp add: nth)
qed

lemma uniq_Cons: "smartlist_uniq cmp (a # rest) = a # dedup cmp a rest"
  using uniq_loop_dedup [of cmp "[]" a rest] by (simp add: smartlist_uniq_def)

lemma uniq_Nil: "smartlist_uniq cmp [] = []"
  by (simp add: smartlist_uniq_def uniq_loop.simps)

lemma dedup_subseq: "subseq (dedup cmp a xs) xs"
  by (induction cmp a xs rule: dedup.induct) auto

lemma dedup_set: "set (dedup cmp a xs) \<subseteq> set xs"
  by (induction cmp a xs rule: dedup.induct) auto

lemma dedup_covers: "x \<in> set xs \<Longrightarrow> cmp a x = 0 \<or> x \<in> set (dedup cmp a xs) \<or> (\<exists>y \<in> set (dedup cmp a xs). cmp y x = 0)"
  by (induction cmp a xs rule: dedup.induct) auto

context comparison
begin

lemma le_zero_trans: "a \<in> S \<Longrightarrow> b \<in> S \<Longrightarrow> c \<in> S \<Longrightarrow> cmp a b < 0 \<Longrightarrow> cmp b c \<le> 0 \<Longrightarrow> cmp a c < 0"
  using trans [of a b c] trans [of b c a] sign [of a b] sign [of a c] sign [of c a] sign_le [of a c] by linarith

lemma dedup_strict:
  "sorted_wrt (\<lambda>x y. cmp x y \<le> 0) (a # xs) \<Longrightarrow> set (a # xs) \<subseteq> S \<Longrightarrow>
     sorted_wrt (\<lambda>x y. cmp x y < 0) (a # dedup cmp a xs)"
proof (induction xs arbitrary: a)
  case (Cons x xs)
  have S: "a \<in> S" "x \<in> S" "set xs \<subseteq> S" using Cons.prems(2) by auto
  show ?case
  proof (cases "cmp a x = 0")
    case True
    then show ?thesis using Cons.IH [of a] Cons.prems by simp
  next
    case False
    then have lt: "cmp a x < 0" using Cons.prems(1) by auto
    have i: "sorted_wrt (\<lambda>x y. cmp x y < 0) (x # dedup cmp x xs)" using Cons.IH [of x] Cons.prems by simp
    have "cmp a y < 0" if "y \<in> set (dedup cmp x xs)" for y
    proof -
      have "y \<in> S" using that dedup_set [of cmp x xs] S(3) by blast
      moreover have "cmp x y < 0" using i that by simp
      ultimately show ?thesis using le_zero_trans [of a x y] S lt by simp
    qed
    then show ?thesis using False lt i by simp
  qed
qed simp

lemma uniq_ok:
  assumes "sorted_wrt (\<lambda>x y. cmp x y \<le> 0) sl" "set sl \<subseteq> S"
  shows "sorted_wrt (\<lambda>x y. cmp x y < 0) (smartlist_uniq cmp sl) \<and> subseq (smartlist_uniq cmp sl) sl \<and>
    (\<forall>x \<in> set sl. \<exists>y \<in> set (smartlist_uniq cmp sl). cmp y x = 0)"
proof (cases sl)
  case (Cons a rest)
  have "\<exists>y \<in> set (a # dedup cmp a rest). cmp y x = 0" if "x \<in> set sl" for x
  proof -
    have "x = a \<or> x \<in> set rest" using that by (simp add: Cons)
    moreover have "cmp x x = 0" using that assms(2) refl by blast
    ultimately show ?thesis using dedup_covers [of x rest cmp a] by auto
  qed
  then show ?thesis
    using dedup_strict [of a rest] assms dedup_subseq [of cmp a rest] by (simp add: Cons uniq_Cons)
qed (simp add: uniq_Nil)

end

section \<open>The most frequent member\<close>

abbreviation occurrences :: "('a \<Rightarrow> 'a \<Rightarrow> int) \<Rightarrow> 'a list \<Rightarrow> 'a \<Rightarrow> int" where
  "occurrences cmp xs x \<equiv> int (length (filter (\<lambda>y. cmp x y = 0) xs))"

text \<open>The best of the members before the current run.\<close>

definition best_before :: "('a \<Rightarrow> 'a \<Rightarrow> int) \<Rightarrow> 'a list \<Rightarrow> ('a \<Rightarrow> bool) \<Rightarrow> 'a option \<Rightarrow> int \<Rightarrow> bool" where
  "best_before cmp xs P m n \<longleftrightarrow> (case m of
      None \<Rightarrow> n = 0 \<and> (\<forall>x \<in> set xs. \<not> P x)
    | Some b \<Rightarrow> b \<in> set xs \<and> P b \<and> n = occurrences cmp xs b \<and>
        (\<forall>x \<in> set xs. P x \<longrightarrow> occurrences cmp xs x < n \<or> occurrences cmp xs x = n \<and> cmp x b \<le> 0))"

definition run_ok :: "('a \<Rightarrow> 'a \<Rightarrow> int) \<Rightarrow> 'a list \<Rightarrow> 'a frequency \<Rightarrow> bool" where
  "run_ok cmp xs s \<longleftrightarrow> (case cur s of
      None \<Rightarrow> xs = [] \<and> most_frequent s = None \<and> most_frequent_count s = 0
    | Some c \<Rightarrow> c \<in> set xs \<and> cur_count s = occurrences cmp xs c \<and> (\<forall>x \<in> set xs. cmp x c \<le> 0) \<and>
        best_before cmp xs (\<lambda>x. cmp x c < 0) (most_frequent s) (most_frequent_count s))"

lemma best_before_extend:
  assumes "best_before cmp xs P m n" "\<And>x. x \<in> set xs \<Longrightarrow> P x = Q x" "\<And>x. x \<in> set xs \<Longrightarrow> P x \<Longrightarrow> cmp x item \<noteq> 0" "\<not> Q item"
  shows "best_before cmp (xs @ [item]) Q m n"
proof (cases m)
  case None
  then show ?thesis using assms by (auto simp: best_before_def)
next
  case (Some b)
  then show ?thesis using assms by (auto simp: best_before_def)
qed

context comparison
begin

lemma occurrences_cong:
  assumes "a \<in> S" "b \<in> S" "set xs \<subseteq> S" "cmp a b = 0"
  shows "occurrences cmp xs a = occurrences cmp xs b"
proof -
  have "cmp a y = 0 \<longleftrightarrow> cmp b y = 0" if "y \<in> set xs" for y
  proof -
    have y: "y \<in> S" using assms(3) that by auto
    show ?thesis
      using trans [OF assms(1,2) y] trans [OF assms(2,1) y] trans [OF y assms(1,2)] trans [OF y assms(2,1)]
        zero_sym [OF assms(1,2)] assms(4) sign_le [OF assms(1) y] sign_le [OF assms(2) y] sign_le [OF y assms(1)] sign_le [OF y assms(2)]
      by linarith
  qed
  then have "filter (\<lambda>y. cmp a y = 0) xs = filter (\<lambda>y. cmp b y = 0) xs" by (intro filter_cong) auto
  then show ?thesis by simp
qed

lemma close_run_best:
  assumes "run_ok cmp xs s" "cur s = Some c" "set xs \<subseteq> S"
  shows "best_before cmp xs (\<lambda>x. True) (most_frequent (close_run s)) (most_frequent_count (close_run s))"
proof -
  have c: "c \<in> set xs" "cur_count s = occurrences cmp xs c" "\<And>x. x \<in> set xs \<Longrightarrow> cmp x c \<le> 0"
      "best_before cmp xs (\<lambda>x. cmp x c < 0) (most_frequent s) (most_frequent_count s)"
    using assms(1,2) by (simp_all add: run_ok_def)
  have same: "occurrences cmp xs x = cur_count s" if "x \<in> set xs" "\<not> cmp x c < 0" for x
    using occurrences_cong [of x c xs] c(1,2) c(3) [OF that(1)] that assms(3) by force
  show ?thesis
  proof (cases "cur_count s \<ge> most_frequent_count s")
    case True
    have "occurrences cmp xs x < cur_count s \<or> occurrences cmp xs x = cur_count s \<and> cmp x c \<le> 0" if "x \<in> set xs" for x
      using c(4) same [OF that] c(3) [OF that] that True by (auto simp: best_before_def split: option.splits)
    then show ?thesis using True assms(2) c(1,2) by (simp add: close_run_def best_before_def)
  next
    case False
    then obtain b where b: "most_frequent s = Some b"
      using c(2,4) by (cases "most_frequent s") (auto simp: best_before_def)
    have "occurrences cmp xs x < most_frequent_count s \<or> occurrences cmp xs x = most_frequent_count s \<and> cmp x b \<le> 0"
      if "x \<in> set xs" for x
      using c(4) same [OF that] that False b by (cases "cmp x c < 0") (auto simp: best_before_def)
    moreover have "close_run s = s" using False by (simp add: close_run_def)
    ultimately show ?thesis using c(4) b by (simp add: best_before_def)
  qed
qed

lemma run_ok_step:
  assumes "run_ok cmp xs s" "set xs \<subseteq> S" "item \<in> S" "\<And>x. x \<in> set xs \<Longrightarrow> cmp x item \<le> 0"
  shows "run_ok cmp (xs @ [item]) (if cur s \<noteq> None \<and> 0 = cmp (the (cur s)) item
      then s\<lparr>cur_count := cur_count s + 1\<rparr> else (close_run s)\<lparr>cur := Some item, cur_count := 1\<rparr>)"
proof (cases "cur s")
  case None
  then show ?thesis using assms(1,3) refl by (simp add: run_ok_def best_before_def close_run_def sign)
next
  case (Some c)
  have c: "c \<in> set xs" "cur_count s = occurrences cmp xs c" "\<And>x. x \<in> set xs \<Longrightarrow> cmp x c \<le> 0"
      "best_before cmp xs (\<lambda>x. cmp x c < 0) (most_frequent s) (most_frequent_count s)"
    using assms(1) Some by (simp_all add: run_ok_def)
  have cS: "c \<in> S" using c(1) assms(2) by auto
  have xS: "x \<in> set xs \<Longrightarrow> x \<in> S" for x using assms(2) by auto
  show ?thesis
  proof (cases "cmp c item = 0")
    case True
    have ic: "cmp item c = 0" using zero_sym [OF cS assms(3)] True by simp
    have "cmp x item \<noteq> 0" if "x \<in> set xs" "cmp x c < 0" for x
      using le_zero_trans [OF xS [OF that(1)] cS assms(3) that(2)] True by simp
    then have "best_before cmp (xs @ [item]) (\<lambda>x. cmp x c < 0) (most_frequent s) (most_frequent_count s)"
      by (intro best_before_extend [OF c(4)]) (simp_all add: ic)
    then show ?thesis using Some True c ic by (auto simp: run_ok_def)
  next
    case False
    then have lt: "cmp c item < 0" using assms(4) [OF c(1)] by linarith
    have below: "cmp x item < 0" if "x \<in> set xs" for x
      using trans [OF xS [OF that] cS assms(3) c(3) [OF that]] lt le_zero_trans [OF assms(3) xS [OF that] cS]
        sign [OF cS assms(3)] zero_sym [OF xS [OF that] assms(3)] c(3) [OF that] trans [OF assms(3) xS [OF that] cS] by linarith
    have "filter (\<lambda>y. cmp item y = 0) xs = []"
      using below zero_sym [OF assms(3) xS] by (fastforce simp: filter_empty_conv)
    moreover have "best_before cmp (xs @ [item]) (\<lambda>x. cmp x item < 0) (most_frequent (close_run s)) (most_frequent_count (close_run s))"
    proof (rule best_before_extend [OF close_run_best [OF assms(1) Some assms(2)]])
      show "\<And>x. x \<in> set xs \<Longrightarrow> True = (cmp x item < 0)" using below by simp
      show "\<And>x. x \<in> set xs \<Longrightarrow> True \<Longrightarrow> cmp x item \<noteq> 0" using below by force
      show "\<not> cmp item item < 0" using refl [OF assms(3)] by simp
    qed
    ultimately show ?thesis using Some False below refl [OF assms(3)] assms(3,4) by (auto simp: run_ok_def)
  qed
qed

lemma frequency_loop_ok:
  "run_ok cmp xs s \<Longrightarrow> sorted_wrt (\<lambda>x y. cmp x y \<le> 0) (xs @ ys) \<Longrightarrow> set (xs @ ys) \<subseteq> S \<Longrightarrow>
     run_ok cmp (xs @ ys) (frequency_loop cmp ys s)"
proof (induction ys arbitrary: xs s)
  case (Cons y ys)
  let ?s = "if cur s \<noteq> None \<and> 0 = cmp (the (cur s)) y
      then s\<lparr>cur_count := cur_count s + 1\<rparr> else (close_run s)\<lparr>cur := Some y, cur_count := 1\<rparr>"
  have "run_ok cmp (xs @ [y]) ?s"
    by (rule run_ok_step [OF Cons.prems(1)]) (use Cons.prems(2,3) in \<open>auto simp: sorted_wrt_append\<close>)
  from Cons.IH [OF this] Cons.prems(2,3) have "run_ok cmp ((xs @ [y]) @ ys) (frequency_loop cmp ys ?s)" by simp
  moreover have "frequency_loop cmp (y # ys) s = frequency_loop cmp ys ?s" by simp
  ultimately show ?case by (simp only: append_assoc append_Cons append_Nil)
qed simp

lemma most_frequent_ok:
  assumes "sorted_wrt (\<lambda>x y. cmp x y \<le> 0) sl" "set sl \<subseteq> S" "sl \<noteq> []"
  shows "\<exists>m. smartlist_get_most_frequent cmp sl = (Some m, occurrences cmp sl m) \<and> m \<in> set sl \<and>
    (\<forall>x \<in> set sl. occurrences cmp sl x < occurrences cmp sl m \<or>
       occurrences cmp sl x = occurrences cmp sl m \<and> cmp x m \<le> 0)"
proof -
  let ?s0 = "\<lparr>most_frequent = None, most_frequent_count = 0, cur = None, cur_count = 0\<rparr>"
  have s: "run_ok cmp sl (frequency_loop cmp sl ?s0)"
    using frequency_loop_ok [of "[]" ?s0 sl] assms by (simp add: run_ok_def)
  then obtain c where "cur (frequency_loop cmp sl ?s0) = Some c"
    using assms(3) by (cases "cur (frequency_loop cmp sl ?s0)") (auto simp: run_ok_def)
  from close_run_best [OF s this assms(2)] show ?thesis
    using assms(3) by (auto simp: smartlist_get_most_frequent_def Let_def best_before_def split: option.splits)
qed

end

section \<open>The unordered and string operations\<close>

lemma reverse_loop_rev: "reverse_loop (a @ m @ b) (length a) (int (length a + length m) - 1) = a @ rev m @ b"
proof (induction "length m" arbitrary: a m b rule: less_induct)
  case less
  show ?case
  proof (cases "length m \<le> 1")
    case True
    then have "m = [] \<or> (\<exists>x. m = [x])" by (cases m) auto
    then show ?thesis using True by (subst reverse_loop.simps) auto
  next
    case False
    then obtain x m0 where m0: "m = x # m0" "m0 \<noteq> []" by (cases m) auto
    then obtain m1 y where m: "m = x # m1 @ [y]" by (metis append_butlast_last_id)
    let ?xs = "a @ m @ b" and ?j = "length a + length m - 1"
    have j: "nat (int (length a + length m) - 1) = length a + Suc (length m1)" by (simp add: m)
    have n: "?xs ! length a = x" "?xs ! (length a + Suc (length m1)) = y" by (simp_all add: m nth_append)
    have u: "?xs[length a := y, length a + Suc (length m1) := x] = (a @ [y]) @ m1 @ ([x] @ b)"
      by (simp add: m list_update_append)
    have "reverse_loop ((a @ [y]) @ m1 @ ([x] @ b)) (length (a @ [y])) (int (length (a @ [y]) + length m1) - 1) =
        (a @ [y]) @ rev m1 @ ([x] @ b)"
      by (rule less) (simp add: m)
    moreover have "reverse_loop ?xs (length a) (int (length a + length m) - 1) =
        reverse_loop (?xs[length a := y, length a + Suc (length m1) := x]) (length a + 1) (int (length a + length m) - 2)"
      using False by (subst reverse_loop.simps) (simp only: j n, simp)
    ultimately show ?thesis unfolding u by (simp add: m)
  qed
qed

lemma reverse_rev: "smartlist_reverse sl = rev sl"
  using reverse_loop_rev [of "[]" sl "[]"] by (simp add: smartlist_reverse_def)

lemma drop_swapping_mset:
  "\<forall>x \<in> set (take i xs). \<not> P x \<Longrightarrow> mset (drop_swapping P xs i) = filter_mset (\<lambda>x. \<not> P x) (mset xs)"
proof (induction P xs i rule: drop_swapping.induct)
  case (1 P xs i)
  show ?case
  proof (cases "i < length xs")
    case False
    then have "\<forall>x \<in> set xs. \<not> P x" using "1.prems" by simp
    then have "filter_mset (\<lambda>x. \<not> P x) (mset xs) = mset xs" by (simp add: filter_mset_eq_conv)
    then show ?thesis using False by (simp add: drop_swapping.simps [of P xs i])
  next
    case True
    show ?thesis
    proof (cases "P (xs ! i)")
      case p: True
      have "filter_mset (\<lambda>x. \<not> P x) (mset xs - {#xs ! i#}) = filter_mset (\<lambda>x. \<not> P x) (mset xs)"
        using p by (auto simp: multiset_eq_iff)
      then show ?thesis using "1.IH"(1) [OF True p] "1.prems" True p
        by (simp add: drop_swapping.simps [of P xs i] take_swap_end mset_swap_end)
    next
      case p: False
      then show ?thesis using "1.IH"(2) [OF True p] "1.prems" True
        by (simp add: drop_swapping.simps [of P xs i] take_Suc_conv_app_nth)
    qed
  qed
qed

text \<open>The loop on lists is what \<open>remove_loop\<close> of the array does to the elements.\<close>

lemma remove_loop_elems: "sl_ok sl \<Longrightarrow> elems (remove_loop sl e i) = drop_swapping (\<lambda>x. x = e) (elems sl) i"
proof (induction sl e i rule: remove_loop.induct)
  case (1 sl e i)
  have len: "length (elems sl) = num_used sl" by (rule sl_ok_length [OF "1.prems"])
  have nth: "i < num_used sl \<Longrightarrow> sl_list sl ! i = elems sl ! i" by (simp add: elems_def)
  show ?case
    using 1 swap_with_end_ok [OF "1.prems", of i] len nth
    by (subst remove_loop.simps, subst drop_swapping.simps) auto
qed

lemma subtract_mset: "mset (smartlist_subtract sl1 sl2) = filter_mset (\<lambda>x. x \<notin> set sl2) (mset sl1)"
proof (induction sl2 arbitrary: sl1)
  case (Cons e sl2)
  have "mset (smartlist_subtract sl1 (e # sl2)) = filter_mset (\<lambda>x. x \<notin> set sl2) (mset (drop_swapping (\<lambda>x. x = e) sl1 0))"
    using Cons [of "drop_swapping (\<lambda>x. x = e) sl1 0"] by (simp add: smartlist_subtract_def)
  also have "\<dots> = filter_mset (\<lambda>x. x \<notin> set (e # sl2)) (mset sl1)"
    by (simp add: drop_swapping_mset filter_filter_mset conj_commute)
  finally show ?case .
qed (simp add: smartlist_subtract_def)

lemma join_loop_eq: "join_loop sl j dst = dst @ join_with j sl"
  by (induction sl j dst rule: join_loop.induct) (auto simp: join_with_Cons)

lemma join_size_eq: "join_size sl (length j) n = n + length (join_with j sl)"
  by (induction sl "length j" n rule: join_size.induct) (auto simp: join_with_Cons)

section \<open>Properties\<close>

text \<open>Sorted lists.  On a list sorted by the comparison, \<open>smartlist_uniq\<close> keeps a subsequence that is
  strictly increasing and in which every element has an equal; \<open>smartlist_get_most_frequent\<close> returns a member with
  its number of occurrences, no member occurs more often, and among those that occur as often it returns the last.\<close>

theorem sorted_list_operations:
  assumes "comparison S cmp" "sorted_wrt (\<lambda>x y. cmp x y \<le> 0) sl" "set sl \<subseteq> S"
  shows "sorted_wrt (\<lambda>x y. cmp x y < 0) (smartlist_uniq cmp sl) \<and> subseq (smartlist_uniq cmp sl) sl \<and>
    (\<forall>x \<in> set sl. \<exists>y \<in> set (smartlist_uniq cmp sl). cmp y x = 0) \<and>
    (sl = [] \<longrightarrow> smartlist_get_most_frequent cmp sl = (None, 0)) \<and>
    (sl \<noteq> [] \<longrightarrow> (\<exists>m. smartlist_get_most_frequent cmp sl = (Some m, occurrences cmp sl m) \<and> m \<in> set sl \<and>
       (\<forall>x \<in> set sl. occurrences cmp sl x < occurrences cmp sl m \<or>
          occurrences cmp sl x = occurrences cmp sl m \<and> cmp x m \<le> 0)))"
  using comparison.uniq_ok [OF assms] comparison.most_frequent_ok [OF assms]
  by (simp add: smartlist_get_most_frequent_def)

lemma sorted_list_operations_witness:
  "sorted_wrt (\<lambda>x y. compare_string_ptrs x y < 0) (smartlist_uniq compare_string_ptrs [''a'', ''b'', ''b'']) \<and>
   (\<exists>m. smartlist_get_most_frequent compare_string_ptrs [''a'', ''b'', ''b''] =
      (Some m, occurrences compare_string_ptrs [''a'', ''b'', ''b''] m))"
proof -
  let ?sl = "[''a'', ''b'', ''b'']"
  have "sorted_wrt (\<lambda>x y. compare_string_ptrs x y \<le> 0) ?sl" "set ?sl \<subseteq> {s. NUL \<notin> set s}" "?sl \<noteq> []"
    by (simp_all add: compare_string_ptrs_def)
  then show ?thesis using sorted_list_operations [OF string_order.comparison_axioms, of ?sl] by blast
qed

text \<open>Unordered operations and joining.  Reversal is list reversal; intersection, subtraction and string
  removal keep exactly the elements they should, with their multiplicity, and the loop they share is what the array
  of the core file does to its elements; joined text is the strings with the separator between them, exactly as
  long as the buffer allocated for it; and joining the pieces that \<open>smartlist_split_string\<close> cuts a text into gives the
  text back.\<close>

theorem list_set_and_join:
  assumes "sep \<noteq> []" "NUL \<notin> set e" "\<forall>s \<in> set strs. NUL \<notin> set s" "sl_ok arr"
  shows "smartlist_reverse sl1 = rev sl1 \<and>
    mset (smartlist_intersect sl1 sl2) = filter_mset (\<lambda>x. x \<in> set sl2) (mset sl1) \<and>
    mset (smartlist_subtract sl1 sl2) = filter_mset (\<lambda>x. x \<notin> set sl2) (mset sl1) \<and>
    mset (smartlist_string_remove strs e) = filter_mset (\<lambda>s. s \<noteq> e) (mset strs) \<and>
    elems (smartlist_remove arr (Some p)) = drop_swapping (\<lambda>x. x = Some p) (elems arr) 0 \<and>
    snd (smartlist_join_strings strs sep terminate) = join_size strs (length sep) (if terminate then length sep else 0) \<and>
    fst (smartlist_join_strings strs sep terminate) = join_with sep strs @ (if terminate then sep else []) \<and>
    (\<exists>pieces n. smartlist_split_string [] str (Some sep) no_flags 0 = Some (pieces, n) \<and>
       fst (smartlist_join_strings pieces sep False) = str)"
proof -
  have "filter_mset (\<lambda>x. strcmp e x \<noteq> 0) (mset strs) = filter_mset (\<lambda>s. s \<noteq> e) (mset strs)"
    using assms(2,3) strcmp_zero_iff by (intro filter_mset_cong) auto
  moreover have "smartlist_split_string [] str (Some sep) no_flags 0 = Some (split_at sep str, int (length (split_at sep str)))"
    using split_loop_no_flags [OF assms(1), of str 0 "[]"] by (simp add: smartlist_split_string_def)
  moreover have "fst (smartlist_join_strings (split_at sep str) sep False) = str"
    using split_at_join [OF assms(1), of str]
    by (simp add: smartlist_join_strings_def smartlist_join_strings2_def Let_def join_loop_eq)
  ultimately show ?thesis
    using remove_loop_elems [OF assms(4), of "Some p" 0]
    by (simp add: reverse_rev smartlist_intersect_def smartlist_string_remove_def drop_swapping_mset subtract_mset
        smartlist_join_strings_def smartlist_join_strings2_def Let_def join_loop_eq join_size_eq smartlist_remove_def)
qed

lemma list_set_and_join_witness:
  "mset (smartlist_intersect [1, 2, 3] [2 :: nat]) = filter_mset (\<lambda>x. x \<in> set [2]) (mset [1, 2, 3]) \<and>
   fst (smartlist_join_strings [''a'', ''b''] '','' True) = ''a,b,''"
proof -
  have "sl_ok (smartlist_new :: nat smartlist_t)" by (rule new_ok)
  then show ?thesis
    using list_set_and_join [of "'',''" "''x''" "[''a'', ''b'']" "smartlist_new :: nat smartlist_t" "[1, 2, 3]" "[2 :: nat]" 5 True "''a,b''"]
    by simp
qed

end
