(* ===== verification/Pqueue.thy ===== *)
theory Pqueue
  imports Smart_List
begin

text \<open>
  The array-based priority queue of \<open>lib/container/smartlist.c\<close>, whose items store their own
  index.  Its state is the list of items and the index field of every item; the comparison callback
  satisfies the locale \<open>comparison\<close>.  A failed assertion is the result \<open>None\<close>.
\<close>

section \<open>Definitions\<close>

text \<open>The list of items, and the index field of every item.\<close>

record 'a pqueue =
  pq_list :: "'a list"
  pq_idx :: "'a \<Rightarrow> int"

definition MAX_PARENT_IDX :: nat where "MAX_PARENT_IDX = (2147483647 - 2) div 2"
definition IDX_MAY_HAVE_CHILDREN :: "nat \<Rightarrow> bool" where "IDX_MAY_HAVE_CHILDREN i = (i \<le> MAX_PARENT_IDX)"
definition LEFT_CHILD :: "nat \<Rightarrow> nat" where "LEFT_CHILD i = 2 * i + 1"
definition RIGHT_CHILD :: "nat \<Rightarrow> nat" where "RIGHT_CHILD i = 2 * i + 2"
definition PARENT :: "nat \<Rightarrow> nat" where "PARENT i = (i - 1) div 2"

definition UPDATE_IDX :: "nat \<Rightarrow> 'a pqueue \<Rightarrow> 'a pqueue" where
  "UPDATE_IDX i q = q\<lparr>pq_idx := (pq_idx q)(pq_list q ! i := int i)\<rparr>"

text \<open>Exchange the items at two positions and store their new indices.\<close>

definition exchange :: "nat \<Rightarrow> nat \<Rightarrow> 'a pqueue \<Rightarrow> 'a pqueue" where
  "exchange i j q =
     UPDATE_IDX j (UPDATE_IDX i (q\<lparr>pq_list := (pq_list q)[i := pq_list q ! j, j := pq_list q ! i]\<rparr>))"

lemma length_exchange [simp]: "length (pq_list (exchange i j q)) = length (pq_list q)"
  by (simp add: exchange_def UPDATE_IDX_def)

definition best_of :: "('a \<Rightarrow> 'a \<Rightarrow> int) \<Rightarrow> 'a list \<Rightarrow> nat \<Rightarrow> nat" where
  "best_of cmp l idx =
     (let left_idx = LEFT_CHILD idx;
          best_idx = (if cmp (l ! idx) (l ! left_idx) < 0 then idx else left_idx)
      in if left_idx + 1 < length l \<and> cmp (l ! (left_idx + 1)) (l ! best_idx) < 0 then left_idx + 1
         else best_idx)"

function smartlist_heapify :: "('a \<Rightarrow> 'a \<Rightarrow> int) \<Rightarrow> 'a pqueue \<Rightarrow> nat \<Rightarrow> 'a pqueue" where
  "smartlist_heapify cmp q idx =
     (if \<not> IDX_MAY_HAVE_CHILDREN idx then q
      else if LEFT_CHILD idx \<ge> length (pq_list q) then q
      else let best_idx = best_of cmp (pq_list q) idx
           in if best_idx = idx then q else smartlist_heapify cmp (exchange idx best_idx q) best_idx)"
  by pat_completeness auto
termination
  by (relation "measure (\<lambda>(cmp, q, idx). length (pq_list q) - idx)")
    (auto simp: best_of_def LEFT_CHILD_def Let_def split: if_splits)

declare smartlist_heapify.simps [simp del]

function sift_up :: "('a \<Rightarrow> 'a \<Rightarrow> int) \<Rightarrow> 'a pqueue \<Rightarrow> nat \<Rightarrow> 'a pqueue" where
  "sift_up cmp q idx =
     (if idx = 0 then q
      else let parent = PARENT idx
           in if cmp (pq_list q ! idx) (pq_list q ! parent) < 0
              then sift_up cmp (exchange parent idx q) parent
              else q)"
  by pat_completeness auto
termination by (relation "measure (\<lambda>(cmp, q, idx). idx)") (auto simp: PARENT_def)

declare sift_up.simps [simp del]

definition smartlist_pqueue_add :: "('a \<Rightarrow> 'a \<Rightarrow> int) \<Rightarrow> 'a pqueue \<Rightarrow> 'a \<Rightarrow> 'a pqueue option" where
  "smartlist_pqueue_add cmp q item =
     (if \<not> length (pq_list q) + 1 \<le> MAX_CAPACITY then None
      else let q = q\<lparr>pq_list := pq_list q @ [item]\<rparr>;
               q = UPDATE_IDX (length (pq_list q) - 1) q
           in Some (sift_up cmp q (length (pq_list q) - 1)))"

definition smartlist_pqueue_pop :: "('a \<Rightarrow> 'a \<Rightarrow> int) \<Rightarrow> 'a pqueue \<Rightarrow> ('a \<times> 'a pqueue) option" where
  "smartlist_pqueue_pop cmp q =
     (if pq_list q = [] then None
      else let top_item = pq_list q ! 0;
               l = pq_list q;
               q = q\<lparr>pq_idx := (pq_idx q)(top_item := - 1), pq_list := butlast l\<rparr>
           in if pq_list q \<noteq> []
              then Some (top_item, smartlist_heapify cmp (UPDATE_IDX 0 (q\<lparr>pq_list := (pq_list q)[0 := last l]\<rparr>)) 0)
              else Some (top_item, q))"

definition smartlist_pqueue_remove :: "('a \<Rightarrow> 'a \<Rightarrow> int) \<Rightarrow> 'a pqueue \<Rightarrow> 'a \<Rightarrow> 'a pqueue option" where
  "smartlist_pqueue_remove cmp q item =
     (let idx = pq_idx q item; l = pq_list q
      in if \<not> idx \<ge> 0 then None
         else if \<not> (nat idx < length l \<and> l ! nat idx = item) then None
         else let q = q\<lparr>pq_list := butlast l, pq_idx := (pq_idx q)(item := - 1)\<rparr>
              in if nat idx = length (pq_list q) then Some q
                 else Some (smartlist_heapify cmp
                        (UPDATE_IDX (nat idx) (q\<lparr>pq_list := (pq_list q)[nat idx := last l]\<rparr>)) (nat idx)))"

text \<open>Whether all assertions of \<open>smartlist_pqueue_assert_ok\<close> hold.\<close>

definition smartlist_pqueue_assert_ok :: "('a \<Rightarrow> 'a \<Rightarrow> int) \<Rightarrow> 'a pqueue \<Rightarrow> bool" where
  "smartlist_pqueue_assert_ok cmp q =
     list_all (\<lambda>i. (i > 0 \<longrightarrow> cmp (pq_list q ! PARENT i) (pq_list q ! i) \<le> 0) \<and> pq_idx q (pq_list q ! i) = int i)
       [0..<length (pq_list q)]"

section \<open>The heap\<close>

text \<open>Positions other than the root are not below their parents; \<open>k\<close> is the exception while an item moves
  down, and a child of \<open>k\<close> then is not below the parent of \<open>k\<close>.\<close>

definition edge :: "('a \<Rightarrow> 'a \<Rightarrow> int) \<Rightarrow> 'a list \<Rightarrow> nat \<Rightarrow> bool" where
  "edge cmp l i \<longleftrightarrow> cmp (l ! PARENT i) (l ! i) \<le> 0"

definition is_heap :: "('a \<Rightarrow> 'a \<Rightarrow> int) \<Rightarrow> 'a list \<Rightarrow> bool" where
  "is_heap cmp l \<longleftrightarrow> (\<forall>i. 0 < i \<and> i < length l \<longrightarrow> edge cmp l i)"

definition heap_below :: "('a \<Rightarrow> 'a \<Rightarrow> int) \<Rightarrow> 'a list \<Rightarrow> nat \<Rightarrow> bool" where
  "heap_below cmp l k \<longleftrightarrow> (\<forall>i. 0 < i \<and> i < length l \<and> PARENT i \<noteq> k \<longrightarrow> edge cmp l i) \<and>
     (\<forall>i. 0 < k \<and> 0 < i \<and> i < length l \<and> PARENT i = k \<longrightarrow> cmp (l ! PARENT k) (l ! i) \<le> 0)"

definition heap_above :: "('a \<Rightarrow> 'a \<Rightarrow> int) \<Rightarrow> 'a list \<Rightarrow> nat \<Rightarrow> bool" where
  "heap_above cmp l k \<longleftrightarrow> (\<forall>i. 0 < i \<and> i < length l \<and> i \<noteq> k \<longrightarrow> edge cmp l i) \<and>
     (\<forall>i. 0 < k \<and> 0 < i \<and> i < length l \<and> PARENT i = k \<longrightarrow> cmp (l ! PARENT k) (l ! i) \<le> 0)"

definition idx_ok :: "'a pqueue \<Rightarrow> bool" where
  "idx_ok q \<longleftrightarrow> (\<forall>i < length (pq_list q). pq_idx q (pq_list q ! i) = int i)"

lemma assert_ok_iff: "smartlist_pqueue_assert_ok cmp q \<longleftrightarrow> is_heap cmp (pq_list q) \<and> idx_ok q"
  by (auto simp: smartlist_pqueue_assert_ok_def is_heap_def edge_def idx_ok_def list_all_iff)

lemma idx_ok_distinct: "idx_ok q \<Longrightarrow> distinct (pq_list q)"
  unfolding idx_ok_def distinct_conv_nth by (metis of_nat_eq_iff)

lemma parent_less: "0 < i \<Longrightarrow> PARENT i < i"
  by (simp add: PARENT_def)

lemma parent_children: "0 < i \<Longrightarrow> PARENT i = k \<longleftrightarrow> i = LEFT_CHILD k \<or> i = RIGHT_CHILD k"
  unfolding PARENT_def LEFT_CHILD_def RIGHT_CHILD_def by presburger

lemma child_pos: "0 < LEFT_CHILD k" "0 < RIGHT_CHILD k" "k < LEFT_CHILD k" "k < RIGHT_CHILD k"
    "PARENT (LEFT_CHILD k) = k" "PARENT (RIGHT_CHILD k) = k" "LEFT_CHILD k + 1 = RIGHT_CHILD k"
  by (simp_all add: LEFT_CHILD_def RIGHT_CHILD_def PARENT_def)

lemma exchange_list: "pq_list (exchange i j q) = (pq_list q)[i := pq_list q ! j, j := pq_list q ! i]"
  by (simp add: exchange_def UPDATE_IDX_def)

lemma mset_exchange: "i < length (pq_list q) \<Longrightarrow> j < length (pq_list q) \<Longrightarrow> mset (pq_list (exchange i j q)) = mset (pq_list q)"
  by (simp add: exchange_list mset_swap)

lemma exchange_idx_ok:
  assumes "idx_ok q" "i < length (pq_list q)" "j < length (pq_list q)" "i \<noteq> j"
  shows "idx_ok (exchange i j q)"
  unfolding idx_ok_def
proof (intro allI impI)
  fix k assume k: "k < length (pq_list (exchange i j q))"
  let ?l = "pq_list q"
  have d: "distinct ?l" by (rule idx_ok_distinct [OF assms(1)])
  have f: "pq_idx (exchange i j q) = (pq_idx q)(?l ! j := int i, ?l ! i := int j)"
    using assms(2-4) by (simp add: exchange_def UPDATE_IDX_def nth_list_update)
  show "pq_idx (exchange i j q) (pq_list (exchange i j q) ! k) = int k"
    using assms d k unfolding f exchange_list
    by (auto simp: nth_list_update nth_eq_iff_index_eq idx_ok_def)
qed

lemma exchange_idx_other: "x \<notin> set (pq_list q) \<Longrightarrow> i < length (pq_list q) \<Longrightarrow> j < length (pq_list q) \<Longrightarrow>
    pq_idx (exchange i j q) x = pq_idx q x"
  by (auto simp: exchange_def UPDATE_IDX_def nth_list_update)

lemma pq_update_comm: "q\<lparr>pq_idx := f, pq_list := l\<rparr> = q\<lparr>pq_list := l, pq_idx := f\<rparr>"
  by (cases q) simp

lemma best_of_range:
  assumes "LEFT_CHILD k < length l"
  shows "best_of cmp l k \<in> {k, LEFT_CHILD k, RIGHT_CHILD k}" "best_of cmp l k < length l"
  using assms child_pos(3) [of k] by (auto simp: best_of_def Let_def child_pos(7) [symmetric])

context comparison
begin

lemma best_of_least:
  assumes "set l \<subseteq> S" "LEFT_CHILD k < length l" "j \<in> {k, LEFT_CHILD k, RIGHT_CHILD k}" "j < length l"
  shows "cmp (l ! best_of cmp l k) (l ! j) \<le> 0"
proof -
  have S: "i < length l \<Longrightarrow> l ! i \<in> S" for i using assms(1) by auto
  have k: "k < length l" using assms(2) child_pos(3) [of k] by linarith
  define b0 where "b0 = (if cmp (l ! k) (l ! LEFT_CHILD k) < 0 then k else LEFT_CHILD k)"
  have b0: "b0 < length l" "cmp (l ! b0) (l ! k) \<le> 0" "cmp (l ! b0) (l ! LEFT_CHILD k) \<le> 0"
    using S [OF k] S [OF assms(2)] assms(2) k refl not_less by (auto simp: b0_def)
  have best: "best_of cmp l k = (if RIGHT_CHILD k < length l \<and> cmp (l ! RIGHT_CHILD k) (l ! b0) < 0 then RIGHT_CHILD k else b0)"
    by (simp add: best_of_def b0_def Let_def child_pos(7) [symmetric])
  show ?thesis
  proof (cases "RIGHT_CHILD k < length l \<and> cmp (l ! RIGHT_CHILD k) (l ! b0) < 0")
    case True
    then show ?thesis using assms(3) b0 S [OF k] S [OF assms(2)] S [OF b0(1)] S [of "RIGHT_CHILD k"] refl
      trans [of "l ! RIGHT_CHILD k" "l ! b0" "l ! k"] trans [of "l ! RIGHT_CHILD k" "l ! b0" "l ! LEFT_CHILD k"]
      by (auto simp: best)
  next
    case False
    then have e: "best_of cmp l k = b0" by (simp only: best if_False)
    show ?thesis using assms(3,4) b0 False not_less [of "l ! RIGHT_CHILD k" "l ! b0"] S [of "RIGHT_CHILD k"] S [OF b0(1)]
      unfolding e by auto
  qed
qed

lemma heap_below_exchange:
  assumes "set l \<subseteq> S" "heap_below cmp l k" "LEFT_CHILD k < length l" "best_of cmp l k \<noteq> k"
  defines "b \<equiv> best_of cmp l k"
  shows "heap_below cmp (l[k := l ! b, b := l ! k]) b"
proof -
  let ?l = "l[k := l ! b, b := l ! k]"
  have b: "b \<noteq> k" "b < length l" "b = LEFT_CHILD k \<or> b = RIGHT_CHILD k"
    using assms(4) best_of_range [OF assms(3), of cmp] by (auto simp: b_def)
  have k: "k < length l" using assms(3) child_pos(3) [of k] by linarith
  have pb: "PARENT b = k" "0 < b" using b(3) child_pos by auto
  have ok: "0 < i \<Longrightarrow> i < length l \<Longrightarrow> PARENT i \<noteq> k \<Longrightarrow> cmp (l ! PARENT i) (l ! i) \<le> 0" for i
    using assms(2) by (simp add: heap_below_def edge_def)
  have up: "0 < k \<Longrightarrow> 0 < i \<Longrightarrow> i < length l \<Longrightarrow> PARENT i = k \<Longrightarrow> cmp (l ! PARENT k) (l ! i) \<le> 0" for i
    using assms(2) by (simp add: heap_below_def)
  have least: "j \<in> {k, LEFT_CHILD k, RIGHT_CHILD k} \<Longrightarrow> j < length l \<Longrightarrow> cmp (l ! b) (l ! j) \<le> 0" for j
    unfolding b_def by (rule best_of_least [OF assms(1,3)])
  have nth: "i < length l \<Longrightarrow> ?l ! i = (if i = b then l ! k else if i = k then l ! b else l ! i)" for i
    using b(2) k by (simp add: nth_list_update)
  have "edge cmp ?l i" if i: "0 < i" "i < length l" "PARENT i \<noteq> b" for i
  proof -
    have p: "PARENT i < length l" using parent_less [OF i(1)] i(2) by linarith
    consider "i = b" | "i = k" | "i \<noteq> b" "i \<noteq> k" "PARENT i = k" | "i \<noteq> b" "i \<noteq> k" "PARENT i \<noteq> k" by blast
    then show ?thesis
    proof cases
      case 1
      then show ?thesis using nth [OF p] nth [OF i(2)] pb b(1) least [of k] k by (simp add: edge_def)
    next
      case 2
      then show ?thesis using nth [OF p] nth [OF i(2)] b(1) up [of b] pb b(2) i parent_less [OF i(1)] by (simp add: edge_def)
    next
      case 3
      then have "i = LEFT_CHILD k \<or> i = RIGHT_CHILD k" using parent_children [OF i(1)] by blast
      then show ?thesis using nth [OF p] nth [OF i(2)] 3 least [of i] i(2) b(1) by (simp add: edge_def)
    next
      case 4
      then show ?thesis using nth [OF p] nth [OF i(2)] ok [OF i(1,2)] i(3) by (simp add: edge_def)
    qed
  qed
  moreover have "cmp (?l ! PARENT b) (?l ! i) \<le> 0" if i: "0 < i" "i < length l" "PARENT i = b" for i
  proof -
    have "i \<noteq> b" "i \<noteq> k" using parent_less [OF i(1)] i(3) pb parent_less [OF pb(2)] by auto
    then show ?thesis using nth [OF i(2)] nth [OF k] ok [OF i(1,2)] i(3) b(1) pb(1) by simp
  qed
  ultimately show ?thesis by (auto simp: heap_below_def)
qed

lemma heapify_ok:
  "set (pq_list q) \<subseteq> S \<Longrightarrow> heap_below cmp (pq_list q) k \<Longrightarrow> idx_ok q \<Longrightarrow> length (pq_list q) \<le> MAX_CAPACITY \<Longrightarrow>
     is_heap cmp (pq_list (smartlist_heapify cmp q k)) \<and> idx_ok (smartlist_heapify cmp q k) \<and>
     mset (pq_list (smartlist_heapify cmp q k)) = mset (pq_list q) \<and>
     (\<forall>x. x \<notin> set (pq_list q) \<longrightarrow> pq_idx (smartlist_heapify cmp q k) x = pq_idx q x)"
proof (induction "length (pq_list q) - k" arbitrary: q k rule: less_induct)
  case less
  let ?l = "pq_list q" and ?b = "best_of cmp (pq_list q) k"
  show ?case
  proof (cases "LEFT_CHILD k < length ?l")
    case False
    have "PARENT i \<noteq> k" if "0 < i" "i < length ?l" for i
      using that parent_children [OF that(1), of k] child_pos(7) [of k] False by linarith
    then have "is_heap cmp ?l" using less.prems(2) by (auto simp: heap_below_def is_heap_def)
    then show ?thesis using False less.prems(3) by (simp add: smartlist_heapify.simps [of cmp q k])
  next
    case True
    have k: "k < length ?l" using True child_pos(3) [of k] by linarith
    have may: "IDX_MAY_HAVE_CHILDREN k"
      using True less.prems(4) by (simp add: IDX_MAY_HAVE_CHILDREN_def MAX_PARENT_IDX_def MAX_CAPACITY_def LEFT_CHILD_def)
    show ?thesis
    proof (cases "?b = k")
      case b: True
      have "edge cmp ?l i" if i: "0 < i" "i < length ?l" for i
      proof (cases "PARENT i = k")
        case True
        then have "i \<in> {k, LEFT_CHILD k, RIGHT_CHILD k}" using parent_children [OF i(1)] by blast
        then show ?thesis using best_of_least [OF less.prems(1) \<open>LEFT_CHILD k < length ?l\<close> _ i(2)] b True
          by (simp add: edge_def)
      next
        case False
        then show ?thesis using less.prems(2) i by (simp add: heap_below_def)
      qed
      then have "is_heap cmp ?l" by (simp add: is_heap_def)
      then show ?thesis using True may b less.prems(3) by (simp add: smartlist_heapify.simps [of cmp q k] Let_def)
    next
      case b: False
      let ?q = "exchange k ?b q"
      have r: "?b < length ?l" "k < ?b" using best_of_range [OF True, of cmp] b child_pos(3,4) [of k] by auto
      have m: "mset (pq_list ?q) = mset ?l" using mset_exchange [OF k r(1)] .
      then have s: "set (pq_list ?q) = set ?l" by (metis set_mset_mset)
      have "smartlist_heapify cmp q k = smartlist_heapify cmp ?q ?b"
        using True may b by (simp add: smartlist_heapify.simps [of cmp q k] Let_def)
      moreover have "length (pq_list ?q) - ?b < length ?l - k" using k r by simp
      moreover have "heap_below cmp (pq_list ?q) ?b"
        unfolding exchange_list by (rule heap_below_exchange [OF less.prems(1,2) True b])
      moreover have "idx_ok ?q" by (rule exchange_idx_ok [OF less.prems(3) k r(1)]) (use b in simp)
      ultimately show ?thesis
        using less.hyps [of ?q ?b] less.prems(1,4) m s exchange_idx_other [of _ q k ?b, OF _ k r(1)] by simp
    qed
  qed
qed

lemma heap_above_exchange:
  assumes "set l \<subseteq> S" "heap_above cmp l k" "0 < k" "k < length l" "cmp (l ! k) (l ! PARENT k) < 0"
  defines "p \<equiv> PARENT k"
  shows "heap_above cmp (l[p := l ! k, k := l ! p]) p"
proof -
  let ?l = "l[p := l ! k, k := l ! p]"
  have p: "p < k" "p < length l" using parent_less [OF assms(3)] assms(4) by (simp_all add: p_def)
  have S: "i < length l \<Longrightarrow> l ! i \<in> S" for i using assms(1) by auto
  have ok: "0 < i \<Longrightarrow> i < length l \<Longrightarrow> i \<noteq> k \<Longrightarrow> cmp (l ! PARENT i) (l ! i) \<le> 0" for i
    using assms(2) by (simp add: heap_above_def edge_def)
  have up: "0 < i \<Longrightarrow> i < length l \<Longrightarrow> PARENT i = k \<Longrightarrow> cmp (l ! p) (l ! i) \<le> 0" for i
    using assms(2,3) by (simp add: heap_above_def p_def)
  have nth: "i < length l \<Longrightarrow> ?l ! i = (if i = k then l ! p else if i = p then l ! k else l ! i)" for i
    using p assms(4) by (simp add: nth_list_update)
  have kp: "cmp (l ! k) (l ! p) \<le> 0" using assms(5) by (simp add: p_def)
  have "edge cmp ?l i" if i: "0 < i" "i < length l" "i \<noteq> p" for i
  proof -
    have pi: "PARENT i < length l" "PARENT i \<noteq> i" using parent_less [OF i(1)] i(2) by linarith+
    consider "i = k" | "i \<noteq> k" "PARENT i = k" | "i \<noteq> k" "PARENT i = p" | "i \<noteq> k" "PARENT i \<noteq> k" "PARENT i \<noteq> p" by blast
    then show ?thesis
    proof cases
      case 1
      then show ?thesis using nth [OF pi(1)] nth [OF i(2)] kp p by (simp add: edge_def flip: p_def)
    next
      case 2
      then show ?thesis using nth [OF pi(1)] nth [OF i(2)] up i by (simp add: edge_def)
    next
      case 3
      then have "cmp (l ! k) (l ! i) \<le> 0"
        using trans [OF S [OF assms(4)] S [OF p(2)] S [OF i(2)] kp] ok [OF i(1,2)] by simp
      then show ?thesis using 3 nth [OF pi(1)] nth [OF i(2)] i(3) p by (simp add: edge_def)
    next
      case 4
      then show ?thesis using nth [OF pi(1)] nth [OF i(2)] ok [OF i(1,2)] i(3) by (simp add: edge_def)
    qed
  qed
  moreover have "cmp (?l ! PARENT p) (?l ! i) \<le> 0" if i: "0 < p" "0 < i" "i < length l" "PARENT i = p" for i
  proof -
    have pp: "PARENT p < length l" "PARENT p < p" using parent_less [OF i(1)] p by linarith+
    have a: "cmp (l ! PARENT p) (l ! p) \<le> 0" using ok [OF i(1) p(2)] p by simp
    have "i \<noteq> p" using parent_less [OF i(2)] i(4) by auto
    moreover have "cmp (l ! PARENT p) (l ! i) \<le> 0" if "i \<noteq> k"
      using trans [OF S [OF pp(1)] S [OF p(2)] S [OF i(3)] a] ok [OF i(2,3) that] i(4) by simp
    ultimately show ?thesis using nth [OF pp(1)] nth [OF i(3)] a pp p by auto
  qed
  ultimately show ?thesis by (auto simp: heap_above_def)
qed

lemma sift_up_ok:
  "set (pq_list q) \<subseteq> S \<Longrightarrow> heap_above cmp (pq_list q) k \<Longrightarrow> idx_ok q \<Longrightarrow> k < length (pq_list q) \<Longrightarrow>
     is_heap cmp (pq_list (sift_up cmp q k)) \<and> idx_ok (sift_up cmp q k) \<and>
     mset (pq_list (sift_up cmp q k)) = mset (pq_list q)"
proof (induction k arbitrary: q rule: less_induct)
  case (less k)
  let ?l = "pq_list q"
  show ?case
  proof (cases "0 < k \<and> cmp (?l ! k) (?l ! PARENT k) < 0")
    case False
    have "edge cmp ?l i" if i: "0 < i" "i < length ?l" for i
    proof (cases "i = k")
      case True
      have "?l ! k \<in> S" "?l ! PARENT k \<in> S"
        using less.prems(1,4) parent_less [OF i(1)] True by auto
      then show ?thesis using False True i not_less [of "?l ! k" "?l ! PARENT k"] by (simp add: edge_def)
    next
      case False
      then show ?thesis using less.prems(2) i by (simp add: heap_above_def)
    qed
    then have "is_heap cmp ?l" by (simp add: is_heap_def)
    then show ?thesis using False less.prems(3) by (auto simp: sift_up.simps [of cmp q k] Let_def)
  next
    case True
    let ?q = "exchange (PARENT k) k q"
    have p: "PARENT k < k" "PARENT k < length ?l" using parent_less [of k] True less.prems(4) by auto
    have m: "mset (pq_list ?q) = mset ?l" using mset_exchange [OF p(2) less.prems(4)] .
    then have s: "set (pq_list ?q) = set ?l" by (metis set_mset_mset)
    have "sift_up cmp q k = sift_up cmp ?q (PARENT k)" using True by (simp add: sift_up.simps [of cmp q k] Let_def)
    moreover have "heap_above cmp (pq_list ?q) (PARENT k)"
      unfolding exchange_list using heap_above_exchange [OF less.prems(1,2) _ less.prems(4)] True by simp
    moreover have "idx_ok ?q" by (rule exchange_idx_ok [OF less.prems(3) p(2) less.prems(4)]) (use p(1) in simp)
    ultimately show ?thesis using less.IH [OF p(1), of ?q] less.prems(1) m s p by simp
  qed
qed

lemma pqueue_add_ok:
  assumes "smartlist_pqueue_assert_ok cmp q" "set (pq_list q) \<subseteq> S" "x \<in> S" "x \<notin> set (pq_list q)"
    "length (pq_list q) < MAX_CAPACITY"
  shows "\<exists>q'. smartlist_pqueue_add cmp q x = Some q' \<and> smartlist_pqueue_assert_ok cmp q' \<and>
    mset (pq_list q') = add_mset x (mset (pq_list q))"
proof -
  let ?l = "pq_list q" and ?n = "length (pq_list q)"
  define r where "r = UPDATE_IDX ?n (q\<lparr>pq_list := ?l @ [x]\<rparr>)"
  have l: "pq_list r = ?l @ [x]" by (simp add: r_def UPDATE_IDX_def)
  have h: "is_heap cmp ?l" "idx_ok q" using assms(1) by (simp_all add: assert_ok_iff)
  have "edge cmp (?l @ [x]) i" if "0 < i" "i < ?n" for i
    using h(1) that parent_less [OF that(1)] by (simp add: is_heap_def edge_def nth_append)
  moreover have "PARENT i \<noteq> ?n" if "0 < i" "i < Suc ?n" for i using parent_less [OF that(1)] that by linarith
  ultimately have "heap_above cmp (pq_list r) ?n" unfolding l by (auto simp: heap_above_def less_Suc_eq)
  moreover have "idx_ok r"
    using h(2) assms(4) by (auto simp: idx_ok_def r_def UPDATE_IDX_def nth_append less_Suc_eq)
  ultimately have "is_heap cmp (pq_list (sift_up cmp r ?n)) \<and> idx_ok (sift_up cmp r ?n) \<and>
      mset (pq_list (sift_up cmp r ?n)) = mset (pq_list r)"
    using assms(2,3) l by (intro sift_up_ok) auto
  moreover have "smartlist_pqueue_add cmp q x = Some (sift_up cmp r ?n)"
    using assms(5) by (simp add: smartlist_pqueue_add_def r_def UPDATE_IDX_def)
  ultimately show ?thesis by (simp add: assert_ok_iff l)
qed

lemma root_least:
  assumes "is_heap cmp l" "set l \<subseteq> S" "i < length l"
  shows "cmp (l ! 0) (l ! i) \<le> 0"
  using assms(3)
proof (induction i rule: less_induct)
  case (less i)
  have S: "j < length l \<Longrightarrow> l ! j \<in> S" for j using assms(2) by auto
  show ?case
  proof (cases "i = 0")
    case True
    then show ?thesis using refl S less.prems by simp
  next
    case False
    then have p: "PARENT i < i" by (simp add: parent_less)
    have "cmp (l ! PARENT i) (l ! i) \<le> 0" using assms(1) False less.prems by (simp add: is_heap_def edge_def)
    moreover have "cmp (l ! 0) (l ! PARENT i) \<le> 0" using less.IH [OF p] p less.prems by simp
    ultimately show ?thesis
      using trans [of "l ! 0" "l ! PARENT i" "l ! i"] S [of 0] S [of i] S [of "PARENT i"] less.prems p by force
  qed
qed

text \<open>Removing position \<open>k\<close>: the last item takes its place.  The item that moves there must not be below the
  parent of \<open>k\<close>, which holds for the root and is what \<open>smartlist_heapify\<close> relies on elsewhere.\<close>

lemma vacate_ok:
  assumes "is_heap cmp l" "idx_ok q" "pq_list q = l" "set l \<subseteq> S" "length l \<le> MAX_CAPACITY" "k < length l - 1"
    "0 < k \<Longrightarrow> cmp (l ! PARENT k) (last l) \<le> 0"
  defines "r \<equiv> UPDATE_IDX k (q\<lparr>pq_list := (butlast l)[k := last l], pq_idx := (pq_idx q)(l ! k := - 1)\<rparr>)"
  shows "smartlist_pqueue_assert_ok cmp (smartlist_heapify cmp r k) \<and>
    mset (pq_list (smartlist_heapify cmp r k)) = mset l - {#l ! k#} \<and>
    (\<forall>x. x \<notin> set l \<longrightarrow> pq_idx (smartlist_heapify cmp r k) x = pq_idx q x) \<and> pq_idx (smartlist_heapify cmp r k) (l ! k) = - 1"
proof -
  define n where "n = length l - 1"
  have "l \<noteq> []" using assms(6) by auto
  then have n: "length l = Suc n" "k < n" "last l = l ! n" using assms(6) by (simp_all add: n_def last_conv_nth)
  have d: "distinct l" using idx_ok_distinct [OF assms(2)] by (simp add: assms(3))
  let ?m = "(butlast l)[k := last l]"
  have lr: "pq_list r = ?m" by (simp add: r_def UPDATE_IDX_def)
  have nth: "i < n \<Longrightarrow> ?m ! i = (if i = k then l ! n else l ! i)" for i
    using n by (simp add: nth_list_update nth_butlast)
  have len: "length ?m = n" using n by simp
  have S: "i < length l \<Longrightarrow> l ! i \<in> S" for i using assms(4) by auto
  have ok: "0 < i \<Longrightarrow> i < length l \<Longrightarrow> cmp (l ! PARENT i) (l ! i) \<le> 0" for i
    using assms(1) by (simp add: is_heap_def edge_def)
  have "mset ?m = mset l - {#l ! k#}"
  proof -
    have "?m = butlast (l[k := last l])" using n by (simp add: butlast_list_update)
    then show ?thesis using mset_swap_end [of k l] n by simp
  qed
  moreover have "set ?m \<subseteq> S"
  proof -
    have "l \<noteq> []" using n(1) by auto
    then have "last l \<in> set l" "set (butlast l) \<subseteq> set l" by (auto dest: in_set_butlastD)
    then show ?thesis using assms(4) set_update_subset_insert [of "butlast l" k "last l"] by blast
  qed
  moreover have "heap_below cmp ?m k"
  proof -
    have "edge cmp ?m i" if i: "0 < i" "i < n" "PARENT i \<noteq> k" for i
    proof -
      have p: "PARENT i < n" using parent_less [OF i(1)] i(2) by linarith
      show ?thesis using nth [OF p] nth [OF i(2)] i(3) ok [of i] i(1,2) n assms(7) by (auto simp: edge_def)
    qed
    moreover have "cmp (?m ! PARENT k) (?m ! i) \<le> 0" if i: "0 < k" "0 < i" "i < n" "PARENT i = k" for i
    proof -
      have p: "PARENT k < n" "PARENT k < k" "k < i" using parent_less [OF i(1)] parent_less [OF i(2)] i n by linarith+
      have b: "k < length l" "i < length l" "PARENT k < length l" using p i n by linarith+
      have "cmp (l ! k) (l ! i) \<le> 0" using ok [OF i(2) b(2)] i(4) by simp
      then have "cmp (l ! PARENT k) (l ! i) \<le> 0"
        using trans [OF S [OF b(3)] S [OF b(1)] S [OF b(2)] ok [OF i(1) b(1)]] by simp
      then show ?thesis using nth [OF p(1)] nth [OF i(3)] p by simp
    qed
    ultimately show ?thesis unfolding heap_below_def len by blast
  qed
  moreover have "idx_ok r"
    unfolding idx_ok_def lr len
  proof (intro allI impI)
    fix i assume i: "i < n"
    have "l ! n \<noteq> l ! k" using d n by (simp add: nth_eq_iff_index_eq)
    moreover have "i \<noteq> k \<Longrightarrow> l ! i \<noteq> l ! k \<and> l ! i \<noteq> l ! n" using d n i by (simp add: nth_eq_iff_index_eq)
    ultimately show "pq_idx r (?m ! i) = int i"
      using nth [OF i] nth [OF n(2)] assms(2) i n by (auto simp: r_def UPDATE_IDX_def idx_ok_def assms(3))
  qed
  moreover have "x \<notin> set l \<longrightarrow> pq_idx r x = pq_idx q x" for x
    using n nth [OF n(2)] by (auto simp: r_def UPDATE_IDX_def)
  moreover have gone: "l ! k \<notin> set ?m" "pq_idx r (l ! k) = - 1"
  proof -
    have "l ! k \<noteq> l ! n" using d n by (simp add: nth_eq_iff_index_eq)
    then show "pq_idx r (l ! k) = - 1" using nth [OF n(2)] by (simp add: r_def UPDATE_IDX_def)
    have "?m ! i \<noteq> l ! k" if "i < n" for i using nth [OF that] d n that by (auto simp: nth_eq_iff_index_eq)
    then show "l ! k \<notin> set ?m" using len by (metis in_set_conv_nth)
  qed
  moreover have "x \<notin> set l \<Longrightarrow> x \<notin> set ?m" for x
    using n set_update_subset_insert [of "butlast l" k "last l"] by (auto dest: in_set_butlastD)
  ultimately show ?thesis
    using heapify_ok [of r k] assms(5) n by (auto simp: lr assert_ok_iff)
qed

lemma pqueue_pop_ok:
  assumes "smartlist_pqueue_assert_ok cmp q" "set (pq_list q) \<subseteq> S" "pq_list q \<noteq> []" "length (pq_list q) \<le> MAX_CAPACITY"
  shows "\<exists>x q'. smartlist_pqueue_pop cmp q = Some (x, q') \<and> x \<in> set (pq_list q) \<and>
    (\<forall>y \<in> set (pq_list q). cmp x y \<le> 0) \<and> smartlist_pqueue_assert_ok cmp q' \<and>
    mset (pq_list q') = mset (pq_list q) - {#x#} \<and> pq_idx q' x = - 1 \<and>
    (\<forall>z. z \<notin> set (pq_list q) \<longrightarrow> pq_idx q' z = pq_idx q z)"
proof -
  let ?l = "pq_list q"
  have h: "is_heap cmp ?l" "idx_ok q" using assms(1) by (simp_all add: assert_ok_iff)
  have least: "\<forall>y \<in> set ?l. cmp (?l ! 0) y \<le> 0" using root_least [OF h(1) assms(2)] by (auto simp: in_set_conv_nth)
  have mem: "?l ! 0 \<in> set ?l" using assms(3) by simp
  show ?thesis
  proof (cases "0 < length ?l - 1")
    case True
    let ?r = "UPDATE_IDX 0 (q\<lparr>pq_list := (butlast ?l)[0 := last ?l], pq_idx := (pq_idx q)(?l ! 0 := - 1)\<rparr>)"
    have "butlast ?l \<noteq> []" using True by (metis length_butlast length_greater_0_conv)
    then have "smartlist_pqueue_pop cmp q = Some (?l ! 0, smartlist_heapify cmp ?r 0)"
      using assms(3) by (simp add: smartlist_pqueue_pop_def Let_def pq_update_comm)
    then show ?thesis
      using vacate_ok [OF h HOL.refl assms(2,4) True] least mem by auto
  next
    case False
    then obtain x where x: "?l = [x]" using assms(3) by (cases ?l) auto
    then have "smartlist_pqueue_pop cmp q = Some (x, q\<lparr>pq_idx := (pq_idx q)(x := - 1), pq_list := []\<rparr>)"
      by (simp add: smartlist_pqueue_pop_def Let_def)
    then show ?thesis using least x by (simp add: assert_ok_iff is_heap_def idx_ok_def)
  qed
qed

lemma pqueue_remove_ok:
  assumes "smartlist_pqueue_assert_ok cmp q" "set (pq_list q) \<subseteq> S" "k < length (pq_list q)" "length (pq_list q) \<le> MAX_CAPACITY"
    "0 < k \<Longrightarrow> cmp (pq_list q ! PARENT k) (last (pq_list q)) \<le> 0"
  shows "\<exists>q'. smartlist_pqueue_remove cmp q (pq_list q ! k) = Some q' \<and> smartlist_pqueue_assert_ok cmp q' \<and>
    mset (pq_list q') = mset (pq_list q) - {#pq_list q ! k#} \<and> pq_idx q' (pq_list q ! k) = - 1"
proof -
  let ?l = "pq_list q"
  have h: "is_heap cmp ?l" "idx_ok q" using assms(1) by (simp_all add: assert_ok_iff)
  have idx: "pq_idx q (?l ! k) = int k" using h(2) assms(3) by (simp add: idx_ok_def)
  show ?thesis
  proof (cases "k < length ?l - 1")
    case True
    let ?r = "UPDATE_IDX k (q\<lparr>pq_list := (butlast ?l)[k := last ?l], pq_idx := (pq_idx q)(?l ! k := - 1)\<rparr>)"
    have "smartlist_pqueue_remove cmp q (?l ! k) = Some (smartlist_heapify cmp ?r k)"
      using assms(3) True by (simp add: smartlist_pqueue_remove_def Let_def idx pq_update_comm)
    then show ?thesis using vacate_ok [OF h HOL.refl assms(2,4) True assms(5)] by auto
  next
    case False
    let ?n = "length ?l - 1"
    have ne: "?l \<noteq> []" and k: "k = ?n" using assms(3) False by auto
    then have last: "?l ! k = last ?l" by (simp add: last_conv_nth)
    let ?q = "q\<lparr>pq_list := butlast ?l, pq_idx := (pq_idx q)(?l ! k := - 1)\<rparr>"
    have lb: "length (butlast ?l) = k" using k by simp
    have "smartlist_pqueue_remove cmp q (?l ! k) = Some ?q"
      unfolding smartlist_pqueue_remove_def Let_def idx using assms(3) lb by simp
    moreover have "mset (butlast ?l) = mset ?l - {#?l ! k#}"
    proof -
      have "mset ?l = mset (butlast ?l @ [last ?l])" using ne by simp
      then show ?thesis unfolding last by simp
    qed
    moreover have "is_heap cmp (butlast ?l)"
      unfolding is_heap_def
    proof (intro allI impI)
      fix i assume i: "0 < i \<and> i < length (butlast ?l)"
      then have "PARENT i < length (butlast ?l)" using parent_less [of i] by linarith
      then show "edge cmp (butlast ?l) i" using h(1) i by (auto simp: is_heap_def edge_def nth_butlast)
    qed
    moreover have "idx_ok ?q"
      unfolding idx_ok_def
    proof (intro allI impI)
      fix i assume "i < length (pq_list ?q)"
      then have "i < k" using lb by simp
      then have "?l ! i \<noteq> ?l ! k" using idx_ok_distinct [OF h(2)] assms(3) by (simp add: nth_eq_iff_index_eq)
      then show "pq_idx ?q (pq_list ?q ! i) = int i"
        using h(2) \<open>i < k\<close> assms(3) lb by (simp add: idx_ok_def nth_butlast)
    qed
    ultimately show ?thesis by (simp add: assert_ok_iff)
  qed
qed

end

section \<open>Sorting with the queue\<close>

text \<open>Add all items of a list, and take out \<open>n\<close> items.\<close>

fun add_each :: "('a \<Rightarrow> 'a \<Rightarrow> int) \<Rightarrow> 'a pqueue \<Rightarrow> 'a list \<Rightarrow> 'a pqueue option" where
  "add_each cmp q [] = Some q"
| "add_each cmp q (x # xs) =
     (case smartlist_pqueue_add cmp q x of None \<Rightarrow> None | Some q \<Rightarrow> add_each cmp q xs)"

fun pop_each :: "('a \<Rightarrow> 'a \<Rightarrow> int) \<Rightarrow> 'a pqueue \<Rightarrow> nat \<Rightarrow> ('a list \<times> 'a pqueue) option" where
  "pop_each cmp q 0 = Some ([], q)"
| "pop_each cmp q (Suc n) =
     (case smartlist_pqueue_pop cmp q of
        None \<Rightarrow> None
      | Some (x, q) \<Rightarrow> map_option (\<lambda>(xs, q). (x # xs, q)) (pop_each cmp q n))"

context comparison
begin

lemma add_each_ok:
  "smartlist_pqueue_assert_ok cmp q \<Longrightarrow> set (pq_list q) \<subseteq> S \<Longrightarrow> set xs \<subseteq> S \<Longrightarrow> distinct xs \<Longrightarrow>
     set xs \<inter> set (pq_list q) = {} \<Longrightarrow> length (pq_list q) + length xs \<le> MAX_CAPACITY \<Longrightarrow>
     \<exists>q'. add_each cmp q xs = Some q' \<and> smartlist_pqueue_assert_ok cmp q' \<and> mset (pq_list q') = mset xs + mset (pq_list q)"
proof (induction xs arbitrary: q)
  case (Cons x xs)
  obtain q1 where q1: "smartlist_pqueue_add cmp q x = Some q1" "smartlist_pqueue_assert_ok cmp q1"
      "mset (pq_list q1) = add_mset x (mset (pq_list q))"
    using pqueue_add_ok [of q x] Cons.prems by auto
  have s: "set (pq_list q1) = insert x (set (pq_list q))" "length (pq_list q1) = Suc (length (pq_list q))"
    using arg_cong [OF q1(3), of set_mset] arg_cong [OF q1(3), of size] by simp_all
  show ?case using Cons.IH [OF q1(2)] Cons.prems q1 s by auto
qed simp

lemma pop_each_ok:
  "smartlist_pqueue_assert_ok cmp q \<Longrightarrow> set (pq_list q) \<subseteq> S \<Longrightarrow> length (pq_list q) = n \<Longrightarrow> n \<le> MAX_CAPACITY \<Longrightarrow>
     \<exists>ys q'. pop_each cmp q n = Some (ys, q') \<and> pq_list q' = [] \<and> sorted_wrt (\<lambda>a b. cmp a b \<le> 0) ys \<and>
       mset ys = mset (pq_list q) \<and> (\<forall>x \<in> set (pq_list q). pq_idx q' x = - 1) \<and>
       (\<forall>z. z \<notin> set (pq_list q) \<longrightarrow> pq_idx q' z = pq_idx q z)"
proof (induction n arbitrary: q)
  case (Suc n)
  have ne: "pq_list q \<noteq> []" using Suc.prems(3) by auto
  obtain x q1 where q1: "smartlist_pqueue_pop cmp q = Some (x, q1)" "x \<in> set (pq_list q)" "\<forall>y \<in> set (pq_list q). cmp x y \<le> 0"
      "smartlist_pqueue_assert_ok cmp q1" "mset (pq_list q1) = mset (pq_list q) - {#x#}" "pq_idx q1 x = - 1"
      "\<forall>z. z \<notin> set (pq_list q) \<longrightarrow> pq_idx q1 z = pq_idx q z"
    using pqueue_pop_ok [OF Suc.prems(1,2) ne] Suc.prems(3,4) by auto
  have d: "distinct (pq_list q)" using Suc.prems(1) by (simp add: assert_ok_iff idx_ok_distinct)
  have m: "mset (pq_list q) = add_mset x (mset (pq_list q1))" using q1(2,5) by simp
  have len: "length (pq_list q1) = n" using arg_cong [OF m, of size] Suc.prems(3) by simp
  have s: "set (pq_list q) = insert x (set (pq_list q1))" using arg_cong [OF m, of set_mset] by simp
  have x: "x \<notin> set (pq_list q1)"
    using d mset_eq_imp_distinct_iff [of "x # pq_list q1" "pq_list q"] m by simp
  obtain ys q' where i: "pop_each cmp q1 n = Some (ys, q')" "pq_list q' = []" "sorted_wrt (\<lambda>a b. cmp a b \<le> 0) ys"
       "mset ys = mset (pq_list q1)" "\<forall>x \<in> set (pq_list q1). pq_idx q' x = - 1"
       "\<forall>z. z \<notin> set (pq_list q1) \<longrightarrow> pq_idx q' z = pq_idx q1 z"
    using Suc.IH [OF q1(4) _ len] Suc.prems(2,4) s by auto
  have "set ys = set (pq_list q1)" using i(4) by (metis set_mset_mset)
  then have "sorted_wrt (\<lambda>a b. cmp a b \<le> 0) (x # ys)" using i(3) q1(3) s by simp
  moreover have "mset (x # ys) = mset (pq_list q)" using i(4) m by simp
  moreover have "\<forall>y \<in> set (pq_list q). pq_idx q' y = - 1" using i(5,6) q1(6) s x by simp
  moreover have "\<forall>z. z \<notin> set (pq_list q) \<longrightarrow> pq_idx q' z = pq_idx q z" using i(6) q1(7) s by simp
  moreover have "pop_each cmp q (Suc n) = Some (x # ys, q')" using q1(1) i(1) by simp
  ultimately show ?case using i(2) by blast
qed (simp add: assert_ok_iff)

lemma pop_some_ok:
  "smartlist_pqueue_assert_ok cmp q \<Longrightarrow> set (pq_list q) \<subseteq> S \<Longrightarrow> length (pq_list q) \<le> MAX_CAPACITY \<Longrightarrow>
     k \<le> length (pq_list q) \<Longrightarrow> \<exists>ys q'. pop_each cmp q k = Some (ys, q') \<and> smartlist_pqueue_assert_ok cmp q'"
proof (induction k arbitrary: q)
  case (Suc k)
  then have ne: "pq_list q \<noteq> []" by auto
  obtain x q1 where q1: "smartlist_pqueue_pop cmp q = Some (x, q1)" "x \<in> set (pq_list q)"
      "smartlist_pqueue_assert_ok cmp q1" "mset (pq_list q1) = mset (pq_list q) - {#x#}"
    using pqueue_pop_ok [OF Suc.prems(1,2) ne] Suc.prems(3) by auto
  have m: "mset (pq_list q) = add_mset x (mset (pq_list q1))" using q1(2,4) by simp
  have "length (pq_list q) = Suc (length (pq_list q1))" "set (pq_list q) = insert x (set (pq_list q1))"
    using arg_cong [OF m, of size] arg_cong [OF m, of set_mset] by simp_all
  then obtain ys q' where "pop_each cmp q1 k = Some (ys, q')" "smartlist_pqueue_assert_ok cmp q'"
    using Suc.IH [OF q1(3)] Suc.prems(2-4) by auto
  then show ?case using q1(1) by simp
qed simp

end

section \<open>Properties\<close>

text \<open>C33: The priority queue.  With a comparison that is a total preorder on the items, adding up to \<open>MAX_CAPACITY\<close>
  distinct items to an empty queue never fails, all assertions of \<open>smartlist_pqueue_assert_ok\<close> hold after each
  addition and after each removal of the first item, and popping as many items returns them in order and leaves the queue empty with every index field \<open>-1\<close>.  Popping
  an empty queue is a failed assertion.\<close>

theorem pqueue_sorts:
  assumes "comparison S cmp" "set xs \<subseteq> S" "distinct xs" "length xs \<le> MAX_CAPACITY"
  shows "\<exists>q ys q'. add_each cmp \<lparr>pq_list = [], pq_idx = f\<rparr> xs = Some q \<and> smartlist_pqueue_assert_ok cmp q \<and>
    mset (pq_list q) = mset xs \<and> pop_each cmp q (length xs) = Some (ys, q') \<and> pq_list q' = [] \<and>
    sorted_wrt (\<lambda>a b. cmp a b \<le> 0) ys \<and> mset ys = mset xs \<and> (\<forall>x \<in> set xs. pq_idx q' x = - 1) \<and>
    smartlist_pqueue_pop cmp q' = None \<and>
    (\<forall>k \<le> length xs.
       (\<exists>q1. add_each cmp \<lparr>pq_list = [], pq_idx = f\<rparr> (take k xs) = Some q1 \<and> smartlist_pqueue_assert_ok cmp q1) \<and>
       (\<exists>zs q2. pop_each cmp q k = Some (zs, q2) \<and> smartlist_pqueue_assert_ok cmp q2))"
proof -
  let ?q = "\<lparr>pq_list = [], pq_idx = f\<rparr>"
  have e: "smartlist_pqueue_assert_ok cmp ?q" by (simp add: smartlist_pqueue_assert_ok_def)
  then obtain q where q: "add_each cmp ?q xs = Some q" "smartlist_pqueue_assert_ok cmp q" "mset (pq_list q) = mset xs"
    using comparison.add_each_ok [OF assms(1), of ?q xs] assms(2-4) by auto
  have s: "set (pq_list q) = set xs" "length (pq_list q) = length xs"
    using q(3) by (metis set_mset_mset, metis size_mset)
  have adds: "\<exists>q1. add_each cmp ?q (take k xs) = Some q1 \<and> smartlist_pqueue_assert_ok cmp q1" for k
  proof -
    have "set (take k xs) \<subseteq> S" using assms(2) set_take_subset by fast
    moreover have "min (length xs) k \<le> MAX_CAPACITY" using assms(4) by linarith
    ultimately show ?thesis using comparison.add_each_ok [OF assms(1) e, of "take k xs"] assms(3) by auto
  qed
  have pops: "\<exists>zs q2. pop_each cmp q k = Some (zs, q2) \<and> smartlist_pqueue_assert_ok cmp q2" if "k \<le> length xs" for k
    using comparison.pop_some_ok [OF assms(1) q(2), of k] assms(2,4) s that by simp
  obtain ys q' where "pop_each cmp q (length xs) = Some (ys, q')" "pq_list q' = []" "sorted_wrt (\<lambda>a b. cmp a b \<le> 0) ys"
      "mset ys = mset (pq_list q)" "\<forall>x \<in> set (pq_list q). pq_idx q' x = - 1"
    using comparison.pop_each_ok [OF assms(1) q(2) _ s(2)] assms(2,4) s by auto
  moreover from this(2) have "smartlist_pqueue_pop cmp q' = None" by (simp add: smartlist_pqueue_pop_def)
  ultimately show ?thesis using q s adds pops by (intro exI [of _ q] exI [of _ ys] exI [of _ q']) simp
qed

lemma pqueue_sorts_witness:
  "\<exists>q ys q'. add_each compare_ptrs \<lparr>pq_list = [], pq_idx = (\<lambda>_. - 1)\<rparr> [30, 10, 20] = Some q \<and> smartlist_pqueue_assert_ok compare_ptrs q \<and>
    mset (pq_list q) = mset [30, 10, 20] \<and> pop_each compare_ptrs q (length [30, 10, 20 :: nat]) = Some (ys, q') \<and> pq_list q' = [] \<and>
    sorted_wrt (\<lambda>a b. compare_ptrs a b \<le> 0) ys \<and> mset ys = mset [30, 10, 20] \<and> (\<forall>x \<in> set [30, 10, 20]. pq_idx q' x = - 1) \<and>
    smartlist_pqueue_pop compare_ptrs q' = None"
  using pqueue_sorts [OF pointer_order.comparison_axioms, of "[30, 10, 20]" "\<lambda>_. - 1"] by (fastforce simp: MAX_CAPACITY_def)

text \<open>A heap for the order of pointers, in which the last item belongs into the other subtree than item 11.\<close>

definition two_branches :: "nat pqueue" where
  "two_branches = \<lparr>pq_list = [1, 10, 2, 11, 12, 3], pq_idx = (\<lambda>x. if x = 1 then 0 else if x = 10 then 1
     else if x = 2 then 2 else if x = 11 then 3 else if x = 12 then 4
     else if x = 3 then 5 else - 1)\<rparr>"

lemma two_branches_ok: "smartlist_pqueue_assert_ok compare_ptrs two_branches"
  by (simp add: smartlist_pqueue_assert_ok_def two_branches_def compare_ptrs_def PARENT_def upt_rec)

lemma two_branches_remove:
  "\<exists>r. smartlist_pqueue_remove compare_ptrs two_branches 11 = Some r \<and> \<not> smartlist_pqueue_assert_ok compare_ptrs r"
  by (simp add: smartlist_pqueue_remove_def two_branches_def Let_def smartlist_heapify.simps IDX_MAY_HAVE_CHILDREN_def
      MAX_PARENT_IDX_def LEFT_CHILD_def UPDATE_IDX_def smartlist_pqueue_assert_ok_def compare_ptrs_def PARENT_def upt_rec)

text \<open>C34: Removal from inside the queue.  On a queue whose assertions hold, removing the item at position \<open>k\<close>
  takes out just that item, sets its index to \<open>-1\<close> and keeps all assertions, provided the last item, which takes its
  place, is not below the parent of \<open>k\<close>; an item whose index field does not point at it fails an assertion.
  The proviso cannot be dropped, because the code only moves the item down: there is a queue whose assertions hold
  before a removal and fail after it.\<close>

theorem pqueue_remove_keeps_heap:
  assumes "comparison S cmp" "smartlist_pqueue_assert_ok cmp q" "set (pq_list q) \<subseteq> S" "length (pq_list q) \<le> MAX_CAPACITY"
    "k < length (pq_list q)" "k = 0 \<or> cmp (pq_list q ! PARENT k) (last (pq_list q)) \<le> 0" "pq_idx q item < 0"
  shows "(\<exists>q'. smartlist_pqueue_remove cmp q (pq_list q ! k) = Some q' \<and> smartlist_pqueue_assert_ok cmp q' \<and>
      mset (pq_list q') = mset (pq_list q) - {#pq_list q ! k#} \<and> pq_idx q' (pq_list q ! k) = - 1) \<and>
    smartlist_pqueue_remove cmp q item = None \<and>
    (\<exists>h r. smartlist_pqueue_assert_ok compare_ptrs h \<and> smartlist_pqueue_remove compare_ptrs h 11 = Some r \<and>
       \<not> smartlist_pqueue_assert_ok compare_ptrs r)"
proof (intro conjI)
  show "\<exists>q'. smartlist_pqueue_remove cmp q (pq_list q ! k) = Some q' \<and> smartlist_pqueue_assert_ok cmp q' \<and>
      mset (pq_list q') = mset (pq_list q) - {#pq_list q ! k#} \<and> pq_idx q' (pq_list q ! k) = - 1"
    by (rule comparison.pqueue_remove_ok [OF assms(1-3,5,4)]) (use assms(6) in auto)
  show "smartlist_pqueue_remove cmp q item = None" using assms(7) by (simp add: smartlist_pqueue_remove_def)
  show "\<exists>h r. smartlist_pqueue_assert_ok compare_ptrs h \<and> smartlist_pqueue_remove compare_ptrs h 11 = Some r \<and>
       \<not> smartlist_pqueue_assert_ok compare_ptrs r"
    using two_branches_ok two_branches_remove by blast
qed

lemma pqueue_remove_keeps_heap_witness:
  "\<exists>q'. smartlist_pqueue_remove compare_ptrs two_branches (pq_list two_branches ! 2) = Some q' \<and>
      smartlist_pqueue_assert_ok compare_ptrs q' \<and>
      mset (pq_list q') = mset (pq_list two_branches) - {#pq_list two_branches ! 2#}"
proof -
  have s: "set (pq_list two_branches) \<subseteq> UNIV" "length (pq_list two_branches) \<le> MAX_CAPACITY" "2 < length (pq_list two_branches)"
      "2 = 0 \<or> compare_ptrs (pq_list two_branches ! PARENT 2) (last (pq_list two_branches)) \<le> 0" "pq_idx two_branches 7 < 0"
    by (simp_all add: two_branches_def MAX_CAPACITY_def PARENT_def compare_ptrs_def)
  show ?thesis
    using pqueue_remove_keeps_heap [OF pointer_order.comparison_axioms two_branches_ok s] by blast
qed

end
