(* ===== verification/Line_Diff.thy ===== *)
theory Line_Diff
  imports Bin_Ascii Smart_List
begin

text \<open>
  The comparison of two documents line by line in \<open>feature/dircommon/consdiff.c\<close>: lines and
  slices of a document, the longest common subsequence of two slices, and \<open>calc_changes\<close>, which marks
  the lines of either slice that the other does not have, by dividing both slices in two.

  A \<open>cdline_t\<close> is the list of its characters.  A slice refers to its document; a bit array is a
  list of booleans.  A failed assertion is \<open>Assertion_failed\<close>.
\<close>

section \<open>Definitions\<close>

type_synonym cdline_t = string

definition lines_eq :: "cdline_t \<Rightarrow> cdline_t \<Rightarrow> bool" where
  "lines_eq a b = (length a = length b \<and> take (length a) a = take (length a) b)"

definition line_str_eq :: "cdline_t \<Rightarrow> string \<Rightarrow> bool" where
  "line_str_eq a b = lines_eq a b"

definition line_starts_with_str :: "cdline_t \<Rightarrow> string \<Rightarrow> bool" where
  "line_starts_with_str a b = (length a \<ge> length b \<and> take (length b) a = b)"

record smartlist_slice_t =
  slice_list :: "cdline_t list"
  slice_offset :: nat
  slice_len :: nat

definition smartlist_slice :: "cdline_t list \<Rightarrow> int \<Rightarrow> int \<Rightarrow> smartlist_slice_t outcome" where
  "smartlist_slice l start e =
     (let list_len = int (length l)
      in if \<not> start \<ge> 0 then Assertion_failed
         else if \<not> start \<le> list_len then Assertion_failed
         else let e = (if e = - 1 then list_len else e)
              in if \<not> start \<le> e then Assertion_failed
                 else Done \<lparr>slice_list = l, slice_offset = nat start, slice_len = nat (e - start)\<rparr>)"

subsection \<open>The longest common subsequence\<close>

text \<open>The inner loop, from column \<open>j\<close> on: \<open>result\<close> is the row being filled and \<open>prev\<close> the row before it.\<close>

function lcs_row :: "cdline_t \<Rightarrow> smartlist_slice_t \<Rightarrow> int \<Rightarrow> nat list \<Rightarrow> int \<Rightarrow> nat \<Rightarrow> nat list \<Rightarrow> nat list" where
  "lcs_row line1 s2 direction prev sj j result =
     (if j < slice_len s2 then
        (let line2 = slice_list s2 ! nat sj;
             result = (if lines_eq line1 line2 then result[j + 1 := prev ! j + 1]
                       else result[j + 1 := max (result ! j) (prev ! (j + 1))])
         in lcs_row line1 s2 direction prev (sj + direction) (j + 1) result)
      else result)"
  by pat_completeness auto
termination
  by (relation "measure (\<lambda>(l, s, d, p, sj, j, r). slice_len s - j)") auto

declare lcs_row.simps [simp del]

function lcs_rows :: "smartlist_slice_t \<Rightarrow> smartlist_slice_t \<Rightarrow> int \<Rightarrow> int \<Rightarrow> nat \<Rightarrow> nat list \<Rightarrow> nat list" where
  "lcs_rows s1 s2 direction si i result =
     (if i < slice_len s1 then
        (let line1 = slice_list s1 ! nat si;
             sj = int (slice_offset s2);
             sj = (if direction = - 1 then sj + (int (slice_len s2) - 1) else sj)
         in lcs_rows s1 s2 direction (si + direction) (i + 1)
              (lcs_row line1 s2 direction result sj 0 result))
      else result)"
  by pat_completeness auto
termination
  by (relation "measure (\<lambda>(s, t, d, si, i, r). slice_len s - i)") auto

declare lcs_rows.simps [simp del]

definition lcs_lengths :: "smartlist_slice_t \<Rightarrow> smartlist_slice_t \<Rightarrow> int \<Rightarrow> nat list outcome" where
  "lcs_lengths s1 s2 direction =
     (if \<not> (direction = 1 \<or> direction = - 1) then Assertion_failed
      else let si = int (slice_offset s1);
               si = (if direction = - 1 then si + (int (slice_len s1) - 1) else si)
           in Done (lcs_rows s1 s2 direction si 0 (replicate (slice_len s2 + 1) 0)))"

fun best_column :: "nat list \<Rightarrow> nat list \<Rightarrow> nat \<Rightarrow> nat list \<Rightarrow> nat \<Rightarrow> int \<Rightarrow> nat" where
  "best_column lens_top lens_bot len [] column max_sum = column"
| "best_column lens_top lens_bot len (i # is) column max_sum =
     (let sum = int (lens_top ! i) + int (lens_bot ! (len - i))
      in if sum > max_sum then best_column lens_top lens_bot len is i sum
         else best_column lens_top lens_bot len is column max_sum)"

definition optimal_column_to_split :: "smartlist_slice_t \<Rightarrow> smartlist_slice_t \<Rightarrow> smartlist_slice_t \<Rightarrow> nat outcome" where
  "optimal_column_to_split top_s bot_s s2 =
     and_then (lcs_lengths top_s s2 1) (\<lambda>lens_top.
     and_then (lcs_lengths bot_s s2 (- 1)) (\<lambda>lens_bot.
       Done (best_column lens_top lens_bot (slice_len s2) [0..<slice_len s2 + 1] 0 (- 1))))"

subsection \<open>Marking the changed lines\<close>

function trim_front :: "smartlist_slice_t \<Rightarrow> smartlist_slice_t \<Rightarrow> smartlist_slice_t \<times> smartlist_slice_t" where
  "trim_front s1 s2 =
     (if slice_len s1 > 0 \<and> slice_len s2 > 0 then
        (if \<not> lines_eq (slice_list s1 ! slice_offset s1) (slice_list s2 ! slice_offset s2) then (s1, s2)
         else trim_front (s1\<lparr>slice_offset := slice_offset s1 + 1, slice_len := slice_len s1 - 1\<rparr>)
                (s2\<lparr>slice_offset := slice_offset s2 + 1, slice_len := slice_len s2 - 1\<rparr>))
      else (s1, s2))"
  by pat_completeness auto
termination by (relation "measure (\<lambda>(s, t). slice_len s)") auto

declare trim_front.simps [simp del]

function trim_back :: "smartlist_slice_t \<Rightarrow> smartlist_slice_t \<Rightarrow> int \<Rightarrow> int \<Rightarrow> smartlist_slice_t \<times> smartlist_slice_t" where
  "trim_back s1 s2 i1 i2 =
     (if slice_len s1 > 0 \<and> slice_len s2 > 0 then
        (if \<not> lines_eq (slice_list s1 ! nat i1) (slice_list s2 ! nat i2) then (s1, s2)
         else trim_back (s1\<lparr>slice_len := slice_len s1 - 1\<rparr>) (s2\<lparr>slice_len := slice_len s2 - 1\<rparr>) (i1 - 1) (i2 - 1))
      else (s1, s2))"
  by pat_completeness auto
termination by (relation "measure (\<lambda>(s, t, i, j). slice_len s)") auto

declare trim_back.simps [simp del]

definition trim_slices :: "smartlist_slice_t \<Rightarrow> smartlist_slice_t \<Rightarrow> smartlist_slice_t \<times> smartlist_slice_t" where
  "trim_slices s1 s2 =
     (let (s1, s2) = trim_front s1 s2
      in trim_back s1 s2 (int (slice_offset s1 + slice_len s1) - 1) (int (slice_offset s2 + slice_len s2) - 1))"

fun pos_from :: "cdline_t list \<Rightarrow> cdline_t \<Rightarrow> nat list \<Rightarrow> int" where
  "pos_from l string [] = - 1"
| "pos_from l string (i # is) = (if lines_eq (l ! i) string then int i else pos_from l string is)"

definition smartlist_slice_string_pos :: "smartlist_slice_t \<Rightarrow> cdline_t \<Rightarrow> int" where
  "smartlist_slice_string_pos sl string =
     pos_from (slice_list sl) string [slice_offset sl..<slice_offset sl + slice_len sl]"

definition bitarray_set :: "bool list \<Rightarrow> nat \<Rightarrow> bool list" where
  "bitarray_set b i = b[i := True]"

definition set_changed ::
    "bool list \<Rightarrow> bool list \<Rightarrow> smartlist_slice_t \<Rightarrow> smartlist_slice_t \<Rightarrow> (bool list \<times> bool list) outcome" where
  "set_changed changed1 changed2 s1 s2 =
     (if \<not> (slice_len s1 = 0 \<or> slice_len s1 = 1) then Assertion_failed
      else let toskip = (if slice_len s1 = 1
                         then smartlist_slice_string_pos s2 (slice_list s1 ! slice_offset s1) else - 1);
               changed1 = (if slice_len s1 = 1 \<and> toskip = - 1
                           then bitarray_set changed1 (slice_offset s1) else changed1);
               changed2 = fold (\<lambda>i c. if int i \<noteq> toskip then bitarray_set c i else c)
                            [slice_offset s2..<slice_offset s2 + slice_len s2] changed2
           in Done (changed1, changed2))"

lemma trim_front_len: "trim_front s1 s2 = (t1, t2) \<Longrightarrow> slice_len t1 \<le> slice_len s1"
proof (induction s1 s2 rule: trim_front.induct)
  case (1 s1 s2)
  then show ?case by (subst (asm) trim_front.simps) (auto split: if_splits)
qed

lemma trim_back_len: "trim_back s1 s2 i j = (t1, t2) \<Longrightarrow> slice_len t1 \<le> slice_len s1"
proof (induction s1 s2 i j rule: trim_back.induct)
  case (1 s1 s2 i j)
  then show ?case by (subst (asm) trim_back.simps) (auto split: if_splits)
qed

lemma trim_slices_len: "trim_slices s1 s2 = (t1, t2) \<Longrightarrow> slice_len t1 \<le> slice_len s1"
  using trim_front_len [of s1 s2] trim_back_len
  by (force simp: trim_slices_def split: prod.splits)

lemma smartlist_slice_len: "smartlist_slice l a b = Done s \<Longrightarrow> b \<noteq> - 1 \<Longrightarrow> slice_len s = nat (b - a)"
  by (auto simp: smartlist_slice_def Let_def split: if_splits)

function calc_changes ::
    "smartlist_slice_t \<Rightarrow> smartlist_slice_t \<Rightarrow> bool list \<Rightarrow> bool list \<Rightarrow> (bool list \<times> bool list) outcome" where
  "calc_changes s1 s2 changed1 changed2 =
     (let (s1, s2) = trim_slices s1 s2
      in if slice_len s1 \<le> 1 then set_changed changed1 changed2 s1 s2
         else if slice_len s2 \<le> 1 then
           and_then (set_changed changed2 changed1 s2 s1) (\<lambda>(changed2, changed1). Done (changed1, changed2))
         else
           (let off1 = int (slice_offset s1); off2 = int (slice_offset s2); mid = slice_len s1 div 2
            in and_then (smartlist_slice (slice_list s1) off1 (off1 + int mid)) (\<lambda>top_s.
               and_then (smartlist_slice (slice_list s1) (off1 + int mid) (off1 + int (slice_len s1))) (\<lambda>bot_s.
               and_then (optimal_column_to_split top_s bot_s s2) (\<lambda>mid2.
               and_then (smartlist_slice (slice_list s2) off2 (off2 + int mid2)) (\<lambda>left_s.
               and_then (smartlist_slice (slice_list s2) (off2 + int mid2) (off2 + int (slice_len s2))) (\<lambda>right_s.
               and_then (calc_changes top_s left_s changed1 changed2) (\<lambda>(changed1, changed2).
                 calc_changes bot_s right_s changed1 changed2))))))))"
  by pat_completeness auto
termination
  by (relation "measure (\<lambda>(s, t, c, d). slice_len s)")
    (auto dest!: trim_slices_len [OF sym] smartlist_slice_len)

declare calc_changes.simps [simp del]

section \<open>Longest common subsequences\<close>

text \<open>The reference: the length of a longest common subsequence.\<close>

fun lcs :: "'a list \<Rightarrow> 'a list \<Rightarrow> nat" where
  "lcs [] ys = 0"
| "lcs xs [] = 0"
| "lcs (x # xs) (y # ys) = (if x = y then lcs xs ys + 1 else max (lcs xs (y # ys)) (lcs (x # xs) ys))"

lemma lcs_Nil [simp]: "lcs xs [] = 0"
  by (cases xs) simp_all

lemma lcs_reached: "\<exists>zs. subseq zs xs \<and> subseq zs ys \<and> length zs = lcs xs ys"
proof (induction xs ys rule: lcs.induct)
  case (3 x xs y ys)
  show ?case
  proof (cases "x = y")
    case True
    then obtain zs where "subseq zs xs" "subseq zs ys" "length zs = lcs xs ys" using "3.IH"(1) by blast
    then show ?thesis using True by (intro exI [of _ "x # zs"]) simp
  next
    case False
    then obtain zs zs' where "subseq zs xs" "subseq zs (y # ys)" "length zs = lcs xs (y # ys)"
        "subseq zs' (x # xs)" "subseq zs' ys" "length zs' = lcs (x # xs) ys"
      using "3.IH"(2,3) by blast
    then show ?thesis using False
      by (cases "lcs xs (y # ys) \<le> lcs (x # xs) ys") (auto simp: max_def)
  qed
qed simp_all

lemma subseq_tail: "subseq (z # zs) (x # xs) \<Longrightarrow> subseq zs xs"
  by (cases "z = x") (auto dest: subseq_Cons' subseq_Cons2')

lemma lcs_largest: "subseq zs xs \<Longrightarrow> subseq zs ys \<Longrightarrow> length zs \<le> lcs xs ys"
proof (induction xs ys arbitrary: zs rule: lcs.induct)
  case (3 x xs y ys)
  show ?case
  proof (cases zs)
    case (Cons z zs')
    show ?thesis
    proof (cases "x = y")
      case True
      have "subseq zs' xs" "subseq zs' ys"
        using subseq_tail "3.prems" unfolding Cons by metis+
      then have "length zs' \<le> lcs xs ys" using "3.IH"(1) [OF True] by simp
      then show ?thesis using True Cons by simp
    next
      case False
      then have "z \<noteq> x \<or> z \<noteq> y" by auto
      then show ?thesis
      proof
        assume "z \<noteq> x"
        then have "subseq zs xs" using "3.prems"(1) unfolding Cons by (rule subseq_Cons2_neq [rotated])
        then show ?thesis using "3.IH"(2) [OF False] "3.prems"(2) False by (simp add: le_max_iff_disj)
      next
        assume "z \<noteq> y"
        then have "subseq zs ys" using "3.prems"(2) unfolding Cons by (rule subseq_Cons2_neq [rotated])
        then show ?thesis using "3.IH"(3) [OF False] "3.prems"(1) False by (simp add: le_max_iff_disj)
      qed
    qed
  qed simp
qed simp_all

lemma lcs_eqI:
  assumes "subseq zs xs" "subseq zs ys" "length zs = n" "\<And>us. subseq us xs \<Longrightarrow> subseq us ys \<Longrightarrow> length us \<le> n"
  shows "lcs xs ys = n"
  using lcs_largest [OF assms(1,2)] lcs_reached [of xs ys] assms(3,4) by fastforce

lemma subseq_rev: "subseq xs ys \<Longrightarrow> subseq (rev xs) (rev ys)"
  by (induction xs ys rule: list_emb.induct) (auto intro: subseq_rev_drop_many list_emb_append_mono)

lemma lcs_rev: "lcs (rev xs) (rev ys) = lcs xs ys"
proof -
  obtain zs where "subseq zs xs" "subseq zs ys" "length zs = lcs xs ys" using lcs_reached by blast
  moreover have "length us \<le> lcs xs ys" if "subseq us (rev xs)" "subseq us (rev ys)" for us
    using lcs_largest [of "rev us" xs ys] subseq_rev [OF that(1)] subseq_rev [OF that(2)] by simp
  ultimately show ?thesis by (intro lcs_eqI [of "rev zs"]) (simp_all add: subseq_rev)
qed

lemma lcs_sym: "lcs xs ys = lcs ys xs"
proof -
  obtain zs where "subseq zs ys" "subseq zs xs" "length zs = lcs ys xs" using lcs_reached by blast
  then show ?thesis using lcs_largest [of _ ys xs] by (intro lcs_eqI [of zs]) auto
qed

lemma lcs_common_front: "lcs (as @ xs) (as @ ys) = length as + lcs xs ys"
  by (induction as) simp_all

lemma lcs_common_back: "lcs (xs @ bs) (ys @ bs) = lcs xs ys + length bs"
  using lcs_common_front [of "rev bs" "rev xs" "rev ys"] lcs_rev [of "xs @ bs" "ys @ bs"] lcs_rev [of xs ys] by simp

lemma lcs_append_le: "lcs xs us + lcs ys vs \<le> lcs (xs @ ys) (us @ vs)"
proof -
  obtain z w where "subseq z xs" "subseq z us" "length z = lcs xs us" "subseq w ys" "subseq w vs" "length w = lcs ys vs"
    using lcs_reached by metis
  then show ?thesis using lcs_largest [of "z @ w" "xs @ ys" "us @ vs"] by (simp add: list_emb_append_mono)
qed

lemma lcs_split: "\<exists>i \<le> length vs. lcs (xs @ ys) vs = lcs xs (take i vs) + lcs ys (drop i vs)"
proof -
  obtain zs where z: "subseq zs (xs @ ys)" "subseq zs vs" "length zs = lcs (xs @ ys) vs" using lcs_reached by blast
  then obtain z1 z2 where zz: "zs = z1 @ z2" "subseq z1 xs" "subseq z2 ys" by (auto simp: subseq_append_iff)
  then obtain v1 v2 where v: "vs = v1 @ v2" "subseq z1 v1" "subseq z2 v2" using z(2) list_emb_appendD [of "(=)" z1 z2 vs] by auto
  have "lcs (xs @ ys) vs \<le> lcs xs v1 + lcs ys v2"
    using lcs_largest [OF zz(2) v(2)] lcs_largest [OF zz(3) v(3)] z(3) zz(1) by simp
  moreover have "lcs xs v1 + lcs ys v2 \<le> lcs (xs @ ys) vs" unfolding v(1) by (rule lcs_append_le)
  ultimately show ?thesis using v(1) by (intro exI [of _ "length v1"]) simp
qed

lemma lines_eq_iff [simp]: "lines_eq a b \<longleftrightarrow> a = b"
  by (auto simp: lines_eq_def)

lemma line_str_eq_iff [simp]: "line_str_eq a b \<longleftrightarrow> a = b"
  by (simp add: line_str_eq_def)

section \<open>Slices\<close>

definition lines_of :: "smartlist_slice_t \<Rightarrow> cdline_t list" where
  "lines_of s = take (slice_len s) (drop (slice_offset s) (slice_list s))"

definition slice_ok :: "smartlist_slice_t \<Rightarrow> bool" where
  "slice_ok s \<longleftrightarrow> slice_offset s + slice_len s \<le> length (slice_list s)"

lemma length_lines_of: "slice_ok s \<Longrightarrow> length (lines_of s) = slice_len s"
  by (simp add: lines_of_def slice_ok_def)

lemma nth_lines_of: "slice_ok s \<Longrightarrow> i < slice_len s \<Longrightarrow> lines_of s ! i = slice_list s ! (slice_offset s + i)"
  by (simp add: lines_of_def slice_ok_def)

lemma smartlist_slice_ok:
  assumes "a \<le> b" "b \<le> length l"
  shows "smartlist_slice l (int a) (int b) = Done \<lparr>slice_list = l, slice_offset = a, slice_len = b - a\<rparr>"
  using assms by (simp add: smartlist_slice_def Let_def nat_diff_distrib')

subsection \<open>The rows of the table\<close>

definition row :: "cdline_t list \<Rightarrow> cdline_t list \<Rightarrow> nat list" where
  "row xs ys = map (\<lambda>k. lcs xs (rev (take k ys))) [0..<length ys + 1]"

lemma nth_row: "k \<le> length ys \<Longrightarrow> row xs ys ! k = lcs xs (rev (take k ys))"
  by (simp add: row_def del: upt_Suc)

lemma length_row [simp]: "length (row xs ys) = length ys + 1"
  by (simp add: row_def)

lemma lcs_row_ok:
  assumes "\<And>j. j < slice_len s2 \<Longrightarrow> slice_list s2 ! nat (sj_start + int j * dir) = ys ! j" "length ys = slice_len s2"
  shows "length result = length ys + 1 \<Longrightarrow> j \<le> length ys \<Longrightarrow> (\<And>k. k \<le> j \<Longrightarrow> result ! k = lcs (x # xs) (rev (take k ys))) \<Longrightarrow>
     lcs_row x s2 dir (row xs ys) (sj_start + int j * dir) j result = row (x # xs) ys"
proof (induction "length ys - j" arbitrary: j result rule: less_induct)
  case less
  show ?case
  proof (cases "j < length ys")
    case False
    then have "result = row (x # xs) ys"
      using less.prems by (intro nth_equalityI) (auto simp: nth_row less_Suc_eq_le)
    then show ?thesis using False assms(2) by (subst lcs_row.simps) simp
  next
    case True
    let ?r = "if x = ys ! j then result[j + 1 := row xs ys ! j + 1]
       else result[j + 1 := max (result ! j) (row xs ys ! (j + 1))]"
    have t: "rev (take (Suc j) ys) = ys ! j # rev (take j ys)" using True by (simp add: take_Suc_conv_app_nth)
    have "?r ! k = lcs (x # xs) (rev (take k ys))" if "k \<le> j + 1" for k
    proof (cases "k = j + 1")
      case True
      then show ?thesis
        using \<open>j < length ys\<close> less.prems(1) less.prems(3) [of j] by (simp add: t nth_row max.commute)
    next
      case False
      then show ?thesis using less.prems(3) [of k] that by simp
    qed
    moreover have "length ?r = length ys + 1" using less.prems(1) by simp
    moreover have "lcs_row x s2 dir (row xs ys) (sj_start + int j * dir) j result =
        lcs_row x s2 dir (row xs ys) (sj_start + int (j + 1) * dir) (j + 1) ?r"
      using True assms by (subst lcs_row.simps) (simp add: Let_def algebra_simps)
    ultimately show ?thesis using less.hyps [of "j + 1" ?r] True by simp
  qed
qed

lemma lcs_rows_ok:
  assumes "\<And>i. i < slice_len s1 \<Longrightarrow> slice_list s1 ! nat (si_start + int i * dir) = xs ! i" "length xs = slice_len s1"
    "\<And>j. j < slice_len s2 \<Longrightarrow> slice_list s2 ! nat (sj_start + int j * dir) = ys ! j" "length ys = slice_len s2"
    "sj_start = (if dir = - 1 then int (slice_offset s2) + (int (slice_len s2) - 1) else int (slice_offset s2))"
  shows "i \<le> length xs \<Longrightarrow> lcs_rows s1 s2 dir (si_start + int i * dir) i (row (rev (take i xs)) ys) = row (rev xs) ys"
proof (induction "length xs - i" arbitrary: i rule: less_induct)
  case less
  show ?case
  proof (cases "i < length xs")
    case False
    then show ?thesis using assms(2) less.prems by (subst lcs_rows.simps) simp
  next
    case True
    have t: "rev (take (Suc i) xs) = xs ! i # rev (take i xs)" using True by (simp add: take_Suc_conv_app_nth)
    have "lcs_row (xs ! i) s2 dir (row (rev (take i xs)) ys) (sj_start + int 0 * dir) 0 (row (rev (take i xs)) ys) =
        row (xs ! i # rev (take i xs)) ys"
      by (rule lcs_row_ok [OF assms(3,4)]) (simp_all add: nth_row)
    then have "lcs_rows s1 s2 dir (si_start + int i * dir) i (row (rev (take i xs)) ys) =
        lcs_rows s1 s2 dir (si_start + int (Suc i) * dir) (Suc i) (row (rev (take (Suc i) xs)) ys)"
      using True assms(1) [of i] assms(2,5) by (subst lcs_rows.simps) (simp add: Let_def t algebra_simps)
    then show ?thesis using less.hyps [of "Suc i"] True by simp
  qed
qed

lemma row_Nil: "row [] ys = replicate (length ys + 1) 0"
  unfolding row_def lcs.simps(1) map_replicate_const by simp

lemma nth_backwards:
  assumes "slice_ok s" "i < slice_len s"
  shows "slice_list s ! nat (int (slice_offset s) + (int (slice_len s) - 1) + int i * - 1) = rev (lines_of s) ! i"
proof -
  have "nat (int (slice_offset s) + (int (slice_len s) - 1) + int i * - 1) = slice_offset s + (slice_len s - 1 - i)"
    using assms(2) by linarith
  then show ?thesis using assms by (simp add: rev_nth length_lines_of nth_lines_of)
qed

lemma lcs_lengths_ok:
  assumes "slice_ok s1" "slice_ok s2"
  shows "lcs_lengths s1 s2 1 = Done (map (\<lambda>k. lcs (lines_of s1) (take k (lines_of s2))) [0..<slice_len s2 + 1])"
    "lcs_lengths s1 s2 (- 1) = Done (map (\<lambda>k. lcs (lines_of s1) (drop (slice_len s2 - k) (lines_of s2))) [0..<slice_len s2 + 1])"
proof -
  note len = length_lines_of [OF assms(1)] length_lines_of [OF assms(2)]
  have "lcs_rows s1 s2 1 (int (slice_offset s1) + int 0 * 1) 0 (row (rev (take 0 (lines_of s1))) (lines_of s2)) =
      row (rev (lines_of s1)) (lines_of s2)"
    by (rule lcs_rows_ok [OF _ _ _ _ refl])
      (use assms len in \<open>simp_all add: nth_lines_of nat_add_distrib\<close>)
  then have "lcs_lengths s1 s2 1 = Done (row (rev (lines_of s1)) (lines_of s2))"
    by (simp add: lcs_lengths_def row_Nil len)
  then show "lcs_lengths s1 s2 1 = Done (map (\<lambda>k. lcs (lines_of s1) (take k (lines_of s2))) [0..<slice_len s2 + 1])"
    unfolding row_def len lcs_rev .
  have "lcs_rows s1 s2 (- 1) (int (slice_offset s1) + (int (slice_len s1) - 1) + int 0 * - 1) 0
      (row (rev (take 0 (rev (lines_of s1)))) (rev (lines_of s2))) = row (rev (rev (lines_of s1))) (rev (lines_of s2))"
    by (rule lcs_rows_ok [where sj_start = "int (slice_offset s2) + (int (slice_len s2) - 1)"])
      (use assms len in \<open>simp_all only: nth_backwards length_rev if_True refl le0 simp_thms\<close>)
  then have "lcs_lengths s1 s2 (- 1) = Done (row (lines_of s1) (rev (lines_of s2)))"
    by (simp add: lcs_lengths_def row_Nil len)
  also have "row (lines_of s1) (rev (lines_of s2)) =
      map (\<lambda>k. lcs (lines_of s1) (drop (slice_len s2 - k) (lines_of s2))) [0..<slice_len s2 + 1]"
    unfolding row_def length_rev len by (intro map_cong refl) (simp add: rev_take len)
  finally show "lcs_lengths s1 s2 (- 1) = Done (map (\<lambda>k. lcs (lines_of s1) (drop (slice_len s2 - k) (lines_of s2))) [0..<slice_len s2 + 1])" .
qed

lemma best_column_ok:
  defines "total_at \<equiv> \<lambda>t b n i. int (t ! i) + int (b ! (n - i))"
  shows "best_column t b n is column m \<in> insert column (set is) \<and>
    (m = total_at t b n column \<longrightarrow> (\<forall>i \<in> set is. total_at t b n i \<le> total_at t b n (best_column t b n is column m)) \<and>
       m \<le> total_at t b n (best_column t b n is column m)) \<and>
    (m = - 1 \<and> is \<noteq> [] \<longrightarrow> (\<forall>i \<in> set is. total_at t b n i \<le> total_at t b n (best_column t b n is column m)) \<and> best_column t b n is column m \<in> set is)"
proof (induction "is" arbitrary: column m)
  case (Cons i "is")
  show ?case
  proof (cases "total_at t b n i > m")
    case True
    then show ?thesis using Cons [where column = i and m = "total_at t b n i"]
      by (auto simp: total_at_def Let_def)
  next
    case False
    have "m \<noteq> - 1" using False unfolding total_at_def by linarith
    then show ?thesis using False Cons [of column m]
      by (auto simp: total_at_def Let_def)
  qed
qed simp

lemma best_column_max:
  assumes "is \<noteq> []" "c = best_column t b n is 0 (- 1)"
  shows "c \<in> set is \<and> (\<forall>i \<in> set is. int (t ! i) + int (b ! (n - i)) \<le> int (t ! c) + int (b ! (n - c)))"
  using best_column_ok [of t b n "is" 0 "- 1"] assms by simp

lemma optimal_column_ok:
  assumes "slice_ok s" "slice_ok u" "slice_ok s2"
  shows "\<exists>c \<le> slice_len s2. optimal_column_to_split s u s2 = Done c \<and>
    lcs (lines_of s) (take c (lines_of s2)) + lcs (lines_of u) (drop c (lines_of s2)) = lcs (lines_of s @ lines_of u) (lines_of s2)"
proof -
  let ?n = "slice_len s2" and ?ys = "lines_of s2"
  let ?t = "map (\<lambda>k. lcs (lines_of s) (take k ?ys)) [0..<?n + 1]"
  let ?b = "map (\<lambda>k. lcs (lines_of u) (drop (?n - k) ?ys)) [0..<?n + 1]"
  define c where "c = best_column ?t ?b ?n [0..<?n + 1] 0 (- 1)"
  define total_at where "total_at = (\<lambda>i. lcs (lines_of s) (take i ?ys) + lcs (lines_of u) (drop i ?ys))"
  have tot: "int (?t ! i) + int (?b ! (?n - i)) = int (total_at i)" if "i \<le> ?n" for i
  proof -
    have "[0..<?n + 1] ! (?n - i) = ?n - i" "[0..<?n + 1] ! i = i" using that by (subst nth_upt; simp)+
    then show ?thesis using that by (simp add: total_at_def del: upt_Suc)
  qed
  have best: "c \<in> set [0..<?n + 1] \<and> (\<forall>i \<in> set [0..<?n + 1]. int (?t ! i) + int (?b ! (?n - i)) \<le> int (?t ! c) + int (?b ! (?n - c)))"
    by (rule best_column_max [OF _ c_def]) simp
  from conjunct1 [OF best] have cn: "c \<le> ?n" by auto
  have c: "total_at i \<le> total_at c" if "i \<le> ?n" for i
  proof -
    have "i \<in> set [0..<?n + 1]" using that by auto
    from bspec [OF conjunct2 [OF best] this] show ?thesis unfolding tot [OF that] tot [OF cn] by simp
  qed
  obtain i where "i \<le> ?n" "lcs (lines_of s @ lines_of u) ?ys = total_at i"
    using lcs_split [of ?ys "lines_of s" "lines_of u"] by (auto simp: total_at_def length_lines_of [OF assms(3)])
  moreover have "total_at c \<le> lcs (lines_of s @ lines_of u) ?ys"
    using lcs_append_le [of "lines_of s" "take c ?ys" "lines_of u" "drop c ?ys"] by (simp add: total_at_def)
  ultimately have "total_at c = lcs (lines_of s @ lines_of u) ?ys" using c [of i] by simp
  moreover have "optimal_column_to_split s u s2 = Done c"
    by (simp add: optimal_column_to_split_def lcs_lengths_ok assms c_def del: upt_Suc)
  ultimately show ?thesis using cn by (auto simp: total_at_def)
qed

section \<open>Marking the changed lines\<close>

text \<open>The lines a bit array leaves unmarked.\<close>

definition kept :: "'a list \<Rightarrow> bool list \<Rightarrow> 'a list" where
  "kept xs m = map fst (filter (\<lambda>(x, b). \<not> b) (zip xs m))"

lemma kept_append: "length xs = length m \<Longrightarrow> kept (xs @ ys) (m @ n) = kept xs m @ kept ys n"
  by (simp add: kept_def)

lemma kept_simps [simp]: "kept [] m = []" "kept xs [] = []" "kept (x # xs) (b # m) = (if b then kept xs m else x # kept xs m)"
  by (simp_all add: kept_def)

lemma kept_none: "kept xs (replicate n True) = []"
  by (induction n arbitrary: xs) (case_tac xs; simp)+

lemma kept_all: "length xs = n \<Longrightarrow> kept xs (replicate n False) = xs"
  by (induction xs arbitrary: n) auto

lemma trim_front_ok:
  "slice_ok s1 \<Longrightarrow> slice_ok s2 \<Longrightarrow> trim_front s1 s2 = (t1, t2) \<Longrightarrow>
     \<exists>as. lines_of s1 = as @ lines_of t1 \<and> lines_of s2 = as @ lines_of t2 \<and> slice_ok t1 \<and> slice_ok t2 \<and>
       slice_list t1 = slice_list s1 \<and> slice_list t2 = slice_list s2 \<and>
       slice_offset t1 = slice_offset s1 + length as \<and> slice_offset t2 = slice_offset s2 + length as"
proof (induction s1 s2 rule: trim_front.induct)
  case (1 s1 s2)
  let ?c = "slice_len s1 > 0 \<and> slice_len s2 > 0 \<and> slice_list s1 ! slice_offset s1 = slice_list s2 ! slice_offset s2"
  show ?case
  proof (cases ?c)
    case False
    then have "t1 = s1" "t2 = s2" using "1.prems"(3) by (subst (asm) trim_front.simps, auto split: if_splits)+
    then show ?thesis using "1.prems"(1,2) by (intro exI [of _ "[]"]) simp
  next
    case True
    let ?u1 = "s1\<lparr>slice_offset := slice_offset s1 + 1, slice_len := slice_len s1 - 1\<rparr>"
    let ?u2 = "s2\<lparr>slice_offset := slice_offset s2 + 1, slice_len := slice_len s2 - 1\<rparr>"
    have step: "trim_front s1 s2 = trim_front ?u1 ?u2" using True by (subst trim_front.simps) simp
    have ok: "slice_ok ?u1" "slice_ok ?u2" using "1.prems"(1,2) True by (auto simp: slice_ok_def)
    have first: "lines_of s = slice_list s ! slice_offset s # lines_of (s\<lparr>slice_offset := slice_offset s + 1, slice_len := slice_len s - 1\<rparr>)"
      if "slice_ok s" "slice_len s > 0" for s
      using that by (cases "slice_len s") (auto simp: lines_of_def slice_ok_def Cons_nth_drop_Suc [symmetric])
    obtain as where "lines_of ?u1 = as @ lines_of t1 \<and> lines_of ?u2 = as @ lines_of t2 \<and> slice_ok t1 \<and> slice_ok t2 \<and>
       slice_list t1 = slice_list ?u1 \<and> slice_list t2 = slice_list ?u2 \<and>
       slice_offset t1 = slice_offset ?u1 + length as \<and> slice_offset t2 = slice_offset ?u2 + length as"
      using "1.IH" [OF _ _ ok] True "1.prems"(3) unfolding step by auto
    then show ?thesis
      using first [OF "1.prems"(1)] first [OF "1.prems"(2)] True
      by (intro exI [of _ "slice_list s1 ! slice_offset s1 # as"]) simp
  qed
qed

lemma trim_back_ok:
  "slice_ok s1 \<Longrightarrow> slice_ok s2 \<Longrightarrow> i1 = int (slice_offset s1 + slice_len s1) - 1 \<Longrightarrow>
     i2 = int (slice_offset s2 + slice_len s2) - 1 \<Longrightarrow> trim_back s1 s2 i1 i2 = (t1, t2) \<Longrightarrow>
     \<exists>bs. lines_of s1 = lines_of t1 @ bs \<and> lines_of s2 = lines_of t2 @ bs \<and> slice_ok t1 \<and> slice_ok t2 \<and>
       slice_list t1 = slice_list s1 \<and> slice_list t2 = slice_list s2 \<and>
       slice_offset t1 = slice_offset s1 \<and> slice_offset t2 = slice_offset s2"
proof (induction s1 s2 i1 i2 rule: trim_back.induct)
  case (1 s1 s2 i1 i2)
  let ?c = "slice_len s1 > 0 \<and> slice_len s2 > 0 \<and> slice_list s1 ! nat i1 = slice_list s2 ! nat i2"
  show ?case
  proof (cases ?c)
    case False
    then have "t1 = s1" "t2 = s2" using "1.prems"(5) by (subst (asm) trim_back.simps, auto split: if_splits)+
    then show ?thesis using "1.prems"(1,2) by (intro exI [of _ "[]"]) simp
  next
    case True
    let ?u1 = "s1\<lparr>slice_len := slice_len s1 - 1\<rparr>"
    let ?u2 = "s2\<lparr>slice_len := slice_len s2 - 1\<rparr>"
    have step: "trim_back s1 s2 i1 i2 = trim_back ?u1 ?u2 (i1 - 1) (i2 - 1)" using True by (subst trim_back.simps) simp
    have ok: "slice_ok ?u1" "slice_ok ?u2" using "1.prems"(1,2) True by (auto simp: slice_ok_def)
    have final: "lines_of s = lines_of (s\<lparr>slice_len := slice_len s - 1\<rparr>) @ [slice_list s ! nat i]"
      if s: "slice_ok s" and pos: "slice_len s > 0" and i: "i = int (slice_offset s + slice_len s) - 1" for s i
    proof -
      obtain n where n: "slice_len s = Suc n" using pos by (cases "slice_len s") auto
      then have "nat i = slice_offset s + n" using i by simp
      then show ?thesis using s n by (simp add: lines_of_def slice_ok_def take_Suc_conv_app_nth)
    qed
    obtain bs where "lines_of ?u1 = lines_of t1 @ bs \<and> lines_of ?u2 = lines_of t2 @ bs \<and> slice_ok t1 \<and> slice_ok t2 \<and>
       slice_list t1 = slice_list ?u1 \<and> slice_list t2 = slice_list ?u2 \<and>
       slice_offset t1 = slice_offset ?u1 \<and> slice_offset t2 = slice_offset ?u2"
      using "1.IH" [OF _ _ ok] True "1.prems"(3-5) unfolding step by auto
    then show ?thesis
      using final [OF "1.prems"(1) _ "1.prems"(3)] final [OF "1.prems"(2) _ "1.prems"(4)] True
      by (intro exI [of _ "bs @ [slice_list s1 ! nat i1]"]) simp
  qed
qed

lemma trim_slices_ok:
  assumes "slice_ok s1" "slice_ok s2" "trim_slices s1 s2 = (t1, t2)"
  obtains as bs where "lines_of s1 = as @ lines_of t1 @ bs" "lines_of s2 = as @ lines_of t2 @ bs" "slice_ok t1" "slice_ok t2"
    "slice_list t1 = slice_list s1" "slice_list t2 = slice_list s2"
    "slice_offset t1 = slice_offset s1 + length as" "slice_offset t2 = slice_offset s2 + length as"
proof -
  obtain u1 u2 where u: "trim_front s1 s2 = (u1, u2)" by (cases "trim_front s1 s2")
  from trim_front_ok [OF assms(1,2) u] obtain as where a: "lines_of s1 = as @ lines_of u1" "lines_of s2 = as @ lines_of u2"
    "slice_ok u1" "slice_ok u2" "slice_list u1 = slice_list s1" "slice_list u2 = slice_list s2"
    "slice_offset u1 = slice_offset s1 + length as" "slice_offset u2 = slice_offset s2 + length as" by auto
  have "trim_back u1 u2 (int (slice_offset u1 + slice_len u1) - 1) (int (slice_offset u2 + slice_len u2) - 1) = (t1, t2)"
    using assms(3) u by (simp add: trim_slices_def)
  from trim_back_ok [OF a(3,4) refl refl this] a that show ?thesis by auto
qed

subsection \<open>One slice with at most one line\<close>

lemma mark_range:
  "length p = k \<Longrightarrow> fold (\<lambda>i c. if int i \<noteq> t then bitarray_set c i else c) [k..<k + n] (p @ replicate n False @ q) =
     p @ map (\<lambda>i. int i \<noteq> t) [k..<k + n] @ q"
proof (induction n arbitrary: q)
  case (Suc n)
  have "fold (\<lambda>i c. if int i \<noteq> t then bitarray_set c i else c) [k..<k + Suc n] (p @ replicate (Suc n) False @ q) =
      (\<lambda>c. if int (k + n) \<noteq> t then bitarray_set c (k + n) else c)
        (fold (\<lambda>i c. if int i \<noteq> t then bitarray_set c i else c) [k..<k + n] (p @ replicate n False @ (False # q)))"
    by (simp add: replicate_append_same [symmetric])
  then show ?case unfolding Suc.IH [OF Suc.prems] using Suc.prems
    by (simp add: bitarray_set_def list_update_append)
qed simp

lemma pos_from_range:
  "(s \<notin> set (map ((!) l) [k..<k + n]) \<longrightarrow> pos_from l s [k..<k + n] = - 1) \<and>
   (s \<in> set (map ((!) l) [k..<k + n]) \<longrightarrow> (\<exists>j<n. pos_from l s [k..<k + n] = int (k + j) \<and> l ! (k + j) = s))"
proof (induction n arbitrary: k)
  case (Suc n)
  have u: "[k..<k + Suc n] = k # [Suc k..<Suc k + n]" by (simp add: upt_conv_Cons)
  show ?case
  proof (cases "l ! k = s")
    case True
    then show ?thesis unfolding u by (auto intro!: exI [of _ 0])
  next
    case False
    have shift: "\<exists>j<Suc n. p = int (k + j) \<and> l ! (k + j) = s" if "\<exists>j<n. p = int (Suc k + j) \<and> l ! (Suc k + j) = s" for p
      using that by (metis Suc_less_eq add_Suc_shift)
    have "pos_from l s (k # [Suc k..<Suc k + n]) = pos_from l s [Suc k..<Suc k + n]" using False by simp
    moreover have "s \<in> set (map ((!) l) (k # [Suc k..<Suc k + n])) \<longleftrightarrow> s \<in> set (map ((!) l) [Suc k..<Suc k + n])"
      using False by auto
    ultimately show ?thesis unfolding u using Suc [of "Suc k"] shift by presburger
  qed
qed simp

lemma map_range: "slice_ok s \<Longrightarrow> map ((!) (slice_list s)) [slice_offset s..<slice_offset s + slice_len s] = lines_of s"
  by (intro nth_equalityI) (simp_all add: length_lines_of nth_lines_of)

lemma kept_mark:
  "length ys = n \<Longrightarrow> j < n \<Longrightarrow> kept ys (map (\<lambda>i. int i \<noteq> int (k + j)) [k..<k + n]) = [ys ! j]"
proof (induction n arbitrary: ys j k)
  case (Suc n)
  then obtain y ys' where y: "ys = y # ys'" by (cases ys) auto
  have u: "[k..<k + Suc n] = k # [Suc k..<Suc k + n]" by (simp add: upt_conv_Cons)
  show ?case
  proof (cases j)
    case 0
    have "map (\<lambda>i. int i \<noteq> int k) [Suc k..<Suc k + n] = replicate n True"
      by (intro nth_equalityI) (simp_all del: upt_Suc)
    then show ?thesis unfolding u using 0 y by (simp add: kept_none)
  next
    case (Suc j')
    then show ?thesis unfolding u using Suc.IH [of ys' j' "Suc k"] Suc.prems y by simp
  qed
qed simp

text \<open>What a marking of two slices has to achieve: it touches only their parts of the arrays, leaves the same lines of
  both unmarked, and as many as possible.\<close>

definition marks :: "smartlist_slice_t \<Rightarrow> smartlist_slice_t \<Rightarrow> bool list \<Rightarrow> bool list \<Rightarrow> bool" where
  "marks s1 s2 m1 m2 \<longleftrightarrow> length m1 = slice_len s1 \<and> length m2 = slice_len s2 \<and>
     kept (lines_of s1) m1 = kept (lines_of s2) m2 \<and> length (kept (lines_of s2) m2) = lcs (lines_of s1) (lines_of s2)"

lemma lcs_single: "lcs [x] ys = (if x \<in> set ys then 1 else 0)"
  by (induction ys) auto

lemma set_changed_ok:
  assumes "slice_ok s1" "slice_ok s2" "slice_len s1 \<le> 1" "length p1 = slice_offset s1" "length p2 = slice_offset s2"
  shows "\<exists>m1 m2. set_changed (p1 @ replicate (slice_len s1) False @ q1) (p2 @ replicate (slice_len s2) False @ q2) s1 s2 =
      Done (p1 @ m1 @ q1, p2 @ m2 @ q2) \<and> marks s1 s2 m1 m2"
proof (cases "slice_len s1 = 0")
  case True
  have "map (\<lambda>i. int i \<noteq> - 1) [slice_offset s2..<slice_offset s2 + slice_len s2] = replicate (slice_len s2) True"
    by (intro nth_equalityI) auto
  moreover have "lines_of s1 = []" using True by (simp add: lines_of_def)
  ultimately show ?thesis
    using True mark_range [OF assms(5), of "- 1" "slice_len s2" q2]
    by (intro exI [of _ "[]"] exI [of _ "replicate (slice_len s2) True"]) (simp add: set_changed_def marks_def kept_none)
next
  case False
  then have one: "slice_len s1 = 1" using assms(3) by linarith
  let ?x = "slice_list s1 ! slice_offset s1" and ?k = "slice_offset s2" and ?n = "slice_len s2"
  define t where "t = smartlist_slice_string_pos s2 ?x"
  have l1: "lines_of s1 = [?x]"
    using length_lines_of [OF assms(1)] nth_lines_of [OF assms(1), of 0] one by (cases "lines_of s1") auto
  define m2 where "m2 = map (\<lambda>i. int i \<noteq> t) [?k..<?k + ?n]"
  have res: "set_changed (p1 @ replicate (slice_len s1) False @ q1) (p2 @ replicate (slice_len s2) False @ q2) s1 s2 =
      Done (p1 @ [t = - 1] @ q1, p2 @ m2 @ q2)"
    using mark_range [OF assms(5), of t ?n q2] assms(4) one
    by (simp add: set_changed_def t_def [symmetric] m2_def bitarray_set_def list_update_append)
  note pos = pos_from_range [of ?x "slice_list s2" ?k ?n, unfolded map_range [OF assms(2)]]
  have "marks s1 s2 [t = - 1] m2"
  proof (cases "?x \<in> set (lines_of s2)")
    case True
    then obtain j where j: "j < ?n" "t = int (?k + j)" "slice_list s2 ! (?k + j) = ?x"
      using pos unfolding t_def smartlist_slice_string_pos_def by blast
    have "kept (lines_of s2) m2 = [lines_of s2 ! j]"
      unfolding m2_def j(2) by (rule kept_mark [OF length_lines_of [OF assms(2)] j(1)])
    then show ?thesis using True j one nth_lines_of [OF assms(2) j(1)]
      by (simp add: marks_def l1 lcs_single m2_def)
  next
    case False
    then have t: "t = - 1" using pos unfolding t_def smartlist_slice_string_pos_def by blast
    have "m2 = replicate ?n True" unfolding m2_def t by (intro nth_equalityI) auto
    then show ?thesis using False t one by (simp add: marks_def l1 lcs_single kept_none)
  qed
  with res show ?thesis by blast
qed

lemma marks_sym: "marks s1 s2 m1 m2 \<Longrightarrow> marks s2 s1 m2 m1"
  using lcs_sym [of "lines_of s1" "lines_of s2"] by (simp add: marks_def)

subsection \<open>Dividing the slices\<close>

lemma marks_pad:
  assumes "marks t1 t2 m1 m2" "lines_of s1 = as @ lines_of t1 @ bs" "lines_of s2 = as @ lines_of t2 @ bs"
    "slice_ok s1" "slice_ok s2" "slice_ok t1" "slice_ok t2"
  shows "marks s1 s2 (replicate (length as) False @ m1 @ replicate (length bs) False)
     (replicate (length as) False @ m2 @ replicate (length bs) False)"
proof -
  have len: "slice_len s1 = length as + slice_len t1 + length bs" "slice_len s2 = length as + slice_len t2 + length bs"
    using assms(2,3) length_lines_of [OF assms(4)] length_lines_of [OF assms(5)]
      length_lines_of [OF assms(6)] length_lines_of [OF assms(7)] by simp_all
  have "kept (as @ xs @ bs) (replicate (length as) False @ m @ replicate (length bs) False) = as @ kept xs m @ bs"
    if "length xs = length m" for xs m
    using that by (simp add: kept_append kept_all)
  then show ?thesis
    using assms(1) length_lines_of [OF assms(6)] length_lines_of [OF assms(7)]
    by (simp add: marks_def assms(2,3) len lcs_common_front lcs_common_back)
qed

lemma calc_changes_ok:
  "slice_ok s1 \<Longrightarrow> slice_ok s2 \<Longrightarrow> length p1 = slice_offset s1 \<Longrightarrow> length p2 = slice_offset s2 \<Longrightarrow>
     \<exists>m1 m2. calc_changes s1 s2 (p1 @ replicate (slice_len s1) False @ q1) (p2 @ replicate (slice_len s2) False @ q2) =
       Done (p1 @ m1 @ q1, p2 @ m2 @ q2) \<and> marks s1 s2 m1 m2"
proof (induction "slice_len s1" arbitrary: s1 s2 p1 p2 q1 q2 rule: less_induct)
  case less
  obtain t1 t2 where t: "trim_slices s1 s2 = (t1, t2)" by (cases "trim_slices s1 s2")
  obtain as bs where ab: "lines_of s1 = as @ lines_of t1 @ bs" "lines_of s2 = as @ lines_of t2 @ bs" "slice_ok t1" "slice_ok t2"
      "slice_list t1 = slice_list s1" "slice_list t2 = slice_list s2"
      "slice_offset t1 = slice_offset s1 + length as" "slice_offset t2 = slice_offset s2 + length as"
    using trim_slices_ok [OF less.prems(1,2) t] by blast
  let ?A = "replicate (length as) False" and ?B = "replicate (length bs) False"
  have len: "slice_len s1 = length as + slice_len t1 + length bs" "slice_len s2 = length as + slice_len t2 + length bs"
    using ab(1,2) length_lines_of [OF less.prems(1)] length_lines_of [OF less.prems(2)]
      length_lines_of [OF ab(3)] length_lines_of [OF ab(4)] by simp_all
  let ?c1 = "(p1 @ ?A) @ replicate (slice_len t1) False @ (?B @ q1)"
  let ?c2 = "(p2 @ ?A) @ replicate (slice_len t2) False @ (?B @ q2)"
  have c: "p1 @ replicate (slice_len s1) False @ q1 = ?c1" "p2 @ replicate (slice_len s2) False @ q2 = ?c2"
    by (simp_all add: len replicate_add)
  have off: "length (p1 @ ?A) = slice_offset t1" "length (p2 @ ?A) = slice_offset t2"
    using less.prems(3,4) ab(7,8) by simp_all
  have main: "\<exists>m1 m2. calc_changes s1 s2 ?c1 ?c2 = Done ((p1 @ ?A) @ m1 @ (?B @ q1), (p2 @ ?A) @ m2 @ (?B @ q2)) \<and> marks t1 t2 m1 m2"
  proof -
    consider "slice_len t1 \<le> 1" | "\<not> slice_len t1 \<le> 1" "slice_len t2 \<le> 1" | "\<not> slice_len t1 \<le> 1" "\<not> slice_len t2 \<le> 1" by blast
    then show ?thesis
    proof cases
      case 1
      then show ?thesis using set_changed_ok [OF ab(3,4) 1 off, of "?B @ q1" "?B @ q2"]
        by (subst calc_changes.simps) (simp add: t)
    next
      case 2
      obtain m2 m1 where "set_changed ?c2 ?c1 t2 t1 = Done ((p2 @ ?A) @ m2 @ (?B @ q2), (p1 @ ?A) @ m1 @ (?B @ q1))" "marks t2 t1 m2 m1"
        using set_changed_ok [OF ab(4,3) 2(2) off(2,1), of "?B @ q2" "?B @ q1"] by blast
      then show ?thesis using 2 marks_sym by (subst calc_changes.simps) (auto simp: t)
    next
      case 3
      define o1 where "o1 = slice_offset t1"
      define o2 where "o2 = slice_offset t2"
      define n1 where "n1 = slice_len t1"
      define n2 where "n2 = slice_len t2"
      define mid where "mid = n1 div 2"
      have n: "1 < n1" "0 < mid" "mid < n1" using 3(1) by (simp_all add: n1_def mid_def)
      have b: "o1 + n1 \<le> length (slice_list t1)" "o2 + n2 \<le> length (slice_list t2)"
        using ab(3,4) by (simp_all add: slice_ok_def o1_def o2_def n1_def n2_def)
      define T where "T = \<lparr>slice_list = slice_list t1, slice_offset = o1, slice_len = mid\<rparr>"
      define U where "U = \<lparr>slice_list = slice_list t1, slice_offset = o1 + mid, slice_len = n1 - mid\<rparr>"
      have TU: "slice_ok T" "slice_ok U" using b n by (simp_all add: T_def U_def slice_ok_def)
      have sT: "smartlist_slice (slice_list t1) (int o1) (int o1 + int mid) = Done T"
        using smartlist_slice_ok [of o1 "o1 + mid" "slice_list t1"] b n by (simp add: T_def)
      have sU: "smartlist_slice (slice_list t1) (int o1 + int mid) (int o1 + int n1) = Done U"
        using smartlist_slice_ok [of "o1 + mid" "o1 + n1" "slice_list t1"] b n by (simp add: U_def)
      have l1: "lines_of t1 = lines_of T @ lines_of U"
      proof -
        have "take n1 xs = take mid xs @ take (n1 - mid) (drop mid xs)" for xs :: "cdline_t list"
          using n take_add [of mid "n1 - mid" xs] by simp
        then show ?thesis by (simp add: lines_of_def T_def U_def o1_def n1_def add.commute)
      qed
      obtain cl where cl: "cl \<le> n2" "optimal_column_to_split T U t2 = Done cl"
          "lcs (lines_of T) (take cl (lines_of t2)) + lcs (lines_of U) (drop cl (lines_of t2)) = lcs (lines_of t1) (lines_of t2)"
        using optimal_column_ok [OF TU ab(4)] unfolding l1 n2_def by blast
      define L where "L = \<lparr>slice_list = slice_list t2, slice_offset = o2, slice_len = cl\<rparr>"
      define R where "R = \<lparr>slice_list = slice_list t2, slice_offset = o2 + cl, slice_len = n2 - cl\<rparr>"
      have LR: "slice_ok L" "slice_ok R" using b cl(1) by (simp_all add: L_def R_def slice_ok_def)
      have sL: "smartlist_slice (slice_list t2) (int o2) (int o2 + int cl) = Done L"
        using smartlist_slice_ok [of o2 "o2 + cl" "slice_list t2"] b cl(1) by (simp add: L_def)
      have sR: "smartlist_slice (slice_list t2) (int o2 + int cl) (int o2 + int n2) = Done R"
        using smartlist_slice_ok [of "o2 + cl" "o2 + n2" "slice_list t2"] b cl(1) by (simp add: R_def)
      have l2: "lines_of L = take cl (lines_of t2)" "lines_of R = drop cl (lines_of t2)"
        using cl(1) by (simp_all add: lines_of_def L_def R_def o2_def n2_def drop_take add.commute)
      let ?P1 = "p1 @ ?A" and ?P2 = "p2 @ ?A" and ?Q1 = "?B @ q1" and ?Q2 = "?B @ q2"
      have lt: "slice_len T < slice_len s1" "slice_len U < slice_len s1" using n len(1) by (simp_all add: T_def U_def n1_def)
      have "\<exists>m1 m2. calc_changes T L (?P1 @ replicate (slice_len T) False @ (replicate (n1 - mid) False @ ?Q1))
          (?P2 @ replicate (slice_len L) False @ (replicate (n2 - cl) False @ ?Q2)) =
          Done (?P1 @ m1 @ (replicate (n1 - mid) False @ ?Q1), ?P2 @ m2 @ (replicate (n2 - cl) False @ ?Q2)) \<and> marks T L m1 m2"
        by (rule less.hyps [OF lt(1) TU(1) LR(1)]) (use off in \<open>simp_all add: T_def L_def o1_def o2_def\<close>)
      then obtain m1 m2 where m: "calc_changes T L (?P1 @ replicate (slice_len T) False @ (replicate (n1 - mid) False @ ?Q1))
          (?P2 @ replicate (slice_len L) False @ (replicate (n2 - cl) False @ ?Q2)) =
          Done (?P1 @ m1 @ (replicate (n1 - mid) False @ ?Q1), ?P2 @ m2 @ (replicate (n2 - cl) False @ ?Q2))" "marks T L m1 m2" by blast
      have "\<exists>k1 k2. calc_changes U R ((?P1 @ m1) @ replicate (slice_len U) False @ ?Q1) ((?P2 @ m2) @ replicate (slice_len R) False @ ?Q2) =
          Done ((?P1 @ m1) @ k1 @ ?Q1, (?P2 @ m2) @ k2 @ ?Q2) \<and> marks U R k1 k2"
        by (rule less.hyps [OF lt(2) TU(2) LR(2)])
          (use off m(2) in \<open>simp_all add: T_def L_def U_def R_def o1_def o2_def marks_def\<close>)
      then obtain k1 k2 where k: "calc_changes U R ((?P1 @ m1) @ replicate (slice_len U) False @ ?Q1) ((?P2 @ m2) @ replicate (slice_len R) False @ ?Q2) =
          Done ((?P1 @ m1) @ k1 @ ?Q1, (?P2 @ m2) @ k2 @ ?Q2)" "marks U R k1 k2" by blast
      have e: "?c1 = ?P1 @ replicate (slice_len T) False @ (replicate (n1 - mid) False @ ?Q1)"
          "?c2 = ?P2 @ replicate (slice_len L) False @ (replicate (n2 - cl) False @ ?Q2)"
        using n cl(1) by (simp_all add: T_def L_def n1_def [symmetric] n2_def [symmetric] flip: replicate_add append_assoc)
      have "calc_changes s1 s2 ?c1 ?c2 =
          and_then (calc_changes T L ?c1 ?c2) (\<lambda>(changed1, changed2). calc_changes U R changed1 changed2)"
        using 3 by (subst calc_changes.simps) (simp add: t Let_def sT sU sL sR cl(2)
            o1_def [symmetric] o2_def [symmetric] n1_def [symmetric] n2_def [symmetric] mid_def [symmetric])
      also have "\<dots> = calc_changes U R (?P1 @ m1 @ (replicate (n1 - mid) False @ ?Q1)) (?P2 @ m2 @ (replicate (n2 - cl) False @ ?Q2))"
        unfolding e m(1) by simp
      also have "\<dots> = Done ((?P1 @ m1) @ k1 @ ?Q1, (?P2 @ m2) @ k2 @ ?Q2)"
        using k(1) by (simp add: U_def R_def)
      finally have run: "calc_changes s1 s2 ?c1 ?c2 = Done (?P1 @ (m1 @ k1) @ ?Q1, ?P2 @ (m2 @ k2) @ ?Q2)" by simp
      have "marks t1 t2 (m1 @ k1) (m2 @ k2)"
      proof -
        have ll: "lines_of t2 = lines_of L @ lines_of R" by (simp add: l2)
        have "length (lines_of T) = length m1" "length (lines_of L) = length m2"
          using m(2) length_lines_of TU(1) LR(1) by (simp_all add: marks_def)
        then show ?thesis
          using m(2) k(2) cl(1,3) n l2 unfolding marks_def l1 ll
          by (simp add: kept_append T_def U_def L_def R_def n1_def n2_def)
      qed
      with run show ?thesis by blast
    qed
  qed
  then obtain m1 m2 where m: "calc_changes s1 s2 ?c1 ?c2 = Done ((p1 @ ?A) @ m1 @ (?B @ q1), (p2 @ ?A) @ m2 @ (?B @ q2))" "marks t1 t2 m1 m2"
    by blast
  show ?case unfolding c
    using m marks_pad [OF m(2) ab(1,2) less.prems(1,2) ab(3,4)]
    by (intro exI [of _ "?A @ m1 @ ?B"] exI [of _ "?A @ m2 @ ?B"]) simp
qed

section \<open>Properties\<close>

text \<open>C23: Longest common subsequence.  For any two slices within their documents, whatever the bit arrays hold
  outside the slices, \<open>calc_changes\<close> ends with no failed assertion, changes only the bits of the slices, leaves the
  same lines of both slices unmarked in the same order, and no common subsequence of the two slices is longer;
  \<open>lcs_lengths\<close> computes the lengths of longest common subsequences with the prefixes of the second slice, or with its
  suffixes when the direction is reversed.\<close>

theorem calc_changes_longest:
  assumes "slice_ok s1" "slice_ok s2" "length p1 = slice_offset s1" "length p2 = slice_offset s2"
  shows "(\<exists>m1 m2. calc_changes s1 s2 (p1 @ replicate (slice_len s1) False @ q1) (p2 @ replicate (slice_len s2) False @ q2) =
        Done (p1 @ m1 @ q1, p2 @ m2 @ q2) \<and> length m1 = slice_len s1 \<and> length m2 = slice_len s2 \<and>
      kept (lines_of s1) m1 = kept (lines_of s2) m2 \<and>
      (\<forall>zs. subseq zs (lines_of s1) \<and> subseq zs (lines_of s2) \<longrightarrow> length zs \<le> length (kept (lines_of s1) m1))) \<and>
    lcs_lengths s1 s2 1 = Done (map (\<lambda>k. lcs (lines_of s1) (take k (lines_of s2))) [0..<slice_len s2 + 1]) \<and>
    lcs_lengths s1 s2 (- 1) = Done (map (\<lambda>k. lcs (lines_of s1) (drop (slice_len s2 - k) (lines_of s2))) [0..<slice_len s2 + 1])"
proof -
  obtain m1 m2 where m: "calc_changes s1 s2 (p1 @ replicate (slice_len s1) False @ q1) (p2 @ replicate (slice_len s2) False @ q2) =
      Done (p1 @ m1 @ q1, p2 @ m2 @ q2)" "marks s1 s2 m1 m2"
    using calc_changes_ok [OF assms, of q1 q2] by blast
  then show ?thesis
    using lcs_lengths_ok [OF assms(1,2)] lcs_largest [of _ "lines_of s1" "lines_of s2"] by (auto simp: marks_def)
qed

lemma calc_changes_longest_witness:
  "\<exists>m1 m2. calc_changes \<lparr>slice_list = [''a'', ''b'', ''c''], slice_offset = 0, slice_len = 3\<rparr>
      \<lparr>slice_list = [''x'', ''c'', ''a'', ''c''], slice_offset = 1, slice_len = 3\<rparr>
      ([] @ replicate 3 False @ []) ([False] @ replicate 3 False @ []) = Done ([] @ m1 @ [], [False] @ m2 @ []) \<and>
    kept [''a'', ''b'', ''c''] m1 = kept [''c'', ''a'', ''c''] m2 \<and> 2 \<le> length (kept [''a'', ''b'', ''c''] m1)"
proof -
  let ?s = "\<lparr>slice_list = [''a'', ''b'', ''c''], slice_offset = 0, slice_len = 3\<rparr>"
  let ?t = "\<lparr>slice_list = [''x'', ''c'', ''a'', ''c''], slice_offset = 1, slice_len = 3\<rparr>"
  have ok: "slice_ok ?s" "slice_ok ?t" by (simp_all add: slice_ok_def)
  have l: "lines_of ?s = [''a'', ''b'', ''c'']" "lines_of ?t = [''c'', ''a'', ''c'']" by (simp_all add: lines_of_def)
  have "subseq [''a'', ''c''] [''a'', ''b'', ''c'']" "subseq [''a'', ''c''] [''c'', ''a'', ''c'']" by simp_all
  moreover have "\<exists>m1 m2. calc_changes ?s ?t ([] @ replicate 3 False @ []) ([False] @ replicate 3 False @ []) =
        Done ([] @ m1 @ [], [False] @ m2 @ []) \<and> kept (lines_of ?s) m1 = kept (lines_of ?t) m2 \<and>
      (\<forall>zs. subseq zs (lines_of ?s) \<and> subseq zs (lines_of ?t) \<longrightarrow> length zs \<le> length (kept (lines_of ?s) m1))"
    using calc_changes_longest [OF ok, of "[]" "[False]" "[]" "[]"] by simp blast
  ultimately show ?thesis unfolding l by (metis (no_types, lifting) length_Cons list.size(3) numeral_2_eq_2)
qed

end
