(* ===== verification/Ed_Script.thy ===== *)
theory Ed_Script
  imports Line_Diff
begin

text \<open>
  The generation and the application of consensus diffs as ed scripts in
  \<open>feature/dircommon/consdiff.c\<close>: the walk over both documents from router entry to router entry, which
  bounds the slices given to \<open>calc_changes\<close>, the script for the marked lines, from the last line to the
  first, and the interpreter of such scripts.

  A result that is NULL in the code is \<open>Minus_1\<close>, a failed assertion \<open>Assertion_failed\<close>.  The text of a
  command line is a C string, so that reading it ends at a NUL.
\<close>

section \<open>Router entries\<close>

definition NOT_VALID_BASE64 :: nat where "NOT_VALID_BASE64 = 255"

text \<open>The table of 256 entries, with its runs written as ranges.\<close>

definition base64_compare_table :: "nat list" where
  "base64_compare_table =
     replicate 43 NOT_VALID_BASE64 @ [62, NOT_VALID_BASE64, NOT_VALID_BASE64, NOT_VALID_BASE64, 63]
     @ [52..<62] @ replicate 7 NOT_VALID_BASE64 @ [0..<26] @ replicate 6 NOT_VALID_BASE64
     @ [26..<52] @ replicate 133 NOT_VALID_BASE64"

definition get_id_hash :: "cdline_t \<Rightarrow> cdline_t option" where
  "get_id_hash line =
     (if length line < 2 then None
      else case memchr (drop 2 line) (CHR '' '') of
             None \<Rightarrow> None
           | Some k \<Rightarrow>
               (let id = takeWhile (\<lambda>c. base64_compare_table ! of_char c \<noteq> NOT_VALID_BASE64) (drop (2 + k + 1) line)
                in if id = [] then None else Some id))"

definition is_valid_router_entry :: "cdline_t \<Rightarrow> bool" where
  "is_valid_router_entry line =
     (if length line < 2 \<or> take 2 line \<noteq> ''r '' then False else get_id_hash line \<noteq> None)"

function next_router_loop :: "cdline_t list \<Rightarrow> int \<Rightarrow> int" where
  "next_router_loop cons i =
     (if i \<ge> int (length cons) then int (length cons)
      else if is_valid_router_entry (cons ! nat i) then i
      else next_router_loop cons (i + 1))"
  by pat_completeness auto
termination by (relation "measure (\<lambda>(c, i). nat (int (length c) - i))") auto

declare next_router_loop.simps [simp del]

definition next_router :: "cdline_t list \<Rightarrow> int \<Rightarrow> int outcome" where
  "next_router cons i =
     (if \<not> (i \<ge> - 1 \<and> i < int (length cons)) then Assertion_failed else Done (next_router_loop cons (i + 1)))"

text \<open>The comparison of two hashes that are not NULL, and hence not empty.\<close>

fun base64cmp_loop :: "cdline_t \<Rightarrow> cdline_t \<Rightarrow> int" where
  "base64cmp_loop (c # a) (d # b) =
     (let av = base64_compare_table ! of_char c; bv = base64_compare_table ! of_char d
      in if av = NOT_VALID_BASE64 then (if bv = NOT_VALID_BASE64 then 0 else - 1)
         else if bv = NOT_VALID_BASE64 then 1
         else if av < bv then - 1
         else if av > bv then 1
         else if a = [] then (if b = [] then 0 else - 1)
         else if b = [] then 1
         else base64cmp_loop a b)"
| "base64cmp_loop _ _ = 0"

fun base64cmp :: "cdline_t option \<Rightarrow> cdline_t option \<Rightarrow> int" where
  "base64cmp None None = 0"
| "base64cmp None (Some b) = - 1"
| "base64cmp (Some a) None = 1"
| "base64cmp (Some a) (Some b) = base64cmp_loop a b"

record router_id_iterator_t =
  last_hash :: "cdline_t option"
  id_hash :: "cdline_t option"

definition ROUTER_ID_ITERATOR_INIT :: router_id_iterator_t where
  "ROUTER_ID_ITERATOR_INIT = \<lparr>last_hash = None, id_hash = None\<rparr>"

definition find_next_router_line ::
    "cdline_t list \<Rightarrow> int \<Rightarrow> router_id_iterator_t \<Rightarrow> (int \<times> router_id_iterator_t) outcome" where
  "find_next_router_line cons idx iter =
     and_then (next_router cons idx) (\<lambda>idx.
       if idx < int (length cons) then
         (let iter = iter\<lparr>last_hash := id_hash iter\<rparr>
          in case get_id_hash (cons ! nat idx) of
               None \<Rightarrow> Minus_1
             | Some h \<Rightarrow> (let iter = iter\<lparr>id_hash := Some h\<rparr>
                          in if base64cmp (id_hash iter) (last_hash iter) \<le> 0 then Minus_1 else Done (idx, iter)))
       else Done (idx, iter))"

lemma next_router_loop_range: "i \<le> int (length cons) \<Longrightarrow> i \<le> next_router_loop cons i \<and> next_router_loop cons i \<le> int (length cons)"
proof (induction cons i rule: next_router_loop.induct)
  case (1 cons i)
  then show ?case by (subst (1 2) next_router_loop.simps) auto
qed

lemma find_next_router_line_range:
  "find_next_router_line cons idx iter = Done (idx', iter') \<Longrightarrow>
     idx < idx' \<and> idx' \<le> int (length cons) \<and> - 1 \<le> idx \<and> idx < int (length cons)"
  using next_router_loop_range [of "idx + 1" cons]
  by (auto simp: find_next_router_line_def next_router_def and_then_Done Let_def split: if_splits option.splits)

section \<open>Generating the script\<close>

definition START_OF_SIGNATURES_SECTION :: string where
  "START_OF_SIGNATURES_SECTION = ''directory-signature ''"

fun signature_index :: "cdline_t list \<Rightarrow> nat \<Rightarrow> nat option" where
  "signature_index [] idx = None"
| "signature_index (line # cons) idx =
     (if line_starts_with_str line START_OF_SIGNATURES_SECTION then Some idx else signature_index cons (idx + 1))"

text \<open>\<open>smartlist_del\<close> at one index until the list has that length.\<close>

function del_rest :: "'a list \<Rightarrow> nat \<Rightarrow> 'a list" where
  "del_rest cons i = (if length cons > i then del_rest (butlast (cons[i := last cons])) i else cons)"
  by pat_completeness auto
termination by (relation "measure (\<lambda>(c, i). length c)") auto

declare del_rest.simps [simp del]

definition preprocess_consensus :: "cdline_t list \<Rightarrow> cdline_t list \<times> cdline_t option" where
  "preprocess_consensus cons =
     (case signature_index cons 0 of
        Some dirsig_idx \<Rightarrow> (del_rest cons dirsig_idx, Some (print_int (int dirsig_idx + 1) @ '',$d''))
      | None \<Rightarrow> (cons, None))"

text \<open>The inner loop: advance the position with the lower hash until both hashes are equal.\<close>

function align_loop ::
    "cdline_t list \<Rightarrow> cdline_t list \<Rightarrow> int \<Rightarrow> int \<Rightarrow> router_id_iterator_t \<Rightarrow> router_id_iterator_t
       \<Rightarrow> (int \<times> int \<times> router_id_iterator_t \<times> router_id_iterator_t) outcome" where
  "align_loop cons1 cons2 i1 i2 iter1 iter2 =
     (let len1 = int (length cons1); len2 = int (length cons2); c = base64cmp (id_hash iter1) (id_hash iter2)
      in if c = 0 then Done (i1, i2, iter1, iter2)
         else if i1 < len1 \<and> c < 0 then
           and_then (find_next_router_line cons1 i1 iter1) (\<lambda>(i1, iter1).
             if i1 = len1 then Done (i1, len2, iter1, iter2) else align_loop cons1 cons2 i1 i2 iter1 iter2)
         else if i2 < len2 \<and> c > 0 then
           and_then (find_next_router_line cons2 i2 iter2) (\<lambda>(i2, iter2).
             if i2 = len2 then Done (len1, i2, iter1, iter2) else align_loop cons1 cons2 i1 i2 iter1 iter2)
         else Done (len1, len2, iter1, iter2))"
  by pat_completeness auto
termination
  by (relation "measure (\<lambda>(c1, c2, i1, i2, t1, t2). nat (int (length c1) - i1) + nat (int (length c2) - i2))")
    (auto dest!: find_next_router_line_range [OF sym] find_next_router_line_range)

declare align_loop.simps [simp del]

text \<open>One round of the outer loop up to the slices.\<close>

definition next_chunk ::
    "cdline_t list \<Rightarrow> cdline_t list \<Rightarrow> int \<Rightarrow> int \<Rightarrow> router_id_iterator_t \<Rightarrow> router_id_iterator_t
       \<Rightarrow> (int \<times> int \<times> router_id_iterator_t \<times> router_id_iterator_t) outcome" where
  "next_chunk cons1 cons2 i1 i2 iter1 iter2 =
     (let len1 = int (length cons1); len2 = int (length cons2)
      in and_then (if i1 < len1 then find_next_router_line cons1 i1 iter1 else Done (i1, iter1)) (\<lambda>(i1, iter1).
         and_then (if i2 < len2 then find_next_router_line cons2 i2 iter2 else Done (i2, iter2)) (\<lambda>(i2, iter2).
           if i1 < len1 \<or> i2 < len2 then align_loop cons1 cons2 i1 i2 iter1 iter2
           else Done (i1, i2, iter1, iter2))))"

lemma align_loop_range:
  "align_loop cons1 cons2 i1 i2 iter1 iter2 = Done (j1, j2, k1, k2) \<Longrightarrow>
     nat (int (length cons1) - j1) \<le> nat (int (length cons1) - i1) \<and> nat (int (length cons2) - j2) \<le> nat (int (length cons2) - i2) \<and>
     (i1 \<le> int (length cons1) \<and> i2 \<le> int (length cons2) \<longrightarrow>
       i1 \<le> j1 \<and> j1 \<le> int (length cons1) \<and> i2 \<le> j2 \<and> j2 \<le> int (length cons2))"
proof (induction cons1 cons2 i1 i2 iter1 iter2 rule: align_loop.induct)
  case (1 cons1 cons2 i1 i2 iter1 iter2)
  let ?c = "base64cmp (id_hash iter1) (id_hash iter2)"
  consider "?c = 0" | "?c \<noteq> 0" "i1 < int (length cons1) \<and> ?c < 0" | "?c \<noteq> 0" "\<not> (i1 < int (length cons1) \<and> ?c < 0)" "i2 < int (length cons2) \<and> ?c > 0"
    | "?c \<noteq> 0" "\<not> (i1 < int (length cons1) \<and> ?c < 0)" "\<not> (i2 < int (length cons2) \<and> ?c > 0)" by blast
  then show ?case
  proof cases
    case 1
    then show ?thesis using "1.prems" by (simp add: align_loop.simps [of cons1])
  next
    case 2
    then obtain m it where m: "find_next_router_line cons1 i1 iter1 = Done (m, it)"
        "(if m = int (length cons1) then Done (m, int (length cons2), it, iter2) else align_loop cons1 cons2 m i2 it iter2) = Done (j1, j2, k1, k2)"
      using "1.prems"(1) by (auto simp: align_loop.simps [of cons1 cons2 i1] and_then_Done)
    have r: "i1 < m \<and> m \<le> int (length cons1)" using find_next_router_line_range [OF m(1)] by simp
    show ?thesis
    proof (cases "m = int (length cons1)")
      case True
      then show ?thesis using m(2) r by auto
    next
      case False
      then show ?thesis using "1.IH"(1) [OF refl refl refl 2 m(1) refl] m(2) r by auto
    qed
  next
    case 3
    then obtain m it where m: "find_next_router_line cons2 i2 iter2 = Done (m, it)"
        "(if m = int (length cons2) then Done (int (length cons1), m, iter1, it) else align_loop cons1 cons2 i1 m iter1 it) = Done (j1, j2, k1, k2)"
      using "1.prems"(1) by (auto simp: align_loop.simps [of cons1 cons2 i1] and_then_Done)
    have r: "i2 < m \<and> m \<le> int (length cons2)" using find_next_router_line_range [OF m(1)] by simp
    show ?thesis
    proof (cases "m = int (length cons2)")
      case True
      then show ?thesis using m(2) r by auto
    next
      case False
      then show ?thesis using "1.IH"(2) [OF refl refl refl 3 m(1) refl] m(2) r by auto
    qed
  next
    case 4
    then show ?thesis using "1.prems" by (auto simp: align_loop.simps [of cons1 cons2 i1] Let_def)
  qed
qed

lemma next_chunk_parts:
  assumes "next_chunk cons1 cons2 i1 i2 iter1 iter2 = Done (j1, j2, k1, k2)"
  obtains m1 t1 m2 t2 where "i1 < int (length cons1) \<longrightarrow> i1 < m1 \<and> m1 \<le> int (length cons1) \<and> - 1 \<le> i1"
    "\<not> i1 < int (length cons1) \<longrightarrow> m1 = i1"
    "i2 < int (length cons2) \<longrightarrow> i2 < m2 \<and> m2 \<le> int (length cons2) \<and> - 1 \<le> i2" "\<not> i2 < int (length cons2) \<longrightarrow> m2 = i2"
    "(if m1 < int (length cons1) \<or> m2 < int (length cons2) then align_loop cons1 cons2 m1 m2 t1 t2 else Done (m1, m2, t1, t2)) = Done (j1, j2, k1, k2)"
proof -
  obtain m1 t1 m2 t2 where m: "(if i1 < int (length cons1) then find_next_router_line cons1 i1 iter1 else Done (i1, iter1)) = Done (m1, t1)"
      "(if i2 < int (length cons2) then find_next_router_line cons2 i2 iter2 else Done (i2, iter2)) = Done (m2, t2)"
      "(if m1 < int (length cons1) \<or> m2 < int (length cons2) then align_loop cons1 cons2 m1 m2 t1 t2 else Done (m1, m2, t1, t2)) = Done (j1, j2, k1, k2)"
    using assms(1) by (auto simp: next_chunk_def Let_def and_then_Done)
  show ?thesis
    by (rule that [OF _ _ _ _ m(3)])
      (use m(1,2) find_next_router_line_range [of cons1 i1 iter1 m1 t1] find_next_router_line_range [of cons2 i2 iter2 m2 t2]
        in \<open>auto split: if_splits\<close>)
qed

lemma next_chunk_range:
  assumes "next_chunk cons1 cons2 i1 i2 iter1 iter2 = Done (j1, j2, k1, k2)" "i1 \<le> int (length cons1)" "i2 \<le> int (length cons2)"
  shows "i1 \<le> j1 \<and> j1 \<le> int (length cons1) \<and> i2 \<le> j2 \<and> j2 \<le> int (length cons2) \<and> (i1 = - 1 \<longrightarrow> 0 \<le> j1) \<and> (i2 = - 1 \<longrightarrow> 0 \<le> j2)"
proof -
  obtain m1 t1 m2 t2 where m: "i1 < int (length cons1) \<longrightarrow> i1 < m1 \<and> m1 \<le> int (length cons1) \<and> - 1 \<le> i1"
    "\<not> i1 < int (length cons1) \<longrightarrow> m1 = i1"
    "i2 < int (length cons2) \<longrightarrow> i2 < m2 \<and> m2 \<le> int (length cons2) \<and> - 1 \<le> i2" "\<not> i2 < int (length cons2) \<longrightarrow> m2 = i2"
    "(if m1 < int (length cons1) \<or> m2 < int (length cons2) then align_loop cons1 cons2 m1 m2 t1 t2 else Done (m1, m2, t1, t2)) = Done (j1, j2, k1, k2)"
    by (rule next_chunk_parts [OF assms(1)])
  have a: "i1 \<le> m1" "m1 \<le> int (length cons1)" "i2 \<le> m2" "m2 \<le> int (length cons2)"
      "i1 = - 1 \<longrightarrow> 0 \<le> m1" "i2 = - 1 \<longrightarrow> 0 \<le> m2"
    using m(1-4) assms(2,3) by linarith+
  have "m1 \<le> j1 \<and> j1 \<le> int (length cons1) \<and> m2 \<le> j2 \<and> j2 \<le> int (length cons2)"
  proof (cases "m1 < int (length cons1) \<or> m2 < int (length cons2)")
    case True
    then have "align_loop cons1 cons2 m1 m2 t1 t2 = Done (j1, j2, k1, k2)" using m(5) by simp
    from align_loop_range [OF this] a show ?thesis by blast
  next
    case False
    then show ?thesis using m(5) a by simp
  qed
  with a show ?thesis by linarith
qed

lemma next_chunk_progress:
  assumes "next_chunk cons1 cons2 i1 i2 iter1 iter2 = Done (j1, j2, k1, k2)" "i1 < int (length cons1) \<or> i2 < int (length cons2)"
  shows "nat (int (length cons1) - j1) + nat (int (length cons2) - j2) < nat (int (length cons1) - i1) + nat (int (length cons2) - i2)"
proof -
  obtain m1 t1 m2 t2 where m: "i1 < int (length cons1) \<longrightarrow> i1 < m1 \<and> m1 \<le> int (length cons1) \<and> - 1 \<le> i1"
    "\<not> i1 < int (length cons1) \<longrightarrow> m1 = i1"
    "i2 < int (length cons2) \<longrightarrow> i2 < m2 \<and> m2 \<le> int (length cons2) \<and> - 1 \<le> i2" "\<not> i2 < int (length cons2) \<longrightarrow> m2 = i2"
    "(if m1 < int (length cons1) \<or> m2 < int (length cons2) then align_loop cons1 cons2 m1 m2 t1 t2 else Done (m1, m2, t1, t2)) = Done (j1, j2, k1, k2)"
    by (rule next_chunk_parts [OF assms(1)])
  have "nat (int (length cons1) - j1) \<le> nat (int (length cons1) - m1) \<and> nat (int (length cons2) - j2) \<le> nat (int (length cons2) - m2)"
  proof (cases "m1 < int (length cons1) \<or> m2 < int (length cons2)")
    case True
    then have "align_loop cons1 cons2 m1 m2 t1 t2 = Done (j1, j2, k1, k2)" using m(5) by simp
    from align_loop_range [OF this] show ?thesis by blast
  next
    case False
    then show ?thesis using m(5) by simp
  qed
  moreover have "nat (int (length cons1) - m1) + nat (int (length cons2) - m2) < nat (int (length cons1) - i1) + nat (int (length cons2) - i2)"
    using m(1-4) assms(2) by linarith
  ultimately show ?thesis by linarith
qed

definition MAX_LINE_COUNT :: int where "MAX_LINE_COUNT = 10000"

function chunk_loop ::
    "cdline_t list \<Rightarrow> cdline_t list \<Rightarrow> int \<Rightarrow> int \<Rightarrow> int \<Rightarrow> int \<Rightarrow> router_id_iterator_t \<Rightarrow> router_id_iterator_t
       \<Rightarrow> bool list \<Rightarrow> bool list \<Rightarrow> (bool list \<times> bool list) outcome" where
  "chunk_loop cons1 cons2 i1 i2 start1 start2 iter1 iter2 changed1 changed2 =
     (if i1 < int (length cons1) \<or> i2 < int (length cons2) then
        and_then (next_chunk cons1 cons2 i1 i2 iter1 iter2) (\<lambda>(i1, i2, iter1, iter2).
          if i1 - start1 > MAX_LINE_COUNT \<or> i2 - start2 > MAX_LINE_COUNT then Minus_1
          else and_then (smartlist_slice cons1 start1 i1) (\<lambda>cons1_sl.
               and_then (smartlist_slice cons2 start2 i2) (\<lambda>cons2_sl.
               and_then (calc_changes cons1_sl cons2_sl changed1 changed2) (\<lambda>(changed1, changed2).
                 chunk_loop cons1 cons2 i1 i2 i1 i2 iter1 iter2 changed1 changed2))))
      else Done (changed1, changed2))"
  by pat_completeness auto
termination
  by (relation "measure (\<lambda>(c1, c2, i1, i2, s1, s2, t1, t2, b1, b2). nat (int (length c1) - i1) + nat (int (length c2) - i2))")
    (use next_chunk_progress in \<open>auto dest: sym\<close>)

declare chunk_loop.simps [simp del]

text \<open>The start of a run of changed lines that ends at \<open>i\<close>, less one.\<close>

function run_start :: "bool list \<Rightarrow> int \<Rightarrow> int" where
  "run_start changed i = (if i \<ge> 0 \<and> changed ! nat i then run_start changed (i - 1) else i)"
  by pat_completeness auto
termination by (relation "measure (\<lambda>(c, i). nat (i + 1))") auto

declare run_start.simps [simp del]

lemma run_start_le: "run_start changed i \<le> i"
proof (induction changed i rule: run_start.induct)
  case (1 changed i)
  then show ?case by (subst run_start.simps) auto
qed

lemma run_start_less: "i \<ge> 0 \<and> changed ! nat i \<Longrightarrow> run_start changed i < i"
  using run_start_le [of changed "i - 1"] by (subst run_start.simps) simp

definition ed_command_line :: "int \<Rightarrow> int \<Rightarrow> int \<Rightarrow> string" where
  "ed_command_line start1x added deleted =
     (if added = 0 then
        (if deleted = 1 then print_int (start1x + 1) @ ''d''
         else print_int (start1x + 1) @ '','' @ print_int (start1x + deleted) @ ''d'')
      else if deleted = 0 then print_int start1x @ ''a''
      else if deleted = 1 then print_int (start1x + 1) @ ''c''
      else print_int (start1x + 1) @ '','' @ print_int (start1x + deleted) @ ''c'')"

function script_loop ::
    "cdline_t list \<Rightarrow> bool list \<Rightarrow> bool list \<Rightarrow> int \<Rightarrow> int \<Rightarrow> cdline_t list \<Rightarrow> cdline_t list outcome" where
  "script_loop cons2 changed1 changed2 i1 i2 result =
     (if i1 \<ge> 0 \<or> i2 \<ge> 0 then
        (if \<not> (i1 \<ge> 0 \<and> changed1 ! nat i1) \<and> \<not> (i2 \<ge> 0 \<and> changed2 ! nat i2)
         then script_loop cons2 changed1 changed2 (if i1 \<ge> 0 then i1 - 1 else i1) (if i2 \<ge> 0 then i2 - 1 else i2) result
         else
           (let end1 = i1; end2 = i2;
                i1 = run_start changed1 i1; i2 = run_start changed2 i2;
                start1x = i1 + 1; start2x = i2 + 1; added = end2 - i2; deleted = end1 - i1;
                result = result @ [ed_command_line start1x added deleted]
            in if added = 0 then script_loop cons2 changed1 changed2 i1 i2 result
               else let new_lines = map ((!) cons2) [nat start2x..<nat (end2 + 1)]
                    in if list_ex (\<lambda>line. line_str_eq line ''.'') new_lines then Minus_1
                       else script_loop cons2 changed1 changed2 i1 i2 (result @ new_lines @ [''.''])))
      else Done result)"
  by pat_completeness auto
termination
proof (relation "measure (\<lambda>(c, b1, b2, i1, i2, r). nat (i1 + 1) + nat (i2 + 1))", goal_cases)
  case (3 cons2 changed1 changed2 i1 i2 result)
  then show ?case
    using run_start_le [of changed1 i1] run_start_le [of changed2 i2] run_start_less [of i1 changed1] run_start_less [of i2 changed2]
    by auto
next
  case (4 cons2 changed1 changed2 i1 i2 result)
  then show ?case
    using run_start_le [of changed1 i1] run_start_le [of changed2 i2] run_start_less [of i1 changed1] run_start_less [of i2 changed2]
    by auto
qed auto

declare script_loop.simps [simp del]

definition gen_ed_diff :: "cdline_t list \<Rightarrow> cdline_t list \<Rightarrow> cdline_t list outcome" where
  "gen_ed_diff cons1_orig cons2 =
     (let (cons1, remove_trailer) = preprocess_consensus cons1_orig;
          len1 = length cons1; len2 = length cons2;
          result = (case remove_trailer of None \<Rightarrow> [] | Some line \<Rightarrow> [line])
      in and_then (chunk_loop cons1 cons2 (- 1) (- 1) 0 0 ROUTER_ID_ITERATOR_INIT ROUTER_ID_ITERATOR_INIT
                     (replicate len1 False) (replicate len2 False)) (\<lambda>(changed1, changed2).
           script_loop cons2 changed1 changed2 (int len1 - 1) (int len2 - 1) result))"

section \<open>Applying a script\<close>

definition get_linenum :: "string \<Rightarrow> (int \<times> string) option" where
  "get_linenum s =
     (if s = [] \<or> \<not> TOR_ISDIGIT (hd s) then None
      else case tor_parse_long s 10 0 2147483647 True of
             Some (v, True, Some next) \<Rightarrow> Some (v, next)
           | _ \<Rightarrow> None)"

text \<open>One command line: its first and last line numbers and its letter.  \<open>len1\<close> is the length of the base and
  \<open>j\<close> the number of its lines that are not yet handled.\<close>

definition read_command :: "nat \<Rightarrow> int \<Rightarrow> cdline_t \<Rightarrow> (int \<times> int \<times> char) option" where
  "read_command len1 j diff_cdline =
     (if length diff_cdline > 128 - 1 then None
      else case get_linenum (takeWhile (\<lambda>c. c \<noteq> NUL) diff_cdline) of
             None \<Rightarrow> None
           | Some (start, ptr) \<Rightarrow>
               (let had_range = (ptr \<noteq> [] \<and> hd ptr = CHR '',''); end_was_eof = (had_range \<and> tl ptr \<noteq> [] \<and> hd (tl ptr) = CHR ''$'')
                in case (if had_range then
                           (if end_was_eof then Some (int len1, tl (tl ptr)) else get_linenum (tl ptr))
                         else Some (start, ptr)) of
                     None \<Rightarrow> None
                   | Some (e, ptr) \<Rightarrow>
                       if had_range \<and> e \<le> start then None
                       else if e > j then None
                       else if ptr = [] then None
                       else if tl ptr \<noteq> [] then None
                       else let action = hd ptr
                            in if action \<notin> {CHR ''a'', CHR ''c'', CHR ''d''} then None
                               else if end_was_eof \<and> action \<noteq> CHR ''d'' then None
                               else if had_range \<and> action = CHR ''a'' then None
                               else Some (start, e, action)))"

function copy_down :: "cdline_t list \<Rightarrow> int \<Rightarrow> int \<Rightarrow> cdline_t list \<Rightarrow> int \<times> cdline_t list" where
  "copy_down cons1 j e cons2 =
     (if j \<noteq> 0 \<and> j > e then copy_down cons1 (j - 1) e (cons2 @ [cons1 ! nat (j - 1)]) else (j, cons2))"
  by pat_completeness auto
termination by (relation "measure (\<lambda>(c, j, e, d). nat (j - e))") auto

declare copy_down.simps [simp del]

function skip_lines :: "int \<Rightarrow> int \<Rightarrow> int" where
  "skip_lines start j = (let j = j - 1 in if j \<ge> start then skip_lines start j else j)"
  by pat_completeness auto
termination by (relation "measure (\<lambda>(start, j). nat (j - start))") auto

declare skip_lines.simps [simp del]

function apply_loop :: "cdline_t list \<Rightarrow> cdline_t list \<Rightarrow> int \<Rightarrow> cdline_t list \<Rightarrow> (int \<times> cdline_t list) outcome" where
  "apply_loop cons1 [] j cons2 = Done (j, cons2)"
| "apply_loop cons1 (line # diff) j cons2 =
     (case read_command (length cons1) j line of
        None \<Rightarrow> Minus_1
      | Some (start, e, action) \<Rightarrow>
          (let (j, cons2) = copy_down cons1 j e cons2;
               j = (if action = CHR ''c'' \<or> action = CHR ''d'' then skip_lines start j else j)
           in if action = CHR ''a'' \<or> action = CHR ''c'' then
                (let added = takeWhile (\<lambda>l. \<not> line_str_eq l ''.'') diff;
                     rest = dropWhile (\<lambda>l. \<not> line_str_eq l ''.'') diff
                 in if rest = [] then Minus_1
                    else if added = [] then Minus_1
                    else apply_loop cons1 (tl rest) j (cons2 @ rev added))
              else apply_loop cons1 diff j cons2))"
  by pat_completeness auto
termination
proof (relation "measure (\<lambda>(c, d, j, e). length d)", goal_cases)
  case (2 cons1 line diff j cons2)
  then show ?case using length_dropWhile_le [of "\<lambda>l. \<not> line_str_eq l ''.''" diff] by (auto simp: less_Suc_eq_le)
qed auto

definition apply_ed_diff :: "cdline_t list \<Rightarrow> cdline_t list \<Rightarrow> nat \<Rightarrow> cdline_t list outcome" where
  "apply_ed_diff cons1 diff diff_starting_line =
     and_then (apply_loop cons1 (drop diff_starting_line diff) (int (length cons1)) []) (\<lambda>(j, cons2).
       Done (smartlist_reverse (snd (copy_down cons1 j 0 cons2))))"

section \<open>The walk over the documents\<close>

lemma del_rest_take [simp]: "i \<le> length cons \<Longrightarrow> del_rest cons i = take i cons"
proof (induction cons i rule: del_rest.induct)
  case (1 cons i)
  show ?case
  proof (cases "length cons > i")
    case True
    then have "del_rest cons i = take i (butlast (cons[i := last cons]))"
      using 1 by (subst del_rest.simps) simp
    also have "\<dots> = take i cons" using True by (simp add: take_butlast)
    finally show ?thesis .
  next
    case False
    then show ?thesis using 1 by (subst del_rest.simps) simp
  qed
qed

lemma signature_index_range: "signature_index cons k = Some n \<Longrightarrow> k \<le> n \<and> n < k + length cons"
  by (induction cons k rule: signature_index.induct) (auto split: if_splits)

lemma preprocess_consensus_eq:
  "preprocess_consensus cons = (case signature_index cons 0 of
     None \<Rightarrow> (cons, None) | Some k \<Rightarrow> (take k cons, Some (print_int (int k + 1) @ '',$d'')))"
  by (auto simp: preprocess_consensus_def dest: signature_index_range split: option.splits)

lemma find_next_router_line_safe:
  "- 1 \<le> idx \<Longrightarrow> idx < int (length cons) \<Longrightarrow> find_next_router_line cons idx iter \<noteq> Assertion_failed"
  by (auto simp: find_next_router_line_def next_router_def Let_def split: option.splits)

lemma and_then_safe:
  "r \<noteq> Assertion_failed \<Longrightarrow> (\<And>x. r = Done x \<Longrightarrow> f x \<noteq> Assertion_failed) \<Longrightarrow> and_then r f \<noteq> Assertion_failed"
  by (cases r) simp_all

lemma align_loop_safe:
  "- 1 \<le> i1 \<Longrightarrow> - 1 \<le> i2 \<Longrightarrow> align_loop cons1 cons2 i1 i2 iter1 iter2 \<noteq> Assertion_failed"
proof (induction cons1 cons2 i1 i2 iter1 iter2 rule: align_loop.induct)
  case (1 cons1 cons2 i1 i2 iter1 iter2)
  let ?c = "base64cmp (id_hash iter1) (id_hash iter2)"
  consider "?c = 0" | "?c \<noteq> 0" "i1 < int (length cons1) \<and> ?c < 0" | "?c \<noteq> 0" "\<not> (i1 < int (length cons1) \<and> ?c < 0)" "i2 < int (length cons2) \<and> ?c > 0"
    | "?c \<noteq> 0" "\<not> (i1 < int (length cons1) \<and> ?c < 0)" "\<not> (i2 < int (length cons2) \<and> ?c > 0)" by blast
  then show ?case
  proof cases
    case 2
    have "and_then (find_next_router_line cons1 i1 iter1) (\<lambda>(i1, iter1).
        if i1 = int (length cons1) then Done (i1, int (length cons2), iter1, iter2)
        else align_loop cons1 cons2 i1 i2 iter1 iter2) \<noteq> Assertion_failed"
    proof (rule and_then_safe)
      show "find_next_router_line cons1 i1 iter1 \<noteq> Assertion_failed"
        using find_next_router_line_safe "1.prems" 2 by blast
      fix x assume x: "find_next_router_line cons1 i1 iter1 = Done x"
      obtain m it where mit: "x = (m, it)" by (cases x)
      have "i1 < m" using find_next_router_line_range x mit by blast
      then show "(case x of (i1, iter1) \<Rightarrow> if i1 = int (length cons1) then Done (i1, int (length cons2), iter1, iter2)
        else align_loop cons1 cons2 i1 i2 iter1 iter2) \<noteq> Assertion_failed"
        using "1.IH"(1) [OF refl refl refl 2 x mit [symmetric]] "1.prems" mit by auto
    qed
    then show ?thesis using 2 by (subst align_loop.simps) (simp add: Let_def)
  next
    case 3
    have "and_then (find_next_router_line cons2 i2 iter2) (\<lambda>(i2, iter2).
        if i2 = int (length cons2) then Done (int (length cons1), i2, iter1, iter2)
        else align_loop cons1 cons2 i1 i2 iter1 iter2) \<noteq> Assertion_failed"
    proof (rule and_then_safe)
      show "find_next_router_line cons2 i2 iter2 \<noteq> Assertion_failed"
        using find_next_router_line_safe "1.prems" 3 by blast
      fix x assume x: "find_next_router_line cons2 i2 iter2 = Done x"
      obtain m it where mit: "x = (m, it)" by (cases x)
      have "i2 < m" using find_next_router_line_range x mit by blast
      then show "(case x of (i2, iter2) \<Rightarrow> if i2 = int (length cons2) then Done (int (length cons1), i2, iter1, iter2)
        else align_loop cons1 cons2 i1 i2 iter1 iter2) \<noteq> Assertion_failed"
        using "1.IH"(2) [OF refl refl refl 3 x mit [symmetric]] "1.prems" mit by auto
    qed
    then show ?thesis using 3 by (subst align_loop.simps) (auto simp: Let_def)
  next
    case 1
    then show ?thesis by (subst align_loop.simps) (simp add: Let_def)
  next
    case 4
    then show ?thesis by (subst align_loop.simps) (auto simp: Let_def)
  qed
qed

lemma next_chunk_safe:
  assumes "- 1 \<le> i1" "- 1 \<le> i2"
  shows "next_chunk cons1 cons2 i1 i2 iter1 iter2 \<noteq> Assertion_failed"
  unfolding next_chunk_def Let_def
proof (intro and_then_safe)
  show "(if i1 < int (length cons1) then find_next_router_line cons1 i1 iter1 else Done (i1, iter1)) \<noteq> Assertion_failed"
    using find_next_router_line_safe assms by simp
  fix x assume x: "(if i1 < int (length cons1) then find_next_router_line cons1 i1 iter1 else Done (i1, iter1)) = Done x"
  obtain m1 t1 where mit: "x = (m1, t1)" by (cases x)
  have m1: "- 1 \<le> m1" using x mit assms(1) find_next_router_line_range [of cons1 i1 iter1 m1 t1] by (auto split: if_splits)
  have "and_then (if i2 < int (length cons2) then find_next_router_line cons2 i2 iter2 else Done (i2, iter2)) (\<lambda>(i2, iter2).
      if m1 < int (length cons1) \<or> i2 < int (length cons2) then align_loop cons1 cons2 m1 i2 t1 iter2
      else Done (m1, i2, t1, iter2)) \<noteq> Assertion_failed"
  proof (rule and_then_safe)
    show "(if i2 < int (length cons2) then find_next_router_line cons2 i2 iter2 else Done (i2, iter2)) \<noteq> Assertion_failed"
      using find_next_router_line_safe assms by simp
    fix y assume y: "(if i2 < int (length cons2) then find_next_router_line cons2 i2 iter2 else Done (i2, iter2)) = Done y"
    obtain m2 t2 where mit2: "y = (m2, t2)" by (cases y)
    have "- 1 \<le> m2" using y mit2 assms(2) find_next_router_line_range [of cons2 i2 iter2 m2 t2] by (auto split: if_splits)
    then show "(case y of (i2, iter2) \<Rightarrow> if m1 < int (length cons1) \<or> i2 < int (length cons2)
        then align_loop cons1 cons2 m1 i2 t1 iter2 else Done (m1, i2, t1, iter2)) \<noteq> Assertion_failed"
      using align_loop_safe [OF m1] mit2 by simp
  qed
  then show "(case x of (i1, iter1) \<Rightarrow> and_then (if i2 < int (length cons2) then find_next_router_line cons2 i2 iter2 else Done (i2, iter2)) (\<lambda>(i2, iter2).
      if i1 < int (length cons1) \<or> i2 < int (length cons2) then align_loop cons1 cons2 i1 i2 iter1 iter2
      else Done (i1, i2, iter1, iter2))) \<noteq> Assertion_failed"
    using mit by simp
qed


text \<open>Where a round begins: at the start of the documents or at the ends of the last chunks.\<close>

definition at_chunk :: "'a list \<Rightarrow> int \<Rightarrow> int \<Rightarrow> bool" where
  "at_chunk cons i start \<longleftrightarrow> 0 \<le> start \<and> i \<le> int (length cons) \<and> (i = start \<or> i = - 1 \<and> start = 0)"

lemma marks_extend:
  assumes "marks \<lparr>slice_list = cons1, slice_offset = a1, slice_len = b1 - a1\<rparr> \<lparr>slice_list = cons2, slice_offset = a2, slice_len = b2 - a2\<rparr> m1 m2"
    "kept (take a1 cons1) p1 = kept (take a2 cons2) p2" "length p1 = a1" "length p2 = a2"
    "a1 \<le> b1" "b1 \<le> length cons1" "a2 \<le> b2" "b2 \<le> length cons2"
  shows "kept (take b1 cons1) (p1 @ m1) = kept (take b2 cons2) (p2 @ m2)"
proof -
  have t: "take b xs = take a xs @ take (b - a) (drop a xs)" if "a \<le> b" for a b and xs :: "cdline_t list"
    using that by (metis le_add_diff_inverse take_add)
  show ?thesis
    using assms unfolding t [OF assms(5)] t [OF assms(7)]
    by (subst (1 2) kept_append) (auto simp: marks_def lines_of_def)
qed

lemma chunk_loop_ok:
  assumes "at_chunk cons1 i1 start1" "at_chunk cons2 i2 start2" "length p1 = nat start1" "length p2 = nat start2"
    "kept (take (nat start1) cons1) p1 = kept (take (nat start2) cons2) p2"
    "changed1 = p1 @ replicate (length cons1 - nat start1) False" "changed2 = p2 @ replicate (length cons2 - nat start2) False"
  shows "chunk_loop cons1 cons2 i1 i2 start1 start2 iter1 iter2 changed1 changed2 \<noteq> Assertion_failed \<and>
    (\<forall>c1 c2. chunk_loop cons1 cons2 i1 i2 start1 start2 iter1 iter2 changed1 changed2 = Done (c1, c2) \<longrightarrow>
       length c1 = length cons1 \<and> length c2 = length cons2 \<and> kept cons1 c1 = kept cons2 c2)"
  using assms
proof (induction cons1 cons2 i1 i2 start1 start2 iter1 iter2 changed1 changed2 arbitrary: p1 p2 rule: chunk_loop.induct)
  case (1 cons1 cons2 i1 i2 start1 start2 iter1 iter2 changed1 changed2)
  show ?case
  proof (cases "i1 < int (length cons1) \<or> i2 < int (length cons2)")
    case False
    then show ?thesis using "1.prems" by (subst (1 2) chunk_loop.simps) (auto simp: at_chunk_def)
  next
    case some: True
    have i: "- 1 \<le> i1" "- 1 \<le> i2" using "1.prems" by (auto simp: at_chunk_def)
    show ?thesis
    proof (cases "next_chunk cons1 cons2 i1 i2 iter1 iter2")
      case Assertion_failed
      then show ?thesis using next_chunk_safe [OF i] by simp
    next
      case Minus_1
      then show ?thesis using some by (subst (1 2) chunk_loop.simps) simp
    next
      case (Done x)
      obtain j1 j2 t1 t2 where x: "x = (j1, j2, t1, t2)" by (cases x) auto
      note nc = Done [unfolded x]
      have r: "start1 \<le> j1" "j1 \<le> int (length cons1)" "start2 \<le> j2" "j2 \<le> int (length cons2)"
        using next_chunk_range [OF nc] "1.prems"(1,2) by (auto simp: at_chunk_def)
      obtain a1 a2 b1 b2 where ab: "start1 = int a1" "start2 = int a2" "j1 = int b1" "j2 = int b2"
        using r "1.prems"(1,2) unfolding at_chunk_def by (metis order_trans nonneg_int_cases)
      have ab_le: "a1 \<le> b1" "b1 \<le> length cons1" "a2 \<le> b2" "b2 \<le> length cons2" using r ab by auto
      show ?thesis
      proof (cases "j1 - start1 > MAX_LINE_COUNT \<or> j2 - start2 > MAX_LINE_COUNT")
        case True
        then show ?thesis using nc some by (subst (1 2) chunk_loop.simps) simp
      next
        case ok: False
        let ?s1 = "\<lparr>slice_list = cons1, slice_offset = a1, slice_len = b1 - a1\<rparr>"
        let ?s2 = "\<lparr>slice_list = cons2, slice_offset = a2, slice_len = b2 - a2\<rparr>"
        have ch: "changed1 = p1 @ replicate (slice_len ?s1) False @ replicate (length cons1 - b1) False"
            "changed2 = p2 @ replicate (slice_len ?s2) False @ replicate (length cons2 - b2) False"
          using "1.prems"(6,7) ab ab_le by (simp_all add: replicate_add [symmetric])
        obtain m1 m2 where m: "calc_changes ?s1 ?s2 changed1 changed2 =
            Done (p1 @ m1 @ replicate (length cons1 - b1) False, p2 @ m2 @ replicate (length cons2 - b2) False)" "marks ?s1 ?s2 m1 m2"
          using calc_changes_ok [of ?s1 ?s2 p1 p2 "replicate (length cons1 - b1) False" "replicate (length cons2 - b2) False"]
            "1.prems"(3,4) ab ab_le unfolding ch by (auto simp: slice_ok_def)
        note sl = smartlist_slice_ok [OF ab_le(1,2)] smartlist_slice_ok [OF ab_le(3,4)]
        have step: "chunk_loop cons1 cons2 i1 i2 start1 start2 iter1 iter2 changed1 changed2 =
            chunk_loop cons1 cons2 j1 j2 j1 j2 t1 t2 (p1 @ m1 @ replicate (length cons1 - b1) False) (p2 @ m2 @ replicate (length cons2 - b2) False)"
          using some nc ok m(1) by (subst chunk_loop.simps) (simp add: ab sl)
        have lm: "length m1 = b1 - a1" "length m2 = b2 - a2" using m(2) by (auto simp: marks_def)
        have k: "kept (take b1 cons1) (p1 @ m1) = kept (take b2 cons2) (p2 @ m2)"
          using marks_extend [OF m(2)] "1.prems"(3-5) ab ab_le by simp
        show ?thesis
          unfolding step
          by (rule "1.IH" [OF some nc refl refl refl ok sl [folded ab] m(1) refl, where ?p1.0 = "p1 @ m1" and ?p2.0 = "p2 @ m2"])
            (use lm k ab ab_le "1.prems"(3,4) in \<open>auto simp: at_chunk_def\<close>)
      qed
    qed
  qed
qed

section \<open>Reading the commands that are generated\<close>

lemma digit_char_facts:
  assumes "c \<in> set (dec_digits n)"
  shows "TOR_ISDIGIT c" "c \<noteq> NUL" "c \<noteq> CHR '',''"
proof -
  obtain d :: nat where d: "d < 10" "c = char_of (48 + d)" using dec_digits_digits [OF assms] by blast
  then have c: "(of_char c :: nat) = 48 + d" by simp
  then show "TOR_ISDIGIT c" using d by (simp add: TOR_ISDIGIT_iff)
  show "c \<noteq> NUL" "c \<noteq> CHR '',''" using c d(1) by auto
qed

lemma length_dec_digits: "n < 10 ^ Suc k \<Longrightarrow> length (dec_digits n) \<le> Suc k"
proof (induction k arbitrary: n)
  case 0
  then show ?case by (simp add: dec_digits.simps [of n])
next
  case (Suc k)
  show ?case
  proof (cases "n < 10")
    case False
    have "n div 10 < 10 ^ Suc k" using Suc.prems by (simp add: less_mult_imp_div_less)
    then show ?thesis using Suc.IH [of "n div 10"] False by (simp add: dec_digits.simps [of n])
  qed (simp add: dec_digits.simps [of n])
qed

lemma length_print_int: "0 \<le> v \<Longrightarrow> v \<le> INT32_MAX \<Longrightarrow> length (print_int v) \<le> 10"
  using length_dec_digits [of "nat v" 9] by (simp add: print_int_def)

lemma print_int_chars: "0 \<le> v \<Longrightarrow> c \<in> set (print_int v) \<Longrightarrow> TOR_ISDIGIT c \<and> c \<noteq> NUL \<and> c \<noteq> CHR '',''"
  using digit_char_facts [of c "nat v"] by (simp add: print_int_def)

lemma print_int_not_Nil [simp]: "print_int v \<noteq> []"
  by (simp add: print_int_def)

lemma get_linenum_print_int:
  assumes "no_digit_first rest" "0 \<le> v" "v \<le> INT32_MAX"
  shows "get_linenum (print_int v @ rest) = Some (v, rest)"
proof -
  have "TOR_ISDIGIT (hd (print_int v))" using print_int_chars [OF assms(2)] by simp
  moreover have "tor_parse_long (print_int v @ rest) 10 0 INT32_MAX True = Some (v, True, Some rest)"
    using strtol_print_int [OF assms(1), of v] assms(2,3)
    by (simp add: tor_parse_long_def base_defined_def CHECK_STRTOX_RESULT_def Let_def)
  ultimately show ?thesis by (simp add: get_linenum_def)
qed

lemma takeWhile_print_int:
  assumes "0 \<le> v"
  shows "takeWhile (\<lambda>c. c \<noteq> NUL) (print_int v @ rest) = print_int v @ takeWhile (\<lambda>c. c \<noteq> NUL) rest"
  using print_int_chars [OF assms] by (auto simp: takeWhile_append)

lemma no_digit_first_simps [simp]:
  "no_digit_first (CHR '','' # s)" "no_digit_first (CHR ''a'' # s)" "no_digit_first (CHR ''c'' # s)" "no_digit_first (CHR ''d'' # s)"
  "no_digit_first []"
  by (simp_all add: no_digit_first_def is_digit_of_def digit_val_def)

lemma read_command_single:
  assumes "0 \<le> v" "v \<le> INT32_MAX" "v \<le> j" "action \<in> {CHR ''a'', CHR ''c'', CHR ''d''}"
  shows "read_command len1 j (print_int v @ [action]) = Some (v, v, action)"
proof -
  have "no_digit_first [action]" "action \<noteq> NUL" "action \<noteq> CHR '',''" using assms(4) by auto
  then show ?thesis
    using assms length_print_int [OF assms(1,2)]
    by (simp add: read_command_def takeWhile_print_int get_linenum_print_int)
qed

lemma read_command_range:
  assumes "0 \<le> v" "v < e" "e \<le> INT32_MAX" "e \<le> j" "action \<in> {CHR ''c'', CHR ''d''}"
  shows "read_command len1 j (print_int v @ '','' @ print_int e @ [action]) = Some (v, e, action)"
proof -
  have "no_digit_first [action]" "action \<noteq> NUL" using assms(5) by auto
  moreover have "hd (print_int e @ [action]) \<noteq> CHR ''$''"
    using print_int_chars [of e "hd (print_int e)"] assms(1,2) by (auto simp: TOR_ISDIGIT_iff)
  ultimately show ?thesis
    using assms length_print_int [of v] length_print_int [of e]
    by (auto simp add: read_command_def takeWhile_print_int get_linenum_print_int)
qed

lemma read_command_trailer:
  assumes "0 \<le> v" "v \<le> INT32_MAX" "int len1 \<le> j"
  shows "read_command len1 j (print_int v @ '',$d'') = (if int len1 \<le> v then None else Some (v, int len1, CHR ''d''))"
  using assms length_print_int [OF assms(1,2)]
  by (simp add: read_command_def takeWhile_print_int get_linenum_print_int)

text \<open>The command for a run of deleted lines that ends at \<open>a\<close> and of added lines.\<close>

lemma ed_command_read:
  assumes "a' \<le> a" "a \<le> j" "int a \<le> INT32_MAX" "a' < a \<or> 0 < added"
  obtains start action where
    "read_command len1 (int j) (ed_command_line (int a') (int added) (int (a - a'))) = Some (start, int a, action)"
    "action = CHR ''c'' \<or> action = CHR ''d'' \<longleftrightarrow> a' < a" "action = CHR ''a'' \<or> action = CHR ''c'' \<longleftrightarrow> 0 < added"
    "a' < a \<Longrightarrow> start = int a' + 1"
proof -
  have sum: "int a' + int (a - a') = int a" using assms(1) by simp
  have one: "int a' + 1 = int a" if "a - a' = 1" using that by simp
  have many: "int a' + 1 < int a" if "a' < a" "a - a' \<noteq> 1" using that by simp
  consider "added = 0" "a - a' = 1" | "added = 0" "a' < a" "a - a' \<noteq> 1" | "0 < added" "a' = a" | "0 < added" "a - a' = 1"
    | "0 < added" "a' < a" "a - a' \<noteq> 1" using assms(1,4) by linarith
  then show ?thesis
  proof cases
    case 1
    show ?thesis
      by (rule that [of "int a" "CHR ''d''"])
        (use 1 one assms read_command_single [of "int a" "int j" "CHR ''d''" len1] in \<open>auto simp: ed_command_line_def\<close>)
  next
    case 2
    show ?thesis
      by (rule that [of "int a' + 1" "CHR ''d''"])
        (use 2 many sum assms read_command_range [of "int a' + 1" "int a" "int j" "CHR ''d''" len1] in \<open>auto simp: ed_command_line_def\<close>)
  next
    case 3
    show ?thesis
      by (rule that [of "int a" "CHR ''a''"])
        (use 3 assms read_command_single [of "int a" "int j" "CHR ''a''" len1] in \<open>auto simp: ed_command_line_def\<close>)
  next
    case 4
    show ?thesis
      by (rule that [of "int a" "CHR ''c''"])
        (use 4 one assms read_command_single [of "int a" "int j" "CHR ''c''" len1] in \<open>auto simp: ed_command_line_def\<close>)
  next
    case 5
    show ?thesis
      by (rule that [of "int a' + 1" "CHR ''c''"])
        (use 5 many sum assms read_command_range [of "int a' + 1" "int a" "int j" "CHR ''c''" len1] in \<open>auto simp: ed_command_line_def\<close>)
  qed
qed

lemma copy_down_eq:
  "e \<le> j \<Longrightarrow> j \<le> length cons1 \<Longrightarrow> copy_down cons1 (int j) (int e) cons2 = (int e, cons2 @ rev (drop e (take j cons1)))"
proof (induction j arbitrary: cons2)
  case 0
  then show ?case by (simp add: copy_down.simps)
next
  case (Suc j)
  show ?case
  proof (cases "e = Suc j")
    case False
    then have "copy_down cons1 (int (Suc j)) (int e) cons2 = copy_down cons1 (int j) (int e) (cons2 @ [cons1 ! j])"
      using Suc.prems by (subst copy_down.simps) (simp add: nat_int_add)
    also have "\<dots> = (int e, (cons2 @ [cons1 ! j]) @ rev (drop e (take j cons1)))"
      using Suc.prems False by (intro Suc.IH) simp_all
    also have "rev (drop e (take (Suc j) cons1)) = (cons1 ! j) # rev (drop e (take j cons1))"
      using Suc.prems False by (simp add: take_Suc_conv_app_nth)
    ultimately show ?thesis by simp
  qed (subst copy_down.simps, simp)
qed

lemma skip_lines_eq: "start \<le> j \<Longrightarrow> skip_lines start j = start - 1"
proof (induction start j rule: skip_lines.induct)
  case (1 start j)
  show ?case
  proof (cases "start \<le> j - 1")
    case True
    then show ?thesis using "1.IH" [OF refl True] by (subst skip_lines.simps) simp
  next
    case False
    then show ?thesis using "1.prems" by (subst skip_lines.simps) simp
  qed
qed

text \<open>One command of the script, with its added lines.\<close>

lemma apply_command:
  assumes "a' \<le> a" "a \<le> j" "j \<le> length orig" "int (length orig) \<le> INT32_MAX" "a' < a \<or> added \<noteq> []" "''.'' \<notin> set added"
  shows "apply_loop orig (ed_command_line (int a') (int (length added)) (int (a - a')) # (if added = [] then S else added @ ''.'' # S))
      (int j) out = apply_loop orig S (int a') (out @ rev (drop a (take j orig)) @ rev added)"
proof -
  obtain start action where r: "read_command (length orig) (int j) (ed_command_line (int a') (int (length added)) (int (a - a'))) =
        Some (start, int a, action)"
      "action = CHR ''c'' \<or> action = CHR ''d'' \<longleftrightarrow> a' < a" "action = CHR ''a'' \<or> action = CHR ''c'' \<longleftrightarrow> 0 < length added"
      "a' < a \<Longrightarrow> start = int a' + 1"
    using assms by (elim ed_command_read [of a' a j "length added" "length orig"]) auto
  have sk: "(if action = CHR ''c'' \<or> action = CHR ''d'' then skip_lines start (int a) else int a) = int a'"
    using r(2,4) assms(1) skip_lines_eq [of start "int a"] by auto
  have cd: "copy_down orig (int j) (int a) out = (int a, out @ rev (drop a (take j orig)))"
    by (rule copy_down_eq [OF assms(2,3)])
  have neq: "\<forall>l\<in>set added. \<not> line_str_eq l ''.''" using assms(6) by auto
  show ?thesis
  proof (cases "added = []")
    case True
    have r0: "read_command (length orig) (int j) (ed_command_line (int a') 0 (int (a - a'))) = Some (start, int a, action)"
      using r(1) True by simp
    have "(if action = CHR ''d'' then skip_lines start (int a) else int a) = int a'" using sk r(3) True by simp
    then show ?thesis using True r(3) by (simp add: r0 cd)
  next
    case False
    have "takeWhile (\<lambda>l. \<not> line_str_eq l ''.'') (added @ ''.'' # S) = added"
      "dropWhile (\<lambda>l. \<not> line_str_eq l ''.'') (added @ ''.'' # S) = ''.'' # S"
      using neq by (simp_all add: takeWhile_append dropWhile_append)
    then show ?thesis using False r(3) by (simp add: r(1) cd sk del: line_str_eq_iff)
  qed
qed

section \<open>The script and its application\<close>

lemma run_start_run:
  obtains a' where "a' \<le> a" "run_start changed (int a - 1) = int a' - 1" "\<forall>k. a' \<le> k \<and> k < a \<longrightarrow> changed ! k"
    "0 < a \<and> changed ! (a - 1) \<longleftrightarrow> a' < a"
proof (induction a arbitrary: thesis)
  case 0
  then show ?case by (simp add: run_start.simps)
next
  case (Suc a)
  show ?case
  proof (cases "changed ! a")
    case True
    obtain a' where a': "a' \<le> a" "run_start changed (int a - 1) = int a' - 1" "\<forall>k. a' \<le> k \<and> k < a \<longrightarrow> changed ! k"
      by (rule Suc.IH)
    have "run_start changed (int (Suc a) - 1) = int a' - 1" using a'(2) True by (subst run_start.simps) simp
    then show ?thesis using a' True by (intro Suc.prems [of a']) (auto simp: less_Suc_eq)
  next
    case False
    then have "run_start changed (int (Suc a) - 1) = int (Suc a) - 1" by (subst run_start.simps) simp
    then show ?thesis using False by (intro Suc.prems [of "Suc a"]) auto
  qed
qed

lemma kept_run:
  assumes "a' \<le> a" "a \<le> length xs" "length m = length xs" "\<forall>k. a' \<le> k \<and> k < a \<longrightarrow> m ! k"
  shows "kept (take a xs) (take a m) = kept (take a' xs) (take a' m)"
proof -
  have t: "take a ys = take a' ys @ take (a - a') (drop a' ys)" for ys :: "'b list"
    using assms(1) by (metis le_add_diff_inverse take_add)
  have "take (a - a') (drop a' m) = replicate (a - a') True"
    using assms by (auto simp: list_eq_iff_nth_eq)
  then have "kept (take a xs) (take a m) = kept (take a' xs @ take (a - a') (drop a' xs)) (take a' m @ replicate (a - a') True)"
    by (metis t)
  also have "\<dots> = kept (take a' xs) (take a' m)" using assms by (simp add: kept_append kept_none)
  finally show ?thesis .
qed

lemma kept_snoc:
  "a < length xs \<Longrightarrow> length m = length xs \<Longrightarrow> \<not> m ! a \<Longrightarrow>
     kept (take (Suc a) xs) (take (Suc a) m) = kept (take a xs) (take a m) @ [xs ! a]"
  by (simp add: take_Suc_conv_app_nth kept_append)

text \<open>The state of the two passes: \<open>a\<close> and \<open>b\<close> lines are still to be looked at, of which the unmarked ones are the
  same; the interpreter has \<open>j\<close> lines left and the result so far.\<close>

definition marked_same :: "cdline_t list \<Rightarrow> cdline_t list \<Rightarrow> bool list \<Rightarrow> bool list \<Rightarrow> nat \<Rightarrow> nat \<Rightarrow> bool" where
  "marked_same A B c1 c2 a b \<longleftrightarrow> a \<le> length A \<and> b \<le> length B \<and> length c1 = length A \<and> length c2 = length B \<and>
     kept (take a A) (take a c1) = kept (take b B) (take b c2)"

definition rebuilt :: "cdline_t list \<Rightarrow> cdline_t list \<Rightarrow> nat \<Rightarrow> nat \<Rightarrow> nat \<Rightarrow> cdline_t list \<Rightarrow> bool" where
  "rebuilt A B a b j out \<longleftrightarrow> a \<le> j \<and> j \<le> length A \<and> drop a (take j A) @ rev out = drop b B"

lemma marked_same_unchanged:
  assumes "marked_same A B c1 c2 a b" "\<not> (0 < a \<and> c1 ! (a - 1))" "\<not> (0 < b \<and> c2 ! (b - 1))" "0 < a \<or> 0 < b"
  shows "0 < a \<and> 0 < b \<and> A ! (a - 1) = B ! (b - 1) \<and> marked_same A B c1 c2 (a - 1) (b - 1)"
proof -
  have ka: "kept (take a A) (take a c1) = kept (take (a - 1) A) (take (a - 1) c1) @ [A ! (a - 1)]" if "0 < a"
    using kept_snoc [of "a - 1" A c1] assms(1,2) that unfolding marked_same_def by force
  have kb: "kept (take b B) (take b c2) = kept (take (b - 1) B) (take (b - 1) c2) @ [B ! (b - 1)]" if "0 < b"
    using kept_snoc [of "b - 1" B c2] assms(1,3) that unfolding marked_same_def by force
  have same: "kept (take a A) (take a c1) = kept (take b B) (take b c2)" using assms(1) by (simp add: marked_same_def)
  have pos: "0 < a" "0 < b" using ka kb same assms(4) by (cases a; cases b; simp)+
  then show ?thesis using ka kb same assms(1) by (auto simp: marked_same_def)
qed

lemma marked_same_runs:
  assumes "marked_same A B c1 c2 a b" "a' \<le> a" "\<forall>k. a' \<le> k \<and> k < a \<longrightarrow> c1 ! k" "b' \<le> b" "\<forall>k. b' \<le> k \<and> k < b \<longrightarrow> c2 ! k"
  shows "marked_same A B c1 c2 a' b'"
  using assms kept_run [of a' a A c1] kept_run [of b' b B c2] by (auto simp: marked_same_def)

lemma rebuilt_unchanged:
  assumes "rebuilt A B a b j out" "0 < a" "0 < b" "A ! (a - 1) = B ! (b - 1)" "b \<le> length B"
  shows "rebuilt A B (a - 1) (b - 1) j out"
proof -
  have "drop (a - 1) (take j A) = A ! (a - 1) # drop a (take j A)"
    using assms(1,2) Cons_nth_drop_Suc [of "a - 1" "take j A"] unfolding rebuilt_def by force
  moreover have "drop (b - 1) B = B ! (b - 1) # drop b B"
    using assms(3,5) Cons_nth_drop_Suc [of "b - 1" B] by simp
  ultimately show ?thesis using assms by (auto simp: rebuilt_def)
qed

lemma rebuilt_runs:
  assumes "rebuilt A B a b j out" "a' \<le> a" "b' \<le> b" "b \<le> length B"
  shows "rebuilt A B a' b' a' (out @ rev (drop a (take j A)) @ rev (take (b - b') (drop b' B)))"
proof -
  have "drop b' B = take (b - b') (drop b' B) @ drop b B"
    using assms(3) by (metis append_take_drop_id drop_drop le_add_diff_inverse2)
  then show ?thesis using assms by (auto simp: rebuilt_def)
qed

lemma added_lines: "b' \<le> b \<Longrightarrow> b \<le> length B \<Longrightarrow> map ((!) B) [b'..<b] = take (b - b') (drop b' B)"
  by (auto simp: list_eq_iff_nth_eq)

lemma script_loop_step:
  assumes "b' \<le> b" "b \<le> length B" "run_start c1 (int a - 1) = int a' - 1" "run_start c2 (int b - 1) = int b' - 1"
    "a' \<le> a" "0 < a \<and> c1 ! (a - 1) \<longleftrightarrow> a' < a" "0 < b \<and> c2 ! (b - 1) \<longleftrightarrow> b' < b" "a' < a \<or> b' < b"
  defines "new \<equiv> take (b - b') (drop b' B)"
  shows "script_loop B c1 c2 (int a - 1) (int b - 1) result =
    (if ''.'' \<in> set new then Minus_1
     else script_loop B c1 c2 (int a' - 1) (int b' - 1)
       (result @ ed_command_line (int a') (int (length new)) (int (a - a')) # (if new = [] then [] else new @ [''.''])))"
proof -
  have len: "length new = b - b'" using assms(1,2) by (simp add: new_def)
  have nl: "map ((!) B) [nat (int b')..<nat (int b)] = new" using added_lines [OF assms(1,2)] by (simp add: new_def)
  have na: "nat (int n - 1) = n - 1" for n :: nat by simp
  have ch: "\<not> (\<not> (int a - 1 \<ge> 0 \<and> c1 ! nat (int a - 1)) \<and> \<not> (int b - 1 \<ge> 0 \<and> c2 ! nat (int b - 1)))"
  proof (cases "a' < a")
    case True
    then have "0 < a \<and> c1 ! (a - 1)" using assms(6) by blast
    then show ?thesis unfolding na by simp
  next
    case False
    then have "0 < b \<and> c2 ! (b - 1)" using assms(7,8) by blast
    then show ?thesis unfolding na by simp
  qed
  let ?cmd = "ed_command_line (int a') (int (length new)) (int (a - a'))"
  have i: "int a - 1 \<ge> 0 \<or> int b - 1 \<ge> 0" using assms(1,5,8) by linarith
  have n: "int b - int b' = int (length new)" "int a - int a' = int (a - a')" using len assms(1,5) by simp_all
  have dot: "list_ex (\<lambda>line. line_str_eq line ''.'') new \<longleftrightarrow> ''.'' \<in> set new" by (auto simp: list_ex_iff)
  have z: "int (length new) = 0 \<longleftrightarrow> new = []" by simp
  have nl': "map ((!) B) [nat (int b' - 1 + 1)..<nat (int b - 1 + 1)] = new" using nl by (simp only: diff_add_cancel)
  have n': "int b - 1 - (int b' - 1) = int (length new)" "int a - 1 - (int a' - 1) = int (a - a')" "int a' - 1 + 1 = int a'" using n by linarith+
  have "script_loop B c1 c2 (int a - 1) (int b - 1) result =
      (if new = [] then script_loop B c1 c2 (int a' - 1) (int b' - 1) (result @ [?cmd])
       else if ''.'' \<in> set new then Minus_1
       else script_loop B c1 c2 (int a' - 1) (int b' - 1) ((result @ [?cmd]) @ new @ [''.'']))"
    by (subst script_loop.simps) (simp only: if_P [OF i] if_not_P [OF ch] Let_def assms(3,4) nl' n' dot z)
  then show ?thesis by (cases "new = []") simp_all
qed

lemma script_loop_safe: "script_loop cons2 changed1 changed2 i1 i2 result \<noteq> Assertion_failed"
proof (induction cons2 changed1 changed2 i1 i2 result rule: script_loop.induct)
  case (1 cons2 changed1 changed2 i1 i2 result)
  show ?case
    by (subst script_loop.simps) (use 1 in \<open>auto simp: Let_def\<close>)
qed

lemma script_loop_unchanged:
  assumes "\<not> (0 < a \<and> c1 ! (a - 1))" "\<not> (0 < b \<and> c2 ! (b - 1))" "0 < a \<or> 0 < b"
  shows "script_loop B c1 c2 (int a - 1) (int b - 1) result = script_loop B c1 c2 (int (a - 1) - 1) (int (b - 1) - 1) result"
proof -
  have n: "nat (int n - 1) = n - 1" "(if 0 < n then int n - 1 - 1 else int n - 1) = int (n - 1) - 1" "int n - 1 \<ge> 0 \<longleftrightarrow> 0 < n"
    for n :: nat by (cases n; simp)+
  show ?thesis using assms by (subst script_loop.simps) (simp only: n if_True simp_thms)
qed

lemma script_apply:
  assumes "script_loop B c1 c2 (int a - 1) (int b - 1) result = Done R" "marked_same A B c1 c2 a b"
    "A = take (length A) orig" "int (length orig) \<le> INT32_MAX"
  shows "\<exists>S. R = result @ S \<and> (\<forall>j out. rebuilt A B a b j out \<longrightarrow>
    (\<exists>j' out'. apply_loop orig S (int j) out = Done (int j', out') \<and> rebuilt A B 0 0 j' out'))"
  using assms
proof (induction "a + b" arbitrary: a b result rule: less_induct)
  case less
  have b: "b \<le> length B" using less.prems(2) by (simp add: marked_same_def)
  have prefix_eq: "take j orig = take j A \<and> j \<le> length orig" if "j \<le> length A" for j
    using that assms(3) by (metis dual_order.trans length_take min.absorb1 min.cobounded1 take_take)
  consider "a = 0" "b = 0" | "0 < a \<or> 0 < b" "\<not> (0 < a \<and> c1 ! (a - 1))" "\<not> (0 < b \<and> c2 ! (b - 1))"
    | "(0 < a \<and> c1 ! (a - 1)) \<or> (0 < b \<and> c2 ! (b - 1))" by blast
  then show ?case
  proof cases
    case 1
    then have "R = result" using less.prems(1) by (simp add: script_loop.simps)
    then show ?thesis using 1 by auto
  next
    case 2
    have m: "0 < a" "0 < b" "A ! (a - 1) = B ! (b - 1)" "marked_same A B c1 c2 (a - 1) (b - 1)"
      using marked_same_unchanged [OF less.prems(2) 2(2,3,1)] by simp_all
    have "script_loop B c1 c2 (int (a - 1) - 1) (int (b - 1) - 1) result = Done R"
      using less.prems(1) script_loop_unchanged [OF 2(2,3,1)] by simp
    have lt: "a - 1 + (b - 1) < a + b" using m(1) by linarith
    from less.hyps [OF lt \<open>script_loop B c1 c2 (int (a - 1) - 1) (int (b - 1) - 1) result = Done R\<close> m(4) assms(3,4)]
    obtain S where S: "R = result @ S"
        "\<And>j out. rebuilt A B (a - 1) (b - 1) j out \<Longrightarrow>
          \<exists>j' out'. apply_loop orig S (int j) out = Done (int j', out') \<and> rebuilt A B 0 0 j' out'"
      by blast
    show ?thesis using S rebuilt_unchanged [OF _ m(1,2,3) b] by blast
  next
    case 3
    obtain a' where a': "a' \<le> a" "run_start c1 (int a - 1) = int a' - 1" "\<forall>k. a' \<le> k \<and> k < a \<longrightarrow> c1 ! k" "0 < a \<and> c1 ! (a - 1) \<longleftrightarrow> a' < a"
      by (rule run_start_run)
    obtain b' where b': "b' \<le> b" "run_start c2 (int b - 1) = int b' - 1" "\<forall>k. b' \<le> k \<and> k < b \<longrightarrow> c2 ! k" "0 < b \<and> c2 ! (b - 1) \<longleftrightarrow> b' < b"
      by (rule run_start_run)
    define new where "new = take (b - b') (drop b' B)"
    have lt: "a' < a \<or> b' < b" using 3 a'(4) b'(4) by blast
    have st: "script_loop B c1 c2 (int a - 1) (int b - 1) result =
        (if ''.'' \<in> set new then Minus_1
         else script_loop B c1 c2 (int a' - 1) (int b' - 1)
           (result @ ed_command_line (int a') (int (length new)) (int (a - a')) # (if new = [] then [] else new @ [''.''])))"
      using script_loop_step [OF b'(1) b a'(2) b'(2) a'(1) a'(4) b'(4) lt] by (simp add: new_def)
    have dot: "''.'' \<notin> set new" using st less.prems(1) by auto
    have "script_loop B c1 c2 (int a' - 1) (int b' - 1)
        (result @ ed_command_line (int a') (int (length new)) (int (a - a')) # (if new = [] then [] else new @ [''.''])) = Done R"
      using st dot less.prems(1) by simp
    from less.hyps [OF _ this marked_same_runs [OF less.prems(2) a'(1,3) b'(1,3)] assms(3,4)] obtain S where S:
        "R = (result @ ed_command_line (int a') (int (length new)) (int (a - a')) # (if new = [] then [] else new @ [''.''])) @ S"
        "\<And>j out. rebuilt A B a' b' j out \<Longrightarrow>
          \<exists>j' out'. apply_loop orig S (int j) out = Done (int j', out') \<and> rebuilt A B 0 0 j' out'"
      using a'(1) b'(1) lt by auto
    let ?S = "ed_command_line (int a') (int (length new)) (int (a - a')) # (if new = [] then S else new @ ''.'' # S)"
    have "\<exists>j' out'. apply_loop orig ?S (int j) out = Done (int j', out') \<and> rebuilt A B 0 0 j' out'" if r: "rebuilt A B a b j out" for j out
    proof -
      have j: "a \<le> j" "j \<le> length A" using r by (simp_all add: rebuilt_def)
      have ne: "a' < a \<or> new \<noteq> []" using lt b by (auto simp: new_def)
      have "apply_loop orig ?S (int j) out = apply_loop orig S (int a') (out @ rev (drop a (take j A)) @ rev new)"
        using apply_command [OF a'(1) j(1) _ assms(4) ne dot, of S out] prefix_eq [OF j(2)] by simp
      then show ?thesis using S(2) [OF rebuilt_runs [OF r a'(1) b'(1) b]] by (simp add: new_def)
    qed
    moreover have "R = result @ ?S" using S(1) by simp
    ultimately show ?thesis by blast
  qed
qed

lemma apply_loop_append_trailer:
  assumes "k < length orig" "int (length orig) \<le> INT32_MAX"
  shows "apply_loop orig ((print_int (int k + 1) @ '',$d'') # S) (int (length orig)) [] =
    (if Suc k = length orig then Minus_1 else apply_loop orig S (int k) [])"
proof (cases "Suc k = length orig")
  case True
  then show ?thesis using assms read_command_trailer [of "int k + 1" "length orig" "int (length orig)"] by simp
next
  case False
  then have "read_command (length orig) (int (length orig)) (print_int (int k + 1) @ '',$d'') = Some (int k + 1, int (length orig), CHR ''d'')"
    using assms read_command_trailer [of "int k + 1" "length orig" "int (length orig)"] by simp
  moreover have "skip_lines (int k + 1) (int (length orig)) = int k" using skip_lines_eq [of "int k + 1" "int (length orig)"] assms(1) by simp
  moreover have "copy_down orig (int (length orig)) (int (length orig)) [] = (int (length orig), [])"
    using copy_down_eq [of "length orig" "length orig" orig "[]"] by simp
  ultimately show ?thesis using False by simp
qed

lemma gen_ed_diff_parts:
  assumes "gen_ed_diff cons1 cons2 = Done d"
  obtains A c1 c2 where "A = (case signature_index cons1 0 of None \<Rightarrow> cons1 | Some k \<Rightarrow> take k cons1)"
    "marked_same A cons2 c1 c2 (length A) (length cons2)"
    "script_loop cons2 c1 c2 (int (length A) - 1) (int (length cons2) - 1)
       (case signature_index cons1 0 of None \<Rightarrow> [] | Some k \<Rightarrow> [print_int (int k + 1) @ '',$d'']) = Done d"
proof -
  define A where "A = (case signature_index cons1 0 of None \<Rightarrow> cons1 | Some k \<Rightarrow> take k cons1)"
  have pre: "preprocess_consensus cons1 = (A, case signature_index cons1 0 of None \<Rightarrow> None | Some k \<Rightarrow> Some (print_int (int k + 1) @ '',$d''))"
    by (simp add: preprocess_consensus_eq A_def split: option.splits)
  obtain c1 c2 where c: "chunk_loop A cons2 (- 1) (- 1) 0 0 ROUTER_ID_ITERATOR_INIT ROUTER_ID_ITERATOR_INIT
       (replicate (length A) False) (replicate (length cons2) False) = Done (c1, c2)"
    "script_loop cons2 c1 c2 (int (length A) - 1) (int (length cons2) - 1)
       (case signature_index cons1 0 of None \<Rightarrow> [] | Some k \<Rightarrow> [print_int (int k + 1) @ '',$d'']) = Done d"
    using assms by (auto simp: gen_ed_diff_def pre Let_def and_then_Done split: option.splits)
  have "length c1 = length A \<and> length c2 = length cons2 \<and> kept A c1 = kept cons2 c2"
    using chunk_loop_ok [of A "- 1" 0 cons2 "- 1" 0 "[]" "[]"] c(1) by (simp add: at_chunk_def)
  then show ?thesis using that [OF A_def _ c(2)] by (simp add: marked_same_def)
qed

lemma gen_ed_diff_safe: "gen_ed_diff cons1 cons2 \<noteq> Assertion_failed"
proof -
  obtain A t where pre: "preprocess_consensus cons1 = (A, t)" by (cases "preprocess_consensus cons1")
  have "chunk_loop A cons2 (- 1) (- 1) 0 0 ROUTER_ID_ITERATOR_INIT ROUTER_ID_ITERATOR_INIT
       (replicate (length A) False) (replicate (length cons2) False) \<noteq> Assertion_failed"
    using chunk_loop_ok [of A "- 1" 0 cons2 "- 1" 0 "[]" "[]"] by (simp add: at_chunk_def)
  then show ?thesis
    unfolding gen_ed_diff_def pre Let_def prod.case
    by (rule and_then_safe) (auto simp: script_loop_safe)
qed

lemma ed_diff_apply:
  assumes "int (length cons1) \<le> INT32_MAX" "gen_ed_diff cons1 cons2 = Done d"
  shows "apply_ed_diff cons1 d 0 = (if signature_index cons1 0 = Some (length cons1 - 1) then Minus_1 else Done cons2)"
proof -
  obtain A c1 c2 where g: "A = (case signature_index cons1 0 of None \<Rightarrow> cons1 | Some k \<Rightarrow> take k cons1)"
    "marked_same A cons2 c1 c2 (length A) (length cons2)"
    "script_loop cons2 c1 c2 (int (length A) - 1) (int (length cons2) - 1)
       (case signature_index cons1 0 of None \<Rightarrow> [] | Some k \<Rightarrow> [print_int (int k + 1) @ '',$d'']) = Done d"
    by (rule gen_ed_diff_parts [OF assms(2)])
  have A: "A = take (length A) cons1" using g(1) by (cases "signature_index cons1 0") (simp_all add: min_def)
  obtain S where S: "d = (case signature_index cons1 0 of None \<Rightarrow> [] | Some k \<Rightarrow> [print_int (int k + 1) @ '',$d'']) @ S"
      "\<And>j out. rebuilt A cons2 (length A) (length cons2) j out \<Longrightarrow>
        \<exists>j' out'. apply_loop cons1 S (int j) out = Done (int j', out') \<and> rebuilt A cons2 0 0 j' out'"
    using script_apply [OF g(3,2) A assms(1)] by blast
  obtain j' out' where j': "apply_loop cons1 S (int (length A)) [] = Done (int j', out')" "rebuilt A cons2 0 0 j' out'"
    using S(2) [of "length A" "[]"] by (auto simp: rebuilt_def)
  have fin: "smartlist_reverse (snd (copy_down cons1 (int j') 0 out')) = cons2"
  proof -
    have "j' \<le> length cons1 \<and> take j' cons1 = take j' A"
      using j'(2) A by (metis (no_types, lifting) dual_order.trans length_take min.absorb1 min.cobounded1 rebuilt_def take_take)
    then show ?thesis using copy_down_eq [of 0 j' cons1 out'] j'(2) by (simp add: rebuilt_def reverse_rev)
  qed
  show "apply_ed_diff cons1 d 0 =
     (if signature_index cons1 0 = Some (length cons1 - 1) then Minus_1 else Done cons2)"
  proof (cases "signature_index cons1 0")
    case None
    then show ?thesis using S(1) j'(1) g(1) fin by (simp add: apply_ed_diff_def)
  next
    case (Some k)
    have k: "k < length cons1" using signature_index_range [OF Some] by simp
    then have lA: "length A = k" using g(1) Some by simp
    have "apply_loop cons1 d (int (length cons1)) [] = (if Suc k = length cons1 then Minus_1 else Done (int j', out'))"
      using S(1) Some apply_loop_append_trailer [OF k assms(1), of S] j'(1) lA by simp
    moreover have "Suc k = length cons1 \<longleftrightarrow> k = length cons1 - 1" using k by auto
    ultimately show ?thesis using Some fin by (simp add: apply_ed_diff_def)
  qed
qed

text \<open>C2: whenever \<open>gen_ed_diff\<close> produces a script for a base and a target, \<open>apply_ed_diff\<close> turns the base into
  the target with it, line for line; the base may carry signatures, which the script deletes.  The only
  exception is a base whose signatures are exactly its last line: the command \<open>N,$d\<close> the generator writes
  for it is the range that \<open>apply_ed_diff\<close> rejects, so that applying any script for such a base fails.  No
  assertion of the generator fails on any input.\<close>

theorem ed_diff_roundtrip:
  assumes "int (length cons1) \<le> INT32_MAX"
  shows "gen_ed_diff cons1 cons2 \<noteq> Assertion_failed \<and>
    (gen_ed_diff cons1 cons2 = Done d \<longrightarrow>
       apply_ed_diff cons1 d 0 =
         (if signature_index cons1 0 = Some (length cons1 - 1) then Minus_1 else Done cons2))"
  using gen_ed_diff_safe ed_diff_apply [OF assms] by blast

theorem ed_diff_roundtrip_witness:
  "apply_ed_diff [''a'', ''b'', ''directory-signature k'', ''s''] [''3,$d'', ''2c'', ''c'', ''d'', ''.''] 0 = Done [''a'', ''c'', ''d'']"
proof -
  have g: "gen_ed_diff [''a'', ''b'', ''directory-signature k'', ''s''] [''a'', ''c'', ''d''] = Done [''3,$d'', ''2c'', ''c'', ''d'', ''.'']"
    by code_simp
  have "signature_index [''a'', ''b'', ''directory-signature k'', ''s''] 0 = Some 2" by code_simp
  then show ?thesis
    using ed_diff_roundtrip [of "[''a'', ''b'', ''directory-signature k'', ''s'']" "[''a'', ''c'', ''d'']"] g by simp
qed

text \<open>The exception at work: the script for a base that ends in a single line of signatures.\<close>

lemma one_line_signature:
  "gen_ed_diff [''a'', ''directory-signature k''] [''a''] = Done [''2,$d''] \<and>
   apply_ed_diff [''a'', ''directory-signature k''] [''2,$d''] 0 = Minus_1"
proof
  show "gen_ed_diff [''a'', ''directory-signature k''] [''a''] = Done [''2,$d'']" by code_simp
  show "apply_ed_diff [''a'', ''directory-signature k''] [''2,$d''] 0 = Minus_1" by code_simp
qed

section \<open>Scripts from elsewhere\<close>

lemma get_linenum_range: "get_linenum s = Some (v, rest) \<Longrightarrow> 0 \<le> v"
proof -
  assume a: "get_linenum s = Some (v, rest)"
  then have "tor_parse_long s 10 0 2147483647 True = Some (v, True, Some rest)"
    by (auto simp: get_linenum_def split: if_splits option.splits bool.splits)
  then obtain ok nx where "CHECK_STRTOX_RESULT s (strtol s 10) 0 2147483647 True = (v, True, nx)"
    by (auto simp: tor_parse_long_def base_defined_def split: prod.splits)
  then show ?thesis using check_strtox_spec by force
qed

lemma read_command_ok:
  assumes "read_command len1 j line = Some (start, e, action)"
  shows "0 \<le> start \<and> start \<le> e \<and> e \<le> j"
  using assms
  by (auto simp: read_command_def Let_def split: if_splits option.splits dest!: get_linenum_range)

lemma copy_down_from:
  assumes "0 \<le> e" "e \<le> j" "j \<le> int (length cons1)"
  shows "\<exists>out'. copy_down cons1 j e out = (e, out') \<and> set out' \<subseteq> set out \<union> set cons1"
proof -
  obtain n k where "j = int n" "e = int k" using assms by (metis order_trans nonneg_int_cases)
  then show ?thesis using copy_down_eq [of k n cons1 out] assms by (auto dest!: in_set_dropD in_set_takeD)
qed

lemma apply_loop_from:
  assumes "- 1 \<le> j" "j \<le> int (length cons1)"
  shows "apply_loop cons1 diff j out \<noteq> Assertion_failed \<and>
    (\<forall>j' out'. apply_loop cons1 diff j out = Done (j', out') \<longrightarrow>
       - 1 \<le> j' \<and> j' \<le> int (length cons1) \<and> set out' \<subseteq> set out \<union> set cons1 \<union> set diff)"
  using assms
proof (induction cons1 diff j out rule: apply_loop.induct)
  case (1 cons1 j cons2)
  then show ?case by simp
next
  case (2 cons1 line diff j out)
  show ?case
  proof (cases "read_command (length cons1) j line")
    case None
    then show ?thesis by simp
  next
    case (Some c)
    obtain start e action where c: "c = (start, e, action)" by (cases c) auto
    note r = read_command_ok [OF Some [unfolded c]]
    obtain out1 where o1: "copy_down cons1 j e out = (e, out1)" "set out1 \<subseteq> set out \<union> set cons1"
      using copy_down_from [of e j cons1 out] r "2.prems" by force
    define j1 where "j1 = (if action = CHR ''c'' \<or> action = CHR ''d'' then skip_lines start e else e)"
    have j1: "- 1 \<le> j1" "j1 \<le> int (length cons1)" using r "2.prems" skip_lines_eq [of start e] by (auto simp: j1_def)
    let ?added = "takeWhile (\<lambda>l. \<not> line_str_eq l ''.'') diff" and ?rest = "dropWhile (\<lambda>l. \<not> line_str_eq l ''.'') diff"
    have sub: "set ?added \<subseteq> set diff" "set (tl ?rest) \<subseteq> set diff"
      using set_dropWhileD [of _ "\<lambda>l. \<not> line_str_eq l ''.''" diff] by (auto dest: set_takeWhileD list.set_sel(2)) (metis list.sel(2) list.set_sel(2))
    show ?thesis
    proof (cases "action = CHR ''a'' \<or> action = CHR ''c''")
      case True
      have st: "apply_loop cons1 (line # diff) j out = (if ?rest = [] then Minus_1 else if ?added = [] then Minus_1
          else apply_loop cons1 (tl ?rest) j1 (out1 @ rev ?added))"
        using True by (simp add: Some c o1(1) j1_def Let_def del: line_str_eq_iff)
      have "apply_loop cons1 (tl ?rest) j1 (out1 @ rev ?added) \<noteq> Assertion_failed \<and>
          (\<forall>j' out'. apply_loop cons1 (tl ?rest) j1 (out1 @ rev ?added) = Done (j', out') \<longrightarrow>
            - 1 \<le> j' \<and> j' \<le> int (length cons1) \<and> set out' \<subseteq> set (out1 @ rev ?added) \<union> set cons1 \<union> set (tl ?rest))"
        if "?rest \<noteq> []" "?added \<noteq> []"
        using "2.IH"(1) [OF Some c [symmetric] refl refl o1(1) [symmetric] j1_def True refl refl that j1] .
      then show ?thesis unfolding st using o1(2) sub by (auto simp del: line_str_eq_iff) blast+
    next
      case False
      have st: "apply_loop cons1 (line # diff) j out = apply_loop cons1 diff j1 out1"
        using False by (simp add: Some c o1(1) j1_def Let_def)
      show ?thesis unfolding st using "2.IH"(2) [OF Some c [symmetric] refl refl o1(1) [symmetric] j1_def False j1] o1(2) by auto
    qed
  qed
qed

lemma apply_ed_diff_from:
  "apply_ed_diff cons1 diff k \<noteq> Assertion_failed \<and>
   (\<forall>r. apply_ed_diff cons1 diff k = Done r \<longrightarrow> set r \<subseteq> set cons1 \<union> set (drop k diff))"
proof -
  have len: "- 1 \<le> int (length cons1)" "int (length cons1) \<le> int (length cons1)" by simp_all
  note fr = apply_loop_from [OF len, of "drop k diff" "[]"]
  show ?thesis
  proof (cases "apply_loop cons1 (drop k diff) (int (length cons1)) []")
    case Assertion_failed
    then show ?thesis using fr by blast
  next
    case Minus_1
    then show ?thesis by (simp add: apply_ed_diff_def)
  next
    case (Done p)
    obtain j out where p: "p = (j, out)" by (cases p)
    have j: "j \<le> int (length cons1)" "set out \<subseteq> set cons1 \<union> set (drop k diff)"
      using fr [THEN conjunct2, rule_format, of j out] Done p by simp_all
    have "set (snd (copy_down cons1 j 0 out)) \<subseteq> set out \<union> set cons1"
    proof (cases "0 \<le> j")
      case True
      then show ?thesis using copy_down_from [OF order_refl True j(1), of out] by auto
    next
      case False
      then show ?thesis by (subst copy_down.simps) simp
    qed
    then show ?thesis using j(2) Done p by (auto simp: apply_ed_diff_def reverse_rev)
  qed
qed

lemma apply_ed_diff_safe: "apply_ed_diff cons1 diff k \<noteq> Assertion_failed"
  using apply_ed_diff_from by blast

text \<open>C24: applying a script from elsewhere, however malformed, to any document ends with a document or with an
  error, and every line of the document it ends with is a line of the base or of the script: no line is read
  from beyond either of them.\<close>

theorem apply_ed_diff_lines:
  "apply_ed_diff cons1 diff k \<noteq> Assertion_failed \<and>
   (\<forall>r. apply_ed_diff cons1 diff k = Done r \<longrightarrow> set r \<subseteq> set cons1 \<union> set (drop k diff))"
  by (rule apply_ed_diff_from)

lemma apply_ed_diff_lines_witness:
  "set [''a'', ''c''] \<subseteq> set [''a'', ''b''] \<union> set (drop 1 [''x'', ''2c'', ''c'', ''.''])"
proof -
  have "apply_ed_diff [''a'', ''b''] [''x'', ''2c'', ''c'', ''.''] 1 = Done [''a'', ''c'']" by code_simp
  then show ?thesis using apply_ed_diff_lines [of "[''a'', ''b'']" "[''x'', ''2c'', ''c'', ''.'']" 1] by blast
qed

end
