(* ===== verification/Cons_Diff.thy ===== *)
theory Cons_Diff
  imports Ed_Script
begin

text \<open>
  Consensus diffs as documents: the header with the digests of the base and the target, the split of a
  document in lines and the join of lines, and the two entry points of
  \<open>feature/dircommon/consdiff.c\<close>, \<open>consensus_diff_generate\<close> and \<open>consensus_diff_apply\<close>; with the search for
  the signed part of a document in \<open>feature/dirparse\<close>, whose digest the header gives for the base.

  A document is the string of its characters, and its length is the length the code passes with it.  SHA3-256 is
  the parameter \<open>crypto_digest256\<close>, which is computed by the OpenSSL library: \<open>Minus_1\<close> is its error.

  Lists of lines are unbounded: the assertion of \<open>smartlist_ensure_capacity\<close> that a list has at most
  \<open>MAX_CAPACITY\<close> items, which \<open>consensus_split_lines\<close> would fail on a document of more than 2^31 - 1 lines, is
  not represented here.
\<close>

section \<open>Definitions\<close>

definition ns_diff_version :: string where "ns_diff_version = ''network-status-diff-version 1''"

definition hash_token :: string where "hash_token = ''hash''"

abbreviation DIGEST256_LEN :: nat where "DIGEST256_LEN \<equiv> 32"
abbreviation HEX_DIGEST256_LEN :: nat where "HEX_DIGEST256_LEN \<equiv> 64"

record consensus_digest_t =
  sha3_256 :: bytes

type_synonym sha3 = "string \<Rightarrow> bytes outcome"

text \<open>The first and the last position, one past the end, of what is hashed.\<close>

definition router_get_hash_impl_helper :: "string \<Rightarrow> string \<Rightarrow> string \<Rightarrow> char \<Rightarrow> (nat \<times> nat) outcome" where
  "router_get_hash_impl_helper s start_str end_str end_c =
     (case memmem s start_str of
        None \<Rightarrow> Minus_1
      | Some start \<Rightarrow>
          if start \<noteq> 0 \<and> s ! (start - 1) \<noteq> NL then Minus_1
          else case memmem (drop (start + length start_str) s) end_str of
                 None \<Rightarrow> Minus_1
               | Some k \<Rightarrow>
                   (let e = start + length start_str + k
                    in case memchr (drop (e + length end_str) s) end_c of
                         None \<Rightarrow> Minus_1
                       | Some n \<Rightarrow> Done (start, e + length end_str + n + 1)))"

definition router_get_networkstatus_v3_signed_boundaries :: "string \<Rightarrow> (nat \<times> nat) outcome" where
  "router_get_networkstatus_v3_signed_boundaries s =
     router_get_hash_impl_helper s ''network-status-version'' (NL # ''directory-signature'') (CHR '' '')"

definition router_get_networkstatus_v3_sha3_as_signed :: "sha3 \<Rightarrow> string \<Rightarrow> bytes outcome" where
  "router_get_networkstatus_v3_sha3_as_signed crypto_digest256 s =
     (let (start, e) = (case router_get_networkstatus_v3_signed_boundaries s of
                          Done p \<Rightarrow> p | Minus_1 \<Rightarrow> (0, length s) | Assertion_failed \<Rightarrow> (0, length s))
      in crypto_digest256 (take (e - start) (drop start s)))"

definition consensus_compute_digest :: "sha3 \<Rightarrow> string \<Rightarrow> consensus_digest_t outcome" where
  "consensus_compute_digest crypto_digest256 cons =
     and_then (crypto_digest256 cons) (\<lambda>d. Done \<lparr>sha3_256 = d\<rparr>)"

definition consensus_compute_digest_as_signed :: "sha3 \<Rightarrow> string \<Rightarrow> consensus_digest_t outcome" where
  "consensus_compute_digest_as_signed crypto_digest256 cons =
     and_then (router_get_networkstatus_v3_sha3_as_signed crypto_digest256 cons) (\<lambda>d. Done \<lparr>sha3_256 = d\<rparr>)"

definition consensus_digest_eq :: "bytes \<Rightarrow> bytes \<Rightarrow> bool" where
  "consensus_digest_eq d1 d2 \<longleftrightarrow> take DIGEST256_LEN d1 = take DIGEST256_LEN d2"

text \<open>A new line with the contents of a C string.\<close>

definition cdline_linecpy :: "string \<Rightarrow> cdline_t" where
  "cdline_linecpy s = c_str s"

definition smartlist_add_linecpy :: "cdline_t list \<Rightarrow> string \<Rightarrow> cdline_t list" where
  "smartlist_add_linecpy lst s = lst @ [cdline_linecpy s]"

definition consdiff_gen_diff ::
    "cdline_t list \<Rightarrow> cdline_t list \<Rightarrow> consensus_digest_t \<Rightarrow> consensus_digest_t \<Rightarrow> cdline_t list outcome" where
  "consdiff_gen_diff cons1 cons2 digests1 digests2 =
     and_then (gen_ed_diff cons1 cons2) (\<lambda>ed_diff.
     and_then (apply_ed_diff cons1 ed_diff 0) (\<lambda>ed_cons2.
       let cons2_eq = (length cons2 = length ed_cons2 \<and> list_all2 lines_eq cons2 ed_cons2)
       in if \<not> cons2_eq then Minus_1
          else and_then (base16_encode (HEX_DIGEST256_LEN + 1) (take DIGEST256_LEN (sha3_256 digests1))) (\<lambda>cons1_hash_hex.
               and_then (base16_encode (HEX_DIGEST256_LEN + 1) (take DIGEST256_LEN (sha3_256 digests2))) (\<lambda>cons2_hash_hex.
                 let result = smartlist_add_linecpy [] (take (160 - 1) ns_diff_version);
                     result = smartlist_add_linecpy result
                       (take (160 - 1) (hash_token @ '' '' @ c_str cons1_hash_hex @ '' '' @ c_str cons2_hash_hex))
                 in Done (result @ ed_diff)))))"

text \<open>The two digests, where the code returns 1 the result is \<open>Minus_1\<close>.  The split returns as its separator is not
  empty.\<close>

definition consdiff_get_digests :: "cdline_t list \<Rightarrow> (bytes \<times> bytes) outcome" where
  "consdiff_get_digests diff =
     (if length diff < 2 then Minus_1
      else if \<not> line_str_eq (diff ! 0) ns_diff_version then Minus_1
      else case smartlist_split_string [] (c_str (diff ! 1)) (Some '' '') no_flags 4 of
             None \<Rightarrow> Assertion_failed
           | Some (hash_words, n) \<Rightarrow>
               if length hash_words \<noteq> 3 \<or> hash_words ! 0 \<noteq> hash_token then Minus_1
               else (let cons1_hash_hex = hash_words ! 1; cons2_hash_hex = hash_words ! 2
                     in if length cons1_hash_hex \<noteq> HEX_DIGEST256_LEN \<or> length cons2_hash_hex \<noteq> HEX_DIGEST256_LEN then Minus_1
                        else and_then (base16_decode DIGEST256_LEN cons1_hash_hex) (\<lambda>(cons1_hash, n1).
                             if n1 \<noteq> DIGEST256_LEN then Minus_1
                             else and_then (base16_decode DIGEST256_LEN cons2_hash_hex) (\<lambda>(cons2_hash, n2).
                               if n2 \<noteq> DIGEST256_LEN then Minus_1 else Done (cons1_hash, cons2_hash)))))"

definition consensus_join_lines :: "cdline_t list \<Rightarrow> string" where
  "consensus_join_lines inp = concat (map (\<lambda>cdline. cdline @ [NL]) inp)"

definition consdiff_apply_diff :: "sha3 \<Rightarrow> cdline_t list \<Rightarrow> cdline_t list \<Rightarrow> consensus_digest_t \<Rightarrow> string outcome" where
  "consdiff_apply_diff crypto_digest256 cons1 diff digests1 =
     and_then (consdiff_get_digests diff) (\<lambda>(e_cons1_hash, e_cons2_hash).
       if \<not> consensus_digest_eq (sha3_256 digests1) e_cons1_hash then Minus_1
       else and_then (apply_ed_diff cons1 diff 2) (\<lambda>cons2.
              let cons2_str = consensus_join_lines cons2
              in and_then (consensus_compute_digest crypto_digest256 (c_str cons2_str)) (\<lambda>cons2_digests.
                   if \<not> consensus_digest_eq (sha3_256 cons2_digests) e_cons2_hash then Minus_1
                   else Done cons2_str)))"

definition CONSENSUS_LINE_MAX_LEN :: nat where "CONSENSUS_LINE_MAX_LEN = 1048576"

function consensus_split_lines :: "cdline_t list \<Rightarrow> string \<Rightarrow> cdline_t list outcome" where
  "consensus_split_lines out s =
     (if s = [] then Done out
      else case memchr s NL of
             None \<Rightarrow> Minus_1
           | Some eol \<Rightarrow>
               if eol > CONSENSUS_LINE_MAX_LEN then Minus_1
               else consensus_split_lines (out @ [take eol s]) (drop (eol + 1) s))"
  by pat_completeness auto
termination by (relation "measure (\<lambda>(out, s). length s)") auto

declare consensus_split_lines.simps [simp del]

text \<open>Both digests are computed before either is looked at.\<close>

definition consensus_diff_generate :: "sha3 \<Rightarrow> string \<Rightarrow> string \<Rightarrow> string outcome" where
  "consensus_diff_generate crypto_digest256 cons1 cons2 =
     and_then (consensus_compute_digest_as_signed crypto_digest256 cons1) (\<lambda>d1.
     and_then (consensus_compute_digest crypto_digest256 cons2) (\<lambda>d2.
     and_then (consensus_split_lines [] cons1) (\<lambda>lines1.
     and_then (consensus_split_lines [] cons2) (\<lambda>lines2.
     and_then (consdiff_gen_diff lines1 lines2 d1 d2) (\<lambda>result_lines.
       Done (consensus_join_lines result_lines))))))"

definition consensus_diff_apply :: "sha3 \<Rightarrow> string \<Rightarrow> string \<Rightarrow> string outcome" where
  "consensus_diff_apply crypto_digest256 consensus diff =
     and_then (consensus_compute_digest_as_signed crypto_digest256 consensus) (\<lambda>d1.
     and_then (consensus_split_lines [] consensus) (\<lambda>lines1.
     and_then (consensus_split_lines [] diff) (\<lambda>lines2.
       consdiff_apply_diff crypto_digest256 lines1 lines2 d1)))"

definition looks_like_a_consensus_diff :: "string \<Rightarrow> bool" where
  "looks_like_a_consensus_diff document \<longleftrightarrow>
     length document \<ge> length ns_diff_version \<and> take (length ns_diff_version) document = ns_diff_version"

section \<open>Lines\<close>

lemma memchr_Some:
  assumes "memchr s c = Some k"
  shows "s = take k s @ c # drop (k + 1) s \<and> c \<notin> set (take k s)"
  using memchr_less [OF assms] id_take_nth_drop [of k s] by auto

definition document_lines :: "cdline_t list \<Rightarrow> bool" where
  "document_lines ls \<longleftrightarrow> (\<forall>l\<in>set ls. NL \<notin> set l \<and> length l \<le> CONSENSUS_LINE_MAX_LEN)"

lemma consensus_join_lines_simps [simp]:
  "consensus_join_lines [] = []" "consensus_join_lines (l # ls) = l @ NL # consensus_join_lines ls"
  by (simp_all add: consensus_join_lines_def)

lemma split_join_lines: "document_lines ls \<Longrightarrow> consensus_split_lines out (consensus_join_lines ls) = Done (out @ ls)"
proof (induction ls arbitrary: out)
  case Nil
  then show ?case by (simp add: consensus_split_lines.simps)
next
  case (Cons l ls)
  then have "memchr (l @ NL # consensus_join_lines ls) NL = Some (length l)" by (intro memchr_append) (simp add: document_lines_def)
  then show ?case using Cons by (subst consensus_split_lines.simps) (simp add: document_lines_def)
qed

lemma join_split_lines:
  "consensus_split_lines out s = Done r \<Longrightarrow> \<exists>ls. r = out @ ls \<and> s = consensus_join_lines ls \<and> document_lines ls"
proof (induction out s rule: consensus_split_lines.induct)
  case (1 out s)
  show ?case
  proof (cases "s = []")
    case True
    then show ?thesis using "1.prems" by (intro exI [of _ "[]"]) (simp add: consensus_split_lines.simps document_lines_def)
  next
    case False
    then obtain k where k: "memchr s NL = Some k" "\<not> k > CONSENSUS_LINE_MAX_LEN"
        "consensus_split_lines (out @ [take k s]) (drop (k + 1) s) = Done r"
      using "1.prems" by (subst (asm) consensus_split_lines.simps) (auto split: option.splits if_splits)
    obtain ls where ls: "r = (out @ [take k s]) @ ls" "drop (k + 1) s = consensus_join_lines ls" "document_lines ls"
      using "1.IH" [OF False k] by blast
    have "s = consensus_join_lines (take k s # ls)" "NL \<notin> set (take k s)" using memchr_Some [OF k(1)] ls(2) by simp_all
    then show ?thesis using ls(1,3) k(2) by (intro exI [of _ "take k s # ls"]) (simp add: document_lines_def)
  qed
qed

lemma consensus_split_lines_safe: "consensus_split_lines out s \<noteq> Assertion_failed"
proof (induction out s rule: consensus_split_lines.induct)
  case (1 out s)
  then show ?case by (subst consensus_split_lines.simps) (auto split: option.splits)
qed

text \<open>Splitting a document into lines succeeds exactly on the documents all of whose lines end in a newline and
  are at most \<open>CONSENSUS_LINE_MAX_LEN\<close> long (so not on text after the last newline), and then joining the lines gives
  the document back; splitting the join of such lines gives the lines back.\<close>

theorem consensus_lines_roundtrip:
  "(\<forall>ls. consensus_split_lines [] s = Done ls \<longleftrightarrow> s = consensus_join_lines ls \<and> document_lines ls) \<and>
   ((\<nexists>ls. s = consensus_join_lines ls \<and> document_lines ls) \<longleftrightarrow> consensus_split_lines [] s = Minus_1) \<and>
   consensus_split_lines [] (s @ [NL]) \<noteq> Done []"
proof (intro conjI allI)
  show iff: "consensus_split_lines [] s = Done ls \<longleftrightarrow> s = consensus_join_lines ls \<and> document_lines ls" for ls
    using split_join_lines [of ls "[]"] join_split_lines [of "[]" s ls] by auto
  show "(\<nexists>ls. s = consensus_join_lines ls \<and> document_lines ls) \<longleftrightarrow> consensus_split_lines [] s = Minus_1"
    using iff consensus_split_lines_safe [of "[]" s] by (cases "consensus_split_lines [] s") force+
  show "consensus_split_lines [] (s @ [NL]) \<noteq> Done []"
    using join_split_lines [of "[]" "s @ [NL]" "[]"] by auto
qed

section \<open>The header\<close>

lemma memmem_single: "c \<notin> set a \<Longrightarrow> memmem (a @ c # b) [c] = Some (length a)" "c \<notin> set a \<Longrightarrow> memmem a [c] = None"
  by (induction a) auto

lemma split_loop_words:
  assumes "c \<notin> set a"
  shows "n \<noteq> 3 \<Longrightarrow> split_loop (Some [c]) no_flags 4 (a @ c # b) n sl = split_loop (Some [c]) no_flags 4 b (n + 1) (sl @ [a])"
    "split_loop (Some [c]) no_flags 4 a n sl = Some (sl @ [a], n + 1)"
  using memmem_single [OF assms]
  by (subst split_loop.simps, simp add: split_end_def split_next_def Let_def)+

lemma base16_loop_plain: "CHR '' '' \<notin> set (base16_loop bs)" "NUL \<notin> set (base16_loop bs)" "NL \<notin> set (base16_loop bs)"
  using base16_loop_chars [of bs] by auto

lemma base16_encode_digest:
  "length d = 32 \<Longrightarrow> base16_encode (HEX_DIGEST256_LEN + 1) (take DIGEST256_LEN d) = Done (buffer 65 (base16_loop d))"
  by (simp add: base16_encode_def BASE16_BUFSIZE_def SIZE_T_CEILING_def Let_def)

lemma c_str_digest: "length d = 32 \<Longrightarrow> c_str (buffer 65 (base16_loop d)) = base16_loop d"
  by (rule c_str_buffer) (simp_all add: base16_loop_plain length_base16_loop)

lemma base16_decode_digest: "length d = 32 \<Longrightarrow> base16_decode DIGEST256_LEN (base16_loop d) = Done (d, 32)"
  by (simp add: base16_decode_def base16_loop_roundtrip length_base16_loop byte_buffer_def C_INT_MAX_def)

definition hash_line :: "bytes \<Rightarrow> bytes \<Rightarrow> cdline_t" where
  "hash_line d1 d2 = hash_token @ '' '' @ base16_loop d1 @ '' '' @ base16_loop d2"

definition diff_header :: "bytes \<Rightarrow> bytes \<Rightarrow> cdline_t list" where
  "diff_header d1 d2 = [ns_diff_version, hash_line d1 d2]"

lemma c_str_id: "NUL \<notin> set s \<Longrightarrow> c_str s = s"
  by (simp add: takeWhile_eq_all_conv) metis

lemma hash_line_plain: "NUL \<notin> set (hash_line d1 d2)" "NL \<notin> set (hash_line d1 d2)"
  by (simp_all add: hash_line_def hash_token_def base16_loop_plain)

lemma length_hash_line: "length (hash_line d1 d2) = 6 + 2 * length d1 + 2 * length d2"
  by (simp add: hash_line_def hash_token_def length_base16_loop)

lemma split_hash_line:
  "smartlist_split_string [] (hash_line d1 d2) (Some '' '') no_flags 4 = Some ([hash_token, base16_loop d1, base16_loop d2], 3)"
proof -
  have "CHR '' '' \<notin> set hash_token" by (simp add: hash_token_def)
  then show ?thesis
    unfolding smartlist_split_string_def hash_line_def
    by (simp add: split_loop_words base16_loop_plain)
qed

lemma consdiff_get_digests_header:
  assumes "length d1 = 32" "length d2 = 32"
  shows "consdiff_get_digests (diff_header d1 d2 @ ed) = Done (d1, d2)"
  using assms
  by (simp add: consdiff_get_digests_def diff_header_def c_str_id [OF hash_line_plain(1)] split_hash_line length_base16_loop base16_decode_digest)

lemma consdiff_gen_diff_eq:
  assumes "gen_ed_diff cons1 cons2 = Done ed" "int (length cons1) \<le> INT32_MAX"
    "length (sha3_256 d1) = 32" "length (sha3_256 d2) = 32"
  shows "consdiff_gen_diff cons1 cons2 d1 d2 =
    (if signature_index cons1 0 = Some (length cons1 - 1) then Minus_1 else Done (diff_header (sha3_256 d1) (sha3_256 d2) @ ed))"
proof (cases "signature_index cons1 0 = Some (length cons1 - 1)")
  case True
  then show ?thesis using ed_diff_apply [OF assms(2,1)] by (simp add: consdiff_gen_diff_def assms(1))
next
  case False
  then have ap: "apply_ed_diff cons1 ed 0 = Done cons2" using ed_diff_apply [OF assms(2,1)] by simp
  have ref: "list_all2 lines_eq cons2 cons2" by (rule list_all2_refl) simp
  have n: "c_str (take (160 - 1) ns_diff_version) = ns_diff_version" by (simp add: ns_diff_version_def)
  have "take (160 - 1) (hash_line (sha3_256 d1) (sha3_256 d2)) = hash_line (sha3_256 d1) (sha3_256 d2)"
    using assms(3,4) by (simp add: length_hash_line)
  then have l: "c_str (take (160 - 1) (hash_line (sha3_256 d1) (sha3_256 d2))) = hash_line (sha3_256 d1) (sha3_256 d2)"
    using c_str_id [OF hash_line_plain(1)] by presburger
  show ?thesis
    unfolding consdiff_gen_diff_def assms(1) ap and_then_simps Let_def base16_encode_digest [OF assms(3)]
      base16_encode_digest [OF assms(4)] c_str_digest [OF assms(3)] c_str_digest [OF assms(4)] smartlist_add_linecpy_def
      cdline_linecpy_def hash_line_def [symmetric] n l
    using False ref by (simp add: diff_header_def)
qed

section \<open>The lines of a script\<close>

definition plain_line :: "cdline_t \<Rightarrow> bool" where
  "plain_line l \<longleftrightarrow> NUL \<notin> set l \<and> NL \<notin> set l \<and> length l \<le> CONSENSUS_LINE_MAX_LEN"

lemma print_int_plain: "0 \<le> v \<Longrightarrow> NUL \<notin> set (print_int v) \<and> NL \<notin> set (print_int v)"
  using print_int_chars [of v NUL] print_int_chars [of v NL] by (auto simp: TOR_ISDIGIT_iff)

lemma ed_command_line_plain:
  assumes "0 \<le> s" "0 \<le> d" "s + d \<le> INT32_MAX" "a \<noteq> 0 \<or> 0 < d"
  shows "plain_line (ed_command_line s a d)"
proof -
  have p: "NUL \<notin> set (print_int v) \<and> NL \<notin> set (print_int v) \<and> length (print_int v) \<le> 10" if "0 \<le> v" "v \<le> s + d" for v
    using print_int_plain [OF that(1)] length_print_int [OF that(1)] that(2) assms(3) by linarith
  show ?thesis
  proof (cases "d = 0")
    case True
    then show ?thesis using p [of s] assms by (auto simp: ed_command_line_def plain_line_def CONSENSUS_LINE_MAX_LEN_def)
  next
    case False
    then show ?thesis using p [of "s + 1"] p [of "s + d"] assms
      by (auto simp: ed_command_line_def plain_line_def CONSENSUS_LINE_MAX_LEN_def)
  qed
qed

lemma script_loop_plain:
  assumes "script_loop B c1 c2 (int a - 1) (int b - 1) result = Done R" "int a \<le> INT32_MAX" "b \<le> length B"
    "list_all plain_line result" "list_all plain_line B"
  shows "list_all plain_line R"
  using assms
proof (induction "a + b" arbitrary: a b result rule: less_induct)
  case less
  consider "a = 0" "b = 0" | "0 < a \<or> 0 < b" "\<not> (0 < a \<and> c1 ! (a - 1))" "\<not> (0 < b \<and> c2 ! (b - 1))"
    | "(0 < a \<and> c1 ! (a - 1)) \<or> (0 < b \<and> c2 ! (b - 1))" by blast
  then show ?case
  proof cases
    case 1
    then show ?thesis using less.prems(1,4) by (simp add: script_loop.simps)
  next
    case 2
    have lt: "a - 1 + (b - 1) < a + b" using 2(1) by linarith
    show ?thesis
      by (rule less.hyps [OF lt]) (use less.prems script_loop_unchanged [OF 2(2,3,1)] in auto)
  next
    case 3
    obtain a' where a': "a' \<le> a" "run_start c1 (int a - 1) = int a' - 1" "\<forall>k. a' \<le> k \<and> k < a \<longrightarrow> c1 ! k" "0 < a \<and> c1 ! (a - 1) \<longleftrightarrow> a' < a"
      by (rule run_start_run)
    obtain b' where b': "b' \<le> b" "run_start c2 (int b - 1) = int b' - 1" "\<forall>k. b' \<le> k \<and> k < b \<longrightarrow> c2 ! k" "0 < b \<and> c2 ! (b - 1) \<longleftrightarrow> b' < b"
      by (rule run_start_run)
    define new where "new = take (b - b') (drop b' B)"
    let ?cmd = "ed_command_line (int a') (int (length new)) (int (a - a'))"
    have lt: "a' < a \<or> b' < b" using 3 a'(4) b'(4) by blast
    have st: "script_loop B c1 c2 (int a - 1) (int b - 1) result =
        (if ''.'' \<in> set new then Minus_1
         else script_loop B c1 c2 (int a' - 1) (int b' - 1) (result @ ?cmd # (if new = [] then [] else new @ [''.''])))"
      using script_loop_step [OF b'(1) less.prems(3) a'(2) b'(2) a'(1) a'(4) b'(4) lt] by (simp add: new_def)
    have "length new \<noteq> 0 \<or> a' < a" using lt less.prems(3) by (auto simp: new_def)
    then have cmd: "plain_line ?cmd" using a'(1) less.prems(2) by (intro ed_command_line_plain) auto
    have new: "list_all plain_line new" using less.prems(5) by (auto simp: new_def list_all_iff dest!: in_set_takeD in_set_dropD)
    have dot: "plain_line ''.''" by (simp add: plain_line_def CONSENSUS_LINE_MAX_LEN_def)
    have smaller: "a' + b' < a + b" using a'(1) b'(1) lt by linarith
    show ?thesis
      by (rule less.hyps [OF smaller, of "result @ ?cmd # (if new = [] then [] else new @ [''.''])"])
        (use st less.prems a'(1) b'(1) cmd new dot in \<open>auto split: if_splits\<close>)
  qed
qed

lemma gen_ed_diff_plain:
  assumes "gen_ed_diff cons1 cons2 = Done d" "int (length cons1) \<le> INT32_MAX" "list_all plain_line cons2"
  shows "list_all plain_line d"
proof -
  obtain A c1 c2 where g: "A = (case signature_index cons1 0 of None \<Rightarrow> cons1 | Some k \<Rightarrow> take k cons1)"
    "script_loop cons2 c1 c2 (int (length A) - 1) (int (length cons2) - 1)
       (case signature_index cons1 0 of None \<Rightarrow> [] | Some k \<Rightarrow> [print_int (int k + 1) @ '',$d'']) = Done d"
    by (rule gen_ed_diff_parts [OF assms(1)])
  have "plain_line (print_int (int k + 1) @ '',$d'')" if "signature_index cons1 0 = Some k" for k
    using signature_index_range [OF that] assms(2) print_int_plain [of "int k + 1"] length_print_int [of "int k + 1"]
    by (auto simp: plain_line_def CONSENSUS_LINE_MAX_LEN_def)
  moreover have "length A \<le> length cons1" using g(1) by (simp split: option.splits)
  ultimately show ?thesis using assms(2,3) by (intro script_loop_plain [OF g(2)]) (auto split: option.splits)
qed

section \<open>The signed part\<close>

lemma occurs_at_prefix: "k + length p \<le> n \<Longrightarrow> n \<le> length s \<Longrightarrow> occurs_at p (take n s @ t) k \<longleftrightarrow> occurs_at p s k"
proof -
  assume a: "k + length p \<le> n" "n \<le> length s"
  then have "take (length p) (drop k (take n s @ t)) = take (length p) (drop k s)"
    by (simp add: drop_take)
  then show ?thesis by (simp add: occurs_at_def)
qed

lemma memmem_prefix:
  assumes "p \<noteq> []" "memmem s p = Some k" "k + length p \<le> n" "n \<le> length s"
  shows "memmem (take n s @ t) p = Some k"
proof (rule memmem_unique [OF assms(1)])
  have f: "occurs_at p s k" "\<forall>j<k. \<not> occurs_at p s j" using memmem_first [OF assms(1), of s] assms(2) by auto
  show "occurs_at p (take n s @ t) k" using f(1) occurs_at_prefix [OF assms(3,4)] by simp
  show "\<forall>j<k. \<not> occurs_at p (take n s @ t) j"
    using f(2) occurs_at_prefix [of _ p n s t] assms(3,4) by simp
qed

lemma memchr_prefix: "memchr s c = Some k \<Longrightarrow> k < n \<Longrightarrow> memchr (take n s @ t) c = Some k"
proof (induction s c arbitrary: k n rule: memchr.induct)
  case (2 x xs c)
  then show ?case by (cases n) (auto split: if_splits)
qed simp

lemma hash_helper_parts:
  assumes "router_get_hash_impl_helper s p q c = Done (a, e)" "p \<noteq> []" "q \<noteq> []"
  obtains k n where "memmem s p = Some a" "a = 0 \<or> s ! (a - 1) = NL" "memmem (drop (a + length p) s) q = Some k"
    "memchr (drop (a + length p + k + length q) s) c = Some n" "e = a + length p + k + length q + n + 1" "e \<le> length s"
    "a < e" "s ! (e - 1) = c"
proof -
  obtain k n where h: "memmem s p = Some a" "a = 0 \<or> s ! (a - 1) = NL" "memmem (drop (a + length p) s) q = Some k"
    "memchr (drop (a + length p + k + length q) s) c = Some n" "e = a + length p + k + length q + n + 1"
    using assms(1) by (auto simp: router_get_hash_impl_helper_def Let_def split: option.splits if_splits)
  have "n < length (drop (a + length p + k + length q) s)" using memchr_less [OF h(4)] by simp
  then have "e \<le> length s" using h(5) by simp
  moreover have "a + length p + k + length q \<le> length s" using calculation h(5) by linarith
  then have "s ! (e - 1) = c" using memchr_less [OF h(4)] h(5) by (simp add: nth_drop)
  ultimately show ?thesis using that [OF h] h(5) by linarith
qed

lemma hash_helper_prefix:
  assumes "router_get_hash_impl_helper s p q c = Done (a, e)" "p \<noteq> []" "q \<noteq> []"
  shows "router_get_hash_impl_helper (take e s @ t) p q c = Done (a, e)"
proof -
  obtain k n where h: "memmem s p = Some a" "a = 0 \<or> s ! (a - 1) = NL" "memmem (drop (a + length p) s) q = Some k"
    "memchr (drop (a + length p + k + length q) s) c = Some n" "e = a + length p + k + length q + n + 1" "e \<le> length s"
    "a < e" by (rule hash_helper_parts [OF assms])
  have dr: "drop i (take e s @ t) = take (e - i) (drop i s) @ t" if "i \<le> e" for i
    using that h(6) by (simp add: drop_take)
  have 1: "memmem (take e s @ t) p = Some a" using memmem_prefix [OF assms(2) h(1)] h(5,6) by simp
  have 2: "memmem (drop (a + length p) (take e s @ t)) q = Some k"
    using memmem_prefix [OF assms(3) h(3), of "e - (a + length p)" t] dr [of "a + length p"] h(5,6) by simp
  have 3: "memchr (drop (a + length p + k + length q) (take e s @ t)) c = Some n"
    using memchr_prefix [OF h(4), of "e - (a + length p + k + length q)" t] dr [of "a + length p + k + length q"] h(5) by simp
  have "a - 1 < e" using h(7) by linarith
  then have 4: "(take e s @ t) ! (a - 1) = s ! (a - 1)" using h(6) by (simp add: nth_append)
  have 5: "\<not> (a \<noteq> 0 \<and> s ! (a - 1) \<noteq> NL)" using h(2) by blast
  show ?thesis
    unfolding router_get_hash_impl_helper_def 1 option.case 2 3 4 Let_def if_not_P [OF 5] by (simp add: h(5))
qed

text \<open>The digest as signed.  When the signed part of a document is found, it starts at the start of a line with
  \<open>network-status-version\<close> and ends within the document, the digest is that of exactly this part, and it is the same
  whatever text stands after it in place of the signatures.\<close>

theorem digest_as_signed:
  assumes "router_get_networkstatus_v3_signed_boundaries s = Done (a, e)"
  shows "a < e \<and> e \<le> length s \<and> (a = 0 \<or> s ! (a - 1) = NL) \<and> occurs_at ''network-status-version'' s a \<and>
    last (take e s) = CHR '' '' \<and>
    router_get_networkstatus_v3_sha3_as_signed crypto_digest256 (take e s @ t) =
      crypto_digest256 (take (e - a) (drop a s))"
proof -
  have h: "router_get_hash_impl_helper s ''network-status-version'' (NL # ''directory-signature'') (CHR '' '') = Done (a, e)"
    using assms by (simp add: router_get_networkstatus_v3_signed_boundaries_def)
  obtain k n where p: "memmem s ''network-status-version'' = Some a" "a = 0 \<or> s ! (a - 1) = NL"
      "e \<le> length s" "a < e" "s ! (e - 1) = CHR '' ''"
    by (rule hash_helper_parts [OF h]) auto
  have "take e s \<noteq> []" using p(3,4) by auto
  then have "last (take e s) = CHR '' ''" using p(3,4,5) by (simp add: last_conv_nth)
  moreover have "router_get_networkstatus_v3_signed_boundaries (take e s @ t) = Done (a, e)"
    using hash_helper_prefix [OF h, of t] by (simp add: router_get_networkstatus_v3_signed_boundaries_def)
  moreover have "take (e - a) (drop a (take e s @ t)) = take (e - a) (drop a s)" using p(3) by (simp add: drop_take)
  moreover have "occurs_at ''network-status-version'' s a" using memmem_first [of "''network-status-version''" s] p(1) by simp
  ultimately show ?thesis using p by (simp add: router_get_networkstatus_v3_sha3_as_signed_def)
qed

lemma digest_as_signed_witness:
  "router_get_networkstatus_v3_sha3_as_signed (\<lambda>x. Done [])
       (take 44 (''network-status-version '' @ [NL] @ ''directory-signature abc'') @ ''xyz'') = Done []"
proof -
  have "router_get_networkstatus_v3_signed_boundaries (''network-status-version '' @ [NL] @ ''directory-signature abc'') = Done (0, 44)"
    by code_simp
  from digest_as_signed [OF this, of "\<lambda>x. Done []" "''xyz''"] show ?thesis by (elim conjE)
qed

section \<open>Generating and applying\<close>

text \<open>C25: the check that \<open>consdiff_gen_diff\<close> makes of its own script is redundant but for one case: when a script is
  generated, the result is the two lines of the header and the script, and the digests read from it are those
  given, unless the signatures of the base are exactly its last line, when no diff is made.  A failure to
  generate a script is passed on.\<close>

theorem gen_diff_self_check:
  assumes "int (length cons1) \<le> INT32_MAX" "length (sha3_256 d1) = DIGEST256_LEN" "length (sha3_256 d2) = DIGEST256_LEN"
  shows "consdiff_gen_diff cons1 cons2 d1 d2 =
      (case gen_ed_diff cons1 cons2 of
         Done ed \<Rightarrow> if signature_index cons1 0 = Some (length cons1 - 1) then Minus_1
                   else Done (diff_header (sha3_256 d1) (sha3_256 d2) @ ed)
       | _ \<Rightarrow> Minus_1) \<and>
    (\<forall>diff. consdiff_gen_diff cons1 cons2 d1 d2 = Done diff \<longrightarrow> consdiff_get_digests diff = Done (sha3_256 d1, sha3_256 d2))"
proof (cases "gen_ed_diff cons1 cons2")
  case Assertion_failed
  then show ?thesis using gen_ed_diff_safe by blast
next
  case Minus_1
  then show ?thesis by (simp add: consdiff_gen_diff_def)
next
  case (Done ed)
  then show ?thesis
    using consdiff_gen_diff_eq [OF Done assms] consdiff_get_digests_header [OF assms(2,3), of ed] by simp
qed

theorem gen_diff_self_check_witness:
  "consdiff_get_digests (diff_header (replicate 32 7) (replicate 32 9) @ [''2c'', ''c'', ''.'']) = Done (replicate 32 7, replicate 32 9)"
proof -
  let ?d1 = "\<lparr>sha3_256 = replicate 32 7\<rparr>" and ?d2 = "\<lparr>sha3_256 = replicate 32 9\<rparr>"
  have g: "gen_ed_diff [''a'', ''b''] [''a'', ''c''] = Done [''2c'', ''c'', ''.'']" by code_simp
  have s: "signature_index [''a'', ''b''] 0 = None" by code_simp
  have len: "int (length [''a'', ''b'']) \<le> INT32_MAX" "length (sha3_256 ?d1) = 32" "length (sha3_256 ?d2) = 32" by simp_all
  from gen_diff_self_check [OF len, of "[''a'', ''c'']"] show ?thesis unfolding g s by simp
qed

lemma length_lines_le: "length ls \<le> length (consensus_join_lines ls)"
  by (induction ls) simp_all

lemma set_join_lines: "c \<in> set (consensus_join_lines ls) \<longleftrightarrow> c = NL \<and> ls \<noteq> [] \<or> (\<exists>l\<in>set ls. c \<in> set l)"
  by (induction ls) auto

lemma apply_ed_diff_skip: "apply_ed_diff cons1 (h @ ed) (length h) = apply_ed_diff cons1 ed 0"
  by (simp add: apply_ed_diff_def)

lemma diff_header_plain: "length d1 = 32 \<Longrightarrow> length d2 = 32 \<Longrightarrow> list_all plain_line (diff_header d1 d2)"
  by (simp add: diff_header_def plain_line_def hash_line_plain length_hash_line CONSENSUS_LINE_MAX_LEN_def ns_diff_version_def)

lemma looks_like_header: "looks_like_a_consensus_diff (consensus_join_lines (diff_header d1 d2 @ ed))"
  by (simp add: looks_like_a_consensus_diff_def diff_header_def)

lemma apply_header:
  assumes "crypto_digest256 cons2 = Done h2" "length h1 = 32" "length h2 = 32" "NUL \<notin> set cons2"
    "cons2 = consensus_join_lines lines2" "apply_ed_diff lines1 ed 0 = Done lines2"
  shows "consdiff_apply_diff crypto_digest256 lines1 (diff_header h1 h2 @ ed) \<lparr>sha3_256 = h1\<rparr> = Done cons2"
proof -
  have "apply_ed_diff lines1 (diff_header h1 h2 @ ed) 2 = Done lines2"
    using apply_ed_diff_skip [of lines1 "diff_header h1 h2" ed] assms(6) by (simp add: diff_header_def numeral_2_eq_2)
  then show ?thesis
    by (simp add: consdiff_apply_diff_def consdiff_get_digests_header [OF assms(2,3)] consensus_digest_eq_def
        consensus_compute_digest_def assms(5) [symmetric] c_str_id [OF assms(4)] assms(1) Let_def)
qed

text \<open>C1: the round trip of consensus diffs.  For any SHA3-256 whose digests are 32 bytes long, when a diff from a
  document \<open>cons1\<close> to a document \<open>cons2\<close> without NUL is generated, it is a C string that looks like a consensus diff,
  and applying it to \<open>cons1\<close> gives exactly \<open>cons2\<close>.  Generating ends with a diff or an error, and fails none of the
  assertions of \<open>consdiff.c\<close>.\<close>

theorem consensus_diff_roundtrip:
  assumes digest: "\<And>x. crypto_digest256 x = Minus_1 \<or> (\<exists>d. crypto_digest256 x = Done d \<and> length d = 32)"
    and len: "int (length cons1) \<le> INT32_MAX" and nul: "NUL \<notin> set cons2"
  shows "consensus_diff_generate crypto_digest256 cons1 cons2 \<noteq> Assertion_failed \<and>
    (\<forall>diff. consensus_diff_generate crypto_digest256 cons1 cons2 = Done diff \<longrightarrow>
       consensus_diff_apply crypto_digest256 cons1 diff = Done cons2 \<and> looks_like_a_consensus_diff diff \<and> NUL \<notin> set diff)"
proof -
  define h1o where "h1o = router_get_networkstatus_v3_sha3_as_signed crypto_digest256 cons1"
  have h1o: "h1o = Minus_1 \<or> (\<exists>d. h1o = Done d \<and> length d = 32)"
    using digest by (simp add: h1o_def router_get_networkstatus_v3_sha3_as_signed_def split: prod.splits)
  show ?thesis
  proof (cases "h1o = Minus_1 \<or> crypto_digest256 cons2 = Minus_1 \<or> consensus_split_lines [] cons1 = Minus_1 \<or>
      consensus_split_lines [] cons2 = Minus_1")
    case True
    then show ?thesis
      using h1o digest [of cons2] consensus_split_lines_safe [of "[]" cons1] consensus_split_lines_safe [of "[]" cons2]
      by (cases "consensus_split_lines [] cons1"; cases "consensus_split_lines [] cons2")
        (auto simp: consensus_diff_generate_def consensus_compute_digest_def consensus_compute_digest_as_signed_def h1o_def [symmetric])
  next
    case False
    obtain h1 where h1: "h1o = Done h1" "length h1 = 32" using h1o False by blast
    obtain h2 where h2: "crypto_digest256 cons2 = Done h2" "length h2 = 32" using digest [of cons2] False by blast
    obtain l1 where l1: "consensus_split_lines [] cons1 = Done l1"
      using False consensus_split_lines_safe [of "[]" cons1] by (cases "consensus_split_lines [] cons1") auto
    obtain l2 where l2: "consensus_split_lines [] cons2 = Done l2"
      using False consensus_split_lines_safe [of "[]" cons2] by (cases "consensus_split_lines [] cons2") auto
    have j1: "cons1 = consensus_join_lines l1" using join_split_lines [OF l1] by auto
    have j2: "cons2 = consensus_join_lines l2" "document_lines l2" using join_split_lines [OF l2] by auto
    have n1: "int (length l1) \<le> INT32_MAX" using len length_lines_le [of l1] j1 by simp
    have p2: "list_all plain_line l2"
      using j2 nul by (auto simp: list_all_iff plain_line_def document_lines_def set_join_lines)
    have gen: "consensus_diff_generate crypto_digest256 cons1 cons2 =
        and_then (consdiff_gen_diff l1 l2 \<lparr>sha3_256 = h1\<rparr> \<lparr>sha3_256 = h2\<rparr>) (\<lambda>r. Done (consensus_join_lines r))"
      using h1(1) h2(1) l1 l2 by (simp add: consensus_diff_generate_def consensus_compute_digest_def
          consensus_compute_digest_as_signed_def h1o_def [symmetric])
    show ?thesis
    proof (cases "gen_ed_diff l1 l2")
      case Assertion_failed
      then show ?thesis using gen_ed_diff_safe by blast
    next
      case Minus_1
      then show ?thesis using gen by (simp add: consdiff_gen_diff_def)
    next
      case (Done ed)
      note eq = consdiff_gen_diff_eq [OF Done n1, of "\<lparr>sha3_256 = h1\<rparr>" "\<lparr>sha3_256 = h2\<rparr>"]
      show ?thesis
      proof (cases "signature_index l1 0 = Some (length l1 - 1)")
        case True
        then show ?thesis using gen eq h1(2) h2(2) by simp
      next
        case ok: False
        let ?r = "diff_header h1 h2 @ ed"
        have g: "consensus_diff_generate crypto_digest256 cons1 cons2 = Done (consensus_join_lines ?r)"
          using gen eq h1(2) h2(2) ok by simp
        have plain: "list_all plain_line ?r"
          using gen_ed_diff_plain [OF Done n1 p2] diff_header_plain [OF h1(2) h2(2)] by simp
        then have "document_lines ?r" by (auto simp: document_lines_def list_all_iff plain_line_def)
        then have "consensus_split_lines [] (consensus_join_lines ?r) = Done ?r" using split_join_lines [of ?r "[]"] by simp
        moreover have "apply_ed_diff l1 ed 0 = Done l2" using ed_diff_apply [OF n1 Done] ok by simp
        then have "consdiff_apply_diff crypto_digest256 l1 ?r \<lparr>sha3_256 = h1\<rparr> = Done cons2"
          using apply_header [where ?crypto_digest256.0 = crypto_digest256, OF h2(1) h1(2) h2(2) nul j2(1)] by blast
        ultimately have "consensus_diff_apply crypto_digest256 cons1 (consensus_join_lines ?r) = Done cons2"
          using h1(1) l1 by (simp add: consensus_diff_apply_def consensus_compute_digest_as_signed_def h1o_def [symmetric])
        moreover have "NUL \<notin> set (consensus_join_lines ?r)"
          using plain unfolding set_join_lines by (auto simp: list_all_iff plain_line_def)
        ultimately show ?thesis using g looks_like_header [of h1 h2 ed] by simp
      qed
    qed
  qed
qed

text \<open>A diff of two small documents, under a digest function that is constant.\<close>

lemma small_diff:
  assumes D: "length D = 32"
  shows "consensus_diff_generate (\<lambda>x. Done D) (''a'' @ [NL] @ ''b'' @ [NL]) (''a'' @ [NL] @ ''cde'' @ [NL]) =
      Done (consensus_join_lines (diff_header D D @ [''2c'', ''cde'', ''.'']))"
    "consensus_diff_apply (\<lambda>x. Done D) (''a'' @ [NL] @ ''b'' @ [NL]) (consensus_join_lines (diff_header D D @ [''2c'', ''cde'', ''.''])) =
      Done (''a'' @ [NL] @ ''cde'' @ [NL])"
proof -
  have l: "consensus_split_lines [] (''a'' @ [NL] @ ''b'' @ [NL]) = Done [''a'', ''b'']"
    "consensus_split_lines [] (''a'' @ [NL] @ ''cde'' @ [NL]) = Done [''a'', ''cde'']"
    using split_join_lines [of "[''a'', ''b'']" "[]"] split_join_lines [of "[''a'', ''cde'']" "[]"]
    by (simp_all add: document_lines_def CONSENSUS_LINE_MAX_LEN_def)
  have e: "gen_ed_diff [''a'', ''b''] [''a'', ''cde''] = Done [''2c'', ''cde'', ''.'']" by code_simp
  have s: "signature_index [''a'', ''b''] 0 = None" by code_simp
  have "consdiff_gen_diff [''a'', ''b''] [''a'', ''cde''] \<lparr>sha3_256 = D\<rparr> \<lparr>sha3_256 = D\<rparr> =
      Done (diff_header D D @ [''2c'', ''cde'', ''.''])"
    using consdiff_gen_diff_eq [OF e, of "\<lparr>sha3_256 = D\<rparr>" "\<lparr>sha3_256 = D\<rparr>"] s D
    by simp
  then show "consensus_diff_generate (\<lambda>x. Done D) (''a'' @ [NL] @ ''b'' @ [NL]) (''a'' @ [NL] @ ''cde'' @ [NL]) =
      Done (consensus_join_lines (diff_header D D @ [''2c'', ''cde'', ''.'']))"
    unfolding consensus_diff_generate_def l consensus_compute_digest_def consensus_compute_digest_as_signed_def
      router_get_networkstatus_v3_sha3_as_signed_def
    by (simp split: prod.split)
  have "list_all plain_line (diff_header D D @ [''2c'', ''cde'', ''.''])"
    using diff_header_plain [OF D D] by (simp add: plain_line_def CONSENSUS_LINE_MAX_LEN_def)
  then have "document_lines (diff_header D D @ [''2c'', ''cde'', ''.''])"
    by (auto simp: document_lines_def list_all_iff plain_line_def)
  then have r: "consensus_split_lines [] (consensus_join_lines (diff_header D D @ [''2c'', ''cde'', ''.''])) = Done (diff_header D D @ [''2c'', ''cde'', ''.''])"
    using split_join_lines [of _ "[]"] by simp
  have ap: "apply_ed_diff [''a'', ''b''] [''2c'', ''cde'', ''.''] 0 = Done [''a'', ''cde'']" by code_simp
  have "consdiff_apply_diff (\<lambda>x. Done D) [''a'', ''b''] (diff_header D D @ [''2c'', ''cde'', ''.'']) \<lparr>sha3_256 = D\<rparr> =
      Done (''a'' @ [NL] @ ''cde'' @ [NL])"
    by (rule apply_header [OF _ D D _ _ ap]) simp_all
  then show "consensus_diff_apply (\<lambda>x. Done D) (''a'' @ [NL] @ ''b'' @ [NL]) (consensus_join_lines (diff_header D D @ [''2c'', ''cde'', ''.''])) =
      Done (''a'' @ [NL] @ ''cde'' @ [NL])"
    unfolding consensus_diff_apply_def l r consensus_compute_digest_as_signed_def router_get_networkstatus_v3_sha3_as_signed_def
    by (simp split: prod.split)
qed

theorem consensus_diff_roundtrip_witness:
  "consensus_diff_apply (\<lambda>x. Done (replicate 32 7)) (''a'' @ [NL] @ ''b'' @ [NL])
     (consensus_join_lines (diff_header (replicate 32 7) (replicate 32 7) @ [''2c'', ''cde'', ''.''])) = Done (''a'' @ [NL] @ ''cde'' @ [NL])"
proof -
  define D :: bytes where "D = replicate 32 7"
  have D: "length D = 32" unfolding D_def by (rule length_replicate)
  let ?sha3 = "\<lambda>x :: string. Done D :: bytes outcome"
  have d: "?sha3 x = Minus_1 \<or> (\<exists>d. ?sha3 x = Done d \<and> length d = 32)" for x using D by blast
  have n: "int (length (''a'' @ [NL] @ ''b'' @ [NL])) \<le> INT32_MAX" "NUL \<notin> set (''a'' @ [NL] @ ''cde'' @ [NL])" by simp_all
  show ?thesis
    unfolding D_def [symmetric]
    by (rule consensus_diff_roundtrip [OF d n, THEN conjunct2, rule_format, OF small_diff(1) [OF D], THEN conjunct1])
qed

lemma and_then_Assertion:
  "and_then r f = Assertion_failed \<longleftrightarrow> r = Assertion_failed \<or> (\<exists>x. r = Done x \<and> f x = Assertion_failed)"
  by (cases r) simp_all

lemma base16_decode_safe: "base16_decode destlen s \<noteq> Assertion_failed"
proof -
  have "length bs = length t div 2" if "base16_decode_loop t = Some bs" for t bs
    using that by (induction t arbitrary: bs rule: base16_decode_loop.induct) (auto simp: Let_def split: if_splits)
  then show ?thesis by (auto simp: base16_decode_def Let_def split: option.splits)
qed

lemma get_digests_safe: "consdiff_get_digests diff \<noteq> Assertion_failed"
proof -
  obtain ws n where "smartlist_split_string [] (c_str (diff ! 1)) (Some '' '') no_flags 4 = Some (ws, n)"
    using split_loop_returns [of "Some '' ''" no_flags 4 "c_str (diff ! 1)" 0 "[]"] by (auto simp: smartlist_split_string_def)
  then show ?thesis
    by (auto simp: consdiff_get_digests_def Let_def base16_decode_safe and_then_Assertion split: if_splits)
qed

text \<open>C3: what applying a diff accepts.  For any document and any diff, however malformed, applying it ends with an
  error or with a document whose digest is the second digest in the header of the diff; and it does so only for a
  diff with the format line of this version, for which the base has the first digest in the header.\<close>

theorem applied_diff_is_checked:
  assumes "\<And>x. crypto_digest256 x \<noteq> Assertion_failed"
  shows "consensus_diff_apply crypto_digest256 cons diff \<noteq> Assertion_failed \<and>
    (\<forall>s. consensus_diff_apply crypto_digest256 cons diff = Done s \<longrightarrow>
       looks_like_a_consensus_diff diff \<and>
       (\<exists>ls h1 h2 g1 g2. consensus_split_lines [] diff = Done ls \<and> consdiff_get_digests ls = Done (h1, h2) \<and>
          router_get_networkstatus_v3_sha3_as_signed crypto_digest256 cons = Done g1 \<and> consensus_digest_eq g1 h1 \<and>
          crypto_digest256 (c_str s) = Done g2 \<and> consensus_digest_eq g2 h2))"
proof (intro conjI allI impI)
  have h: "router_get_networkstatus_v3_sha3_as_signed crypto_digest256 cons \<noteq> Assertion_failed"
    using assms by (simp add: router_get_networkstatus_v3_sha3_as_signed_def split: prod.splits)
  have a: "apply_ed_diff l ls 2 \<noteq> Assertion_failed" for l ls
    using apply_ed_diff_safe by blast
  show "consensus_diff_apply crypto_digest256 cons diff \<noteq> Assertion_failed"
    unfolding consensus_diff_apply_def consensus_compute_digest_as_signed_def consdiff_apply_diff_def consensus_compute_digest_def Let_def
    by (auto simp: and_then_Assertion h a assms consensus_split_lines_safe get_digests_safe split: if_splits)
next
  fix s assume "consensus_diff_apply crypto_digest256 cons diff = Done s"
  then obtain g1 l1 ls h1 h2 l2 g2 where d: "router_get_networkstatus_v3_sha3_as_signed crypto_digest256 cons = Done g1"
      "consensus_split_lines [] diff = Done ls" "consdiff_get_digests ls = Done (h1, h2)" "consensus_digest_eq g1 h1"
      "s = consensus_join_lines l2" "crypto_digest256 (c_str s) = Done g2" "consensus_digest_eq g2 h2"
    unfolding consensus_diff_apply_def consensus_compute_digest_as_signed_def consdiff_apply_diff_def consensus_compute_digest_def
    by (auto simp: and_then_Done Let_def split: if_splits)
  then show "\<exists>ls h1 h2 g1 g2. consensus_split_lines [] diff = Done ls \<and> consdiff_get_digests ls = Done (h1, h2) \<and>
      router_get_networkstatus_v3_sha3_as_signed crypto_digest256 cons = Done g1 \<and> consensus_digest_eq g1 h1 \<and>
      crypto_digest256 (c_str s) = Done g2 \<and> consensus_digest_eq g2 h2" by blast
  obtain l ls' where ls: "ls = l # ls'" "l = ns_diff_version"
    using d(3) by (cases ls) (auto simp: consdiff_get_digests_def split: if_splits)
  then show "looks_like_a_consensus_diff diff"
    using join_split_lines [OF d(2)] by (auto simp: looks_like_a_consensus_diff_def)
qed

lemma applied_diff_is_checked_witness:
  "\<exists>ls h1 h2 g2. consensus_split_lines [] (consensus_join_lines (diff_header (replicate 32 7) (replicate 32 7) @ [''2c'', ''cde'', ''.''])) = Done ls \<and>
     consdiff_get_digests ls = Done (h1, h2) \<and> Done (replicate 32 7) = Done g2 \<and> consensus_digest_eq g2 h2"
proof -
  define D :: bytes where "D = replicate 32 7"
  have D: "length D = 32" unfolding D_def by (rule length_replicate)
  have s: "(\<lambda>x :: string. Done D) x \<noteq> Assertion_failed" for x by simp
  show ?thesis
    unfolding D_def [symmetric]
    using applied_diff_is_checked [of "\<lambda>x. Done D", OF s, THEN conjunct2, rule_format, OF small_diff(2) [OF D]] by blast
qed

end
