(* ===== verification/Buffers.thy ===== *)
theory Buffers
  imports Bin_Ascii Util_String
begin

text \<open>
  The buffers of \<open>lib/buf/buffers.c\<close>: a buffer is a list of chunks, each a block of memory with a window of data
  in it; data is added at the end of the last chunk and taken from the first.

  The linked list is a list, its \<open>head\<close> and \<open>tail\<close> are its first and its last member, and NULL is the empty list.
  The memory of a chunk, its sentinel included, is a list of bytes; a pointer into it is an offset.  Sizes are
  natural numbers, with the wrap-around of \<open>size_t\<close> written out where a subtraction is not guarded.  What fresh memory holds and the
  readings of the coarse clock are the parameter \<open>platform\<close>.  The counter of allocated bytes is part of the state that
  is passed along.

  A failed assertion is \<open>Assertion_failed\<close>; so are an access outside the memory of a chunk and a loop that makes no
  progress, so that a result \<open>Done\<close> says that there is none.
\<close>

section \<open>Chunks\<close>

abbreviation BUF_MAX_LEN :: nat where "BUF_MAX_LEN \<equiv> 2147483646"
abbreviation CHUNK_HEADER_LEN :: nat where "CHUNK_HEADER_LEN \<equiv> 44"
abbreviation SENTINEL_LEN :: nat where "SENTINEL_LEN \<equiv> 4"
abbreviation CHUNK_OVERHEAD :: nat where "CHUNK_OVERHEAD \<equiv> CHUNK_HEADER_LEN + SENTINEL_LEN"

definition size_t_sub :: "nat \<Rightarrow> nat \<Rightarrow> nat" where
  "size_t_sub a b = nat ((int a - int b) mod 2 ^ 64)"

definition CHUNK_ALLOC_SIZE :: "nat \<Rightarrow> nat" where
  "CHUNK_ALLOC_SIZE memlen = CHUNK_OVERHEAD + memlen"

definition CHUNK_SIZE_WITH_ALLOC :: "nat \<Rightarrow> nat" where
  "CHUNK_SIZE_WITH_ALLOC memlen = size_t_sub memlen CHUNK_OVERHEAD"

record chunk_t =
  ch_datalen :: nat
  ch_memlen :: nat
  ch_DBG_alloc :: nat
  ch_data :: nat
  ch_inserted_time :: u32
  ch_mem :: bytes

definition BUFFER_MAGIC :: u32 where "BUFFER_MAGIC = 0xB0FFF312"

record buf_t =
  magic :: u32
  b_datalen :: nat
  default_chunk_size :: nat
  chunks :: "chunk_t list"

record alloc_state =
  total_bytes_allocated_in_chunks :: nat
  n_mallocs :: nat
  n_stamps :: nat

record platform =
  fresh_byte :: "nat \<Rightarrow> nat \<Rightarrow> u8"
  coarse_stamp :: "nat \<Rightarrow> u32"

definition read_mem :: "chunk_t \<Rightarrow> nat \<Rightarrow> nat \<Rightarrow> bytes outcome" where
  "read_mem chunk off n =
     (if off + n \<le> length (ch_mem chunk) then Done (take n (drop off (ch_mem chunk))) else Assertion_failed)"

definition write_mem :: "chunk_t \<Rightarrow> nat \<Rightarrow> bytes \<Rightarrow> chunk_t outcome" where
  "write_mem chunk off bs =
     (if off + length bs \<le> length (ch_mem chunk)
      then Done (chunk\<lparr>ch_mem := take off (ch_mem chunk) @ bs @ drop (off + length bs) (ch_mem chunk)\<rparr>)
      else Assertion_failed)"

definition CHUNK_REMAINING_CAPACITY :: "chunk_t \<Rightarrow> nat" where
  "CHUNK_REMAINING_CAPACITY chunk = size_t_sub (ch_memlen chunk) (ch_data chunk + ch_datalen chunk)"

definition CHUNK_WRITE_PTR :: "chunk_t \<Rightarrow> nat" where
  "CHUNK_WRITE_PTR chunk = ch_data chunk + ch_datalen chunk"

definition CHUNK_SET_SENTINEL :: "chunk_t \<Rightarrow> nat \<Rightarrow> chunk_t outcome" where
  "CHUNK_SET_SENTINEL chunk alloclen =
     (if \<not> CHUNK_HEADER_LEN + ch_memlen chunk = size_t_sub alloclen SENTINEL_LEN then Assertion_failed
      else write_mem chunk (ch_memlen chunk) (replicate SENTINEL_LEN 0))"

definition chunk_repack :: "chunk_t \<Rightarrow> chunk_t outcome" where
  "chunk_repack chunk =
     and_then (if ch_datalen chunk \<noteq> 0 \<and> ch_data chunk \<noteq> 0
               then and_then (read_mem chunk (ch_data chunk) (ch_datalen chunk)) (write_mem chunk 0)
               else Done chunk) (\<lambda>chunk. Done (chunk\<lparr>ch_data := 0\<rparr>))"

definition buf_chunk_free_unchecked :: "chunk_t \<Rightarrow> alloc_state \<Rightarrow> alloc_state outcome" where
  "buf_chunk_free_unchecked chunk s =
     (if \<not> CHUNK_ALLOC_SIZE (ch_memlen chunk) = ch_DBG_alloc chunk then Assertion_failed
      else if \<not> total_bytes_allocated_in_chunks s \<ge> CHUNK_ALLOC_SIZE (ch_memlen chunk) then Assertion_failed
      else Done (s\<lparr>total_bytes_allocated_in_chunks := total_bytes_allocated_in_chunks s - CHUNK_ALLOC_SIZE (ch_memlen chunk)\<rparr>))"

definition chunk_new_with_alloc_size :: "platform \<Rightarrow> nat \<Rightarrow> alloc_state \<Rightarrow> (chunk_t \<times> alloc_state) outcome" where
  "chunk_new_with_alloc_size E alloc s =
     and_then (CHUNK_SET_SENTINEL
        \<lparr>ch_datalen = 0, ch_memlen = CHUNK_SIZE_WITH_ALLOC alloc, ch_DBG_alloc = alloc, ch_data = 0, ch_inserted_time = 0,
         ch_mem = map (fresh_byte E (n_mallocs s)) [0..<alloc - CHUNK_HEADER_LEN]\<rparr> alloc) (\<lambda>ch.
       Done (ch, s\<lparr>n_mallocs := n_mallocs s + 1,
                   total_bytes_allocated_in_chunks := total_bytes_allocated_in_chunks s + alloc\<rparr>))"

definition chunk_grow :: "platform \<Rightarrow> chunk_t \<Rightarrow> nat \<Rightarrow> alloc_state \<Rightarrow> (chunk_t \<times> alloc_state) outcome" where
  "chunk_grow E chunk sz s =
     (let orig_alloc = CHUNK_ALLOC_SIZE (ch_memlen chunk); new_alloc = CHUNK_ALLOC_SIZE sz
      in if \<not> sz > ch_memlen chunk then Assertion_failed
         else let mem = ch_mem chunk @ map (fresh_byte E (n_mallocs s)) [length (ch_mem chunk)..<new_alloc - CHUNK_HEADER_LEN];
                  s = s\<lparr>n_mallocs := n_mallocs s + 1\<rparr>
              in if \<not> ch_DBG_alloc chunk = orig_alloc then Assertion_failed
                 else and_then (CHUNK_SET_SENTINEL (chunk\<lparr>ch_mem := mem, ch_memlen := sz, ch_DBG_alloc := new_alloc\<rparr>) new_alloc) (\<lambda>chunk.
                        Done (chunk, s\<lparr>total_bytes_allocated_in_chunks :=
                                total_bytes_allocated_in_chunks s + (new_alloc - orig_alloc)\<rparr>)))"

definition MIN_CHUNK_ALLOC :: nat where "MIN_CHUNK_ALLOC = 256"
definition MAX_CHUNK_ALLOC :: nat where "MAX_CHUNK_ALLOC = 65536"

text \<open>The size after \<open>k\<close> doublings.\<close>

function preferred_size_loop :: "nat \<Rightarrow> nat \<Rightarrow> nat" where
  "preferred_size_loop k target =
     (if MIN_CHUNK_ALLOC * 2 ^ k - CHUNK_OVERHEAD < target then preferred_size_loop (k + 1) target
      else MIN_CHUNK_ALLOC * 2 ^ k)"
  by pat_completeness auto
termination
proof (relation "measure (\<lambda>(k, target). target + CHUNK_OVERHEAD - MIN_CHUNK_ALLOC * 2 ^ k)", goal_cases)
  case (2 k target)
  have "(2 :: nat) ^ k > 0" by simp
  then have "256 * 2 ^ k < (512 :: nat) * 2 ^ k" "256 * 2 ^ k < target + 48" using 2 by (auto simp: MIN_CHUNK_ALLOC_def)
  then have "target + 48 - 512 * 2 ^ k < target + 48 - 256 * 2 ^ k" by (intro diff_less_mono2)
  then show ?case by (simp add: MIN_CHUNK_ALLOC_def)
qed simp

declare preferred_size_loop.simps [simp del]

definition buf_preferred_chunk_size :: "nat \<Rightarrow> nat outcome" where
  "buf_preferred_chunk_size target =
     (if \<not> target \<le> SIZE_T_CEILING - CHUNK_OVERHEAD then Assertion_failed
      else if CHUNK_ALLOC_SIZE target \<ge> MAX_CHUNK_ALLOC then Done (CHUNK_ALLOC_SIZE target)
      else Done (preferred_size_loop 0 target))"

section \<open>Buffers\<close>

definition buf_new :: buf_t where
  "buf_new = \<lparr>magic = BUFFER_MAGIC, b_datalen = 0, default_chunk_size = 4096, chunks = []\<rparr>"

definition buf_new_with_capacity :: "nat \<Rightarrow> buf_t outcome" where
  "buf_new_with_capacity sz = and_then (buf_preferred_chunk_size sz) (\<lambda>n. Done (buf_new\<lparr>default_chunk_size := n\<rparr>))"

definition buf_get_default_chunk_size :: "buf_t \<Rightarrow> nat" where
  "buf_get_default_chunk_size buf = default_chunk_size buf"

fun free_chunks :: "chunk_t list \<Rightarrow> alloc_state \<Rightarrow> alloc_state outcome" where
  "free_chunks [] s = Done s"
| "free_chunks (ch # cs) s = and_then (buf_chunk_free_unchecked ch s) (free_chunks cs)"

definition buf_clear :: "buf_t \<Rightarrow> alloc_state \<Rightarrow> (buf_t \<times> alloc_state) outcome" where
  "buf_clear buf s = and_then (free_chunks (chunks buf) s) (\<lambda>s. Done (buf\<lparr>b_datalen := 0, chunks := []\<rparr>, s))"

definition buf_free :: "buf_t option \<Rightarrow> alloc_state \<Rightarrow> alloc_state outcome" where
  "buf_free buf s = (case buf of None \<Rightarrow> Done s | Some b \<Rightarrow> and_then (buf_clear b s) (\<lambda>(b, s). Done s))"

definition buf_datalen :: "buf_t \<Rightarrow> nat" where
  "buf_datalen buf = b_datalen buf"

definition buf_allocation :: "buf_t \<Rightarrow> nat" where
  "buf_allocation buf = sum_list (map (\<lambda>ch. CHUNK_ALLOC_SIZE (ch_memlen ch)) (chunks buf))"

definition buf_slack :: "buf_t \<Rightarrow> nat" where
  "buf_slack buf = (if chunks buf = [] then 0 else CHUNK_REMAINING_CAPACITY (last (chunks buf)))"

definition chunk_copy :: "chunk_t \<Rightarrow> alloc_state \<Rightarrow> chunk_t \<times> alloc_state" where
  "chunk_copy in_chunk s =
     (in_chunk\<lparr>ch_DBG_alloc := CHUNK_ALLOC_SIZE (ch_memlen in_chunk)\<rparr>,
      s\<lparr>n_mallocs := n_mallocs s + 1,
        total_bytes_allocated_in_chunks := total_bytes_allocated_in_chunks s + CHUNK_ALLOC_SIZE (ch_memlen in_chunk)\<rparr>)"

fun copy_chunks :: "chunk_t list \<Rightarrow> chunk_t list \<Rightarrow> alloc_state \<Rightarrow> chunk_t list \<times> alloc_state" where
  "copy_chunks [] out s = (out, s)"
| "copy_chunks (ch # cs) out s = (let (newch, s) = chunk_copy ch s in copy_chunks cs (out @ [newch]) s)"

definition buf_copy :: "buf_t \<Rightarrow> alloc_state \<Rightarrow> buf_t \<times> alloc_state" where
  "buf_copy buf s =
     (let out = buf_new\<lparr>default_chunk_size := default_chunk_size buf\<rparr>; (cs, s) = copy_chunks (chunks buf) [] s
      in (out\<lparr>chunks := cs, b_datalen := b_datalen buf\<rparr>, s))"

definition buf_add_chunk_with_capacity ::
    "platform \<Rightarrow> buf_t \<Rightarrow> nat \<Rightarrow> bool \<Rightarrow> alloc_state \<Rightarrow> (buf_t \<times> alloc_state) outcome" where
  "buf_add_chunk_with_capacity E buf capacity capped s =
     and_then (if CHUNK_ALLOC_SIZE capacity < default_chunk_size buf then chunk_new_with_alloc_size E (default_chunk_size buf) s
               else if capped \<and> CHUNK_ALLOC_SIZE capacity > MAX_CHUNK_ALLOC then chunk_new_with_alloc_size E MAX_CHUNK_ALLOC s
               else and_then (buf_preferred_chunk_size capacity) (\<lambda>n. chunk_new_with_alloc_size E n s)) (\<lambda>(chunk, s).
       let chunk = chunk\<lparr>ch_inserted_time := coarse_stamp E (n_stamps s)\<rparr>; s = s\<lparr>n_stamps := n_stamps s + 1\<rparr>
       in Done (buf\<lparr>chunks := chunks buf @ [chunk]\<rparr>, s))"

definition buf_get_oldest_chunk_timestamp :: "buf_t \<Rightarrow> u32 \<Rightarrow> u32" where
  "buf_get_oldest_chunk_timestamp buf now = (case chunks buf of [] \<Rightarrow> 0 | ch # _ \<Rightarrow> now - ch_inserted_time ch)"

definition buf_get_total_allocation :: "alloc_state \<Rightarrow> nat" where
  "buf_get_total_allocation s = total_bytes_allocated_in_chunks s"

section \<open>Adding and taking data\<close>

definition write_tail :: "buf_t \<Rightarrow> bytes \<Rightarrow> buf_t outcome" where
  "write_tail buf bs =
     and_then (write_mem (last (chunks buf)) (CHUNK_WRITE_PTR (last (chunks buf))) bs) (\<lambda>ch.
       Done (buf\<lparr>b_datalen := b_datalen buf + length bs,
                 chunks := butlast (chunks buf) @ [ch\<lparr>ch_datalen := ch_datalen ch + length bs\<rparr>]\<rparr>))"

function buf_add_loop :: "platform \<Rightarrow> buf_t \<Rightarrow> bytes \<Rightarrow> alloc_state \<Rightarrow> (buf_t \<times> alloc_state) outcome" where
  "buf_add_loop E buf string s =
     (if string = [] then Done (buf, s)
      else and_then (if chunks buf = [] \<or> CHUNK_REMAINING_CAPACITY (last (chunks buf)) = 0
                     then buf_add_chunk_with_capacity E buf (length string) True s else Done (buf, s)) (\<lambda>(buf, s).
           let copy = CHUNK_REMAINING_CAPACITY (last (chunks buf));
               copy = (if copy > length string then length string else copy)
           in if copy = 0 then Assertion_failed
              else and_then (write_tail buf (take copy string)) (\<lambda>buf. buf_add_loop E buf (drop copy string) s)))"
  by pat_completeness auto
termination by (relation "measure (\<lambda>(E, buf, string, s). length string)") (auto simp: Let_def)

declare buf_add_loop.simps [simp del]

text \<open>The first result is the value the code returns, \<open>-1\<close> included.  In \<open>BUF_MAX_LEN - string_len\<close> both sides are
  of type \<open>size_t\<close>, so that the difference wraps around for a longer string.\<close>

definition buf_add :: "platform \<Rightarrow> buf_t \<Rightarrow> bytes \<Rightarrow> alloc_state \<Rightarrow> (int \<times> buf_t \<times> alloc_state) outcome" where
  "buf_add E buf string s =
     (let string_len = length string
      in if string_len = 0 then Done (int (b_datalen buf), buf, s)
         else if b_datalen buf > BUF_MAX_LEN then Done (- 1, buf, s)
         else if b_datalen buf > size_t_sub BUF_MAX_LEN string_len then Done (- 1, buf, s)
         else and_then (buf_add_loop E buf string s) (\<lambda>(buf, s).
                if \<not> b_datalen buf \<le> BUF_MAX_LEN then Assertion_failed else Done (int (b_datalen buf), buf, s)))"

text \<open>The string is given with all the bytes of its array; the C string ends at the first NUL.\<close>

definition buf_add_string :: "platform \<Rightarrow> buf_t \<Rightarrow> bytes \<Rightarrow> alloc_state \<Rightarrow> (buf_t \<times> alloc_state) outcome" where
  "buf_add_string E buf string s = and_then (buf_add E buf (takeWhile (\<lambda>b. b \<noteq> 0) string) s) (\<lambda>(r, buf, s). Done (buf, s))"

fun peek_loop :: "chunk_t list \<Rightarrow> nat \<Rightarrow> bytes \<Rightarrow> bytes outcome" where
  "peek_loop [] string_len string = (if string_len = 0 then Done string else Assertion_failed)"
| "peek_loop (chunk # cs) string_len string =
     (if string_len = 0 then Done string
      else let copy = (if ch_datalen chunk < string_len then ch_datalen chunk else string_len)
           in and_then (read_mem chunk (ch_data chunk) copy) (\<lambda>bs. peek_loop cs (string_len - copy) (string @ bs)))"

definition buf_peek :: "buf_t \<Rightarrow> nat \<Rightarrow> bytes outcome" where
  "buf_peek buf string_len =
     (if \<not> string_len \<le> b_datalen buf then Assertion_failed else peek_loop (chunks buf) string_len [])"

definition buf_extract :: "buf_t \<Rightarrow> (bytes \<times> nat) outcome" where
  "buf_extract buf = (let sz = buf_datalen buf in and_then (buf_peek buf sz) (\<lambda>result. Done (result @ [0], sz)))"

fun drain_loop :: "chunk_t list \<Rightarrow> nat \<Rightarrow> nat \<Rightarrow> alloc_state \<Rightarrow> (chunk_t list \<times> nat \<times> alloc_state) outcome" where
  "drain_loop [] n datalen s = (if n = 0 then Done ([], datalen, s) else Assertion_failed)"
| "drain_loop (ch # cs) n datalen s =
     (if n = 0 then Done (ch # cs, datalen, s)
      else if ch_datalen ch > n
      then Done (ch\<lparr>ch_datalen := ch_datalen ch - n, ch_data := ch_data ch + n\<rparr> # cs, size_t_sub datalen n, s)
      else and_then (buf_chunk_free_unchecked ch s) (\<lambda>s.
             drain_loop cs (n - ch_datalen ch) (size_t_sub datalen (ch_datalen ch)) s))"

definition buf_drain :: "buf_t \<Rightarrow> nat \<Rightarrow> alloc_state \<Rightarrow> (buf_t \<times> alloc_state) outcome" where
  "buf_drain buf n s =
     (if \<not> b_datalen buf \<ge> n then Assertion_failed
      else and_then (drain_loop (chunks buf) n (b_datalen buf) s) (\<lambda>(cs, datalen, s).
             Done (buf\<lparr>chunks := cs, b_datalen := datalen\<rparr>, s)))"

definition buf_get_bytes :: "buf_t \<Rightarrow> nat \<Rightarrow> alloc_state \<Rightarrow> (int \<times> bytes \<times> buf_t \<times> alloc_state) outcome" where
  "buf_get_bytes buf string_len s =
     and_then (buf_peek buf string_len) (\<lambda>string.
     and_then (buf_drain buf string_len s) (\<lambda>(buf, s).
       if \<not> b_datalen buf \<le> BUF_MAX_LEN then Assertion_failed else Done (int (b_datalen buf), string, buf, s)))"

text \<open>\<open>buf_move_to_buf\<close> copies through an array of 4096 bytes.\<close>

function move_loop :: "platform \<Rightarrow> buf_t \<Rightarrow> buf_t \<Rightarrow> nat \<Rightarrow> alloc_state \<Rightarrow> (buf_t \<times> buf_t \<times> alloc_state) outcome" where
  "move_loop E buf_out buf_in len s =
     (if len = 0 then Done (buf_out, buf_in, s)
      else let n = (if len > 4096 then 4096 else len)
           in and_then (buf_get_bytes buf_in n s) (\<lambda>(r, b, buf_in, s).
              and_then (buf_add E buf_out b s) (\<lambda>(r, buf_out, s). move_loop E buf_out buf_in (len - n) s)))"
  by pat_completeness auto
termination by (relation "measure (\<lambda>(E, out, i, len, s). len)") auto

declare move_loop.simps [simp del]

text \<open>The returned value, the remaining \<open>buf_flushlen\<close>, and the buffers.\<close>

definition buf_move_to_buf ::
    "platform \<Rightarrow> buf_t \<Rightarrow> buf_t \<Rightarrow> nat \<Rightarrow> alloc_state \<Rightarrow> (int \<times> nat \<times> buf_t \<times> buf_t \<times> alloc_state) outcome" where
  "buf_move_to_buf E buf_out buf_in buf_flushlen s =
     (if b_datalen buf_out > BUF_MAX_LEN \<or> buf_flushlen > BUF_MAX_LEN then Done (- 1, buf_flushlen, buf_out, buf_in, s)
      else if b_datalen buf_out > BUF_MAX_LEN - buf_flushlen then Done (- 1, buf_flushlen, buf_out, buf_in, s)
      else let len = (if buf_flushlen > b_datalen buf_in then b_datalen buf_in else buf_flushlen); cp = len
           in if \<not> cp \<le> BUF_MAX_LEN then Assertion_failed
              else and_then (move_loop E buf_out buf_in len s) (\<lambda>(buf_out, buf_in, s).
                     Done (int cp, buf_flushlen - cp, buf_out, buf_in, s)))"

definition buf_move_all :: "buf_t \<Rightarrow> buf_t option \<Rightarrow> nat \<times> buf_t \<times> buf_t option" where
  "buf_move_all buf_out buf_in =
     (case buf_in of
        None \<Rightarrow> (0, buf_out, None)
      | Some b \<Rightarrow>
          if buf_datalen b = 0 then (0, buf_out, Some b)
          else if b_datalen buf_out > BUF_MAX_LEN \<or> b_datalen b > BUF_MAX_LEN then (0, buf_out, Some b)
          else if b_datalen buf_out > BUF_MAX_LEN - b_datalen b then (0, buf_out, Some b)
          else let n_bytes_moved = b_datalen b
               in (n_bytes_moved,
                   buf_out\<lparr>chunks := (if chunks buf_out = [] then chunks b else chunks buf_out @ chunks b),
                           b_datalen := b_datalen buf_out + b_datalen b\<rparr>,
                   Some (b\<lparr>chunks := [], b_datalen := 0\<rparr>)))"

section \<open>Contiguous data\<close>

fun pullup_loop :: "chunk_t \<Rightarrow> chunk_t list \<Rightarrow> nat \<Rightarrow> alloc_state \<Rightarrow> (chunk_t \<times> chunk_t list \<times> alloc_state) outcome" where
  "pullup_loop dest [] bytes s = (if ch_datalen dest < bytes then Assertion_failed else Done (dest, [], s))"
| "pullup_loop dest (src # cs) bytes s =
     (if ch_datalen dest < bytes then
        (let n = bytes - ch_datalen dest
         in if n \<ge> ch_datalen src then
              and_then (read_mem src (ch_data src) (ch_datalen src)) (\<lambda>bs.
              and_then (write_mem dest (CHUNK_WRITE_PTR dest) bs) (\<lambda>dest.
              and_then (buf_chunk_free_unchecked src s) (\<lambda>s.
                pullup_loop (dest\<lparr>ch_datalen := ch_datalen dest + ch_datalen src\<rparr>) cs bytes s)))
            else
              and_then (read_mem src (ch_data src) n) (\<lambda>bs.
              and_then (write_mem dest (CHUNK_WRITE_PTR dest) bs) (\<lambda>dest.
                let dest = dest\<lparr>ch_datalen := ch_datalen dest + n\<rparr>;
                    src = src\<lparr>ch_data := ch_data src + n, ch_datalen := ch_datalen src - n\<rparr>
                in if \<not> ch_datalen dest = bytes then Assertion_failed else Done (dest, src # cs, s))))
      else Done (dest, src # cs, s))"

definition pullup_head :: "platform \<Rightarrow> chunk_t \<Rightarrow> nat \<Rightarrow> alloc_state \<Rightarrow> (chunk_t \<times> alloc_state) outcome" where
  "pullup_head E head capacity s =
     (if ch_memlen head \<ge> capacity then
        (let needed = size_t_sub capacity (ch_datalen head)
         in and_then (if CHUNK_REMAINING_CAPACITY head < needed then chunk_repack head else Done head) (\<lambda>head.
              if \<not> CHUNK_REMAINING_CAPACITY head \<ge> needed then Assertion_failed else Done (head, s)))
      else
        and_then (chunk_repack head) (\<lambda>head.
        and_then (buf_preferred_chunk_size capacity) (\<lambda>n.
          let newsize = CHUNK_SIZE_WITH_ALLOC n
          in and_then (chunk_grow E head newsize s) (\<lambda>(newhead, s).
               if \<not> ch_memlen newhead \<ge> capacity then Assertion_failed else Done (newhead, s)))))"

text \<open>The result gives where in the memory of the first chunk the data begins, or \<open>None\<close> for NULL, and its length.\<close>

definition buf_pullup :: "platform \<Rightarrow> buf_t \<Rightarrow> nat \<Rightarrow> alloc_state \<Rightarrow> (nat option \<times> nat \<times> buf_t \<times> alloc_state) outcome" where
  "buf_pullup E buf bytes s =
     (case chunks buf of
        [] \<Rightarrow> Done (None, 0, buf, s)
      | head # cs \<Rightarrow>
          (let bytes = (if b_datalen buf < bytes then b_datalen buf else bytes); capacity = bytes
           in if ch_datalen head \<ge> bytes then Done (Some (ch_data head), ch_datalen head, buf, s)
              else and_then (pullup_head E head capacity s) (\<lambda>(head, s).
                   and_then (pullup_loop head cs bytes s) (\<lambda>(head, cs, s).
                     Done (Some (ch_data head), ch_datalen head, buf\<lparr>chunks := head # cs\<rparr>, s)))))"

section \<open>Searching\<close>

text \<open>A position: the chunk with those after it (none for NULL), the index in the data of the chunk, and the length of
  all previous chunks.\<close>

record buf_pos_t =
  bp_chunk :: "chunk_t list"
  bp_pos :: nat
  bp_chunk_pos :: nat

definition buf_pos_init :: "buf_t \<Rightarrow> buf_pos_t" where
  "buf_pos_init buf = \<lparr>bp_chunk = chunks buf, bp_pos = 0, bp_chunk_pos = 0\<rparr>"

text \<open>The result is the position found, or none, and the new state of \<open>out\<close>.\<close>

fun find_char_loop :: "u8 \<Rightarrow> chunk_t list \<Rightarrow> nat \<Rightarrow> buf_pos_t \<Rightarrow> (nat option \<times> buf_pos_t) outcome" where
  "find_char_loop ch [] pos out = Done (None, out)"
| "find_char_loop ch (chunk # cs) pos out =
     and_then (read_mem chunk (ch_data chunk + pos) (size_t_sub (ch_datalen chunk) pos)) (\<lambda>bs.
       case memchr bs ch of
         Some k \<Rightarrow>
           if \<not> pos + k \<le> BUF_MAX_LEN then Assertion_failed
           else Done (Some (bp_chunk_pos out + (pos + k)), out\<lparr>bp_chunk := chunk # cs, bp_pos := pos + k\<rparr>)
       | None \<Rightarrow> find_char_loop ch cs 0 (out\<lparr>bp_chunk_pos := bp_chunk_pos out + ch_datalen chunk\<rparr>))"

definition buf_find_pos_of_char :: "u8 \<Rightarrow> buf_pos_t \<Rightarrow> (nat option \<times> buf_pos_t) outcome" where
  "buf_find_pos_of_char ch out =
     (if (case bp_chunk out of
            [] \<Rightarrow> False
          | chunk # _ \<Rightarrow> if ch_datalen chunk \<noteq> 0 then \<not> bp_pos out < ch_datalen chunk else \<not> bp_pos out = 0)
      then Assertion_failed
      else find_char_loop ch (bp_chunk out) (bp_pos out) out)"

text \<open>The result is whether the position could be advanced; in either case it is a new position.\<close>

definition buf_pos_inc :: "buf_pos_t \<Rightarrow> (bool \<times> buf_pos_t) outcome" where
  "buf_pos_inc pos =
     (if \<not> bp_pos pos < BUF_MAX_LEN then Assertion_failed
      else let pos = pos\<lparr>bp_pos := bp_pos pos + 1\<rparr>
           in case bp_chunk pos of
                [] \<Rightarrow> Assertion_failed
              | chunk # cs \<Rightarrow>
                  if bp_pos pos = ch_datalen chunk then
                    (if cs = [] then Done (False, pos)
                     else Done (True, pos\<lparr>bp_chunk_pos := bp_chunk_pos pos + ch_datalen chunk, bp_chunk := cs, bp_pos := 0\<rparr>))
                  else Done (True, pos))"

fun buf_matches_at_pos :: "buf_pos_t \<Rightarrow> bytes \<Rightarrow> bool outcome" where
  "buf_matches_at_pos p [] = Done True"
| "buf_matches_at_pos p (c # s) =
     (case bp_chunk p of
        [] \<Rightarrow> Assertion_failed
      | chunk # cs \<Rightarrow>
          and_then (read_mem chunk (ch_data chunk + bp_pos p) 1) (\<lambda>ch.
            if hd ch \<noteq> c then Done False
            else if s = [] then Done True
            else and_then (buf_pos_inc p) (\<lambda>(ok, p). if \<not> ok then Done False else buf_matches_at_pos p s)))"

definition pos_left :: "buf_pos_t \<Rightarrow> nat" where
  "pos_left p = sum_list (map (\<lambda>ch. ch_datalen ch + 1) (bp_chunk p)) - bp_pos p"

lemma size_t_sub_le: "b \<le> a \<Longrightarrow> size_t_sub a b \<le> a - b"
  using zmod_le_nonneg_dividend [of "int a - int b" "2 ^ 64"] by (auto simp: size_t_sub_def)

lemma find_char_loop_found:
  "find_char_loop ch cs pos out = Done (Some n, q) \<Longrightarrow> (cs \<noteq> [] \<longrightarrow> pos \<le> ch_datalen (hd cs)) \<Longrightarrow>
     (\<exists>chunk cs'. bp_chunk q = chunk # cs' \<and> bp_pos q < ch_datalen chunk) \<and>
     pos_left q \<le> sum_list (map (\<lambda>ch. ch_datalen ch + 1) cs) - pos"
proof (induction ch cs pos out rule: find_char_loop.induct)
  case (2 ch chunk cs pos out)
  obtain bs where bs: "read_mem chunk (ch_data chunk + pos) (size_t_sub (ch_datalen chunk) pos) = Done bs"
    using "2.prems"(1) by (auto simp: and_then_Done)
  have len: "length bs \<le> ch_datalen chunk - pos"
    using bs size_t_sub_le [of pos "ch_datalen chunk"] "2.prems"(2) by (auto simp: read_mem_def split: if_splits)
  show ?case
  proof (cases "memchr bs ch")
    case None
    then have "find_char_loop ch cs 0 (out\<lparr>bp_chunk_pos := bp_chunk_pos out + ch_datalen chunk\<rparr>) = Done (Some n, q)"
      using "2.prems"(1) bs by simp
    from "2.IH" [OF bs None this] show ?thesis using "2.prems"(2) by auto
  next
    case (Some k)
    then have "q = out\<lparr>bp_chunk := chunk # cs, bp_pos := pos + k\<rparr>" using "2.prems"(1) bs by (auto split: if_splits)
    moreover have "k < length bs" using memchr_less [OF Some] by simp
    ultimately show ?thesis using len by (auto simp: pos_left_def)
  qed
qed simp

lemma find_pos_found:
  "buf_find_pos_of_char ch p = Done (Some n, q) \<Longrightarrow>
     (\<exists>chunk cs. bp_chunk q = chunk # cs \<and> bp_pos q < ch_datalen chunk) \<and> pos_left q \<le> pos_left p"
  using find_char_loop_found [of ch "bp_chunk p" "bp_pos p" p n q]
  by (cases "bp_chunk p") (auto simp: buf_find_pos_of_char_def pos_left_def split: if_splits)

lemma pos_inc_less:
  "buf_pos_inc q = Done (ok, r) \<Longrightarrow> bp_chunk q = chunk # cs \<Longrightarrow> bp_pos q < ch_datalen chunk \<Longrightarrow> pos_left r < pos_left q"
  by (auto simp: buf_pos_inc_def pos_left_def Let_def split: if_splits)

text \<open>The result is the position or none, for \<open>-1\<close>.\<close>

function find_string_loop :: "buf_pos_t \<Rightarrow> bytes \<Rightarrow> nat option outcome" where
  "find_string_loop pos s =
     and_then (buf_find_pos_of_char (case s of [] \<Rightarrow> 0 | c # _ \<Rightarrow> c) pos) (\<lambda>(r, pos).
       case r of
         None \<Rightarrow> Done None
       | Some n \<Rightarrow>
           and_then (buf_matches_at_pos pos s) (\<lambda>found.
             if found then
               (if \<not> bp_chunk_pos pos + bp_pos pos \<le> BUF_MAX_LEN then Assertion_failed
                else Done (Some (bp_chunk_pos pos + bp_pos pos)))
             else and_then (buf_pos_inc pos) (\<lambda>(ok, pos). if \<not> ok then Done None else find_string_loop pos s)))"
  by pat_completeness auto
termination
  by (relation "measure (\<lambda>(pos, s). pos_left pos)")
    (auto dest!: find_pos_found pos_inc_less [rotated] dest: sym intro: less_le_trans)

declare find_string_loop.simps [simp del]

definition buf_find_string_offset :: "buf_t \<Rightarrow> bytes \<Rightarrow> nat option outcome" where
  "buf_find_string_offset buf s = find_string_loop (buf_pos_init buf) s"

definition PEEK_BUF_STARTSWITH_MAX :: nat where "PEEK_BUF_STARTSWITH_MAX = 16"

definition buf_peek_startswith :: "buf_t \<Rightarrow> bytes \<Rightarrow> bool outcome" where
  "buf_peek_startswith buf cmd =
     (let cmd = takeWhile (\<lambda>b. b \<noteq> 0) cmd; clen = length cmd
      in if clen = 0 then Done True
         else if clen > PEEK_BUF_STARTSWITH_MAX then Done False
         else if b_datalen buf < clen then Done False
         else and_then (buf_peek buf clen) (\<lambda>tmp. Done (tmp = cmd)))"

fun find_offset_loop :: "u8 \<Rightarrow> chunk_t list \<Rightarrow> nat \<Rightarrow> nat option outcome" where
  "find_offset_loop ch [] offset = Done None"
| "find_offset_loop ch (chunk # cs) offset =
     and_then (read_mem chunk (ch_data chunk) (ch_datalen chunk)) (\<lambda>bs.
       case memchr bs ch of
         Some k \<Rightarrow> Done (Some (offset + k))
       | None \<Rightarrow> find_offset_loop ch cs (offset + ch_datalen chunk))"

definition buf_find_offset_of_char :: "buf_t \<Rightarrow> u8 \<Rightarrow> nat option outcome" where
  "buf_find_offset_of_char buf ch =
     (if \<not> b_datalen buf \<le> BUF_MAX_LEN then Assertion_failed else find_offset_loop ch (chunks buf) 0)"

text \<open>The returned value, what is written to \<open>data_out\<close>, the new \<open>data_len\<close>, and the buffer.\<close>

definition buf_get_line :: "buf_t \<Rightarrow> nat \<Rightarrow> alloc_state \<Rightarrow> (int \<times> bytes \<times> nat \<times> buf_t \<times> alloc_state) outcome" where
  "buf_get_line buf data_len s =
     (if chunks buf = [] then Done (0, [], data_len, buf, s)
      else and_then (buf_find_offset_of_char buf 10) (\<lambda>offset.
             case offset of
               None \<Rightarrow> Done (0, [], data_len, buf, s)
             | Some sz \<Rightarrow>
                 if sz + 2 > data_len then Done (- 1, [], sz + 2, buf, s)
                 else and_then (buf_get_bytes buf (sz + 1) s) (\<lambda>(r, bs, buf, s). Done (1, bs @ [0], sz + 1, buf, s))))"

definition buf_set_to_copy :: "buf_t option \<Rightarrow> buf_t \<Rightarrow> alloc_state \<Rightarrow> (buf_t \<times> alloc_state) outcome" where
  "buf_set_to_copy output inp s = and_then (buf_free output s) (\<lambda>s. Done (buf_copy inp s))"

definition chunk_assert_ok :: "chunk_t \<Rightarrow> bool" where
  "chunk_assert_ok ch \<longleftrightarrow> ch_datalen ch \<le> ch_memlen ch \<and> ch_datalen ch \<le> BUF_MAX_LEN \<and> ch_data ch \<le> ch_memlen ch \<and>
     ch_data ch + ch_datalen ch \<le> ch_memlen ch"

definition buf_assert_ok :: "buf_t \<Rightarrow> bool" where
  "buf_assert_ok buf \<longleftrightarrow> magic buf = BUFFER_MAGIC \<and>
     (if chunks buf = [] then b_datalen buf = 0
      else list_all chunk_assert_ok (chunks buf) \<and> b_datalen buf = sum_list (map ch_datalen (chunks buf)))"

section \<open>Chunks in order\<close>

definition ch_bytes :: "chunk_t \<Rightarrow> bytes" where
  "ch_bytes c = take (ch_datalen c) (drop (ch_data c) (ch_mem c))"

definition chunk_ok :: "chunk_t \<Rightarrow> bool" where
  "chunk_ok c \<longleftrightarrow> ch_data c + ch_datalen c \<le> ch_memlen c \<and> length (ch_mem c) = ch_memlen c + SENTINEL_LEN \<and>
     drop (ch_memlen c) (ch_mem c) = replicate SENTINEL_LEN 0 \<and> ch_DBG_alloc c = CHUNK_ALLOC_SIZE (ch_memlen c) \<and>
     CHUNK_ALLOC_SIZE (ch_memlen c) \<le> SIZE_T_CEILING"

lemma size_t_sub_eq: "b \<le> a \<Longrightarrow> a < 2 ^ 64 \<Longrightarrow> size_t_sub a b = a - b"
  by (simp add: size_t_sub_def nat_diff_distrib')

lemma ceiling_less: "SIZE_T_CEILING < 2 ^ 64"
  by (simp add: SIZE_T_CEILING_def)

lemma chunk_ok_bounds:
  assumes "chunk_ok c"
  shows "ch_data c + ch_datalen c \<le> ch_memlen c" "length (ch_mem c) = ch_memlen c + SENTINEL_LEN"
    "ch_DBG_alloc c = CHUNK_ALLOC_SIZE (ch_memlen c)" "ch_memlen c < 2 ^ 64" "CHUNK_ALLOC_SIZE (ch_memlen c) \<le> SIZE_T_CEILING"
  using assms ceiling_less by (auto simp: chunk_ok_def CHUNK_ALLOC_SIZE_def)

lemma length_ch_bytes [simp]: "chunk_ok c \<Longrightarrow> length (ch_bytes c) = ch_datalen c"
  by (auto simp: chunk_ok_def ch_bytes_def min_def)

lemma ch_bytes_alt: "ch_bytes c = drop (ch_data c) (take (ch_data c + ch_datalen c) (ch_mem c))"
  by (simp add: ch_bytes_def drop_take)

lemma capacity_eq: "chunk_ok c \<Longrightarrow> CHUNK_REMAINING_CAPACITY c = ch_memlen c - (ch_data c + ch_datalen c)"
  using chunk_ok_bounds [of c] by (simp add: CHUNK_REMAINING_CAPACITY_def size_t_sub_eq)

lemma read_chunk:
  "chunk_ok c \<Longrightarrow> k + n \<le> ch_datalen c \<Longrightarrow> read_mem c (ch_data c + k) n = Done (take n (drop k (ch_bytes c)))"
  by (auto simp: read_mem_def ch_bytes_def chunk_ok_def drop_take min_def add.commute)

lemma read_chunk_0: "chunk_ok c \<Longrightarrow> n \<le> ch_datalen c \<Longrightarrow> read_mem c (ch_data c) n = Done (take n (ch_bytes c))"
  using read_chunk [of c 0 n] by simp

lemma free_chunk:
  "chunk_ok c \<Longrightarrow> CHUNK_ALLOC_SIZE (ch_memlen c) \<le> total_bytes_allocated_in_chunks s \<Longrightarrow>
     buf_chunk_free_unchecked c s = Done (s\<lparr>total_bytes_allocated_in_chunks :=
       total_bytes_allocated_in_chunks s - CHUNK_ALLOC_SIZE (ch_memlen c)\<rparr>)"
  by (simp add: buf_chunk_free_unchecked_def chunk_ok_def)

lemma set_sentinel:
  assumes "length (ch_mem c) = ch_memlen c + SENTINEL_LEN" "alloc = CHUNK_ALLOC_SIZE (ch_memlen c)" "alloc \<le> SIZE_T_CEILING"
  shows "CHUNK_SET_SENTINEL c alloc = Done (c\<lparr>ch_mem := take (ch_memlen c) (ch_mem c) @ replicate SENTINEL_LEN 0\<rparr>)"
proof -
  have "size_t_sub alloc SENTINEL_LEN = alloc - SENTINEL_LEN"
    using assms ceiling_less by (intro size_t_sub_eq) (auto simp: CHUNK_ALLOC_SIZE_def)
  then show ?thesis using assms by (simp add: CHUNK_SET_SENTINEL_def CHUNK_ALLOC_SIZE_def write_mem_def)
qed

lemma new_chunk:
  assumes "CHUNK_OVERHEAD \<le> alloc" "alloc \<le> SIZE_T_CEILING"
  obtains ch s' where "chunk_new_with_alloc_size E alloc s = Done (ch, s')" "chunk_ok ch" "ch_datalen ch = 0"
    "ch_data ch = 0" "CHUNK_ALLOC_SIZE (ch_memlen ch) = alloc"
    "total_bytes_allocated_in_chunks s' = total_bytes_allocated_in_chunks s + alloc"
proof -
  have m: "CHUNK_SIZE_WITH_ALLOC alloc = alloc - CHUNK_OVERHEAD"
    using assms ceiling_less unfolding CHUNK_SIZE_WITH_ALLOC_def by (intro size_t_sub_eq) auto
  then have "CHUNK_ALLOC_SIZE (CHUNK_SIZE_WITH_ALLOC alloc) = alloc" using assms(1) by (simp add: CHUNK_ALLOC_SIZE_def)
  then show ?thesis
    using that assms m by (simp add: chunk_new_with_alloc_size_def set_sentinel chunk_ok_def)
qed

lemma repack_chunk:
  assumes "chunk_ok c"
  obtains c' where "chunk_repack c = Done c'" "chunk_ok c'" "ch_bytes c' = ch_bytes c" "ch_data c' = 0"
    "ch_datalen c' = ch_datalen c" "ch_memlen c' = ch_memlen c"
proof (cases "ch_datalen c \<noteq> 0 \<and> ch_data c \<noteq> 0")
  case False
  then have "chunk_repack c = Done (c\<lparr>ch_data := 0\<rparr>)" by (auto simp: chunk_repack_def)
  then show ?thesis using that [of "c\<lparr>ch_data := 0\<rparr>"] assms False by (auto simp: chunk_ok_def ch_bytes_def)
next
  case True
  note b = chunk_ok_bounds [OF assms]
  let ?bs = "take (ch_datalen c) (drop (ch_data c) (ch_mem c))"
  let ?m = "?bs @ drop (ch_datalen c) (ch_mem c)"
  have len: "length ?bs = ch_datalen c" using b by simp
  have "chunk_repack c = Done (c\<lparr>ch_mem := ?m, ch_data := 0\<rparr>)"
    using True b by (simp add: chunk_repack_def read_mem_def write_mem_def)
  moreover have "drop (ch_memlen c) ?m = drop (ch_memlen c) (ch_mem c)" using b len by simp
  then have "chunk_ok (c\<lparr>ch_mem := ?m, ch_data := 0\<rparr>)" using assms b by (simp add: chunk_ok_def)
  moreover have "ch_bytes (c\<lparr>ch_mem := ?m, ch_data := 0\<rparr>) = ch_bytes c" using len by (simp add: ch_bytes_def)
  ultimately show ?thesis using that by simp
qed

lemma grow_chunk:
  assumes "chunk_ok c" "ch_memlen c < sz" "CHUNK_ALLOC_SIZE sz \<le> SIZE_T_CEILING"
  obtains c' s' where "chunk_grow E c sz s = Done (c', s')" "chunk_ok c'" "ch_bytes c' = ch_bytes c" "ch_data c' = ch_data c"
    "ch_datalen c' = ch_datalen c" "ch_memlen c' = sz"
    "total_bytes_allocated_in_chunks s' + CHUNK_ALLOC_SIZE (ch_memlen c) = total_bytes_allocated_in_chunks s + CHUNK_ALLOC_SIZE sz"
proof -
  note b = chunk_ok_bounds [OF assms(1)]
  let ?f = "map (fresh_byte E (n_mallocs s)) [length (ch_mem c)..<CHUNK_ALLOC_SIZE sz - CHUNK_HEADER_LEN]"
  let ?c = "c\<lparr>ch_mem := ch_mem c @ ?f, ch_memlen := sz, ch_DBG_alloc := CHUNK_ALLOC_SIZE sz\<rparr>"
  have l: "length (ch_mem ?c) = sz + SENTINEL_LEN" using b assms(2) by (simp add: CHUNK_ALLOC_SIZE_def)
  let ?d = "?c\<lparr>ch_mem := take sz (ch_mem ?c) @ replicate SENTINEL_LEN 0\<rparr>"
  have "CHUNK_SET_SENTINEL ?c (CHUNK_ALLOC_SIZE sz) = Done ?d"
    using set_sentinel [of ?c "CHUNK_ALLOC_SIZE sz"] l assms(3) by simp
  then have "chunk_grow E c sz s = Done (?d, s\<lparr>n_mallocs := n_mallocs s + 1, total_bytes_allocated_in_chunks :=
      total_bytes_allocated_in_chunks s + (CHUNK_ALLOC_SIZE sz - CHUNK_ALLOC_SIZE (ch_memlen c))\<rparr>)"
    using assms(2) b(3) by (simp add: chunk_grow_def Let_def)
  moreover have "chunk_ok ?d" using b l assms(2,3) by (simp add: chunk_ok_def)
  moreover have "take (ch_data c + ch_datalen c) (ch_mem ?d) = take (ch_data c + ch_datalen c) (ch_mem c)"
    using b(1,2) assms(2) by (simp add: min_def)
  then have "ch_bytes ?d = ch_bytes c" unfolding ch_bytes_alt by simp
  ultimately show ?thesis
    by (rule that) (use assms(2) in \<open>simp_all add: CHUNK_ALLOC_SIZE_def\<close>)
qed

lemma write_end:
  assumes "chunk_ok c" "length bs \<le> CHUNK_REMAINING_CAPACITY c"
  obtains c' where "write_mem c (CHUNK_WRITE_PTR c) bs = Done c'" "chunk_ok (c'\<lparr>ch_datalen := ch_datalen c + length bs\<rparr>)"
    "ch_bytes (c'\<lparr>ch_datalen := ch_datalen c + length bs\<rparr>) = ch_bytes c @ bs" "ch_datalen c' = ch_datalen c"
    "ch_memlen c' = ch_memlen c" "ch_data c' = ch_data c"
proof -
  note b = chunk_ok_bounds [OF assms(1)]
  let ?p = "ch_data c + ch_datalen c"
  have fit: "?p + length bs \<le> ch_memlen c" using assms b by (simp add: capacity_eq)
  let ?m = "take ?p (ch_mem c) @ bs @ drop (?p + length bs) (ch_mem c)"
  have w: "write_mem c (CHUNK_WRITE_PTR c) bs = Done (c\<lparr>ch_mem := ?m\<rparr>)"
    using fit b by (simp add: write_mem_def CHUNK_WRITE_PTR_def)
  have lp: "length (take ?p (ch_mem c)) = ?p" using fit b by simp
  have "drop (ch_memlen c) ?m = drop (ch_memlen c - (?p + length bs)) (drop (?p + length bs) (ch_mem c))"
    using fit lp by simp
  also have "\<dots> = drop (ch_memlen c) (ch_mem c)" using fit by simp
  finally have dr: "drop (ch_memlen c) ?m = drop (ch_memlen c) (ch_mem c)" .
  have "length ?m = length (ch_mem c)" using fit b by simp
  then have ok: "chunk_ok (c\<lparr>ch_mem := ?m, ch_datalen := ch_datalen c + length bs\<rparr>)"
    using assms(1) fit dr by (simp add: chunk_ok_def)
  have "take (ch_datalen c + length bs) (drop (ch_data c) ?m) = ch_bytes c @ bs"
    using lp b by (simp add: ch_bytes_def drop_take)
  then show ?thesis using that [OF w] ok by (simp add: ch_bytes_def)
qed

lemma drop_front:
  assumes "chunk_ok c" "n \<le> ch_datalen c"
  shows "chunk_ok (c\<lparr>ch_datalen := ch_datalen c - n, ch_data := ch_data c + n\<rparr>)"
    "ch_bytes (c\<lparr>ch_datalen := ch_datalen c - n, ch_data := ch_data c + n\<rparr>) = drop n (ch_bytes c)"
  using assms by (auto simp: chunk_ok_def ch_bytes_def drop_take add.commute)

lemma preferred_size_loop_fits:
  "preferred_size_loop k target \<ge> target + CHUNK_OVERHEAD \<and> MIN_CHUNK_ALLOC \<le> preferred_size_loop k target \<and>
   preferred_size_loop k target \<le> max (MIN_CHUNK_ALLOC * 2 ^ k) (2 * (target + CHUNK_OVERHEAD))"
proof (induction k target rule: preferred_size_loop.induct)
  case (1 k target)
  have p: "(1 :: nat) \<le> 2 ^ k" by simp
  show ?case
  proof (cases "MIN_CHUNK_ALLOC * 2 ^ k - CHUNK_OVERHEAD < target")
    case True
    then show ?thesis using "1.IH" [OF True] p by (subst (1 2 3) preferred_size_loop.simps) (auto simp: MIN_CHUNK_ALLOC_def)
  next
    case False
    have "target + 48 \<le> 256 * x" if "\<not> 256 * x - 48 < target" "1 \<le> x" for x :: nat using that by arith
    then have "target + CHUNK_OVERHEAD \<le> MIN_CHUNK_ALLOC * 2 ^ k" using False p by (simp add: MIN_CHUNK_ALLOC_def)
    moreover have "preferred_size_loop k target = MIN_CHUNK_ALLOC * 2 ^ k" using False by (subst preferred_size_loop.simps) simp
    ultimately show ?thesis using p by (simp add: MIN_CHUNK_ALLOC_def)
  qed
qed

lemma preferred_size:
  assumes "target \<le> SIZE_T_CEILING - CHUNK_OVERHEAD"
  obtains n where "buf_preferred_chunk_size target = Done n" "target + CHUNK_OVERHEAD \<le> n" "MIN_CHUNK_ALLOC \<le> n" "n \<le> SIZE_T_CEILING"
proof (cases "CHUNK_ALLOC_SIZE target \<ge> MAX_CHUNK_ALLOC")
  case True
  then show ?thesis
    using that [of "CHUNK_ALLOC_SIZE target"] assms
    by (simp add: buf_preferred_chunk_size_def CHUNK_ALLOC_SIZE_def MAX_CHUNK_ALLOC_def MIN_CHUNK_ALLOC_def SIZE_T_CEILING_def)
next
  case False
  have "preferred_size_loop 0 target \<le> max MIN_CHUNK_ALLOC (2 * (target + CHUNK_OVERHEAD))"
    using preferred_size_loop_fits [of target 0] by simp
  then have "preferred_size_loop 0 target \<le> SIZE_T_CEILING"
    using False by (simp add: CHUNK_ALLOC_SIZE_def MAX_CHUNK_ALLOC_def MIN_CHUNK_ALLOC_def SIZE_T_CEILING_def max_def split: if_splits)
  then show ?thesis
    using that [of "preferred_size_loop 0 target"] assms False preferred_size_loop_fits [of target 0]
    by (simp add: buf_preferred_chunk_size_def CHUNK_ALLOC_SIZE_def MAX_CHUNK_ALLOC_def MIN_CHUNK_ALLOC_def SIZE_T_CEILING_def)
qed

section \<open>Buffers in order\<close>

definition contents :: "buf_t \<Rightarrow> bytes" where
  "contents buf = concat (map ch_bytes (chunks buf))"

definition buf_ok :: "buf_t \<Rightarrow> bool" where
  "buf_ok buf \<longleftrightarrow> magic buf = BUFFER_MAGIC \<and> list_all chunk_ok (chunks buf) \<and> b_datalen buf = length (contents buf) \<and>
     MIN_CHUNK_ALLOC \<le> default_chunk_size buf \<and> default_chunk_size buf \<le> SIZE_T_CEILING"

text \<open>The allocated bytes that do not belong to the buffer, which every operation leaves alone.\<close>

definition others :: "buf_t \<Rightarrow> alloc_state \<Rightarrow> int" where
  "others buf s = int (total_bytes_allocated_in_chunks s) - int (buf_allocation buf)"

lemma length_contents: "list_all chunk_ok cs \<Longrightarrow> length (concat (map ch_bytes cs)) = sum_list (map ch_datalen cs)"
  by (induction cs) simp_all

lemma buf_ok_assert_ok:
  assumes "buf_ok buf" "b_datalen buf \<le> BUF_MAX_LEN"
  shows "buf_assert_ok buf"
proof -
  have s: "b_datalen buf = sum_list (map ch_datalen (chunks buf))"
    using assms(1) length_contents by (simp add: buf_ok_def contents_def)
  have "chunk_assert_ok c" if "c \<in> set (chunks buf)" for c
  proof -
    have "ch_datalen c \<le> sum_list (map ch_datalen (chunks buf))"
      using member_le_sum_list [of "ch_datalen c" "map ch_datalen (chunks buf)"] that by simp
    moreover have "chunk_ok c" using assms(1) that by (simp add: buf_ok_def list_all_iff)
    ultimately show ?thesis using s assms(2) chunk_ok_bounds(1) [of c] by (auto simp: chunk_assert_ok_def)
  qed
  then show ?thesis using assms(1) s by (auto simp: buf_assert_ok_def buf_ok_def list_all_iff contents_def)
qed

lemma buf_new_ok: "buf_ok buf_new" "contents buf_new = []" "buf_allocation buf_new = 0"
  by (simp_all add: buf_ok_def buf_new_def contents_def MIN_CHUNK_ALLOC_def SIZE_T_CEILING_def buf_allocation_def)

lemma snoc_cases: assumes "xs \<noteq> []" obtains ys y where "xs = ys @ [y]"
  using assms by (cases xs rule: rev_cases) auto

subsection \<open>Adding\<close>

lemma add_chunk:
  assumes "buf_ok buf" "0 < capacity"
  obtains ch s' where "buf_add_chunk_with_capacity E buf capacity True s = Done (buf\<lparr>chunks := chunks buf @ [ch]\<rparr>, s')"
    "chunk_ok ch" "ch_bytes ch = []" "0 < CHUNK_REMAINING_CAPACITY ch"
    "others (buf\<lparr>chunks := chunks buf @ [ch]\<rparr>) s' = others buf s"
proof -
  define alloc where "alloc = (if CHUNK_ALLOC_SIZE capacity < default_chunk_size buf then default_chunk_size buf
    else if CHUNK_ALLOC_SIZE capacity > MAX_CHUNK_ALLOC then MAX_CHUNK_ALLOC
    else (case buf_preferred_chunk_size capacity of Done n \<Rightarrow> n | _ \<Rightarrow> 0))"
  have a: "MIN_CHUNK_ALLOC \<le> alloc \<and> alloc \<le> SIZE_T_CEILING \<and>
      buf_add_chunk_with_capacity E buf capacity True s = and_then (chunk_new_with_alloc_size E alloc s) (\<lambda>(chunk, s).
        Done (buf\<lparr>chunks := chunks buf @ [chunk\<lparr>ch_inserted_time := coarse_stamp E (n_stamps s)\<rparr>]\<rparr>, s\<lparr>n_stamps := n_stamps s + 1\<rparr>))"
  proof (cases "CHUNK_ALLOC_SIZE capacity < default_chunk_size buf \<or> CHUNK_ALLOC_SIZE capacity > MAX_CHUNK_ALLOC")
    case True
    then show ?thesis using assms(1)
      by (auto simp: alloc_def buf_add_chunk_with_capacity_def buf_ok_def Let_def MIN_CHUNK_ALLOC_def MAX_CHUNK_ALLOC_def SIZE_T_CEILING_def)
  next
    case False
    then have "capacity \<le> SIZE_T_CEILING - CHUNK_OVERHEAD" by (simp add: CHUNK_ALLOC_SIZE_def MAX_CHUNK_ALLOC_def SIZE_T_CEILING_def)
    then obtain n where "buf_preferred_chunk_size capacity = Done n" "MIN_CHUNK_ALLOC \<le> n" "n \<le> SIZE_T_CEILING"
      by (rule preferred_size)
    then show ?thesis using False by (simp add: alloc_def buf_add_chunk_with_capacity_def Let_def)
  qed
  have "CHUNK_OVERHEAD \<le> alloc" "alloc \<le> SIZE_T_CEILING" using a by (simp_all add: MIN_CHUNK_ALLOC_def)
  then obtain ch s' where c: "chunk_new_with_alloc_size E alloc s = Done (ch, s')" "chunk_ok ch" "ch_datalen ch = 0"
      "ch_data ch = 0" "CHUNK_ALLOC_SIZE (ch_memlen ch) = alloc"
      "total_bytes_allocated_in_chunks s' = total_bytes_allocated_in_chunks s + alloc"
    by (rule new_chunk)
  let ?ch = "ch\<lparr>ch_inserted_time := coarse_stamp E (n_stamps s')\<rparr>"
  have ok: "chunk_ok ?ch" using c(2) by (simp add: chunk_ok_def)
  have "0 < ch_memlen ch" using a c(5) by (simp add: CHUNK_ALLOC_SIZE_def MIN_CHUNK_ALLOC_def)
  then have "0 < CHUNK_REMAINING_CAPACITY ?ch" using ok c(3,4) by (simp add: capacity_eq)
  then show ?thesis
    using that [of ?ch "s'\<lparr>n_stamps := n_stamps s' + 1\<rparr>"] a c ok
    by (simp add: ch_bytes_def others_def buf_allocation_def)
qed

lemma write_tail_ok:
  assumes "buf_ok buf" "chunks buf \<noteq> []" "length bs \<le> CHUNK_REMAINING_CAPACITY (last (chunks buf))"
  obtains buf' where "write_tail buf bs = Done buf'" "buf_ok buf'" "contents buf' = contents buf @ bs"
    "default_chunk_size buf' = default_chunk_size buf" "buf_allocation buf' = buf_allocation buf"
proof -
  obtain cs c where cs: "chunks buf = cs @ [c]" using assms(2) by (rule snoc_cases)
  have ok: "list_all chunk_ok cs" "chunk_ok c" using assms(1) cs by (simp_all add: buf_ok_def)
  obtain c' where c': "write_mem c (CHUNK_WRITE_PTR c) bs = Done c'" "chunk_ok (c'\<lparr>ch_datalen := ch_datalen c + length bs\<rparr>)"
    "ch_bytes (c'\<lparr>ch_datalen := ch_datalen c + length bs\<rparr>) = ch_bytes c @ bs" "ch_datalen c' = ch_datalen c"
    "ch_memlen c' = ch_memlen c" "ch_data c' = ch_data c"
    by (rule write_end [OF ok(2), of bs]) (use assms(3) cs in auto)
  show ?thesis
    using that [of "buf\<lparr>b_datalen := b_datalen buf + length bs, chunks := cs @ [c'\<lparr>ch_datalen := ch_datalen c + length bs\<rparr>]\<rparr>"]
      assms(1) c' cs ok
    by (simp add: write_tail_def buf_ok_def contents_def buf_allocation_def)
qed

lemma buf_add_loop_ok:
  assumes "buf_ok buf"
  shows "\<exists>buf' s'. buf_add_loop E buf string s = Done (buf', s') \<and> buf_ok buf' \<and> contents buf' = contents buf @ string \<and>
    default_chunk_size buf' = default_chunk_size buf \<and> others buf' s' = others buf s"
  using assms
proof (induction E buf string s rule: buf_add_loop.induct)
  case (1 E buf string s)
  show ?case
  proof (cases "string = []")
    case True
    then show ?thesis using "1.prems" by (simp add: buf_add_loop.simps)
  next
    case ne: False
    let ?need = "chunks buf = [] \<or> CHUNK_REMAINING_CAPACITY (last (chunks buf)) = 0"
    obtain b t where b: "(if ?need then buf_add_chunk_with_capacity E buf (length string) True s else Done (buf, s)) = Done (b, t)"
      "buf_ok b" "contents b = contents buf" "default_chunk_size b = default_chunk_size buf" "others b t = others buf s"
      "chunks b \<noteq> []" "0 < CHUNK_REMAINING_CAPACITY (last (chunks b))"
    proof (cases ?need)
      case False
      then show ?thesis using that [of buf s] "1.prems" by simp
    next
      case True
      obtain ch s' where c: "buf_add_chunk_with_capacity E buf (length string) True s = Done (buf\<lparr>chunks := chunks buf @ [ch]\<rparr>, s')"
        "chunk_ok ch" "ch_bytes ch = []" "0 < CHUNK_REMAINING_CAPACITY ch"
        "others (buf\<lparr>chunks := chunks buf @ [ch]\<rparr>) s' = others buf s"
        by (rule add_chunk [OF "1.prems", of "length string" E s]) (use ne in auto)
      then show ?thesis
        using that [of "buf\<lparr>chunks := chunks buf @ [ch]\<rparr>" s'] True "1.prems"
        by (simp add: buf_ok_def contents_def)
    qed
    define copy where "copy = (if CHUNK_REMAINING_CAPACITY (last (chunks b)) > length string then length string
      else CHUNK_REMAINING_CAPACITY (last (chunks b)))"
    have copy: "0 < copy" "copy \<le> length string" "copy \<le> CHUNK_REMAINING_CAPACITY (last (chunks b))"
      using b(7) ne by (auto simp: copy_def)
    obtain b' where b': "write_tail b (take copy string) = Done b'" "buf_ok b'" "contents b' = contents b @ take copy string"
      "default_chunk_size b' = default_chunk_size b" "buf_allocation b' = buf_allocation b"
      by (rule write_tail_ok [OF b(2,6), of "take copy string"]) (use copy in auto)
    have st: "buf_add_loop E buf string s = buf_add_loop E b' (drop copy string) t"
      using ne b(1) b'(1) copy(1) by (subst buf_add_loop.simps) (simp add: Let_def copy_def split del: if_split)
    have "copy \<noteq> 0" using copy(1) by simp
    from "1.IH" [OF ne b(1) refl refl copy_def this b'(1,2)] show ?thesis
      unfolding st using b b' by (auto simp: others_def)
  qed
qed

lemma buf_add_ok:
  assumes "buf_ok buf" "b_datalen buf + length string \<le> BUF_MAX_LEN"
  obtains buf' s' where "buf_add E buf string s = Done (int (b_datalen buf'), buf', s')" "buf_ok buf'" "contents buf' = contents buf @ string"
    "others buf' s' = others buf s"
proof (cases "string = []")
  case True
  then show ?thesis using that [of buf s] assms by (simp add: buf_add_def)
next
  case False
  obtain buf' s' where l: "buf_add_loop E buf string s = Done (buf', s')" "buf_ok buf'" "contents buf' = contents buf @ string"
      "others buf' s' = others buf s"
    using buf_add_loop_ok [OF assms(1)] by blast
  have "b_datalen buf' = b_datalen buf + length string" using l(2,3) assms(1) by (simp add: buf_ok_def)
  then show ?thesis
    using that [of buf' s'] False assms(2) l by (simp add: buf_add_def size_t_sub_eq)
qed

lemma buf_add_refused:
  assumes "b_datalen buf \<le> BUF_MAX_LEN" "BUF_MAX_LEN < b_datalen buf + length string" "length string \<le> BUF_MAX_LEN"
  shows "buf_add E buf string s = Done (- 1, buf, s)"
  using assms by (auto simp: buf_add_def size_t_sub_eq)

lemma buf_add_too_long:
  assumes "buf_ok buf" "b_datalen buf \<le> BUF_MAX_LEN" "BUF_MAX_LEN < length string" "length string < 2 ^ 63"
  shows "buf_add E buf string s = Assertion_failed"
proof -
  obtain buf' s' where l: "buf_add_loop E buf string s = Done (buf', s')" "buf_ok buf'" "contents buf' = contents buf @ string"
    using buf_add_loop_ok [OF assms(1)] by blast
  have "b_datalen buf' = b_datalen buf + length string" using l(2,3) assms(1) by (simp add: buf_ok_def)
  then have big: "\<not> b_datalen buf' \<le> BUF_MAX_LEN" using assms(3) by simp
  have "(int BUF_MAX_LEN - int (length string)) mod 2 ^ 64 = int BUF_MAX_LEN - int (length string) + 2 ^ 64"
  proof -
    have "x mod 2 ^ 64 = x + 2 ^ 64" if "- (2 ^ 64) \<le> x" "x < 0" for x :: int
      using that mod_pos_pos_trivial [of "x + 2 ^ 64" "2 ^ 64"] mod_add_self2 [of x "2 ^ 64"] by simp
    then show ?thesis using assms(3,4) by simp
  qed
  then have "\<not> b_datalen buf > size_t_sub BUF_MAX_LEN (length string)"
    using assms(2-4) by (simp add: size_t_sub_def)
  then show ?thesis using assms(2,3) l(1) big by (auto simp: buf_add_def)
qed

subsection \<open>Taking\<close>

lemma peek_loop_ok:
  assumes "list_all chunk_ok cs" "n \<le> length (concat (map ch_bytes cs))"
  shows "peek_loop cs n string = Done (string @ take n (concat (map ch_bytes cs)))"
  using assms
proof (induction cs n string rule: peek_loop.induct)
  case (2 c cs n string)
  have c: "chunk_ok c" "list_all chunk_ok cs" using "2.prems"(1) by simp_all
  show ?case
  proof (cases "n = 0")
    case False
    define copy where "copy = (if ch_datalen c < n then ch_datalen c else n)"
    have r: "read_mem c (ch_data c) copy = Done (take copy (ch_bytes c))"
      using read_chunk_0 [OF c(1), of copy] by (simp add: copy_def)
    have st: "peek_loop (c # cs) n string = peek_loop cs (n - copy) (string @ take copy (ch_bytes c))"
      using False r by (simp add: copy_def Let_def)
    have le: "n - copy \<le> length (concat (map ch_bytes cs))" using "2.prems"(2) c(1) by (auto simp: copy_def)
    have tk: "take copy (ch_bytes c) @ take (n - copy) ys = take n (ch_bytes c @ ys)" for ys
      using c(1) by (simp add: copy_def)
    show ?thesis unfolding st using "2.IH" [OF False copy_def r c(2) le] by (simp add: tk)
  qed simp
qed simp

lemma buf_peek_ok: "buf_ok buf \<Longrightarrow> n \<le> b_datalen buf \<Longrightarrow> buf_peek buf n = Done (take n (contents buf))"
  using peek_loop_ok [of "chunks buf" n "[]"] by (simp add: buf_peek_def buf_ok_def contents_def)

lemma drain_loop_ok:
  assumes "list_all chunk_ok cs" "n \<le> length (concat (map ch_bytes cs))" "datalen = length (concat (map ch_bytes cs))" "datalen < 2 ^ 64"
    "sum_list (map (\<lambda>ch. CHUNK_ALLOC_SIZE (ch_memlen ch)) cs) \<le> total_bytes_allocated_in_chunks s"
  shows "\<exists>cs' s'. drain_loop cs n datalen s = Done (cs', datalen - n, s') \<and> list_all chunk_ok cs' \<and>
    concat (map ch_bytes cs') = drop n (concat (map ch_bytes cs)) \<and>
    int (total_bytes_allocated_in_chunks s') - int (sum_list (map (\<lambda>ch. CHUNK_ALLOC_SIZE (ch_memlen ch)) cs')) =
      int (total_bytes_allocated_in_chunks s) - int (sum_list (map (\<lambda>ch. CHUNK_ALLOC_SIZE (ch_memlen ch)) cs))"
  using assms
proof (induction cs n datalen s rule: drain_loop.induct)
  case (2 c cs n datalen s)
  have c: "chunk_ok c" "list_all chunk_ok cs" using "2.prems"(1) by simp_all
  consider "n = 0" | "n \<noteq> 0" "ch_datalen c > n" | "n \<noteq> 0" "\<not> ch_datalen c > n" by blast
  then show ?case
  proof cases
    case 1
    then show ?thesis using "2.prems"(1) by simp
  next
    case 2
    then show ?thesis
      using drop_front [OF c(1), of n] c "2.prems"(3,4) by (simp add: size_t_sub_eq)
  next
    case 3
    define s1 where "s1 = s\<lparr>total_bytes_allocated_in_chunks := total_bytes_allocated_in_chunks s - CHUNK_ALLOC_SIZE (ch_memlen c)\<rparr>"
    have f: "buf_chunk_free_unchecked c s = Done s1"
      using free_chunk [OF c(1)] "2.prems"(5) by (simp add: s1_def)
    have d: "size_t_sub datalen (ch_datalen c) = datalen - ch_datalen c"
      using "2.prems"(3,4) c(1) by (intro size_t_sub_eq) simp_all
    have "\<exists>cs' s'. drain_loop cs (n - ch_datalen c) (size_t_sub datalen (ch_datalen c)) s1 =
          Done (cs', size_t_sub datalen (ch_datalen c) - (n - ch_datalen c), s') \<and> list_all chunk_ok cs' \<and>
        concat (map ch_bytes cs') = drop (n - ch_datalen c) (concat (map ch_bytes cs)) \<and>
        int (total_bytes_allocated_in_chunks s') - int (sum_list (map (\<lambda>ch. CHUNK_ALLOC_SIZE (ch_memlen ch)) cs')) =
          int (total_bytes_allocated_in_chunks s1) - int (sum_list (map (\<lambda>ch. CHUNK_ALLOC_SIZE (ch_memlen ch)) cs))"
      by (rule "2.IH" [OF 3 f]) (use "2.prems" c d in \<open>auto simp: s1_def\<close>)
    then show ?thesis using 3 f d c(1) "2.prems"(5) by (auto simp: s1_def)
  qed
qed simp

lemma buf_drain_ok:
  assumes "buf_ok buf" "n \<le> b_datalen buf" "b_datalen buf < 2 ^ 64" "0 \<le> others buf s"
  obtains buf' s' where "buf_drain buf n s = Done (buf', s')" "buf_ok buf'" "contents buf' = drop n (contents buf)"
    "others buf' s' = others buf s" "b_datalen buf' = b_datalen buf - n"
proof -
  have "\<exists>cs' s'. drain_loop (chunks buf) n (b_datalen buf) s = Done (cs', b_datalen buf - n, s') \<and> list_all chunk_ok cs' \<and>
    concat (map ch_bytes cs') = drop n (concat (map ch_bytes (chunks buf))) \<and>
    int (total_bytes_allocated_in_chunks s') - int (sum_list (map (\<lambda>ch. CHUNK_ALLOC_SIZE (ch_memlen ch)) cs')) =
      int (total_bytes_allocated_in_chunks s) - int (sum_list (map (\<lambda>ch. CHUNK_ALLOC_SIZE (ch_memlen ch)) (chunks buf)))"
    by (rule drain_loop_ok) (use assms in \<open>auto simp: buf_ok_def contents_def others_def buf_allocation_def\<close>)
  then obtain cs' s' where d: "drain_loop (chunks buf) n (b_datalen buf) s = Done (cs', b_datalen buf - n, s')" "list_all chunk_ok cs'"
    "concat (map ch_bytes cs') = drop n (contents buf)"
    "int (total_bytes_allocated_in_chunks s') - int (sum_list (map (\<lambda>ch. CHUNK_ALLOC_SIZE (ch_memlen ch)) cs')) = others buf s"
    unfolding contents_def others_def buf_allocation_def by blast
  show ?thesis
    by (rule that [of "buf\<lparr>chunks := cs', b_datalen := b_datalen buf - n\<rparr>" s'])
      (use d assms in \<open>auto simp: buf_drain_def buf_ok_def contents_def others_def buf_allocation_def\<close>)
qed

lemma buf_get_bytes_ok:
  assumes "buf_ok buf" "n \<le> b_datalen buf" "b_datalen buf - n \<le> BUF_MAX_LEN" "b_datalen buf < 2 ^ 64" "0 \<le> others buf s"
  obtains buf' s' where "buf_get_bytes buf n s = Done (int (b_datalen buf - n), take n (contents buf), buf', s')"
    "buf_ok buf'" "contents buf' = drop n (contents buf)" "others buf' s' = others buf s" "b_datalen buf' = b_datalen buf - n"
proof -
  obtain buf' s' where "buf_drain buf n s = Done (buf', s')" "buf_ok buf'" "contents buf' = drop n (contents buf)"
    "others buf' s' = others buf s" "b_datalen buf' = b_datalen buf - n"
    by (rule buf_drain_ok [OF assms(1,2,4,5)])
  then show ?thesis using that assms(3) buf_peek_ok [OF assms(1,2)] by (simp add: buf_get_bytes_def)
qed

subsection \<open>Moving\<close>

lemma move_loop_ok:
  assumes "buf_ok buf_out" "buf_ok buf_in" "len \<le> b_datalen buf_in" "b_datalen buf_in \<le> BUF_MAX_LEN"
    "b_datalen buf_out + len \<le> BUF_MAX_LEN"
    "0 \<le> int (total_bytes_allocated_in_chunks s) - int (buf_allocation buf_out) - int (buf_allocation buf_in)"
  shows "\<exists>out' in' s'. move_loop E buf_out buf_in len s = Done (out', in', s') \<and> buf_ok out' \<and> buf_ok in' \<and>
    contents out' = contents buf_out @ take len (contents buf_in) \<and> contents in' = drop len (contents buf_in) \<and>
    int (total_bytes_allocated_in_chunks s') - int (buf_allocation out') - int (buf_allocation in') =
      int (total_bytes_allocated_in_chunks s) - int (buf_allocation buf_out) - int (buf_allocation buf_in)"
  using assms
proof (induction E buf_out buf_in len s rule: move_loop.induct)
  case (1 E out i len s)
  show ?case
  proof (cases "len = 0")
    case True
    then show ?thesis using "1.prems" by (simp add: move_loop.simps)
  next
    case False
    define n where "n = (if len > 4096 then 4096 else len)"
    have n: "0 < n" "n \<le> len" using False by (auto simp: n_def)
    obtain i' s1 where g: "buf_get_bytes i n s = Done (int (b_datalen i - n), take n (contents i), i', s1)" "buf_ok i'"
      "contents i' = drop n (contents i)" "others i' s1 = others i s" "b_datalen i' = b_datalen i - n"
      by (rule buf_get_bytes_ok [of i n s]) (use "1.prems" n in \<open>auto simp: others_def\<close>)
    have ln: "length (take n (contents i)) = n" using "1.prems"(2,3) n by (simp add: buf_ok_def)
    obtain out' s2 where a: "buf_add E out (take n (contents i)) s1 = Done (int (b_datalen out'), out', s2)" "buf_ok out'"
      "contents out' = contents out @ take n (contents i)" "others out' s2 = others out s1"
      by (rule buf_add_ok [OF "1.prems"(1), of "take n (contents i)" E s1]) (use "1.prems"(5) n ln in auto)
    have lo: "b_datalen out' = b_datalen out + n" using a(2,3) ln "1.prems"(1) by (simp add: buf_ok_def)
    have tot: "int (total_bytes_allocated_in_chunks s2) - int (buf_allocation out') - int (buf_allocation i') =
        int (total_bytes_allocated_in_chunks s) - int (buf_allocation out) - int (buf_allocation i)"
      using g(4) a(4) by (simp add: others_def)
    have st: "move_loop E out i len s = move_loop E out' i' (len - n) s2"
      using False g(1) a(1) by (subst move_loop.simps) (simp add: n_def Let_def)
    have tk: "take n xs @ take (len - n) (drop n xs) = take len xs" "drop (len - n) (drop n xs) = drop len xs" for xs :: bytes
      using n(2) by (simp_all add: take_add [symmetric])
    have "\<exists>o2 i2 s3. move_loop E out' i' (len - n) s2 = Done (o2, i2, s3) \<and> buf_ok o2 \<and> buf_ok i2 \<and>
        contents o2 = contents out' @ take (len - n) (contents i') \<and> contents i2 = drop (len - n) (contents i') \<and>
        int (total_bytes_allocated_in_chunks s3) - int (buf_allocation o2) - int (buf_allocation i2) =
          int (total_bytes_allocated_in_chunks s2) - int (buf_allocation out') - int (buf_allocation i')"
      by (rule "1.IH" [OF False n_def g(1) refl refl refl a(1) refl refl a(2) g(2)])
        (use "1.prems" n g(5) lo tot in auto)
    then show ?thesis unfolding st using a(3) g(3) tot tk [of "contents i"] by auto
  qed
qed

lemma buf_move_to_buf_ok:
  assumes "buf_ok buf_out" "buf_ok buf_in" "b_datalen buf_in \<le> BUF_MAX_LEN" "b_datalen buf_out + flushlen \<le> BUF_MAX_LEN"
    "0 \<le> int (total_bytes_allocated_in_chunks s) - int (buf_allocation buf_out) - int (buf_allocation buf_in)"
  obtains out' in' s' where
    "buf_move_to_buf E buf_out buf_in flushlen s =
       Done (int (min flushlen (b_datalen buf_in)), flushlen - b_datalen buf_in, out', in', s')" "buf_ok out'" "buf_ok in'"
    "contents out' = contents buf_out @ take flushlen (contents buf_in)" "contents in' = drop flushlen (contents buf_in)"
    "int (total_bytes_allocated_in_chunks s') - int (buf_allocation out') - int (buf_allocation in') =
      int (total_bytes_allocated_in_chunks s) - int (buf_allocation buf_out) - int (buf_allocation buf_in)"
proof -
  define len where "len = min flushlen (b_datalen buf_in)"
  have len: "(if flushlen > b_datalen buf_in then b_datalen buf_in else flushlen) = len" "flushlen - len = flushlen - b_datalen buf_in"
    by (simp_all add: len_def min_def)
  have tk: "take len (contents buf_in) = take flushlen (contents buf_in)" "drop len (contents buf_in) = drop flushlen (contents buf_in)"
    using assms(2) by (simp_all add: len_def buf_ok_def min_def)
  obtain out' in' s' where m: "move_loop E buf_out buf_in len s = Done (out', in', s')" "buf_ok out'" "buf_ok in'"
    "contents out' = contents buf_out @ take len (contents buf_in)" "contents in' = drop len (contents buf_in)"
    "int (total_bytes_allocated_in_chunks s') - int (buf_allocation out') - int (buf_allocation in') =
      int (total_bytes_allocated_in_chunks s) - int (buf_allocation buf_out) - int (buf_allocation buf_in)"
  proof -
    have "len \<le> b_datalen buf_in" "b_datalen buf_out + len \<le> BUF_MAX_LEN" using assms(4) by (simp_all add: len_def)
    from move_loop_ok [OF assms(1,2) this(1) assms(3) this(2) assms(5), of E] show ?thesis using that by blast
  qed
  have "len \<le> BUF_MAX_LEN" using assms(3) by (simp add: len_def)
  then show ?thesis
    using that [of out' in' s'] m assms(4) len tk by (simp add: buf_move_to_buf_def len_def [symmetric])
qed

lemma buf_move_all_ok:
  assumes "buf_ok buf_out" "buf_ok buf_in" "b_datalen buf_out + b_datalen buf_in \<le> BUF_MAX_LEN"
  obtains out' in' where "buf_move_all buf_out (Some buf_in) = (b_datalen buf_in, out', Some in')" "buf_ok out'" "buf_ok in'"
    "contents out' = contents buf_out @ contents buf_in" "contents in' = []"
    "buf_allocation out' + buf_allocation in' = buf_allocation buf_out + buf_allocation buf_in"
proof (cases "b_datalen buf_in = 0")
  case True
  then have "contents buf_in = []" using assms(2) by (simp add: buf_ok_def)
  then show ?thesis using that [of buf_out buf_in] True assms(1,2) by (simp add: buf_move_all_def buf_datalen_def)
next
  case False
  let ?out = "buf_out\<lparr>chunks := chunks buf_out @ chunks buf_in, b_datalen := b_datalen buf_out + b_datalen buf_in\<rparr>"
  have m: "buf_move_all buf_out (Some buf_in) = (b_datalen buf_in, ?out, Some (buf_in\<lparr>chunks := [], b_datalen := 0\<rparr>))"
    using False assms(3) by (auto simp: buf_move_all_def buf_datalen_def Let_def)
  show ?thesis
    by (rule that [OF m]) (use assms(1,2) in \<open>auto simp: buf_ok_def contents_def buf_allocation_def\<close>)
qed

subsection \<open>Copies and release\<close>

lemma free_chunks_ok:
  "list_all chunk_ok cs \<Longrightarrow> sum_list (map (\<lambda>ch. CHUNK_ALLOC_SIZE (ch_memlen ch)) cs) \<le> total_bytes_allocated_in_chunks s \<Longrightarrow>
     free_chunks cs s = Done (s\<lparr>total_bytes_allocated_in_chunks :=
       total_bytes_allocated_in_chunks s - sum_list (map (\<lambda>ch. CHUNK_ALLOC_SIZE (ch_memlen ch)) cs)\<rparr>)"
  by (induction cs arbitrary: s) (simp_all add: free_chunk)

lemma buf_clear_ok:
  assumes "buf_ok buf" "0 \<le> others buf s"
  obtains buf' s' where "buf_clear buf s = Done (buf', s')" "buf_ok buf'" "contents buf' = []"
    "buf_allocation buf' = 0" "int (total_bytes_allocated_in_chunks s') = others buf s"
proof -
  have f: "free_chunks (chunks buf) s = Done (s\<lparr>total_bytes_allocated_in_chunks := total_bytes_allocated_in_chunks s - buf_allocation buf\<rparr>)"
    using free_chunks_ok [of "chunks buf" s] assms by (simp add: buf_ok_def others_def buf_allocation_def)
  show ?thesis
    by (rule that [of "buf\<lparr>b_datalen := 0, chunks := []\<rparr>" "s\<lparr>total_bytes_allocated_in_chunks := total_bytes_allocated_in_chunks s - buf_allocation buf\<rparr>"])
      (use f assms in \<open>auto simp: buf_clear_def buf_ok_def contents_def others_def buf_allocation_def\<close>)
qed

lemma copy_chunks_ok:
  "list_all chunk_ok cs \<Longrightarrow> \<exists>s'. copy_chunks cs out s = (out @ cs, s') \<and>
     total_bytes_allocated_in_chunks s' = total_bytes_allocated_in_chunks s + sum_list (map (\<lambda>ch. CHUNK_ALLOC_SIZE (ch_memlen ch)) cs)"
proof (induction cs out s rule: copy_chunks.induct)
  case (2 ch cs out s)
  have e: "chunk_copy ch s = (ch, snd (chunk_copy ch s))" using "2.prems" by (auto simp: chunk_copy_def chunk_ok_def)
  obtain s' where "copy_chunks cs (out @ [ch]) (snd (chunk_copy ch s)) = ((out @ [ch]) @ cs, s')"
      "total_bytes_allocated_in_chunks s' = total_bytes_allocated_in_chunks (snd (chunk_copy ch s)) + sum_list (map (\<lambda>ch. CHUNK_ALLOC_SIZE (ch_memlen ch)) cs)"
    using "2.IH" [OF e [symmetric] refl] "2.prems" by auto
  then show ?case by (subst copy_chunks.simps, subst e) (simp add: chunk_copy_def)
qed simp

lemma buf_copy_ok:
  assumes "buf_ok buf"
  obtains buf' s' where "buf_copy buf s = (buf', s')" "buf_ok buf'" "contents buf' = contents buf"
    "others buf' s' = int (total_bytes_allocated_in_chunks s)" "buf_allocation buf' = buf_allocation buf"
proof -
  obtain s' where c: "copy_chunks (chunks buf) [] s = ([] @ chunks buf, s')"
      "total_bytes_allocated_in_chunks s' = total_bytes_allocated_in_chunks s + buf_allocation buf"
    using copy_chunks_ok [of "chunks buf" "[]" s] assms by (auto simp: buf_ok_def buf_allocation_def)
  show ?thesis
    by (rule that [of "buf_new\<lparr>default_chunk_size := default_chunk_size buf, chunks := chunks buf, b_datalen := b_datalen buf\<rparr>" s'])
      (use c assms in \<open>auto simp: buf_copy_def Let_def buf_ok_def contents_def others_def buf_allocation_def buf_new_def\<close>)
qed

subsection \<open>Contiguous data\<close>

lemma pullup_loop_ok:
  assumes "chunk_ok dest" "list_all chunk_ok cs" "n \<le> ch_datalen dest + length (concat (map ch_bytes cs))"
    "n - ch_datalen dest \<le> CHUNK_REMAINING_CAPACITY dest"
    "CHUNK_ALLOC_SIZE (ch_memlen dest) + sum_list (map (\<lambda>ch. CHUNK_ALLOC_SIZE (ch_memlen ch)) cs) \<le> total_bytes_allocated_in_chunks s"
  shows "\<exists>dest' cs' s'. pullup_loop dest cs n s = Done (dest', cs', s') \<and> chunk_ok dest' \<and> list_all chunk_ok cs' \<and>
    ch_bytes dest' @ concat (map ch_bytes cs') = ch_bytes dest @ concat (map ch_bytes cs) \<and> n \<le> ch_datalen dest' \<and>
    int (total_bytes_allocated_in_chunks s') - int (CHUNK_ALLOC_SIZE (ch_memlen dest')) - int (sum_list (map (\<lambda>ch. CHUNK_ALLOC_SIZE (ch_memlen ch)) cs')) =
      int (total_bytes_allocated_in_chunks s) - int (CHUNK_ALLOC_SIZE (ch_memlen dest)) - int (sum_list (map (\<lambda>ch. CHUNK_ALLOC_SIZE (ch_memlen ch)) cs))"
  using assms
proof (induction dest cs n s rule: pullup_loop.induct)
  case (1 dest n s)
  then show ?case by simp
next
  case (2 dest src cs n s)
  have c: "chunk_ok src" "list_all chunk_ok cs" using "2.prems"(2) by simp_all
  note b = chunk_ok_bounds [OF "2.prems"(1)]
  show ?case
  proof (cases "ch_datalen dest < n")
    case False
    then show ?thesis using "2.prems" by simp
  next
    case more: True
    define k where "k = n - ch_datalen dest"
    have cap: "k \<le> ch_memlen dest - (ch_data dest + ch_datalen dest)"
      using "2.prems"(1,4) by (simp add: k_def capacity_eq)
    show ?thesis
    proof (cases "k \<ge> ch_datalen src")
      case True
      have r: "read_mem src (ch_data src) (ch_datalen src) = Done (ch_bytes src)" using read_chunk_0 [OF c(1)] c(1) by simp
      have fit: "length (ch_bytes src) \<le> CHUNK_REMAINING_CAPACITY dest" using True c(1) "2.prems"(4) by (simp add: k_def)
      obtain d where d: "write_mem dest (CHUNK_WRITE_PTR dest) (ch_bytes src) = Done d"
        "chunk_ok (d\<lparr>ch_datalen := ch_datalen dest + length (ch_bytes src)\<rparr>)"
        "ch_bytes (d\<lparr>ch_datalen := ch_datalen dest + length (ch_bytes src)\<rparr>) = ch_bytes dest @ ch_bytes src"
        "ch_datalen d = ch_datalen dest" "ch_memlen d = ch_memlen dest" "ch_data d = ch_data dest"
        by (rule write_end [OF "2.prems"(1) fit])
      define s1 where "s1 = s\<lparr>total_bytes_allocated_in_chunks := total_bytes_allocated_in_chunks s - CHUNK_ALLOC_SIZE (ch_memlen src)\<rparr>"
      have f: "buf_chunk_free_unchecked src s = Done s1" using free_chunk [OF c(1)] "2.prems"(5) by (simp add: s1_def)
      let ?d = "d\<lparr>ch_datalen := ch_datalen d + ch_datalen src\<rparr>"
      have d': "chunk_ok ?d" "ch_bytes ?d = ch_bytes dest @ ch_bytes src" using d(2,3,4) c(1) by simp_all
      have cap': "CHUNK_REMAINING_CAPACITY ?d = ch_memlen dest - (ch_data dest + ch_datalen dest + ch_datalen src)"
        using capacity_eq [OF d'(1)] d(4-6) by simp
      have st: "pullup_loop dest (src # cs) n s = pullup_loop ?d cs n s1"
        using more True r d(1) f by (simp add: k_def Let_def)
      have "\<exists>dest' cs' s'. pullup_loop ?d cs n s1 = Done (dest', cs', s') \<and> chunk_ok dest' \<and> list_all chunk_ok cs' \<and>
          ch_bytes dest' @ concat (map ch_bytes cs') = ch_bytes ?d @ concat (map ch_bytes cs) \<and> n \<le> ch_datalen dest' \<and>
          int (total_bytes_allocated_in_chunks s') - int (CHUNK_ALLOC_SIZE (ch_memlen dest')) - int (sum_list (map (\<lambda>ch. CHUNK_ALLOC_SIZE (ch_memlen ch)) cs')) =
          int (total_bytes_allocated_in_chunks s1) - int (CHUNK_ALLOC_SIZE (ch_memlen ?d)) - int (sum_list (map (\<lambda>ch. CHUNK_ALLOC_SIZE (ch_memlen ch)) cs))"
      proof (rule "2.IH" [OF more k_def True r d(1) f d'(1) c(2)])
        show "n \<le> ch_datalen ?d + length (concat (map ch_bytes cs))" using "2.prems"(3) c(1) d(4) by simp
        show "n - ch_datalen ?d \<le> CHUNK_REMAINING_CAPACITY ?d" unfolding cap' using cap d(4) True by (simp add: k_def)
        show "CHUNK_ALLOC_SIZE (ch_memlen ?d) + sum_list (map (\<lambda>ch. CHUNK_ALLOC_SIZE (ch_memlen ch)) cs) \<le> total_bytes_allocated_in_chunks s1"
          using "2.prems"(5) d(5) by (simp add: s1_def)
      qed
      then show ?thesis unfolding st using d'(2) d(5) "2.prems"(5) by (auto simp: s1_def)
    next
      case False
      have r: "read_mem src (ch_data src) k = Done (take k (ch_bytes src))" using read_chunk_0 [OF c(1), of k] False by simp
      have lk: "length (take k (ch_bytes src)) = k" using c(1) False by simp
      have fit: "length (take k (ch_bytes src)) \<le> CHUNK_REMAINING_CAPACITY dest" using lk "2.prems"(4) by (simp add: k_def)
      obtain d where d: "write_mem dest (CHUNK_WRITE_PTR dest) (take k (ch_bytes src)) = Done d"
        "chunk_ok (d\<lparr>ch_datalen := ch_datalen dest + length (take k (ch_bytes src))\<rparr>)"
        "ch_bytes (d\<lparr>ch_datalen := ch_datalen dest + length (take k (ch_bytes src))\<rparr>) = ch_bytes dest @ take k (ch_bytes src)"
        "ch_datalen d = ch_datalen dest" "ch_memlen d = ch_memlen dest" "ch_data d = ch_data dest"
        by (rule write_end [OF "2.prems"(1) fit])
      have n: "ch_datalen dest + k = n" using more by (simp add: k_def)
      have st: "pullup_loop dest (src # cs) n s = Done (d\<lparr>ch_datalen := ch_datalen d + k\<rparr>,
          src\<lparr>ch_data := ch_data src + k, ch_datalen := ch_datalen src - k\<rparr> # cs, s)"
        using more False r d(1,4) n by (simp add: k_def Let_def)
      have sr: "src\<lparr>ch_data := ch_data src + k, ch_datalen := ch_datalen src - k\<rparr> = src\<lparr>ch_datalen := ch_datalen src - k, ch_data := ch_data src + k\<rparr>"
        by simp
      show ?thesis
        unfolding st sr using drop_front [OF c(1), of k] False d(2,3,4,5) lk n c(2) by simp
    qed
  qed
qed

lemma pullup_head_ok:
  assumes "chunk_ok head" "capacity \<le> SIZE_T_CEILING div 2 - CHUNK_OVERHEAD" "ch_datalen head < capacity"
  obtains h s' where "pullup_head E head capacity s = Done (h, s')" "chunk_ok h" "ch_bytes h = ch_bytes head" "ch_datalen h = ch_datalen head"
    "capacity - ch_datalen h \<le> CHUNK_REMAINING_CAPACITY h"
    "int (total_bytes_allocated_in_chunks s') - int (CHUNK_ALLOC_SIZE (ch_memlen h)) =
      int (total_bytes_allocated_in_chunks s) - int (CHUNK_ALLOC_SIZE (ch_memlen head))"
proof (cases "ch_memlen head \<ge> capacity")
  case True
  note b = chunk_ok_bounds [OF assms(1)]
  have nd: "size_t_sub capacity (ch_datalen head) = capacity - ch_datalen head"
    using assms(2,3) by (intro size_t_sub_eq) (auto simp: SIZE_T_CEILING_def)
  obtain c' where c': "chunk_repack head = Done c'" "chunk_ok c'" "ch_bytes c' = ch_bytes head" "ch_data c' = 0"
    "ch_datalen c' = ch_datalen head" "ch_memlen c' = ch_memlen head"
    by (rule repack_chunk [OF assms(1)])
  show ?thesis
  proof (cases "CHUNK_REMAINING_CAPACITY head < capacity - ch_datalen head")
    case less: True
    have "CHUNK_REMAINING_CAPACITY c' \<ge> capacity - ch_datalen head" using capacity_eq [OF c'(2)] c'(4-6) True by simp
    then show ?thesis using that [of c' s] c' True less nd by (simp add: pullup_head_def Let_def)
  next
    case False
    then show ?thesis using that [of head s] assms(1) True nd by (simp add: pullup_head_def Let_def)
  qed
next
  case False
  obtain c' where c': "chunk_repack head = Done c'" "chunk_ok c'" "ch_bytes c' = ch_bytes head" "ch_data c' = 0"
    "ch_datalen c' = ch_datalen head" "ch_memlen c' = ch_memlen head"
    by (rule repack_chunk [OF assms(1)])
  have "capacity \<le> SIZE_T_CEILING - CHUNK_OVERHEAD" using assms(2) by simp
  then obtain n where n: "buf_preferred_chunk_size capacity = Done n" "capacity + CHUNK_OVERHEAD \<le> n" "MIN_CHUNK_ALLOC \<le> n" "n \<le> SIZE_T_CEILING"
    by (rule preferred_size)
  have sz: "CHUNK_SIZE_WITH_ALLOC n = n - CHUNK_OVERHEAD"
    unfolding CHUNK_SIZE_WITH_ALLOC_def using n(2,4) ceiling_less by (intro size_t_sub_eq) auto
  have lt: "ch_memlen c' < n - CHUNK_OVERHEAD" using False c'(6) n(2) by simp
  have al: "CHUNK_ALLOC_SIZE (n - CHUNK_OVERHEAD) \<le> SIZE_T_CEILING" using n(2,4) by (simp add: CHUNK_ALLOC_SIZE_def)
  obtain g s' where g: "chunk_grow E c' (n - CHUNK_OVERHEAD) s = Done (g, s')" "chunk_ok g" "ch_bytes g = ch_bytes c'" "ch_data g = ch_data c'"
    "ch_datalen g = ch_datalen c'" "ch_memlen g = n - CHUNK_OVERHEAD"
    "total_bytes_allocated_in_chunks s' + CHUNK_ALLOC_SIZE (ch_memlen c') = total_bytes_allocated_in_chunks s + CHUNK_ALLOC_SIZE (n - CHUNK_OVERHEAD)"
    by (rule grow_chunk [OF c'(2) lt al])
  have "pullup_head E head capacity s = Done (g, s')"
    using False c'(1) n(1) g(1,6) sz n(2) by (simp add: pullup_head_def Let_def)
  moreover have "capacity - ch_datalen g \<le> CHUNK_REMAINING_CAPACITY g"
    using capacity_eq [OF g(2)] g(4-6) c'(4) n(2) by simp
  moreover have "int (total_bytes_allocated_in_chunks s') - int (CHUNK_ALLOC_SIZE (ch_memlen g)) =
      int (total_bytes_allocated_in_chunks s) - int (CHUNK_ALLOC_SIZE (ch_memlen head))"
    using g(6,7) c'(6) by simp
  ultimately show ?thesis using that g(2,3,5) c'(3,5) by simp
qed

lemma buf_pullup_ok:
  assumes "buf_ok buf" "b_datalen buf \<le> BUF_MAX_LEN" "0 \<le> others buf s"
  obtains head_out len_out buf' s' where "buf_pullup E buf n s = Done (head_out, len_out, buf', s')" "buf_ok buf'"
    "contents buf' = contents buf" "others buf' s' = others buf s"
    "chunks buf = [] \<longrightarrow> head_out = None \<and> len_out = 0"
    "chunks buf \<noteq> [] \<longrightarrow> min n (length (contents buf)) \<le> len_out \<and> len_out \<le> length (contents buf) \<and>
       (\<exists>h cs. chunks buf' = h # cs \<and> head_out = Some (ch_data h) \<and> len_out = ch_datalen h \<and>
          take len_out (drop (ch_data h) (ch_mem h)) = take len_out (contents buf))"
proof (cases "chunks buf")
  case Nil
  then show ?thesis using that [of None 0 buf s] assms(1) by (simp add: buf_pullup_def)
next
  case (Cons h cs)
  have ok: "chunk_ok h" "list_all chunk_ok cs" using assms(1) Cons by (simp_all add: buf_ok_def)
  have head: "len = ch_datalen h' \<Longrightarrow> chunk_ok h' \<Longrightarrow> contents b = ch_bytes h' @ xs \<Longrightarrow>
      take len (drop (ch_data h') (ch_mem h')) = take len (contents b) \<and> len \<le> length (contents b)" for h' b xs len
    by (simp add: ch_bytes_def [symmetric])
  define m where "m = (if b_datalen buf < n then b_datalen buf else n)"
  have m: "m = min n (length (contents buf))" using assms(1) by (simp add: m_def buf_ok_def min_def)
  show ?thesis
  proof (cases "ch_datalen h \<ge> m")
    case True
    then have "buf_pullup E buf n s = Done (Some (ch_data h), ch_datalen h, buf, s)"
      using Cons by (simp add: buf_pullup_def Let_def m_def)
    moreover have "contents buf = ch_bytes h @ concat (map ch_bytes cs)" using Cons by (simp add: contents_def)
    ultimately show ?thesis using that [of "Some (ch_data h)" "ch_datalen h" buf s] assms(1) Cons True m head [OF refl ok(1)] by auto
  next
    case False
    have cap: "m \<le> SIZE_T_CEILING div 2 - CHUNK_OVERHEAD" using assms(2) by (simp add: m_def SIZE_T_CEILING_def)
    obtain g s1 where g: "pullup_head E h m s = Done (g, s1)" "chunk_ok g" "ch_bytes g = ch_bytes h" "ch_datalen g = ch_datalen h"
      "m - ch_datalen g \<le> CHUNK_REMAINING_CAPACITY g"
      "int (total_bytes_allocated_in_chunks s1) - int (CHUNK_ALLOC_SIZE (ch_memlen g)) =
        int (total_bytes_allocated_in_chunks s) - int (CHUNK_ALLOC_SIZE (ch_memlen h))"
      by (rule pullup_head_ok [OF ok(1) cap]) (use False in auto)
    have c0: "contents buf = ch_bytes g @ concat (map ch_bytes cs)" using Cons g(3) by (simp add: contents_def)
    have "m \<le> ch_datalen g + length (concat (map ch_bytes cs))" using m c0 g(2) by simp
    moreover have "CHUNK_ALLOC_SIZE (ch_memlen g) + sum_list (map (\<lambda>ch. CHUNK_ALLOC_SIZE (ch_memlen ch)) cs) \<le> total_bytes_allocated_in_chunks s1"
      using g(6) assms(3) Cons by (simp add: others_def buf_allocation_def)
    ultimately obtain d ds s2 where d: "pullup_loop g cs m s1 = Done (d, ds, s2)" "chunk_ok d" "list_all chunk_ok ds"
      "ch_bytes d @ concat (map ch_bytes ds) = ch_bytes g @ concat (map ch_bytes cs)" "m \<le> ch_datalen d"
      "int (total_bytes_allocated_in_chunks s2) - int (CHUNK_ALLOC_SIZE (ch_memlen d)) - int (sum_list (map (\<lambda>ch. CHUNK_ALLOC_SIZE (ch_memlen ch)) ds)) =
        int (total_bytes_allocated_in_chunks s1) - int (CHUNK_ALLOC_SIZE (ch_memlen g)) - int (sum_list (map (\<lambda>ch. CHUNK_ALLOC_SIZE (ch_memlen ch)) cs))"
      using pullup_loop_ok [OF g(2) ok(2) _ g(5)] by blast
    let ?b = "buf\<lparr>chunks := d # ds\<rparr>"
    have p: "buf_pullup E buf n s = Done (Some (ch_data d), ch_datalen d, ?b, s2)"
      using Cons False g(1) d(1) by (simp add: buf_pullup_def Let_def m_def [symmetric])
    have c1: "contents ?b = contents buf" "contents buf = ch_bytes d @ concat (map ch_bytes ds)"
      using d(4) c0 by (simp_all add: contents_def)
    have "buf_ok ?b" using assms(1) d(2,3) c1(1) by (simp add: buf_ok_def)
    moreover have "others ?b s2 = others buf s" using d(6) g(6) Cons by (simp add: others_def buf_allocation_def)
    ultimately show ?thesis
      using that [OF p] c1 Cons d(5) m head [OF refl d(2) c1(2)] by auto
  qed
qed

end
