(* ===== verification/Buffer_Props.thy ===== *)
theory Buffer_Props
  imports Buffers
begin

text \<open>
  Searching in the buffers of theory Buffers, and the properties of their operations: a buffer behaves as a queue of
  bytes (the interface \<open>byte_queue\<close>), its limits, its other operations as functions on the bytes it holds, and its searches.
\<close>

section \<open>Searching in order\<close>

lemma memmem_skip: "s \<noteq> [] \<Longrightarrow> \<forall>j<m. \<not> occurs_at s xs j \<Longrightarrow> memmem xs s = map_option ((+) m) (memmem (drop m xs) s)"
proof (induction m arbitrary: xs)
  case 0
  then show ?case by (cases "memmem xs s") simp_all
next
  case (Suc m)
  show ?case
  proof (cases xs)
    case Nil
    then show ?thesis using Suc.prems(1) by simp
  next
    case (Cons x ys)
    have "\<not> occurs_at s xs 0" using Suc.prems(2) by simp
    then have "take (length s) (x # ys) \<noteq> s" using Cons by (simp add: occurs_at_def)
    then have e: "memmem xs s = map_option Suc (memmem ys s)" using Cons by simp
    have "\<forall>j<m. \<not> occurs_at s ys j"
    proof (intro allI impI)
      fix j assume "j < m"
      then show "\<not> occurs_at s ys j" using Suc.prems(2) [rule_format, of "Suc j"] Cons by (simp add: occurs_at_def)
    qed
    from Suc.IH [OF Suc.prems(1) this] show ?thesis unfolding e using Cons by (simp add: option.map_comp comp_def)
  qed
qed

lemma memchr_append_if:
  "memchr (a @ b) c = (case memchr a c of Some k \<Rightarrow> Some k | None \<Rightarrow> map_option ((+) (length a)) (memchr b c))"
  by (induction a; cases "memchr b c") (auto split: option.splits)

definition bytes_of :: "chunk_t list \<Rightarrow> bytes" where
  "bytes_of cs = concat (map ch_bytes cs)"

lemma bytes_of_simps [simp]:
  "bytes_of [] = []" "bytes_of (c # cs) = ch_bytes c @ bytes_of cs" "bytes_of (cs @ ds) = bytes_of cs @ bytes_of ds"
  by (simp_all add: bytes_of_def)

text \<open>A position that stands on the byte \<open>n\<close> of the data of the chunks \<open>base\<close>.\<close>

definition pos_at :: "chunk_t list \<Rightarrow> buf_pos_t \<Rightarrow> nat \<Rightarrow> bool" where
  "pos_at base p n \<longleftrightarrow> (\<exists>pre chunk cs. base = pre @ chunk # cs \<and> bp_chunk p = chunk # cs \<and> bp_chunk_pos p = length (bytes_of pre) \<and>
     bp_pos p < ch_datalen chunk \<and> n = length (bytes_of pre) + bp_pos p)"

definition searchable :: "chunk_t list \<Rightarrow> bool" where
  "searchable base \<longleftrightarrow> list_all (\<lambda>c. chunk_ok c \<and> 0 < ch_datalen c) base \<and> length (bytes_of base) \<le> BUF_MAX_LEN"

lemma pos_at_less:
  assumes "pos_at base p n" "searchable base"
  shows "n < length (bytes_of base)"
  using assms by (auto simp: pos_at_def searchable_def)

lemma find_char_loop_eq:
  assumes "list_all chunk_ok cs" "cs \<noteq> [] \<Longrightarrow> pos \<le> ch_datalen (hd cs)" "length (bytes_of cs) \<le> BUF_MAX_LEN" "cs = [] \<Longrightarrow> pos = 0"
  shows "(memchr (drop pos (bytes_of cs)) ch = None \<longrightarrow> (\<exists>out'. find_char_loop ch cs pos out = Done (None, out'))) \<and>
    (\<forall>k. memchr (drop pos (bytes_of cs)) ch = Some k \<longrightarrow>
       (\<exists>pre chunk cs' q. cs = pre @ chunk # cs' \<and> q < ch_datalen chunk \<and> length (bytes_of pre) + q = pos + k \<and>
          find_char_loop ch cs pos out = Done (Some (bp_chunk_pos out + (pos + k)),
            out\<lparr>bp_chunk := chunk # cs', bp_pos := q, bp_chunk_pos := bp_chunk_pos out + length (bytes_of pre)\<rparr>)))"
  using assms
proof (induction ch cs pos out rule: find_char_loop.induct)
  case (1 ch pos out)
  then show ?case by simp
next
  case (2 ch chunk cs pos out)
  have ok: "chunk_ok chunk" "list_all chunk_ok cs" using "2.prems"(1) by simp_all
  have le: "pos \<le> ch_datalen chunk" using "2.prems"(2) by simp
  define bs where "bs = drop pos (ch_bytes chunk)"
  have sub: "size_t_sub (ch_datalen chunk) pos = ch_datalen chunk - pos"
    using le chunk_ok_bounds(1,4) [OF ok(1)] by (intro size_t_sub_eq) auto
  have r: "read_mem chunk (ch_data chunk + pos) (size_t_sub (ch_datalen chunk) pos) = Done bs"
    unfolding sub using read_chunk [OF ok(1), of pos "ch_datalen chunk - pos"] le ok(1) by (simp add: bs_def)
  have dr: "drop pos (bytes_of (chunk # cs)) = bs @ bytes_of cs" using le ok(1) by (simp add: bs_def)
  have lbs: "length bs = ch_datalen chunk - pos" using ok(1) by (simp add: bs_def)
  show ?case
  proof (cases "memchr bs ch")
    case None
    let ?out = "out\<lparr>bp_chunk_pos := bp_chunk_pos out + ch_datalen chunk\<rparr>"
    have st: "find_char_loop ch (chunk # cs) pos out = find_char_loop ch cs 0 ?out" using r None by simp
    have mc: "memchr (drop pos (bytes_of (chunk # cs))) ch = map_option ((+) (length bs)) (memchr (bytes_of cs) ch)"
      unfolding dr memchr_append_if using None by simp
    have ih: "(memchr (bytes_of cs) ch = None \<longrightarrow> (\<exists>out'. find_char_loop ch cs 0 ?out = Done (None, out'))) \<and>
        (\<forall>k. memchr (bytes_of cs) ch = Some k \<longrightarrow>
          (\<exists>pre chunk' cs' q. cs = pre @ chunk' # cs' \<and> q < ch_datalen chunk' \<and> length (bytes_of pre) + q = 0 + k \<and>
            find_char_loop ch cs 0 ?out = Done (Some (bp_chunk_pos ?out + (0 + k)),
              ?out\<lparr>bp_chunk := chunk' # cs', bp_pos := q, bp_chunk_pos := bp_chunk_pos ?out + length (bytes_of pre)\<rparr>)))"
      using "2.IH" [OF r None ok(2)] "2.prems"(3) by simp
    show ?thesis
    proof (intro conjI impI allI)
      assume "memchr (drop pos (bytes_of (chunk # cs))) ch = None"
      then show "\<exists>out'. find_char_loop ch (chunk # cs) pos out = Done (None, out')" unfolding mc st using ih by simp
    next
      fix k assume "memchr (drop pos (bytes_of (chunk # cs))) ch = Some k"
      then obtain k' where k': "memchr (bytes_of cs) ch = Some k'" "k = length bs + k'" unfolding mc by auto
      obtain pre chunk' cs' q where q: "cs = pre @ chunk' # cs'" "q < ch_datalen chunk'" "length (bytes_of pre) + q = k'"
          "find_char_loop ch cs 0 ?out = Done (Some (bp_chunk_pos ?out + k'),
             ?out\<lparr>bp_chunk := chunk' # cs', bp_pos := q, bp_chunk_pos := bp_chunk_pos ?out + length (bytes_of pre)\<rparr>)"
        using ih k'(1) by auto
      have "pos + k = ch_datalen chunk + k'" using k'(2) lbs le by simp
      then show "\<exists>pre chunk' cs' q. chunk # cs = pre @ chunk' # cs' \<and> q < ch_datalen chunk' \<and> length (bytes_of pre) + q = pos + k \<and>
          find_char_loop ch (chunk # cs) pos out = Done (Some (bp_chunk_pos out + (pos + k)),
            out\<lparr>bp_chunk := chunk' # cs', bp_pos := q, bp_chunk_pos := bp_chunk_pos out + length (bytes_of pre)\<rparr>)"
        unfolding st using q ok(1) by (intro exI [of _ "chunk # pre"] exI [of _ chunk'] exI [of _ cs'] exI [of _ q]) (simp add: add.assoc)
    qed
  next
    case (Some k)
    have kl: "k < length bs" using memchr_less [OF Some] by simp
    have "pos + k \<le> BUF_MAX_LEN" using kl lbs "2.prems"(3) ok(1) by simp
    then have st: "find_char_loop ch (chunk # cs) pos out =
        Done (Some (bp_chunk_pos out + (pos + k)), out\<lparr>bp_chunk := chunk # cs, bp_pos := pos + k\<rparr>)"
      using r Some by simp
    have mc: "memchr (drop pos (bytes_of (chunk # cs))) ch = Some k" unfolding dr memchr_append_if using Some by simp
    have rec: "out\<lparr>bp_chunk := chunk # cs, bp_pos := pos + k\<rparr> =
        out\<lparr>bp_chunk := chunk # cs, bp_pos := pos + k, bp_chunk_pos := bp_chunk_pos out + length (bytes_of [])\<rparr>" by simp
    show ?thesis unfolding mc st
      using kl lbs rec by (auto intro!: exI [of _ "[]"])
  qed
qed

lemma find_pos_eq:
  assumes "pos_at base p n" "searchable base"
  shows "(memchr (drop n (bytes_of base)) ch = None \<longrightarrow> (\<exists>p'. buf_find_pos_of_char ch p = Done (None, p'))) \<and>
    (\<forall>k. memchr (drop n (bytes_of base)) ch = Some k \<longrightarrow>
      (\<exists>q. buf_find_pos_of_char ch p = Done (Some (n + k), q) \<and> pos_at base q (n + k)))"
proof -
  obtain pre chunk cs where p: "base = pre @ chunk # cs" "bp_chunk p = chunk # cs" "bp_chunk_pos p = length (bytes_of pre)"
     "bp_pos p < ch_datalen chunk" "n = length (bytes_of pre) + bp_pos p"
    using assms(1) unfolding pos_at_def by blast
  have dr: "drop n (bytes_of base) = drop (bp_pos p) (bytes_of (chunk # cs))" using p(1,5) by simp
  have st: "buf_find_pos_of_char ch p = find_char_loop ch (chunk # cs) (bp_pos p) p"
    using p(2,4) by (simp add: buf_find_pos_of_char_def)
  have ok: "list_all chunk_ok (chunk # cs)" "length (bytes_of (chunk # cs)) \<le> BUF_MAX_LEN"
    using assms(2) p(1) by (auto simp: searchable_def list_all_iff)
  have l: "(memchr (drop n (bytes_of base)) ch = None \<longrightarrow> (\<exists>out'. find_char_loop ch (chunk # cs) (bp_pos p) p = Done (None, out'))) \<and>
    (\<forall>k. memchr (drop n (bytes_of base)) ch = Some k \<longrightarrow>
       (\<exists>pre' chunk' cs' q. chunk # cs = pre' @ chunk' # cs' \<and> q < ch_datalen chunk' \<and> length (bytes_of pre') + q = bp_pos p + k \<and>
          find_char_loop ch (chunk # cs) (bp_pos p) p = Done (Some (bp_chunk_pos p + (bp_pos p + k)),
            p\<lparr>bp_chunk := chunk' # cs', bp_pos := q, bp_chunk_pos := bp_chunk_pos p + length (bytes_of pre')\<rparr>)))"
    unfolding dr by (rule find_char_loop_eq [OF ok(1) _ ok(2)]) (use p(4) in auto)
  show ?thesis
  proof (intro conjI impI allI)
    assume "memchr (drop n (bytes_of base)) ch = None"
    then show "\<exists>p'. buf_find_pos_of_char ch p = Done (None, p')" unfolding st using l by blast
  next
    fix k assume "memchr (drop n (bytes_of base)) ch = Some k"
    then obtain pre' chunk' cs' q where q: "chunk # cs = pre' @ chunk' # cs'" "q < ch_datalen chunk'"
        "length (bytes_of pre') + q = bp_pos p + k"
        "find_char_loop ch (chunk # cs) (bp_pos p) p = Done (Some (bp_chunk_pos p + (bp_pos p + k)),
            p\<lparr>bp_chunk := chunk' # cs', bp_pos := q, bp_chunk_pos := bp_chunk_pos p + length (bytes_of pre')\<rparr>)"
      using l by blast
    have "pos_at base (p\<lparr>bp_chunk := chunk' # cs', bp_pos := q, bp_chunk_pos := bp_chunk_pos p + length (bytes_of pre')\<rparr>) (n + k)"
      unfolding pos_at_def using q(1-3) p(1,3,5) by (intro exI [of _ "pre @ pre'"] exI [of _ chunk'] exI [of _ cs']) simp
    then show "\<exists>q. buf_find_pos_of_char ch p = Done (Some (n + k), q) \<and> pos_at base q (n + k)"
      unfolding st using q(4) p(3,5) by (auto simp: add.assoc)
  qed
qed

lemma pos_read:
  assumes "pos_at base p n" "searchable base"
  obtains chunk cs where "bp_chunk p = chunk # cs" "read_mem chunk (ch_data chunk + bp_pos p) 1 = Done [bytes_of base ! n]"
proof -
  obtain pre chunk cs where p: "base = pre @ chunk # cs" "bp_chunk p = chunk # cs" "bp_chunk_pos p = length (bytes_of pre)"
     "bp_pos p < ch_datalen chunk" "n = length (bytes_of pre) + bp_pos p"
    using assms(1) unfolding pos_at_def by blast
  have ok: "chunk_ok chunk" using assms(2) p(1) by (simp add: searchable_def)
  have "take 1 (drop (bp_pos p) (ch_bytes chunk)) = [ch_bytes chunk ! bp_pos p]"
    using p(4) ok by (simp add: take_Suc hd_drop_conv_nth)
  moreover have "bytes_of base ! n = ch_bytes chunk ! bp_pos p" using p(1,4,5) ok by (simp add: nth_append)
  ultimately show ?thesis using that [OF p(2)] read_chunk [OF ok, of "bp_pos p" 1] p(4) by simp
qed

lemma pos_inc_eq:
  assumes "pos_at base p n" "searchable base"
  obtains q where "buf_pos_inc p = Done (n + 1 < length (bytes_of base), q)" "n + 1 < length (bytes_of base) \<longrightarrow> pos_at base q (n + 1)"
proof -
  obtain pre chunk cs where p: "base = pre @ chunk # cs" "bp_chunk p = chunk # cs" "bp_chunk_pos p = length (bytes_of pre)"
     "bp_pos p < ch_datalen chunk" "n = length (bytes_of pre) + bp_pos p"
    using assms(1) unfolding pos_at_def by blast
  have ok: "list_all (\<lambda>c. chunk_ok c \<and> 0 < ch_datalen c) (chunk # cs)" "length (bytes_of base) \<le> BUF_MAX_LEN"
    using assms(2) p(1) by (auto simp: searchable_def)
  have lt: "bp_pos p < BUF_MAX_LEN" using ok p(1,4) by simp
  have len: "length (bytes_of base) = length (bytes_of pre) + ch_datalen chunk + length (bytes_of cs)" using p(1) ok(1) by simp
  consider "bp_pos p + 1 \<noteq> ch_datalen chunk" | "bp_pos p + 1 = ch_datalen chunk" "cs = []"
    | c cs' where "bp_pos p + 1 = ch_datalen chunk" "cs = c # cs'" by (cases cs) auto
  then show ?thesis
  proof cases
    case 1
    then have m: "bp_pos p + 1 < ch_datalen chunk" using p(4) by simp
    have "pos_at base (p\<lparr>bp_pos := bp_pos p + 1\<rparr>) (n + 1)" unfolding pos_at_def using p m by auto
    moreover have "n + 1 < length (bytes_of base)" using len p(5) m by simp
    ultimately show ?thesis using that [of "p\<lparr>bp_pos := bp_pos p + 1\<rparr>"] lt p(2) 1 by (simp add: buf_pos_inc_def)
  next
    case 2
    then have "\<not> n + 1 < length (bytes_of base)" using len p(5) by simp
    then show ?thesis using that [of "p\<lparr>bp_pos := bp_pos p + 1\<rparr>"] lt p(2) 2 by (simp add: buf_pos_inc_def)
  next
    case (3 c cs')
    let ?q = "p\<lparr>bp_chunk_pos := bp_chunk_pos p + ch_datalen chunk, bp_chunk := cs, bp_pos := 0\<rparr>"
    have "pos_at base ?q (n + 1)"
      unfolding pos_at_def using p ok(1) 3 by (intro exI [of _ "pre @ [chunk]"] exI [of _ c] exI [of _ cs']) simp
    moreover have "n + 1 < length (bytes_of base)" using len p(5) 3 ok(1) by simp
    moreover have "buf_pos_inc p = Done (True, ?q)" using lt p(2) 3 by (simp add: buf_pos_inc_def)
    ultimately show ?thesis using that [of ?q] by simp
  qed
qed

lemma matches_eq:
  assumes "pos_at base p n" "searchable base" "s \<noteq> []"
  shows "buf_matches_at_pos p s = Done (occurs_at s (bytes_of base) n)"
  using assms
proof (induction p s arbitrary: n rule: buf_matches_at_pos.induct)
  case (2 p c s)
  have n: "n < length (bytes_of base)" using pos_at_less "2.prems"(1,2) by blast
  have dn: "drop n (bytes_of base) = bytes_of base ! n # drop (n + 1) (bytes_of base)"
    using Cons_nth_drop_Suc [OF n] by simp
  obtain chunk cs where r: "bp_chunk p = chunk # cs" "read_mem chunk (ch_data chunk + bp_pos p) 1 = Done [bytes_of base ! n]"
    by (rule pos_read [OF "2.prems"(1,2)])
  consider "bytes_of base ! n \<noteq> c" | "bytes_of base ! n = c" "s = []" | "bytes_of base ! n = c" "s \<noteq> []" by blast
  then show ?case
  proof cases
    case 1
    then show ?thesis using r dn by (simp add: occurs_at_def)
  next
    case 2
    then show ?thesis using r dn by (simp add: occurs_at_def)
  next
    case 3
    obtain q where q: "buf_pos_inc p = Done (n + 1 < length (bytes_of base), q)" "n + 1 < length (bytes_of base) \<longrightarrow> pos_at base q (n + 1)"
      by (rule pos_inc_eq [OF "2.prems"(1,2)])
    have oc: "occurs_at (c # s) (bytes_of base) n \<longleftrightarrow> occurs_at s (bytes_of base) (n + 1)"
      using 3(1) dn by (simp add: occurs_at_def)
    show ?thesis
    proof (cases "n + 1 < length (bytes_of base)")
      case True
      have h: "\<not> hd [bytes_of base ! n] \<noteq> c" using 3(1) by simp
      have "buf_matches_at_pos q s = Done (occurs_at s (bytes_of base) (n + 1))"
        by (rule "2.IH" [OF r(1,2) h 3(2) q(1) refl _ _ "2.prems"(2) 3(2)]) (use True q(2) in auto)
      then show ?thesis using r 3 q(1) True oc by simp
    next
      case False
      then have "\<not> occurs_at s (bytes_of base) (n + 1)" using 3(2) occurs_at_hd [OF 3(2), of "bytes_of base" "n + 1"] by auto
      then show ?thesis using r 3 q(1) False oc by simp
    qed
  qed
qed simp

lemma find_string_loop_eq:
  assumes "pos_at base p n" "searchable base" "s \<noteq> []"
  shows "find_string_loop p s = Done (map_option ((+) n) (memmem (drop n (bytes_of base)) s))"
  using assms
proof (induction "length (bytes_of base) - n" arbitrary: p n rule: less_induct)
  case less
  let ?D = "bytes_of base"
  have hd: "(case s of [] \<Rightarrow> 0 | c # _ \<Rightarrow> c) = hd s" using assms(3) by (cases s) simp_all
  note f = find_pos_eq [OF less.prems(1,2), of "hd s"]
  have occ: "occurs_at s (drop n ?D) j \<Longrightarrow> drop n ?D ! j = hd s \<and> j < length (drop n ?D)" for j
    using occurs_at_hd [OF assms(3)] by blast
  show ?case
  proof (cases "memchr (drop n ?D) (hd s)")
    case None
    then obtain p' where p': "buf_find_pos_of_char (hd s) p = Done (None, p')" using f by blast
    have "hd s \<notin> set (drop n ?D)" using None by (simp add: memchr_None)
    then have "\<forall>j. \<not> occurs_at s (drop n ?D) j" using occ by (metis nth_mem)
    then have "memmem (drop n ?D) s = None" using memmem_first [OF assms(3), of "drop n ?D"] by (auto split: option.splits)
    then show ?thesis using p' by (subst find_string_loop.simps) (simp add: hd)
  next
    case (Some k)
    then obtain q where q: "buf_find_pos_of_char (hd s) p = Done (Some (n + k), q)" "pos_at base q (n + k)" using f by blast
    have no: "\<forall>j<k. \<not> occurs_at s (drop n ?D) j"
    proof (intro allI impI notI)
      fix j assume j: "j < k" "occurs_at s (drop n ?D) j"
      then have "hd s \<in> set (take k (drop n ?D))"
        using occ [OF j(2)] by (metis in_set_conv_nth length_take min_less_iff_conj nth_take)
      then show False using memchr_less [OF Some] by simp
    qed
    have m: "buf_matches_at_pos q s = Done (occurs_at s ?D (n + k))" by (rule matches_eq [OF q(2) less.prems(2) assms(3)])
    have ab: "bp_chunk_pos q + bp_pos q = n + k" using q(2) by (auto simp: pos_at_def)
    have nk: "n + k < length ?D" by (rule pos_at_less [OF q(2) less.prems(2)])
    have fits: "n + k \<le> BUF_MAX_LEN" using nk less.prems(2) by (simp add: searchable_def)
    show ?thesis
    proof (cases "occurs_at s ?D (n + k)")
      case True
      then have "occurs_at s (drop n ?D) k" by (simp add: occurs_at_def add.commute)
      then have "memmem (drop n ?D) s = Some k" using memmem_unique [OF assms(3) _ no] by blast
      then show ?thesis using q(1) m True ab fits by (subst find_string_loop.simps) (simp add: hd)
    next
      case False
      then have "\<not> occurs_at s (drop n ?D) k" by (simp add: occurs_at_def add.commute)
      then have "\<forall>j<k + 1. \<not> occurs_at s (drop n ?D) j" using no by (auto simp: less_Suc_eq)
      then have mm: "memmem (drop n ?D) s = map_option ((+) (k + 1)) (memmem (drop (n + k + 1) ?D) s)"
        using memmem_skip [OF assms(3), of "k + 1" "drop n ?D"] by (simp add: add.commute add.left_commute)
      obtain r where r: "buf_pos_inc q = Done (n + k + 1 < length ?D, r)" "n + k + 1 < length ?D \<longrightarrow> pos_at base r (n + k + 1)"
        by (rule pos_inc_eq [OF q(2) less.prems(2)])
      show ?thesis
      proof (cases "n + k + 1 < length ?D")
        case True
        have "find_string_loop r s = Done (map_option ((+) (n + k + 1)) (memmem (drop (n + k + 1) ?D) s))"
          by (rule less.hyps [OF _ r(2) [rule_format, OF True] less.prems(2) assms(3)]) (use True in simp)
        then show ?thesis
          using q(1) m False r(1) True mm
          by (subst find_string_loop.simps) (cases "memmem (drop (n + k + 1) ?D) s", simp_all add: hd)
      next
        case at_end: False
        then have "memmem (drop (n + k + 1) ?D) s = None" using assms(3) by simp
        then show ?thesis using q(1) m False r(1) at_end mm by (subst find_string_loop.simps) (simp add: hd)
      qed
    qed
  qed
qed

lemma buf_find_string_ok:
  assumes "buf_ok buf" "b_datalen buf \<le> BUF_MAX_LEN" "list_all (\<lambda>c. 0 < ch_datalen c) (chunks buf)" "s \<noteq> []"
  shows "buf_find_string_offset buf s = Done (memmem (contents buf) s)"
proof (cases "chunks buf")
  case Nil
  have "s = [] \<Longrightarrow> False" using assms(4) by simp
  then show ?thesis
    using Nil assms(4) by (cases s) (auto simp: buf_find_string_offset_def buf_pos_init_def contents_def find_string_loop.simps buf_find_pos_of_char_def)
next
  case (Cons c cs)
  have ok: "searchable (chunks buf)"
    using assms(1-3) by (auto simp: searchable_def buf_ok_def list_all_iff contents_def bytes_of_def)
  have "pos_at (chunks buf) (buf_pos_init buf) 0"
    using Cons assms(3) by (auto simp: pos_at_def buf_pos_init_def intro!: exI [of _ "[]"])
  from find_string_loop_eq [OF this ok assms(4)] show ?thesis
    by (cases "memmem (bytes_of (chunks buf)) s") (simp_all add: buf_find_string_offset_def contents_def bytes_of_def)
qed

lemma find_offset_loop_eq:
  assumes "list_all chunk_ok cs"
  shows "find_offset_loop ch cs offset = Done (map_option ((+) offset) (memchr (concat (map ch_bytes cs)) ch))"
  using assms
proof (induction ch cs offset rule: find_offset_loop.induct)
  case (2 ch c cs offset)
  have r: "read_mem c (ch_data c) (ch_datalen c) = Done (ch_bytes c)" using read_chunk_0 [of c "ch_datalen c"] "2.prems" by simp
  show ?case
  proof (cases "memchr (ch_bytes c) ch")
    case None
    then show ?thesis
      using r "2.IH" [OF r None] "2.prems"
      by (cases "memchr (concat (map ch_bytes cs)) ch") (simp_all add: memchr_append_if)
  next
    case (Some k)
    then show ?thesis using r by (simp add: memchr_append_if)
  qed
qed simp

lemma find_char_ok:
  "buf_ok buf \<Longrightarrow> b_datalen buf \<le> BUF_MAX_LEN \<Longrightarrow> buf_find_offset_of_char buf ch = Done (memchr (contents buf) ch)"
  using find_offset_loop_eq [of "chunks buf" ch 0]
  by (cases "memchr (contents buf) ch") (simp_all add: buf_find_offset_of_char_def buf_ok_def contents_def)

section \<open>Properties\<close>

text \<open>Sequences of additions and withdrawals, over any store with a function for either; what they add in all; and
  that they keep within a capacity and take no more than there is.\<close>

datatype queue_op = Put bytes | Get nat

fun run_ops :: "('q \<Rightarrow> bytes \<Rightarrow> 'q outcome) \<Rightarrow> ('q \<Rightarrow> nat \<Rightarrow> (bytes \<times> 'q) outcome) \<Rightarrow> 'q \<Rightarrow> queue_op list \<Rightarrow> bytes \<Rightarrow> (bytes \<times> 'q) outcome" where
  "run_ops put get q [] out = Done (out, q)"
| "run_ops put get q (Put bs # ops) out = and_then (put q bs) (\<lambda>q. run_ops put get q ops out)"
| "run_ops put get q (Get n # ops) out = and_then (get q n) (\<lambda>(bs, q). run_ops put get q ops (out @ bs))"

fun feasible_ops :: "nat \<Rightarrow> nat \<Rightarrow> queue_op list \<Rightarrow> bool" where
  "feasible_ops room len [] = True"
| "feasible_ops room len (Put bs # ops) = (len + length bs \<le> room \<and> feasible_ops room (len + length bs) ops)"
| "feasible_ops room len (Get n # ops) = (n \<le> len \<and> feasible_ops room (len - n) ops)"

fun inputs_of :: "queue_op list \<Rightarrow> bytes" where
  "inputs_of [] = []"
| "inputs_of (Put bs # ops) = bs @ inputs_of ops"
| "inputs_of (Get n # ops) = inputs_of ops"

text \<open>Byte queues: the interface of a store of bytes that is written at one end and read at the other.\<close>

locale byte_queue =
  fixes good :: "'q \<Rightarrow> bool" and held :: "'q \<Rightarrow> bytes" and room :: nat
    and put :: "'q \<Rightarrow> bytes \<Rightarrow> 'q outcome" and get :: "'q \<Rightarrow> nat \<Rightarrow> (bytes \<times> 'q) outcome"
  assumes put_law: "good q \<Longrightarrow> length (held q) + length bs \<le> room \<Longrightarrow> \<exists>q'. put q bs = Done q' \<and> good q' \<and> held q' = held q @ bs"
    and get_law: "good q \<Longrightarrow> length (held q) \<le> room \<Longrightarrow> n \<le> length (held q) \<Longrightarrow>
      \<exists>q'. get q n = Done (take n (held q), q') \<and> good q' \<and> held q' = drop n (held q)"
begin

lemma run_keeps_stream:
  "good q \<Longrightarrow> length (held q) \<le> room \<Longrightarrow> feasible_ops room (length (held q)) ops \<Longrightarrow>
     \<exists>out' q'. run_ops put get q ops out = Done (out', q') \<and> good q' \<and> out' @ held q' = out @ held q @ inputs_of ops"
proof (induction ops arbitrary: q out)
  case Nil
  then show ?case by simp
next
  case (Cons x ops)
  show ?case
  proof (cases x)
    case (Put bs)
    have fe: "length (held q) + length bs \<le> room" "feasible_ops room (length (held q) + length bs) ops"
      using Cons.prems(3) Put by simp_all
    obtain q' where q': "put q bs = Done q'" "good q'" "held q' = held q @ bs" using put_law [OF Cons.prems(1) fe(1)] by blast
    have "length (held q') \<le> room" "feasible_ops room (length (held q')) ops" using fe q'(3) by simp_all
    from Cons.IH [OF q'(2) this, of out] show ?thesis using Put q'(1,3) by simp
  next
    case (Get n)
    have fe: "n \<le> length (held q)" "feasible_ops room (length (held q) - n) ops" using Cons.prems(3) Get by simp_all
    obtain q' where q': "get q n = Done (take n (held q), q')" "good q'" "held q' = drop n (held q)"
      using get_law [OF Cons.prems(1,2) fe(1)] by blast
    have "length (held q') \<le> room" "feasible_ops room (length (held q')) ops" using fe q'(3) Cons.prems(2) by simp_all
    from Cons.IH [OF q'(2) this, of "out @ take n (held q)"] show ?thesis
      using Get q'(1) unfolding q'(3) append.assoc append_take_drop_id by (simp add: append_assoc [symmetric] del: append_assoc)
  qed
qed

end

text \<open>A buffer with the state of the allocator is such a queue.\<close>

definition queue_good :: "int \<Rightarrow> buf_t \<times> alloc_state \<Rightarrow> bool" where
  "queue_good k q \<longleftrightarrow> buf_ok (fst q) \<and> others (fst q) (snd q) = k \<and> 0 \<le> k"

definition queue_put :: "platform \<Rightarrow> buf_t \<times> alloc_state \<Rightarrow> bytes \<Rightarrow> (buf_t \<times> alloc_state) outcome" where
  "queue_put E q bs = and_then (buf_add E (fst q) bs (snd q)) (\<lambda>(r, q). if r < 0 then Minus_1 else Done q)"

definition queue_get :: "buf_t \<times> alloc_state \<Rightarrow> nat \<Rightarrow> (bytes \<times> buf_t \<times> alloc_state) outcome" where
  "queue_get q n = and_then (buf_get_bytes (fst q) n (snd q)) (\<lambda>(r, bs, q). Done (bs, q))"

interpretation bq: byte_queue "queue_good k" "\<lambda>q. contents (fst q)" BUF_MAX_LEN "queue_put E" queue_get for k E
proof
  fix q :: "buf_t \<times> alloc_state" and bs :: bytes
  assume g: "queue_good k q" "length (contents (fst q)) + length bs \<le> BUF_MAX_LEN"
  obtain b s where "buf_add E (fst q) bs (snd q) = Done (int (b_datalen b), b, s)" "buf_ok b" "contents b = contents (fst q) @ bs"
    "others b s = others (fst q) (snd q)"
    by (rule buf_add_ok [of "fst q" bs E "snd q"]) (use g in \<open>auto simp: queue_good_def buf_ok_def\<close>)
  then show "\<exists>q'. queue_put E q bs = Done q' \<and> queue_good k q' \<and> contents (fst q') = contents (fst q) @ bs"
    using g(1) by (auto simp: queue_put_def queue_good_def)
next
  fix q :: "buf_t \<times> alloc_state" and n
  assume g: "queue_good k q" "length (contents (fst q)) \<le> BUF_MAX_LEN" "n \<le> length (contents (fst q))"
  obtain b s where "buf_get_bytes (fst q) n (snd q) = Done (int (b_datalen (fst q) - n), take n (contents (fst q)), b, s)" "buf_ok b"
    "contents b = drop n (contents (fst q))" "others b s = others (fst q) (snd q)" "b_datalen b = b_datalen (fst q) - n"
    by (rule buf_get_bytes_ok [of "fst q" n "snd q"]) (use g in \<open>auto simp: queue_good_def buf_ok_def\<close>)
  then show "\<exists>q'. queue_get q n = Done (take n (contents (fst q)), q') \<and> queue_good k q' \<and> contents (fst q') = drop n (contents (fst q))"
    using g(1) by (auto simp: queue_get_def queue_good_def)
qed

definition run_buffer :: "platform \<Rightarrow> buf_t \<Rightarrow> alloc_state \<Rightarrow> queue_op list \<Rightarrow> (bytes \<times> buf_t \<times> alloc_state) outcome" where
  "run_buffer E buf s ops = run_ops (queue_put E) queue_get (buf, s) ops []"

text \<open>C4: a buffer is a first-in first-out queue of bytes.  From any buffer in order, a sequence of calls of \<open>buf_add\<close>
  and \<open>buf_get_bytes\<close> that never holds more than \<open>BUF_MAX_LEN\<close> bytes nor takes more than there is runs without a failed assertion
  or an access outside the memory of a chunk; what was taken, followed by what is still held, is what was held at first,
  followed by what was added; and no byte of memory is lost or counted twice.\<close>

theorem buffer_is_fifo:
  assumes "buf_ok buf" "b_datalen buf \<le> BUF_MAX_LEN" "0 \<le> others buf s" "feasible_ops BUF_MAX_LEN (b_datalen buf) ops"
  shows "\<exists>out buf' s'. run_buffer E buf s ops = Done (out, buf', s') \<and> buf_ok buf' \<and> others buf' s' = others buf s \<and>
    out @ contents buf' = contents buf @ inputs_of ops"
proof -
  have "queue_good (others buf s) (buf, s)" using assms(1,3) by (simp add: queue_good_def)
  then show ?thesis
    using bq.run_keeps_stream [of "others buf s" "(buf, s)" ops E "[]"] assms by (auto simp: queue_good_def buf_ok_def run_buffer_def)
qed

lemma line_position: "memchr xs c = Some k \<Longrightarrow> takeWhile (\<lambda>x. x \<noteq> c) xs = take k xs \<and> k < length xs"
proof (induction xs c arbitrary: k rule: memchr.induct)
  case (2 x xs c)
  then show ?case by (cases "x = c") auto
qed simp

lemma buf_get_line_ok:
  assumes "buf_ok buf" "b_datalen buf \<le> BUF_MAX_LEN" "0 \<le> others buf s"
  shows "(10 \<notin> set (contents buf) \<longrightarrow> buf_get_line buf data_len s = Done (0, [], data_len, buf, s)) \<and>
    (10 \<in> set (contents buf) \<longrightarrow>
      (let line = takeWhile (\<lambda>b. b \<noteq> 10) (contents buf)
       in (data_len < length line + 2 \<longrightarrow> buf_get_line buf data_len s = Done (- 1, [], length line + 2, buf, s)) \<and>
          (length line + 2 \<le> data_len \<longrightarrow> (\<exists>buf' s'.
             buf_get_line buf data_len s = Done (1, line @ [10, 0], length line + 1, buf', s') \<and> buf_ok buf' \<and>
             contents buf = line @ [10] @ contents buf' \<and> others buf' s' = others buf s))))"
proof (cases "memchr (contents buf) 10")
  case None
  then have "10 \<notin> set (contents buf)" by (simp add: memchr_None)
  then show ?thesis using None find_char_ok [OF assms(1,2)] by (simp add: buf_get_line_def)
next
  case (Some k)
  have m: "10 \<in> set (contents buf)" using Some memchr_None [of "contents buf" 10] by auto
  have t: "takeWhile (\<lambda>b. b \<noteq> 10) (contents buf) = take k (contents buf)" "k < length (contents buf)"
    using line_position [OF Some] by auto
  have at: "contents buf ! k = 10" using memchr_less [OF Some] by simp
  have ne: "chunks buf \<noteq> []" using t(2) by (auto simp: contents_def)
  have len: "length (take k (contents buf)) = k" using t(2) by simp
  have tk: "take (k + 1) (contents buf) = take k (contents buf) @ [10]" using t(2) at by (simp add: take_Suc_conv_app_nth)
  obtain b s' where g: "buf_get_bytes buf (k + 1) s = Done (int (b_datalen buf - (k + 1)), take (k + 1) (contents buf), b, s')"
    "buf_ok b" "contents b = drop (k + 1) (contents buf)" "others b s' = others buf s" "b_datalen b = b_datalen buf - (k + 1)"
    by (rule buf_get_bytes_ok [of buf "k + 1" s]) (use assms t(2) in \<open>auto simp: buf_ok_def\<close>)
  have st: "buf_get_line buf data_len s = (if k + 2 > data_len then Done (- 1, [], k + 2, buf, s)
      else Done (1, take k (contents buf) @ [10, 0], k + 1, b, s'))"
    using ne find_char_ok [OF assms(1,2), of 10] Some g(1) tk by (simp add: buf_get_line_def)
  have "contents buf = take k (contents buf) @ [10] @ contents b"
    using tk g(3) append_take_drop_id [of "k + 1" "contents buf"] by (metis append.assoc)
  then show ?thesis using m t(1) len st g(2,4) by (auto simp: Let_def)
qed

text \<open>C6: the limits of \<open>buf_add\<close>.  An addition that keeps within \<open>BUF_MAX_LEN\<close> succeeds and appends the bytes; one that
  exceeds it is refused with \<open>-1\<close> and changes nothing, if the added string itself is within the limit.  For a longer string
  the guard \<open>BUF_MAX_LEN - string_len\<close> wraps around and lets it pass, and the call ends in a failed assertion instead of
  the documented \<open>-1\<close>.\<close>

theorem buf_add_limits:
  assumes "buf_ok buf" "b_datalen buf \<le> BUF_MAX_LEN"
  shows "(b_datalen buf + length string \<le> BUF_MAX_LEN \<longrightarrow>
      (\<exists>buf' s'. buf_add E buf string s = Done (int (b_datalen buf + length string), buf', s') \<and> buf_ok buf' \<and> buf_assert_ok buf' \<and>
         contents buf' = contents buf @ string \<and> others buf' s' = others buf s)) \<and>
    (BUF_MAX_LEN < b_datalen buf + length string \<and> length string \<le> BUF_MAX_LEN \<longrightarrow> buf_add E buf string s = Done (- 1, buf, s)) \<and>
    (BUF_MAX_LEN < length string \<and> length string < 2 ^ 63 \<longrightarrow> buf_add E buf string s = Assertion_failed)"
proof (intro conjI impI)
  assume "b_datalen buf + length string \<le> BUF_MAX_LEN"
  then obtain buf' s' where b: "buf_add E buf string s = Done (int (b_datalen buf'), buf', s')" "buf_ok buf'" "contents buf' = contents buf @ string"
      "others buf' s' = others buf s"
    using buf_add_ok [OF assms(1)] by blast
  have "b_datalen buf' = b_datalen buf + length string" using b(2,3) assms(1) by (simp add: buf_ok_def)
  then show "\<exists>buf' s'. buf_add E buf string s = Done (int (b_datalen buf + length string), buf', s') \<and> buf_ok buf' \<and> buf_assert_ok buf' \<and>
      contents buf' = contents buf @ string \<and> others buf' s' = others buf s"
    using b buf_ok_assert_ok [OF b(2)] \<open>b_datalen buf + length string \<le> BUF_MAX_LEN\<close> by simp
qed (use buf_add_refused [OF assms(2)] buf_add_too_long [OF assms] in auto)

text \<open>C5: the other operations as functions on the bytes held.  On buffers in order, within the limits: peeking gives the
  first bytes; pulling up changes nothing but makes at least as many bytes contiguous as asked for (or all) and points to them;
  moving between buffers appends a prefix of one to the other, or all; copying and clearing do what they say; and every one
  keeps the buffers in order and the account of allocated bytes exact.\<close>

theorem buffer_operations:
  assumes "buf_ok buf" "b_datalen buf \<le> BUF_MAX_LEN" "buf_ok buf2" "b_datalen buf2 + n \<le> BUF_MAX_LEN"
    "0 \<le> int (total_bytes_allocated_in_chunks s) - int (buf_allocation buf) - int (buf_allocation buf2)"
  shows "(n \<le> b_datalen buf \<longrightarrow> buf_peek buf n = Done (take n (contents buf))) \<and>
    (\<exists>head_out len_out buf' s'. buf_pullup E buf n s = Done (head_out, len_out, buf', s') \<and> buf_ok buf' \<and>
       contents buf' = contents buf \<and> others buf' s' = others buf s \<and>
       (contents buf \<noteq> [] \<longrightarrow> (\<exists>h cs. chunks buf' = h # cs \<and> head_out = Some (ch_data h) \<and> min n (length (contents buf)) \<le> len_out \<and>
          take len_out (drop (ch_data h) (ch_mem h)) = take len_out (contents buf)))) \<and>
    (\<exists>buf2' buf' s'. buf_move_to_buf E buf2 buf n s = Done (int (min n (b_datalen buf)), n - b_datalen buf, buf2', buf', s') \<and>
       buf_ok buf2' \<and> buf_ok buf' \<and> contents buf2' = contents buf2 @ take n (contents buf) \<and> contents buf' = drop n (contents buf) \<and>
       int (total_bytes_allocated_in_chunks s') - int (buf_allocation buf2') - int (buf_allocation buf') =
         int (total_bytes_allocated_in_chunks s) - int (buf_allocation buf2) - int (buf_allocation buf)) \<and>
    (b_datalen buf2 + b_datalen buf \<le> BUF_MAX_LEN \<longrightarrow>
      (\<exists>buf2' buf'. buf_move_all buf2 (Some buf) = (b_datalen buf, buf2', Some buf') \<and> buf_ok buf2' \<and> buf_ok buf' \<and>
         contents buf2' = contents buf2 @ contents buf \<and> contents buf' = [] \<and>
         buf_allocation buf2' + buf_allocation buf' = buf_allocation buf2 + buf_allocation buf)) \<and>
    (\<exists>buf' s'. buf_copy buf s = (buf', s') \<and> buf_ok buf' \<and> contents buf' = contents buf \<and>
       others buf' s' = int (total_bytes_allocated_in_chunks s)) \<and>
    (\<exists>buf' s'. buf_clear buf s = Done (buf', s') \<and> buf_ok buf' \<and> contents buf' = [] \<and>
       int (total_bytes_allocated_in_chunks s') = others buf s)"
proof (intro conjI)
  have o: "0 \<le> others buf s" using assms(5) by (simp add: others_def)
  show "n \<le> b_datalen buf \<longrightarrow> buf_peek buf n = Done (take n (contents buf))" using buf_peek_ok [OF assms(1)] by blast
  have ne: "chunks buf \<noteq> []" if "contents buf \<noteq> []" using that by (auto simp: contents_def)
  show "\<exists>head_out len_out buf' s'. buf_pullup E buf n s = Done (head_out, len_out, buf', s') \<and> buf_ok buf' \<and>
       contents buf' = contents buf \<and> others buf' s' = others buf s \<and>
       (contents buf \<noteq> [] \<longrightarrow> (\<exists>h cs. chunks buf' = h # cs \<and> head_out = Some (ch_data h) \<and> min n (length (contents buf)) \<le> len_out \<and>
          take len_out (drop (ch_data h) (ch_mem h)) = take len_out (contents buf)))"
    by (rule buf_pullup_ok [OF assms(1,2) o, of E n]) (use ne in blast)
  show "\<exists>buf2' buf' s'. buf_move_to_buf E buf2 buf n s = Done (int (min n (b_datalen buf)), n - b_datalen buf, buf2', buf', s') \<and>
       buf_ok buf2' \<and> buf_ok buf' \<and> contents buf2' = contents buf2 @ take n (contents buf) \<and> contents buf' = drop n (contents buf) \<and>
       int (total_bytes_allocated_in_chunks s') - int (buf_allocation buf2') - int (buf_allocation buf') =
         int (total_bytes_allocated_in_chunks s) - int (buf_allocation buf2) - int (buf_allocation buf)"
    by (rule buf_move_to_buf_ok [OF assms(3,1,2,4), of s E]) (use assms(5) in auto)
  show "b_datalen buf2 + b_datalen buf \<le> BUF_MAX_LEN \<longrightarrow>
      (\<exists>buf2' buf'. buf_move_all buf2 (Some buf) = (b_datalen buf, buf2', Some buf') \<and> buf_ok buf2' \<and> buf_ok buf' \<and>
         contents buf2' = contents buf2 @ contents buf \<and> contents buf' = [] \<and>
         buf_allocation buf2' + buf_allocation buf' = buf_allocation buf2 + buf_allocation buf)"
    using buf_move_all_ok [OF assms(3,1)] by metis
  show "\<exists>buf' s'. buf_copy buf s = (buf', s') \<and> buf_ok buf' \<and> contents buf' = contents buf \<and>
       others buf' s' = int (total_bytes_allocated_in_chunks s)"
    by (rule buf_copy_ok [OF assms(1), of s]) blast
  show "\<exists>buf' s'. buf_clear buf s = Done (buf', s') \<and> buf_ok buf' \<and> contents buf' = [] \<and>
       int (total_bytes_allocated_in_chunks s') = others buf s"
    by (rule buf_clear_ok [OF assms(1) o]) blast
qed

text \<open>A full chunk \<open>ab\<close> and an empty last chunk whose fresh memory happens to begin with \<open>c\<close>, as a read from a socket
  that would block leaves it.\<close>

definition empty_tail_buffer :: buf_t where
  "empty_tail_buffer = \<lparr>magic = BUFFER_MAGIC, b_datalen = 2, default_chunk_size = 4096, chunks =
     [\<lparr>ch_datalen = 2, ch_memlen = 2, ch_DBG_alloc = 50, ch_data = 0, ch_inserted_time = 0, ch_mem = [97, 98, 0, 0, 0, 0]\<rparr>,
      \<lparr>ch_datalen = 0, ch_memlen = 1, ch_DBG_alloc = 49, ch_data = 0, ch_inserted_time = 0, ch_mem = [99, 0, 0, 0, 0]\<rparr>]\<rparr>"

lemma four_zeros: "replicate SENTINEL_LEN 0 = [0, 0, 0, 0 :: u8]"
  by (simp add: numeral_eq_Suc)

lemma empty_tail_facts:
  "buf_ok empty_tail_buffer" "buf_assert_ok empty_tail_buffer" "contents empty_tail_buffer = [97, 98]"
  by (simp_all add: empty_tail_buffer_def buf_ok_def chunk_ok_def contents_def ch_bytes_def CHUNK_ALLOC_SIZE_def SIZE_T_CEILING_def
      MIN_CHUNK_ALLOC_def buf_assert_ok_def chunk_assert_ok_def four_zeros)

lemma empty_tail_search: "buf_find_string_offset empty_tail_buffer [97, 98, 99] = Done (Some 0)"
  by (simp add: buf_find_string_offset_def find_string_loop.simps buf_pos_init_def empty_tail_buffer_def buf_find_pos_of_char_def
      read_mem_def size_t_sub_eq buf_pos_inc_def)

text \<open>C7: searching.  In a buffer in order without an empty chunk, \<open>buf_find_string_offset\<close> gives the first occurrence of the string
  among the bytes held, or none, with no access outside of them; with an empty last chunk it may read memory that was never written and
  report an occurrence that is none.  \<open>buf_get_line\<close> takes the first line if there is one and it fits, with the newline and
  a NUL, and otherwise changes nothing.  \<open>buf_peek_startswith\<close> compares a prefix.\<close>

theorem buffer_search:
  assumes "buf_ok buf" "b_datalen buf \<le> BUF_MAX_LEN" "0 \<le> others buf s" "str \<noteq> []"
  shows "(list_all (\<lambda>c. 0 < ch_datalen c) (chunks buf) \<longrightarrow> buf_find_string_offset buf str = Done (memmem (contents buf) str)) \<and>
    (10 \<notin> set (contents buf) \<longrightarrow> buf_get_line buf data_len s = Done (0, [], data_len, buf, s)) \<and>
    (10 \<in> set (contents buf) \<longrightarrow>
      (let line = takeWhile (\<lambda>b. b \<noteq> 10) (contents buf)
       in (data_len < length line + 2 \<longrightarrow> buf_get_line buf data_len s = Done (- 1, [], length line + 2, buf, s)) \<and>
          (length line + 2 \<le> data_len \<longrightarrow> (\<exists>buf' s'.
             buf_get_line buf data_len s = Done (1, line @ [10, 0], length line + 1, buf', s') \<and> buf_ok buf' \<and>
             contents buf = line @ [10] @ contents buf' \<and> others buf' s' = others buf s)))) \<and>
    (0 \<notin> set str \<and> length str \<le> PEEK_BUF_STARTSWITH_MAX \<longrightarrow>
      buf_peek_startswith buf str = Done (take (length str) (contents buf) = str)) \<and>
    (buf_ok empty_tail_buffer \<and> buf_assert_ok empty_tail_buffer \<and> memmem (contents empty_tail_buffer) [97, 98, 99] = None \<and>
      buf_find_string_offset empty_tail_buffer [97, 98, 99] = Done (Some 0))"
proof -
  have sw: "buf_peek_startswith buf str = Done (take (length str) (contents buf) = str)"
    if "0 \<notin> set str" "length str \<le> PEEK_BUF_STARTSWITH_MAX"
  proof -
    have t: "takeWhile (\<lambda>b. b \<noteq> 0) str = str" using that(1) by (auto simp: takeWhile_eq_all_conv)
    have "take (length str) (contents buf) \<noteq> str" if "b_datalen buf < length str"
    proof
      assume "take (length str) (contents buf) = str"
      then have "length str \<le> length (contents buf)" by (metis length_take min.cobounded1)
      then show False using that assms(1) by (simp add: buf_ok_def)
    qed
    then show ?thesis
      using that(2) assms(4) buf_peek_ok [OF assms(1), of "length str"]
      unfolding buf_peek_startswith_def t Let_def by auto
  qed
  show ?thesis
    using buf_find_string_ok [OF assms(1,2) _ assms(4)] buf_get_line_ok [OF assms(1-3), of data_len] sw empty_tail_facts empty_tail_search
    by simp
qed

text \<open>Fresh memory of zeros and a clock that stands still, for concrete runs; and a buffer that holds the line \<open>ab\<close>.\<close>

definition zero_platform :: platform where
  "zero_platform = \<lparr>fresh_byte = (\<lambda>_ _. 0), coarse_stamp = (\<lambda>_. 0)\<rparr>"

definition line_buffer :: buf_t where
  "line_buffer = \<lparr>magic = BUFFER_MAGIC, b_datalen = 3, default_chunk_size = 4096, chunks =
     [\<lparr>ch_datalen = 3, ch_memlen = 4, ch_DBG_alloc = 52, ch_data = 1, ch_inserted_time = 0, ch_mem = [0, 97, 98, 10, 0, 0, 0, 0]\<rparr>]\<rparr>"

lemma line_buffer_facts:
  "buf_ok line_buffer" "contents line_buffer = [97, 98, 10]" "b_datalen line_buffer = 3" "buf_allocation line_buffer = 52"
  by (simp_all add: line_buffer_def buf_ok_def chunk_ok_def contents_def ch_bytes_def CHUNK_ALLOC_SIZE_def SIZE_T_CEILING_def
      MIN_CHUNK_ALLOC_def four_zeros buf_allocation_def)

theorem buffer_is_fifo_witness:
  "\<exists>out buf' s'. run_buffer zero_platform buf_new \<lparr>total_bytes_allocated_in_chunks = 0, n_mallocs = 0, n_stamps = 0\<rparr> [Put [1, 2], Get 1, Put [3]] =
     Done (out, buf', s') \<and> out @ contents buf' = [1, 2, 3]"
proof -
  let ?s = "\<lparr>total_bytes_allocated_in_chunks = 0, n_mallocs = 0, n_stamps = 0\<rparr>"
  have "b_datalen buf_new = 0" by (simp add: buf_new_def)
  moreover have "others buf_new ?s = 0" by (simp add: others_def buf_new_ok)
  ultimately show ?thesis
    using buffer_is_fifo [of buf_new ?s "[Put [1, 2], Get 1, Put [3]]" zero_platform] buf_new_ok by auto
qed

theorem buffer_operations_witness:
  "\<exists>buf2' buf' s'. buf_move_to_buf zero_platform buf_new line_buffer 2 \<lparr>total_bytes_allocated_in_chunks = 52, n_mallocs = 1, n_stamps = 1\<rparr> =
     Done (2, 0, buf2', buf', s') \<and> contents buf2' = [97, 98] \<and> contents buf' = [10]"
proof -
  let ?s = "\<lparr>total_bytes_allocated_in_chunks = 52, n_mallocs = 1, n_stamps = 1\<rparr>"
  have h: "b_datalen line_buffer \<le> BUF_MAX_LEN" "b_datalen buf_new + 2 \<le> BUF_MAX_LEN"
    "0 \<le> int (total_bytes_allocated_in_chunks ?s) - int (buf_allocation line_buffer) - int (buf_allocation buf_new)"
    using line_buffer_facts(3,4) buf_new_ok by (simp_all add: buf_new_def)
  have "contents buf_new = []" by (simp add: buf_new_def contents_def)
  then show ?thesis
    using buffer_operations [OF line_buffer_facts(1) h(1) buf_new_ok(1) h(2,3), of zero_platform] by (auto simp: line_buffer_facts)
qed

theorem buf_add_limits_witness:
  "\<exists>buf' s'. buf_add zero_platform buf_new [1, 2, 3] \<lparr>total_bytes_allocated_in_chunks = 0, n_mallocs = 0, n_stamps = 0\<rparr> = Done (3, buf', s') \<and> contents buf' = [1, 2, 3]"
proof -
  have "b_datalen buf_new = 0" by (simp add: buf_new_def)
  then show ?thesis
    using buf_add_limits [of buf_new "[1, 2, 3]" zero_platform "\<lparr>total_bytes_allocated_in_chunks = 0, n_mallocs = 0, n_stamps = 0\<rparr>"] buf_new_ok by auto
qed

theorem buffer_search_witness:
  "buf_find_string_offset line_buffer [98, 10] = Done (Some 1) \<and> buf_peek_startswith line_buffer [98, 10] = Done False \<and>
   (\<exists>buf' s'. buf_get_line line_buffer 10 \<lparr>total_bytes_allocated_in_chunks = 52, n_mallocs = 1, n_stamps = 1\<rparr> =
      Done (1, [97, 98, 10, 0], 3, buf', s') \<and> contents buf' = [])"
proof -
  let ?s = "\<lparr>total_bytes_allocated_in_chunks = 52, n_mallocs = 1, n_stamps = 1\<rparr>"
  have "0 \<le> others line_buffer ?s" by (simp add: others_def line_buffer_facts)
  moreover have "list_all (\<lambda>c. 0 < ch_datalen c) (chunks line_buffer)" by (simp add: line_buffer_def)
  ultimately show ?thesis
    using buffer_search [of line_buffer ?s "[98, 10]" 10] by (auto simp: line_buffer_facts Let_def PEEK_BUF_STARTSWITH_MAX_def)
qed

end
