(* ===== verification/Versions.thy ===== *)
theory Versions
  imports Smart_List Smartlist_Split Bin_Ascii
begin

text \<open>
  The version numbers of \<open>core/or/versions.c\<close>: parsing, comparing, sorting, and the status of a version on a list of
  recommended ones.

  A pointer into the string being parsed is the text from there on.  \<open>-1\<close> is \<open>Minus_1\<close>, a failed assertion is
  \<open>Assertion_failed\<close>.  Sorting is the \<open>qsort\<close> of the C library, which is a parameter.
\<close>

section \<open>Definitions\<close>

datatype version_release = VER_PRE | VER_RC | VER_RELEASE

record tor_version_t =
  major :: int
  minor :: int
  micro :: int
  v_status :: version_release
  patchlevel :: int
  status_tag :: string
  svn_revision :: int
  git_tag_len :: int
  git_tag :: bytes

abbreviation MAX_STATUS_TAG_LEN :: nat where "MAX_STATUS_TAG_LEN \<equiv> 32"
abbreviation HEX_DIGEST_LEN :: nat where "HEX_DIGEST_LEN \<equiv> 40"

definition version_zero :: tor_version_t where
  "version_zero = \<lparr>major = 0, minor = 0, micro = 0, v_status = VER_RELEASE, patchlevel = 0, status_tag = [],
     svn_revision = 0, git_tag_len = 0, git_tag = replicate 20 0\<rparr>"

subsection \<open>Parsing\<close>

definition NUMBER :: "string \<Rightarrow> (int \<times> string) outcome" where
  "NUMBER cp =
     (case cp of
        [] \<Rightarrow> Minus_1
      | c # _ \<Rightarrow>
          if of_char c < (48 :: nat) \<or> of_char c > (57 :: nat) then Minus_1
          else (case tor_parse_uint64 cp 10 0 (word_of_int INT32_MAX) True of
                  Some (v, ok, Some eos) \<Rightarrow>
                    if \<not> ok then Minus_1 else if eos = cp then Minus_1 else Done (uint v, eos)
                | _ \<Rightarrow> Minus_1))"

definition DOT :: "string \<Rightarrow> string outcome" where
  "DOT cp = (if take 1 cp \<noteq> ''.'' then Minus_1 else Done (drop 1 cp))"

text \<open>What may follow a status tag: a Subversion revision or the beginning of a git commit.\<close>

definition parse_revision :: "tor_version_t \<Rightarrow> string \<Rightarrow> tor_version_t outcome" where
  "parse_revision out cp =
     (if strcmpstart cp ''(r'' = 0
      then Done (out\<lparr>svn_revision := to_int32 (strtox_r (strtol (drop 2 cp) 10))\<rparr>)
      else if strcmpstart cp ''(git-'' = 0
      then (case memchr cp (CHR '')'') of
              None \<Rightarrow> Minus_1
            | Some close_paren \<Rightarrow>
                (let cp = drop 5 cp; hexlen = close_paren - 5
                 in if hexlen > HEX_DIGEST_LEN then Minus_1
                    else if hexlen = 0 \<or> hexlen mod 2 = 1 then Minus_1
                    else and_then (base16_decode (hexlen div 2) (take hexlen cp)) (\<lambda>(digest, n).
                      if n \<noteq> hexlen div 2 then Minus_1
                      else Done (out\<lparr>git_tag := digest @ drop (hexlen div 2) (git_tag out),
                                    git_tag_len := int (hexlen div 2)\<rparr>))))
      else Done out)"

definition parse_status_tag :: "tor_version_t \<Rightarrow> string \<Rightarrow> tor_version_t outcome" where
  "parse_status_tag out cp =
     (let cp = (if take 1 cp = ''-'' \<or> take 1 cp = ''.'' then drop 1 cp else cp);
          eos = find_whitespace cp;
          n = length cp - length eos;
          tag = (if n \<ge> MAX_STATUS_TAG_LEN then take (MAX_STATUS_TAG_LEN - 1) cp else take n cp)
      in parse_revision (out\<lparr>status_tag := tag\<rparr>) (eat_whitespace eos))"

definition parse_patchlevel :: "tor_version_t \<Rightarrow> string \<Rightarrow> tor_version_t outcome" where
  "parse_patchlevel out cp =
     and_then (NUMBER cp) (\<lambda>(v, cp). parse_status_tag (out\<lparr>patchlevel := v\<rparr>) cp)"

definition parse_after_micro :: "tor_version_t \<Rightarrow> string \<Rightarrow> tor_version_t outcome" where
  "parse_after_micro out cp =
     (if cp = [] then Done out
      else if take 1 cp = ''.'' then parse_patchlevel out (drop 1 cp)
      else if take 1 cp = ''-'' then parse_status_tag out cp
      else if strncmp cp ''pre'' 3 = 0 then parse_patchlevel (out\<lparr>v_status := VER_PRE\<rparr>) (drop 3 cp)
      else if strncmp cp ''rc'' 2 = 0 then parse_patchlevel (out\<lparr>v_status := VER_RC\<rparr>) (drop 2 cp)
      else Minus_1)"

definition tor_version_parse :: "string \<Rightarrow> tor_version_t outcome" where
  "tor_version_parse s =
     (let cp = (if strcasecmpstart s ''Tor '' = 0 then drop 4 s else s)
      in and_then (NUMBER cp) (\<lambda>(v, cp).
         and_then (DOT cp) (\<lambda>cp.
         and_then (NUMBER cp) (\<lambda>(w, cp).
         let out = version_zero\<lparr>major := v, minor := w\<rparr>
         in if cp = [] then Done out
            else if take 1 cp = ''-'' then parse_status_tag out cp
            else and_then (DOT cp) (\<lambda>cp.
                 and_then (NUMBER cp) (\<lambda>(x, cp). parse_after_micro (out\<lparr>micro := x\<rparr>) cp))))))"

text \<open>\<open>tor_version_parse_platform\<close>: the value returned, and the version when it is 1.\<close>

definition tor_version_parse_platform :: "string \<Rightarrow> bool \<Rightarrow> int \<times> tor_version_t option" where
  "tor_version_parse_platform platform strict =
     (if strcmpstart platform ''Tor '' \<noteq> 0 then (0, None)
      else let start = eat_whitespace (drop 3 platform)
           in if start = [] then (- 1, None)
              else let s = find_whitespace start;
                       s2 = eat_whitespace s;
                       s = (if strcmpstart s2 ''(r'' = 0 \<or> strcmpstart s2 ''(git-'' = 0 then find_whitespace s2 else s);
                       n = length start - length s
                   in if n + 1 \<ge> 128 then (- 1, None)
                      else case tor_version_parse (take n start) of
                             Done v \<Rightarrow>
                               if strict \<and> (major v < 0 \<or> minor v < 0 \<or> micro v < 0 \<or> patchlevel v < 0 \<or> svn_revision v < 0)
                               then (- 1, None) else (1, Some v)
                           | _ \<Rightarrow> (- 1, None))"

subsection \<open>Comparing\<close>

fun status_number :: "version_release \<Rightarrow> int" where
  "status_number VER_PRE = 0"
| "status_number VER_RC = 1"
| "status_number VER_RELEASE = 2"

definition CMP :: "int \<Rightarrow> int \<Rightarrow> int" where
  "CMP aval bval = (let result = to_int32 (aval - bval) in if result < 0 then - 1 else if result > 0 then 1 else 0)"

definition if_equal :: "int \<Rightarrow> int \<Rightarrow> int" where
  "if_equal i next = (if i \<noteq> 0 then i else next)"

definition tor_version_compare :: "tor_version_t \<Rightarrow> tor_version_t \<Rightarrow> int" where
  "tor_version_compare a b =
     if_equal (CMP (major a) (major b))
    (if_equal (CMP (minor a) (minor b))
    (if_equal (CMP (micro a) (micro b))
    (if_equal (CMP (status_number (v_status a)) (status_number (v_status b)))
    (if_equal (CMP (patchlevel a) (patchlevel b))
    (if_equal (strcmp (status_tag a) (status_tag b))
    (if_equal (CMP (svn_revision a) (svn_revision b))
    (if_equal (CMP (git_tag_len a) (git_tag_len b))
    (if git_tag_len a \<noteq> 0 then memcmp (git_tag a) (git_tag b) (nat (git_tag_len a)) else 0))))))))"

definition tor_version_same_series :: "tor_version_t \<Rightarrow> tor_version_t \<Rightarrow> bool" where
  "tor_version_same_series a b \<longleftrightarrow> major a = major b \<and> minor a = minor b \<and> micro a = micro b"

definition tor_version_as_new_as :: "string \<Rightarrow> string \<Rightarrow> bool" where
  "tor_version_as_new_as platform cutoff =
     (case tor_version_parse cutoff of
        Done cutoff_version \<Rightarrow>
          (case tor_version_parse_platform platform False of
             (_, Some router_version) \<Rightarrow> tor_version_compare router_version cutoff_version \<ge> 0
           | (_, None) \<Rightarrow> True)
      | _ \<Rightarrow> False)"

definition compare_tor_version_str_ptr :: "string \<Rightarrow> string \<Rightarrow> int" where
  "compare_tor_version_str_ptr a b =
     (case (tor_version_parse a, tor_version_parse b) of
        (Done va, Done vb) \<Rightarrow> tor_version_compare va vb
      | (Done _, _) \<Rightarrow> - 1
      | (_, Done _) \<Rightarrow> 1
      | _ \<Rightarrow> strcmp a b)"

type_synonym 'a qsort = "('a \<Rightarrow> 'a \<Rightarrow> int) \<Rightarrow> 'a list \<Rightarrow> 'a list"

definition smartlist_sort :: "'a qsort \<Rightarrow> 'a list \<Rightarrow> ('a \<Rightarrow> 'a \<Rightarrow> int) \<Rightarrow> 'a list" where
  "smartlist_sort qsort sl cmp = (if sl = [] then sl else qsort cmp sl)"

definition smartlist_sort_strings :: "string qsort \<Rightarrow> string list \<Rightarrow> string list" where
  "smartlist_sort_strings qsort sl = smartlist_sort qsort sl compare_string_ptrs"

definition sort_version_list :: "string qsort \<Rightarrow> string list \<Rightarrow> bool \<Rightarrow> string list" where
  "sort_version_list qsort versions remove_duplicates =
     (let versions = smartlist_sort qsort versions compare_tor_version_str_ptr
      in if remove_duplicates then smartlist_uniq compare_tor_version_str_ptr versions else versions)"

subsection \<open>Recommended versions\<close>

datatype version_status_t =
  VS_RECOMMENDED | VS_OLD | VS_NEW | VS_NEW_IN_SERIES | VS_UNRECOMMENDED | VS_EMPTY | VS_UNKNOWN

record version_search =
  found_newer :: bool
  found_older :: bool
  found_newer_in_series :: bool
  found_any_in_series :: bool

text \<open>The loop over the list: \<open>None\<close> when the version is on it.\<close>

fun obsolete_loop :: "tor_version_t \<Rightarrow> string list \<Rightarrow> version_search \<Rightarrow> version_search option" where
  "obsolete_loop mine [] f = Some f"
| "obsolete_loop mine (cp # cps) f =
     (case tor_version_parse (if strcmpstart cp ''Tor '' = 0 then drop 4 cp else cp) of
        Done other \<Rightarrow>
          (let same = tor_version_same_series mine other;
               f = (if same then f\<lparr>found_any_in_series := True\<rparr> else f);
               r = tor_version_compare mine other
           in if r = 0 then None
              else if r < 0
              then obsolete_loop mine cps
                     (let f = f\<lparr>found_newer := True\<rparr> in if same then f\<lparr>found_newer_in_series := True\<rparr> else f)
              else obsolete_loop mine cps (f\<lparr>found_older := True\<rparr>))
      | _ \<Rightarrow> obsolete_loop mine cps f)"

definition tor_version_is_obsolete :: "string \<Rightarrow> string \<Rightarrow> version_status_t outcome" where
  "tor_version_is_obsolete myversion versionlist =
     (case tor_version_parse myversion of
        Done mine \<Rightarrow>
          (case smartlist_split_string [] versionlist (Some '','') (no_flags\<lparr>SPLIT_SKIP_SPACE := True\<rparr>) 0 of
             None \<Rightarrow> Assertion_failed
           | Some (version_sl, _) \<Rightarrow>
               Done (if versionlist = [] then VS_EMPTY
                     else case obsolete_loop mine version_sl
                            \<lparr>found_newer = False, found_older = False, found_newer_in_series = False, found_any_in_series = False\<rparr> of
                            None \<Rightarrow> VS_RECOMMENDED
                          | Some f \<Rightarrow>
                              if found_any_in_series f \<and> \<not> found_newer_in_series f \<and> found_newer f then VS_NEW_IN_SERIES
                              else if found_newer f \<and> \<not> found_older f then VS_OLD
                              else if found_older f \<and> \<not> found_newer f then VS_NEW
                              else VS_UNRECOMMENDED))
      | _ \<Rightarrow> Assertion_failed)"

section \<open>The order of versions\<close>

text \<open>What every parsed version satisfies, and those on which the comparison is an order.\<close>

definition version_ok :: "tor_version_t \<Rightarrow> bool" where
  "version_ok v \<longleftrightarrow> (\<forall>n \<in> {major v, minor v, micro v, patchlevel v}. 0 \<le> n \<and> n \<le> INT32_MAX) \<and>
     - (2 ^ 31) \<le> svn_revision v \<and> svn_revision v < 2 ^ 31 \<and> 0 \<le> git_tag_len v \<and> git_tag_len v \<le> 20 \<and>
     length (git_tag v) = 20 \<and> NUL \<notin> set (status_tag v) \<and> length (status_tag v) < MAX_STATUS_TAG_LEN"

definition ordered_version :: "tor_version_t \<Rightarrow> bool" where
  "ordered_version v \<longleftrightarrow> version_ok v \<and> 0 \<le> svn_revision v"

lemma NUMBER_range:
  assumes "NUMBER cp = Done (v, rest)"
  shows "0 \<le> v \<and> v \<le> INT32_MAX"
proof -
  obtain w ok where p: "tor_parse_uint64 cp 10 0 (word_of_int INT32_MAX) True = Some (w, ok, Some rest)" "ok" "v = uint w"
    using assms by (auto simp: NUMBER_def split: list.splits if_splits option.splits)
  from p(1,2) have "w \<le> word_of_int INT32_MAX"
    by (auto simp: tor_parse_uint64_def base_defined_def CHECK_STRTOX_RESULT_def Let_def not_less split: if_splits option.splits)
  then have "uint w \<le> INT32_MAX" by (simp add: word_le_def)
  then show ?thesis using p(3) by simp
qed

lemma parse_revision_ok:
  assumes "parse_revision out cp = Done v" "version_ok out"
  shows "version_ok v"
proof -
  have git: "length digest = n \<and> n \<le> 20"
    if "base16_decode (hexlen div 2) (take hexlen s) = Done (digest, n)" "n = hexlen div 2" "hexlen \<le> HEX_DIGEST_LEN"
    for hexlen s digest n
    using that by (auto simp: base16_decode_def Let_def byte_buffer_def split: if_splits option.splits)
  show ?thesis
  proof (cases "strcmpstart cp ''(r'' = 0")
    case True
    then have "v = out\<lparr>svn_revision := to_int32 (strtox_r (strtol (drop 2 cp) 10))\<rparr>"
      using assms(1) by (simp add: parse_revision_def)
    then show ?thesis using assms(2) to_int32_range [of "strtox_r (strtol (drop 2 cp) 10)"] by (simp add: version_ok_def)
  next
    case False
    note r = this
    show ?thesis
    proof (cases "strcmpstart cp ''(git-'' = 0")
      case True
      then obtain k digest n where k: "memchr cp (CHR '')'') = Some k" "k - 5 \<le> HEX_DIGEST_LEN"
        "base16_decode ((k - 5) div 2) (take (k - 5) (drop 5 cp)) = Done (digest, n)" "n = (k - 5) div 2"
        "v = out\<lparr>git_tag := digest @ drop ((k - 5) div 2) (git_tag out), git_tag_len := int ((k - 5) div 2)\<rparr>"
        using assms(1) r by (auto simp: parse_revision_def Let_def and_then_Done split: option.splits if_splits)
      from git [OF k(3,4,2)] k(2) show ?thesis using assms(2) k(4,5) by (auto simp: version_ok_def)
    next
      case False
      then show ?thesis using assms r by (simp add: parse_revision_def)
    qed
  qed
qed

lemma parse_status_tag_ok:
  assumes "parse_status_tag out cp = Done v" "version_ok out" "NUL \<notin> set cp"
  shows "version_ok v"
proof -
  define cp1 where "cp1 = (if take 1 cp = ''-'' \<or> take 1 cp = ''.'' then drop 1 cp else cp)"
  define n where "n = length cp1 - length (find_whitespace cp1)"
  define tag where "tag = (if n \<ge> MAX_STATUS_TAG_LEN then take (MAX_STATUS_TAG_LEN - 1) cp1 else take n cp1)"
  have "set cp1 \<subseteq> set cp" by (auto simp: cp1_def dest: in_set_dropD)
  then have "NUL \<notin> set cp1" using assms(3) by blast
  then have "NUL \<notin> set tag" by (auto simp: tag_def dest: in_set_takeD)
  moreover have "length tag < MAX_STATUS_TAG_LEN" by (auto simp: tag_def)
  ultimately have "version_ok (out\<lparr>status_tag := tag\<rparr>)" using assms(2) by (simp add: version_ok_def)
  moreover have "parse_revision (out\<lparr>status_tag := tag\<rparr>) (eat_whitespace (find_whitespace cp1)) = Done v"
    using assms(1) by (simp only: parse_status_tag_def Let_def tag_def n_def cp1_def)
  ultimately show ?thesis by (rule parse_revision_ok [rotated])
qed

lemma NUMBER_rest:
  assumes "NUMBER cp = Done (v, rest)"
  shows "set rest \<subseteq> set cp"
proof -
  obtain w ok where p: "tor_parse_uint64 cp 10 0 (word_of_int INT32_MAX) True = Some (w, ok, Some rest)" "ok"
    using assms by (auto simp: NUMBER_def split: list.splits if_splits option.splits)
  have ss: "set (snd (split_sign t)) \<subseteq> set t" for t by (cases t) auto
  have sb: "set (snd (split_base b t)) \<subseteq> set t" for b t by (auto simp: split_base_def dest: in_set_dropD)
  have scan: "set r \<subseteq> set cp" if "strto_scan cp 10 = Some (neg, m, r)" for neg m r
  proof -
    obtain n1 s1 where s1: "split_sign (dropWhile c_isspace cp) = (n1, s1)" by (cases "split_sign (dropWhile c_isspace cp)")
    obtain b s2 where s2: "split_base 10 s1 = (b, s2)" by (cases "split_base 10 s1")
    have "r = drop (length (takeWhile (is_digit_of b) s2)) s2"
      using that by (auto simp: strto_scan_def s1 s2 Let_def split: if_splits)
    then have "set r \<subseteq> set s2" by (simp add: set_drop_subset)
    moreover have "set s2 \<subseteq> set s1" using sb [of 10 s1] s2 by simp
    moreover have "set s1 \<subseteq> set (dropWhile c_isspace cp)" using ss [of "dropWhile c_isspace cp"] s1 by simp
    ultimately show ?thesis using set_dropWhileD [of _ c_isspace cp] by blast
  qed
  have "endptr (strtoull cp 10) = Some rest"
    using p by (auto simp: tor_parse_uint64_def base_defined_def CHECK_STRTOX_RESULT_def Let_def split: if_splits option.splits)
  then show ?thesis using scan by (auto simp: strtoull_def split: option.splits if_splits)
qed

lemma parse_patchlevel_ok:
  assumes "parse_patchlevel out cp = Done v" "version_ok out" "NUL \<notin> set cp"
  shows "version_ok v"
proof -
  obtain x rest where x: "NUMBER cp = Done (x, rest)" "parse_status_tag (out\<lparr>patchlevel := x\<rparr>) rest = Done v"
    using assms(1) by (auto simp: parse_patchlevel_def and_then_Done)
  have "version_ok (out\<lparr>patchlevel := x\<rparr>)" using assms(2) NUMBER_range [OF x(1)] by (simp add: version_ok_def)
  then show ?thesis using parse_status_tag_ok [OF x(2)] NUMBER_rest [OF x(1)] assms(3) by blast
qed

lemma parse_after_micro_ok:
  assumes "parse_after_micro out cp = Done v" "version_ok out" "NUL \<notin> set cp"
  shows "version_ok v"
proof -
  have d: "NUL \<notin> set (drop k cp)" for k using assms(3) by (auto dest: in_set_dropD)
  have st: "version_ok (out\<lparr>v_status := r\<rparr>)" for r using assms(2) by (simp add: version_ok_def)
  show ?thesis
    using assms parse_patchlevel_ok [OF _ st d] parse_patchlevel_ok [OF _ assms(2) d] parse_status_tag_ok [OF _ assms(2,3)]
    by (auto simp: parse_after_micro_def split: if_splits)
qed

lemma parse_ok:
  assumes "tor_version_parse s = Done v" "NUL \<notin> set s"
  shows "version_ok v"
proof -
  define cp where "cp = (if strcasecmpstart s ''Tor '' = 0 then drop 4 s else s)"
  obtain x1 r1 where 1: "NUMBER cp = Done (x1, r1)"
    using assms(1) by (auto simp: tor_version_parse_def and_then_Done Let_def simp flip: cp_def)
  obtain r2 where 2: "DOT r1 = Done r2"
    using assms(1) 1 by (auto simp: tor_version_parse_def and_then_Done Let_def simp flip: cp_def)
  obtain x3 r3 where 3: "NUMBER r2 = Done (x3, r3)"
    using assms(1) 1 2 by (auto simp: tor_version_parse_def and_then_Done Let_def simp flip: cp_def)
  let ?out = "version_zero\<lparr>major := x1, minor := x3\<rparr>"
  have ok: "version_ok ?out"
    using NUMBER_range [OF 1] NUMBER_range [OF 3] by (simp add: version_ok_def version_zero_def)
  have dot: "set t \<subseteq> set u" if "DOT u = Done t" for t u
    using that by (auto simp: DOT_def set_drop_subset split: if_splits dest: in_set_dropD)
  have "set cp \<subseteq> set s" by (auto simp: cp_def dest: in_set_dropD)
  then have n3: "NUL \<notin> set r3" using NUMBER_rest [OF 1] dot [OF 2] NUMBER_rest [OF 3] assms(2) by blast
  have rest: "(if r3 = [] then Done ?out
      else if take 1 r3 = ''-'' then parse_status_tag ?out r3
      else and_then (DOT r3) (\<lambda>cp. and_then (NUMBER cp) (\<lambda>(x, cp). parse_after_micro (?out\<lparr>micro := x\<rparr>) cp))) = Done v"
    using assms(1) 1 2 3 by (simp add: tor_version_parse_def Let_def flip: cp_def)
  show ?thesis
  proof (cases "r3 = []")
    case False
    note ne = this
    show ?thesis
    proof (cases "take 1 r3 = ''-''")
      case True
      then show ?thesis using rest ne parse_status_tag_ok [OF _ ok n3] by simp
    next
      case False
      then obtain r4 x5 r5 where 4: "DOT r3 = Done r4" "NUMBER r4 = Done (x5, r5)"
        "parse_after_micro (?out\<lparr>micro := x5\<rparr>) r5 = Done v"
        using rest ne by (auto simp: and_then_Done)
      have "version_ok (?out\<lparr>micro := x5\<rparr>)" using ok NUMBER_range [OF 4(2)] by (simp add: version_ok_def)
      then show ?thesis using parse_after_micro_ok [OF 4(3)] n3 dot [OF 4(1)] NUMBER_rest [OF 4(2)] by blast
    qed
  qed (use rest ok in simp)
qed

text \<open>Comparing first by one key and then by another.\<close>

lemma comparison_lex:
  assumes f: "comparison S f"
    and g: "\<And>a b. a \<in> S \<Longrightarrow> b \<in> S \<Longrightarrow> f a b = 0 \<Longrightarrow> g a b < 0 \<longleftrightarrow> g b a > 0"
    and gt: "\<And>a b c. a \<in> S \<Longrightarrow> b \<in> S \<Longrightarrow> c \<in> S \<Longrightarrow> f a b = 0 \<Longrightarrow> f b c = 0 \<Longrightarrow> g a b \<le> 0 \<Longrightarrow> g b c \<le> 0 \<Longrightarrow> g a c \<le> 0"
  shows "comparison S (\<lambda>a b. if_equal (f a b) (g a b))"
proof -
  note sign = comparison.sign [OF f] and trans = comparison.trans [OF f] and zero_sym = comparison.zero_sym [OF f]
    and sign_le = comparison.sign_le [OF f]
  show ?thesis
  proof
    fix a b assume ab: "a \<in> S" "b \<in> S"
    show "if_equal (f a b) (g a b) < 0 \<longleftrightarrow> if_equal (f b a) (g b a) > 0"
      using sign [OF ab] zero_sym [OF ab] g [OF ab] by (auto simp: if_equal_def)
  next
    fix a b c assume s: "a \<in> S" "b \<in> S" "c \<in> S"
    assume le: "if_equal (f a b) (g a b) \<le> 0" "if_equal (f b c) (g b c) \<le> 0"
    have fab: "f a b \<le> 0" "f b c \<le> 0" using le by (auto simp: if_equal_def split: if_splits)
    have fac: "f a c \<le> 0" using trans [OF s fab] .
    show "if_equal (f a c) (g a c) \<le> 0"
    proof (cases "f a c = 0")
      case True
      have "f c a \<le> 0" using True zero_sym [OF s(1,3)] by simp
      then have "f b a \<le> 0" "f c b \<le> 0" using trans [OF s(2,3,1) fab(2)] trans [OF s(3,1,2) _ fab(1)] by auto
      then have z: "f a b = 0" "f b c = 0" using fab sign_le [OF s(2,1)] sign_le [OF s(3,2)] by auto
      then show ?thesis using True gt [OF s z] le by (simp add: if_equal_def)
    qed (use fac in \<open>simp add: if_equal_def\<close>)
  qed
qed

lemma CMP_sgn: "0 \<le> a \<Longrightarrow> a < 2 ^ 31 \<Longrightarrow> 0 \<le> b \<Longrightarrow> b < 2 ^ 31 \<Longrightarrow> CMP a b = sgn (a - b)"
  by (simp add: CMP_def Let_def sgn_if)

lemma comparison_CMP:
  assumes "\<And>v. v \<in> S \<Longrightarrow> 0 \<le> h v \<and> h v < 2 ^ 31"
  shows "comparison S (\<lambda>a b. CMP (h a) (h b))"
proof
  show "CMP (h a) (h b) < 0 \<longleftrightarrow> CMP (h b) (h a) > 0" if "a \<in> S" "b \<in> S" for a b
    using assms [OF that(1)] assms [OF that(2)] by (simp add: CMP_sgn)
  show "CMP (h a) (h c) \<le> 0" if "a \<in> S" "b \<in> S" "c \<in> S" "CMP (h a) (h b) \<le> 0" "CMP (h b) (h c) \<le> 0" for a b c
    using that(4,5) assms [OF that(1)] assms [OF that(2)] assms [OF that(3)] by (simp add: CMP_sgn sgn_if split: if_splits)
qed

lemma comparison_then:
  assumes "comparison S f" "comparison S g"
  shows "comparison S (\<lambda>a b. if_equal (f a b) (g a b))"
  by (rule comparison_lex [OF assms(1)]) (auto simp: comparison.sign [OF assms(2)] intro: comparison.trans [OF assms(2)])

text \<open>The last keys: the git commits, which are compared only when they are of one length.\<close>

lemma comparison_git:
  "comparison {v. ordered_version v} (\<lambda>a b. if_equal (CMP (git_tag_len a) (git_tag_len b))
     (if git_tag_len a \<noteq> 0 then memcmp (git_tag a) (git_tag b) (nat (git_tag_len a)) else 0))"
proof (rule comparison_lex)
  have len: "git_tag_len a = git_tag_len b" if "ordered_version a" "ordered_version b" "CMP (git_tag_len a) (git_tag_len b) = 0" for a b
    using that by (auto simp: ordered_version_def version_ok_def CMP_sgn sgn_if split: if_splits)
  show "comparison {v. ordered_version v} (\<lambda>a b. CMP (git_tag_len a) (git_tag_len b))"
    by (rule comparison_CMP) (auto simp: ordered_version_def version_ok_def)
  show "(if git_tag_len a \<noteq> 0 then memcmp (git_tag a) (git_tag b) (nat (git_tag_len a)) else 0) < 0 \<longleftrightarrow>
      0 < (if git_tag_len b \<noteq> 0 then memcmp (git_tag b) (git_tag a) (nat (git_tag_len b)) else 0)"
    if "a \<in> {v. ordered_version v}" "b \<in> {v. ordered_version v}" "CMP (git_tag_len a) (git_tag_len b) = 0" for a b
    using that len [of a b] memcmp_antisym [of "git_tag a" "git_tag b" "nat (git_tag_len a)"] by auto
  show "(if git_tag_len a \<noteq> 0 then memcmp (git_tag a) (git_tag c) (nat (git_tag_len a)) else 0) \<le> 0"
    if v: "a \<in> {v. ordered_version v}" "b \<in> {v. ordered_version v}" "c \<in> {v. ordered_version v}"
      and z: "CMP (git_tag_len a) (git_tag_len b) = 0" "CMP (git_tag_len b) (git_tag_len c) = 0"
      and le: "(if git_tag_len a \<noteq> 0 then memcmp (git_tag a) (git_tag b) (nat (git_tag_len a)) else 0) \<le> 0"
        "(if git_tag_len b \<noteq> 0 then memcmp (git_tag b) (git_tag c) (nat (git_tag_len b)) else 0) \<le> 0" for a b c
  proof -
    have l: "git_tag_len b = git_tag_len a" "git_tag_len c = git_tag_len a" using len [of a b] len [of b c] v z by simp_all
    have n: "nat (git_tag_len a) \<le> 20" "length (git_tag a) = 20" "length (git_tag b) = 20" "length (git_tag c) = 20"
      using v by (auto simp: ordered_version_def version_ok_def)
    show ?thesis
      using le memcmp_trans [of "nat (git_tag_len a)" "git_tag a" "git_tag b" "git_tag c"] n by (auto simp: l split: if_splits)
  qed
qed

lemma comparison_tag: "comparison {v. ordered_version v} (\<lambda>a b. strcmp (status_tag a) (status_tag b))"
proof
  show "strcmp (status_tag a) (status_tag b) < 0 \<longleftrightarrow> 0 < strcmp (status_tag b) (status_tag a)" for a b
    using strcmp_antisym [of "status_tag a" "status_tag b"] by auto
  show "strcmp (status_tag a) (status_tag c) \<le> 0"
    if "a \<in> {v. ordered_version v}" "b \<in> {v. ordered_version v}" "c \<in> {v. ordered_version v}"
      "strcmp (status_tag a) (status_tag b) \<le> 0" "strcmp (status_tag b) (status_tag c) \<le> 0" for a b c
    using that strcmp_trans [of "status_tag a" "status_tag b" "status_tag c"] by (auto simp: ordered_version_def version_ok_def)
qed

interpretation version_order: comparison "{v. ordered_version v}" tor_version_compare
proof -
  have n: "comparison {v. ordered_version v} (\<lambda>a b. CMP (h a) (h b))"
    if "\<And>v. ordered_version v \<Longrightarrow> 0 \<le> h v \<and> h v < 2 ^ 31" for h
    by (rule comparison_CMP) (use that in auto)
  have st: "0 \<le> status_number r \<and> status_number r < 2 ^ 31" for r by (cases r) simp_all
  show "comparison {v. ordered_version v} tor_version_compare"
    unfolding tor_version_compare_def [abs_def]
    by (intro comparison_then n comparison_git comparison_tag st) (auto simp: ordered_version_def version_ok_def)
qed

lemma CMP_0: "- (2 ^ 31) \<le> a \<Longrightarrow> a < 2 ^ 31 \<Longrightarrow> - (2 ^ 31) \<le> b \<Longrightarrow> b < 2 ^ 31 \<Longrightarrow> CMP a b = 0 \<longleftrightarrow> a = b"
proof -
  assume r: "- (2 ^ 31) \<le> a" "a < 2 ^ 31" "- (2 ^ 31) \<le> b" "b < 2 ^ 31"
  have "to_int32 (a - b) = 0 \<longleftrightarrow> a = b"
  proof
    assume "to_int32 (a - b) = 0"
    then have "(a - b + 2 ^ 31) mod 2 ^ 32 = 2 ^ 31" by (simp add: to_int32_def)
    then have "(a - b + 2 ^ 31) mod 2 ^ 32 = 2 ^ 31 mod 2 ^ 32" by simp
    then have "2 ^ 32 dvd a - b" unfolding mod_eq_dvd_iff by (simp only: add_diff_cancel_right')
    then obtain k where k: "a - b = 2 ^ 32 * k" by (rule dvdE)
    then have "- 1 < k" "k < 1" using r by simp_all
    then show "a = b" using k by simp
  qed simp
  moreover have "CMP a b = 0 \<longleftrightarrow> to_int32 (a - b) = 0" by (auto simp: CMP_def Let_def)
  ultimately show ?thesis by simp
qed

lemma memcmp_0: "n \<le> length a \<Longrightarrow> n \<le> length b \<Longrightarrow> memcmp a b n = 0 \<longleftrightarrow> take n a = take n b"
proof (induction a b n rule: memcmp.induct)
  case (1 x xs y ys n)
  have "uint x = uint y \<Longrightarrow> x = y" by (rule unsigned_word_eqI)
  then show ?case using 1 by auto
qed auto

lemma strcmp_0: "NUL \<notin> set a \<Longrightarrow> NUL \<notin> set b \<Longrightarrow> strcmp a b = 0 \<longleftrightarrow> a = b"
proof (induction a b rule: strcmp.induct)
  case (1 c s d t)
  have "of_char c = (of_char d :: int) \<Longrightarrow> c = d" by simp
  then show ?case using 1 by auto
next
  case (2 c s)
  then show ?case using of_char_pos [of c] by auto
next
  case (3 d t)
  then show ?case using of_char_pos [of d] by auto
qed simp

lemma version_compare_0:
  assumes "version_ok a" "version_ok b"
  shows "tor_version_compare a b = 0 \<longleftrightarrow> a\<lparr>git_tag := []\<rparr> = b\<lparr>git_tag := []\<rparr> \<and>
    take (nat (git_tag_len a)) (git_tag a) = take (nat (git_tag_len b)) (git_tag b)"
proof -
  have st: "CMP (status_number r) (status_number q) = 0 \<longleftrightarrow> r = q" for r q by (cases r; cases q) (simp_all add: CMP_def)
  have rng: "- (2 ^ 31) \<le> x \<and> x < (2 ^ 31 :: int)" if "0 \<le> x" "x \<le> INT32_MAX" for x using that by simp
  have c: "CMP (h a) (h b) = 0 \<longleftrightarrow> h a = h b" if "h \<in> {major, minor, micro, patchlevel, svn_revision, git_tag_len}" for h
    by (rule CMP_0) (use that assms in \<open>auto simp: version_ok_def\<close>)
  have m: "git_tag_len a = git_tag_len b \<Longrightarrow> memcmp (git_tag a) (git_tag b) (nat (git_tag_len a)) = 0 \<longleftrightarrow>
      take (nat (git_tag_len a)) (git_tag a) = take (nat (git_tag_len b)) (git_tag b)"
    by (subst memcmp_0) (use assms in \<open>auto simp: version_ok_def\<close>)
  have t: "strcmp (status_tag a) (status_tag b) = 0 \<longleftrightarrow> status_tag a = status_tag b"
    by (rule strcmp_0) (use assms in \<open>auto simp: version_ok_def\<close>)
  have eq: "a\<lparr>git_tag := []\<rparr> = b\<lparr>git_tag := []\<rparr> \<longleftrightarrow> major a = major b \<and> minor a = minor b \<and> micro a = micro b \<and>
      v_status a = v_status b \<and> patchlevel a = patchlevel b \<and> status_tag a = status_tag b \<and> svn_revision a = svn_revision b \<and>
      git_tag_len a = git_tag_len b"
    by (cases a; cases b) auto
  have i: "if_equal i k = 0 \<longleftrightarrow> i = 0 \<and> k = 0" for i k by (simp add: if_equal_def)
  show ?thesis using m unfolding tor_version_compare_def i eq by (auto simp: c st t)
qed

section \<open>Sorting version lists\<close>

lemma str_compare_cases:
  "compare_tor_version_str_ptr a b =
     (if (\<exists>va. tor_version_parse a = Done va) \<and> (\<exists>vb. tor_version_parse b = Done vb)
      then tor_version_compare (case tor_version_parse a of Done va \<Rightarrow> va) (case tor_version_parse b of Done vb \<Rightarrow> vb)
      else if \<exists>va. tor_version_parse a = Done va then - 1
      else if \<exists>vb. tor_version_parse b = Done vb then 1 else strcmp a b)"
  by (cases "tor_version_parse a"; cases "tor_version_parse b") (simp_all add: compare_tor_version_str_ptr_def)

definition ordered_string :: "string \<Rightarrow> bool" where
  "ordered_string s \<longleftrightarrow> NUL \<notin> set s \<and> (case tor_version_parse s of Done v \<Rightarrow> 0 \<le> svn_revision v | _ \<Rightarrow> True)"

lemma ordered_string_parse: "ordered_string s \<Longrightarrow> tor_version_parse s = Done v \<Longrightarrow> ordered_version v"
  using parse_ok [of s v] by (simp add: ordered_string_def ordered_version_def)

interpretation version_string_order: comparison "{s. ordered_string s}" compare_tor_version_str_ptr
proof
  have o: "(case tor_version_parse s of Done v \<Rightarrow> v) \<in> {v. ordered_version v}"
    if "ordered_string s" "\<exists>v. tor_version_parse s = Done v" for s
    using that ordered_string_parse by auto
  show "compare_tor_version_str_ptr a b < 0 \<longleftrightarrow> 0 < compare_tor_version_str_ptr b a"
    if "a \<in> {s. ordered_string s}" "b \<in> {s. ordered_string s}" for a b
    using that o [of a] o [of b] version_order.sign strcmp_antisym [of a b] by (auto simp: str_compare_cases)
  show "compare_tor_version_str_ptr a c \<le> 0"
    if "a \<in> {s. ordered_string s}" "b \<in> {s. ordered_string s}" "c \<in> {s. ordered_string s}"
      "compare_tor_version_str_ptr a b \<le> 0" "compare_tor_version_str_ptr b c \<le> 0" for a b c
  proof -
    have s: "ordered_string a" "ordered_string b" "ordered_string c" using that by simp_all
    note le = that(4,5)
    have nul: "NUL \<notin> set a" "NUL \<notin> set b" "NUL \<notin> set c" using s by (simp_all add: ordered_string_def)
    let ?p = "\<lambda>s. \<exists>v. tor_version_parse s = Done v"
    consider "?p a" "?p b" "?p c" | "?p a" "\<not> ?p c" | "\<not> ?p a" "\<not> ?p b" "\<not> ?p c"
      using le by (auto simp: str_compare_cases split: if_splits)
    then show ?thesis
    proof cases
      case 1
      then show ?thesis
        using le version_order.trans [OF o [OF s(1) 1(1)] o [OF s(2) 1(2)] o [OF s(3) 1(3)]]
        by (simp add: str_compare_cases)
    next
      case 2
      then show ?thesis by (auto simp: str_compare_cases)
    next
      case 3
      then show ?thesis using le strcmp_trans [OF nul] by (auto simp: str_compare_cases)
    qed
  qed
qed

text \<open>What the code relies on of \<open>qsort\<close>: with a comparison that is consistent on the members, the result is a permutation
  in order.  Insertion is one way to do it.\<close>

definition qsort_sorts :: "'a qsort \<Rightarrow> bool" where
  "qsort_sorts qsort \<longleftrightarrow> (\<forall>S cmp sl. comparison S cmp \<longrightarrow> set sl \<subseteq> S \<longrightarrow>
     mset (qsort cmp sl) = mset sl \<and> sorted_wrt (\<lambda>a b. cmp a b \<le> 0) (qsort cmp sl))"

fun insert_by :: "('a \<Rightarrow> 'a \<Rightarrow> int) \<Rightarrow> 'a \<Rightarrow> 'a list \<Rightarrow> 'a list" where
  "insert_by cmp x [] = [x]"
| "insert_by cmp x (y # ys) = (if cmp x y \<le> 0 then x # y # ys else y # insert_by cmp x ys)"

definition insertion_sort :: "'a qsort" where
  "insertion_sort cmp sl = foldr (insert_by cmp) sl []"

lemma mset_insert_by: "mset (insert_by cmp x ys) = add_mset x (mset ys)"
  by (induction cmp x ys rule: insert_by.induct) auto

context comparison
begin

lemma insert_by_sorted:
  "sorted_wrt (\<lambda>a b. cmp a b \<le> 0) ys \<Longrightarrow> x \<in> S \<Longrightarrow> set ys \<subseteq> S \<Longrightarrow> sorted_wrt (\<lambda>a b. cmp a b \<le> 0) (insert_by cmp x ys)"
proof (induction ys)
  case (Cons y ys)
  have set: "set (insert_by cmp x ys) = insert x (set ys)" by (metis mset_insert_by set_mset_add_mset_insert set_mset_mset)
  have y: "y \<in> S" "set ys \<subseteq> S" using Cons.prems(3) by auto
  show ?case
  proof (cases "cmp x y \<le> 0")
    case True
    then have "cmp x z \<le> 0" if "z \<in> set ys" for z
      using trans [of x y z] that Cons.prems y by auto
    then show ?thesis using True Cons.prems(1) by simp
  next
    case False
    then have "cmp y x \<le> 0" using sign_le [OF Cons.prems(2) y(1)] sign_le [OF y(1) Cons.prems(2)] by linarith
    then show ?thesis using False Cons y set by simp
  qed
qed simp

lemma insertion_sort_sorted:
  "set sl \<subseteq> S \<Longrightarrow> mset (insertion_sort cmp sl) = mset sl \<and> sorted_wrt (\<lambda>a b. cmp a b \<le> 0) (insertion_sort cmp sl)"
proof (induction sl)
  case (Cons x sl)
  then have IH: "mset (insertion_sort cmp sl) = mset sl" "sorted_wrt (\<lambda>a b. cmp a b \<le> 0) (insertion_sort cmp sl)" by auto
  have e: "insertion_sort cmp (x # sl) = insert_by cmp x (insertion_sort cmp sl)" by (simp add: insertion_sort_def)
  have "set (insertion_sort cmp sl) = set sl" using IH(1) by (rule mset_eq_setD)
  then show ?case using insert_by_sorted [OF IH(2), of x] Cons.prems IH(1) unfolding e by (simp add: mset_insert_by)
qed (simp add: insertion_sort_def)

end

lemma insertion_sort_ok: "qsort_sorts insertion_sort"
  unfolding qsort_sorts_def using comparison.insertion_sort_sorted by blast

lemma smartlist_sort_ok:
  assumes "qsort_sorts qsort" "comparison S cmp" "set sl \<subseteq> S"
  shows "mset (smartlist_sort qsort sl cmp) = mset sl" "sorted_wrt (\<lambda>a b. cmp a b \<le> 0) (smartlist_sort qsort sl cmp)"
  using assms unfolding qsort_sorts_def smartlist_sort_def by (auto split: if_splits)

section \<open>Reading a version\<close>

lemma NUMBER_dec:
  assumes "int n \<le> INT32_MAX" "no_digit_first rest"
  shows "NUMBER (dec_digits n @ rest) = Done (int n, rest)"
proof -
  obtain d ds where d: "(d :: nat) < 10" "dec_digits n = char_of (48 + d) # ds" by (rule dec_digits_head)
  have n64: "n < 2 ^ 64" "int n < 2 ^ 64" using assms(1) by simp_all
  have "unat (of_nat n :: u64) = n" using n64(1) by (simp add: unat_of_nat take_bit_nat_eq_self)
  then have le: "\<not> (word_of_int INT32_MAX :: u64) < of_nat n" using assms(1) by (simp add: word_less_nat_alt)
  have st: "strtoull (dec_digits n @ rest) 10 = \<lparr>strtox_r = of_nat n, endptr = Some rest, erange = False\<rparr>"
    using n64 by (simp add: strtoull_def strto_scan_unsigned [OF assms(2)])
  have p: "tor_parse_uint64 (dec_digits n @ rest) 10 0 (word_of_int INT32_MAX) True = Some (of_nat n, True, Some rest)"
    using le by (simp add: tor_parse_uint64_def base_defined_def st CHECK_STRTOX_RESULT_def Let_def del: word_of_int_numeral of_int_numeral)
  have u: "uint (of_nat n :: u64) = int n" using n64(2) by (simp add: uint_nat \<open>unat (of_nat n :: u64) = n\<close>)
  have hd: "(of_char (char_of (48 + d)) :: nat) = 48 + d" using d(1) by (simp add: take_bit_eq_mod)
  have "rest \<noteq> dec_digits n @ rest" by simp
  moreover have "\<exists>c cs. dec_digits n @ rest = c # cs \<and> \<not> (of_char c < (48 :: nat) \<or> of_char c > (57 :: nat))"
    using d hd by auto
  ultimately show ?thesis
    unfolding NUMBER_def using p u by (auto split: list.splits)
qed

end
