(* ===== verification/Version_Props.thy ===== *)
theory Version_Props
  imports Versions
begin

text \<open>
  The text of a version and its reading, the status of a version on a list, and the properties of theory Versions.
\<close>

text \<open>The text of a version, in the format that \<open>tor_version_parse\<close> documents.\<close>

fun status_text :: "version_release \<Rightarrow> string" where
  "status_text VER_PRE = ''pre''"
| "status_text VER_RC = ''rc''"
| "status_text VER_RELEASE = ''.''"

definition revision_text :: "tor_version_t \<Rightarrow> string" where
  "revision_text v =
     (if git_tag_len v > 0 then '' (git-'' @ base16_loop (take (nat (git_tag_len v)) (git_tag v)) @ '')''
      else if svn_revision v \<noteq> 0 then '' (r'' @ dec_digits (nat (svn_revision v)) @ '')'' else [])"

definition tag_text :: "tor_version_t \<Rightarrow> string" where
  "tag_text v = (if status_tag v = [] then [] else CHR ''-'' # status_tag v)"

definition version_text :: "tor_version_t \<Rightarrow> string" where
  "version_text v = dec_digits (nat (major v)) @ ''.'' @ dec_digits (nat (minor v)) @ ''.'' @ dec_digits (nat (micro v)) @
     status_text (v_status v) @ dec_digits (nat (patchlevel v)) @ tag_text v @ revision_text v"

text \<open>The versions that have a text: a tag without white space, not both kinds of revision, and a commit padded with zeros.\<close>

definition ends_word :: "char \<Rightarrow> bool" where
  "ends_word c \<longleftrightarrow> c = CHR ''#'' \<or> c = CHR '' '' \<or> c = CR \<or> c = NL \<or> c = TAB"

definition printable_version :: "tor_version_t \<Rightarrow> bool" where
  "printable_version v \<longleftrightarrow> ordered_version v \<and> (\<forall>c \<in> set (status_tag v). \<not> ends_word c) \<and>
     (git_tag_len v = 0 \<or> svn_revision v = 0) \<and> drop (nat (git_tag_len v)) (git_tag v) = replicate (20 - nat (git_tag_len v)) 0"

lemma find_whitespace_word: "\<forall>c \<in> set w. \<not> ends_word c \<Longrightarrow> find_whitespace (w @ rest) = find_whitespace rest"
  by (induction w) (auto simp: ends_word_def)

lemma find_whitespace_hd: "s = [] \<or> ends_word (hd s) \<Longrightarrow> find_whitespace s = s"
  by (cases s) (auto simp: ends_word_def)

lemma strncmp_self: "strncmp (p @ s) p (length p) = 0"
  by (induction p) simp_all

lemma strcmpstart_self: "strcmpstart (p @ s) p = 0"
  unfolding strcmpstart_def by (rule strncmp_self)

lemma no_digit_simps: "no_digit_first []" "no_digit_first (c # s) \<longleftrightarrow> \<not> is_digit_of 10 c"
  by (simp_all add: no_digit_first_def)

lemma not_digits: "\<not> is_digit_of 10 (CHR ''.'')" "\<not> is_digit_of 10 (CHR ''-'')" "\<not> is_digit_of 10 (CHR '' '')" "\<not> is_digit_of 10 (CHR '')'')"
  "\<not> is_digit_of 10 (CHR ''p'')" "\<not> is_digit_of 10 (CHR ''r'')"
  by (simp_all add: is_digit_of_def digit_val_def)

lemma parse_revision_text:
  assumes "printable_version v" "svn_revision out = 0" "git_tag_len out = 0" "git_tag out = replicate 20 0"
  shows "parse_revision out (drop 1 (revision_text v) @ rest) =
    (if revision_text v = [] then parse_revision out rest
     else Done (out\<lparr>svn_revision := svn_revision v, git_tag_len := git_tag_len v, git_tag := git_tag v\<rparr>))"
proof (cases "git_tag_len v > 0")
  case True
  let ?n = "nat (git_tag_len v)" let ?hex = "base16_loop (take ?n (git_tag v))"
  have v: "git_tag_len v \<le> 20" "length (git_tag v) = 20" "svn_revision v = 0"
    using assms(1) True by (auto simp: printable_version_def ordered_version_def version_ok_def)
  have len: "length ?hex = 2 * ?n" using v by (simp add: length_base16_loop)
  have np: "CHR '')'' \<notin> set (''(git-'' @ ?hex)" using base16_loop_chars [of "take ?n (git_tag v)"] by auto
  have t: "drop 1 (revision_text v) @ rest = ''(git-'' @ ?hex @ CHR '')'' # rest" using True by (simp add: revision_text_def)
  have m: "memchr (''(git-'' @ ?hex @ CHR '')'' # rest) (CHR '')'') = Some (5 + 2 * ?n)"
    using memchr_append [OF np, of rest] len by simp
  have dec: "base16_decode ?n ?hex = Done (take ?n (git_tag v), ?n)"
    using v by (simp add: base16_decode_def base16_loop_roundtrip len byte_buffer_def C_INT_MAX_def Let_def)
  have "strcmpstart (''(git-'' @ ?hex @ CHR '')'' # rest) ''(r'' \<noteq> 0" by (simp add: strcmpstart_def)
  moreover have "strcmpstart (''(git-'' @ ?hex @ CHR '')'' # rest) ''(git-'' = 0" by (simp add: strcmpstart_def)
  moreover have "take (2 * ?n) (drop 5 (''(git-'' @ ?hex @ CHR '')'' # rest)) = ?hex" using len by simp
  moreover have "take ?n (git_tag v) @ replicate (20 - ?n) 0 = git_tag v"
    using assms(1) by (metis append_take_drop_id printable_version_def)
  ultimately have "parse_revision out (drop 1 (revision_text v) @ rest) =
      Done (out\<lparr>git_tag := git_tag v, git_tag_len := git_tag_len v\<rparr>)"
    using True v(1) assms(4) unfolding t parse_revision_def m by (simp add: Let_def dec)
  moreover have "revision_text v \<noteq> []" using True by (simp add: revision_text_def)
  moreover have "out\<lparr>git_tag := git_tag v, git_tag_len := git_tag_len v\<rparr> =
      out\<lparr>svn_revision := svn_revision v, git_tag_len := git_tag_len v, git_tag := git_tag v\<rparr>"
    using assms(2) v(3) by (cases out) simp
  ultimately show ?thesis by simp
next
  case False
  then have g: "git_tag_len v = 0" "git_tag v = replicate 20 0"
    using assms(1) by (auto simp: printable_version_def ordered_version_def version_ok_def)
  show ?thesis
  proof (cases "svn_revision v = 0")
    case True
    then show ?thesis using g by (simp add: revision_text_def)
  next
    case False
    have r: "0 \<le> svn_revision v" "svn_revision v < 2 ^ 31"
      using assms(1) by (auto simp: printable_version_def ordered_version_def version_ok_def)
    have t: "drop 1 (revision_text v) @ rest = ''(r'' @ dec_digits (nat (svn_revision v)) @ CHR '')'' # rest"
      using g False by (simp add: revision_text_def)
    have sc: "strto_scan (dec_digits (nat (svn_revision v)) @ CHR '')'' # rest) 10 = Some (False, nat (svn_revision v), CHR '')'' # rest)"
      by (rule strto_scan_unsigned) (simp add: no_digit_simps not_digits)
    have "strtox_r (strtol (dec_digits (nat (svn_revision v)) @ CHR '')'' # rest) 10) = svn_revision v"
      using r by (simp add: strtol_def sc Let_def)
    moreover have "strcmpstart (''(r'' @ dec_digits (nat (svn_revision v)) @ CHR '')'' # rest) ''(r'' = 0" by (rule strcmpstart_self)
    ultimately have "parse_revision out (drop 1 (revision_text v) @ rest) = Done (out\<lparr>svn_revision := svn_revision v\<rparr>)"
      using r unfolding t parse_revision_def by simp
    moreover have "out\<lparr>svn_revision := svn_revision v\<rparr> =
        out\<lparr>svn_revision := svn_revision v, git_tag_len := git_tag_len v, git_tag := git_tag v\<rparr>"
      using assms(3,4) g by (cases out) simp
    moreover have "revision_text v \<noteq> []" using False g by (simp add: revision_text_def)
    ultimately show ?thesis by simp
  qed
qed

lemma eat_revision: "eat_whitespace (revision_text v) = drop 1 (revision_text v)"
  by (simp add: revision_text_def)

lemma parse_revision_nothing: "parse_revision out [] = Done out"
  by (simp add: parse_revision_def strcmpstart_def)

lemma parse_tag_text:
  assumes "printable_version v" "svn_revision out = 0" "git_tag_len out = 0" "git_tag out = replicate 20 0"
  shows "parse_status_tag out (tag_text v @ revision_text v) =
    Done (out\<lparr>status_tag := status_tag v, svn_revision := svn_revision v, git_tag_len := git_tag_len v, git_tag := git_tag v\<rparr>)"
proof -
  have tag: "\<forall>c \<in> set (status_tag v). \<not> ends_word c" "length (status_tag v) < MAX_STATUS_TAG_LEN"
    using assms(1) by (auto simp: printable_version_def ordered_version_def version_ok_def)
  have rev: "revision_text v = [] \<or> ends_word (hd (revision_text v))" by (simp add: revision_text_def ends_word_def)
  let ?cp = "tag_text v @ revision_text v"
  have sk: "(if take 1 ?cp = ''-'' \<or> take 1 ?cp = ''.'' then drop 1 ?cp else ?cp) = status_tag v @ revision_text v"
    by (auto simp: tag_text_def revision_text_def)
  have fw: "find_whitespace (status_tag v @ revision_text v) = revision_text v"
    using find_whitespace_word [OF tag(1)] find_whitespace_hd [OF rev] by simp
  have "parse_status_tag out ?cp = parse_revision (out\<lparr>status_tag := status_tag v\<rparr>) (drop 1 (revision_text v))"
    using tag(2) unfolding parse_status_tag_def sk Let_def fw eat_revision by simp
  also have "\<dots> = Done (out\<lparr>status_tag := status_tag v, svn_revision := svn_revision v, git_tag_len := git_tag_len v, git_tag := git_tag v\<rparr>)"
  proof (cases "revision_text v = []")
    case True
    then have "git_tag_len v = 0" "svn_revision v = 0"
      using assms(1) by (auto simp: revision_text_def printable_version_def ordered_version_def version_ok_def split: if_splits)
    moreover from this have "git_tag v = replicate 20 0"
      using assms(1) by (simp add: printable_version_def)
    ultimately show ?thesis using True assms(2-4) by (cases out) (simp add: parse_revision_nothing)
  next
    case False
    then show ?thesis using parse_revision_text [OF assms(1), of "out\<lparr>status_tag := status_tag v\<rparr>" "[]"] assms(2-4) by simp
  qed
  finally show ?thesis .
qed

lemma no_digit_tag: "no_digit_first (tag_text v @ revision_text v)"
  by (simp add: tag_text_def revision_text_def no_digit_simps not_digits)

lemma parse_patch_text:
  assumes "printable_version v" "svn_revision out = 0" "git_tag_len out = 0" "git_tag out = replicate 20 0"
  shows "parse_patchlevel out (dec_digits (nat (patchlevel v)) @ tag_text v @ revision_text v) =
    Done (out\<lparr>patchlevel := patchlevel v, status_tag := status_tag v, svn_revision := svn_revision v,
      git_tag_len := git_tag_len v, git_tag := git_tag v\<rparr>)"
proof -
  have r: "0 \<le> patchlevel v" "patchlevel v \<le> INT32_MAX"
    using assms(1) by (auto simp: printable_version_def ordered_version_def version_ok_def)
  have "NUMBER (dec_digits (nat (patchlevel v)) @ tag_text v @ revision_text v) = Done (patchlevel v, tag_text v @ revision_text v)"
    using NUMBER_dec [OF _ no_digit_tag, of "nat (patchlevel v)" v] r by simp
  then show ?thesis
    using parse_tag_text [OF assms(1), of "out\<lparr>patchlevel := patchlevel v\<rparr>"] assms(2-4) by (simp add: parse_patchlevel_def)
qed

lemma parse_version_text:
  assumes "printable_version v"
  shows "tor_version_parse (version_text v) = Done v" "tor_version_parse (''Tor '' @ version_text v) = Done v"
proof -
  let ?tail = "dec_digits (nat (patchlevel v)) @ tag_text v @ revision_text v"
  have r: "0 \<le> major v" "major v \<le> INT32_MAX" "0 \<le> minor v" "minor v \<le> INT32_MAX" "0 \<le> micro v" "micro v \<le> INT32_MAX"
    using assms by (auto simp: printable_version_def ordered_version_def version_ok_def)
  have nd: "no_digit_first (status_text r @ s)" for r s by (cases r) (simp_all add: no_digit_simps not_digits)
  have n1: "NUMBER (version_text v) = Done (major v, ''.'' @ dec_digits (nat (minor v)) @ ''.'' @ dec_digits (nat (micro v)) @
      status_text (v_status v) @ ?tail)"
    using NUMBER_dec [of "nat (major v)"] r by (simp add: version_text_def no_digit_simps not_digits)
  have n2: "NUMBER (dec_digits (nat (minor v)) @ ''.'' @ s) = Done (minor v, ''.'' @ s)" for s
    using NUMBER_dec [of "nat (minor v)"] r by (simp add: no_digit_simps not_digits)
  have n3: "NUMBER (dec_digits (nat (micro v)) @ status_text (v_status v) @ ?tail) = Done (micro v, status_text (v_status v) @ ?tail)"
    using NUMBER_dec [OF _ nd, of "nat (micro v)"] r by simp
  let ?out = "version_zero\<lparr>major := major v, minor := minor v, micro := micro v\<rparr>"
  have z: "svn_revision ?out = 0" "git_tag_len ?out = 0" "git_tag ?out = replicate 20 0" by (simp_all add: version_zero_def)
  have fin: "parse_after_micro ?out (status_text (v_status v) @ ?tail) = Done v"
  proof (cases "v_status v")
    case VER_PRE
    have "parse_after_micro ?out (status_text (v_status v) @ ?tail) = parse_patchlevel (?out\<lparr>v_status := VER_PRE\<rparr>) ?tail"
      by (simp add: parse_after_micro_def VER_PRE numeral_3_eq_3)
    then show ?thesis
      using parse_patch_text [OF assms, of "?out\<lparr>v_status := VER_PRE\<rparr>"] z VER_PRE by (cases v) (simp add: version_zero_def)
  next
    case VER_RC
    have "parse_after_micro ?out (status_text (v_status v) @ ?tail) = parse_patchlevel (?out\<lparr>v_status := VER_RC\<rparr>) ?tail"
      by (simp add: parse_after_micro_def VER_RC numeral_3_eq_3 numeral_2_eq_2)
    then show ?thesis
      using parse_patch_text [OF assms, of "?out\<lparr>v_status := VER_RC\<rparr>"] z VER_RC by (cases v) (simp add: version_zero_def)
  next
    case VER_RELEASE
    have "parse_after_micro ?out (status_text (v_status v) @ ?tail) = parse_patchlevel ?out ?tail"
      by (simp add: parse_after_micro_def VER_RELEASE)
    then show ?thesis
      using parse_patch_text [OF assms, of ?out] z VER_RELEASE by (cases v) (simp add: version_zero_def)
  qed
  have body: "and_then (NUMBER (version_text v)) (\<lambda>(v, cp). and_then (DOT cp) (\<lambda>cp. and_then (NUMBER cp) (\<lambda>(w, cp).
         let out = version_zero\<lparr>major := v, minor := w\<rparr>
         in if cp = [] then Done out
            else if take 1 cp = ''-'' then parse_status_tag out cp
            else and_then (DOT cp) (\<lambda>cp.
                 and_then (NUMBER cp) (\<lambda>(x, cp). parse_after_micro (out\<lparr>micro := x\<rparr>) cp))))) = Done v"
    using n2 n3 fin by (simp add: n1 DOT_def)
  obtain d ds where d: "(d :: nat) < 10" "dec_digits (nat (major v)) = char_of (48 + d) # ds" by (rule dec_digits_head)
  have "d \<in> {0, 1, 2, 3, 4, 5, 6, 7, 8, 9}" using d(1) by auto
  then have low: "TOR_TOLOWER (char_of (48 + d)) \<noteq> CHR ''t''" by (auto simp: TOR_TOLOWER_eq TOR_ISUPPER_iff char_of_eq_iff take_bit_eq_mod)
  have t: "TOR_TOLOWER (CHR ''T'') = CHR ''t''" by code_simp
  have "strcasecmpstart (version_text v) ''Tor '' \<noteq> 0"
    using low of_char_eq_iff [of "TOR_TOLOWER (char_of (48 + d))" "CHR ''t''", where ?'a = int]
    by (simp add: version_text_def d(2) strcasecmpstart_def strncasecmp_def t)
  then show "tor_version_parse (version_text v) = Done v" using body by (simp add: tor_version_parse_def)
  have "strcasecmpstart (''Tor '' @ version_text v) ''Tor '' = 0"
    unfolding strcasecmpstart_def strncasecmp_def map_append using strncmp_self [of "map TOR_TOLOWER ''Tor ''"] by simp
  then show "tor_version_parse (''Tor '' @ version_text v) = Done v"
    using body unfolding tor_version_parse_def by simp
qed

lemma hd_version_text: "\<exists>d t. d < (10 :: nat) \<and> version_text v = char_of (48 + d) # t"
proof -
  obtain d ds where "(d :: nat) < 10" "dec_digits (nat (major v)) = char_of (48 + d) # ds" by (rule dec_digits_head)
  then show ?thesis by (auto simp: version_text_def)
qed

definition version_head :: "tor_version_t \<Rightarrow> string" where
  "version_head v = dec_digits (nat (major v)) @ ''.'' @ dec_digits (nat (minor v)) @ ''.'' @ dec_digits (nat (micro v)) @
     status_text (v_status v) @ dec_digits (nat (patchlevel v)) @ tag_text v"

lemma version_text_head: "version_text v = version_head v @ revision_text v"
  by (simp add: version_text_def version_head_def)

lemma digit_not_end: "c \<in> set (dec_digits n) \<Longrightarrow> \<not> ends_word c"
  using dec_digits_digits [of c n] by (auto simp: ends_word_def char_of_eq_iff take_bit_eq_mod)

lemma version_head_word: "printable_version v \<Longrightarrow> \<forall>c \<in> set (version_head v). \<not> ends_word c"
proof -
  assume "printable_version v"
  then have "\<forall>c \<in> set (tag_text v). \<not> ends_word c" by (auto simp: printable_version_def tag_text_def ends_word_def)
  moreover have "\<forall>c \<in> set (status_text r). \<not> ends_word c" for r by (cases r) (simp_all add: ends_word_def)
  ultimately show ?thesis by (auto simp: version_head_def digit_not_end) (simp_all add: ends_word_def)
qed

lemma revision_word: "\<forall>c \<in> set (drop 1 (revision_text v)). \<not> ends_word c"
  using base16_loop_chars [of "take (nat (git_tag_len v)) (git_tag v)"]
  by (auto simp: revision_text_def digit_not_end) (auto simp: ends_word_def)

lemma parse_platform_text:
  assumes "printable_version v" "length (version_text v) < 127" "sfx = [] \<or> (\<exists>c s. sfx = CHR '' '' # c # s \<and> c \<noteq> CHR ''('' \<and> c \<noteq> CHR ''#'' \<and> \<not> ends_word c)"
  shows "tor_version_parse_platform (''Tor '' @ version_text v @ sfx) strict = (1, Some v)"
proof -
  obtain d t where d: "d < (10 :: nat)" "version_text v = char_of (48 + d) # t" using hd_version_text by blast
  have nd: "\<not> ends_word (char_of (48 + d))" using d(1) by (auto simp: ends_word_def char_of_eq_iff take_bit_eq_mod)
  have start: "eat_whitespace (drop 3 (''Tor '' @ version_text v @ sfx)) = version_text v @ sfx"
    using nd by (simp add: d(2) ends_word_def)
  let ?start = "version_text v @ sfx"
  have fsfx: "find_whitespace sfx = sfx"
    by (rule find_whitespace_hd) (use assms(3) in \<open>auto simp: ends_word_def\<close>)
  have esfx: "\<not> (strcmpstart (eat_whitespace sfx) ''(r'' = 0 \<or> strcmpstart (eat_whitespace sfx) ''(git-'' = 0)"
  proof -
    consider "eat_whitespace sfx = []" | c s where "eat_whitespace sfx = c # s" "c \<noteq> CHR ''(''"
      using assms(3) by (auto simp: ends_word_def)
    then show ?thesis
    proof cases
      case 2
      have "of_char c - of_char (CHR ''('') \<noteq> (0 :: int)" using 2(2) by (metis eq_iff_diff_eq_0 of_char_eq_iff)
      then show ?thesis using 2 by (auto simp: strcmpstart_def numeral_2_eq_2 numeral_eq_Suc)
    qed (simp add: strcmpstart_def)
  qed
  have fw: "find_whitespace ?start = revision_text v @ sfx"
  proof -
    have "find_whitespace (revision_text v @ sfx) = revision_text v @ sfx"
      using assms(3) by (intro find_whitespace_hd) (auto simp: revision_text_def ends_word_def)
    then show ?thesis using find_whitespace_word [OF version_head_word [OF assms(1)]] by (simp add: version_text_head)
  qed
  have sel: "(if strcmpstart (eat_whitespace (revision_text v @ sfx)) ''(r'' = 0 \<or> strcmpstart (eat_whitespace (revision_text v @ sfx)) ''(git-'' = 0
      then find_whitespace (eat_whitespace (revision_text v @ sfx)) else revision_text v @ sfx) = sfx"
  proof (cases "revision_text v = []")
    case True
    then show ?thesis using esfx by simp
  next
    case False
    then have r: "eat_whitespace (revision_text v @ sfx) = drop 1 (revision_text v) @ sfx"
        "take 2 (drop 1 (revision_text v)) = ''(r'' \<or> take 5 (drop 1 (revision_text v)) = ''(git-''"
      by (auto simp: revision_text_def split: if_splits)
    from r(2) have "strcmpstart (drop 1 (revision_text v) @ sfx) ''(r'' = 0 \<or> strcmpstart (drop 1 (revision_text v) @ sfx) ''(git-'' = 0"
    proof
      assume "take 2 (drop 1 (revision_text v)) = ''(r''"
      then obtain u where "drop 1 (revision_text v) = ''(r'' @ u" by (metis append_take_drop_id)
      then show ?thesis using strcmpstart_self [of "''(r''" "u @ sfx"] by simp
    next
      assume "take 5 (drop 1 (revision_text v)) = ''(git-''"
      then obtain u where "drop 1 (revision_text v) = ''(git-'' @ u" by (metis append_take_drop_id)
      then show ?thesis using strcmpstart_self [of "''(git-''" "u @ sfx"] by simp
    qed
    then show ?thesis using find_whitespace_word [OF revision_word] fsfx unfolding r(1) by simp
  qed
  have n: "length ?start - length sfx = length (version_text v)" by simp
  have tk: "take (length (version_text v)) ?start = version_text v" by simp
  have nn: "\<not> (strict \<and> (major v < 0 \<or> minor v < 0 \<or> micro v < 0 \<or> patchlevel v < 0 \<or> svn_revision v < 0))"
    using assms(1) by (auto simp: printable_version_def ordered_version_def version_ok_def)
  have ne: "?start \<noteq> []" using d(2) by simp
  have len: "\<not> length (version_text v) + 1 \<ge> 128" using assms(2) by simp
  show ?thesis
    unfolding tor_version_parse_platform_def strcmpstart_self start Let_def fw sel n tk parse_version_text(1) [OF assms(1)]
    using ne len nn by simp
qed

section \<open>The status of a version\<close>

text \<open>The versions on a list: those of its items that parse.\<close>

definition listed_version :: "string \<Rightarrow> tor_version_t option" where
  "listed_version cp = (case tor_version_parse (if strcmpstart cp ''Tor '' = 0 then drop 4 cp else cp) of Done v \<Rightarrow> Some v | _ \<Rightarrow> None)"

definition listed_versions :: "string list \<Rightarrow> tor_version_t list" where
  "listed_versions cps = List.map_filter listed_version cps"

lemma listed_simps:
  "listed_versions [] = []"
  "listed_versions (cp # cps) = (case listed_version cp of None \<Rightarrow> listed_versions cps | Some v \<Rightarrow> v # listed_versions cps)"
  by (simp_all add: listed_versions_def map_filter_simps split: option.splits)

lemma obsolete_loop_eq:
  "obsolete_loop mine cps f =
     (let os = listed_versions cps
      in if \<exists>v \<in> set os. tor_version_compare mine v = 0 then None
         else Some \<lparr>found_newer = (found_newer f \<or> (\<exists>v \<in> set os. tor_version_compare mine v < 0)),
                    found_older = (found_older f \<or> (\<exists>v \<in> set os. tor_version_compare mine v > 0)),
                    found_newer_in_series = (found_newer_in_series f \<or>
                      (\<exists>v \<in> set os. tor_version_same_series mine v \<and> tor_version_compare mine v < 0)),
                    found_any_in_series = (found_any_in_series f \<or> (\<exists>v \<in> set os. tor_version_same_series mine v))\<rparr>)"
proof (induction mine cps f rule: obsolete_loop.induct)
  case (1 mine f)
  then show ?case by (simp add: listed_simps)
next
  case (2 mine cp cps f)
  let ?p = "tor_version_parse (if strcmpstart cp ''Tor '' = 0 then drop 4 cp else cp)"
  show ?case
  proof (cases ?p)
    case (Done v)
    then have l: "listed_version cp = Some v" by (simp add: listed_version_def)
    consider "tor_version_compare mine v = 0" | "tor_version_compare mine v < 0" | "tor_version_compare mine v > 0" by linarith
    then show ?thesis
    proof cases
      case 1
      then show ?thesis using Done by (simp add: listed_simps l Let_def)
    next
      case 2
      from "2.IH"(3) [OF Done refl refl refl] 2
      show ?thesis using Done by (simp add: listed_simps l Let_def, (auto)?)
    next
      case 3
      from "2.IH"(4) [OF Done refl refl refl] 3
      show ?thesis using Done by (simp add: listed_simps l Let_def, (auto)?)
    qed
  next
    case Assertion_failed
    then show ?thesis using "2.IH"(1) by (simp add: listed_simps listed_version_def)
  next
    case Minus_1
    then show ?thesis using "2.IH"(2) by (simp add: listed_simps listed_version_def)
  qed
qed

section \<open>Properties\<close>

lemma cycle_versions:
  "tor_version_parse ''1.1- (r2147483648)'' = Done (version_zero\<lparr>major := 1, minor := 1, svn_revision := - 2147483648\<rparr>)"
  "tor_version_parse ''1.1- (r0)'' = Done (version_zero\<lparr>major := 1, minor := 1\<rparr>)"
  "tor_version_parse ''1.1- (r2147483647)'' = Done (version_zero\<lparr>major := 1, minor := 1, svn_revision := 2147483647\<rparr>)"
proof -
  have d1: "dec_digits (Suc 0) = ''1''" by code_simp
  have r: "tor_version_parse (''1.1- (r'' @ dec_digits n @ '')'') = Done (version_zero\<lparr>major := 1, minor := 1, svn_revision := to_int32 (int n)\<rparr>)"
    if "int n \<le> INT64_MAX" for n
  proof -
    have n: "NUMBER (''1.'' @ s) = Done (1, ''.'' @ s)" "NUMBER (''1-'' @ s) = Done (1, ''-'' @ s)" for s
      using NUMBER_dec [of "Suc 0" "''.'' @ s"] NUMBER_dec [of "Suc 0" "''-'' @ s"]
      by (simp_all add: no_digit_simps not_digits d1)
    have l: "strcasecmpstart (''1.1- (r'' @ s) ''Tor '' \<noteq> 0" for s
    proof -
      have "TOR_TOLOWER (CHR ''1'') = CHR ''1''" "TOR_TOLOWER (CHR ''T'') = CHR ''t''" by code_simp+
      then show ?thesis by (simp add: strcasecmpstart_def strncasecmp_def)
    qed
    have sc: "strto_scan (dec_digits n @ '')'') 10 = Some (False, n, '')'')"
      by (rule strto_scan_unsigned) (simp add: no_digit_simps not_digits)
    have "strtox_r (strtol (dec_digits n @ '')'') 10) = int n" using that by (simp add: strtol_def sc Let_def)
    moreover have "strcmpstart (''(r'' @ dec_digits n @ '')'') ''(r'' = 0" by (rule strcmpstart_self)
    ultimately have "parse_revision (version_zero\<lparr>major := 1, minor := 1\<rparr>) (''(r'' @ dec_digits n @ '')'') =
        Done (version_zero\<lparr>major := 1, minor := 1, svn_revision := to_int32 (int n)\<rparr>)"
      by (simp add: parse_revision_def)
    moreover have "parse_status_tag (version_zero\<lparr>major := 1, minor := 1\<rparr>) (''- (r'' @ dec_digits n @ '')'') =
        parse_revision (version_zero\<lparr>major := 1, minor := 1\<rparr>) (''(r'' @ dec_digits n @ '')'')"
      by (simp add: parse_status_tag_def version_zero_def)
    ultimately show ?thesis
      using l n(1) [of "''1- (r'' @ dec_digits n @ '')''"] n(2) [of "'' (r'' @ dec_digits n @ '')''"]
      by (simp add: tor_version_parse_def DOT_def)
  qed
  have d: "dec_digits 2147483648 = ''2147483648''" "dec_digits 0 = ''0''" "dec_digits 2147483647 = ''2147483647''"
    by (simp_all add: dec_digits.simps char_of_def bit_Suc_0_iff)
  show "tor_version_parse ''1.1- (r2147483648)'' = Done (version_zero\<lparr>major := 1, minor := 1, svn_revision := - 2147483648\<rparr>)"
    using r [of 2147483648] by (simp add: d to_int32_def)
  show "tor_version_parse ''1.1- (r0)'' = Done (version_zero\<lparr>major := 1, minor := 1\<rparr>)"
    using r [of 0] by (simp add: d to_int32_def version_zero_def)
  show "tor_version_parse ''1.1- (r2147483647)'' = Done (version_zero\<lparr>major := 1, minor := 1, svn_revision := 2147483647\<rparr>)"
    using r [of 2147483647] by (simp add: d to_int32_def)
qed

text \<open>C9: the order of versions.  A version that parses is within the bounds of its fields, and on versions whose Subversion
  revision is not negative \<open>tor_version_compare\<close> is a total order, with equality exactly when all the fields that count are equal.  Revisions
  that do not fit into an \<open>int\<close> are read as negative ones, and among them the comparison can run in a circle.\<close>

theorem version_order_total:
  assumes "tor_version_parse s = Done a" "tor_version_parse t = Done b" "tor_version_parse u = Done c"
    "NUL \<notin> set (s @ t @ u)" "0 \<le> svn_revision a" "0 \<le> svn_revision b" "0 \<le> svn_revision c"
  shows "version_ok a \<and>
    (tor_version_compare a b < 0 \<longleftrightarrow> tor_version_compare b a > 0) \<and>
    (tor_version_compare a b \<le> 0 \<and> tor_version_compare b c \<le> 0 \<longrightarrow> tor_version_compare a c \<le> 0) \<and>
    (tor_version_compare a b = 0 \<longleftrightarrow> a\<lparr>git_tag := []\<rparr> = b\<lparr>git_tag := []\<rparr> \<and>
       take (nat (git_tag_len a)) (git_tag a) = take (nat (git_tag_len b)) (git_tag b)) \<and>
    (\<exists>x y z. tor_version_parse ''1.1- (r2147483648)'' = Done x \<and> tor_version_parse ''1.1- (r0)'' = Done y \<and>
       tor_version_parse ''1.1- (r2147483647)'' = Done z \<and>
       tor_version_compare x y < 0 \<and> tor_version_compare y z < 0 \<and> tor_version_compare z x < 0)"
proof -
  have ok: "version_ok a" "version_ok b" "version_ok c" using assms parse_ok by auto
  then have o: "a \<in> {v. ordered_version v}" "b \<in> {v. ordered_version v}" "c \<in> {v. ordered_version v}"
    using assms(5-7) by (simp_all add: ordered_version_def)
  have cyc: "\<exists>x y z. tor_version_parse ''1.1- (r2147483648)'' = Done x \<and> tor_version_parse ''1.1- (r0)'' = Done y \<and>
       tor_version_parse ''1.1- (r2147483647)'' = Done z \<and>
       tor_version_compare x y < 0 \<and> tor_version_compare y z < 0 \<and> tor_version_compare z x < 0"
    by (simp add: cycle_versions tor_version_compare_def version_zero_def CMP_def if_equal_def to_int32_def)
  show ?thesis
    by (intro conjI impI ok(1) version_order.sign [OF o(1,2)] version_compare_0 [OF ok(1,2)] cyc)
      (use version_order.trans [OF o] in blast)
qed

theorem version_order_total_witness:
  "\<exists>a b. tor_version_parse ''1.1- (r0)'' = Done a \<and> tor_version_parse ''1.1- (r2147483647)'' = Done b \<and>
     tor_version_compare a b < 0 \<and> tor_version_compare b a > 0"
proof -
  let ?a = "version_zero\<lparr>major := 1, minor := 1\<rparr>" and ?b = "version_zero\<lparr>major := 1, minor := 1, svn_revision := 2147483647\<rparr>"
  have "tor_version_compare ?a ?b < 0"
    by (simp add: tor_version_compare_def version_zero_def CMP_def if_equal_def to_int32_def)
  then show ?thesis
    using version_order_total [OF cycle_versions(2,3) cycle_versions(2)] by (simp add: cycle_versions(2,3) version_zero_def)
qed

text \<open>Sorting a version list.  With a \<open>qsort\<close> that sorts, \<open>sort_version_list\<close> gives a permutation of the list in the order of versions,
  those that do not parse last, and without duplicates, when asked to remove them, a strictly ascending
  part of it in which every version is still represented.\<close>

theorem sort_version_list_sorts:
  assumes "qsort_sorts qsort" "\<forall>s \<in> set versions. ordered_string s"
  shows "mset (sort_version_list qsort versions False) = mset versions \<and>
    sorted_wrt (\<lambda>s t. compare_tor_version_str_ptr s t \<le> 0) (sort_version_list qsort versions False) \<and>
    sorted_wrt (\<lambda>s t. compare_tor_version_str_ptr s t < 0) (sort_version_list qsort versions True) \<and>
    set (sort_version_list qsort versions True) \<subseteq> set versions \<and>
    (\<forall>s \<in> set versions. \<exists>t \<in> set (sort_version_list qsort versions True). compare_tor_version_str_ptr t s = 0)"
proof -
  have sub: "set versions \<subseteq> {s. ordered_string s}" using assms(2) by blast
  note s = smartlist_sort_ok [OF assms(1) version_string_order.comparison_axioms sub]
  have set: "set (smartlist_sort qsort versions compare_tor_version_str_ptr) = set versions" using s(1) by (rule mset_eq_setD)
  have u: "set (smartlist_sort qsort versions compare_tor_version_str_ptr) \<subseteq> {s. ordered_string s}" using set sub by simp
  note uniq = version_string_order.uniq_ok [OF s(2) u]
  have "set (smartlist_uniq compare_tor_version_str_ptr (smartlist_sort qsort versions compare_tor_version_str_ptr)) \<subseteq> set versions"
    using uniq set by (auto elim!: list_emb_set)
  then show ?thesis using s uniq by (auto simp: sort_version_list_def Let_def set)
qed

text \<open>C28: reading back a version.  Every version with a text in the documented format, its tag and its revision or commit included, is what
  \<open>tor_version_parse\<close> makes of its text, with or without the leading \<open>Tor\<close>; and from a platform line the same version is extracted,
  whatever follows it, so that \<open>tor_version_as_new_as\<close> compares the versions.\<close>

theorem version_text_roundtrip:
  assumes "printable_version v" "printable_version w" "length (version_text v) < 127" "\<not> ends_word c" "c \<noteq> CHR ''(''"
  shows "tor_version_parse (version_text v) = Done v \<and> tor_version_parse (''Tor '' @ version_text v) = Done v \<and>
    tor_version_parse_platform (''Tor '' @ version_text v @ '' '' @ c # os) strict = (1, Some v) \<and>
    (tor_version_as_new_as (''Tor '' @ version_text v @ '' '' @ c # os) (version_text w) \<longleftrightarrow> tor_version_compare v w \<ge> 0)"
proof -
  have p: "tor_version_parse_platform (''Tor '' @ version_text v @ '' '' @ c # os) str = (1, Some v)" for str
    using parse_platform_text [OF assms(1,3), of "'' '' @ c # os" str] assms(4,5) by (auto simp: ends_word_def)
  show ?thesis
    unfolding tor_version_as_new_as_def p parse_version_text [OF assms(2)] parse_version_text [OF assms(1)] by simp
qed

lemma status_cases:
  fixes c :: "'a \<Rightarrow> int" and S :: "'a \<Rightarrow> bool" and os :: "'a set"
  defines "st \<equiv> (if \<exists>v \<in> os. c v = 0 then VS_RECOMMENDED
       else if (\<exists>v \<in> os. S v) \<and> \<not> (\<exists>v \<in> os. S v \<and> c v < 0) \<and> (\<exists>v \<in> os. c v < 0) then VS_NEW_IN_SERIES
       else if (\<exists>v \<in> os. c v < 0) \<and> \<not> (\<exists>v \<in> os. c v > 0) then VS_OLD
       else if (\<exists>v \<in> os. c v > 0) \<and> \<not> (\<exists>v \<in> os. c v < 0) then VS_NEW
       else VS_UNRECOMMENDED)"
  shows "st = VS_RECOMMENDED \<longleftrightarrow> (\<exists>v \<in> os. c v = 0)"
    "st = VS_OLD \<longleftrightarrow> os \<noteq> {} \<and> (\<forall>v \<in> os. c v < 0)"
    "st = VS_NEW \<longleftrightarrow> os \<noteq> {} \<and> (\<forall>v \<in> os. c v > 0)"
    "st = VS_NEW_IN_SERIES \<longleftrightarrow> (\<forall>v \<in> os. c v < 0 \<or> c v > 0) \<and> (\<exists>v \<in> os. c v < 0) \<and> (\<exists>v \<in> os. S v) \<and> (\<forall>v \<in> os. S v \<longrightarrow> c v > 0)"
    "Done st \<in> Done ` {VS_RECOMMENDED, VS_OLD, VS_NEW, VS_NEW_IN_SERIES, VS_UNRECOMMENDED}"
proof -
  have tri: "c v = 0 \<or> c v < 0 \<or> c v > 0" for v by linarith
  have x: "\<not> (c v < 0 \<and> c v > 0)" "c v < 0 \<Longrightarrow> c v \<noteq> 0" "c v > 0 \<Longrightarrow> c v \<noteq> 0" for v by auto
  show "st = VS_RECOMMENDED \<longleftrightarrow> (\<exists>v \<in> os. c v = 0)" by (auto simp: st_def)
  show "st = VS_OLD \<longleftrightarrow> os \<noteq> {} \<and> (\<forall>v \<in> os. c v < 0)" unfolding st_def by (auto split: if_splits; metis tri less_asym less_irrefl)
  show "st = VS_NEW \<longleftrightarrow> os \<noteq> {} \<and> (\<forall>v \<in> os. c v > 0)" unfolding st_def by (auto split: if_splits; metis tri less_asym less_irrefl)
  show "st = VS_NEW_IN_SERIES \<longleftrightarrow> (\<forall>v \<in> os. c v < 0 \<or> c v > 0) \<and> (\<exists>v \<in> os. c v < 0) \<and> (\<exists>v \<in> os. S v) \<and> (\<forall>v \<in> os. S v \<longrightarrow> c v > 0)"
    unfolding st_def by (auto split: if_splits; metis tri less_asym less_irrefl)
  show "Done st \<in> Done ` {VS_RECOMMENDED, VS_OLD, VS_NEW, VS_NEW_IN_SERIES, VS_UNRECOMMENDED}" by (simp add: st_def)
qed

text \<open>The status of a version against a list of recommended ones.  It is recommended if it is on the list; otherwise old exactly when
  the list has versions and all are newer, new when there are some and all are older, new in its series when there are newer ones and its series is on the
  list with older ones only, and unrecommended in all other cases; an empty list gives \<open>VS_EMPTY\<close>, and items that do not parse are
  ignored.  A version newer than a list of its own series only is thus \<open>VS_NEW\<close>, not \<open>VS_NEW_IN_SERIES\<close>.\<close>

theorem version_status_spec:
  assumes "tor_version_parse my = Done mine" "versionlist \<noteq> []"
  shows "(\<exists>sl n. smartlist_split_string [] versionlist (Some '','') (no_flags\<lparr>SPLIT_SKIP_SPACE := True\<rparr>) 0 = Some (sl, n) \<and>
      (let os = set (listed_versions sl); r = tor_version_is_obsolete my versionlist;
           newer = (\<lambda>v. tor_version_compare mine v < 0); older = (\<lambda>v. tor_version_compare mine v > 0)
       in (r = Done VS_RECOMMENDED \<longleftrightarrow> (\<exists>v \<in> os. tor_version_compare mine v = 0)) \<and>
          (r = Done VS_OLD \<longleftrightarrow> os \<noteq> {} \<and> (\<forall>v \<in> os. newer v)) \<and>
          (r = Done VS_NEW \<longleftrightarrow> os \<noteq> {} \<and> (\<forall>v \<in> os. older v)) \<and>
          (r = Done VS_NEW_IN_SERIES \<longleftrightarrow> (\<forall>v \<in> os. newer v \<or> older v) \<and> (\<exists>v \<in> os. newer v) \<and>
             (\<exists>v \<in> os. tor_version_same_series mine v) \<and> (\<forall>v \<in> os. tor_version_same_series mine v \<longrightarrow> older v)) \<and>
          (r \<in> Done ` {VS_RECOMMENDED, VS_OLD, VS_NEW, VS_NEW_IN_SERIES, VS_UNRECOMMENDED}))) \<and>
    tor_version_is_obsolete my [] = Done VS_EMPTY"
proof -
  obtain sl n where sl: "smartlist_split_string [] versionlist (Some '','') (no_flags\<lparr>SPLIT_SKIP_SPACE := True\<rparr>) 0 = Some (sl, n)"
    unfolding smartlist_split_string_def by (metis list.distinct(1) option.inject split_loop_returns)
  obtain sl0 n0 where sl0: "smartlist_split_string [] [] (Some '','') (no_flags\<lparr>SPLIT_SKIP_SPACE := True\<rparr>) 0 = Some (sl0, n0)"
    unfolding smartlist_split_string_def by (metis list.distinct(1) option.inject split_loop_returns)
  have e: "tor_version_is_obsolete my [] = Done VS_EMPTY" 
    unfolding tor_version_is_obsolete_def assms(1) outcome.case sl0 by simp
  define os where "os = set (listed_versions sl)"
  have r: "tor_version_is_obsolete my versionlist = Done
      (if \<exists>v \<in> os. tor_version_compare mine v = 0 then VS_RECOMMENDED
       else if (\<exists>v \<in> os. tor_version_same_series mine v) \<and> \<not> (\<exists>v \<in> os. tor_version_same_series mine v \<and> tor_version_compare mine v < 0) \<and>
         (\<exists>v \<in> os. tor_version_compare mine v < 0) then VS_NEW_IN_SERIES
       else if (\<exists>v \<in> os. tor_version_compare mine v < 0) \<and> \<not> (\<exists>v \<in> os. tor_version_compare mine v > 0) then VS_OLD
       else if (\<exists>v \<in> os. tor_version_compare mine v > 0) \<and> \<not> (\<exists>v \<in> os. tor_version_compare mine v < 0) then VS_NEW
       else VS_UNRECOMMENDED)"
    using assms(2) unfolding tor_version_is_obsolete_def assms(1) outcome.case sl by (simp add: obsolete_loop_eq os_def)
  note st = status_cases [of os "tor_version_compare mine" "tor_version_same_series mine"]
  show ?thesis
    unfolding Let_def
  proof (intro conjI exI [of _ sl] exI [of _ n] sl e)
  qed (use st in \<open>simp_all only: r outcome.inject flip: os_def\<close>)
qed

lemma cycle_ordered: "ordered_string ''1.1- (r0)''" "ordered_string ''1.1- (r2147483647)''"
  by (simp_all add: ordered_string_def cycle_versions version_zero_def)

theorem sort_version_list_sorts_witness:
  "mset (sort_version_list insertion_sort [''1.1- (r2147483647)'', ''1.1- (r0)''] False) = {#''1.1- (r0)'', ''1.1- (r2147483647)''#} \<and>
   sorted_wrt (\<lambda>s t. compare_tor_version_str_ptr s t < 0) (sort_version_list insertion_sort [''1.1- (r2147483647)'', ''1.1- (r0)''] True)"
  using sort_version_list_sorts [OF insertion_sort_ok, of "[''1.1- (r2147483647)'', ''1.1- (r0)'']"] cycle_ordered by auto

theorem version_text_roundtrip_witness:
  "tor_version_parse ''0.4.7.13-dev'' = Done (version_zero\<lparr>minor := 4, micro := 7, patchlevel := 13, status_tag := ''dev''\<rparr>) \<and>
   tor_version_as_new_as ''Tor 0.4.7.13-dev on Linux'' ''0.0.0.0''"
proof -
  let ?v = "version_zero\<lparr>minor := 4, micro := 7, patchlevel := 13, status_tag := ''dev''\<rparr>"
  have t: "version_text ?v = ''0.4.7.13-dev''" "version_text version_zero = ''0.0.0.0''"
    by (simp_all add: version_text_def version_zero_def tag_text_def revision_text_def dec_digits.simps char_of_def bit_Suc_0_iff)
  have p: "printable_version ?v" "printable_version version_zero"
    by (simp_all add: printable_version_def ordered_version_def version_ok_def version_zero_def ends_word_def)
  have "tor_version_compare ?v version_zero \<ge> 0"
    by (simp add: tor_version_compare_def version_zero_def CMP_def if_equal_def to_int32_def)
  then show ?thesis
    using version_text_roundtrip [OF p, of "CHR ''o''" "''n Linux''"] by (simp add: t ends_word_def)
qed

theorem version_status_spec_witness:
  "tor_version_is_obsolete ''1.1- (r2147483647)'' ''1.1- (r0)'' = Done VS_NEW"
proof -
  have split: "smartlist_split_string [] ''1.1- (r0)'' (Some '','') (no_flags\<lparr>SPLIT_SKIP_SPACE := True\<rparr>) 0 = Some ([''1.1- (r0)''], 1)"
    unfolding smartlist_split_string_def
    by (subst split_loop.simps) (simp add: split_end_def split_next_def rstrip_def TOR_ISSPACE_iff c_isspace_def)
  have "listed_versions [''1.1- (r0)''] = [version_zero\<lparr>major := 1, minor := 1\<rparr>]"
    by (simp add: listed_simps listed_version_def strcmpstart_def cycle_versions)
  then show ?thesis
    using version_status_spec [OF cycle_versions(3), of "''1.1- (r0)''"] split
    by (auto simp: Let_def tor_version_compare_def version_zero_def CMP_def if_equal_def to_int32_def)
qed

end
