(* ===== verification/Protover.thy ===== *)
theory Protover
  imports Version_Props
begin

text \<open>
  Subprotocol versions: \<open>core/or/protover.c\<close>, and the summaries of protocol lists that \<open>core/or/versions.c\<close> keeps.

  A pointer into the text being parsed is the text from there on, and the end pointers are offsets from it.  NULL as the result of a parser is
  \<open>Minus_1\<close>.  Behaviour that C leaves undefined (a shift by the width of the type, counting the trailing zeros of zero) is
  \<open>Assertion_failed\<close>, like a failed assertion.  Whether the TLS library lets one compute the secrets of a connection is the
  parameter \<open>tls\<close> (\<open>HAVE_WORKING_TOR_TLS_GET_TLSSECRETS\<close>).
\<close>

section \<open>Definitions\<close>

datatype protocol_type_t =
  PRT_LINK | PRT_LINKAUTH | PRT_RELAY | PRT_DIRCACHE | PRT_HSDIR | PRT_HSINTRO | PRT_HSREND | PRT_DESC | PRT_MICRODESC |
  PRT_CONS | PRT_PADDING | PRT_FLOWCTRL | PRT_CONFLUX

definition PROTOCOL_NAMES :: "(protocol_type_t \<times> string) list" where
  "PROTOCOL_NAMES =
     [(PRT_LINK, ''Link''), (PRT_LINKAUTH, ''LinkAuth''), (PRT_RELAY, ''Relay''), (PRT_DIRCACHE, ''DirCache''),
      (PRT_HSDIR, ''HSDir''), (PRT_HSINTRO, ''HSIntro''), (PRT_HSREND, ''HSRend''), (PRT_DESC, ''Desc''),
      (PRT_MICRODESC, ''Microdesc''), (PRT_PADDING, ''Padding''), (PRT_CONS, ''Cons''), (PRT_FLOWCTRL, ''FlowCtrl''),
      (PRT_CONFLUX, ''Conflux'')]"

definition MAX_PROTOCOL_NAME_LENGTH :: nat where "MAX_PROTOCOL_NAME_LENGTH = 100"

definition protocol_type_to_str :: "protocol_type_t \<Rightarrow> string" where
  "protocol_type_to_str pr = (case map_of PROTOCOL_NAMES pr of Some name \<Rightarrow> name | None \<Rightarrow> ''UNKNOWN'')"

record proto_entry_t =
  p_name :: string
  bitmask :: u64

definition MAX_PROTOCOL_VERSION :: nat where "MAX_PROTOCOL_VERSION = 63"

subsection \<open>Parsing\<close>

definition digit_at :: "string \<Rightarrow> bool" where
  "digit_at s = (case s of [] \<Rightarrow> False | c # _ \<Rightarrow> TOR_ISDIGIT c)"

definition parse_version :: "string \<Rightarrow> (nat \<times> string) outcome" where
  "parse_version s =
     (if \<not> digit_at s then Minus_1
      else (case tor_parse_ulong s 10 0 (of_nat MAX_PROTOCOL_VERSION) True of
              Some (v, ok, Some next) \<Rightarrow> if \<not> ok then Minus_1 else Done (unat v, next)
            | _ \<Rightarrow> Minus_1))"

definition parse_version_range :: "string \<Rightarrow> nat \<Rightarrow> (nat \<times> nat) outcome" where
  "parse_version_range s end_of_range =
     and_then (parse_version s) (\<lambda>(low, next).
       let n = length s - length next
       in if n > end_of_range then Minus_1
          else if n = end_of_range then Done (low, low)
          else if take 1 next \<noteq> ''-'' then Minus_1
          else and_then (parse_version (drop 1 next)) (\<lambda>(high, next).
            if length s - length next \<noteq> end_of_range then Minus_1
            else if low > high then Minus_1
            else Done (low, high)))"

definition is_valid_keyword :: "string \<Rightarrow> bool" where
  "is_valid_keyword s = list_all (\<lambda>c. TOR_ISALNUM c \<or> c = CHR ''-'') s"

definition BIT :: "nat \<Rightarrow> u64" where "BIT x = push_bit x 1"

definition bitmask_for_range :: "nat \<Rightarrow> nat \<Rightarrow> u64 outcome" where
  "bitmask_for_range low high =
     (if \<not> (high \<le> 63 \<and> 63 - high + low < 64 \<and> low < 64) then Assertion_failed
      else let mask = NOT (0 :: u64);
               mask = push_bit (63 - high) mask;
               mask = drop_bit (63 - high + low) mask;
               mask = push_bit low mask
           in Done mask)"

lemma parse_range_digit: "parse_version_range s n = Done r \<Longrightarrow> digit_at s"
  by (auto simp: parse_version_range_def parse_version_def and_then_Done split: if_splits)

function ranges_loop :: "string \<Rightarrow> nat \<Rightarrow> u64 \<Rightarrow> u64 outcome" where
  "ranges_loop s n msk =
     (if n = 0 then Done msk
      else let comma = (case memchr (take n s) (CHR '','') of Some k \<Rightarrow> k | None \<Rightarrow> n)
           in and_then (parse_version_range s comma) (\<lambda>(low, high).
              and_then (bitmask_for_range low high) (\<lambda>m.
                let s = drop comma s; n = n - comma; msk = msk OR m
                in if 1 < n then ranges_loop (drop 1 s) (n - 1) msk else ranges_loop s n msk)))"
  by pat_completeness auto
termination
proof (relation "measure (\<lambda>(s, n, _). n)", goal_cases)
  case (2 s n msk comma r low high m t k msk')
  then show ?case by simp
next
  case (3 s n msk comma r low high m t k msk')
  have "comma \<noteq> 0"
  proof
    assume z: "comma = 0"
    then have "memchr (take n s) (CHR '','') = Some 0" using 3(1,2) by (auto split: option.splits)
    then have "take n s \<noteq> [] \<and> hd (take n s) = CHR '',''" by (cases "take n s") (auto split: if_splits)
    then have "\<not> digit_at s" using 3(1) by (cases s) (auto simp: digit_at_def TOR_ISDIGIT_iff take_Cons' split: if_splits)
    then show False using parse_range_digit 3(3) by blast
  qed
  then show ?case using 3 by auto
qed simp

declare ranges_loop.simps [simp del]

definition parse_single_entry :: "string \<Rightarrow> nat \<Rightarrow> proto_entry_t outcome" where
  "parse_single_entry s end_of_entry =
     (case memchr (take end_of_entry s) (CHR ''='') of
        None \<Rightarrow> Minus_1
      | Some equals \<Rightarrow>
          if equals = 0 then Minus_1
          else if equals > MAX_PROTOCOL_NAME_LENGTH then Minus_1
          else if \<not> is_valid_keyword (take equals s) then Minus_1
          else if \<not> equals < end_of_entry then Assertion_failed
          else and_then (ranges_loop (drop (equals + 1) s) (end_of_entry - (equals + 1)) 0) (\<lambda>mask.
            Done \<lparr>p_name = take equals s, bitmask = mask\<rparr>))"

function protocol_list_loop :: "string \<Rightarrow> proto_entry_t list \<Rightarrow> proto_entry_t list outcome" where
  "protocol_list_loop s entries =
     (if s = [] then Done entries
      else let end_of_entry = (case memchr s (CHR '' '') of Some k \<Rightarrow> k | None \<Rightarrow> length s)
           in and_then (parse_single_entry s end_of_entry) (\<lambda>entry.
                protocol_list_loop (dropWhile (\<lambda>c. c = CHR '' '') (drop end_of_entry s)) (entries @ [entry])))"
  by pat_completeness auto
termination
proof (relation "measure (\<lambda>(s, _). length s)", goal_cases)
  case (2 s entries e entry)
  have "e \<noteq> 0"
  proof
    assume "e = 0"
    then show False using 2(3) by (simp add: parse_single_entry_def)
  qed
  then have "length (drop e s) < length s" using 2(1) by simp
  then show ?case using length_dropWhile_le [of "\<lambda>c. c = CHR '' ''" "drop e s"] by simp
qed simp

declare protocol_list_loop.simps [simp del]

definition parse_protocol_list :: "string \<Rightarrow> proto_entry_t list outcome" where
  "parse_protocol_list s = protocol_list_loop s []"

definition protover_list_is_invalid :: "string \<Rightarrow> bool" where
  "protover_list_is_invalid s = (case parse_protocol_list s of Done _ \<Rightarrow> False | _ \<Rightarrow> True)"

subsection \<open>Support\<close>

fun find_entry_by_name :: "proto_entry_t list \<Rightarrow> string \<Rightarrow> proto_entry_t option" where
  "find_entry_by_name [] name = None"
| "find_entry_by_name (ent # protos) name = (if strcmp (p_name ent) name = 0 then Some ent else find_entry_by_name protos name)"

definition protocol_list_contains :: "proto_entry_t list \<Rightarrow> protocol_type_t \<Rightarrow> nat \<Rightarrow> bool" where
  "protocol_list_contains protos pr ver =
     (if ver > MAX_PROTOCOL_VERSION then False
      else case find_entry_by_name protos (protocol_type_to_str pr) of
             Some ent \<Rightarrow> bitmask ent AND BIT ver \<noteq> 0
           | None \<Rightarrow> False)"

definition protocol_list_supports_protocol :: "string \<Rightarrow> protocol_type_t \<Rightarrow> nat \<Rightarrow> bool" where
  "protocol_list_supports_protocol list tp version =
     (case parse_protocol_list list of Done protocols \<Rightarrow> protocol_list_contains protocols tp version | _ \<Rightarrow> False)"

definition protocol_list_supports_protocol_or_later :: "string \<Rightarrow> protocol_type_t \<Rightarrow> nat \<Rightarrow> bool outcome" where
  "protocol_list_supports_protocol_or_later list tp version =
     (case parse_protocol_list list of
        Done protocols \<Rightarrow>
          and_then (bitmask_for_range version 63) (\<lambda>mask.
            Done (list_ex (\<lambda>proto. strcasecmp (p_name proto) (protocol_type_to_str tp) = 0 \<and> 0 \<noteq> bitmask proto AND mask) protocols))
      | _ \<Rightarrow> Done False)"

fun protover_get_supported :: "bool \<Rightarrow> protocol_type_t \<Rightarrow> string" where
  "protover_get_supported tls PRT_CONFLUX = ''1''"
| "protover_get_supported tls PRT_CONS = ''1-2''"
| "protover_get_supported tls PRT_DESC = ''1-2''"
| "protover_get_supported tls PRT_DIRCACHE = ''2''"
| "protover_get_supported tls PRT_FLOWCTRL = ''1-2''"
| "protover_get_supported tls PRT_HSDIR = ''2''"
| "protover_get_supported tls PRT_HSINTRO = ''4-5''"
| "protover_get_supported tls PRT_HSREND = ''1-2''"
| "protover_get_supported tls PRT_LINK = ''1-5''"
| "protover_get_supported tls PRT_LINKAUTH = (if tls then ''1,3'' else ''3'')"
| "protover_get_supported tls PRT_MICRODESC = ''1-2''"
| "protover_get_supported tls PRT_PADDING = ''2''"
| "protover_get_supported tls PRT_RELAY = ''1-4''"

definition protover_get_supported_protocols :: "bool \<Rightarrow> string" where
  "protover_get_supported_protocols tls =
     ''Conflux='' @ protover_get_supported tls PRT_CONFLUX @ '' '' @
     ''Cons='' @ protover_get_supported tls PRT_CONS @ '' '' @
     ''Desc='' @ protover_get_supported tls PRT_DESC @ '' '' @
     ''DirCache='' @ protover_get_supported tls PRT_DIRCACHE @ '' '' @
     ''FlowCtrl='' @ protover_get_supported tls PRT_FLOWCTRL @ '' '' @
     ''HSDir='' @ protover_get_supported tls PRT_HSDIR @ '' '' @
     ''HSIntro='' @ protover_get_supported tls PRT_HSINTRO @ '' '' @
     ''HSRend='' @ protover_get_supported tls PRT_HSREND @ '' '' @
     ''Link='' @ protover_get_supported tls PRT_LINK @ '' '' @
     ''LinkAuth='' @ protover_get_supported tls PRT_LINKAUTH @ '' '' @
     ''Microdesc='' @ protover_get_supported tls PRT_MICRODESC @ '' '' @
     ''Padding='' @ protover_get_supported tls PRT_PADDING @ '' '' @
     ''Relay='' @ protover_get_supported tls PRT_RELAY"

definition protover_get_recommended_client_protocols :: string where
  "protover_get_recommended_client_protocols =
     ''Cons=2 Desc=2 DirCache=2 HSDir=2 HSIntro=4 HSRend=2 '' @ ''Link=4-5 Microdesc=2 Relay=2''"

definition protover_get_recommended_relay_protocols :: string where
  "protover_get_recommended_relay_protocols =
     ''Cons=2 Desc=2 DirCache=2 HSDir=2 HSIntro=4 HSRend=2 '' @ ''Link=4-5 LinkAuth=3 Microdesc=2 Relay=2''"

definition protover_get_required_client_protocols :: string where
  "protover_get_required_client_protocols = ''Cons=2 Desc=2 Link=4 Microdesc=2 Relay=2''"

definition protover_get_required_relay_protocols :: string where
  "protover_get_required_relay_protocols =
     ''Cons=2 Desc=2 DirCache=2 HSDir=2 HSIntro=4 HSRend=2 '' @ ''Link=4-5 LinkAuth=3 Microdesc=2 Relay=2''"

text \<open>The parsed list is kept in a static variable; it is a constant, NULL if the text does not parse.\<close>

definition get_supported_protocol_list :: "bool \<Rightarrow> proto_entry_t list option" where
  "get_supported_protocol_list tls =
     (case parse_protocol_list (protover_get_supported_protocols tls) of Done es \<Rightarrow> Some es | _ \<Rightarrow> None)"

definition protover_is_supported_here :: "bool \<Rightarrow> protocol_type_t \<Rightarrow> nat \<Rightarrow> bool" where
  "protover_is_supported_here tls pr ver =
     (case get_supported_protocol_list tls of Some ours \<Rightarrow> protocol_list_contains ours pr ver | None \<Rightarrow> False)"

subsection \<open>Encoding\<close>

definition trailing_zeros :: "u64 \<Rightarrow> nat outcome" where
  "trailing_zeros x = (if x = 0 then Assertion_failed else Done (length (takeWhile (\<lambda>i. \<not> bit x i) [0..<64])))"

lemma length_takeWhile_upt:
  assumes "i < n" "P i"
  shows "length (takeWhile (\<lambda>i. \<not> P i) [0..<n]) < n" "P (length (takeWhile (\<lambda>i. \<not> P i) [0..<n]))"
    "j < length (takeWhile (\<lambda>i. \<not> P i) [0..<n]) \<Longrightarrow> \<not> P j"
proof -
  define z where "z = length (takeWhile (\<lambda>i. \<not> P i) [0..<n])"
  have le: "z \<le> n" using length_takeWhile_le [of "\<lambda>i. \<not> P i" "[0..<n]"] by (simp add: z_def)
  have pre: "\<not> P j" if "j < z" for j
  proof -
    have "takeWhile (\<lambda>i. \<not> P i) [0..<n] ! j = j" using that le unfolding z_def by (simp add: takeWhile_nth)
    then have "j \<in> set (takeWhile (\<lambda>i. \<not> P i) [0..<n])" using that unfolding z_def by (metis nth_mem)
    then show ?thesis by (rule set_takeWhileD [THEN conjunct2])
  qed
  have less: "z < n" using pre [of i] assms le by (cases "i < z") auto
  then show "length (takeWhile (\<lambda>i. \<not> P i) [0..<n]) < n" by (simp add: z_def)
  show "P (length (takeWhile (\<lambda>i. \<not> P i) [0..<n]))"
    using nth_length_takeWhile [of "\<lambda>i. \<not> P i" "[0..<n]"] less by (simp add: z_def)
  show "j < length (takeWhile (\<lambda>i. \<not> P i) [0..<n]) \<Longrightarrow> \<not> P j" using pre by (simp add: z_def)
qed

lemma trailing_zeros_spec:
  assumes "trailing_zeros x = Done z"
  shows "z < 64" "bit x z" "j < z \<Longrightarrow> \<not> bit x j"
proof -
  have x: "x \<noteq> 0" "length (takeWhile (\<lambda>i. \<not> bit x i) [0..<64]) = z"
    using assms by (simp_all add: trailing_zeros_def split: if_splits)
  obtain i where i: "bit x i" using x(1) by (auto simp: bit_eq_iff)
  have "i < 64" using bit_imp_le_length [OF i] by simp
  note l = length_takeWhile_upt [of i 64 "bit x", OF this i, unfolded x(2)]
  show "z < 64" "bit x z" "j < z \<Longrightarrow> \<not> bit x j" by (fact l)+
qed

text \<open>\<open>ones\<close> is computed with \<open>~mask\<close>, but the guard before it tests \<open>mask\<close>.\<close>

definition count_ones :: "u64 \<Rightarrow> nat outcome" where
  "count_ones msk = (if msk = 0 then Done 64 else trailing_zeros (NOT msk))"

definition range_text :: "bool \<Rightarrow> nat \<Rightarrow> nat \<Rightarrow> string" where
  "range_text first shift ones =
     (if first then '''' else '','') @
     (if ones = 1 then print_int (int shift) else print_int (int shift) @ ''-'' @ print_int (int shift + int ones - 1))"

function encode_loop :: "u64 \<Rightarrow> nat \<Rightarrow> bool \<Rightarrow> string list \<Rightarrow> string list outcome" where
  "encode_loop msk shift first chunks =
     (if msk = 0 then Done chunks
      else and_then (trailing_zeros msk) (\<lambda>zeros.
        let msk = drop_bit zeros msk; shift = shift + zeros
        in and_then (count_ones msk) (\<lambda>ones.
             let chunks = chunks @ [range_text first shift ones]
             in if ones = 64 then Done chunks
                else encode_loop (drop_bit ones msk) (shift + ones) False chunks)))"
  by pat_completeness auto
termination
proof (relation "measure (\<lambda>(msk, _). unat msk)", goal_cases)
  case (2 msk shift first chunks zeros m sh ones ch)
  have "bit msk zeros" using trailing_zeros_spec(2) [OF 2(2)] .
  then have b: "bit m 0" by (simp add: 2(3) bit_drop_bit_eq)
  then have m0: "m \<noteq> 0" by auto
  have "trailing_zeros (NOT m) = Done ones" using 2(5) m0 by (simp add: count_ones_def)
  then have "bit (NOT m) ones" by (rule trailing_zeros_spec(2))
  then have "ones \<noteq> 0" using b by (cases ones) (auto simp: bit_not_iff)
  then have "unat (drop_bit ones m) < unat m"
    using m0 div_less_dividend [of "2 ^ ones" "unat m"] one_less_power [of "2 :: nat" ones] by (simp add: unat_drop_bit unat_gt_0)
  moreover have "unat m \<le> unat msk" by (simp add: 2(3) unat_drop_bit)
  ultimately show ?case by simp
qed simp

declare encode_loop.simps [simp del]

definition proto_entry_encode_into :: "string list \<Rightarrow> proto_entry_t \<Rightarrow> string list outcome" where
  "proto_entry_encode_into chunks entry = encode_loop (bitmask entry) 0 True (chunks @ [p_name entry @ ''=''])"

fun encode_entries :: "proto_entry_t list \<Rightarrow> string \<Rightarrow> string list \<Rightarrow> string list outcome" where
  "encode_entries [] separator chunks = Done chunks"
| "encode_entries (ent # sl) separator chunks =
     and_then (proto_entry_encode_into (chunks @ [separator]) ent) (encode_entries sl '' '')"

definition encode_protocol_list :: "proto_entry_t list \<Rightarrow> string outcome" where
  "encode_protocol_list sl =
     and_then (encode_entries sl '''' []) (\<lambda>chunks. Done (fst (smartlist_join_strings chunks '''' False)))"

subsection \<open>Voting\<close>

definition add_names :: "proto_entry_t list \<Rightarrow> string list \<Rightarrow> string list" where
  "add_names entries proto_names =
     foldl (\<lambda>names ent. if smartlist_contains_string (Some names) (p_name ent) then names else names @ [p_name ent]) proto_names entries"

fun collect_votes :: "string list \<Rightarrow> string list \<Rightarrow> proto_entry_t list list \<Rightarrow> string list \<times> proto_entry_t list list" where
  "collect_votes [] proto_names parsed = (proto_names, parsed)"
| "collect_votes (vote # votes) proto_names parsed =
     (case parse_protocol_list vote of
        Done unexpanded \<Rightarrow> collect_votes votes (add_names unexpanded proto_names) (parsed @ [unexpanded])
      | _ \<Rightarrow> collect_votes votes proto_names parsed)"

definition count_bits :: "u64 \<Rightarrow> u8 list \<Rightarrow> u8 list" where
  "count_bits bm counts = map (\<lambda>i. if bm AND BIT i \<noteq> 0 then counts ! i + 1 else counts ! i) [0..<64]"

fun count_votes :: "string \<Rightarrow> proto_entry_t list list \<Rightarrow> u8 list \<Rightarrow> u8 list" where
  "count_votes name [] counts = counts"
| "count_votes name (vote # parsed) counts =
     count_votes name parsed
       (case find_entry_by_name vote name of None \<Rightarrow> counts | Some ent \<Rightarrow> count_bits (bitmask ent) counts)"

definition winning_bits :: "u8 list \<Rightarrow> int \<Rightarrow> u64" where
  "winning_bits counts threshold =
     foldl (\<lambda>m i. if uint (counts ! i) \<ge> threshold then m OR BIT i else m) 0 [0..<64]"

fun elect :: "string list \<Rightarrow> proto_entry_t list list \<Rightarrow> int \<Rightarrow> proto_entry_t list \<Rightarrow> proto_entry_t list" where
  "elect [] parsed threshold result = result"
| "elect (name # names) parsed threshold result =
     (let result_bitmask = winning_bits (count_votes name parsed (replicate 64 0)) threshold
      in elect names parsed threshold
           (if result_bitmask \<noteq> 0 then result @ [\<lparr>p_name = name, bitmask = result_bitmask\<rparr>] else result))"

definition protover_compute_vote :: "string qsort \<Rightarrow> string list \<Rightarrow> int \<Rightarrow> string outcome" where
  "protover_compute_vote qsort list_of_proto_strings threshold =
     (if \<not> length list_of_proto_strings < 256 then Assertion_failed
      else if length list_of_proto_strings = 0 then Done ''''
      else let (proto_names, parsed) = collect_votes list_of_proto_strings [] [];
               proto_names = smartlist_sort_strings qsort proto_names
           in encode_protocol_list (elect proto_names parsed threshold []))"

subsection \<open>Support by this program\<close>

fun missing_entries :: "proto_entry_t list option \<Rightarrow> proto_entry_t list \<Rightarrow> proto_entry_t list \<Rightarrow> proto_entry_t list" where
  "missing_entries supported [] missing = missing"
| "missing_entries supported (ent # entries) missing =
     missing_entries supported entries
       (case (case supported of None \<Rightarrow> None | Some protos \<Rightarrow> find_entry_by_name protos (p_name ent)) of
          None \<Rightarrow> if bitmask ent \<noteq> 0 then missing @ [\<lparr>p_name = p_name ent, bitmask = bitmask ent\<rparr>] else missing
        | Some mine \<Rightarrow>
            (let missing_mask = bitmask ent AND NOT (bitmask mine)
             in if missing_mask \<noteq> 0 then missing @ [\<lparr>p_name = p_name ent, bitmask = missing_mask\<rparr>] else missing))"

text \<open>The value, and what is stored in \<open>*missing_out\<close>, which is provided if \<open>want_missing\<close>.\<close>

definition protover_all_supported :: "bool \<Rightarrow> string option \<Rightarrow> bool \<Rightarrow> (bool \<times> string option) outcome" where
  "protover_all_supported tls s want_missing =
     (case s of
        None \<Rightarrow> Done (True, None)
      | Some s \<Rightarrow>
          (case parse_protocol_list s of
             Done entries \<Rightarrow>
               (let missing = missing_entries (get_supported_protocol_list tls) entries [];
                    all_supported = (length missing = 0)
                in if \<not> all_supported \<and> want_missing
                   then and_then (encode_protocol_list missing) (\<lambda>t. Done (all_supported, Some t))
                   else Done (all_supported, None))
           | _ \<Rightarrow> Done (True, None)))"

subsection \<open>Old versions\<close>

definition FIRST_TOR_VERSION_TO_ADVERTISE_PROTOCOLS :: string where
  "FIRST_TOR_VERSION_TO_ADVERTISE_PROTOCOLS = ''0.2.9.3-alpha''"

definition protover_compute_for_old_tor :: "string option \<Rightarrow> string" where
  "protover_compute_for_old_tor version =
     (let version = (case version of None \<Rightarrow> ''0.2.5.15'' | Some v \<Rightarrow> v)
      in if tor_version_as_new_as version FIRST_TOR_VERSION_TO_ADVERTISE_PROTOCOLS then ''''
         else if tor_version_as_new_as version ''0.2.9.1-alpha''
         then ''Cons=1-2 Desc=1-2 DirCache=1 HSDir=1 HSIntro=3 HSRend=1-2 '' @ ''Link=1-4 LinkAuth=1 '' @
              ''Microdesc=1-2 Relay=1-2''
         else if tor_version_as_new_as version ''0.2.7.5''
         then ''Cons=1-2 Desc=1-2 DirCache=1 HSDir=1 HSIntro=3 HSRend=1 '' @ ''Link=1-4 LinkAuth=1 '' @
              ''Microdesc=1-2 Relay=1-2''
         else if tor_version_as_new_as version ''0.2.4.19''
         then ''Cons=1 Desc=1 DirCache=1 HSDir=1 HSIntro=3 HSRend=1 '' @ ''Link=1-4 LinkAuth=1 '' @
              ''Microdesc=1 Relay=1-2''
         else '''')"

subsection \<open>Summaries\<close>

record protover_summary_flags_t =
  protocols_known :: bool
  supports_extend2_cells :: bool
  supports_accepting_ipv6_extends :: bool
  supports_initiating_ipv6_extends :: bool
  supports_canonical_ipv6_conns :: bool
  supports_ed25519_link_handshake_compat :: bool
  supports_ed25519_link_handshake_any :: bool
  supports_ed25519_hs_intro :: bool
  supports_establish_intro_dos_extension :: bool
  supports_v3_hsdir :: bool
  supports_v3_rendezvous_point :: bool
  supports_hs_setup_padding :: bool
  supports_congestion_control :: bool
  supports_conflux :: bool

definition flags_zero :: protover_summary_flags_t where
  "flags_zero =
     \<lparr>protocols_known = False, supports_extend2_cells = False, supports_accepting_ipv6_extends = False,
      supports_initiating_ipv6_extends = False, supports_canonical_ipv6_conns = False,
      supports_ed25519_link_handshake_compat = False, supports_ed25519_link_handshake_any = False,
      supports_ed25519_hs_intro = False, supports_establish_intro_dos_extension = False, supports_v3_hsdir = False,
      supports_v3_rendezvous_point = False, supports_hs_setup_padding = False, supports_congestion_control = False,
      supports_conflux = False\<rparr>"

definition compute_summary :: "string \<Rightarrow> protover_summary_flags_t outcome" where
  "compute_summary protocols =
     (let supports = protocol_list_supports_protocol protocols
      in and_then (protocol_list_supports_protocol_or_later protocols PRT_LINKAUTH 3) (\<lambda>any.
         Done \<lparr>protocols_known = True,
               supports_extend2_cells = supports PRT_RELAY 2,
               supports_accepting_ipv6_extends = (supports PRT_RELAY 2 \<or> supports PRT_RELAY 3),
               supports_initiating_ipv6_extends = supports PRT_RELAY 3,
               supports_canonical_ipv6_conns = supports PRT_RELAY 3,
               supports_ed25519_link_handshake_compat = supports PRT_LINKAUTH 3,
               supports_ed25519_link_handshake_any = any,
               supports_ed25519_hs_intro = supports PRT_HSINTRO 4,
               supports_establish_intro_dos_extension = supports PRT_HSINTRO 5,
               supports_v3_hsdir = supports PRT_HSDIR 2,
               supports_v3_rendezvous_point = supports PRT_HSREND 2,
               supports_hs_setup_padding = supports PRT_PADDING 2,
               supports_congestion_control = (supports PRT_FLOWCTRL 2 \<and> supports PRT_RELAY 4),
               supports_conflux = (supports PRT_FLOWCTRL 2 \<and> supports PRT_CONFLUX 1)\<rparr>))"

text \<open>The static map of summaries: an association list.\<close>

type_synonym summary_map = "(string \<times> protover_summary_flags_t) list"

definition MAX_PROTOVER_SUMMARY_MAP_LEN :: nat where "MAX_PROTOVER_SUMMARY_MAP_LEN = 1024"

definition memoize_protover_summary :: "string \<Rightarrow> summary_map \<Rightarrow> (protover_summary_flags_t \<times> summary_map) outcome" where
  "memoize_protover_summary protocols m =
     (let m = (if length m \<ge> MAX_PROTOVER_SUMMARY_MAP_LEN then [] else m)
      in case map_of m protocols of
           Some cached \<Rightarrow> if \<not> protocols_known cached then Assertion_failed else Done (cached, m)
         | None \<Rightarrow> and_then (compute_summary protocols) (\<lambda>out. Done (out, (protocols, out) # m)))"

definition summarize_protover_flags ::
    "string option \<Rightarrow> string option \<Rightarrow> summary_map \<Rightarrow> (protover_summary_flags_t \<times> summary_map) outcome" where
  "summarize_protover_flags protocols version m =
     and_then (case protocols of
                 Some p \<Rightarrow> if strcmp p '''' \<noteq> 0 then memoize_protover_summary p m else Done (flags_zero, m)
               | None \<Rightarrow> Done (flags_zero, m)) (\<lambda>(out, m).
       case version of
         None \<Rightarrow> Done (out, m)
       | Some v \<Rightarrow>
           if strcmp v '''' \<noteq> 0 \<and> strcmpstart v ''Tor '' = 0
           then if \<not> protocols_known out
                then Done (out\<lparr>supports_extend2_cells := tor_version_as_new_as v ''0.2.4.8-alpha'', protocols_known := True\<rparr>, m)
                else if \<not> tor_version_as_new_as v ''0.3.0.8'' then Done (out\<lparr>supports_v3_hsdir := False\<rparr>, m)
                else Done (out, m)
           else Done (out, m))"

section \<open>Ranges\<close>

lemma bit_BIT: "i < 64 \<Longrightarrow> bm AND BIT i \<noteq> 0 \<longleftrightarrow> bit bm i"
  by (simp add: BIT_def and_exp_eq_0_iff_not_bit)

lemma range_mask:
  assumes "low \<le> high" "high \<le> 63"
  shows "\<exists>m. bitmask_for_range low high = Done m \<and> (\<forall>i. bit m i \<longleftrightarrow> low \<le> i \<and> i \<le> high)"
proof -
  let ?m = "push_bit low (drop_bit (63 - high + low) (push_bit (63 - high) (NOT (0 :: u64))))"
  have "bit ?m i \<longleftrightarrow> low \<le> i \<and> i \<le> high" for i
    using assms by (auto simp: bit_push_bit_iff bit_drop_bit_eq bit_not_iff bit_mask_iff dest: bit_imp_le_length)
  then show ?thesis using assms by (auto simp: bitmask_for_range_def Let_def)
qed

text \<open>The text of a range of versions, and of a list of them.\<close>

definition iv_text :: "nat \<Rightarrow> nat \<Rightarrow> string" where
  "iv_text low high = (if low = high then dec_digits low else dec_digits low @ ''-'' @ dec_digits high)"

fun ranges_text :: "bool \<Rightarrow> (nat \<times> nat) list \<Rightarrow> string list" where
  "ranges_text first [] = []"
| "ranges_text first ((low, high) # ivs) = ((if first then '''' else '','') @ iv_text low high) # ranges_text False ivs"

definition ivs_ok :: "(nat \<times> nat) list \<Rightarrow> bool" where
  "ivs_ok ivs \<longleftrightarrow> (\<forall>(low, high) \<in> set ivs. low \<le> high \<and> high \<le> 63)"

definition in_ranges :: "(nat \<times> nat) list \<Rightarrow> nat \<Rightarrow> bool" where
  "in_ranges ivs i \<longleftrightarrow> (\<exists>(low, high) \<in> set ivs. low \<le> i \<and> i \<le> high)"

lemma digit_at_dec: "digit_at (dec_digits n @ rest)"
proof -
  obtain d ds where d: "(d :: nat) < 10" "dec_digits n = char_of (48 + d) # ds" by (rule dec_digits_head)
  then have "(of_char (char_of (48 + d)) :: nat) = 48 + d" by (simp add: take_bit_eq_mod)
  then show ?thesis using d by (simp add: digit_at_def TOR_ISDIGIT_iff)
qed

lemma parse_version_dec:
  assumes "n \<le> 63" "no_digit_first rest"
  shows "parse_version (dec_digits n @ rest) = Done (n, rest)"
proof -
  have u: "unat (of_nat n :: u64) = n" using assms(1) by (simp add: unat_of_nat take_bit_nat_eq_self)
  have st: "strtoull (dec_digits n @ rest) 10 = \<lparr>strtox_r = of_nat n, endptr = Some rest, erange = False\<rparr>"
    using assms(1) by (simp add: strtoull_def strto_scan_unsigned [OF assms(2)])
  have "\<not> (63 :: u64) < of_nat n" using assms(1) u by (simp add: word_less_nat_alt)
  then have "tor_parse_ulong (dec_digits n @ rest) 10 0 (of_nat MAX_PROTOCOL_VERSION) True = Some (of_nat n, True, Some rest)"
    by (simp add: tor_parse_ulong_def base_defined_def st CHECK_STRTOX_RESULT_def Let_def MAX_PROTOCOL_VERSION_def)
  then show ?thesis using u by (simp add: parse_version_def digit_at_dec)
qed

lemma not_digit_simps: "\<not> is_digit_of 10 (CHR '','')" "\<not> is_digit_of 10 (CHR ''='')"
  by (simp_all add: is_digit_of_def digit_val_def)

lemma parse_range_text:
  assumes "low \<le> high" "high \<le> 63" "no_digit_first rest"
  shows "parse_version_range (iv_text low high @ rest) (length (iv_text low high)) = Done (low, high)"
proof (cases "low = high")
  case True
  then show ?thesis using assms by (simp add: parse_version_range_def iv_text_def parse_version_dec)
next
  case False
  have "parse_version (dec_digits low @ ''-'' @ dec_digits high @ rest) = Done (low, ''-'' @ dec_digits high @ rest)"
    by (rule parse_version_dec) (use assms in \<open>simp_all add: no_digit_simps not_digits no_digit_first_def\<close>)
  moreover have "parse_version (dec_digits high @ rest) = Done (high, rest)" by (rule parse_version_dec [OF assms(2,3)])
  ultimately show ?thesis using False assms(1) by (simp add: parse_version_range_def iv_text_def)
qed

lemma iv_text_chars: "c \<in> set (iv_text low high) \<Longrightarrow> c = CHR ''-'' \<or> is_digit_of 10 c"
  by (auto simp: iv_text_def dec_digits_10 split: if_splits)

lemma iv_text_not_Nil [simp]: "iv_text low high \<noteq> []"
  by (simp add: iv_text_def)

lemma memchr_none: "c \<notin> set xs \<Longrightarrow> memchr xs c = None"
  by (induction xs) auto

lemma iv_text_no_comma: "CHR '','' \<notin> set (iv_text low high)" "CHR '' '' \<notin> set (iv_text low high)"
  using iv_text_chars [of _ low high] not_digit_simps not_digits by fastforce+

lemma ranges_text_no_space: "CHR '' '' \<notin> set (concat (ranges_text first ivs))"
  by (induction first ivs rule: ranges_text.induct) (auto simp: iv_text_no_comma)

lemma ranges_loop_text:
  assumes "ivs_ok ivs" "no_digit_first rest"
  shows "\<exists>m. ranges_loop (concat (ranges_text True ivs) @ rest) (length (concat (ranges_text True ivs))) m0 = Done m \<and>
    (\<forall>i. bit m i \<longleftrightarrow> bit m0 i \<or> in_ranges ivs i)"
  using assms(1)
proof (induction ivs arbitrary: m0)
  case Nil
  then show ?case by (simp add: ranges_loop.simps [of rest] in_ranges_def)
next
  case (Cons iv ivs)
  obtain low high where iv: "iv = (low, high)" by (cases iv)
  have lh: "low \<le> high" "high \<le> 63" and ok: "ivs_ok ivs" using Cons.prems by (auto simp: ivs_ok_def iv)
  obtain r where r: "bitmask_for_range low high = Done r" "\<forall>i. bit r i \<longleftrightarrow> low \<le> i \<and> i \<le> high" using range_mask [OF lh] by blast
  have in_Cons: "in_ranges (iv # ivs) i \<longleftrightarrow> low \<le> i \<and> i \<le> high \<or> in_ranges ivs i" for i by (auto simp: in_ranges_def iv)
  let ?t = "iv_text low high" and ?more = "concat (ranges_text False ivs)"
  show ?case
  proof (cases ivs)
    case Nil
    have "memchr (take (length ?t) (?t @ rest)) (CHR '','') = None" by (simp add: memchr_none iv_text_no_comma)
    then have "ranges_loop (?t @ rest) (length ?t) m0 = Done (m0 OR r)"
      using parse_range_text [OF lh assms(2)] r(1)
      by (subst ranges_loop.simps) (simp add: ranges_loop.simps [of _ 0])
    then show ?thesis using Nil r(2) unfolding in_Cons by (auto simp: iv bit_or_iff in_ranges_def)
  next
    case (Cons iv' ivs')
    obtain l' h' where iv': "iv' = (l', h')" by (cases iv')
    define u where "u = concat (ranges_text True ivs)"
    have u: "?more = CHR '','' # u" "u \<noteq> []" by (simp_all add: u_def Cons iv')
    have e: "concat (ranges_text True (iv # ivs)) = ?t @ CHR '','' # u" using u(1) by (simp add: iv)
    have "memchr (?t @ CHR '','' # u) (CHR '','') = Some (length ?t)" by (rule memchr_append) (rule iv_text_no_comma)
    then have mc: "memchr (take (length (?t @ CHR '','' # u)) ((?t @ CHR '','' # u) @ rest)) (CHR '','') = Some (length ?t)" by simp
    have pr: "parse_version_range ((?t @ CHR '','' # u) @ rest) (length ?t) = Done (low, high)"
      using parse_range_text [OF lh, of "CHR '','' # u @ rest"] by (simp add: no_digit_first_def not_digit_simps)
    have "ranges_loop ((?t @ CHR '','' # u) @ rest) (length (?t @ CHR '','' # u)) m0 = ranges_loop (u @ rest) (length u) (m0 OR r)"
      using u(2) pr r(1) by (subst ranges_loop.simps) (simp add: mc [simplified] Let_def)
    moreover obtain m where m: "ranges_loop (u @ rest) (length u) (m0 OR r) = Done m" "\<forall>i. bit m i \<longleftrightarrow> bit (m0 OR r) i \<or> in_ranges ivs i"
      using Cons.IH [OF ok, of "m0 OR r"] unfolding u_def by blast
    ultimately show ?thesis unfolding e in_Cons using r(2) by (auto simp: bit_or_iff)
  qed
qed

section \<open>Encoding and parsing back\<close>

lemma trailing_zeros_ex: "x \<noteq> 0 \<Longrightarrow> \<exists>z. trailing_zeros x = Done z"
  by (simp add: trailing_zeros_def)

lemma range_text_iv: "0 < ones \<Longrightarrow> range_text first shift ones = (if first then '''' else '','') @ iv_text shift (shift + ones - 1)"
  by (cases "ones = 1") (auto simp: range_text_def iv_text_def print_int_def nat_add_distrib nat_diff_distrib)

lemma full_mask: "m = - 1 \<longleftrightarrow> (\<forall>i < 64. bit (m :: u64) i)"
  by (auto simp: bit_eq_iff bit_minus_1_iff possible_bit_word)

lemma encode_loop_ranges:
  assumes "\<forall>i. bit msk i \<longrightarrow> shift + i \<le> 63" "msk \<noteq> - 1"
  shows "\<exists>ivs. encode_loop msk shift first chunks = Done (chunks @ ranges_text first ivs) \<and> ivs_ok ivs \<and>
    (\<forall>i. in_ranges ivs i \<longleftrightarrow> shift \<le> i \<and> bit msk (i - shift))"
  using assms
proof (induction msk shift first chunks rule: encode_loop.induct)
  case (1 msk shift first chunks)
  show ?case
  proof (cases "msk = 0")
    case True
    then show ?thesis by (intro exI [of _ "[]"]) (simp add: encode_loop.simps [of 0] ivs_ok_def in_ranges_def)
  next
    case False
    then obtain z where z: "trailing_zeros msk = Done z" using trailing_zeros_ex by blast
    note zs = trailing_zeros_spec [OF z]
    define m where "m = drop_bit z msk"
    have bm: "bit m i = bit msk (z + i)" for i by (simp add: m_def bit_drop_bit_eq)
    have m0: "m \<noteq> 0" using zs(2) bm [of 0] by auto
    have "m \<noteq> - 1"
    proof (cases "z = 0")
      case True
      then show ?thesis using "1.prems"(2) by (simp add: m_def)
    next
      case False
      then have "\<not> bit m 63" using bit_imp_le_length [of msk "z + 63"] by (auto simp: bm)
      then show ?thesis by (metis full_mask less_numeral_extra(1) numeral_less_iff semiring_norm(76,78,79,80,81))
    qed
    then have "NOT m \<noteq> 0" by (metis bit.compl_zero bit.double_compl)
    then obtain p where p: "trailing_zeros (NOT m) = Done p" using trailing_zeros_ex by blast
    note ps = trailing_zeros_spec [OF p]
    have co: "count_ones m = Done p" using m0 p by (simp add: count_ones_def)
    have np: "\<not> bit m p" using ps(2) by (simp add: bit_not_iff)
    have bp: "bit m j" if "j < p" for j using ps(3) [OF that] that ps(1) by (simp add: bit_not_iff)
    have p0: "p \<noteq> 0" using np zs(2) bm [of 0] by (cases p) auto
    define m2 where "m2 = drop_bit p m"
    have bm2: "bit m2 i = bit msk (z + p + i)" for i by (simp add: m2_def bit_drop_bit_eq bm add.assoc)
    have n2: "m2 \<noteq> - 1"
    proof -
      have "\<not> bit m2 63" using p0 bit_imp_le_length [of msk "z + p + 63"] by (auto simp: bm2)
      then show ?thesis using full_mask [of m2] by auto
    qed
    have s2: "\<forall>i. bit m2 i \<longrightarrow> shift + z + p + i \<le> 63" using "1.prems"(1) by (auto simp: bm2 add.assoc)
    have "\<exists>ivs. encode_loop m2 (shift + z + p) False (chunks @ [range_text first (shift + z) p]) =
        Done ((chunks @ [range_text first (shift + z) p]) @ ranges_text False ivs) \<and> ivs_ok ivs \<and>
        (\<forall>i. in_ranges ivs i \<longleftrightarrow> shift + z + p \<le> i \<and> bit m2 (i - (shift + z + p)))"
      using "1.IH" [OF False z m_def refl co refl _ s2 [unfolded m2_def], folded m2_def] ps(1) n2 unfolding m2_def by simp
    then obtain ivs where ivs: "encode_loop m2 (shift + z + p) False (chunks @ [range_text first (shift + z) p]) =
        Done ((chunks @ [range_text first (shift + z) p]) @ ranges_text False ivs)" "ivs_ok ivs"
        "\<forall>i. in_ranges ivs i \<longleftrightarrow> shift + z + p \<le> i \<and> bit m2 (i - (shift + z + p))" by blast
    let ?iv = "(shift + z, shift + z + p - 1)"
    have "encode_loop msk shift first chunks = Done (chunks @ ranges_text first (?iv # ivs))"
      using ivs(1) False z co ps(1) p0
      by (subst encode_loop.simps) (simp add: Let_def range_text_iv flip: m_def m2_def)
    moreover have "ivs_ok (?iv # ivs)"
    proof -
      have "bit m (p - 1)" using bp [of "p - 1"] p0 by simp
      then have "shift + (z + (p - 1)) \<le> 63" using "1.prems"(1) by (simp add: bm)
      then show ?thesis using ivs(2) p0 by (auto simp: ivs_ok_def)
    qed
    moreover have "in_ranges (?iv # ivs) i \<longleftrightarrow> shift \<le> i \<and> bit msk (i - shift)" for i
    proof -
      have e: "in_ranges (?iv # ivs) i \<longleftrightarrow> shift + z \<le> i \<and> i < shift + z + p \<or> in_ranges ivs i"
        using p0 by (auto simp: in_ranges_def)
      consider "i < shift + z" | "shift + z \<le> i" "i < shift + z + p" | "shift + z + p \<le> i" by linarith
      then show ?thesis
      proof cases
        case 1
        then show ?thesis using zs(3) [of "i - shift"] ivs(3) unfolding e by auto
      next
        case 2
        then have "bit m (i - shift - z)" by (intro bp) linarith
        then show ?thesis using 2 unfolding e by (simp add: bm)
      next
        case 3
        then have "z + p + (i - (shift + z + p)) = i - shift" by linarith
        then show ?thesis using 3 ivs(3) unfolding e by (simp add: bm2)
      qed
    qed
    ultimately show ?thesis by blast
  qed
qed

text \<open>Entries with a name the parser accepts, and a mask that is not full.\<close>

definition name_ok :: "string \<Rightarrow> bool" where
  "name_ok name \<longleftrightarrow> name \<noteq> [] \<and> length name \<le> MAX_PROTOCOL_NAME_LENGTH \<and> is_valid_keyword name"

definition entry_ok :: "proto_entry_t \<Rightarrow> bool" where
  "entry_ok ent \<longleftrightarrow> name_ok (p_name ent) \<and> bitmask ent \<noteq> - 1"

lemma name_chars:
  assumes "name_ok name"
  shows "CHR ''='' \<notin> set name" "CHR '' '' \<notin> set name" "NUL \<notin> set name"
  using assms by (auto simp: name_ok_def is_valid_keyword_def list_all_iff TOR_ISALNUM_iff TOR_ISALPHA_iff TOR_ISUPPER_iff TOR_ISLOWER_iff TOR_ISDIGIT_iff)

definition entry_text :: "proto_entry_t \<Rightarrow> string \<Rightarrow> bool" where
  "entry_text ent t \<longleftrightarrow> (\<exists>ivs. t = p_name ent @ ''='' @ concat (ranges_text True ivs) \<and> ivs_ok ivs \<and> (\<forall>i. bit (bitmask ent) i \<longleftrightarrow> in_ranges ivs i))"

lemma encode_entry:
  assumes "entry_ok ent"
  shows "\<exists>cs. proto_entry_encode_into chunks ent = Done (chunks @ cs) \<and> entry_text ent (concat cs)"
proof -
  have "\<forall>i. bit (bitmask ent) i \<longrightarrow> 0 + i \<le> 63" using bit_imp_le_length [of "bitmask ent"] by fastforce
  from encode_loop_ranges [OF this, of True "chunks @ [p_name ent @ ''='']"] assms
  obtain ivs where "encode_loop (bitmask ent) 0 True (chunks @ [p_name ent @ ''='']) = Done ((chunks @ [p_name ent @ ''='']) @ ranges_text True ivs)"
    "ivs_ok ivs" "\<forall>i. in_ranges ivs i \<longleftrightarrow> bit (bitmask ent) i" by (auto simp: entry_ok_def)
  then show ?thesis
    unfolding proto_entry_encode_into_def entry_text_def
    by (intro exI [of _ "(p_name ent @ ''='') # ranges_text True ivs"]) auto
qed

lemma entry_text_no_space: "name_ok (p_name ent) \<Longrightarrow> entry_text ent t \<Longrightarrow> CHR '' '' \<notin> set t"
  using name_chars(2) [of "p_name ent"] by (auto simp: entry_text_def) (use ranges_text_no_space in fastforce)

lemma parse_entry_text:
  assumes "name_ok (p_name ent)" "entry_text ent t" "no_digit_first rest"
  shows "parse_single_entry (t @ rest) (length t) = Done ent"
proof -
  obtain ivs where ivs: "t = p_name ent @ ''='' @ concat (ranges_text True ivs)" "ivs_ok ivs" "\<forall>i. bit (bitmask ent) i \<longleftrightarrow> in_ranges ivs i"
    using assms(2) by (auto simp: entry_text_def)
  obtain m where m: "ranges_loop (concat (ranges_text True ivs) @ rest) (length (concat (ranges_text True ivs))) 0 = Done m"
      "\<forall>i. bit m i \<longleftrightarrow> bit (0 :: u64) i \<or> in_ranges ivs i"
    using ranges_loop_text [OF ivs(2) assms(3)] by blast
  have "m = bitmask ent" using m(2) ivs(3) by (simp add: bit_eq_iff)
  moreover have "memchr (p_name ent @ CHR ''='' # concat (ranges_text True ivs)) (CHR ''='') = Some (length (p_name ent))"
    by (rule memchr_append) (rule name_chars(1) [OF assms(1)])
  ultimately show ?thesis
    using m(1) assms(1) unfolding ivs(1) parse_single_entry_def
    by (simp add: name_ok_def not_le [symmetric])
qed

text \<open>The texts of a list of entries, separated by spaces.\<close>

fun list_text :: "proto_entry_t list \<Rightarrow> string \<Rightarrow> bool" where
  "list_text [] t \<longleftrightarrow> t = []"
| "list_text [ent] t \<longleftrightarrow> entry_text ent t"
| "list_text (ent # ents) t \<longleftrightarrow> (\<exists>t1 t2. t = t1 @ CHR '' '' # t2 \<and> entry_text ent t1 \<and> list_text ents t2)"

lemma encode_entries_spaced:
  "list_all entry_ok ents \<Longrightarrow> \<exists>cs t. encode_entries ents '' '' chunks = Done (chunks @ cs) \<and> concat cs = (if ents = [] then [] else CHR '' '' # t) \<and> list_text ents t \<or>
     ents = []"
proof (induction ents arbitrary: chunks)
  case (Cons ent ents)
  obtain cs where cs: "proto_entry_encode_into (chunks @ ['' '']) ent = Done ((chunks @ ['' '']) @ cs)" "entry_text ent (concat cs)"
    using encode_entry [of ent "chunks @ ['' '']"] Cons.prems by auto
  show ?case
  proof (cases ents)
    case Nil
    then show ?thesis
      using cs by (intro exI [of _ "'' '' # cs"] exI [of _ "concat cs"]) simp
  next
    case (Cons ent' ents')
    obtain cs2 t where t: "encode_entries ents '' '' (chunks @ '' '' # cs) = Done ((chunks @ '' '' # cs) @ cs2)" "concat cs2 = CHR '' '' # t" "list_text ents t"
      using Cons.IH [of "chunks @ '' '' # cs"] Cons.prems Cons by auto
    then show ?thesis
      using cs Cons by (intro exI [of _ "'' '' # cs @ cs2"] exI [of _ "concat cs @ CHR '' '' # t"]) auto
  qed
qed simp

lemma encode_list_text:
  assumes "list_all entry_ok ents"
  shows "\<exists>t. encode_protocol_list ents = Done t \<and> list_text ents t"
proof -
  have j: "fst (smartlist_join_strings chunks '''' False) = concat chunks" for chunks
  proof -
    have "join_with '''' chunks = concat chunks" by (induction chunks rule: induct_list012) auto
    then show ?thesis by (simp add: smartlist_join_strings_def smartlist_join_strings2_def join_loop_eq Let_def)
  qed
  show ?thesis
  proof (cases ents)
    case Nil
    then show ?thesis by (simp add: encode_protocol_list_def j)
  next
    case (Cons ent es)
    obtain cs where cs: "proto_entry_encode_into ([] @ ['''']) ent = Done (([] @ ['''']) @ cs)" "entry_text ent (concat cs)"
      using encode_entry [of ent "[] @ ['''']"] assms Cons by auto
    show ?thesis
    proof (cases es)
      case Nil
      then show ?thesis using cs Cons by (simp add: encode_protocol_list_def j)
    next
      case (Cons e' es')
      obtain cs2 t where t: "encode_entries es '' '' ('''' # cs) = Done (('''' # cs) @ cs2)" "concat cs2 = CHR '' '' # t" "list_text es t"
        using encode_entries_spaced [of es "'''' # cs"] assms \<open>ents = ent # es\<close> Cons by auto
      then show ?thesis
        using cs \<open>ents = ent # es\<close> Cons by (auto simp: encode_protocol_list_def j)
    qed
  qed
qed

lemma list_text_head: "list_text (ent # ents) t \<Longrightarrow> name_ok (p_name ent) \<Longrightarrow> \<exists>c s. t = c # s \<and> c \<noteq> CHR '' ''"
proof -
  assume a: "list_text (ent # ents) t" "name_ok (p_name ent)"
  obtain t1 s where t: "t = t1 @ s" "entry_text ent t1" using a(1) by (cases ents) auto
  obtain c n where n: "p_name ent = c # n" using a(2) by (cases "p_name ent") (auto simp: name_ok_def)
  then have "c \<noteq> CHR '' ''" using name_chars(2) [OF a(2)] by auto
  then show ?thesis using t n by (auto simp: entry_text_def)
qed

lemma parse_list_text:
  "list_text ents t \<Longrightarrow> list_all (\<lambda>e. name_ok (p_name e)) ents \<Longrightarrow> protocol_list_loop t es = Done (es @ ents)"
proof (induction ents t arbitrary: es rule: list_text.induct)
  case (1 t)
  then show ?case by (simp add: protocol_list_loop.simps)
next
  case (2 ent t)
  have n: "name_ok (p_name ent)" and t: "entry_text ent t" using 2 by simp_all
  have "memchr t (CHR '' '') = None" using memchr_none [OF entry_text_no_space [OF n t]] .
  moreover have "parse_single_entry t (length t) = Done ent" using parse_entry_text [OF n t, of "[]"] by (simp add: no_digit_simps)
  moreover have "t \<noteq> []" using t by (auto simp: entry_text_def)
  ultimately show ?case by (simp add: protocol_list_loop.simps [of t] protocol_list_loop.simps [of "[]"])
next
  case (3 ent ent' ents t)
  obtain t1 t2 where t: "t = t1 @ CHR '' '' # t2" "entry_text ent t1" "list_text (ent' # ents) t2" using "3.prems"(1) by auto
  have n: "name_ok (p_name ent)" "name_ok (p_name ent')" using "3.prems"(2) by simp_all
  have mc: "memchr t (CHR '' '') = Some (length t1)" unfolding t(1) by (rule memchr_append) (rule entry_text_no_space [OF n(1) t(2)])
  have pe: "parse_single_entry t (length t1) = Done ent" unfolding t(1) by (rule parse_entry_text [OF n(1) t(2)]) (simp add: no_digit_simps not_digits)
  obtain c s where c: "t2 = c # s" "c \<noteq> CHR '' ''" using list_text_head [OF t(3) n(2)] by blast
  have "dropWhile (\<lambda>c. c = CHR '' '') (drop (length t1) t) = t2" using c by (simp add: t(1))
  moreover have "protocol_list_loop t2 (es @ [ent]) = Done ((es @ [ent]) @ ent' # ents)" using "3.IH" t(1,3) "3.prems"(2) by auto
  moreover have "t \<noteq> []" by (simp add: t(1))
  ultimately show ?case using mc pe by (subst protocol_list_loop.simps) simp
qed

lemma encode_parse:
  assumes "list_all entry_ok ents"
  shows "\<exists>t. encode_protocol_list ents = Done t \<and> parse_protocol_list t = Done ents"
proof -
  obtain t where t: "encode_protocol_list ents = Done t" "list_text ents t" using encode_list_text [OF assms] by blast
  have "list_all (\<lambda>e. name_ok (p_name e)) ents" using assms by (auto simp: list_all_iff entry_ok_def)
  from parse_list_text [OF t(2) this, of "[]"] t(1) show ?thesis by (simp add: parse_protocol_list_def)
qed

lemma parse_names_ok:
  assumes "protocol_list_loop s es = Done ents" "list_all (\<lambda>e. name_ok (p_name e)) es"
  shows "list_all (\<lambda>e. name_ok (p_name e)) ents"
  using assms
proof (induction s es rule: protocol_list_loop.induct)
  case (1 s es)
  show ?case
  proof (cases "s = []")
    case False
    define e where "e = (case memchr s (CHR '' '') of Some k \<Rightarrow> k | None \<Rightarrow> length s)"
    obtain ent where ent: "parse_single_entry s e = Done ent" "protocol_list_loop (dropWhile (\<lambda>c. c = CHR '' '') (drop e s)) (es @ [ent]) = Done ents"
      using "1.prems"(1) False by (subst (asm) protocol_list_loop.simps) (auto simp: and_then_Done simp flip: e_def)
    obtain k where "memchr (take e s) (CHR ''='') = Some k" "k \<noteq> 0" "k \<le> MAX_PROTOCOL_NAME_LENGTH" "is_valid_keyword (take k s)" "p_name ent = take k s"
      using ent(1) by (auto simp: parse_single_entry_def and_then_Done split: option.splits if_splits)
    then have "name_ok (p_name ent)" using False by (auto simp: name_ok_def)
    then show ?thesis using "1.IH" [OF False e_def ent] "1.prems"(2) by simp
  qed (use "1.prems" in \<open>simp add: protocol_list_loop.simps\<close>)
qed

section \<open>Looking up and voting\<close>

definition entry_of :: "proto_entry_t list \<Rightarrow> string \<Rightarrow> proto_entry_t option" where
  "entry_of es name = List.find (\<lambda>e. p_name e = name) es"

text \<open>Whether a list of entries has version \<open>i\<close> of the protocol \<open>name\<close>: only the first entry of the name counts.\<close>

definition lists_version :: "proto_entry_t list \<Rightarrow> string \<Rightarrow> nat \<Rightarrow> bool" where
  "lists_version es name i \<longleftrightarrow> (case entry_of es name of Some e \<Rightarrow> bit (bitmask e) i | None \<Rightarrow> False)"

abbreviation names_ok :: "proto_entry_t list \<Rightarrow> bool" where
  "names_ok es \<equiv> list_all (\<lambda>e. name_ok (p_name e)) es"

lemma find_entry_eq: "NUL \<notin> set name \<Longrightarrow> names_ok es \<Longrightarrow> find_entry_by_name es name = entry_of es name"
  by (induction es) (auto simp: entry_of_def strcmp_0 name_chars(3))

lemma entry_of_Some: "entry_of es name = Some e \<Longrightarrow> e \<in> set es \<and> p_name e = name"
  by (auto simp: entry_of_def find_Some_iff)

lemma contains_string: "NUL \<notin> set s \<Longrightarrow> \<forall>x \<in> set names. NUL \<notin> set x \<Longrightarrow> smartlist_contains_string (Some names) s \<longleftrightarrow> s \<in> set names"
  by (auto simp: smartlist_contains_string_def strcmp_0 list_ex_iff)

lemma add_names_ok:
  assumes "names_ok es" "\<forall>x \<in> set names. NUL \<notin> set x" "distinct names"
  shows "set (add_names es names) = set names \<union> p_name ` set es \<and> distinct (add_names es names)"
  using assms
proof (induction es arbitrary: names)
  case Nil
  then show ?case by (simp add: add_names_def)
next
  case (Cons e es)
  have n: "NUL \<notin> set (p_name e)" using Cons.prems(1) name_chars(3) by simp
  let ?names = "if smartlist_contains_string (Some names) (p_name e) then names else names @ [p_name e]"
  have c: "smartlist_contains_string (Some names) (p_name e) \<longleftrightarrow> p_name e \<in> set names" by (rule contains_string [OF n Cons.prems(2)])
  have "set ?names = insert (p_name e) (set names)" "distinct ?names" using Cons.prems(3) c by auto
  moreover have "add_names (e # es) names = add_names es ?names" by (simp add: add_names_def)
  moreover have "\<forall>x \<in> set ?names. NUL \<notin> set x" using Cons.prems(2) n by auto
  ultimately show ?case using Cons.IH [of ?names] Cons.prems(1) by auto
qed

definition parsed_votes :: "string list \<Rightarrow> proto_entry_t list list" where
  "parsed_votes votes = List.map_filter (\<lambda>v. case parse_protocol_list v of Done es \<Rightarrow> Some es | _ \<Rightarrow> None) votes"

lemma parse_list_names: "parse_protocol_list s = Done es \<Longrightarrow> names_ok es"
  unfolding parse_protocol_list_def by (rule parse_names_ok [of s "[]"]) simp_all

lemma parsed_votes_names: "es \<in> set (parsed_votes votes) \<Longrightarrow> names_ok es"
  by (auto simp: parsed_votes_def map_filter_def split: outcome.splits intro: parse_list_names)

lemma collect_votes_ok:
  assumes "collect_votes votes names parsed = (names', parsed')" "\<forall>x \<in> set names. NUL \<notin> set x" "distinct names"
  shows "parsed' = parsed @ parsed_votes votes \<and> distinct names' \<and>
    set names' = set names \<union> (\<Union>es \<in> set (parsed_votes votes). p_name ` set es)"
  using assms
proof (induction votes names parsed rule: collect_votes.induct)
  case (1 names parsed)
  then show ?case by (simp add: parsed_votes_def map_filter_simps)
next
  case (2 vote votes names parsed)
  show ?case
  proof (cases "parse_protocol_list vote")
    case (Done es)
    have ok: "names_ok es" using parse_list_names [OF Done] .
    note a = add_names_ok [OF ok "2.prems"(2,3)]
    have "\<forall>x \<in> set (add_names es names). NUL \<notin> set x" using a "2.prems"(2) ok name_chars(3) by (auto simp: list_all_iff)
    from "2.IH"(3) [OF Done _ this] a "2.prems"(1) Done show ?thesis
      by (simp add: parsed_votes_def map_filter_simps) blast
  qed (use "2.IH"(1,2) "2.prems" in \<open>simp_all add: parsed_votes_def map_filter_simps\<close>)
qed

lemma count_bits_nth: "i < 64 \<Longrightarrow> count_bits bm counts ! i = counts ! i + (if bit bm i then 1 else 0)" "length (count_bits bm counts) = 64"
  by (simp_all add: count_bits_def bit_BIT)

lemma count_votes_nth:
  assumes "NUL \<notin> set name" "list_all names_ok parsed" "length counts = 64" "i < 64"
  shows "count_votes name parsed counts ! i = counts ! i + of_nat (length (filter (\<lambda>es. lists_version es name i) parsed))"
  using assms
proof (induction name parsed counts rule: count_votes.induct)
  case (2 name vote parsed counts)
  have f: "find_entry_by_name vote name = entry_of vote name" by (rule find_entry_eq) (use "2.prems" in simp_all)
  have l: "length (case entry_of vote name of None \<Rightarrow> counts | Some ent \<Rightarrow> count_bits (bitmask ent) counts) = 64"
    using "2.prems"(3) by (simp add: count_bits_nth split: option.splits)
  show ?case
    using "2.IH" "2.prems" l by (simp add: f count_bits_nth lists_version_def split: option.splits)
qed simp

lemma bit_BIT_iff: "bit (BIT j) i \<longleftrightarrow> i = j \<and> j < 64"
  unfolding BIT_def bit_push_bit_iff bit_1_iff by (auto dest: bit_imp_le_length)

lemma winning_bits_bit: "bit (winning_bits counts threshold) i \<longleftrightarrow> i < 64 \<and> uint (counts ! i) \<ge> threshold"
proof -
  have "bit (foldl (\<lambda>m i. if P i then m OR BIT i else m) m0 xs) i \<longleftrightarrow> bit m0 i \<or> i \<in> set xs \<and> i < 64 \<and> P i" for P m0 xs
    by (induction xs arbitrary: m0) (auto simp: bit_or_iff bit_BIT_iff)
  from this [of "\<lambda>i. uint (counts ! i) \<ge> threshold" 0 "[0..<64]"] show ?thesis by (auto simp: winning_bits_def)
qed

definition won :: "string list \<Rightarrow> int \<Rightarrow> string \<Rightarrow> u64" where
  "won votes threshold name = winning_bits (count_votes name (parsed_votes votes) (replicate 64 0)) threshold"

lemma elect_eq:
  "elect names parsed threshold result = result @
     map (\<lambda>name. \<lparr>p_name = name, bitmask = winning_bits (count_votes name parsed (replicate 64 0)) threshold\<rparr>)
       (filter (\<lambda>name. winning_bits (count_votes name parsed (replicate 64 0)) threshold \<noteq> 0) names)"
  by (induction names parsed threshold result rule: elect.induct) (simp_all add: Let_def)

text \<open>The number of votes for a version.\<close>

definition votes_for :: "string list \<Rightarrow> string \<Rightarrow> nat \<Rightarrow> nat" where
  "votes_for votes name i = length (filter (\<lambda>es. lists_version es name i) (parsed_votes votes))"

lemma length_parsed_votes: "length (parsed_votes votes) \<le> length votes"
  by (simp add: parsed_votes_def map_filter_def)

lemma won_bit:
  assumes "NUL \<notin> set name" "length votes < 256"
  shows "bit (won votes threshold name) i \<longleftrightarrow> i < 64 \<and> int (votes_for votes name i) \<ge> threshold"
proof (cases "i < 64")
  case True
  have "votes_for votes name i \<le> length (parsed_votes votes)" by (simp add: votes_for_def)
  then have l: "votes_for votes name i < 256" using length_parsed_votes [of votes] assms(2) by linarith
  have "list_all names_ok (parsed_votes votes)" using parsed_votes_names by (auto simp: list_all_iff)
  then have "count_votes name (parsed_votes votes) (replicate 64 0) ! i = of_nat (votes_for votes name i)"
    using count_votes_nth [OF assms(1), of "parsed_votes votes" "replicate 64 0" i] True by (simp add: votes_for_def)
  moreover have "uint (of_nat (votes_for votes name i) :: u8) = int (votes_for votes name i)"
    using l by (simp add: uint_nat unat_of_nat take_bit_nat_eq_self)
  ultimately show ?thesis using True by (simp add: won_def winning_bits_bit)
qed (simp add: won_def winning_bits_bit)

end
