(* ===== verification/Protover_Props.thy ===== *)
theory Protover_Props
  imports Protover
begin

text \<open>
  The hard-wired protocol lists, elections, missing entries, the cache of summaries and the protocols of old versions, and the properties of theory Protover.
\<close>

section \<open>The lists of the program\<close>

abbreviation entry :: "string \<Rightarrow> u64 \<Rightarrow> proto_entry_t" where
  "entry name m \<equiv> \<lparr>p_name = name, bitmask = m\<rparr>"

definition our_entries :: "bool \<Rightarrow> proto_entry_t list" where
  "our_entries tls =
     [entry ''Conflux'' 2, entry ''Cons'' 6, entry ''Desc'' 6, entry ''DirCache'' 4, entry ''FlowCtrl'' 6, entry ''HSDir'' 4,
      entry ''HSIntro'' 48, entry ''HSRend'' 6, entry ''Link'' 62, entry ''LinkAuth'' (if tls then 10 else 8), entry ''Microdesc'' 6,
      entry ''Padding'' 4, entry ''Relay'' 30]"

definition client_entries :: "u64 \<Rightarrow> proto_entry_t list" where
  "client_entries link = [entry ''Cons'' 4, entry ''Desc'' 4, entry ''Link'' link, entry ''Microdesc'' 4, entry ''Relay'' 4]"

definition recommended_client_entries :: "proto_entry_t list" where
  "recommended_client_entries =
     [entry ''Cons'' 4, entry ''Desc'' 4, entry ''DirCache'' 4, entry ''HSDir'' 4, entry ''HSIntro'' 16, entry ''HSRend'' 4, entry ''Link'' 48,
      entry ''Microdesc'' 4, entry ''Relay'' 4]"

definition relay_entries :: "proto_entry_t list" where
  "relay_entries =
     [entry ''Cons'' 4, entry ''Desc'' 4, entry ''DirCache'' 4, entry ''HSDir'' 4, entry ''HSIntro'' 16, entry ''HSRend'' 4, entry ''Link'' 48,
      entry ''LinkAuth'' 8, entry ''Microdesc'' 4, entry ''Relay'' 4]"

lemma parse_of_encode: "encode_protocol_list es = Done t \<Longrightarrow> list_all entry_ok es \<Longrightarrow> parse_protocol_list t = Done es"
  using encode_parse [of es] by auto

lemma parse_ours: "parse_protocol_list (protover_get_supported_protocols tls) = Done (our_entries tls)"
proof (rule parse_of_encode)
  have "encode_protocol_list (our_entries True) = Done (protover_get_supported_protocols True)" by code_simp
  moreover have "encode_protocol_list (our_entries False) = Done (protover_get_supported_protocols False)" by code_simp
  ultimately show "encode_protocol_list (our_entries tls) = Done (protover_get_supported_protocols tls)" by (cases tls) simp_all
  have "list_all entry_ok (our_entries True)" by code_simp
  moreover have "list_all entry_ok (our_entries False)" by code_simp
  ultimately show "list_all entry_ok (our_entries tls)" by (cases tls) simp_all
qed

lemma parse_required_client: "parse_protocol_list protover_get_required_client_protocols = Done (client_entries 16)"
proof (rule parse_of_encode)
  show "encode_protocol_list (client_entries 16) = Done protover_get_required_client_protocols" by code_simp
  show "list_all entry_ok (client_entries 16)" by code_simp
qed

lemma parse_recommended_client: "parse_protocol_list protover_get_recommended_client_protocols = Done recommended_client_entries"
proof (rule parse_of_encode)
  show "encode_protocol_list recommended_client_entries = Done protover_get_recommended_client_protocols" by code_simp
  show "list_all entry_ok recommended_client_entries" by code_simp
qed

lemma parse_relay:
  "parse_protocol_list protover_get_required_relay_protocols = Done relay_entries"
  "parse_protocol_list protover_get_recommended_relay_protocols = Done relay_entries"
proof -
  have ok: "list_all entry_ok relay_entries" by code_simp
  show "parse_protocol_list protover_get_required_relay_protocols = Done relay_entries"
    by (rule parse_of_encode [OF _ ok]) code_simp
  show "parse_protocol_list protover_get_recommended_relay_protocols = Done relay_entries"
    by (rule parse_of_encode [OF _ ok]) code_simp
qed

lemma ours_supported: "get_supported_protocol_list tls = Some (our_entries tls)"
  by (simp add: get_supported_protocol_list_def parse_ours)

text \<open>The entries that are missing.\<close>

definition missing_of :: "proto_entry_t list \<Rightarrow> proto_entry_t \<Rightarrow> u64" where
  "missing_of ours ent = (case entry_of ours (p_name ent) of None \<Rightarrow> bitmask ent | Some mine \<Rightarrow> bitmask ent AND NOT (bitmask mine))"

lemma missing_of_bit: "bit (missing_of ours ent) i \<longleftrightarrow> bit (bitmask ent) i \<and> \<not> lists_version ours (p_name ent) i"
  by (auto simp: missing_of_def lists_version_def bit_and_iff bit_not_iff dest: bit_imp_le_length split: option.splits)

lemma missing_entries_eq:
  assumes "names_ok es" "names_ok ours"
  shows "missing_entries (Some ours) es missing =
    missing @ map (\<lambda>e. entry (p_name e) (missing_of ours e)) (filter (\<lambda>e. missing_of ours e \<noteq> 0) es)"
  using assms(1)
proof (induction es arbitrary: missing)
  case (Cons e es)
  have "find_entry_by_name ours (p_name e) = entry_of ours (p_name e)"
    by (rule find_entry_eq) (use Cons.prems assms(2) name_chars(3) in simp_all)
  then show ?case using Cons by (auto simp: missing_of_def Let_def split: option.splits)
qed simp

lemma encode_full:
  assumes "\<exists>e \<in> set es. bitmask e = - 1" "names_ok es"
  shows "encode_protocol_list es = Assertion_failed"
proof -
  have f: "proto_entry_encode_into chunks e = Assertion_failed" if "bitmask e = - 1" for e chunks
  proof -
    have "takeWhile (\<lambda>i. \<not> bit (- 1 :: u64) i) [0..<64] = []" by (simp add: takeWhile_eq_Nil_iff)
    then have "trailing_zeros (- 1) = Done 0" by (simp add: trailing_zeros_def)
    moreover have c: "count_ones (- 1) = Assertion_failed" by (simp add: count_ones_def trailing_zeros_def)
    moreover have m: "(mask 64 :: u64) = - 1" by (auto simp: bit_eq_iff bit_mask_iff bit_minus_1_iff)
    ultimately show ?thesis
      using that c by (simp add: proto_entry_encode_into_def encode_loop.simps [of "- 1"] Let_def m)
  qed
  have "encode_entries es sep chunks = Assertion_failed" for sep chunks
    using assms
  proof (induction es arbitrary: sep chunks)
    case (Cons e es)
    show ?case
    proof (cases "bitmask e = - 1")
      case False
      then have "entry_ok e" using Cons.prems(2) by (simp add: entry_ok_def)
      from encode_entry [OF this, of "chunks @ [sep]"] show ?thesis using Cons False by auto
    qed (simp add: f)
  qed simp
  then show ?thesis by (simp add: encode_protocol_list_def)
qed

lemma our_names: "names_ok (our_entries tls)"
  using parse_list_names [OF parse_ours] .

lemma all_supported_eq:
  fixes tls :: bool
  assumes "parse_protocol_list s = Done es"
  defines "missing \<equiv> map (\<lambda>e. entry (p_name e) (missing_of (our_entries tls) e)) (filter (\<lambda>e. missing_of (our_entries tls) e \<noteq> 0) es)"
  shows "protover_all_supported tls (Some s) w = (if missing = [] then Done (True, None) else if w then
      and_then (encode_protocol_list missing) (\<lambda>t. Done (False, Some t)) else Done (False, None))"
proof -
  have "missing_entries (Some (our_entries tls)) es [] = missing"
    using missing_entries_eq [OF parse_list_names [OF assms(1)] our_names, of tls "[]"] by (simp add: missing_def)
  then show ?thesis by (simp add: protover_all_supported_def assms(1) ours_supported)
qed




section \<open>Properties\<close>

lemma word_nonzero_bit: "(w :: u64) \<noteq> 0 \<longleftrightarrow> (\<exists>i. bit w i)"
proof -
  have "w = 0" if "\<forall>i. \<not> bit w i" using that by (intro bit_word_eqI) simp
  then show ?thesis by auto
qed



text \<open>C27: encoding and parsing.  What \<open>parse_protocol_list\<close> accepts has acceptable names; a list of entries with acceptable names is encoded
  to a text that parses back to it, empty entries, gaps and repeated names included, unless an entry has all 64 versions, where the encoder runs into undefined
  behaviour; and re-encoding what was parsed preserves the versions.\<close>

theorem protocol_list_roundtrip:
  assumes "parse_protocol_list s = Done es"
  shows "names_ok es \<and>
    (if \<exists>e \<in> set es. bitmask e = - 1 then encode_protocol_list es = Assertion_failed
     else \<exists>t. encode_protocol_list es = Done t \<and> parse_protocol_list t = Done es) \<and>
    (\<forall>ents. names_ok ents \<and> (\<forall>e \<in> set ents. bitmask e \<noteq> - 1) \<longrightarrow>
      (\<exists>t. encode_protocol_list ents = Done t \<and> parse_protocol_list t = Done ents))"
proof -
  have n: "names_ok es" using parse_list_names [OF assms] .
  have e: "\<exists>t. encode_protocol_list ents = Done t \<and> parse_protocol_list t = Done ents"
    if "names_ok ents" "\<forall>e \<in> set ents. bitmask e \<noteq> - 1" for ents
    using that by (intro encode_parse) (auto simp: list_all_iff entry_ok_def)
  show ?thesis using n e encode_full [OF _ n] by auto
qed

text \<open>What a list supports.  \<open>protocol_list_supports_protocol\<close> holds exactly of the versions the first entry of that name lists.
  Support for a version or any later one implies that \<open>protocol_list_supports_protocol_or_later\<close> holds, for every version up to 63, but not the
  other way round: that function also looks at further entries of the name and ignores the case of letters.\<close>

theorem supports_spec:
  assumes "parse_protocol_list list = Done es" "version \<le> 63"
  shows "(protocol_list_supports_protocol list tp version \<longleftrightarrow> lists_version es (protocol_type_to_str tp) version) \<and>
    (\<exists>b. protocol_list_supports_protocol_or_later list tp version = Done b \<and>
       (b \<longleftrightarrow> (\<exists>e \<in> set es. strcasecmp (p_name e) (protocol_type_to_str tp) = 0 \<and> (\<exists>i \<ge> version. bit (bitmask e) i))) \<and>
       (\<forall>v \<ge> version. protocol_list_supports_protocol list tp v \<longrightarrow> b)) \<and>
    (\<exists>s. protocol_list_supports_protocol_or_later s PRT_LINK 3 = Done True \<and> (\<forall>v. \<not> protocol_list_supports_protocol s PRT_LINK v))"
proof -
  have nul: "NUL \<notin> set (protocol_type_to_str tp)" by (cases tp) (simp_all add: protocol_type_to_str_def PROTOCOL_NAMES_def)
  have n: "names_ok es" using parse_list_names [OF assms(1)] .
  have f: "find_entry_by_name es (protocol_type_to_str tp) = entry_of es (protocol_type_to_str tp)" by (rule find_entry_eq [OF nul n])
  have s: "protocol_list_supports_protocol list tp v \<longleftrightarrow> v \<le> 63 \<and> lists_version es (protocol_type_to_str tp) v" for v
    by (auto simp: protocol_list_supports_protocol_def assms(1) protocol_list_contains_def f lists_version_def MAX_PROTOCOL_VERSION_def bit_BIT
        split: option.splits)
  obtain m where m: "bitmask_for_range version 63 = Done m" "\<forall>i. bit m i \<longleftrightarrow> version \<le> i \<and> i \<le> 63" using range_mask [OF assms(2)] by auto
  have mb: "0 \<noteq> bm AND m \<longleftrightarrow> (\<exists>i \<ge> version. bit bm i)" for bm :: u64
  proof -
    have "bm AND m \<noteq> 0 \<longleftrightarrow> (\<exists>i. bit (bm AND m) i)" by (rule word_nonzero_bit)
    also have "\<dots> \<longleftrightarrow> (\<exists>i \<ge> version. bit bm i)" using m(2) bit_imp_le_length [of bm] by (fastforce simp: bit_and_iff)
    finally show ?thesis by metis
  qed
  let ?b = "list_ex (\<lambda>e. strcasecmp (p_name e) (protocol_type_to_str tp) = 0 \<and> 0 \<noteq> bitmask e AND m) es"
  have later: "protocol_list_supports_protocol_or_later list tp version = Done ?b"
    by (simp add: protocol_list_supports_protocol_or_later_def assms(1) m(1))
  have b: "?b \<longleftrightarrow> (\<exists>e \<in> set es. strcasecmp (p_name e) (protocol_type_to_str tp) = 0 \<and> (\<exists>i \<ge> version. bit (bitmask e) i))"
    unfolding mb list_ex_iff ..
  have impl: "protocol_list_supports_protocol list tp v \<longrightarrow> ?b" if "v \<ge> version" for v
  proof
    assume "protocol_list_supports_protocol list tp v"
    then obtain e where e: "e \<in> set es" "p_name e = protocol_type_to_str tp" "bit (bitmask e) v"
      using s entry_of_Some by (force simp: lists_version_def split: option.splits)
    have "strcmp x x = 0" for x by (induction x) simp_all
    then have "strcasecmp (p_name e) (protocol_type_to_str tp) = 0" by (simp add: strcasecmp_def e(2))
    then show ?b unfolding b using e that by blast
  qed
  have ex: "\<exists>s. protocol_list_supports_protocol_or_later s PRT_LINK 3 = Done True \<and> (\<forall>v. \<not> protocol_list_supports_protocol s PRT_LINK v)"
  proof -
    have ok: "list_all entry_ok [entry ''link'' 16]" by code_simp
    obtain t where t: "parse_protocol_list t = Done [entry ''link'' 16]" using encode_parse [OF ok] by blast
    have "protocol_list_supports_protocol_or_later t PRT_LINK 3 = Done (list_ex (\<lambda>e. strcasecmp (p_name e) ''Link'' = 0 \<and> 0 \<noteq> bitmask e AND push_bit 3 (drop_bit 3 (- 1))) [entry ''link'' 16])"
      by (simp add: protocol_list_supports_protocol_or_later_def t bitmask_for_range_def protocol_type_to_str_def PROTOCOL_NAMES_def)
    moreover have "strcasecmp ''link'' ''Link'' = 0" by code_simp
    moreover have "0 \<noteq> (16 :: u64) AND push_bit 3 (drop_bit 3 (- 1))" by code_simp
    ultimately have "protocol_list_supports_protocol_or_later t PRT_LINK 3 = Done True" by simp
    moreover have "\<not> protocol_list_supports_protocol t PRT_LINK v" for v
      by (simp add: protocol_list_supports_protocol_def t protocol_list_contains_def protocol_type_to_str_def PROTOCOL_NAMES_def)
    ultimately show ?thesis by blast
  qed
  show ?thesis using s [of version] assms(2) later b impl ex by blast
qed

text \<open>C26: \<open>protover_all_supported\<close>.  On a list that parses, it is true exactly when this program supports every version listed, and otherwise the list
  of what is missing parses to exactly the versions listed and not supported; a list that does not parse counts as supported.  The encoder's
  undefined behaviour is reached only when all 64 versions of a protocol are asked for and none is supported.\<close>

theorem all_supported_spec:
  assumes "parse_protocol_list s = Done es"
  shows "(\<exists>b m. protover_all_supported tls (Some s) False = Done (b, m) \<and>
      (b \<longleftrightarrow> (\<forall>e \<in> set es. \<forall>i. bit (bitmask e) i \<longrightarrow> lists_version (our_entries tls) (p_name e) i))) \<and>
    (if \<exists>e \<in> set es. \<forall>i < 64. bit (bitmask e) i \<and> \<not> lists_version (our_entries tls) (p_name e) i
     then protover_all_supported tls (Some s) True = Assertion_failed
     else \<exists>b m. protover_all_supported tls (Some s) True = Done (b, m) \<and> (b \<longleftrightarrow> m = None) \<and>
       (\<forall>t. m = Some t \<longrightarrow> (\<exists>missing. parse_protocol_list t = Done missing \<and>
          (\<forall>name i. (\<exists>e \<in> set missing. p_name e = name \<and> bit (bitmask e) i) \<longleftrightarrow>
             (\<exists>e \<in> set es. p_name e = name \<and> bit (bitmask e) i) \<and> \<not> lists_version (our_entries tls) name i)))) \<and>
    (protover_list_is_invalid u \<longrightarrow> protover_all_supported tls (Some u) True = Done (True, None))"
proof -
  let ?mo = "missing_of (our_entries tls)"
  define missing where "missing = map (\<lambda>e. entry (p_name e) (?mo e)) (filter (\<lambda>e. ?mo e \<noteq> 0) es)"
  note eq = all_supported_eq [OF assms, of tls, folded missing_def]
  have n: "names_ok missing" using parse_list_names [OF assms] by (auto simp: missing_def list_all_iff)
  have nil: "missing = [] \<longleftrightarrow> (\<forall>e \<in> set es. \<forall>i. bit (bitmask e) i \<longrightarrow> lists_version (our_entries tls) (p_name e) i)"
    unfolding missing_def by (auto simp: filter_empty_conv missing_of_bit word_nonzero_bit)
  have full: "(\<exists>e \<in> set missing. bitmask e = - 1) \<longleftrightarrow> (\<exists>e \<in> set es. \<forall>i < 64. bit (bitmask e) i \<and> \<not> lists_version (our_entries tls) (p_name e) i)"
  proof -
    have "?mo e = - 1 \<longleftrightarrow> (\<forall>i < 64. bit (bitmask e) i \<and> \<not> lists_version (our_entries tls) (p_name e) i)" for e
      by (simp add: full_mask missing_of_bit)
    moreover have "?mo e = - 1 \<Longrightarrow> ?mo e \<noteq> 0" for e by simp
    ultimately show ?thesis unfolding missing_def by auto
  qed
  have bits: "(\<exists>e \<in> set missing. p_name e = name \<and> bit (bitmask e) i) \<longleftrightarrow>
      (\<exists>e \<in> set es. p_name e = name \<and> bit (bitmask e) i) \<and> \<not> lists_version (our_entries tls) name i" for name i
  proof -
    have "bit (?mo e) i \<Longrightarrow> ?mo e \<noteq> 0" for e by auto
    then show ?thesis unfolding missing_def by (auto simp: missing_of_bit)
  qed
  have one: "\<exists>b m. protover_all_supported tls (Some s) False = Done (b, m) \<and>
      (b \<longleftrightarrow> (\<forall>e \<in> set es. \<forall>i. bit (bitmask e) i \<longrightarrow> lists_version (our_entries tls) (p_name e) i))"
    using eq [of False] nil by (cases "missing = []") auto
  have two: "if \<exists>e \<in> set missing. bitmask e = - 1
     then protover_all_supported tls (Some s) True = Assertion_failed
     else \<exists>b m. protover_all_supported tls (Some s) True = Done (b, m) \<and> (b \<longleftrightarrow> m = None) \<and>
       (\<forall>t. m = Some t \<longrightarrow> (\<exists>missing. parse_protocol_list t = Done missing \<and>
          (\<forall>name i. (\<exists>e \<in> set missing. p_name e = name \<and> bit (bitmask e) i) \<longleftrightarrow>
             (\<exists>e \<in> set es. p_name e = name \<and> bit (bitmask e) i) \<and> \<not> lists_version (our_entries tls) name i)))"
  proof (cases "missing = []")
    case False
    show ?thesis
    proof (cases "\<exists>e \<in> set missing. bitmask e = - 1")
      case True
      then show ?thesis using encode_full [OF True n] eq [of True] False by simp
    next
      case nf: False
      have "list_all entry_ok missing" using n nf by (auto simp: list_all_iff entry_ok_def)
      then obtain t where "encode_protocol_list missing = Done t" "parse_protocol_list t = Done missing" using encode_parse by blast
      then show ?thesis using nf eq [of True] False bits by auto
    qed
  qed (use eq [of True] in auto)
  have three: "protover_list_is_invalid u \<longrightarrow> protover_all_supported tls (Some u) True = Done (True, None)"
    by (auto simp: protover_list_is_invalid_def protover_all_supported_def split: outcome.splits)
  show ?thesis using one two [unfolded full] three by blast
qed

text \<open>The hard-wired lists.  This program supports all the protocol versions it requires or recommends, of clients and of relays,
  whichever TLS library it was built with; and whatever is required is recommended.\<close>

theorem required_is_supported:
  "L \<in> {protover_get_required_client_protocols, protover_get_recommended_client_protocols,
      protover_get_required_relay_protocols, protover_get_recommended_relay_protocols} \<Longrightarrow>
     protover_all_supported tls (Some L) w = Done (True, None) \<and>
     (\<forall>tp v. protocol_list_supports_protocol protover_get_required_client_protocols tp v \<longrightarrow>
        protocol_list_supports_protocol protover_get_recommended_client_protocols tp v) \<and>
     (\<forall>tp v. protocol_list_supports_protocol protover_get_required_relay_protocols tp v \<longrightarrow>
        protocol_list_supports_protocol protover_get_recommended_relay_protocols tp v) \<and>
     (\<forall>tp v. protocol_list_supports_protocol L tp v \<longrightarrow> protover_is_supported_here tls tp v)"
proof -
  assume L: "L \<in> {protover_get_required_client_protocols, protover_get_recommended_client_protocols,
      protover_get_required_relay_protocols, protover_get_recommended_relay_protocols}"
  have nul: "NUL \<notin> set (protocol_type_to_str tp)" for tp by (cases tp) (simp_all add: protocol_type_to_str_def PROTOCOL_NAMES_def)
  have con: "protocol_list_contains es tp v \<longleftrightarrow> v \<le> 63 \<and> lists_version es (protocol_type_to_str tp) v" if "names_ok es" for es tp v
    using find_entry_eq [OF nul that]
    by (auto simp: protocol_list_contains_def lists_version_def MAX_PROTOCOL_VERSION_def bit_BIT split: option.splits)
  have sup: "protocol_list_supports_protocol s tp v \<longleftrightarrow> v \<le> 63 \<and> lists_version es (protocol_type_to_str tp) v"
    if "parse_protocol_list s = Done es" for s es tp v
    using that con [OF parse_list_names [OF that]] by (simp add: protocol_list_supports_protocol_def)
  have here: "protover_is_supported_here tls tp v \<longleftrightarrow> v \<le> 63 \<and> lists_version (our_entries tls) (protocol_type_to_str tp) v" for tp v
    using con [OF our_names] by (simp add: protover_is_supported_here_def ours_supported)
  have mono: "lists_version es name i \<Longrightarrow> lists_version es' name i" if "list_all (\<lambda>e. missing_of es' e = 0) es" for es es' name i
  proof -
    assume l: "lists_version es name i"
    then obtain e where e: "entry_of es name = Some e" "bit (bitmask e) i" by (auto simp: lists_version_def split: option.splits)
    then have "missing_of es' e = 0" "p_name e = name" using that entry_of_Some by (auto simp: list_all_iff)
    then show "lists_version es' name i" using missing_of_bit [of es' e i] e(2) by auto
  qed
  have t: "list_all (\<lambda>e. missing_of (our_entries True) e = 0) es \<and> list_all (\<lambda>e. missing_of (our_entries False) e = 0) es"
    if "es \<in> {client_entries 16, recommended_client_entries, relay_entries}" for es
  proof -
    have "list_all (\<lambda>e. missing_of (our_entries True) e = 0) (client_entries 16)" "list_all (\<lambda>e. missing_of (our_entries False) e = 0) (client_entries 16)"
      "list_all (\<lambda>e. missing_of (our_entries True) e = 0) recommended_client_entries" "list_all (\<lambda>e. missing_of (our_entries False) e = 0) recommended_client_entries"
      "list_all (\<lambda>e. missing_of (our_entries True) e = 0) relay_entries" "list_all (\<lambda>e. missing_of (our_entries False) e = 0) relay_entries"
      by code_simp+
    then show ?thesis using that by blast
  qed
  obtain es where es: "parse_protocol_list L = Done es" "es \<in> {client_entries 16, recommended_client_entries, relay_entries}"
    using L parse_required_client parse_recommended_client parse_relay by auto
  have m: "list_all (\<lambda>e. missing_of (our_entries tls) e = 0) es" using t [OF es(2)] by (cases tls) auto
  then have "filter (\<lambda>e. missing_of (our_entries tls) e \<noteq> 0) es = []" by (simp add: filter_empty_conv list_all_iff)
  then have all: "protover_all_supported tls (Some L) w = Done (True, None)" using all_supported_eq [OF es(1), of tls w] by simp
  have "list_all (\<lambda>e. missing_of recommended_client_entries e = 0) (client_entries 16)" by code_simp
  then have req: "protocol_list_supports_protocol protover_get_required_client_protocols tp v \<Longrightarrow>
      protocol_list_supports_protocol protover_get_recommended_client_protocols tp v" for tp v
    using mono by (auto simp: sup [OF parse_required_client] sup [OF parse_recommended_client])
  show ?thesis
    using all req by (auto simp: sup [OF parse_relay(1)] sup [OF parse_relay(2)] sup [OF es(1)] here intro: mono [OF m])
qed

section \<open>The cache of summaries\<close>

lemma bitmask_any: "\<exists>m. bitmask_for_range 3 63 = Done m"
  by (simp add: bitmask_for_range_def)

lemma or_later_total: "\<exists>b. protocol_list_supports_protocol_or_later p tp 3 = Done b"
  using bitmask_any by (cases "parse_protocol_list p") (auto simp: protocol_list_supports_protocol_or_later_def)

lemma compute_summary_total: "\<exists>out. compute_summary p = Done out \<and> protocols_known out"
proof -
  obtain any where "protocol_list_supports_protocol_or_later p PRT_LINKAUTH 3 = Done any"
    using or_later_total by blast
  then show ?thesis by (simp add: compute_summary_def Let_def)
qed

definition cache_ok :: "summary_map \<Rightarrow> bool" where
  "cache_ok m \<longleftrightarrow> length m \<le> MAX_PROTOVER_SUMMARY_MAP_LEN \<and> (\<forall>(p, out) \<in> set m. compute_summary p = Done out)"

lemma memoize_ok:
  assumes "cache_ok m" "compute_summary p = Done out"
  shows "\<exists>m'. memoize_protover_summary p m = Done (out, m') \<and> cache_ok m'"
proof -
  define m1 where "m1 = (if length m \<ge> MAX_PROTOVER_SUMMARY_MAP_LEN then [] else m)"
  have m1: "cache_ok m1" "length m1 < MAX_PROTOVER_SUMMARY_MAP_LEN"
    using assms(1) by (auto simp: m1_def cache_ok_def MAX_PROTOVER_SUMMARY_MAP_LEN_def)
  show ?thesis
  proof (cases "map_of m1 p")
    case None
    have "cache_ok ((p, out) # m1)" using m1 assms(2) by (auto simp: cache_ok_def)
    then show ?thesis using None assms(2) by (simp add: memoize_protover_summary_def flip: m1_def)
  next
    case (Some c)
    then have "compute_summary p = Done c" using m1(1) by (auto simp: cache_ok_def dest: map_of_SomeD)
    then have "c = out" "protocols_known c" using assms(2) compute_summary_total [of p] by auto
    then show ?thesis using Some m1(1) by (simp add: memoize_protover_summary_def flip: m1_def)
  qed
qed

text \<open>C29: the cache of summaries.  \<open>summarize_protover_flags\<close> always returns, keeps the cache within its bound and true, and returns what it would return with an
  empty cache; with no protocols and no version no flag is set.  A relay can be marked as supporting conflux without being marked as supporting congestion control,
  which the comment says conflux requires.\<close>

theorem summary_cache_transparent:
  assumes "cache_ok m"
  shows "(\<exists>out m' m''. summarize_protover_flags protocols version m = Done (out, m') \<and> cache_ok m' \<and>
      summarize_protover_flags protocols version [] = Done (out, m'')) \<and>
    summarize_protover_flags None None m = Done (flags_zero, m) \<and> summarize_protover_flags (Some '''') (Some '''') m = Done (flags_zero, m) \<and>
    (\<exists>s out. compute_summary s = Done out \<and> supports_conflux out \<and> \<not> supports_congestion_control out)"
proof -
  have e: "cache_ok []" by (simp add: cache_ok_def)
  have main: "\<exists>out m' m''. summarize_protover_flags protocols version m = Done (out, m') \<and> cache_ok m' \<and>
      summarize_protover_flags protocols version [] = Done (out, m'')"
  proof (cases "protocols = None \<or> protocols = Some ''''")
    case True
    then show ?thesis using assms by (auto simp: summarize_protover_flags_def split: option.splits)
  next
    case False
    then obtain p where p: "protocols = Some p" "strcmp p '''' \<noteq> 0 \<or> strcmp p '''' = 0" by auto
    obtain out where out: "compute_summary p = Done out" using compute_summary_total by blast
    obtain m' m'' where "memoize_protover_summary p m = Done (out, m')" "cache_ok m'" "memoize_protover_summary p [] = Done (out, m'')"
      using memoize_ok [OF assms out] memoize_ok [OF e out] by blast
    then show ?thesis using assms by (auto simp: summarize_protover_flags_def p(1) split: option.splits)
  qed
  have cf: "\<exists>s out. compute_summary s = Done out \<and> supports_conflux out \<and> \<not> supports_congestion_control out"
  proof -
    have ok: "list_all entry_ok [entry ''Conflux'' 2, entry ''FlowCtrl'' 4]" by code_simp
    obtain s where s: "parse_protocol_list s = Done [entry ''Conflux'' 2, entry ''FlowCtrl'' 4]" using encode_parse [OF ok] by blast
    have sup: "protocol_list_supports_protocol s tp v = protocol_list_contains [entry ''Conflux'' 2, entry ''FlowCtrl'' 4] tp v" for tp v
      by (simp add: protocol_list_supports_protocol_def s)
    have "protocol_list_contains [entry ''Conflux'' 2, entry ''FlowCtrl'' 4] PRT_FLOWCTRL 2"
      "protocol_list_contains [entry ''Conflux'' 2, entry ''FlowCtrl'' 4] PRT_CONFLUX 1"
      "\<not> protocol_list_contains [entry ''Conflux'' 2, entry ''FlowCtrl'' 4] PRT_RELAY 4"
      by code_simp+
    moreover obtain any where "protocol_list_supports_protocol_or_later s PRT_LINKAUTH 3 = Done any"
      using or_later_total by blast
    ultimately show ?thesis by (intro exI [of _ s]) (simp add: compute_summary_def Let_def sup)
  qed
  show ?thesis using main cf by (simp add: summarize_protover_flags_def)
qed

section \<open>Versions that do not list their protocols\<close>

definition old_list :: "nat \<Rightarrow> string" where
  "old_list k = [''Cons=1 Desc=1 DirCache=1 HSDir=1 HSIntro=3 HSRend=1 Link=1-4 LinkAuth=1 Microdesc=1 Relay=1-2'',
      ''Cons=1-2 Desc=1-2 DirCache=1 HSDir=1 HSIntro=3 HSRend=1 Link=1-4 LinkAuth=1 Microdesc=1-2 Relay=1-2'',
      ''Cons=1-2 Desc=1-2 DirCache=1 HSDir=1 HSIntro=3 HSRend=1-2 Link=1-4 LinkAuth=1 Microdesc=1-2 Relay=1-2''] ! k"

definition old_entries :: "nat \<Rightarrow> proto_entry_t list" where
  "old_entries k = (let m = (if k = 0 then 2 else 6) in
     [entry ''Cons'' m, entry ''Desc'' m, entry ''DirCache'' 2, entry ''HSDir'' 2, entry ''HSIntro'' 8,
      entry ''HSRend'' (if k = 2 then 6 else 2), entry ''Link'' 30, entry ''LinkAuth'' 2, entry ''Microdesc'' m, entry ''Relay'' 6])"

lemma parse_old_list: "k < 3 \<Longrightarrow> parse_protocol_list (old_list k) = Done (old_entries k)"
proof (rule parse_of_encode)
  assume "k < 3"
  then have k: "k \<in> {0, 1, 2}" by auto
  have "encode_protocol_list (old_entries 0) = Done (old_list 0)" "encode_protocol_list (old_entries 1) = Done (old_list 1)"
    "encode_protocol_list (old_entries 2) = Done (old_list 2)" by code_simp+
  then show "encode_protocol_list (old_entries k) = Done (old_list k)" using k by blast
  have "list_all entry_ok (old_entries 0)" "list_all entry_ok (old_entries 1)" "list_all entry_ok (old_entries 2)" by code_simp+
  then show "list_all entry_ok (old_entries k)" using k by blast
qed

definition cutoff :: "nat \<Rightarrow> tor_version_t" where
  "cutoff k = [version_zero\<lparr>minor := 2, micro := 4, patchlevel := 19\<rparr>, version_zero\<lparr>minor := 2, micro := 7, patchlevel := 5\<rparr>,
     version_zero\<lparr>minor := 2, micro := 9, patchlevel := 1, status_tag := ''alpha''\<rparr>,
     version_zero\<lparr>minor := 2, micro := 9, patchlevel := 3, status_tag := ''alpha''\<rparr>] ! k"

lemma cutoff_text:
  "version_text (cutoff 0) = ''0.2.4.19''" "version_text (cutoff 1) = ''0.2.7.5''"
  "version_text (cutoff 2) = ''0.2.9.1-alpha''" "version_text (cutoff 3) = ''0.2.9.3-alpha''"
  by (simp_all add: cutoff_def version_text_def version_zero_def tag_text_def revision_text_def dec_digits.simps char_of_def bit_Suc_0_iff)

lemma cutoff_printable: "k < 4 \<Longrightarrow> printable_version (cutoff k)"
proof -
  assume "k < 4"
  then have "k \<in> {0, 1, 2, 3}" by auto
  then show ?thesis
    by (auto simp: cutoff_def printable_version_def ordered_version_def version_ok_def version_zero_def ends_word_def)
qed

lemma cutoff_parse:
  "tor_version_parse ''0.2.4.19'' = Done (cutoff 0)" "tor_version_parse ''0.2.7.5'' = Done (cutoff 1)"
  "tor_version_parse ''0.2.9.1-alpha'' = Done (cutoff 2)" "tor_version_parse FIRST_TOR_VERSION_TO_ADVERTISE_PROTOCOLS = Done (cutoff 3)"
  using parse_version_text(1) [OF cutoff_printable, of 0] parse_version_text(1) [OF cutoff_printable, of 1]
    parse_version_text(1) [OF cutoff_printable, of 2] parse_version_text(1) [OF cutoff_printable, of 3]
  unfolding cutoff_text FIRST_TOR_VERSION_TO_ADVERTISE_PROTOCOLS_def by simp_all

definition era :: "tor_version_t \<Rightarrow> nat" where
  "era v = (if tor_version_compare v (cutoff 3) \<ge> 0 then 4 else if tor_version_compare v (cutoff 2) \<ge> 0 then 3
     else if tor_version_compare v (cutoff 1) \<ge> 0 then 2 else if tor_version_compare v (cutoff 0) \<ge> 0 then 1 else 0)"

lemma era_mono: "ordered_version v \<Longrightarrow> ordered_version w \<Longrightarrow> tor_version_compare v w \<le> 0 \<Longrightarrow> era v \<le> era w"
proof -
  assume a: "ordered_version v" "ordered_version w" "tor_version_compare v w \<le> 0"
  have "tor_version_compare w (cutoff k) \<ge> 0" if "k < 4" "tor_version_compare v (cutoff k) \<ge> 0" for k
  proof -
    have o: "ordered_version (cutoff k)" using cutoff_printable [OF that(1)] by (simp add: printable_version_def)
    have "tor_version_compare (cutoff k) v \<le> 0" using version_order.sign_le [of "cutoff k" v] a(1) o that(2) by simp
    then have "tor_version_compare (cutoff k) w \<le> 0" using version_order.trans [of "cutoff k" v w] a o by simp
    then show ?thesis using version_order.sign_le [of "cutoff k" w] a(2) o by simp
  qed
  note k = this [of 0] this [of 1] this [of 2] this [of 3]
  show ?thesis using k by (auto simp: era_def)
qed

lemma old_tor_eq:
  assumes "\<And>c cv. tor_version_parse c = Done cv \<Longrightarrow> tor_version_as_new_as s c \<longleftrightarrow> tor_version_compare v cv \<ge> 0"
  shows "protover_compute_for_old_tor (Some s) = (if era v \<in> {0, 4} then '''' else old_list (era v - 1))"
  using assms [OF cutoff_parse(1)] assms [OF cutoff_parse(2)] assms [OF cutoff_parse(3)] assms [OF cutoff_parse(4)]
  by (simp add: protover_compute_for_old_tor_def Let_def era_def old_list_def numeral_2_eq_2)

lemma old_tor_platform:
  assumes "printable_version u" "length (version_text u) < 127" "\<not> ends_word c" "c \<noteq> CHR ''(''"
  shows "protover_compute_for_old_tor (Some (''Tor '' @ version_text u @ '' '' @ c # os)) = (if era u \<in> {0, 4} then '''' else old_list (era u - 1))"
proof (rule old_tor_eq)
  have "tor_version_parse_platform (''Tor '' @ version_text u @ '' '' @ c # os) False = (1, Some u)"
    by (rule parse_platform_text [OF assms(1,2)]) (use assms(3,4) in \<open>auto simp: ends_word_def\<close>)
  then show "tor_version_as_new_as (''Tor '' @ version_text u @ '' '' @ c # os) x \<longleftrightarrow> tor_version_compare u cv \<ge> 0"
    if "tor_version_parse x = Done cv" for x cv using that by (simp only: tor_version_as_new_as_def outcome.case prod.case option.case)
qed

lemma old_tor_not_tor:
  assumes "strcmpstart s ''Tor '' \<noteq> 0"
  shows "protover_compute_for_old_tor (Some s) = ''''"
  using assms by (simp add: protover_compute_for_old_tor_def tor_version_as_new_as_def cutoff_parse(4) tor_version_parse_platform_def)

lemma old_entries_mono:
  assumes "j \<le> k" "k < 3" "lists_version (old_entries j) name i"
  shows "lists_version (old_entries k) name i"
proof -
  have c: "(j, k) \<in> {(0, 0), (0, 1), (0, 2), (1, 1), (1, 2), (2, 2)}" using assms(1,2) by auto
  have "list_all (\<lambda>e. missing_of (old_entries 1) e = 0) (old_entries 0)" "list_all (\<lambda>e. missing_of (old_entries 2) e = 0) (old_entries 0)"
    "list_all (\<lambda>e. missing_of (old_entries 2) e = 0) (old_entries 1)" by code_simp+
  then have m: "j = k \<or> list_all (\<lambda>e. missing_of (old_entries k) e = 0) (old_entries j)" using c by auto
  obtain e where e: "entry_of (old_entries j) name = Some e" "bit (bitmask e) i" using assms(3) by (auto simp: lists_version_def split: option.splits)
  then have "e \<in> set (old_entries j)" "p_name e = name" using entry_of_Some by auto
  then show ?thesis using m assms(3) missing_of_bit [of "old_entries k" e i] e(2) by (auto simp: list_all_iff)
qed

text \<open>C30: protocols of old versions.  For a platform line that names a version, the protocols that \<open>protover_compute_for_old_tor\<close> infers form a list that parses, and a later version
  is never credited with less, as long as anything is inferred for it.  For no version at all, where the comment promises a guess, and
  for every string that does not begin with \<open>Tor\<close>, nothing is inferred.\<close>

theorem old_tor_protocols:
  assumes "printable_version v" "printable_version w" "length (version_text v) < 127" "length (version_text w) < 127"
    "\<not> ends_word c" "c \<noteq> CHR ''(''" "tor_version_compare v w \<le> 0"
    "protover_compute_for_old_tor (Some (''Tor '' @ version_text w @ '' '' @ c # os)) \<noteq> ''''"
  shows "(\<exists>ev ew. parse_protocol_list (protover_compute_for_old_tor (Some (''Tor '' @ version_text v @ '' '' @ c # os))) = Done ev \<and>
      parse_protocol_list (protover_compute_for_old_tor (Some (''Tor '' @ version_text w @ '' '' @ c # os))) = Done ew \<and>
      (\<forall>name i. lists_version ev name i \<longrightarrow> lists_version ew name i)) \<and>
    protover_compute_for_old_tor None = '''' \<and>
    (\<forall>s. strcmpstart s ''Tor '' \<noteq> 0 \<longrightarrow> protover_compute_for_old_tor (Some s) = '''')"
proof -
  note old = old_tor_platform [OF _ _ assms(5,6)]
  have mono: "era v \<le> era w" using era_mono assms(1,2,7) by (simp add: printable_version_def)
  have w: "era w \<notin> {0, 4}" using assms(8) unfolding old [OF assms(2,4)] by (auto split: if_splits)
  then have w3: "0 < era w" "era w < 4" by (auto simp: era_def split: if_splits)
  then have pw: "parse_protocol_list (old_list (era w - 1)) = Done (old_entries (era w - 1))" by (intro parse_old_list) simp
  have "\<exists>ev. parse_protocol_list (if era v \<in> {0, 4} then '''' else old_list (era v - 1)) = Done ev \<and>
      (\<forall>name i. lists_version ev name i \<longrightarrow> lists_version (old_entries (era w - 1)) name i)"
  proof (cases "era v = 0")
    case True
    have "parse_protocol_list '''' = Done []" by (simp add: parse_protocol_list_def protocol_list_loop.simps)
    then show ?thesis using True by (auto simp: lists_version_def entry_of_def)
  next
    case False
    then have "parse_protocol_list (old_list (era v - 1)) = Done (old_entries (era v - 1))" using mono w3 by (intro parse_old_list) simp
    then show ?thesis using False mono w3 old_entries_mono [of "era v - 1" "era w - 1"] by auto
  qed
  moreover have "protover_compute_for_old_tor None = ''''"
    using old_tor_not_tor [of "''0.2.5.15''"] by (simp add: protover_compute_for_old_tor_def strcmpstart_def)
  ultimately show ?thesis using w pw old_tor_not_tor unfolding old [OF assms(1,3)] old [OF assms(2,4)] by auto
qed

lemma parse_small:
  "parse_protocol_list ''A=1'' = Done [entry ''A'' 2]" "parse_protocol_list ''A=1-2'' = Done [entry ''A'' 6]"
proof -
  have "list_all entry_ok [entry ''A'' 2]" "list_all entry_ok [entry ''A'' 6]" by code_simp+
  moreover have "encode_protocol_list [entry ''A'' 2] = Done ''A=1''" "encode_protocol_list [entry ''A'' 6] = Done ''A=1-2''" by code_simp+
  ultimately show "parse_protocol_list ''A=1'' = Done [entry ''A'' 2]" "parse_protocol_list ''A=1-2'' = Done [entry ''A'' 6]"
    using parse_of_encode by blast+
qed


theorem protocol_list_roundtrip_witness:
  "\<exists>t. encode_protocol_list [entry ''A'' 6] = Done t \<and> parse_protocol_list t = Done [entry ''A'' 6]"
proof -
  have "(6 :: u64) \<noteq> - 1" by code_simp
  then show ?thesis using protocol_list_roundtrip [OF parse_small(2)] by simp
qed

theorem supports_spec_witness:
  "\<exists>b. protocol_list_supports_protocol_or_later ''A=1-2'' PRT_LINK 1 = Done b \<and> \<not> b"
proof -
  have "strcasecmp ''A'' (protocol_type_to_str PRT_LINK) \<noteq> 0" by code_simp
  then show ?thesis using supports_spec [OF parse_small(2), of 1 PRT_LINK] by auto
qed

theorem all_supported_spec_witness:
  "\<exists>b m. protover_all_supported True (Some ''A=1'') False = Done (b, m) \<and> \<not> b"
proof -
  have "\<not> lists_version (our_entries True) ''A'' 1" by code_simp
  moreover have "bit (2 :: u64) 1" by code_simp
  moreover obtain b m where "protover_all_supported True (Some ''A=1'') False = Done (b, m)"
    "b \<longleftrightarrow> (\<forall>e \<in> set [entry ''A'' 2]. \<forall>i. bit (bitmask e) i \<longrightarrow> lists_version (our_entries True) (p_name e) i)"
    using conjunct1 [OF all_supported_spec [OF parse_small(1), of True]] by blast
  ultimately show ?thesis by auto
qed

theorem required_is_supported_witness:
  "protover_all_supported False (Some protover_get_required_client_protocols) True = Done (True, None)"
  using required_is_supported [of protover_get_required_client_protocols False True] by simp

theorem summary_cache_transparent_witness:
  "\<exists>out m'. summarize_protover_flags (Some ''A=1'') (Some ''Tor 0.4.7.13'') [] = Done (out, m') \<and> cache_ok m'"
proof -
  have "cache_ok []" by (simp add: cache_ok_def)
  from summary_cache_transparent [OF this, of "Some ''A=1''" "Some ''Tor 0.4.7.13''"] show ?thesis by blast
qed

theorem old_tor_protocols_witness:
  "\<exists>ev ew. parse_protocol_list (protover_compute_for_old_tor (Some ''Tor 0.2.4.19 on Linux'')) = Done ev \<and>
     parse_protocol_list (protover_compute_for_old_tor (Some ''Tor 0.2.7.5 on Linux'')) = Done ew \<and>
     (\<forall>name i. lists_version ev name i \<longrightarrow> lists_version ew name i)"
proof -
  have c: "era (cutoff 1) = 2" "tor_version_compare (cutoff 0) (cutoff 1) \<le> 0" by code_simp+
  have p: "printable_version (cutoff 0)" "printable_version (cutoff 1)" by (simp_all add: cutoff_printable)
  have t: "length (version_text (cutoff 0)) < 127" "length (version_text (cutoff 1)) < 127" unfolding cutoff_text by simp_all
  have o: "\<not> ends_word (CHR ''o'')" "CHR ''o'' \<noteq> CHR ''(''" by (simp_all add: ends_word_def)
  have ne: "protover_compute_for_old_tor (Some (''Tor '' @ version_text (cutoff 1) @ '' '' @ CHR ''o'' # ''n Linux'')) \<noteq> ''''"
    unfolding old_tor_platform [OF p(2) t(2) o] c(1) by (simp add: old_list_def)
  from old_tor_protocols [OF p t o c(2) ne] show ?thesis unfolding cutoff_text by simp
qed

end
