(* ===== verification/Scanf.thy ===== *)
theory Scanf
  imports C_Strings
begin

text \<open>
  The minimal \<open>sscanf\<close> of \<open>lib/string/scanf.c\<close>: an interpreter of a restricted pattern
  language.  The text is read from the front; what a directive stores through the pointers of
  the argument list is collected in a list, in the order it is stored.  A double is left as
  the sign and the two digit strings it is computed from.
\<close>

section \<open>Definitions\<close>

abbreviation MAX_SCANF_WIDTH :: int where "MAX_SCANF_WIDTH \<equiv> 9999"
abbreviation ULONG_MAX :: nat where "ULONG_MAX \<equiv> 18446744073709551615"
abbreviation UINT_MAX :: nat where "UINT_MAX \<equiv> 4294967295"

definition digit_to_num :: "char \<Rightarrow> nat" where
  "digit_to_num d = of_char d - 48"

definition scan_isdigit :: "nat \<Rightarrow> char \<Rightarrow> bool" where
  "scan_isdigit base c = (if base = 16 then TOR_ISXDIGIT c else TOR_ISDIGIT c)"

definition scan_digit :: "nat \<Rightarrow> char \<Rightarrow> nat" where
  "scan_digit base c = (if base = 16 then nat (hex_decode_digit c) else digit_to_num c)"

text \<open>The loop of \<open>scan_unsigned\<close>, with the value and the number of digits so far; \<open>None\<close> when the
  next digit would overflow.\<close>

fun scan_unsigned_loop :: "string \<Rightarrow> nat \<Rightarrow> nat \<Rightarrow> nat \<Rightarrow> nat \<Rightarrow> (string \<times> nat \<times> nat) option" where
  "scan_unsigned_loop [] result n width base = Some ([], result, n)"
| "scan_unsigned_loop (c # cs) result n width base =
     (if scan_isdigit base c \<and> n < width
      then let digit = scan_digit base c
           in if result > (ULONG_MAX - digit) div base then None
              else scan_unsigned_loop cs (result * base + digit) (Suc n) width base
      else Some (c # cs, result, n))"

definition effective_width :: "int \<Rightarrow> int" where
  "effective_width width = (if width < 0 then MAX_SCANF_WIDTH else width)"

definition scan_unsigned :: "string \<Rightarrow> int \<Rightarrow> nat \<Rightarrow> (nat \<times> string) option" where
  "scan_unsigned buf width base =
     (case scan_unsigned_loop buf 0 0 (nat (effective_width width)) base of
        None \<Rightarrow> None
      | Some (rest, result, scanned) \<Rightarrow> if scanned = 0 then None else Some (result, rest))"

definition scan_signed :: "string \<Rightarrow> int \<Rightarrow> (int \<times> string) option" where
  "scan_signed buf width =
     (let width = effective_width width;
          neg = (case buf of c # _ \<Rightarrow> c = CHR ''-'' | [] \<Rightarrow> False);
          (buf, width) = (if neg then (tl buf, width - 1) else (buf, width))
      in case scan_unsigned buf width 10 of
           None \<Rightarrow> None
         | Some (result, rest) \<Rightarrow>
             if neg \<and> result > 0
             then (if int result > INT64_MAX + 1 then None else Some (- int result, rest))
             else (if int result > INT64_MAX then None else Some (int result, rest)))"

text \<open>What the directives store.\<close>

datatype scan_value =
    V_unsigned nat
  | V_signed int
  | V_double bool string string
  | V_string string
  | V_char char

text \<open>A run of at most \<open>w\<close> characters that satisfy a predicate.\<close>

definition scan_run :: "(char \<Rightarrow> bool) \<Rightarrow> nat \<Rightarrow> string \<Rightarrow> string \<times> string" where
  "scan_run P w buf = (let run = takeWhile P (take w buf) in (run, drop (length run) buf))"

definition scan_double :: "string \<Rightarrow> int \<Rightarrow> (scan_value \<times> string) option" where
  "scan_double buf width =
     (let w = nat (effective_width width);
          neg = (case buf of c # _ \<Rightarrow> c = CHR ''-'' | [] \<Rightarrow> False);
          buf = (if neg then tl buf else buf);
          (whole, buf) = scan_run TOR_ISDIGIT w buf;
          dot = (case buf of c # _ \<Rightarrow> c = CHR ''.'' | [] \<Rightarrow> False);
          (frac, buf) = (if dot then scan_run TOR_ISDIGIT (w - (length whole + 1)) (tl buf) else ([], buf))
      in if whole = [] \<and> \<not> dot then None else Some (V_double neg whole frac, buf))"

definition scan_string :: "string \<Rightarrow> int \<Rightarrow> (string \<times> string) option" where
  "scan_string buf width =
     (if width < 0 then None else Some (scan_run (\<lambda>c. \<not> TOR_ISSPACE c) (nat width) buf))"

text \<open>The width of a directive: \<open>-1\<close> if there is none, and the rest of the pattern; \<open>None\<close> when it
  is zero or too large.\<close>

fun scan_width_loop :: "int \<Rightarrow> string \<Rightarrow> (int \<times> string) option" where
  "scan_width_loop width [] = Some (width, [])"
| "scan_width_loop width (c # cs) =
     (if TOR_ISDIGIT c
      then let width = width * 10 + int (digit_to_num c)
           in if width > MAX_SCANF_WIDTH then None else scan_width_loop width cs
      else Some (width, c # cs))"

definition scan_width :: "string \<Rightarrow> (int \<times> string) option" where
  "scan_width pattern =
     (case pattern of
        [] \<Rightarrow> Some (- 1, [])
      | c # cs \<Rightarrow>
          if TOR_ISDIGIT c
          then case scan_width_loop (int (digit_to_num c)) cs of
                 None \<Rightarrow> None
               | Some (width, rest) \<Rightarrow> if width = 0 then None else Some (width, rest)
          else Some (- 1, c # cs))"

text \<open>What a directive does: the pattern is malformed, the text does not match, or it goes on after
  the text it consumed, perhaps with a value stored.\<close>

datatype directive = Bad_pattern | No_match | Matched "scan_value option" string

definition scan_directive :: "char \<Rightarrow> bool \<Rightarrow> int \<Rightarrow> string \<Rightarrow> directive" where
  "scan_directive d longmod width buf =
     (if d = CHR ''u'' \<or> d = CHR ''x'' then
        (if buf = [] then No_match
         else case scan_unsigned buf width (if d = CHR ''u'' then 10 else 16) of
                None \<Rightarrow> No_match
              | Some (u, rest) \<Rightarrow> if \<not> longmod \<and> u > UINT_MAX then No_match else Matched (Some (V_unsigned u)) rest)
      else if d = CHR ''f'' then
        (if \<not> longmod then Bad_pattern
         else if buf = [] then No_match
         else case scan_double buf width of None \<Rightarrow> No_match | Some (v, rest) \<Rightarrow> Matched (Some v) rest)
      else if d = CHR ''d'' then
        (case scan_signed buf width of
           None \<Rightarrow> No_match
         | Some (lng, rest) \<Rightarrow>
             if \<not> longmod \<and> (lng < - INT32_MAX - 1 \<or> lng > INT32_MAX) then No_match
             else Matched (Some (V_signed lng)) rest)
      else if d = CHR ''s'' then
        (if longmod then Bad_pattern
         else if width < 0 then Bad_pattern
         else case scan_string buf width of None \<Rightarrow> No_match | Some (s, rest) \<Rightarrow> Matched (Some (V_string s)) rest)
      else if d = CHR ''c'' then
        (if longmod then Bad_pattern
         else if width \<noteq> - 1 then Bad_pattern
         else case buf of [] \<Rightarrow> No_match | c # rest \<Rightarrow> Matched (Some (V_char c)) rest)
      else if d = CHR 0x25 then
        (if (case buf of c # _ \<Rightarrow> c \<noteq> CHR 0x25 | [] \<Rightarrow> True) then No_match
         else if longmod then Bad_pattern
         else Matched None (tl buf))
      else Bad_pattern)"

lemma scan_width_loop_length: "scan_width_loop w p = Some (w', p') \<Longrightarrow> length p' \<le> length p"
  by (induction w p rule: scan_width_loop.induct) (auto simp: Let_def split: if_splits)

lemma scan_width_length: "scan_width p = Some (w', p') \<Longrightarrow> length p' \<le> length p"
  by (fastforce simp: scan_width_def split: list.splits if_splits option.splits dest: scan_width_loop_length)

function tor_vsscanf :: "string \<Rightarrow> string \<Rightarrow> int \<Rightarrow> scan_value list \<Rightarrow> int \<times> scan_value list" where
  "tor_vsscanf buf pattern n_matched stored =
     (case pattern of
        [] \<Rightarrow> (n_matched, stored)
      | p # ps \<Rightarrow>
          if p \<noteq> CHR 0x25
          then (case buf of
                  [] \<Rightarrow> (n_matched, stored)
                | b # bs \<Rightarrow> if b = p then tor_vsscanf bs ps n_matched stored else (n_matched, stored))
          else case scan_width ps of
                 None \<Rightarrow> (- 1, stored)
               | Some (width, ps) \<Rightarrow>
                   let longmod = (case ps of c # _ \<Rightarrow> c = CHR ''l'' | [] \<Rightarrow> False);
                       ps' = (if longmod then tl ps else ps)
                   in case ps' of
                        [] \<Rightarrow> (- 1, stored)
                      | d # ds \<Rightarrow>
                          (case scan_directive d longmod width buf of
                             Bad_pattern \<Rightarrow> (- 1, stored)
                           | No_match \<Rightarrow> (n_matched, stored)
                           | Matched None rest \<Rightarrow> tor_vsscanf rest ds n_matched stored
                           | Matched (Some v) rest \<Rightarrow> tor_vsscanf rest ds (n_matched + 1) (stored @ [v])))"
  by pat_completeness auto
termination
  by (relation "measure (\<lambda>(buf, pattern, n, st). length pattern)")
    (auto dest!: scan_width_length split: list.splits if_splits)

declare tor_vsscanf.simps [simp del]

definition tor_sscanf :: "string \<Rightarrow> string \<Rightarrow> int \<times> scan_value list" where
  "tor_sscanf buf pattern = tor_vsscanf buf pattern 0 []"

end
