(* ===== verification/Addresses.thy ===== *)
theory Addresses
  imports Scanf Smartlist_Split Di_Ops
begin

text \<open>
  Network addresses: the text of IPv4 and IPv6 addresses of \<open>lib/net/inaddr.c\<close> and the
  operations on \<open>tor_addr_t\<close> of \<open>lib/net/address.c\<close> that do not call the operating system.

  A \<open>tor_addr_t\<close> is a tagged union of the address families.  The IPv4 member is the number in
  host order (the conversions \<open>htonl\<close> and \<open>ntohl\<close> around every use cancel); the IPv6 member is its
  sixteen bytes.  Of an \<open>AF_UNIX\<close> address the code only ever compares where it is stored, so
  that place is all it holds.  A parser that answers 0 or \<open>-1\<close> for text it refuses answers
  \<open>Minus_1\<close> here, and \<open>Assertion_failed\<close> stands for a failed assertion.
\<close>

section \<open>Definitions\<close>

subsection \<open>Text of the addresses (\<open>inaddr.c\<close>)\<close>

text \<open>The format \<open>%x\<close>; \<open>%d\<close> of a byte is \<open>dec_digits\<close>.\<close>

fun hex_digits :: "nat \<Rightarrow> string" where
  "hex_digits n = (if n < 16 then [''0123456789abcdef'' ! n]
                   else hex_digits (n div 16) @ [''0123456789abcdef'' ! (n mod 16)])"

declare hex_digits.simps [simp del]

text \<open>\<open>tor_snprintf\<close> into a buffer of \<open>buf_size\<close> bytes: \<open>None\<close> when the text and its NUL do not fit.\<close>

definition tor_snprintf :: "nat \<Rightarrow> string \<Rightarrow> string option" where
  "tor_snprintf buf_size text = (if buf_size \<le> length text then None else Some text)"

definition dotted_quad :: "nat \<Rightarrow> nat \<Rightarrow> nat \<Rightarrow> nat \<Rightarrow> string" where
  "dotted_quad a b c d = dec_digits a @ ''.'' @ dec_digits b @ ''.'' @ dec_digits c @ ''.'' @ dec_digits d"

definition is_octal :: "string \<Rightarrow> bool" where
  "is_octal octet = (case octet of c # _ # _ \<Rightarrow> c = CHR ''0'' | _ \<Rightarrow> False)"

definition quad_pattern :: string where
  "quad_pattern = ''%3u.%3u.%3u.%3u%c''"

definition tor_inet_aton :: "string \<Rightarrow> u32 outcome" where
  "tor_inet_aton str =
     (case tor_sscanf str quad_pattern of (n, values) \<Rightarrow>
        if n \<noteq> 4 then Minus_1
        else case smartlist_split_string [] str (Some ''.'') no_flags 0 of
               None \<Rightarrow> Assertion_failed
             | Some (sl, _) \<Rightarrow>
                 if list_ex is_octal sl then Minus_1
                 else case values of
                        [V_unsigned a, V_unsigned b, V_unsigned c, V_unsigned d] \<Rightarrow>
                          if a > 255 then Minus_1
                          else if b > 255 then Minus_1
                          else if c > 255 then Minus_1
                          else if d > 255 then Minus_1
                          else Done (push_bit 24 (of_nat a) OR push_bit 16 (of_nat b) OR push_bit 8 (of_nat c) OR of_nat d)
                      | _ \<Rightarrow> Assertion_failed)"

definition quad_text :: "u32 \<Rightarrow> string" where
  "quad_text a = dotted_quad (unat (drop_bit 24 a AND 0xff)) (unat (drop_bit 16 a AND 0xff))
                             (unat (drop_bit 8 a AND 0xff)) (unat (a AND 0xff))"

definition tor_inet_ntoa :: "u32 \<Rightarrow> nat \<Rightarrow> string option" where
  "tor_inet_ntoa a buf_len = tor_snprintf buf_len (quad_text a)"

definition in6_word :: "bytes \<Rightarrow> nat \<Rightarrow> u16" where
  "in6_word s6 i = push_bit 8 (ucast (s6 ! (2 * i))) + ucast (s6 ! (2 * i + 1))"

definition in6_words :: "bytes \<Rightarrow> u16 list" where
  "in6_words s6 = map (in6_word s6) [0..<8]"

text \<open>The index after a run of zero words.\<close>

function skip_zeros :: "u16 list \<Rightarrow> nat \<Rightarrow> nat" where
  "skip_zeros words i = (if i < 8 \<and> words ! i = 0 then skip_zeros words (Suc i) else i)"
  by pat_completeness auto
termination by (relation "measure (\<lambda>(words, i). 8 - i)") auto

declare skip_zeros.simps [simp del]

lemma skip_zeros_le: "i \<le> skip_zeros words i"
  by (induction words i rule: skip_zeros.induct) (subst skip_zeros.simps, auto)

lemma skip_zeros_less: "i < 8 \<Longrightarrow> words ! i = 0 \<Longrightarrow> i < skip_zeros words i"
  using skip_zeros_le [of "Suc i" words] by (subst skip_zeros.simps) simp

text \<open>The longest run of zero words: its position and length.\<close>

function longest_gap :: "u16 list \<Rightarrow> nat \<Rightarrow> int \<Rightarrow> nat \<Rightarrow> int \<times> nat" where
  "longest_gap words i longestGapPos longestGapLen =
     (if i < 8
      then if words ! i = 0
           then let j = skip_zeros words i; curGapLen = j - i
                in if curGapLen > longestGapLen
                   then longest_gap words j (int i) curGapLen
                   else longest_gap words j longestGapPos longestGapLen
           else longest_gap words (Suc i) longestGapPos longestGapLen
      else (longestGapPos, longestGapLen))"
  by pat_completeness auto
termination
  by (relation "measure (\<lambda>(words, i, p, l). 8 - i)") (auto dest: skip_zeros_less intro: diff_less_mono2)

declare longest_gap.simps [simp del]

function print_words :: "u16 list \<Rightarrow> nat \<Rightarrow> int \<Rightarrow> string" where
  "print_words words i longestGapPos =
     (if i < 8
      then if words ! i = 0 \<and> longestGapPos = int i
           then (if i = 0 then '':'' else []) @ '':'' @ print_words words (skip_zeros words i) longestGapPos
           else hex_digits (unat (words ! i)) @ (if i \<noteq> 7 then '':'' else []) @ print_words words (Suc i) longestGapPos
      else [])"
  by pat_completeness auto
termination
  by (relation "measure (\<lambda>(words, i, p). 8 - i)") (auto dest: skip_zeros_less intro: diff_less_mono2)

declare print_words.simps [simp del]

text \<open>The text \<open>tor_inet_ntop\<close> builds in its own buffer of 64 bytes.\<close>

definition in6_text :: "bytes \<Rightarrow> string" where
  "in6_text s6 =
     (let words = in6_words s6;
          quad = dotted_quad (unat (s6 ! 12)) (unat (s6 ! 13)) (unat (s6 ! 14)) (unat (s6 ! 15))
      in if words ! 0 = 0 \<and> words ! 1 = 0 \<and> words ! 2 = 0 \<and> words ! 3 = 0 \<and> words ! 4 = 0 \<and>
            (words ! 5 = 0 \<and> words ! 6 \<noteq> 0 \<and> words ! 7 \<noteq> 0 \<or> words ! 5 = 0xffff)
         then if words ! 5 = 0 then ''::'' @ quad
              else ''::'' @ hex_digits (unat (words ! 5)) @ '':'' @ quad
         else let (pos, len) = longest_gap words 0 (- 1) 0
              in print_words words 0 (if len \<le> 1 then - 1 else pos))"

definition tor_inet_ntop_in6 :: "bytes \<Rightarrow> nat \<Rightarrow> string option" where
  "tor_inet_ntop_in6 s6 len = (if length (in6_text s6) + 1 > len then None else Some (in6_text s6))"

text \<open>Where the words end in a text with a dot at \<open>k + 1\<close>.\<close>

fun eow_back :: "string \<Rightarrow> nat \<Rightarrow> nat" where
  "eow_back src 0 = 0"
| "eow_back src (Suc k) = (if TOR_ISDIGIT (src ! Suc k) then eow_back src k else Suc k)"

text \<open>The state of the loop over the words: the text left, the index of the next word, the eight
  words, how many are set, and the position of the gap.\<close>

record pton_state =
  p_src :: string
  p_i :: nat
  p_words :: "u16 list"
  p_setWords :: nat
  p_gapPos :: int

definition pton_hex_ok :: "string \<Rightarrow> nat \<Rightarrow> string \<Rightarrow> bool" where
  "pton_hex_ok src eow_len next =
     (let len = (if next = [] then int (length src) - int eow_len else int (length src) - int (length next))
      in \<not> len > 4 \<and> \<not> (len > 1 \<and> \<not> (case src of _ # c # _ \<Rightarrow> TOR_ISXDIGIT c | _ \<Rightarrow> False)))"

lemma strto_scan_rest: "strto_scan s base = Some (neg, m, rest) \<Longrightarrow> length rest < length s"
proof -
  assume a: "strto_scan s base = Some (neg, m, rest)"
  let ?s1 = "dropWhile c_isspace s"
  obtain n s2 where s2: "split_sign ?s1 = (n, s2)" by force
  obtain b s3 where s3: "split_base base s2 = (b, s3)" by force
  have r: "rest = drop (length (takeWhile (is_digit_of b) s3)) s3" "takeWhile (is_digit_of b) s3 \<noteq> []"
    using a by (auto simp: strto_scan_def s2 s3 Let_def split: if_splits)
  have "length s2 \<le> length s" using s2 length_dropWhile_le [of c_isspace s]
    by (cases ?s1) (auto simp: length_dropWhile_le split: if_splits)
  moreover have "length s3 \<le> length s2" using s3 by (auto simp: split_base_def split: if_splits)
  moreover have "length rest < length s3"
    using r by (cases s3) (simp_all only: length_drop, auto)
  ultimately show ?thesis by simp
qed

lemma strtol_endptr: "endptr (strtol s base) = Some next \<Longrightarrow> length next < length s"
  by (auto simp: strtol_def Let_def dest: strto_scan_rest split: option.splits if_splits)

function pton_loop :: "nat \<Rightarrow> pton_state \<Rightarrow> pton_state outcome" where
  "pton_loop eow_len s =
     (if length (p_src s) > eow_len
      then if p_i s > 7 then Minus_1
           else case p_src s of [] \<Rightarrow> Minus_1 | c # cs \<Rightarrow>
             if TOR_ISXDIGIT c then
               let x = strtol (p_src s) 16
               in case endptr x of None \<Rightarrow> Minus_1 | Some next \<Rightarrow>
                    if \<not> pton_hex_ok (p_src s) eow_len next then Minus_1
                    else if \<not> (0 \<le> strtox_r x \<and> strtox_r x < 65536) then Assertion_failed
                    else if take 1 next \<noteq> '':'' \<and> length next \<noteq> eow_len then Minus_1
                    else pton_loop eow_len
                           (s\<lparr>p_src := drop 1 next, p_i := p_i s + 1,
                              p_words := (p_words s)[p_i s := word_of_int (strtox_r x)],
                              p_setWords := p_setWords s + 1\<rparr>)
             else if c = CHR '':'' \<and> p_i s > 0 \<and> p_gapPos s = - 1 then
               pton_loop eow_len (s\<lparr>p_src := cs, p_gapPos := int (p_i s)\<rparr>)
             else if c = CHR '':'' \<and> p_i s = 0 \<and> length cs > eow_len \<and> take 1 cs = '':'' \<and> p_gapPos s = - 1 then
               pton_loop eow_len (s\<lparr>p_src := drop 1 cs, p_gapPos := int (p_i s)\<rparr>)
             else Minus_1
      else Done s)"
  by pat_completeness auto
termination by (relation "measure (\<lambda>(e, s). length (p_src s))") (auto dest: strtol_endptr)

declare pton_loop.simps [simp del]

text \<open>\<open>memmove\<close> and \<open>memset\<close> on the words.\<close>

definition move_words :: "u16 list \<Rightarrow> nat \<Rightarrow> nat \<Rightarrow> nat \<Rightarrow> u16 list" where
  "move_words ws to from n = take to ws @ take n (drop from ws) @ drop (to + n) ws"

definition zero_words :: "u16 list \<Rightarrow> nat \<Rightarrow> nat \<Rightarrow> u16 list" where
  "zero_words ws from n = take from ws @ replicate n 0 @ drop (from + n) ws"

definition words_bytes :: "u16 list \<Rightarrow> bytes" where
  "words_bytes ws = concat (map (\<lambda>w. [ucast (drop_bit 8 w), ucast (w AND 0xff)]) ws)"

definition pton_finish :: "bool \<Rightarrow> pton_state \<Rightarrow> bytes outcome" where
  "pton_finish dot s =
     (let setWords = p_setWords s; gapPos = p_gapPos s; words = p_words s
      in if setWords > 8 \<or> (setWords = 8 \<and> gapPos \<noteq> - 1) \<or> (setWords < 8 \<and> gapPos = - 1) then Minus_1
         else if gapPos \<ge> 0
         then let nToMove = int setWords - (if dot then 2 else 0) - gapPos;
                  gapLen = 8 - setWords
              in if \<not> nToMove \<ge> 0 then Assertion_failed
                 else Done (words_bytes
                        (zero_words (move_words words (nat gapPos + gapLen) (nat gapPos) (nat nToMove))
                           (nat gapPos) gapLen))
         else Done (words_bytes words))"

definition pton_words :: "bool \<Rightarrow> string \<Rightarrow> nat \<Rightarrow> u16 list \<Rightarrow> nat \<Rightarrow> bytes outcome" where
  "pton_words dot src eow_len words setWords =
     and_then (pton_loop eow_len \<lparr>p_src = src, p_i = 0, p_words = words, p_setWords = setWords, p_gapPos = - 1\<rparr>)
       (pton_finish dot)"

definition tor_inet_pton_in6 :: "string \<Rightarrow> bytes outcome" where
  "tor_inet_pton_in6 src =
     (let len = length src
      in if len > 2 \<and> src ! (len - 1) = CHR '':'' \<and> src ! (len - 2) \<noteq> CHR '':'' then Minus_1
         else let words = replicate 8 0xf8f8
              in case memchr src (CHR ''.'') of
                   None \<Rightarrow> pton_words False src 0 words 0
                 | Some 0 \<Rightarrow> Minus_1
                 | Some (Suc k) \<Rightarrow>
                     let eow = eow_back src k
                     in if src ! eow \<noteq> CHR '':'' then Minus_1
                        else let eow = drop (Suc eow) src
                             in case tor_sscanf eow quad_pattern of (n, values) \<Rightarrow>
                                  if n \<noteq> 4 then Minus_1
                                  else case values of
                                    [V_unsigned byte1, V_unsigned byte2, V_unsigned byte3, V_unsigned byte4] \<Rightarrow>
                                      if byte1 > 255 \<or> byte2 > 255 \<or> byte3 > 255 \<or> byte4 > 255 then Minus_1
                                      else pton_words True src (length eow)
                                             (words[6 := push_bit 8 (of_nat byte1) OR of_nat byte2,
                                                    7 := push_bit 8 (of_nat byte3) OR of_nat byte4]) 2
                                  | _ \<Rightarrow> Assertion_failed)"

subsection \<open>The address type\<close>

datatype sa_family_t = AF_UNSPEC | AF_UNIX | AF_INET | AF_INET6

text \<open>The numbers the constants have on Linux.\<close>

fun family_number :: "sa_family_t \<Rightarrow> nat" where
  "family_number AF_UNSPEC = 0"
| "family_number AF_UNIX = 1"
| "family_number AF_INET = 2"
| "family_number AF_INET6 = 10"

datatype tor_addr_t = Addr_unspec | Addr_unix nat | Addr_ipv4 u32 | Addr_ipv6 bytes

fun tor_addr_family :: "tor_addr_t \<Rightarrow> sa_family_t" where
  "tor_addr_family Addr_unspec = AF_UNSPEC"
| "tor_addr_family (Addr_unix _) = AF_UNIX"
| "tor_addr_family (Addr_ipv4 _) = AF_INET"
| "tor_addr_family (Addr_ipv6 _) = AF_INET6"

text \<open>An IPv6 address has sixteen bytes.\<close>

fun addr_ok :: "tor_addr_t \<Rightarrow> bool" where
  "addr_ok (Addr_ipv6 b) = (length b = 16)"
| "addr_ok _ = True"

text \<open>The member of the union for text of the family.\<close>

definition tor_inet_pton :: "sa_family_t \<Rightarrow> string \<Rightarrow> tor_addr_t outcome" where
  "tor_inet_pton af src =
     (if af = AF_INET then and_then (tor_inet_aton src) (\<lambda>a. Done (Addr_ipv4 a))
      else if af = AF_INET6 then and_then (tor_inet_pton_in6 src) (\<lambda>b. Done (Addr_ipv6 b))
      else Minus_1)"

fun tor_inet_ntop :: "tor_addr_t \<Rightarrow> nat \<Rightarrow> string option" where
  "tor_inet_ntop (Addr_ipv4 a) len = tor_inet_ntoa a len"
| "tor_inet_ntop (Addr_ipv6 b) len = tor_inet_ntop_in6 b len"
| "tor_inet_ntop _ len = None"

fun tor_addr_to_ipv4h :: "tor_addr_t \<Rightarrow> u32" where
  "tor_addr_to_ipv4h (Addr_ipv4 a) = a"
| "tor_addr_to_ipv4h _ = 0"

text \<open>The 32-bit word \<open>k\<close> of an IPv6 address in host order.\<close>

definition in6_addr32 :: "bytes \<Rightarrow> nat \<Rightarrow> u32" where
  "in6_addr32 b k = push_bit 24 (ucast (b ! (4 * k))) OR push_bit 16 (ucast (b ! (4 * k + 1)))
                    OR push_bit 8 (ucast (b ! (4 * k + 2))) OR ucast (b ! (4 * k + 3))"

fun tor_addr_to_mapped_ipv4h :: "tor_addr_t \<Rightarrow> u32" where
  "tor_addr_to_mapped_ipv4h (Addr_ipv6 b) = in6_addr32 b 3"
| "tor_addr_to_mapped_ipv4h _ = 0"

definition tor_addr_is_unspec :: "tor_addr_t \<Rightarrow> bool" where
  "tor_addr_is_unspec a = (tor_addr_family a = AF_UNSPEC)"

definition tor_addr_eq_ipv4h :: "tor_addr_t \<Rightarrow> u32 \<Rightarrow> bool" where
  "tor_addr_eq_ipv4h a u = (if tor_addr_family a = AF_INET then tor_addr_to_ipv4h a = u else False)"

text \<open>\<open>tor_addr_make_null\<close>: the whole structure is cleared, then the family is set.\<close>

fun tor_addr_make_null :: "sa_family_t \<Rightarrow> tor_addr_t" where
  "tor_addr_make_null AF_UNSPEC = Addr_unspec"
| "tor_addr_make_null AF_UNIX = Addr_unix 0"
| "tor_addr_make_null AF_INET = Addr_ipv4 0"
| "tor_addr_make_null AF_INET6 = Addr_ipv6 (replicate 16 0)"

fun tor_addr_is_v4 :: "tor_addr_t \<Rightarrow> bool" where
  "tor_addr_is_v4 (Addr_ipv4 _) = True"
| "tor_addr_is_v4 (Addr_ipv6 b) = (in6_addr32 b 0 = 0 \<and> in6_addr32 b 1 = 0 \<and> in6_addr32 b 2 = 0x0000ffff)"
| "tor_addr_is_v4 _ = False"

definition tor_addr_is_v6 :: "tor_addr_t \<Rightarrow> bool" where
  "tor_addr_is_v6 a = (tor_addr_family a = AF_INET6)"

fun tor_addr_is_null :: "tor_addr_t \<Rightarrow> bool" where
  "tor_addr_is_null (Addr_ipv6 b) =
     (in6_addr32 b 0 = 0 \<and> in6_addr32 b 1 = 0 \<and> in6_addr32 b 2 = 0 \<and> in6_addr32 b 3 = 0)"
| "tor_addr_is_null (Addr_ipv4 a) = (a = 0)"
| "tor_addr_is_null (Addr_unix _) = True"
| "tor_addr_is_null Addr_unspec = True"

text \<open>For an \<open>AF_UNIX\<close> address the function only reports a bug and returns 0.\<close>

fun tor_addr_is_loopback :: "tor_addr_t \<Rightarrow> bool" where
  "tor_addr_is_loopback (Addr_ipv6 b) =
     (in6_addr32 b 0 = 0 \<and> in6_addr32 b 1 = 0 \<and> in6_addr32 b 2 = 0 \<and> in6_addr32 b 3 = 1)"
| "tor_addr_is_loopback (Addr_ipv4 a) = (a AND 0xff000000 = 0x7f000000)"
| "tor_addr_is_loopback _ = False"

fun tor_addr_is_valid :: "tor_addr_t option \<Rightarrow> bool \<Rightarrow> bool" where
  "tor_addr_is_valid None for_listening = False"
| "tor_addr_is_valid (Some addr) for_listening =
     (if for_listening \<and> (tor_addr_family addr = AF_INET \<or> tor_addr_family addr = AF_INET6) then True
      else \<not> tor_addr_is_null addr)"

definition tor_addr_is_valid_ipv4n :: "u32 \<Rightarrow> bool \<Rightarrow> bool" where
  "tor_addr_is_valid_ipv4n v4n_addr for_listening = (if for_listening then True else v4n_addr \<noteq> 0)"

definition tor_port_is_valid :: "u16 \<Rightarrow> bool \<Rightarrow> bool" where
  "tor_port_is_valid port for_listening = (if for_listening then True else port \<noteq> 0)"

definition ipv4_is_internal :: "u32 \<Rightarrow> bool \<Rightarrow> bool" where
  "ipv4_is_internal iph4 for_listening =
     (if for_listening \<and> (iph4 = 0 \<or> iph4 AND 0xffc00000 = 0x64400000) then False
      else iph4 AND 0xff000000 = 0x0a000000 \<or>
           iph4 AND 0xff000000 = 0x00000000 \<or>
           iph4 AND 0xff000000 = 0x7f000000 \<or>
           iph4 AND 0xffc00000 = 0x64400000 \<or>
           iph4 AND 0xffff0000 = 0xa9fe0000 \<or>
           iph4 AND 0xfff00000 = 0xac100000 \<or>
           iph4 AND 0xffff0000 = 0xc0a80000)"

definition ipv6_is_internal :: "bytes \<Rightarrow> bool \<Rightarrow> bool" where
  "ipv6_is_internal b for_listening =
     (let i0 = in6_addr32 b 0; i1 = in6_addr32 b 1; i2 = in6_addr32 b 2; i3 = in6_addr32 b 3
      in if for_listening \<and> i0 = 0 \<and> i1 = 0 \<and> i2 = 0 \<and> i3 = 0 then False
         else if i0 AND 0xfe000000 = 0xfc000000 \<or> i0 AND 0xffc00000 = 0xfe800000 \<or> i0 AND 0xffc00000 = 0xfec00000
         then True
         else i0 = 0 \<and> i1 = 0 \<and> i2 = 0 \<and> i3 AND 0xfffffffe = 0)"

fun tor_addr_is_internal :: "tor_addr_t \<Rightarrow> bool \<Rightarrow> bool" where
  "tor_addr_is_internal (Addr_ipv4 a) for_listening = ipv4_is_internal a for_listening"
| "tor_addr_is_internal (Addr_ipv6 b) for_listening =
     (if tor_addr_is_v4 (Addr_ipv6 b) then ipv4_is_internal (in6_addr32 b 3) for_listening
      else ipv6_is_internal b for_listening)"
| "tor_addr_is_internal _ for_listening = True"

fun tor_addr_is_multicast :: "tor_addr_t \<Rightarrow> bool" where
  "tor_addr_is_multicast (Addr_ipv4 a) = (drop_bit 24 a = 0xe0)"
| "tor_addr_is_multicast (Addr_ipv6 b) = (b ! 0 = 0xff)"
| "tor_addr_is_multicast _ = False"

subsection \<open>Comparison\<close>

datatype tor_addr_comparison_t = CMP_EXACT | CMP_SEMANTIC

definition TRISTATE :: "'a::linorder \<Rightarrow> 'a \<Rightarrow> int" where
  "TRISTATE a b = (if a < b then - 1 else if a = b then 0 else 1)"

definition compare_ipv4_masked :: "u32 \<Rightarrow> u32 \<Rightarrow> nat \<Rightarrow> int" where
  "compare_ipv4_masked a1 a2 mbits =
     (if mbits \<le> 0 then 0
      else let mbits = (if mbits > 32 then 32 else mbits)
           in TRISTATE (drop_bit (32 - mbits) a1) (drop_bit (32 - mbits) a2))"

definition compare_ipv6_masked :: "bytes \<Rightarrow> bytes \<Rightarrow> nat \<Rightarrow> int" where
  "compare_ipv6_masked a1 a2 mbits =
     (let mbits = (if mbits > 128 then 128 else mbits);
          nbytes = mbits div 8;
          leftover_bits = mbits mod 8;
          r = tor_memcmp a1 a2 nbytes
      in if nbytes \<noteq> 0 \<and> r \<noteq> 0 then r
         else if leftover_bits \<noteq> 0
         then TRISTATE (drop_bit (8 - leftover_bits) (a1 ! nbytes)) (drop_bit (8 - leftover_bits) (a2 ! nbytes))
         else 0)"

definition tor_addr_compare_masked :: "tor_addr_t \<Rightarrow> tor_addr_t \<Rightarrow> nat \<Rightarrow> tor_addr_comparison_t \<Rightarrow> int" where
  "tor_addr_compare_masked addr1 addr2 mbits how =
     (let family1 = tor_addr_family addr1; family2 = tor_addr_family addr2
      in if family1 = family2
         then case (addr1, addr2) of
                (Addr_ipv4 a1, Addr_ipv4 a2) \<Rightarrow> compare_ipv4_masked a1 a2 mbits
              | (Addr_ipv6 b1, Addr_ipv6 b2) \<Rightarrow> compare_ipv6_masked b1 b2 mbits
              | (Addr_unix p1, Addr_unix p2) \<Rightarrow> TRISTATE p1 p2
              | _ \<Rightarrow> 0
         else if how = CMP_EXACT then TRISTATE (family_number family1) (family_number family2)
         else if mbits = 0 then 0
         else let v_family1 = (if family1 = AF_INET6 \<and> tor_addr_is_v4 addr1 then AF_INET else family1);
                  v_family2 = (if family2 = AF_INET6 \<and> tor_addr_is_v4 addr2 then AF_INET else family2)
              in if v_family1 = v_family2
                 then if family1 = AF_INET6 \<and> mbits \<le> 96 then 0
                      else let a1 = (if family1 = AF_INET6 then tor_addr_to_mapped_ipv4h addr1 else tor_addr_to_ipv4h addr1);
                               mbits = (if family1 = AF_INET6 then mbits - 96 else mbits);
                               a2 = (if family2 = AF_INET6 then tor_addr_to_mapped_ipv4h addr2 else tor_addr_to_ipv4h addr2);
                               mbits = (if mbits > 32 then 32 else mbits)
                           in TRISTATE (drop_bit (32 - mbits) a1) (drop_bit (32 - mbits) a2)
                 else TRISTATE (family_number family1) (family_number family2))"

definition tor_addr_compare :: "tor_addr_t \<Rightarrow> tor_addr_t \<Rightarrow> tor_addr_comparison_t \<Rightarrow> int" where
  "tor_addr_compare addr1 addr2 how = tor_addr_compare_masked addr1 addr2 128 how"

definition tor_addr_eq :: "tor_addr_t \<Rightarrow> tor_addr_t \<Rightarrow> bool" where
  "tor_addr_eq a b = (0 = tor_addr_compare a b CMP_EXACT)"

subsection \<open>Text of a \<open>tor_addr_t\<close>\<close>

abbreviation TOR_ADDR_BUF_LEN :: nat where "TOR_ADDR_BUF_LEN \<equiv> 48"
abbreviation INET_NTOA_BUF_LEN :: nat where "INET_NTOA_BUF_LEN \<equiv> 16"
abbreviation REVERSE_LOOKUP_NAME_BUF_LEN :: nat where "REVERSE_LOOKUP_NAME_BUF_LEN \<equiv> 73"

text \<open>The result for an \<open>AF_UNIX\<close> address is returned even when the buffer cuts it short.\<close>

fun tor_addr_to_str :: "tor_addr_t \<Rightarrow> nat \<Rightarrow> bool \<Rightarrow> string option" where
  "tor_addr_to_str (Addr_ipv4 a) len decorate =
     (if len < 8 then None else tor_inet_ntop (Addr_ipv4 a) len)"
| "tor_addr_to_str (Addr_ipv6 b) len decorate =
     (if len < 3 + (if decorate then 2 else 0) then None
      else if decorate
      then (case tor_inet_ntop (Addr_ipv6 b) (len - 2) of None \<Rightarrow> None | Some t \<Rightarrow> Some (''['' @ t @ '']''))
      else tor_inet_ntop (Addr_ipv6 b) len)"
| "tor_addr_to_str (Addr_unix _) len decorate = Some (take (len - 1) ''AF_UNIX'')"
| "tor_addr_to_str Addr_unspec len decorate = None"

definition tor_addr_parse_impl :: "string \<Rightarrow> bool \<Rightarrow> tor_addr_t outcome" where
  "tor_addr_parse_impl src allow_ipv6_without_brackets =
     (let brackets_detected = (src \<noteq> [] \<and> hd src = CHR ''['' \<and> last src = CHR '']'');
          src = (if brackets_detected then take (length src - 2) (drop 1 src) else src);
          result = (if brackets_detected \<or> allow_ipv6_without_brackets then tor_inet_pton AF_INET6 src else Minus_1)
      in if result = Assertion_failed then Assertion_failed
         else if \<not> brackets_detected
         then case tor_inet_pton AF_INET src of
                Minus_1 \<Rightarrow> result
              | r \<Rightarrow> r
         else result)"

definition tor_addr_parse :: "string \<Rightarrow> tor_addr_t outcome" where
  "tor_addr_parse src = tor_addr_parse_impl src True"

text \<open>The last occurrence of a character.\<close>

definition strrchr :: "string \<Rightarrow> char \<Rightarrow> nat option" where
  "strrchr s c = map_option (\<lambda>k. length s - 1 - k) (memchr (rev s) c)"

text \<open>The value \<open>tor_parse_long\<close> returns (0 on failure), without \<open>ok\<close> and \<open>next\<close>.\<close>

definition parse_port_number :: "string \<Rightarrow> int" where
  "parse_port_number s = (case tor_parse_long s 10 1 65535 False of Some (r, _, _) \<Rightarrow> r | None \<Rightarrow> 0)"

definition tor_addr_port_split :: "string \<Rightarrow> (string \<times> u16) outcome" where
  "tor_addr_port_split addrport =
     and_then (case tor_addr_parse addrport of Assertion_failed \<Rightarrow> Assertion_failed
                 | Done a \<Rightarrow> Done (tor_addr_family a = AF_INET6) | Minus_1 \<Rightarrow> Done False)
       (\<lambda>ipv6.
          if ipv6 then Done (addrport, 0)
          else case strrchr addrport (CHR '':'') of
                 Some k \<Rightarrow>
                   let port = parse_port_number (drop (k + 1) addrport)
                   in if port = 0 then Minus_1 else Done (take k addrport, word_of_int port)
               | None \<Rightarrow> Done (addrport, 0))"

definition tor_addr_port_parse :: "string \<Rightarrow> int \<Rightarrow> (tor_addr_t \<times> u16) outcome" where
  "tor_addr_port_parse addrport default_port =
     and_then (tor_addr_port_split addrport)
       (\<lambda>(addr_tmp, port).
          let has_port = (port \<noteq> 0)
          in if \<not> has_port \<and> \<not> default_port \<ge> 0 then Minus_1
             else and_then (tor_addr_parse_impl addr_tmp (\<not> has_port))
                    (\<lambda>addr. Done (addr, if has_port then port else word_of_int default_port)))"

text \<open>\<open>tor_addr_port_t\<close>.\<close>

record tor_addr_port_t =
  ap_addr :: tor_addr_t
  ap_port :: u16

definition tor_addr_port_new :: "tor_addr_t option \<Rightarrow> u16 \<Rightarrow> tor_addr_port_t" where
  "tor_addr_port_new addr port =
     \<lparr>ap_addr = (case addr of Some a \<Rightarrow> a | None \<Rightarrow> Addr_unspec), ap_port = port\<rparr>"

definition tor_addr_port_eq :: "tor_addr_port_t \<Rightarrow> tor_addr_port_t \<Rightarrow> bool" where
  "tor_addr_port_eq a b = (tor_addr_eq (ap_addr a) (ap_addr b) \<and> ap_port a = ap_port b)"

definition fmt_addr_impl :: "tor_addr_t option \<Rightarrow> bool \<Rightarrow> string" where
  "fmt_addr_impl addr decorate =
     (case addr of
        None \<Rightarrow> ''<null>''
      | Some a \<Rightarrow> (case tor_addr_to_str a TOR_ADDR_BUF_LEN decorate of Some t \<Rightarrow> t | None \<Rightarrow> ''???''))"

text \<open>The output is cut to the buffer of \<open>TOR_ADDR_BUF_LEN + 6\<close> bytes.\<close>

definition fmt_addrport :: "tor_addr_t option \<Rightarrow> u16 \<Rightarrow> string" where
  "fmt_addrport addr port =
     take (TOR_ADDR_BUF_LEN + 5) (fmt_addr_impl addr True @ '':'' @ dec_digits (unat port))"

definition tor_addr_to_str_dup :: "tor_addr_t \<Rightarrow> string" where
  "tor_addr_to_str_dup addr =
     (case tor_addr_to_str addr TOR_ADDR_BUF_LEN False of Some t \<Rightarrow> t | None \<Rightarrow> ''<unknown address type>'')"

definition fmt_addr32 :: "u32 \<Rightarrow> string" where
  "fmt_addr32 addr = (case tor_inet_ntoa addr INET_NTOA_BUF_LEN of Some t \<Rightarrow> t | None \<Rightarrow> [])"

definition tor_dup_ip :: "u32 \<Rightarrow> string option" where
  "tor_dup_ip addr = tor_inet_ntop (Addr_ipv4 addr) TOR_ADDR_BUF_LEN"

fun fmt_af_family :: "sa_family_t \<Rightarrow> string" where
  "fmt_af_family AF_INET6 = ''IPv6''"
| "fmt_af_family AF_INET = ''IPv4''"
| "fmt_af_family AF_UNIX = ''UNIX socket''"
| "fmt_af_family AF_UNSPEC = ''unspecified''"

subsection \<open>Reverse lookup names\<close>

text \<open>The two nybbles of the bytes from the last to the first.  The result is the bytes (the first
  ones last) and the text after them; \<open>Assertion_failed\<close> would be a read behind the terminating NUL.\<close>

fun parse_nybbles :: "nat \<Rightarrow> string \<Rightarrow> bytes \<Rightarrow> (bytes \<times> string) outcome" where
  "parse_nybbles 0 cp b = Done (b, cp)"
| "parse_nybbles (Suc n) cp b =
     (case cp of
        [] \<Rightarrow> Assertion_failed
      | c0 # cp \<Rightarrow> (case cp of
          [] \<Rightarrow> Minus_1
        | d0 # cp \<Rightarrow> if d0 \<noteq> CHR ''.'' then Minus_1
            else (case cp of
              [] \<Rightarrow> Assertion_failed
            | c1 # cp \<Rightarrow> (case cp of
                [] \<Rightarrow> Minus_1
              | d1 # cp \<Rightarrow> if d1 \<noteq> CHR ''.'' then Minus_1
                  else let n0 = hex_decode_digit c0; n1 = hex_decode_digit c1
                       in if n0 < 0 \<or> n1 < 0 then Minus_1
                          else parse_nybbles n cp (word_of_int (n0 OR push_bit 4 n1) # b)))))"

definition swap_bytes32 :: "u32 \<Rightarrow> u32" where
  "swap_bytes32 s = push_bit 24 (s AND 0x000000ff) OR push_bit 8 (s AND 0x0000ff00)
                    OR drop_bit 8 (s AND 0x00ff0000) OR drop_bit 24 (s AND 0xff000000)"

text \<open>The result: 1 with the address, 0, or \<open>-1\<close>.\<close>

datatype ptr_result = Ptr_is tor_addr_t | Ptr_not_a_name

definition tor_addr_parse_PTR_name :: "string \<Rightarrow> sa_family_t \<Rightarrow> bool \<Rightarrow> ptr_result outcome" where
  "tor_addr_parse_PTR_name address family accept_regular =
     (if strcasecmpend address ''.in-addr.arpa'' = 0 then
        (if family = AF_INET6 then Minus_1
         else let len = length address - length ''.in-addr.arpa''
              in if len \<ge> INET_NTOA_BUF_LEN then Minus_1
                 else and_then (tor_inet_aton (take len address)) (\<lambda>a. Done (Ptr_is (Addr_ipv4 (swap_bytes32 a)))))
      else if strcasecmpend address ''.ip6.arpa'' = 0 then
        (if family = AF_INET then Minus_1
         else and_then (parse_nybbles 16 address [])
                (\<lambda>(b, cp). if strcasecmp cp ''ip6.arpa'' \<noteq> 0 then Minus_1 else Done (Ptr_is (Addr_ipv6 b))))
      else if accept_regular then
        (case tor_addr_parse address of
           Assertion_failed \<Rightarrow> Assertion_failed
         | Minus_1 \<Rightarrow> Done Ptr_not_a_name
         | Done a \<Rightarrow> if tor_addr_family a \<noteq> family \<and> family \<noteq> AF_UNSPEC then Minus_1 else Done (Ptr_is a))
      else Done Ptr_not_a_name)"

definition nybble_text :: "u8 \<Rightarrow> string" where
  "nybble_text b = [''0123456789abcdef'' ! unat (b AND 0x0f), CHR ''.'',
                    ''0123456789abcdef'' ! unat (drop_bit 4 b), CHR ''.'']"

fun tor_addr_to_PTR_name :: "nat \<Rightarrow> tor_addr_t \<Rightarrow> string option" where
  "tor_addr_to_PTR_name outlen (Addr_ipv4 a) =
     tor_snprintf outlen (dotted_quad (unat (a AND 0xff)) (unat (drop_bit 8 a AND 0xff))
                            (unat (drop_bit 16 a AND 0xff)) (unat (drop_bit 24 a AND 0xff)) @ ''.in-addr.arpa'')"
| "tor_addr_to_PTR_name outlen (Addr_ipv6 b) =
     (if outlen < REVERSE_LOOKUP_NAME_BUF_LEN then None
      else Some (concat (map (\<lambda>i. nybble_text (b ! i)) (rev [0..<16])) @ ''ip6.arpa''))"
| "tor_addr_to_PTR_name outlen _ = None"

subsection \<open>Address patterns with masks and ports\<close>

fun mask_bits_loop :: "u32 \<Rightarrow> nat list \<Rightarrow> int" where
  "mask_bits_loop m [] = - 1"
| "mask_bits_loop m (i # is) =
     (if m = NOT (push_bit (32 - i) 1 - 1) then int i else mask_bits_loop m is)"

definition addr_mask_get_bits :: "u32 \<Rightarrow> int" where
  "addr_mask_get_bits m = (if m = 0 then 0 else if m = UINT32_MAX then 32 else mask_bits_loop m [1..<33])"

text \<open>The argument may be NULL.  The text behind a second port is not looked at.\<close>

definition parse_port_range :: "string option \<Rightarrow> (u16 \<times> u16) option" where
  "parse_port_range port =
     (let finish = (\<lambda>port_min port_max.
            if port_min > port_max then None
            else Some (word_of_int (if port_min < 1 then 1 else port_min),
                       word_of_int (if port_max > 65535 then 65535 else port_max)))
      in case port of
           None \<Rightarrow> Some (1, 65535)
         | Some p \<Rightarrow>
             if p = [] \<or> p = ''*'' then Some (1, 65535)
             else case tor_parse_long p 10 0 65535 True of
                    Some (port_min, True, Some endp) \<Rightarrow>
                      if endp \<noteq> []
                      then if hd endp \<noteq> CHR ''-'' then None
                           else (case tor_parse_long (tl endp) 10 1 65535 True of
                                   Some (port_max, True, _) \<Rightarrow> finish port_min port_max
                                 | _ \<Rightarrow> None)
                      else finish port_min port_min
                  | _ \<Rightarrow> None)"

record tapmp_flags =
  TAPMP_EXTENDED_STAR :: bool
  TAPMP_STAR_IPV4_ONLY :: bool
  TAPMP_STAR_IPV6_ONLY :: bool

abbreviation tapmp_none :: tapmp_flags where
  "tapmp_none \<equiv> \<lparr>TAPMP_EXTENDED_STAR = False, TAPMP_STAR_IPV4_ONLY = False, TAPMP_STAR_IPV6_ONLY = False\<rparr>"

abbreviation MAX_ADDRESS_LENGTH :: nat where "MAX_ADDRESS_LENGTH \<equiv> 48 + 2 + (1 + 16) + 12 + 1"

text \<open>Cutting the text into the address, the mask and the ports.  Pointers into the copy \<open>base\<close> of the text are
  indices, a NUL is written at each separator, and the three parts run from their pointers to the next NUL.\<close>

definition strchr_from :: "string \<Rightarrow> nat \<Rightarrow> char \<Rightarrow> nat option" where
  "strchr_from s i c = map_option (\<lambda>k. i + k) (memchr (drop i s) c)"

definition terminate_at :: "nat option \<Rightarrow> string \<Rightarrow> string" where
  "terminate_at i s = (case i of None \<Rightarrow> s | Some k \<Rightarrow> s[k := NUL])"

definition text_at :: "string \<Rightarrow> nat \<Rightarrow> string" where
  "text_at s i = takeWhile (\<lambda>c. c \<noteq> NUL) (drop i s)"

text \<open>Two pointers are in order unless both are set and the first is not behind the second.\<close>

definition in_order :: "nat option \<Rightarrow> nat option \<Rightarrow> bool" where
  "in_order p q = (case p of None \<Rightarrow> True | Some i \<Rightarrow> (case q of None \<Rightarrow> True | Some j \<Rightarrow> i > j))"

definition split_pattern :: "string \<Rightarrow> (string \<times> string option \<times> string option) outcome" where
  "split_pattern s =
     (let bracket = (take 1 s = ''['');
          address = (if bracket then 1 else 0);
          rbracket = (if bracket then strchr_from s address (CHR '']'') else None)
      in if bracket \<and> rbracket = None then Minus_1
         else let start = (case rbracket of Some r \<Rightarrow> r | None \<Rightarrow> address);
                  slash = strchr_from s start (CHR ''/'');
                  colon = strchr_from s (case slash of Some m \<Rightarrow> m | None \<Rightarrow> start) (CHR '':'');
                  base = terminate_at rbracket (terminate_at slash (terminate_at colon s));
                  mask = map_option Suc slash;
                  port = map_option Suc colon
              in if \<not> in_order port mask then Assertion_failed
                 else if \<not> in_order mask rbracket then Assertion_failed
                 else Done (text_at base address, map_option (text_at base) mask, map_option (text_at base) port))"

text \<open>The address part: the address, and whether it is a wildcard.\<close>

definition parse_pattern_addr :: "tapmp_flags \<Rightarrow> string \<Rightarrow> (tor_addr_t \<times> bool) outcome" where
  "parse_pattern_addr flags address =
     (if address = ''*'' then
        Done (if TAPMP_EXTENDED_STAR flags
              then if TAPMP_STAR_IPV4_ONLY flags then Addr_ipv4 0
                   else if TAPMP_STAR_IPV6_ONLY flags then Addr_ipv6 (replicate 16 0)
                   else Addr_unspec
              else Addr_ipv4 0, True)
      else if address = ''*4'' \<and> TAPMP_EXTENDED_STAR flags then Done (Addr_ipv4 0, True)
      else if address = ''*6'' \<and> TAPMP_EXTENDED_STAR flags then Done (Addr_ipv6 (replicate 16 0), True)
      else case tor_inet_pton AF_INET6 address of
             Assertion_failed \<Rightarrow> Assertion_failed
           | Done a \<Rightarrow> Done (a, False)
           | Minus_1 \<Rightarrow> and_then (tor_inet_pton AF_INET address) (\<lambda>a. Done (a, False)))"

text \<open>The cast of the \<open>long\<close> to \<open>int\<close> truncates.\<close>

definition parse_pattern_mask :: "tor_addr_t \<Rightarrow> bool \<Rightarrow> string option \<Rightarrow> int outcome" where
  "parse_pattern_mask addr any_flag mask_text =
     (case mask_text of
        Some m \<Rightarrow>
          let x = strtol m 10;
              bits = to_int32 (strtox_r x);
              endp = (case endptr x of Some e \<Rightarrow> e | None \<Rightarrow> m)
          in and_then
               (if endp = []
                then if (bits < 0 \<or> bits > 128) \<or> (tor_addr_family addr = AF_INET \<and> bits > 32) then Minus_1
                     else Done bits
                else and_then (tor_inet_pton AF_INET m)
                       (\<lambda>v4mask. let bits = addr_mask_get_bits (tor_addr_to_ipv4h v4mask)
                                 in if bits < 0 then Minus_1 else Done bits))
               (\<lambda>bits.
                  if tor_addr_family addr = AF_INET6 \<and> tor_addr_is_v4 addr \<and> bits > 32 \<and> bits < 96 then Minus_1
                  else let bits = (if tor_addr_family addr = AF_INET6 \<and> tor_addr_is_v4 addr
                                   then 96 + bits mod 32 else bits)
                       in if any_flag then Minus_1 else Done bits)
      | None \<Rightarrow>
          Done (if any_flag then 0
                else if tor_addr_family addr = AF_INET then 32
                else if tor_addr_family addr = AF_INET6 then 128
                else 0))"

text \<open>The caller says whether it wants a mask and ports.  The result: the address, the mask bits as
  the \<open>uint8_t\<close> they are stored in, and the ports.\<close>

definition tor_addr_parse_mask_ports ::
    "string \<Rightarrow> tapmp_flags \<Rightarrow> bool \<Rightarrow> bool \<Rightarrow> (tor_addr_t \<times> nat \<times> u16 \<times> u16) outcome" where
  "tor_addr_parse_mask_ports s flags want_mask want_ports =
     (if TAPMP_STAR_IPV4_ONLY flags \<and> TAPMP_STAR_IPV6_ONLY flags then Assertion_failed
      else if length s > MAX_ADDRESS_LENGTH then Minus_1
      else and_then (split_pattern s) (\<lambda>(address, mask_text, port).
             and_then (parse_pattern_addr flags address)
                 (\<lambda>(addr, any_flag).
                    and_then (if want_mask then parse_pattern_mask addr any_flag mask_text
                              else if mask_text \<noteq> None then Minus_1 else Done 0)
                      (\<lambda>bits.
                         if want_ports
                         then case parse_port_range port of
                                None \<Rightarrow> Minus_1
                              | Some (port_min, port_max) \<Rightarrow> Done (addr, nat (bits mod 256), port_min, port_max)
                         else if port \<noteq> None then Minus_1 else Done (addr, nat (bits mod 256), 0, 0)))))"

subsection \<open>Host names\<close>

definition tor_addr_hostname_is_local :: "string \<Rightarrow> bool" where
  "tor_addr_hostname_is_local name =
     (strcasecmp name ''localhost'' = 0 \<or> strcasecmp name ''local'' = 0 \<or> strcasecmpend name ''.local'' = 0)"

definition string_is_valid_ipv4_address :: "string \<Rightarrow> bool" where
  "string_is_valid_ipv4_address s = (case tor_inet_pton AF_INET s of Done _ \<Rightarrow> True | _ \<Rightarrow> False)"

definition string_is_valid_ipv6_address :: "string \<Rightarrow> bool" where
  "string_is_valid_ipv6_address s = (case tor_inet_pton AF_INET6 s of Done _ \<Rightarrow> True | _ \<Rightarrow> False)"

definition label_ok :: "string \<Rightarrow> bool" where
  "label_ok c =
     (if (case c of x # _ \<Rightarrow> x = CHR ''-'' \<or> x = CHR ''_'' | [] \<Rightarrow> False) then False
      else c \<noteq> [] \<and> list_all (\<lambda>x. TOR_ISALNUM x \<or> x = CHR ''-'' \<or> x = CHR ''_'') c)"

definition string_is_valid_nonrfc_hostname :: "string \<Rightarrow> bool" where
  "string_is_valid_nonrfc_hostname s =
     (if s = [] then False
      else if string_is_valid_ipv4_address s then False
      else case smartlist_split_string [] s (Some ''.'') no_flags 0 of
             None \<Rightarrow> False
           | Some (components, _) \<Rightarrow>
               if components = [] then False
               else let components = (if last components = [] then butlast components else components)
                    in list_all label_ok components)"

definition string_is_valid_dest :: "string option \<Rightarrow> bool" where
  "string_is_valid_dest s =
     (case s of
        None \<Rightarrow> False
      | Some s \<Rightarrow>
          if s = [] then False
          else let s = (if hd s = CHR ''['' \<and> last s = CHR '']'' then take (length s - 2) (drop 1 s) else s)
               in string_is_valid_ipv4_address s \<or> string_is_valid_ipv6_address s \<or> string_is_valid_nonrfc_hostname s)"

end
