(* ===== verification/Address_Text.thy ===== *)
theory Address_Text
  imports Addresses
begin

text \<open>
  Facts about the text of addresses: the scanner on the pattern of a dotted quad, decimal and
  hexadecimal numbers, the loop over the words of an IPv6 address, and that printing an address and
  parsing the text gives the address back.
\<close>

section \<open>Scanning unsigned numbers\<close>

abbreviation is_dig :: "char \<Rightarrow> bool" where "is_dig \<equiv> is_digit_of 10"

lemma isdigit_is_dig: "TOR_ISDIGIT c = is_dig c"
  by (auto simp: TOR_ISDIGIT_iff is_digit_of_def digit_val_def Let_def)

lemma scan_isdigit_10: "scan_isdigit 10 = is_dig"
  by (rule ext) (simp add: scan_isdigit_def isdigit_is_dig)

lemma scan_digit_10: "is_dig c \<Longrightarrow> digit_val c = Some (scan_digit 10 c) \<and> scan_digit 10 c < 10"
  by (auto simp: scan_digit_def digit_to_num_def is_digit_of_def digit_val_def Let_def split: if_splits)

definition digits_from :: "nat \<Rightarrow> string \<Rightarrow> nat" where
  "digits_from r ds = foldl (\<lambda>a c. a * 10 + (case digit_val c of Some d \<Rightarrow> d | None \<Rightarrow> 0)) r ds"

lemma scan_loop_10:
  assumes "r < 10 ^ n" "w \<le> 19"
  shows "scan_unsigned_loop buf r n w 10 =
    (let ds = takeWhile is_dig (take (w - n) buf) in Some (drop (length ds) buf, digits_from r ds, n + length ds))"
  using assms
proof (induction buf arbitrary: r n)
  case (Cons c cs)
  show ?case
  proof (cases "is_dig c \<and> n < w")
    case True
    then have d: "digit_val c = Some (scan_digit 10 c)" "scan_digit 10 c < 10" using scan_digit_10 by auto
    have "(10 :: nat) ^ Suc n \<le> 10 ^ 19" using True Cons.prems(2) by (intro power_increasing) auto
    then have le: "r * 10 + scan_digit 10 c < 10 ^ 19" "r * 10 + scan_digit 10 c < 10 ^ Suc n"
      using Cons.prems(1) d(2) by simp_all
    then have "\<not> r > (ULONG_MAX - scan_digit 10 c) div 10" using d(2) by simp
    moreover have "w - n = Suc (w - Suc n)" using True by (metis Suc_diff_Suc)
    ultimately show ?thesis
      using True Cons.IH [OF le(2) Cons.prems(2)] d
      by (simp add: scan_isdigit_10 Let_def digits_from_def)
  next
    case False
    then show ?thesis by (auto simp: scan_isdigit_10 digits_from_def Let_def take_Cons' )
  qed
qed (simp add: digits_from_def)

lemma scan_unsigned_3:
  "scan_unsigned buf 3 10 =
    (let ds = takeWhile is_dig (take 3 buf) in
     if ds = [] then None else Some (digits_value 10 ds, drop (length ds) buf))"
  using scan_loop_10 [of 0 0 3 buf]
  by (simp add: scan_unsigned_def effective_width_def Let_def digits_from_def digits_value_def)

lemma scan_unsigned_3_Some:
  "scan_unsigned buf 3 10 = Some (v, rest) \<longleftrightarrow>
    (\<exists>ds. buf = ds @ rest \<and> ds \<noteq> [] \<and> length ds \<le> 3 \<and> (\<forall>c\<in>set ds. is_dig c) \<and> v = digits_value 10 ds \<and>
          (length ds = 3 \<or> no_digit_first rest))" (is "?L \<longleftrightarrow> ?R")
proof
  assume ?L
  define ds where "ds = takeWhile is_dig (take 3 buf)"
  have e: "ds \<noteq> []" "v = digits_value 10 ds" "rest = drop (length ds) buf"
    using \<open>?L\<close> by (auto simp: scan_unsigned_3 Let_def ds_def split: if_splits)
  have l: "length ds \<le> 3" using length_takeWhile_le [of is_dig "take 3 buf"] by (simp add: ds_def)
  have p: "ds = take (length ds) buf"
    using takeWhile_eq_take [of is_dig "take 3 buf"] l by (simp add: ds_def min_def)
  have "length ds = 3 \<or> no_digit_first rest"
  proof (rule disjCI)
    assume "\<not> no_digit_first rest"
    then obtain c cs where c: "rest = c # cs" "is_dig c" by (auto simp: no_digit_first_def split: list.splits)
    then have n: "length ds < length buf" "buf ! length ds = c"
      using e(3) by (metis drop_all list.distinct(1) not_le, metis drop_all list.distinct(1) not_le hd_drop_conv_nth list.sel(1))
    show "length ds = 3"
    proof (rule ccontr)
      assume "length ds \<noteq> 3"
      then have "length ds < 3" using l by simp
      then have "\<not> is_dig (take 3 buf ! length ds)"
        using nth_length_takeWhile [of is_dig "take 3 buf"] n(1) by (simp add: ds_def)
      then show False using c(2) n(2) \<open>length ds < 3\<close> by simp
    qed
  qed
  moreover have "\<forall>c\<in>set ds. is_dig c" using set_takeWhileD by (fastforce simp: ds_def)
  moreover have "buf = ds @ rest" using append_take_drop_id [of "length ds" buf] p e(3) by simp
  ultimately show ?R using e(1,2) l by blast
next
  assume ?R
  then obtain ds where d: "buf = ds @ rest" "ds \<noteq> []" "length ds \<le> 3" "\<forall>c\<in>set ds. is_dig c"
    "v = digits_value 10 ds" "length ds = 3 \<or> no_digit_first rest" by blast
  have "takeWhile is_dig (take 3 buf) = ds @ takeWhile is_dig (take (3 - length ds) rest)"
    using d(1,3,4) by (simp add: takeWhile_append2)
  also have "takeWhile is_dig (take (3 - length ds) rest) = []"
    using d(6) by (cases rest; cases "3 - length ds") (auto simp: no_digit_first_def)
  finally show ?L using d by (simp add: scan_unsigned_3 Let_def)
qed

lemma digits_value_3: "length ds \<le> 3 \<Longrightarrow> \<forall>c\<in>set ds. is_dig c \<Longrightarrow> digits_value 10 ds < 1000"
proof -
  have "\<forall>c\<in>set ds. is_dig c \<Longrightarrow> digits_value 10 ds < 10 ^ length ds" for ds
  proof (induction ds rule: rev_induct)
    case (snoc c ds)
    then have "digits_value 10 ds < 10 ^ length ds" "scan_digit 10 c < 10" "digit_val c = Some (scan_digit 10 c)"
      using scan_digit_10 [of c] by auto
    then show ?case by (simp add: digits_value_def)
  qed (simp add: digits_value_def)
  moreover assume "length ds \<le> 3" "\<forall>c\<in>set ds. is_dig c"
  moreover have "(10 :: nat) ^ length ds \<le> 10 ^ 3" using \<open>length ds \<le> 3\<close> by (intro power_increasing) auto
  ultimately show ?thesis by fastforce
qed

lemma scan_unsigned_3_less: "scan_unsigned buf 3 10 = Some (v, rest) \<Longrightarrow> v < 1000"
  by (auto simp: scan_unsigned_3_Some digits_value_3)

section \<open>The pattern of a dotted quad\<close>

lemma TOR_ISDIGIT_3: "TOR_ISDIGIT (CHR ''3'') \<and> \<not> TOR_ISDIGIT (CHR ''u'') \<and> \<not> TOR_ISDIGIT (CHR ''c'')"
  by (simp add: TOR_ISDIGIT_iff)

lemma scan_width_3u: "scan_width (CHR ''3'' # CHR ''u'' # p) = Some (3, CHR ''u'' # p)"
  by (simp add: scan_width_def TOR_ISDIGIT_3 digit_to_num_def)

lemma vsscanf_3u:
  "tor_vsscanf buf (CHR 0x25 # CHR ''3'' # CHR ''u'' # p) n st =
     (case scan_unsigned buf 3 10 of None \<Rightarrow> (n, st) | Some (v, rest) \<Rightarrow> tor_vsscanf rest p (n + 1) (st @ [V_unsigned v]))"
proof (cases "scan_unsigned buf 3 10")
  case None
  then show ?thesis by (subst tor_vsscanf.simps) (simp add: scan_width_3u scan_directive_def)
next
  case (Some r)
  then obtain v rest where r: "r = (v, rest)" by (cases r)
  then have "v < 1000" "buf \<noteq> []" using Some scan_unsigned_3_less by (auto simp: scan_unsigned_3_Some)
  then show ?thesis using Some r by (subst tor_vsscanf.simps) (simp add: scan_width_3u scan_directive_def)
qed

lemma vsscanf_dot:
  "tor_vsscanf buf (CHR ''.'' # p) n st =
     (case buf of b # bs \<Rightarrow> if b = CHR ''.'' then tor_vsscanf bs p n st else (n, st) | [] \<Rightarrow> (n, st))"
  by (subst tor_vsscanf.simps) (simp split: list.splits)

lemma vsscanf_c:
  "tor_vsscanf buf [CHR 0x25, CHR ''c''] n st = (case buf of b # bs \<Rightarrow> (n + 1, st @ [V_char b]) | [] \<Rightarrow> (n, st))"
  by (subst tor_vsscanf.simps)
    (simp add: scan_width_def TOR_ISDIGIT_3 scan_directive_def tor_vsscanf.simps [of _ "[]"] split: list.splits)

lemma quad_pattern_chars: "quad_pattern =
  [CHR 0x25, CHR ''3'', CHR ''u'', CHR ''.'', CHR 0x25, CHR ''3'', CHR ''u'', CHR ''.'',
   CHR 0x25, CHR ''3'', CHR ''u'', CHR ''.'', CHR 0x25, CHR ''3'', CHR ''u'', CHR 0x25, CHR ''c'']"
  by (simp add: quad_pattern_def)

lemma sscanf_quad:
  "tor_sscanf s quad_pattern = (4, vs) \<longleftrightarrow>
     (\<exists>a b c d r1 r2 r3. scan_unsigned s 3 10 = Some (a, CHR ''.'' # r1) \<and>
        scan_unsigned r1 3 10 = Some (b, CHR ''.'' # r2) \<and> scan_unsigned r2 3 10 = Some (c, CHR ''.'' # r3) \<and>
        scan_unsigned r3 3 10 = Some (d, []) \<and> vs = [V_unsigned a, V_unsigned b, V_unsigned c, V_unsigned d])"
  unfolding tor_sscanf_def quad_pattern_chars
  by (auto simp: vsscanf_3u vsscanf_dot vsscanf_c split: option.splits list.splits if_splits prod.splits)

section \<open>Decimal digits of a byte\<close>

lemma dec_digits_value:
  "ds \<noteq> [] \<Longrightarrow> \<forall>c\<in>set ds. is_dig c \<Longrightarrow> \<not> is_octal ds \<Longrightarrow> dec_digits (digits_value 10 ds) = ds"
proof (induction ds rule: rev_induct)
  case (snoc c ds)
  have c: "digit_val c = Some (scan_digit 10 c)" "scan_digit 10 c < 10" using scan_digit_10 [of c] snoc.prems by auto
  have cc: "char_of (48 + scan_digit 10 c) = c"
    using snoc.prems(2) by (auto simp: scan_digit_def digit_to_num_def is_digit_of_def digit_val_def Let_def split: if_splits)
  show ?case
  proof (cases "ds = []")
    case True
    then show ?thesis using c cc by (simp add: digits_value_def dec_digits.simps)
  next
    case False
    have o: "\<not> is_octal ds" "hd ds \<noteq> CHR ''0''"
      using snoc.prems(3) False by (auto simp: is_octal_def neq_Nil_conv split: list.splits)
    have IH: "dec_digits (digits_value 10 ds) = ds" using snoc.IH [OF False _ o(1)] snoc.prems(2) by auto
    have "digits_value 10 ds \<noteq> 0"
    proof
      assume "digits_value 10 ds = 0"
      then have "ds = ''0''" using IH by (simp add: dec_digits.simps char_of_def bit_Suc_0_iff)
      then show False using o(2) by simp
    qed
    moreover have v: "digits_value 10 (ds @ [c]) = digits_value 10 ds * 10 + scan_digit 10 c"
      using c(1) by (simp add: digits_value_def)
    ultimately show ?thesis using c(2) cc IH by (subst dec_digits.simps) simp
  qed
qed simp

lemma dec_digits_all: "\<forall>c\<in>set (dec_digits n). is_dig c"
  using dec_digits_10 by blast

lemma dec_digits_length: "n < 1000 \<Longrightarrow> length (dec_digits n) \<le> 3"
  by (subst dec_digits.simps, subst dec_digits.simps, subst dec_digits.simps) auto

lemma dec_digits_not_octal: "\<not> is_octal (dec_digits n)"
proof (induction n rule: dec_digits.induct)
  case (1 n)
  show ?case
  proof (cases "n < 10")
    case False
    then have "n div 10 \<noteq> 0" by simp
    have ne: "dec_digits (n div 10) = c # cs \<Longrightarrow> c \<noteq> CHR ''0''" for c cs
    proof
      assume a: "dec_digits (n div 10) = c # cs" "c = CHR ''0''"
      then have "cs = []" using 1 [OF False] by (cases cs) (auto simp: is_octal_def)
      then have "digits_value 10 (dec_digits (n div 10)) = 0" using a by (simp add: digits_value_def digit_val_def)
      then show False using \<open>n div 10 \<noteq> 0\<close> by simp
    qed
    obtain c cs where "dec_digits (n div 10) = c # cs" using dec_digits_not_Nil [of "n div 10"] by (cases "dec_digits (n div 10)") auto
    then show ?thesis using False ne
      by (subst dec_digits.simps) (auto simp: is_octal_def split: list.splits)
  qed (subst dec_digits.simps, simp add: is_octal_def)
qed

lemma dig_not_dot: "is_dig c \<Longrightarrow> c \<noteq> CHR ''.'' \<and> c \<noteq> CHR '':''"
  by (auto simp: is_digit_of_def digit_val_def)

lemma no_digit_dot: "no_digit_first (CHR ''.'' # s) \<and> no_digit_first (CHR '':'' # s) \<and> no_digit_first []"
  by (simp add: no_digit_first_def is_digit_of_def digit_val_def)

section \<open>Splitting at dots\<close>

lemma memmem_dot: "CHR ''.'' \<notin> set x \<Longrightarrow> memmem (x @ CHR ''.'' # s) ''.'' = Some (length x)"
  by (induction x) auto

lemma memmem_no_dot: "CHR ''.'' \<notin> set x \<Longrightarrow> memmem x ''.'' = None"
  by (induction x) auto

lemma split_at_dot:
  "CHR ''.'' \<notin> set x \<Longrightarrow> split_at ''.'' (x @ CHR ''.'' # s) = x # split_at ''.'' s"
  "CHR ''.'' \<notin> set x \<Longrightarrow> split_at ''.'' x = [x]"
  by (subst split_at_simps; simp add: memmem_dot memmem_no_dot)+

lemma split_string_dots:
  "smartlist_split_string [] s (Some ''.'') no_flags 0 = Some (split_at ''.'' s, int (length (split_at ''.'' s)))"
  using split_loop_no_flags [of "''.''" s 0 "[]"] by (simp add: smartlist_split_string_def)

section \<open>Four bytes and their word\<close>

definition quad_word :: "nat \<Rightarrow> nat \<Rightarrow> nat \<Rightarrow> nat \<Rightarrow> u32" where
  "quad_word a b c d = push_bit 24 (of_nat a) OR push_bit 16 (of_nat b) OR push_bit 8 (of_nat c) OR of_nat d"

lemma unat_and_ff: "unat ((w :: 'a::len word) AND 0xff) = unat w mod 256"
  using unat_and_mask [of w 8] by (simp add: mask_eq_exp_minus_1)

lemma unat_quad_word:
  assumes "a < 256" "b < 256" "c < 256" "d < 256"
  shows "unat (quad_word a b c d) = a * 2 ^ 24 + b * 2 ^ 16 + c * 2 ^ 8 + d"
proof -
  have u: "n < 256 \<Longrightarrow> unat (of_nat n :: u32) = n" for n by (simp add: unat_of_nat)
  have 1: "unat (push_bit 8 (of_nat c) OR of_nat d :: u32) = c * 2 ^ 8 + d"
    using assms u by (subst unat_shift_or) auto
  have 2: "unat (push_bit 16 (of_nat b) OR (push_bit 8 (of_nat c) OR of_nat d) :: u32) = b * 2 ^ 16 + (c * 2 ^ 8 + d)"
    using assms u by (subst unat_shift_or) (auto simp: 1)
  have "unat (push_bit 24 (of_nat a) OR (push_bit 16 (of_nat b) OR (push_bit 8 (of_nat c) OR of_nat d)) :: u32) =
      a * 2 ^ 24 + (b * 2 ^ 16 + (c * 2 ^ 8 + d))"
    using assms u by (subst unat_shift_or) (auto simp: 1 2)
  then show ?thesis by (simp add: quad_word_def or.assoc)
qed

lemma four_bytes:
  assumes "a < 256" "b < 256" "c < 256" "(d :: nat) < 256"
  defines "n \<equiv> a * 2 ^ 24 + b * 2 ^ 16 + c * 2 ^ 8 + d"
  shows "n div 2 ^ 24 = a" "n div 2 ^ 16 mod 256 = b" "n div 2 ^ 8 mod 256 = c" "n mod 256 = d"
proof -
  have "n div 2 ^ 24 = a" "n div 2 ^ 16 = a * 256 + b" "n div 2 ^ 8 = (a * 256 + b) * 256 + c"
    unfolding n_def using assms(1-4) by (intro div_nat_eqI; simp)+
  then show "n div 2 ^ 24 = a" "n div 2 ^ 16 mod 256 = b" "n div 2 ^ 8 mod 256 = c"
    using assms(2,3) by (simp_all only: mod_mult_self3 mod_less)
  have "n = ((a * 256 + b) * 256 + c) * 256 + d" by (simp add: n_def)
  then show "n mod 256 = d" using assms(4) by (simp only: mod_mult_self3 mod_less)
qed

lemma bytes_four: "n div 2 ^ 24 * 2 ^ 24 + n div 2 ^ 16 mod 256 * 2 ^ 16 + n div 2 ^ 8 mod 256 * 2 ^ 8 + n mod 256 = (n :: nat)"
proof -
  have c: "y = x * 256 + ym \<Longrightarrow> z = y * 256 + zm \<Longrightarrow> m = z * 256 + nm \<Longrightarrow>
      x * 2 ^ 24 + ym * 2 ^ 16 + zm * 2 ^ 8 + nm = m" for x y z m ym zm nm :: nat by simp
  show ?thesis
  proof (rule c)
    show "n div 2 ^ 16 = n div 2 ^ 24 * 256 + n div 2 ^ 16 mod 256"
      using div_mult_mod_eq [of "n div 2 ^ 16" 256] by (simp flip: div_mult2_eq)
    show "n div 2 ^ 8 = n div 2 ^ 16 * 256 + n div 2 ^ 8 mod 256"
      using div_mult_mod_eq [of "n div 2 ^ 8" 256] by (simp flip: div_mult2_eq)
    show "n = n div 2 ^ 8 * 256 + n mod 256" by simp
  qed
qed

lemma quad_word_bytes:
  "a < 256 \<Longrightarrow> b < 256 \<Longrightarrow> c < 256 \<Longrightarrow> d < 256 \<Longrightarrow> quad_text (quad_word a b c d) = dotted_quad a b c d"
  by (simp add: quad_text_def unat_and_ff unat_drop_bit unat_quad_word four_bytes [simplified])

lemma quad_word_surj:
  "quad_word (unat (drop_bit 24 w AND 0xff)) (unat (drop_bit 16 w AND 0xff)) (unat (drop_bit 8 w AND 0xff)) (unat (w AND 0xff)) = w"
proof -
  have "unat (quad_word (unat (drop_bit 24 w AND 0xff)) (unat (drop_bit 16 w AND 0xff))
      (unat (drop_bit 8 w AND 0xff)) (unat (w AND 0xff))) = unat w"
    using unat_u32_less [of w] bytes_four [of "unat w"] by (subst unat_quad_word) (simp_all add: unat_and_ff unat_drop_bit)
  then show ?thesis by (simp add: unat_inj_iff)
qed

section \<open>The dotted quad is read exactly\<close>

lemma sscanf_dotted_quad:
  assumes "a < 1000" "b < 1000" "c < 1000" "d < 1000"
  shows "tor_sscanf (dotted_quad a b c d) quad_pattern = (4, [V_unsigned a, V_unsigned b, V_unsigned c, V_unsigned d])"
proof -
  have "n < 1000 \<Longrightarrow> no_digit_first r \<Longrightarrow> scan_unsigned (dec_digits n @ r) 3 10 = Some (n, r)" for n r
    unfolding scan_unsigned_3_Some using dec_digits_length [of n] dec_digits_all [of n]
    by (intro exI [of _ "dec_digits n"]) auto
  note s = this [OF _ conjunct1 [OF no_digit_dot]] this [of _ "[]", simplified no_digit_dot]
  show ?thesis unfolding sscanf_quad dotted_quad_def using assms s by (simp add: no_digit_first_def)
qed

lemma aton_dotted_quad:
  assumes "a < 256" "b < 256" "c < 256" "d < 256"
  shows "tor_inet_aton (dotted_quad a b c d) = Done (quad_word a b c d)"
proof -
  have nd: "CHR ''.'' \<notin> set (dec_digits n)" for n using dec_digits_all dig_not_dot by blast
  have "split_at ''.'' (dotted_quad a b c d) = map dec_digits [a, b, c, d]"
    by (simp add: dotted_quad_def split_at_dot nd)
  then show ?thesis using assms
    by (simp add: tor_inet_aton_def sscanf_dotted_quad split_string_dots dec_digits_not_octal quad_word_def)
qed

lemma aton_iff: "tor_inet_aton s = Done w \<longleftrightarrow> s = quad_text w"
proof
  assume L: "tor_inet_aton s = Done w"
  obtain n vs where nv: "tor_sscanf s quad_pattern = (n, vs)" by (cases "tor_sscanf s quad_pattern")
  have "n = 4" using L by (simp add: tor_inet_aton_def nv split: if_splits)
  then obtain a b c d r1 r2 r3 where q: "scan_unsigned s 3 10 = Some (a, CHR ''.'' # r1)"
    "scan_unsigned r1 3 10 = Some (b, CHR ''.'' # r2)" "scan_unsigned r2 3 10 = Some (c, CHR ''.'' # r3)"
    "scan_unsigned r3 3 10 = Some (d, [])" "vs = [V_unsigned a, V_unsigned b, V_unsigned c, V_unsigned d]"
    using nv sscanf_quad [of s vs] by auto
  obtain ds where ds: "s = ds @ CHR ''.'' # r1" "ds \<noteq> []" "\<forall>c\<in>set ds. is_dig c" "a = digits_value 10 ds"
    using q(1) by (auto simp: scan_unsigned_3_Some)
  obtain es where es: "r1 = es @ CHR ''.'' # r2" "es \<noteq> []" "\<forall>c\<in>set es. is_dig c" "b = digits_value 10 es"
    using q(2) by (auto simp: scan_unsigned_3_Some)
  obtain fs where fs: "r2 = fs @ CHR ''.'' # r3" "fs \<noteq> []" "\<forall>c\<in>set fs. is_dig c" "c = digits_value 10 fs"
    using q(3) by (auto simp: scan_unsigned_3_Some)
  obtain gs where gs: "r3 = gs" "gs \<noteq> []" "\<forall>c\<in>set gs. is_dig c" "d = digits_value 10 gs"
    using q(4) by (auto simp: scan_unsigned_3_Some)
  have nd: "\<forall>c\<in>set xs. is_dig c \<Longrightarrow> CHR ''.'' \<notin> set xs" for xs using dig_not_dot by blast
  have sp: "split_at ''.'' s = [ds, es, fs, gs]"
    using ds es fs gs nd by (simp add: split_at_dot)
  have oct: "\<not> is_octal ds" "\<not> is_octal es" "\<not> is_octal fs" "\<not> is_octal gs"
    and le: "a < 256" "b < 256" "c < 256" "d < 256" and w: "w = quad_word a b c d"
    using L by (auto simp: tor_inet_aton_def nv split_string_dots sp q(5) quad_word_def split: if_splits)
  have "s = dotted_quad a b c d"
    using ds es fs gs oct dec_digits_value by (simp add: dotted_quad_def)
  then show "s = quad_text w" using le w by (simp add: quad_word_bytes)
next
  assume "s = quad_text w"
  then show "tor_inet_aton s = Done w"
    using aton_dotted_quad [of "unat (drop_bit 24 w AND 0xff)" "unat (drop_bit 16 w AND 0xff)"
        "unat (drop_bit 8 w AND 0xff)" "unat (w AND 0xff)"] quad_word_surj [of w]
    by (simp add: quad_text_def unat_and_ff)
qed

lemma aton_no_assert: "tor_inet_aton s \<noteq> Assertion_failed"
proof
  assume L: "tor_inet_aton s = Assertion_failed"
  obtain n vs where nv: "tor_sscanf s quad_pattern = (n, vs)" by (cases "tor_sscanf s quad_pattern")
  then have "n = 4 \<Longrightarrow> \<exists>a b c d. vs = [V_unsigned a, V_unsigned b, V_unsigned c, V_unsigned d]"
    using sscanf_quad [of s vs] by auto
  then show False using L by (auto simp: tor_inet_aton_def nv split_string_dots split: if_splits)
qed

section \<open>Hexadecimal words\<close>

abbreviation is_hex :: "char \<Rightarrow> bool" where "is_hex \<equiv> is_digit_of 16"

lemma isxdigit_is_hex: "TOR_ISXDIGIT c = is_hex c"
  by (auto simp: TOR_ISXDIGIT_iff is_digit_of_def digit_val_def Let_def split: if_splits)

lemma hex_char:
  assumes "n < 16"
  shows "digit_val (''0123456789abcdef'' ! n) = Some n \<and> is_hex (''0123456789abcdef'' ! n) \<and>
    hex_decode_digit (''0123456789abcdef'' ! n) = int n"
proof -
  have "list_all (\<lambda>n. digit_val (''0123456789abcdef'' ! n) = Some n \<and> is_hex (''0123456789abcdef'' ! n) \<and>
    hex_decode_digit (''0123456789abcdef'' ! n) = int n) [0..<16]" by code_simp
  then show ?thesis using assms by (simp add: list_all_iff del: upt_rec_numeral)
qed

lemma hex_digits_hex: "\<forall>c\<in>set (hex_digits n). is_hex c"
proof (induction n rule: hex_digits.induct)
  case (1 n)
  then show ?case using hex_char [of "n mod 16"] hex_char [of n] by (subst hex_digits.simps) (auto split: if_splits)
qed

lemma hex_digits_not_Nil [simp]: "hex_digits n \<noteq> []"
  by (subst hex_digits.simps) simp

lemma hex_digits_value [simp]: "digits_value 16 (hex_digits n) = n"
proof (induction n rule: hex_digits.induct)
  case (1 n)
  show ?case
  proof (cases "n < 16")
    case True
    then show ?thesis using hex_char [of n] by (subst hex_digits.simps) (simp add: digits_value_def)
  next
    case False
    then show ?thesis using 1 hex_char [of "n mod 16"]
      by (subst hex_digits.simps) (simp add: digits_value_def)
  qed
qed

lemma hex_digits_length: "n < 65536 \<Longrightarrow> length (hex_digits n) \<le> 4"
  by (subst hex_digits.simps, subst hex_digits.simps, subst hex_digits.simps, subst hex_digits.simps) auto

lemma hex_char_facts: "is_hex c \<Longrightarrow> \<not> c_isspace c \<and> c \<noteq> CHR ''-'' \<and> c \<noteq> CHR ''+'' \<and> c \<noteq> CHR ''x'' \<and> c \<noteq> CHR ''X'' \<and>
    c \<noteq> CHR '':'' \<and> c \<noteq> CHR ''.''"
  by (auto simp: is_digit_of_def digit_val_def c_isspace_def Let_def split: if_splits)

definition colon_or_end :: "string \<Rightarrow> bool" where
  "colon_or_end s = (case s of [] \<Rightarrow> True | c # _ \<Rightarrow> c = CHR '':'')"

lemma strtol_hex:
  assumes "n < 65536" "colon_or_end rest"
  shows "strtol (hex_digits n @ rest) 16 = \<lparr>strtox_r = int n, endptr = Some rest, erange = False\<rparr>"
proof -
  obtain c cs where h: "hex_digits n = c # cs" by (cases "hex_digits n") auto
  have all: "\<forall>x\<in>set (c # cs). is_hex x" using hex_digits_hex [of n] by (simp add: h)
  have c: "is_hex c" using all by simp
  have sgn: "split_sign (dropWhile c_isspace (hex_digits n @ rest)) = (False, hex_digits n @ rest)"
    using hex_char_facts [OF c] by (simp add: h)
  have "\<not> (take 2 (hex_digits n @ rest) = ''0x'' \<or> take 2 (hex_digits n @ rest) = ''0X'')"
  proof -
    have "\<not> (case cs @ rest of x # _ \<Rightarrow> x = CHR ''x'' \<or> x = CHR ''X'' | [] \<Rightarrow> False)"
      using all assms(2) hex_char_facts by (cases cs) (auto simp: colon_or_end_def split: list.splits)
    then show ?thesis by (cases "cs @ rest") (auto simp: h)
  qed
  then have sb: "split_base 16 (hex_digits n @ rest) = (16, hex_digits n @ rest)" by (simp add: split_base_def)
  have "takeWhile is_hex rest = []"
    using assms(2) by (cases rest) (auto simp: colon_or_end_def is_digit_of_def digit_val_def)
  then have tw: "takeWhile is_hex (hex_digits n @ rest) = hex_digits n"
    using hex_digits_hex [of n] by (simp add: takeWhile_append2)
  show ?thesis using assms(1) by (simp add: strtol_def strto_scan_def sgn sb tw)
qed

section \<open>Steps of the loop over the words\<close>

lemma pton_end: "length (p_src s) \<le> e \<Longrightarrow> pton_loop e s = Done s"
  by (subst pton_loop.simps) simp

lemma pton_hex_ok_digits:
  assumes "n < 65536" "colon_or_end rest" "rest = [] \<Longrightarrow> e = 0"
  shows "pton_hex_ok (hex_digits n @ rest) e rest"
proof -
  have "length (hex_digits n) \<le> 4" by (rule hex_digits_length [OF assms(1)])
  moreover have "length (hex_digits n) > 1 \<Longrightarrow> (case hex_digits n @ rest of _ # c # _ \<Rightarrow> TOR_ISXDIGIT c | _ \<Rightarrow> False)"
    using hex_digits_hex [of n] by (cases "hex_digits n"; cases "tl (hex_digits n)") (auto simp: isxdigit_is_hex)
  ultimately show ?thesis using assms(3) by (auto simp: pton_hex_ok_def Let_def)
qed

lemma pton_hex:
  assumes "p_src s = hex_digits n @ rest" "n < 65536" "colon_or_end rest" "rest = [] \<Longrightarrow> e = 0"
    "length (p_src s) > e" "p_i s \<le> 7"
  shows "pton_loop e s = pton_loop e (s\<lparr>p_src := drop 1 rest, p_i := p_i s + 1,
           p_words := (p_words s)[p_i s := of_nat n], p_setWords := p_setWords s + 1\<rparr>)"
proof -
  obtain c cs where h: "hex_digits n = c # cs" by (cases "hex_digits n") auto
  have c: "TOR_ISXDIGIT c" using hex_digits_hex [of n] by (simp add: h isxdigit_is_hex)
  have src: "p_src s = c # cs @ rest" using assms(1) h by simp
  have ok: "pton_hex_ok (c # cs @ rest) e rest" using pton_hex_ok_digits [OF assms(2-4)] by (simp add: h)
  have st: "strtol (c # cs @ rest) 16 = \<lparr>strtox_r = int n, endptr = Some rest, erange = False\<rparr>"
    using strtol_hex [OF assms(2,3)] by (simp add: h)
  have "\<not> (take 1 rest \<noteq> '':'' \<and> length rest \<noteq> e)"
    using assms(3,4) by (cases rest) (auto simp: colon_or_end_def)
  then show ?thesis using assms(2,5,6) c
    by (subst pton_loop.simps) (auto simp: src st ok)
qed

lemma not_xdigit_colon: "\<not> TOR_ISXDIGIT (CHR '':'')"
  by (simp add: isxdigit_is_hex is_digit_of_def digit_val_def)

lemma pton_colon:
  assumes "p_src s = CHR '':'' # r" "p_i s > 0" "p_i s \<le> 7" "p_gapPos s = - 1" "length (p_src s) > e"
  shows "pton_loop e s = pton_loop e (s\<lparr>p_src := r, p_gapPos := int (p_i s)\<rparr>)"
  using assms by (subst pton_loop.simps) (simp add: not_xdigit_colon)

lemma pton_double_colon:
  assumes "p_src s = CHR '':'' # CHR '':'' # r" "p_i s = 0" "p_gapPos s = - 1" "length r \<ge> e"
  shows "pton_loop e s = pton_loop e (s\<lparr>p_src := r, p_gapPos := 0\<rparr>)"
  using assms by (subst pton_loop.simps) (simp add: not_xdigit_colon)

section \<open>The words of an address\<close>

lemma unat_u16_less: "unat (w :: u16) < 65536"
  using unsigned_less [of w, where ?'a = nat] by simp

lemma list_update_at: "k < length w \<Longrightarrow> take k w @ xs = w' \<Longrightarrow> length w' = length w \<Longrightarrow> xs \<noteq> [] \<Longrightarrow>
    w'[k := x] = take k w @ x # tl xs"
  by (metis append_Cons length_take list.collapse list_update_length min.absorb4)

text \<open>The words from \<open>i\<close> on, read into the places from \<open>k\<close> on.\<close>

lemma pton_tail:
  assumes "length ws = 8" "i \<le> 8" "\<And>j. i \<le> j \<Longrightarrow> j < 8 \<Longrightarrow> \<not> (ws ! j = 0 \<and> gap = int j)"
    "p_src s = print_words ws i gap" "p_i s + (8 - i) \<le> 8" "length (p_words s) = 8"
  shows "pton_loop 0 s = Done (s\<lparr>p_src := [], p_i := p_i s + (8 - i),
           p_words := take (p_i s) (p_words s) @ drop i ws @ drop (p_i s + (8 - i)) (p_words s),
           p_setWords := p_setWords s + (8 - i)\<rparr>)"
  using assms
proof (induction "8 - i" arbitrary: i s)
  case 0
  then have "i = 8" by simp
  moreover have "print_words ws 8 gap = []" by (subst print_words.simps) simp
  ultimately show ?case using 0 by (subst pton_end) simp_all
next
  case (Suc m)
  then have i: "i < 8" by simp
  define rest where "rest = (if i \<noteq> 7 then '':'' else []) @ print_words ws (Suc i) gap"
  have p8: "print_words ws 8 gap = []" by (subst print_words.simps) simp
  have "\<not> (ws ! i = 0 \<and> gap = int i)" using Suc.prems(3) i by simp
  then have src: "p_src s = hex_digits (unat (ws ! i)) @ rest"
    using Suc.prems(4) i by (subst (asm) print_words.simps) (auto simp: rest_def)
  have r: "colon_or_end rest" "drop 1 rest = print_words ws (Suc i) gap"
    using p8 i by (cases "i = 7"; simp add: rest_def colon_or_end_def)+
  let ?s = "s\<lparr>p_src := drop 1 rest, p_i := p_i s + 1,
           p_words := (p_words s)[p_i s := of_nat (unat (ws ! i))], p_setWords := p_setWords s + 1\<rparr>"
  have 1: "pton_loop 0 s = pton_loop 0 ?s"
    using Suc.prems(5) i by (intro pton_hex [OF src unat_u16_less r(1)]) (auto simp: src)
  have 2: "pton_loop 0 ?s = Done (?s\<lparr>p_src := [], p_i := p_i ?s + (8 - Suc i),
           p_words := take (p_i ?s) (p_words ?s) @ drop (Suc i) ws @ drop (p_i ?s + (8 - Suc i)) (p_words ?s),
           p_setWords := p_setWords ?s + (8 - Suc i)\<rparr>)"
    by (rule Suc.hyps(1)) (use Suc.hyps(2) Suc.prems i r(2) in auto)
  have k: "p_i s < 8" using Suc.prems(5) i by simp
  have "take (Suc (p_i s)) ((p_words s)[p_i s := ws ! i]) = take (p_i s) (p_words s) @ [ws ! i]"
    using k Suc.prems(6) by (simp add: take_Suc_conv_app_nth)
  moreover have "drop i ws = ws ! i # drop (Suc i) ws" using i Suc.prems(1) by (simp add: Cons_nth_drop_Suc)
  moreover have "p_i s + (8 - i) = Suc (p_i s) + (8 - Suc i)" "8 - i = Suc (8 - Suc i)" using i by auto
  ultimately show ?case unfolding 1 2 by simp
qed

text \<open>The words before the gap.\<close>

lemma pton_prefix:
  assumes "length ws = 8" "length w0 = 8" "i \<le> p" "p \<le> 7"
  shows "pton_loop 0 \<lparr>p_src = print_words ws i (int p), p_i = i, p_words = take i ws @ drop i w0,
             p_setWords = i, p_gapPos = - 1\<rparr> =
         pton_loop 0 \<lparr>p_src = print_words ws p (int p), p_i = p, p_words = take p ws @ drop p w0,
             p_setWords = p, p_gapPos = - 1\<rparr>"
  using assms(3)
proof (induction "p - i" arbitrary: i)
  case (Suc m)
  then have i: "i < p" by simp
  have src: "print_words ws i (int p) = hex_digits (unat (ws ! i)) @ '':'' @ print_words ws (Suc i) (int p)"
    using i assms(4) by (subst print_words.simps) simp
  have "(take i ws @ drop i w0)[i := ws ! i] = take (Suc i) ws @ drop (Suc i) w0"
    using i assms(1,2,4) by (simp add: list_update_append take_Suc_conv_app_nth Cons_nth_drop_Suc [symmetric])
  then have "pton_loop 0 \<lparr>p_src = print_words ws i (int p), p_i = i, p_words = take i ws @ drop i w0,
             p_setWords = i, p_gapPos = - 1\<rparr> =
      pton_loop 0 \<lparr>p_src = print_words ws (Suc i) (int p), p_i = Suc i, p_words = take (Suc i) ws @ drop (Suc i) w0,
             p_setWords = Suc i, p_gapPos = - 1\<rparr>"
    using i assms(4)
    by (subst pton_hex [where n = "unat (ws ! i)" and rest = "'':'' @ print_words ws (Suc i) (int p)"])
      (simp_all add: src unat_u16_less colon_or_end_def)
  with Suc.hyps(1) [of "Suc i"] Suc.hyps(2) i show ?case by simp
qed simp

section \<open>The longest run of zeros\<close>

definition gap_at :: "u16 list \<Rightarrow> nat \<Rightarrow> nat \<Rightarrow> bool" where
  "gap_at ws p len \<longleftrightarrow> p < 8 \<and> ws ! p = 0 \<and> skip_zeros ws p = p + len"

lemma longest_gap_ok:
  assumes "longest_gap ws i pos len = (pos', len')" "len > 0 \<Longrightarrow> \<exists>p. pos = int p \<and> gap_at ws p len" "len' > 0"
  shows "\<exists>p. pos' = int p \<and> gap_at ws p len'"
  using assms(1,2)
proof (induction "8 - i" arbitrary: i pos len rule: less_induct)
  case less
  consider (zero) "i < 8" "ws ! i = 0" | (other) "i < 8" "ws ! i \<noteq> 0" | (past) "\<not> i < 8" by blast
  then show ?case
  proof cases
    case zero
    define j where "j = skip_zeros ws i"
    have j: "i < j" using skip_zeros_less zero by (simp add: j_def)
    have g: "gap_at ws i (j - i)" using zero j by (simp add: gap_at_def j_def)
    have m: "8 - j < 8 - i" using j zero by simp
    have e: "(if j - i > len then longest_gap ws j (int i) (j - i) else longest_gap ws j pos len) = (pos', len')"
      using less.prems(1) zero by (subst (asm) longest_gap.simps) (simp add: Let_def flip: j_def)
    show ?thesis
    proof (cases "j - i > len")
      case True
      then have "longest_gap ws j (int i) (j - i) = (pos', len')" using e by simp
      from less.hyps [OF m this] g show ?thesis by blast
    next
      case False
      then have "longest_gap ws j pos len = (pos', len')" using e by simp
      from less.hyps [OF m this less.prems(2)] show ?thesis by blast
    qed
  next
    case other
    then have "longest_gap ws (Suc i) pos len = (pos', len')"
      using less.prems(1) by (subst (asm) longest_gap.simps) simp
    from less.hyps [OF _ this less.prems(2)] other(1) show ?thesis by simp
  next
    case past
    then have "pos = pos'" "len = len'" using less.prems(1) by (subst (asm) longest_gap.simps, simp)+
    then show ?thesis using less.prems(2) assms(3) by simp
  qed
qed

lemma skip_zeros_zero: "i \<le> j \<Longrightarrow> j < skip_zeros ws i \<Longrightarrow> ws ! j = 0 \<and> j < 8"
proof (induction "8 - i" arbitrary: i rule: less_induct)
  case less
  have c: "i < 8 \<and> ws ! i = 0"
  proof (rule ccontr)
    assume "\<not> ?thesis"
    then have "skip_zeros ws i = i" by (subst skip_zeros.simps) auto
    then show False using less.prems by simp
  qed
  then have s: "skip_zeros ws i = skip_zeros ws (Suc i)" by (subst skip_zeros.simps) simp
  show ?case
  proof (cases "i = j")
    case False
    moreover have "8 - Suc i < 8 - i" using conjunct1 [OF c] by arith
    ultimately show ?thesis using less.hyps [of "Suc i"] less.prems s by simp
  qed (use c in simp)
qed

lemma skip_zeros_le_8: "i \<le> 8 \<Longrightarrow> skip_zeros ws i \<le> 8"
  by (induction ws i rule: skip_zeros.induct) (subst skip_zeros.simps, auto)

section \<open>Words and bytes\<close>

lemma in6_words_length [simp]: "length (in6_words b) = 8"
  by (simp add: in6_words_def)

lemma in6_words_nth: "i < 8 \<Longrightarrow> in6_words b ! i = in6_word b i"
  by (simp add: in6_words_def)

lemma unat_ucast_u8_u16 [simp]: "unat (ucast (x :: u8) :: u16) = unat x"
proof -
  have "unat x < 2 ^ 16" using unat_u8_less [of x] by simp
  then show ?thesis by (simp add: unsigned_ucast_eq take_bit_nat_eq_self)
qed

lemma unat_in6_word: "unat (in6_word b i) = unat (b ! (2 * i)) * 256 + unat (b ! (2 * i + 1))"
proof -
  have l: "unat (b ! (2 * i)) \<le> 255" "unat (b ! (2 * i + 1)) \<le> 255" by (rule unat_u8_less)+
  then have "unat (push_bit 8 (ucast (b ! (2 * i))) :: u16) = unat (b ! (2 * i)) * 256"
    by (subst unat_push_bit_exact) auto
  then show ?thesis using l unfolding in6_word_def by (subst unat_add_exact) auto
qed

lemma u8_eqI: "unat x = unat y \<Longrightarrow> x = (y :: u8)"
  by (simp add: unat_inj_iff)

lemma in6_word_bytes:
  "ucast (drop_bit 8 (in6_word b i)) = b ! (2 * i)" "ucast (in6_word b i AND 0xff) = b ! (2 * i + 1)"
proof -
  have l: "unat (b ! (2 * i)) \<le> 255" "unat (b ! (2 * i + 1)) \<le> 255" by (rule unat_u8_less)+
  have u: "unat (ucast (w :: u16) :: u8) = unat w mod 256" for w
    by (simp add: unsigned_ucast_eq take_bit_eq_mod)
  show "ucast (drop_bit 8 (in6_word b i)) = b ! (2 * i)" "ucast (in6_word b i AND 0xff) = b ! (2 * i + 1)"
    using l by (intro u8_eqI; simp add: u unat_drop_bit unat_in6_word unat_and_ff)+
qed

lemma words_bytes_in6: "length b = 16 \<Longrightarrow> words_bytes (in6_words b) = b"
proof -
  assume "length b = 16"
  then have "b = map ((!) b) [0..<16]" by (metis map_nth)
  moreover have "words_bytes (in6_words b) = map ((!) b) [0..<16]"
    by (simp add: words_bytes_def in6_words_def in6_word_bytes [simplified] upt_rec) (simp add: eval_nat_numeral)
  ultimately show ?thesis by simp
qed

lemma quad_half: "a < 256 \<Longrightarrow> c < 256 \<Longrightarrow> unat (push_bit 8 (of_nat a) OR of_nat c :: u16) = a * 256 + c"
  by (subst unat_shift_or) (auto simp: unat_of_nat unat_push_bit_exact)

lemma u16_eqI: "unat x = unat y \<Longrightarrow> x = (y :: u16)"
  by (simp add: unat_inj_iff)

lemma quad_half_in6:
  "push_bit 8 (of_nat (unat (b ! (2 * i)))) OR of_nat (unat (b ! (2 * i + 1))) = in6_word b i"
  using unat_u8_less [of "b ! (2 * i)"] unat_u8_less [of "b ! (2 * i + 1)"]
  by (intro u16_eqI) (subst quad_half, auto simp: unat_in6_word)

section \<open>Reading back the words\<close>

definition word_char :: "char \<Rightarrow> bool" where
  "word_char c \<longleftrightarrow> is_hex c \<or> c = CHR '':''"

lemma print_words_chars: "\<forall>c\<in>set (print_words ws i gap). word_char c"
proof (induction ws i gap rule: print_words.induct)
  case (1 ws i gap)
  then show ?case using hex_digits_hex [of "unat (ws ! i)"]
    by (subst print_words.simps) (auto simp: word_char_def)
qed

lemma hex_not_colon: "is_hex c \<Longrightarrow> c \<noteq> CHR '':'' \<and> c \<noteq> CHR ''.''"
  using hex_char_facts by blast

lemma last_hex: "last (hex_digits n) \<noteq> CHR '':''"
  using hex_digits_hex [of n] hex_not_colon last_in_set [of "hex_digits n"] by auto

text \<open>A text of words does not end in a single colon.\<close>

definition single_colon_end :: "string \<Rightarrow> bool" where
  "single_colon_end t \<longleftrightarrow> length t > 2 \<and> t ! (length t - 1) = CHR '':'' \<and> t ! (length t - 2) \<noteq> CHR '':''"

lemma single_colon_end_append: "length t > 2 \<Longrightarrow> single_colon_end (x @ t) = single_colon_end t"
  by (auto simp: single_colon_end_def nth_append)

lemma print_words_end:
  assumes "length ws = 8" "i \<le> 8" "\<And>j. i \<le> j \<Longrightarrow> j < 8 \<Longrightarrow> \<not> (ws ! j = 0 \<and> gap = int j)"
  shows "i < 8 \<Longrightarrow> print_words ws i gap \<noteq> [] \<and> last (print_words ws i gap) \<noteq> CHR '':''"
  using assms
proof (induction "8 - i" arbitrary: i)
  case (Suc m)
  have c: "\<not> (ws ! i = 0 \<and> gap = int i)" using Suc.prems by simp
  have e: "print_words ws i gap = hex_digits (unat (ws ! i)) @ (if i \<noteq> 7 then '':'' else []) @ print_words ws (Suc i) gap"
    using c Suc.prems(1) by (subst print_words.simps) auto
  show ?case
  proof (cases "i = 7")
    case True
    then have "print_words ws (Suc i) gap = []" by (subst print_words.simps) simp
    then show ?thesis using e True last_hex by simp
  next
    case False
    then have "print_words ws (Suc i) gap \<noteq> [] \<and> last (print_words ws (Suc i) gap) \<noteq> CHR '':''"
      using Suc by simp
    then show ?thesis using e by simp
  qed
qed simp

lemma no_single_colon: "t \<noteq> [] \<Longrightarrow> last t \<noteq> CHR '':'' \<Longrightarrow> \<not> single_colon_end (x @ t)"
  using last_conv_nth [of "x @ t"] by (auto simp: single_colon_end_def)

lemma double_colon_end: "\<not> single_colon_end (x @ ''::'')"
  by (auto simp: single_colon_end_def nth_append)

abbreviation words0 :: "u16 list" where "words0 \<equiv> replicate 8 0xf8f8"

lemma pton_in6_no_dot:
  assumes "\<forall>c\<in>set t. word_char c" "\<not> single_colon_end t"
  shows "tor_inet_pton_in6 t = pton_words False t 0 words0 0"
proof -
  have "memchr t (CHR ''.'') = None"
    using assms(1) by (induction t) (auto simp: word_char_def is_digit_of_def digit_val_def)
  then show ?thesis using assms(2) by (auto simp: tor_inet_pton_in6_def single_colon_end_def Let_def)
qed

lemma read_words_no_gap:
  assumes "length ws = 8"
  shows "tor_inet_pton_in6 (print_words ws 0 (- 1)) = Done (words_bytes ws)"
proof -
  have "\<not> single_colon_end ([] @ print_words ws 0 (- 1))"
    by (rule no_single_colon) (use print_words_end [OF assms, of 0 "- 1"] in auto)
  then have "tor_inet_pton_in6 (print_words ws 0 (- 1)) = pton_words False (print_words ws 0 (- 1)) 0 words0 0"
    by (intro pton_in6_no_dot print_words_chars) simp
  also have "\<dots> = Done (words_bytes ws)"
    unfolding pton_words_def by (subst pton_tail [OF assms, where i = 0 and gap = "- 1"]) (simp_all add: pton_finish_def assms)
  finally show ?thesis .
qed

lemma zero_run_split:
  assumes "length ws = 8" "gap_at ws p len"
  shows "p + len \<le> 8" "take p ws @ replicate len 0 @ drop (p + len) ws = ws"
proof -
  have p: "p < 8" "skip_zeros ws p = p + len" using assms(2) by (auto simp: gap_at_def)
  then show le: "p + len \<le> 8" using skip_zeros_le_8 [of p ws] by simp
  have z: "p \<le> j \<Longrightarrow> j < p + len \<Longrightarrow> ws ! j = 0" for j using skip_zeros_zero [of p j ws] p by simp
  show "take p ws @ replicate len 0 @ drop (p + len) ws = ws"
    by (rule nth_equalityI) (use le assms(1) z in \<open>auto simp: nth_append\<close>)
qed

text \<open>The text from the gap on, and that the whole text does not end in a single colon.\<close>

lemma print_words_at_gap:
  assumes "p < 8" "ws ! p = 0"
  shows "print_words ws p (int p) = (if p = 0 then ''::'' else '':'') @ print_words ws (skip_zeros ws p) (int p)"
  using assms by (subst print_words.simps) simp

lemma print_words_with_gap:
  assumes "p < 8" "ws ! p = 0" "i \<le> p"
  shows "\<exists>x. print_words ws i (int p) =
    x @ (if p = 0 then ''::'' else if i = p then '':'' else ''::'') @ print_words ws (skip_zeros ws p) (int p)"
  using assms(3)
proof (induction "p - i" arbitrary: i)
  case 0
  then show ?case using print_words_at_gap [OF assms(1,2)] by simp
next
  case (Suc m)
  then have i: "i < p" by simp
  let ?t = "print_words ws (skip_zeros ws p) (int p)"
  have src: "print_words ws i (int p) = hex_digits (unat (ws ! i)) @ '':'' @ print_words ws (Suc i) (int p)"
    using i assms(1) by (subst print_words.simps) simp
  have "m = p - Suc i" using Suc.hyps(2) by simp
  from Suc.hyps(1) [OF this Suc_leI [OF i]]
  obtain x where x: "print_words ws (Suc i) (int p) = x @ (if p = 0 then ''::'' else if Suc i = p then '':'' else ''::'') @ ?t" ..
  show ?case
  proof (cases "Suc i = p")
    case True
    then have "print_words ws (Suc i) (int p) = '':'' @ ?t" using print_words_at_gap [OF assms(1,2)] by auto
    then have "print_words ws i (int p) = hex_digits (unat (ws ! i)) @ ''::'' @ ?t" by (simp add: src)
    then show ?thesis using i by auto
  next
    case False
    then have "print_words ws i (int p) = (hex_digits (unat (ws ! i)) @ '':'' @ x) @ ''::'' @ ?t" using src x i by simp
    then show ?thesis using i by auto
  qed
qed

lemma print_words_gap_end:
  assumes "length ws = 8" "p < 8" "ws ! p = 0"
  shows "\<not> single_colon_end (print_words ws 0 (int p))"
proof -
  define g where "g = skip_zeros ws p"
  obtain x where x: "print_words ws 0 (int p) = x @ ''::'' @ print_words ws g (int p)"
    using print_words_with_gap [OF assms(2,3), of 0] by (auto simp: g_def)
  have g: "p < g" "g \<le> 8" using skip_zeros_less [OF assms(2,3)] skip_zeros_le_8 [of p ws] assms(2) by (simp_all add: g_def)
  show ?thesis
  proof (cases "g = 8")
    case True
    then have "print_words ws g (int p) = []" by (subst print_words.simps) simp
    then show ?thesis using x double_colon_end by simp
  next
    case False
    then have "print_words ws g (int p) \<noteq> [] \<and> last (print_words ws g (int p)) \<noteq> CHR '':''"
      using g by (intro print_words_end [OF assms(1) g(2)]) auto
    then show ?thesis using x no_single_colon [of "print_words ws g (int p)" "x @ ''::''"] by simp
  qed
qed

lemma pton_to_gap:
  assumes "length ws = 8" "p < 8" "ws ! p = 0"
  shows "pton_loop 0 \<lparr>p_src = print_words ws 0 (int p), p_i = 0, p_words = words0, p_setWords = 0, p_gapPos = - 1\<rparr> =
    pton_loop 0 \<lparr>p_src = print_words ws (skip_zeros ws p) (int p), p_i = p, p_words = take p ws @ drop p words0,
      p_setWords = p, p_gapPos = int p\<rparr>"
proof -
  let ?t = "print_words ws (skip_zeros ws p) (int p)"
  have "pton_loop 0 \<lparr>p_src = print_words ws 0 (int p), p_i = 0, p_words = words0, p_setWords = 0, p_gapPos = - 1\<rparr> =
      pton_loop 0 \<lparr>p_src = print_words ws p (int p), p_i = p, p_words = take p ws @ drop p words0, p_setWords = p, p_gapPos = - 1\<rparr>"
    using pton_prefix [OF assms(1), of words0 0 p] assms(2) by simp
  also have "\<dots> = pton_loop 0 \<lparr>p_src = ?t, p_i = p, p_words = take p ws @ drop p words0, p_setWords = p, p_gapPos = int p\<rparr>"
  proof (cases "p = 0")
    case True
    then have "print_words ws p (int p) = CHR '':'' # CHR '':'' # ?t" using print_words_at_gap [OF assms(2,3)] by simp
    then show ?thesis using True by (subst pton_double_colon [where r = ?t]) simp_all
  next
    case False
    then have "print_words ws p (int p) = CHR '':'' # ?t" using print_words_at_gap [OF assms(2,3)] by simp
    then show ?thesis using False assms(2) by (subst pton_colon [where r = ?t]) simp_all
  qed
  finally show ?thesis .
qed

lemma fill_gap:
  assumes "length L = p" "length R = n" "length T = len" "g = p + len"
  shows "zero_words (move_words (L @ R @ T) g p n) p len = L @ replicate len 0 @ R"
proof -
  define X where "X = take g (L @ R @ T)"
  have m: "move_words (L @ R @ T) g p n = X @ R" using assms by (simp add: move_words_def X_def)
  have X: "length X = g" "take p X = L" using assms by (auto simp: X_def)
  show ?thesis unfolding m zero_words_def using X assms(4) by simp
qed

lemma pton_finish_gap:
  assumes "p_setWords s = k" "k < 8" "p_gapPos s = int p" "p \<le> k"
  shows "pton_finish False s = Done (words_bytes (zero_words (move_words (p_words s) (p + (8 - k)) p (k - p)) p (8 - k)))"
proof -
  have "nat (int k - int p) = k - p" by simp
  then show ?thesis using assms by (simp add: pton_finish_def Let_def)
qed

lemma read_words_gap:
  assumes "length ws = 8" "gap_at ws p len" "len \<ge> 2"
  shows "tor_inet_pton_in6 (print_words ws 0 (int p)) = Done (words_bytes ws)"
proof -
  note z = zero_run_split [OF assms(1,2)]
  define g where "g = p + len"
  have g: "g \<le> 8" "p + 2 \<le> g" "skip_zeros ws p = g" "p < 8" "ws ! p = 0"
    using z assms(2,3) by (auto simp: g_def gap_at_def)
  define t where "t = print_words ws g (int p)"
  have fin: "\<And>j. g \<le> j \<Longrightarrow> j < 8 \<Longrightarrow> \<not> (ws ! j = 0 \<and> int p = int j)" using g by auto
  let ?S = "\<lparr>p_src = t, p_i = p, p_words = take p ws @ drop p words0, p_setWords = p, p_gapPos = int p\<rparr>"
  let ?E = "\<lparr>p_src = [], p_i = p + (8 - g), p_words = take p ws @ drop g ws @ drop (p + (8 - g)) words0,
        p_setWords = p + (8 - g), p_gapPos = int p\<rparr>"
  have "tor_inet_pton_in6 (print_words ws 0 (int p)) = pton_words False (print_words ws 0 (int p)) 0 words0 0"
    by (intro pton_in6_no_dot print_words_chars print_words_gap_end [OF assms(1) g(4,5)])
  also have "\<dots> = and_then (pton_loop 0 ?S) (pton_finish False)"
    by (simp only: pton_words_def pton_to_gap [OF assms(1) g(4,5)] g(3) t_def)
  also have "pton_loop 0 ?S = Done ?E"
    using g assms(1) by (subst pton_tail [OF assms(1) g(1) fin]) (simp_all add: t_def)
  also have "and_then (Done ?E) (pton_finish False) = Done (words_bytes ws)"
  proof -
    define k where "k = p + (8 - g)"
    have k: "k < 8" "8 - k = len" "p + len = g" "k - p = 8 - g" "p \<le> k"
      using g z(1) by (simp_all add: g_def k_def)
    have f: "zero_words (move_words (take p ws @ drop g ws @ drop k words0) g p (8 - g)) p len = take p ws @ replicate len 0 @ drop g ws"
      by (rule fill_gap) (use g k assms(1) in auto)
    have "pton_finish False ?E = Done (words_bytes (zero_words (move_words (p_words ?E) (p + (8 - k)) p (k - p)) p (8 - k)))"
      by (rule pton_finish_gap) (use k in \<open>simp_all add: k_def\<close>)
    also have "\<dots> = Done (words_bytes ws)"
      unfolding pton_state.select_convs k(2-4) k_def [symmetric] f using z(2) by (simp add: g_def)
    finally show ?thesis by simp
  qed
  finally show ?thesis .
qed

section \<open>Texts with a dotted quad\<close>

lemma eow_back_digits:
  "\<forall>c\<in>set ds. TOR_ISDIGIT c \<Longrightarrow> eow_back (pre @ CHR '':'' # ds @ post) (length pre + length ds) = length pre"
proof (induction ds arbitrary: post rule: rev_induct)
  case Nil
  have "\<not> TOR_ISDIGIT (CHR '':'')" by (simp add: TOR_ISDIGIT_iff)
  then show ?case by (cases "length pre") (simp_all add: nth_append)
next
  case (snoc c ds)
  have "(pre @ CHR '':'' # (ds @ [c]) @ post) ! (Suc (length pre + length ds)) = c"
    by (simp add: nth_append)
  moreover have "eow_back (pre @ CHR '':'' # (ds @ [c]) @ post) (length pre + length ds) = length pre"
    using snoc.IH [of "c # post"] snoc.prems by simp
  ultimately show ?case using snoc.prems by simp
qed

lemma last_dec_digits: "last (dec_digits n) \<noteq> CHR '':''"
  using dec_digits_all [of n] dig_not_dot last_in_set [of "dec_digits n"] by auto

lemma pton_in6_quad:
  assumes "a < 256" "b < 256" "c < 256" "d < 256" "CHR ''.'' \<notin> set pre"
  shows "tor_inet_pton_in6 (pre @ CHR '':'' # dotted_quad a b c d) =
    pton_words True (pre @ CHR '':'' # dotted_quad a b c d) (length (dotted_quad a b c d))
      (words0[6 := push_bit 8 (of_nat a) OR of_nat b, 7 := push_bit 8 (of_nat c) OR of_nat d]) 2"
proof -
  define post where "post = dec_digits b @ ''.'' @ dec_digits c @ ''.'' @ dec_digits d"
  have q: "dotted_quad a b c d = dec_digits a @ CHR ''.'' # post" by (simp add: dotted_quad_def post_def)
  let ?t = "pre @ CHR '':'' # dec_digits a @ CHR ''.'' # post"
  have nd: "CHR ''.'' \<notin> set (pre @ CHR '':'' # dec_digits a)" using assms(5) dec_digits_all dig_not_dot by auto
  have dot: "memchr ?t (CHR ''.'') = Some (Suc (length pre + length (dec_digits a)))"
    using memchr_append [OF nd, of post] by simp
  have e: "eow_back ?t (length pre + length (dec_digits a)) = length pre"
    using eow_back_digits [of "dec_digits a" pre "CHR ''.'' # post"] dec_digits_all by (simp add: isdigit_is_dig)
  have "\<not> single_colon_end ((pre @ CHR '':'' # dec_digits a @ [CHR ''.'']) @ post)"
    by (rule no_single_colon) (simp_all add: post_def last_dec_digits)
  then have s: "\<not> single_colon_end ?t" by simp
  have at: "?t ! length pre = CHR '':''" "drop (Suc (length pre)) ?t = dotted_quad a b c d" by (simp_all add: q)
  have sc: "tor_sscanf (dotted_quad a b c d) quad_pattern = (4, [V_unsigned a, V_unsigned b, V_unsigned c, V_unsigned d])"
    by (rule sscanf_dotted_quad) (use assms in auto)
  show ?thesis using s assms
    unfolding q tor_inet_pton_in6_def Let_def dot option.case nat.case e at
    by (auto simp: sc at(2) single_colon_end_def q [symmetric])
qed

lemma replicate_8: "replicate 8 x = [x, x, x, x, x, x, x, x]"
  by (simp add: eval_nat_numeral)

lemma read_quad_plain:
  assumes "a < 256" "b < 256" "c < 256" "d < 256"
  shows "tor_inet_pton_in6 (''::'' @ dotted_quad a b c d) =
    Done (words_bytes (replicate 6 0 @ [push_bit 8 (of_nat a) OR of_nat b, push_bit 8 (of_nat c) OR of_nat d]))"
proof -
  let ?q = "dotted_quad a b c d"
  let ?ws = "words0[6 := push_bit 8 (of_nat a) OR of_nat b, 7 := push_bit 8 (of_nat c) OR of_nat d]"
  have "tor_inet_pton_in6 (''::'' @ ?q) = pton_words True (CHR '':'' # CHR '':'' # ?q) (length ?q) ?ws 2"
    using pton_in6_quad [OF assms, of "'':''"] by simp
  also have "\<dots> = pton_finish True \<lparr>p_src = ?q, p_i = 0, p_words = ?ws, p_setWords = 2, p_gapPos = 0\<rparr>"
    by (simp add: pton_words_def pton_double_colon [where r = ?q] pton_end)
  finally show ?thesis
    by (simp add: pton_finish_def move_words_def zero_words_def replicate_8 eval_nat_numeral)
qed

lemma read_quad_mapped:
  assumes "a < 256" "b < 256" "c < 256" "d < 256" "w < 65536"
  shows "tor_inet_pton_in6 (''::'' @ hex_digits w @ '':'' @ dotted_quad a b c d) =
    Done (words_bytes (replicate 5 0 @ [of_nat w, push_bit 8 (of_nat a) OR of_nat b, push_bit 8 (of_nat c) OR of_nat d]))"
proof -
  let ?q = "dotted_quad a b c d"
  let ?r = "hex_digits w @ CHR '':'' # ?q"
  let ?ws = "words0[6 := push_bit 8 (of_nat a) OR of_nat b, 7 := push_bit 8 (of_nat c) OR of_nat d]"
  have nd: "CHR ''.'' \<notin> set (''::'' @ hex_digits w)" using hex_digits_hex [of w] hex_not_colon by auto
  have "tor_inet_pton_in6 (''::'' @ hex_digits w @ '':'' @ ?q) = pton_words True (CHR '':'' # CHR '':'' # ?r) (length ?q) ?ws 2"
    using pton_in6_quad [OF assms(1-4) nd] by simp
  also have "\<dots> = and_then (pton_loop (length ?q) \<lparr>p_src = ?r, p_i = 0, p_words = ?ws, p_setWords = 2, p_gapPos = 0\<rparr>)
      (pton_finish True)"
    by (simp add: pton_words_def pton_double_colon [where r = ?r])
  also have "\<dots> = pton_finish True \<lparr>p_src = ?q, p_i = 1, p_words = ?ws[0 := of_nat w], p_setWords = 3, p_gapPos = 0\<rparr>"
    using assms(5) by (subst pton_hex [where n = w and rest = "CHR '':'' # ?q"]) (simp_all add: colon_or_end_def pton_end)
  finally show ?thesis
    by (simp add: pton_finish_def move_words_def zero_words_def replicate_8 eval_nat_numeral)
qed

section \<open>An IPv6 address is read back from its text\<close>

lemma in6_words_list: "in6_words b = [in6_words b ! 0, in6_words b ! 1, in6_words b ! 2, in6_words b ! 3,
    in6_words b ! 4, in6_words b ! 5, in6_words b ! 6, in6_words b ! 7]"
  by (simp add: in6_words_def upt_rec eval_nat_numeral)

lemma in6_roundtrip:
  assumes "length b = 16"
  shows "tor_inet_pton_in6 (in6_text b) = Done b"
proof -
  define ws where "ws = in6_words b"
  have len: "length ws = 8" by (simp add: ws_def)
  have wb: "words_bytes ws = b" using words_bytes_in6 [OF assms] by (simp add: ws_def)
  let ?q = "dotted_quad (unat (b ! 12)) (unat (b ! 13)) (unat (b ! 14)) (unat (b ! 15))"
  have q: "unat (b ! k) < 256" for k using unat_u8_less [of "b ! k"] by simp
  have w67: "push_bit 8 (of_nat (unat (b ! 12))) OR of_nat (unat (b ! 13)) = ws ! 6"
    "push_bit 8 (of_nat (unat (b ! 14))) OR of_nat (unat (b ! 15)) = ws ! 7"
    using quad_half_in6 [of b 6] quad_half_in6 [of b 7] by (simp_all add: ws_def in6_words_nth)
  let ?z = "ws ! 0 = 0 \<and> ws ! 1 = 0 \<and> ws ! 2 = 0 \<and> ws ! 3 = 0 \<and> ws ! 4 = 0"
  consider (plain) ?z "ws ! 5 = 0" "ws ! 6 \<noteq> 0" "ws ! 7 \<noteq> 0" | (mapped) ?z "ws ! 5 = 0xffff"
    | (words) "\<not> (?z \<and> (ws ! 5 = 0 \<and> ws ! 6 \<noteq> 0 \<and> ws ! 7 \<noteq> 0 \<or> ws ! 5 = 0xffff))" by blast
  then show ?thesis
  proof cases
    case plain
    then have "in6_text b = ''::'' @ ?q" by (simp add: in6_text_def Let_def flip: ws_def)
    moreover have "replicate 6 0 @ [ws ! 6, ws ! 7] = ws"
      using in6_words_list [of b] plain by (simp add: eval_nat_numeral flip: ws_def)
    ultimately show ?thesis using read_quad_plain [OF q q q q, of 12 13 14 15] w67 wb by simp
  next
    case mapped
    then have "in6_text b = ''::'' @ hex_digits 65535 @ '':'' @ ?q" by (simp add: in6_text_def Let_def flip: ws_def)
    moreover have "replicate 5 0 @ [0xffff, ws ! 6, ws ! 7] = ws"
      using in6_words_list [of b] mapped by (simp add: eval_nat_numeral flip: ws_def)
    ultimately show ?thesis using read_quad_mapped [OF q q q q, of 65535 12 13 14 15] w67 wb by simp
  next
    case words
    obtain pos n where g: "longest_gap ws 0 (- 1) 0 = (pos, n)" by fastforce
    have t: "in6_text b = print_words ws 0 (if n \<le> 1 then - 1 else pos)"
      using words g by (auto simp: in6_text_def Let_def simp flip: ws_def)
    show ?thesis
    proof (cases "n \<le> 1")
      case True
      then show ?thesis using t read_words_no_gap [OF len] wb by simp
    next
      case False
      then obtain p where "pos = int p" "gap_at ws p n" using longest_gap_ok [OF g] by auto
      then show ?thesis using t False read_words_gap [OF len] wb by simp
    qed
  qed
qed

end
