(* ===== verification/Address_Props.thy ===== *)
theory Address_Props
  imports Address_Text Smart_List
begin

text \<open>
  The properties of addresses: texts that fit their buffers and are read back, parsers that never fail
  an assertion, the order of the exact comparison, and how the numbers of a pattern are read.
\<close>

section \<open>The texts fit their buffers\<close>

lemma print_words_length: "i \<le> 8 \<Longrightarrow> length (print_words ws i gap) \<le> 5 * (8 - i)"
proof (induction "8 - i" arbitrary: i rule: less_induct)
  case less
  consider "i = 8" | (gap) "i < 8" "ws ! i = 0" "gap = int i" | (word) "i < 8" "\<not> (ws ! i = 0 \<and> gap = int i)"
    using less.prems by linarith
  then show ?case
  proof cases
    case 1
    then show ?thesis by (subst print_words.simps) simp
  next
    case gap
    define j where "j = skip_zeros ws i"
    have j: "i < j" "j \<le> 8" using gap skip_zeros_less [of i ws] skip_zeros_le_8 [of i ws] by (simp_all add: j_def)
    then have "length (print_words ws j gap) \<le> 5 * (8 - j)" using less.hyps [of j] gap(1) by simp
    moreover have "8 - i = (8 - j) + (j - i)" "1 \<le> j - i" using j by simp_all
    ultimately have "2 + length (print_words ws j gap) \<le> 5 * (8 - i)" by linarith
    then show ?thesis using gap j by (subst print_words.simps) (auto simp flip: j_def)
  next
    case word
    have "length (print_words ws (Suc i) gap) \<le> 5 * (8 - Suc i)" using less.hyps [of "Suc i"] word(1) by simp
    moreover have "length (hex_digits (unat (ws ! i))) \<le> 4" by (rule hex_digits_length) (rule unat_u16_less)
    moreover have "print_words ws i gap =
        hex_digits (unat (ws ! i)) @ (if i \<noteq> 7 then '':'' else []) @ print_words ws (Suc i) gap"
      using word by (subst print_words.simps) auto
    moreover have "8 - i = Suc (8 - Suc i)" using word(1) by simp
    ultimately show ?thesis by (auto split: if_splits)
  qed
qed

lemma dotted_quad_length: "a < 256 \<Longrightarrow> b < 256 \<Longrightarrow> c < 256 \<Longrightarrow> d < 256 \<Longrightarrow>
    length (dotted_quad a b c d) \<le> 15 \<and> 7 \<le> length (dotted_quad a b c d)"
proof -
  have "1 \<le> length (dec_digits n)" for n by (simp add: Suc_le_eq)
  from this [of a] this [of b] this [of c] this [of d]
  show "a < 256 \<Longrightarrow> b < 256 \<Longrightarrow> c < 256 \<Longrightarrow> d < 256 \<Longrightarrow> ?thesis"
    using dec_digits_length [of a] dec_digits_length [of b] dec_digits_length [of c] dec_digits_length [of d]
    by (simp add: dotted_quad_def)
qed

lemma quad_text_length: "length (quad_text a) \<le> 15"
  unfolding quad_text_def by (rule conjunct1 [OF dotted_quad_length]) (simp_all add: unat_and_ff)

lemma in6_text_length: "length (in6_text b) \<le> 40"
proof -
  have "unat (b ! k) < 256" for k using unat_u8_less [of "b ! k"] by simp
  then have q: "length (dotted_quad (unat (b ! 12)) (unat (b ! 13)) (unat (b ! 14)) (unat (b ! 15))) \<le> 15"
    using dotted_quad_length by blast
  have "length (hex_digits n) \<le> 4" if "n < 65536" for n using hex_digits_length that by simp
  then have h: "length (hex_digits (unat (w :: u16))) \<le> 4" for w using unat_u16_less by blast
  have f: "length (hex_digits 65535) \<le> 4" by (rule hex_digits_length) simp
  obtain pos n where g: "longest_gap (in6_words b) 0 (- 1) 0 = (pos, n)" by fastforce
  show ?thesis
    using q f h [of "in6_words b ! 5"] print_words_length [of 0 "in6_words b" "- 1"] print_words_length [of 0 "in6_words b" pos]
    by (simp add: in6_text_def Let_def g)
qed

section \<open>Reading back a whole address\<close>

lemma aton_colon: "CHR '':'' \<in> set s \<Longrightarrow> tor_inet_aton s = Minus_1"
proof (rule ccontr)
  assume c: "CHR '':'' \<in> set s" and "tor_inet_aton s \<noteq> Minus_1"
  then obtain w where "tor_inet_aton s = Done w" using aton_no_assert [of s] by (cases "tor_inet_aton s") auto
  then have "s = quad_text w" by (simp add: aton_iff)
  then show False using c dec_digits_all dig_not_dot by (auto simp: quad_text_def dotted_quad_def)
qed

lemma in6_text_colon: "CHR '':'' \<in> set (in6_text b)"
proof -
  have w: "CHR '':'' \<in> set (print_words ws 0 gap)" for ws gap by (subst print_words.simps) simp
  obtain pos n where g: "longest_gap (in6_words b) 0 (- 1) 0 = (pos, n)" by fastforce
  show ?thesis using w by (auto simp: in6_text_def Let_def g)
qed

lemma in6_text_not_bracket: "in6_text b \<noteq> [] \<and> hd (in6_text b) \<noteq> CHR ''[''"
proof -
  have w: "print_words ws 0 gap \<noteq> [] \<and> hd (print_words ws 0 gap) \<noteq> CHR ''[''" for ws gap
  proof -
    have "hd (hex_digits (unat (ws ! 0))) \<noteq> CHR ''[''"
      using hex_digits_hex [of "unat (ws ! 0)"] by (cases "hex_digits (unat (ws ! 0))") (auto simp: is_digit_of_def digit_val_def)
    then show ?thesis by (subst (1 2) print_words.simps) (simp add: hd_append)
  qed
  obtain pos n where g: "longest_gap (in6_words b) 0 (- 1) 0 = (pos, n)" by fastforce
  show ?thesis using w by (auto simp: in6_text_def Let_def g)
qed

lemma quad_text_hd: "quad_text w \<noteq> [] \<and> is_dig (hd (quad_text w))"
proof -
  have "dec_digits n \<noteq> [] \<and> is_dig (hd (dec_digits n))" for n
    using dec_digits_all [of n] by (cases "dec_digits n") auto
  then show ?thesis by (simp add: quad_text_def dotted_quad_def)
qed

lemma memchr_Some_in: "memchr s c = Some k \<Longrightarrow> c \<in> set s"
  using memchr_less [of s c k] by auto

lemma eow_back_le: "eow_back s j \<le> j"
  by (induction s j rule: eow_back.induct) auto

lemma pton_in6_needs_colon:
  assumes "CHR '':'' \<notin> set s" "CHR ''.'' \<in> set s"
  shows "tor_inet_pton_in6 s = Minus_1"
proof -
  obtain k where k: "memchr s (CHR ''.'') = Some k"
    using assms(2) by (cases "memchr s (CHR ''.'')") (auto simp: memchr_None)
  show ?thesis
  proof (cases k)
    case 0
    then show ?thesis using k by (simp add: tor_inet_pton_in6_def Let_def)
  next
    case (Suc j)
    have "j < length s" using memchr_less [OF k] Suc by simp
    then have "eow_back s j < length s" using eow_back_le [of s j] by simp
    then have "s ! eow_back s j \<noteq> CHR '':''" using assms(1) by (metis nth_mem)
    then show ?thesis using k Suc by (simp add: tor_inet_pton_in6_def Let_def)
  qed
qed

lemma parse_ipv4_text: "tor_addr_parse_impl (quad_text w) allow = Done (Addr_ipv4 w)"
proof -
  have b: "\<not> (quad_text w \<noteq> [] \<and> hd (quad_text w) = CHR ''['' \<and> last (quad_text w) = CHR '']'')"
    using quad_text_hd [of w] by (auto simp: is_digit_of_def digit_val_def)
  have "CHR '':'' \<notin> set (quad_text w)" "CHR ''.'' \<in> set (quad_text w)"
    using dec_digits_all dig_not_dot by (auto simp: quad_text_def dotted_quad_def)
  then have "tor_inet_pton_in6 (quad_text w) = Minus_1" using pton_in6_needs_colon by blast
  then show ?thesis using b aton_iff [of "quad_text w" w]
    by (auto simp: tor_addr_parse_impl_def Let_def tor_inet_pton_def)
qed

lemma parse_ipv6_text:
  assumes "length b = 16"
  shows "tor_addr_parse_impl (''['' @ in6_text b @ '']'') allow = Done (Addr_ipv6 b)"
    "tor_addr_parse_impl (in6_text b) True = Done (Addr_ipv6 b)"
  using in6_roundtrip [OF assms] aton_colon [OF in6_text_colon] in6_text_not_bracket [of b]
  by (simp_all add: tor_addr_parse_impl_def Let_def tor_inet_pton_def)

section \<open>Reverse lookup names\<close>

lemma swap_bytes32_quad: "a < 256 \<Longrightarrow> b < 256 \<Longrightarrow> c < 256 \<Longrightarrow> d < 256 \<Longrightarrow>
    swap_bytes32 (quad_word a b c d) = quad_word d c b a"
proof -
  assume le: "a < 256" "b < 256" "c < 256" "d < 256"
  let ?w = "quad_word a b c d"
  have f: "unat (?w AND 0xff) = d" "unat (drop_bit 8 ?w AND 0xff) = c" "unat (drop_bit 16 ?w AND 0xff) = b"
    "unat (drop_bit 24 ?w AND 0xff) = a"
    using le four_bytes [OF le] by (simp_all add: unat_and_ff unat_drop_bit unat_quad_word)
  have o: "?w AND 0xff = of_nat d" "drop_bit 8 ?w AND 0xff = of_nat c" "drop_bit 16 ?w AND 0xff = of_nat b"
    "drop_bit 24 ?w AND 0xff = of_nat a"
    using le f by (intro iffD1 [OF unat_inj_iff]; simp add: unat_of_nat)+
  have m: "0x000000ff = (mask 8 :: u32)" "0x0000ff00 = push_bit 8 (mask 8 :: u32)"
    "0x00ff0000 = push_bit 16 (mask 8 :: u32)" "0xff000000 = push_bit 24 (mask 8 :: u32)"
    by (simp_all add: mask_eq_exp_minus_1)
  have e: "push_bit 8 (w AND 0x0000ff00) = push_bit 16 (drop_bit 8 w AND 0xff)"
    "drop_bit 8 (w AND 0x00ff0000) = push_bit 8 (drop_bit 16 w AND 0xff)"
    "drop_bit 24 (w AND 0xff000000) = drop_bit 24 w AND 0xff" for w :: u32
    unfolding m by (rule bit_word_eqI; auto simp: bit_simps)+
  show ?thesis
    unfolding swap_bytes32_def e quad_word_def [of d c b a]
    using o by simp
qed

section \<open>Reverse lookup names are read back\<close>

abbreviation lower :: "string \<Rightarrow> string" where "lower \<equiv> map TOR_TOLOWER"

lemma tolower_upper: "TOR_ISUPPER c \<Longrightarrow> (of_char (TOR_TOLOWER c) :: nat) = of_char c + 32"
  by (auto simp: TOR_TOLOWER_eq TOR_ISUPPER_iff take_bit_eq_mod)

lemma tolower_code: "(of_char d :: nat) < 65 \<Longrightarrow> TOR_TOLOWER c = d \<longleftrightarrow> c = d"
proof -
  assume d: "(of_char d :: nat) < 65"
  show ?thesis
  proof (cases "TOR_ISUPPER c")
    case True
    then have "(of_char c :: nat) \<ge> 65" "(of_char (TOR_TOLOWER c) :: nat) \<ge> 65"
      using tolower_upper [OF True] by (simp_all add: TOR_ISUPPER_iff)
    then show ?thesis using d by auto
  qed (simp add: TOR_TOLOWER_eq)
qed

lemma tolower_nul: "TOR_TOLOWER c = NUL \<longleftrightarrow> c = NUL"
  and tolower_dot: "TOR_TOLOWER c = CHR ''.'' \<longleftrightarrow> c = CHR ''.''"
  by (simp_all add: tolower_code)

lemma nul_lower: "NUL \<in> TOR_TOLOWER ` set s \<longleftrightarrow> NUL \<in> set s"
  by (metis (no_types, lifting) image_iff tolower_nul)

lemma strcasecmpend_suffix:
  assumes "NUL \<notin> set s" "NUL \<notin> set t"
  shows "strcasecmpend s t = 0 \<longleftrightarrow> suffix (lower t) (lower s)"
proof -
  have "strcasecmpend s t = strcmpend (lower s) (lower t)"
    by (simp add: strcasecmpend_def strcmpend_def strncasecmp_def strcasecmp_def drop_map Let_def)
  then show ?thesis using strcmpend_suffix [of "lower s" "lower t"] assms by (simp add: nul_lower)
qed

lemma lower_in_addr: "lower ''.in-addr.arpa'' = ''.in-addr.arpa''"
  and lower_ip6: "lower ''.ip6.arpa'' = ''.ip6.arpa''" "lower ''ip6.arpa'' = ''ip6.arpa''"
  by (simp_all add: TOR_TOLOWER_eq TOR_ISUPPER_iff)

lemma nibble_or: "a < 16 \<Longrightarrow> b < 16 \<Longrightarrow> int a OR push_bit 4 (int b) = int (a + 16 * b)"
proof -
  assume a: "a < 16" "b < 16"
  have "int a AND push_bit 4 (int b) = 0"
  proof (rule bit_eqI)
    fix n
    have "bit (int a) n \<Longrightarrow> n < 4"
    proof (rule ccontr)
      assume "bit (int a) n" "\<not> n < 4"
      then have "(16 :: int) \<le> 2 ^ n" using power_increasing [of 4 n "2 :: int"] by simp
      then have "int a < 2 ^ n" using a(1) by linarith
      then show False using \<open>bit (int a) n\<close> by (simp add: bit_iff_odd)
    qed
    then show "bit (int a AND push_bit 4 (int b)) n = bit (0 :: int) n" by (auto simp: bit_and_iff bit_push_bit_iff_int)
  qed
  then have "int a OR push_bit 4 (int b) = int a + push_bit 4 (int b)" by (simp add: disjunctive_add_eq_or)
  then show ?thesis by (simp add: push_bit_eq_mult)
qed

lemma nybbles_byte: "of_nat (unat (b AND 0x0f) + 16 * unat (drop_bit 4 b)) = (b :: u8)"
proof -
  have "unat (b AND 0x0f) = unat b mod 16" using unat_and_mask [of b 4] by (simp add: mask_eq_exp_minus_1)
  moreover have "unat (drop_bit 4 b) = unat b div 16" by (simp add: unat_drop_bit)
  ultimately show ?thesis by (simp add: mod_mult_div_eq unsigned_of_nat)
qed

lemma parse_nybble_text:
  "parse_nybbles (length l) (concat (map nybble_text l) @ rest) acc = Done (rev l @ acc, rest)"
proof (induction l arbitrary: acc)
  case (Cons b l)
  let ?a = "unat (b AND 0x0f)" and ?c = "unat (drop_bit 4 b)"
  have "?a = unat b mod 16" using unat_and_mask [of b 4] by (simp add: mask_eq_exp_minus_1)
  then have a: "?a < 16" by simp
  have c: "?c < 16" using unat_u8_less [of b] by (simp add: unat_drop_bit)
  have "word_of_int (int ?a OR push_bit 4 (int ?c)) = b"
    using nibble_or [OF a c] nybbles_byte [of b] by (metis of_int_of_nat_eq)
  then show ?case using Cons hex_char [OF a] hex_char [OF c] by (simp add: nybble_text_def Let_def)
qed simp

lemma nul_dec: "NUL \<notin> set (dec_digits n)"
proof -
  have "\<not> is_dig NUL" by (simp add: is_digit_of_def digit_val_def)
  then show ?thesis using dec_digits_all [of n] by blast
qed

lemma ptr_ipv4:
  assumes "29 \<le> outlen" "family \<noteq> AF_INET6"
  shows "\<exists>t. tor_addr_to_PTR_name outlen (Addr_ipv4 a) = Some t \<and>
    tor_addr_parse_PTR_name t family regular = Done (Ptr_is (Addr_ipv4 a))"
proof -
  let ?a = "unat (drop_bit 24 a AND 0xff)" and ?b = "unat (drop_bit 16 a AND 0xff)"
    and ?c = "unat (drop_bit 8 a AND 0xff)" and ?d = "unat (a AND 0xff)"
  have le: "?a < 256" "?b < 256" "?c < 256" "?d < 256" by (simp_all add: unat_and_ff)
  define q where "q = dotted_quad ?d ?c ?b ?a"
  have ql: "length q \<le> 15" using dotted_quad_length le by (simp add: q_def)
  let ?t = "q @ ''.in-addr.arpa''"
  have to: "tor_addr_to_PTR_name outlen (Addr_ipv4 a) = Some ?t"
    using ql assms(1) by (simp add: tor_snprintf_def q_def)
  have nul: "NUL \<notin> set ?t"
    using nul_dec by (simp add: q_def dotted_quad_def)
  have e: "strcasecmpend ?t ''.in-addr.arpa'' = 0"
    using nul by (simp add: strcasecmpend_suffix lower_in_addr suffix_def)
  have "tor_inet_aton q = Done (quad_word ?d ?c ?b ?a)" unfolding q_def by (rule aton_dotted_quad) (use le in auto)
  moreover have "swap_bytes32 (quad_word ?d ?c ?b ?a) = a" using swap_bytes32_quad le quad_word_surj [of a] by simp
  ultimately have "tor_addr_parse_PTR_name ?t family regular = Done (Ptr_is (Addr_ipv4 a))"
    using e assms(2) ql by (simp add: tor_addr_parse_PTR_name_def)
  then show ?thesis using to by blast
qed

lemma strcasecmp_refl: "NUL \<notin> set s \<Longrightarrow> strcasecmp s s = 0"
  by (simp add: strcasecmp_def strcmp_zero_iff nul_lower)

lemma ptr_ipv6:
  assumes "REVERSE_LOOKUP_NAME_BUF_LEN \<le> outlen" "family \<noteq> AF_INET" "length b = 16"
  shows "\<exists>t. tor_addr_to_PTR_name outlen (Addr_ipv6 b) = Some t \<and>
    tor_addr_parse_PTR_name t family regular = Done (Ptr_is (Addr_ipv6 b))"
proof -
  define x where "x = concat (map nybble_text (rev b))"
  let ?t = "x @ ''ip6.arpa''"
  have "map (\<lambda>i. nybble_text (b ! i)) (rev [0..<16]) = map nybble_text (rev b)"
  proof -
    have "map ((!) b) [0..<16] = b" using assms(3) by (metis map_nth)
    then have "rev b = map ((!) b) (rev [0..<16])" by (metis rev_map)
    then show ?thesis by simp
  qed
  then have to: "tor_addr_to_PTR_name outlen (Addr_ipv6 b) = Some ?t" using assms(1) by (simp add: x_def)
  have hc: "''0123456789abcdef'' ! unat (c AND 0x0f) \<noteq> NUL" "''0123456789abcdef'' ! unat (drop_bit 4 c) \<noteq> NUL" for c :: u8
  proof -
    have "unat (c AND 0x0f) < 16" using unat_and_mask [of c 4] by (simp add: mask_eq_exp_minus_1)
    moreover have "unat (drop_bit 4 c) < 16" using unat_u8_less [of c] by (simp add: unat_drop_bit)
    moreover have "list_all (\<lambda>n. ''0123456789abcdef'' ! n \<noteq> NUL) [0..<16]" by code_simp
    ultimately show "''0123456789abcdef'' ! unat (c AND 0x0f) \<noteq> NUL" "''0123456789abcdef'' ! unat (drop_bit 4 c) \<noteq> NUL"
      by (simp_all add: list_all_iff del: upt_rec_numeral)
  qed
  have "NUL \<notin> set (nybble_text c)" for c using hc [of c] by (simp add: nybble_text_def)
  then have nul: "NUL \<notin> set ?t" by (auto simp: x_def)
  obtain c cs where c: "rev b = cs @ [c]" using assms(3) by (metis list.size(3) rev.simps(1) rev_exhaust rev_rev_ident zero_neq_numeral)
  obtain h where h: "x = h @ ''.''" by (simp add: x_def c nybble_text_def)
  have s6: "suffix ''.ip6.arpa'' (lower ?t)" using lower_ip6(2) tolower_dot [of "CHR ''.''"] by (simp add: h suffix_def)
  have n4: "\<not> suffix ''.in-addr.arpa'' (lower ?t)"
  proof
    assume "suffix ''.in-addr.arpa'' (lower ?t)"
    then have "suffix ''r.arpa'' (lower ?t)" by (auto simp: suffix_def)
    moreover have "suffix ''6.arpa'' (lower ?t)" using s6 by (auto simp: suffix_def)
    ultimately show False by (auto simp: suffix_def)
  qed
  have "parse_nybbles 16 ?t [] = Done (b, ''ip6.arpa'')"
    using parse_nybble_text [of "rev b" "''ip6.arpa''" "[]"] assms(3) by (simp add: x_def)
  moreover have "strcasecmpend ?t ''.ip6.arpa'' = 0" "strcasecmpend ?t ''.in-addr.arpa'' \<noteq> 0"
    using s6 n4 strcasecmpend_suffix [OF nul, of "''.ip6.arpa''"] strcasecmpend_suffix [OF nul, of "''.in-addr.arpa''"]
    unfolding lower_in_addr lower_ip6 by (simp_all del: map_append)
  ultimately have "tor_addr_parse_PTR_name ?t family regular = Done (Ptr_is (Addr_ipv6 b))"
    using assms(2) strcasecmp_refl [of "''ip6.arpa''"] by (simp add: tor_addr_parse_PTR_name_def)
  then show ?thesis using to by blast
qed

section \<open>No text trips an assertion\<close>

lemma hex_value_less: "length ds \<le> 4 \<Longrightarrow> \<forall>c\<in>set ds. is_hex c \<Longrightarrow> digits_value 16 ds < 65536"
proof -
  have "\<forall>c\<in>set ds. is_hex c \<Longrightarrow> digits_value 16 ds < 16 ^ length ds" for ds
  proof (induction ds rule: rev_induct)
    case (snoc c ds)
    then obtain d where "digit_val c = Some d" "d < 16" by (auto simp: is_digit_of_def split: option.splits)
    then show ?case using snoc by (simp add: digits_value_def)
  qed (simp add: digits_value_def)
  moreover assume "length ds \<le> 4" "\<forall>c\<in>set ds. is_hex c"
  moreover have "(16 :: nat) ^ length ds \<le> 16 ^ 4" using \<open>length ds \<le> 4\<close> by (intro power_increasing) auto
  ultimately show ?thesis by fastforce
qed

lemma strtol_hex_parts:
  assumes "is_hex c" "endptr (strtol (c # cs) 16) = Some nx"
  obtains ds s3 where "ds \<noteq> []" "nx = drop (length ds) s3" "ds = takeWhile is_hex s3"
    "s3 = c # cs \<or> s3 = drop 2 (c # cs) \<and> (take 2 (c # cs) = ''0x'' \<or> take 2 (c # cs) = ''0X'')"
    "strtox_r (strtol (c # cs) 16) = int (digits_value 16 ds) \<or> int (digits_value 16 ds) > INT64_MAX"
proof -
  let ?s = "c # cs"
  have sgn: "split_sign (dropWhile c_isspace ?s) = (False, ?s)" using hex_char_facts [OF assms(1)] by simp
  obtain base s3 where b: "split_base 16 ?s = (base, s3)" by fastforce
  have b16: "base = 16" and s3: "s3 = ?s \<or> s3 = drop 2 ?s \<and> (take 2 ?s = ''0x'' \<or> take 2 ?s = ''0X'')"
    using b by (auto simp: split_base_def split: if_splits)
  define ds where "ds = takeWhile is_hex s3"
  have scan: "strto_scan ?s 16 = (if ds = [] then None else Some (False, digits_value 16 ds, drop (length ds) s3))"
    unfolding strto_scan_def sgn by (simp add: b b16 ds_def Let_def)
  have "ds \<noteq> []" "nx = drop (length ds) s3" "strtox_r (strtol ?s 16) = int (digits_value 16 ds)
      \<or> int (digits_value 16 ds) > INT64_MAX"
    using assms(2) unfolding strtol_def scan by (auto simp: Let_def split: if_splits)
  then show thesis using that s3 ds_def by blast
qed

lemma strtol_hex_bounds:
  assumes "is_hex c" "endptr (strtol (c # cs) 16) = Some nx" "length (c # cs) - length nx \<le> 4"
  shows "0 \<le> strtox_r (strtol (c # cs) 16) \<and> strtox_r (strtol (c # cs) 16) < 65536"
proof -
  obtain ds s3 where p: "nx = drop (length ds) s3" "ds = takeWhile is_hex s3"
    "s3 = c # cs \<or> s3 = drop 2 (c # cs) \<and> (take 2 (c # cs) = ''0x'' \<or> take 2 (c # cs) = ''0X'')"
    "strtox_r (strtol (c # cs) 16) = int (digits_value 16 ds) \<or> int (digits_value 16 ds) > INT64_MAX"
    by (rule strtol_hex_parts [OF assms(1,2)])
  have "length s3 \<le> length (c # cs)" "length ds \<le> length s3"
    using p(3) length_takeWhile_le [of is_hex s3] by (auto simp: p(2))
  then have "length ds \<le> length (c # cs) - length nx" using p(1) by simp
  then have "length ds \<le> 4" using assms(3) by simp
  then have "digits_value 16 ds < 65536" by (rule hex_value_less) (auto simp: p(2) dest: set_takeWhileD)
  then show ?thesis using p(4) by auto
qed

lemma strtol_hex_dot:
  assumes "is_hex c" "endptr (strtol (c # cs) 16) = Some nx" "CHR ''.'' \<in> set (c # cs)"
  shows "CHR ''.'' \<in> set nx"
proof -
  obtain ds s3 where p: "nx = drop (length ds) s3" "ds = takeWhile is_hex s3"
    "s3 = c # cs \<or> s3 = drop 2 (c # cs) \<and> (take 2 (c # cs) = ''0x'' \<or> take 2 (c # cs) = ''0X'')"
    by (rule strtol_hex_parts [OF assms(1,2)])
  have "CHR ''.'' \<notin> set (take 2 (c # cs)) \<or> s3 = c # cs" using p(3) by auto
  then have "CHR ''.'' \<in> set s3" using assms(3) p(3) by (metis Un_iff append_take_drop_id set_append)
  moreover have "CHR ''.'' \<notin> set ds" by (auto simp: p(2) is_digit_of_def digit_val_def dest: set_takeWhileD)
  moreover have "s3 = ds @ nx" by (simp add: p(1,2) dropWhile_eq_drop [symmetric])
  ultimately show ?thesis by simp
qed

lemma pton_loop_safe:
  assumes "eow_len = 0 \<or> CHR ''.'' \<in> set (p_src s) \<or> length (p_src s) \<le> eow_len"
    "p_setWords s = p_i s + k" "p_gapPos s \<le> int (p_i s)"
  shows "pton_loop eow_len s \<noteq> Assertion_failed \<and>
    (\<forall>s'. pton_loop eow_len s = Done s' \<longrightarrow> p_setWords s' = p_i s' + k \<and> p_gapPos s' \<le> int (p_i s'))"
  using assms
proof (induction "length (p_src s)" arbitrary: s rule: less_induct)
  case less
  have dot: "CHR ''.'' \<in> set x \<Longrightarrow> y \<noteq> CHR ''.'' \<Longrightarrow> x = y # z \<Longrightarrow> CHR ''.'' \<in> set z" for x y z by auto
  consider (stop) "length (p_src s) \<le> eow_len" | (full) "length (p_src s) > eow_len" "p_i s > 7"
    | (go) "length (p_src s) > eow_len" "p_i s \<le> 7" by linarith
  then show ?case
  proof cases
    case stop
    then show ?thesis using less.prems by (simp add: pton_end)
  next
    case full
    then show ?thesis by (subst (1 2) pton_loop.simps) simp
  next
    case go
    then obtain c cs where src: "p_src s = c # cs" by (cases "p_src s") auto
    consider (hex) "is_hex c" | (gap) "\<not> is_hex c" "c = CHR '':''" "p_i s > 0" "p_gapPos s = - 1"
      | (gap2) z where "\<not> is_hex c" "c = CHR '':''" "p_i s = 0" "p_gapPos s = - 1" "cs = CHR '':'' # z" "length cs > eow_len"
      | (bad) "\<not> is_hex c" "\<not> (c = CHR '':'' \<and> p_i s > 0 \<and> p_gapPos s = - 1)"
          "\<not> (c = CHR '':'' \<and> p_i s = 0 \<and> length cs > eow_len \<and> take 1 cs = '':'' \<and> p_gapPos s = - 1)"
      by (cases cs) auto
    then show ?thesis
    proof cases
      case hex
      let ?x = "strtol (c # cs) 16"
      show ?thesis
      proof (cases "endptr ?x")
        case None
        then show ?thesis using go hex by (subst (1 2) pton_loop.simps) (simp add: src isxdigit_is_hex)
      next
        case (Some nx)
        note nx = Some
        define ok where "ok = pton_hex_ok (c # cs) eow_len nx"
        have d: "eow_len = 0 \<or> CHR ''.'' \<in> set nx"
          using less.prems(1) go(1) strtol_hex_dot [OF hex nx] by (auto simp: src)
        have b: "0 \<le> strtox_r ?x \<and> strtox_r ?x < 65536" if ok
        proof (rule strtol_hex_bounds [OF hex nx])
          show "length (c # cs) - length nx \<le> 4"
            using that d by (cases "nx = []") (auto simp: ok_def pton_hex_ok_def Let_def)
        qed
        let ?s = "s\<lparr>p_src := drop 1 nx, p_i := p_i s + 1,
                    p_words := (p_words s)[p_i s := word_of_int (strtox_r ?x)], p_setWords := p_setWords s + 1\<rparr>"
        have e: "pton_loop eow_len s = (if \<not> ok then Minus_1
            else if take 1 nx \<noteq> '':'' \<and> length nx \<noteq> eow_len then Minus_1 else pton_loop eow_len ?s)"
          using go hex nx b by (subst pton_loop.simps) (simp add: src isxdigit_is_hex ok_def)
        show ?thesis
        proof (cases "ok \<and> \<not> (take 1 nx \<noteq> '':'' \<and> length nx \<noteq> eow_len)")
          case True
          have "pton_loop eow_len ?s \<noteq> Assertion_failed \<and>
            (\<forall>s'. pton_loop eow_len ?s = Done s' \<longrightarrow> p_setWords s' = p_i s' + k \<and> p_gapPos s' \<le> int (p_i s'))"
          proof (rule less.hyps)
            show "length (p_src ?s) < length (p_src s)" using strtol_endptr [OF nx] by (simp add: src)
            show "eow_len = 0 \<or> CHR ''.'' \<in> set (p_src ?s) \<or> length (p_src ?s) \<le> eow_len"
              using True d by (cases nx) auto
          qed (use less.prems in auto)
          then show ?thesis using e True by simp
        next
          case False
          then show ?thesis using e by auto
        qed
      qed
    next
      case gap
      then have e: "pton_loop eow_len s = pton_loop eow_len (s\<lparr>p_src := cs, p_gapPos := int (p_i s)\<rparr>)"
        using go by (intro pton_colon) (auto simp: src)
      show ?thesis unfolding e by (rule less.hyps) (use less.prems gap in \<open>auto simp: src\<close>)
    next
      case gap2
      then have e: "pton_loop eow_len s = pton_loop eow_len (s\<lparr>p_src := z, p_gapPos := 0\<rparr>)"
        using go by (intro pton_double_colon) (auto simp: src)
      show ?thesis unfolding e by (rule less.hyps) (use less.prems gap2 in \<open>auto simp: src\<close>)
    next
      case bad
      then have "pton_loop eow_len s = Minus_1" using go by (subst pton_loop.simps) (auto simp: src isxdigit_is_hex)
      then show ?thesis by simp
    qed
  qed
qed

lemma pton_words_safe:
  assumes "eow_len = 0 \<or> CHR ''.'' \<in> set src"
  shows "pton_words dot src eow_len ws (if dot then 2 else 0) \<noteq> Assertion_failed"
proof -
  let ?s = "\<lparr>p_src = src, p_i = 0, p_words = ws, p_setWords = (if dot then 2 else 0), p_gapPos = - 1\<rparr>"
  have s: "pton_loop eow_len ?s \<noteq> Assertion_failed \<and>
    (\<forall>s'. pton_loop eow_len ?s = Done s' \<longrightarrow> p_setWords s' = p_i s' + (if dot then 2 else 0) \<and> p_gapPos s' \<le> int (p_i s'))"
    by (rule pton_loop_safe) (use assms in auto)
  show ?thesis
  proof (cases "pton_loop eow_len ?s")
    case (Done s')
    then have "p_setWords s' = p_i s' + (if dot then 2 else 0)" "p_gapPos s' \<le> int (p_i s')" using s by auto
    then show ?thesis using Done by (auto simp: pton_words_def pton_finish_def Let_def)
  qed (use s in \<open>auto simp: pton_words_def\<close>)
qed

lemma sscanf_quad_values: "tor_sscanf s quad_pattern = (4, vs) \<Longrightarrow> \<exists>a b c d. vs = [V_unsigned a, V_unsigned b, V_unsigned c, V_unsigned d]"
  by (auto simp: sscanf_quad)

lemma pton_in6_no_assert: "tor_inet_pton_in6 src \<noteq> Assertion_failed"
proof (cases "memchr src (CHR ''.'')")
  case None
  then show ?thesis using pton_words_safe [of 0 src False] by (simp add: tor_inet_pton_in6_def Let_def)
next
  case (Some k)
  then have dot: "CHR ''.'' \<in> set src" by (rule memchr_Some_in)
  obtain n vs where sc: "tor_sscanf (drop (Suc (eow_back src (k - 1))) src) quad_pattern = (n, vs)" by fastforce
  show ?thesis
  proof (cases "n = 4")
    case True
    then obtain a b c d where vs: "vs = [V_unsigned a, V_unsigned b, V_unsigned c, V_unsigned d]"
      using sc sscanf_quad_values by blast
    show ?thesis using Some sc True pton_words_safe [of _ src True] dot
      by (cases k) (simp_all add: tor_inet_pton_in6_def Let_def vs)
  next
    case False
    then show ?thesis using Some sc by (cases k) (simp_all add: tor_inet_pton_in6_def Let_def)
  qed
qed

lemma and_then_assert:
  "and_then r f = Assertion_failed \<longleftrightarrow> r = Assertion_failed \<or> (\<exists>x. r = Done x \<and> f x = Assertion_failed)"
  by (cases r) auto

lemma pton_no_assert: "tor_inet_pton af s \<noteq> Assertion_failed"
  using aton_no_assert [of s] pton_in6_no_assert [of s] by (simp add: tor_inet_pton_def and_then_assert)

lemma parse_no_assert: "tor_addr_parse_impl s allow \<noteq> Assertion_failed"
  by (auto simp: tor_addr_parse_impl_def Let_def pton_no_assert split: outcome.split)

lemma port_split_no_assert: "tor_addr_port_split s \<noteq> Assertion_failed"
  using parse_no_assert [of s True]
  by (auto simp: tor_addr_port_split_def and_then_assert tor_addr_parse_def Let_def split: outcome.split option.split)

lemma port_parse_no_assert: "tor_addr_port_parse s default_port \<noteq> Assertion_failed"
  by (auto simp: tor_addr_port_parse_def and_then_assert Let_def parse_no_assert port_split_no_assert)

lemma parse_mask_no_assert: "parse_pattern_mask addr any m \<noteq> Assertion_failed"
proof (cases m)
  case (Some x)
  then show ?thesis by (simp add: parse_pattern_mask_def Let_def and_then_assert pton_no_assert)
qed (simp add: parse_pattern_mask_def)

lemma parse_pattern_addr_no_assert: "parse_pattern_addr flags x \<noteq> Assertion_failed"
  by (auto simp: parse_pattern_addr_def pton_no_assert and_then_assert split: outcome.split)

text \<open>The separators are found from left to right: a port after the mask, a mask after the bracket.\<close>

lemma strchr_from_Some: "strchr_from s i c = Some k \<Longrightarrow> i \<le> k \<and> k < length s \<and> s ! k = c"
  using memchr_less [of "drop i s" c] by (auto simp: strchr_from_def)

lemma strchr_from_after:
  assumes "strchr_from s j d = Some k" "strchr_from s k c = Some l" "c \<noteq> d"
  shows "k < l"
  using strchr_from_Some [OF assms(1)] strchr_from_Some [OF assms(2)] assms(3) by (cases "k = l") auto

lemma found_in_order:
  assumes "k = strchr_from s j d" "l = strchr_from s (case k of Some m \<Rightarrow> m | None \<Rightarrow> i) c" "c \<noteq> d"
  shows "in_order (map_option Suc l) (map_option Suc k)" "in_order (map_option Suc l) k"
  using assms strchr_from_after [of s j d _ c] by (auto simp: in_order_def less_SucI split: option.splits)

lemma split_no_assert: "split_pattern s \<noteq> Assertion_failed"
proof -
  define r where "r = (if take 1 s = ''['' then strchr_from s (if take 1 s = ''['' then 1 else 0) (CHR '']'') else None)"
  define start where "start = (case r of Some k \<Rightarrow> k | None \<Rightarrow> if take 1 s = ''['' then 1 else 0)"
  define slash where "slash = strchr_from s start (CHR ''/'')"
  define colon where "colon = strchr_from s (case slash of Some m \<Rightarrow> m | None \<Rightarrow> start) (CHR '':'')"
  have c: "in_order (map_option Suc colon) (map_option Suc slash)"
    by (rule found_in_order(1) [OF slash_def colon_def]) simp
  have m: "in_order (map_option Suc slash) r"
  proof (cases "take 1 s = ''[''")
    case True
    then have "r = strchr_from s 1 (CHR '']'')" by (simp add: r_def)
    then show ?thesis by (rule found_in_order(2) [OF _ slash_def [unfolded start_def]]) simp
  next
    case False
    then show ?thesis by (simp add: r_def in_order_def split: option.split)
  qed
  show ?thesis
    unfolding split_pattern_def Let_def r_def [symmetric] start_def [symmetric] slash_def [symmetric] colon_def [symmetric]
    using c m by simp
qed

lemma mask_ports_no_assert:
  assumes "\<not> (TAPMP_STAR_IPV4_ONLY flags \<and> TAPMP_STAR_IPV6_ONLY flags)"
  shows "tor_addr_parse_mask_ports s flags want_mask want_ports \<noteq> Assertion_failed"
  using assms
  by (auto simp: tor_addr_parse_mask_ports_def and_then_assert split_no_assert parse_mask_no_assert
      parse_pattern_addr_no_assert split: option.split)

lemma lower_eq_dot: "TOR_TOLOWER c = d \<Longrightarrow> d \<noteq> CHR ''.'' \<Longrightarrow> c \<noteq> CHR ''.''"
  using tolower_dot by auto

lemma nybbles_no_assert: "suffix ''ip6.arpa'' (lower cp) \<Longrightarrow> parse_nybbles n cp b \<noteq> Assertion_failed"
proof (induction n arbitrary: cp b)
  case (Suc n)
  obtain x where x: "lower cp = x @ ''ip6.arpa''" using Suc.prems by (auto simp: suffix_def)
  have "length (lower cp) \<ge> 4" by (simp add: x)
  then obtain c0 d0 c1 d1 cp' where cp: "cp = c0 # d0 # c1 # d1 # cp'"
    by (cases cp; cases "tl cp"; cases "tl (tl cp)"; cases "tl (tl (tl cp))") auto
  show ?case
  proof (cases "d0 = CHR ''.'' \<and> d1 = CHR ''.''")
    case True
    have t: "TOR_TOLOWER d0 = CHR ''.''" "TOR_TOLOWER d1 = CHR ''.''" using True tolower_dot by blast+
    have "length x \<ge> 4"
    proof (rule ccontr)
      assume "\<not> length x \<ge> 4"
      then consider "length x = 0" | "length x = 1" | "length x = 2" | "length x = 3" by linarith
      then show False using x t by cases (auto simp: cp length_Suc_conv eval_nat_numeral)
    qed
    then have "drop 4 (lower cp) = drop 4 x @ ''ip6.arpa''" unfolding x by simp
    then have "lower cp' = drop 4 x @ ''ip6.arpa''" by (simp add: cp)
    then have "suffix ''ip6.arpa'' (lower cp')" by (auto simp: suffix_def)
    then show ?thesis using Suc.IH True by (simp add: cp Let_def)
  qed (auto simp: cp)
qed simp

lemma ptr_no_assert:
  assumes "NUL \<notin> set address"
  shows "tor_addr_parse_PTR_name address family regular \<noteq> Assertion_failed"
proof -
  have "parse_nybbles 16 address [] \<noteq> Assertion_failed" if "strcasecmpend address ''.ip6.arpa'' = 0"
  proof (rule nybbles_no_assert)
    have "suffix ''.ip6.arpa'' (lower address)"
      using that strcasecmpend_suffix [OF assms, of "''.ip6.arpa''"] unfolding lower_ip6 by simp
    then show "suffix ''ip6.arpa'' (lower address)" by (auto simp: suffix_def)
  qed
  then show ?thesis
    by (auto simp: tor_addr_parse_PTR_name_def and_then_assert aton_no_assert tor_addr_parse_def parse_no_assert Let_def
        split: outcome.split)
qed

section \<open>The order on addresses\<close>

fun bytes_number :: "bytes \<Rightarrow> nat" where
  "bytes_number [] = 0"
| "bytes_number (x # xs) = unat x * 256 ^ length xs + bytes_number xs"

text \<open>The number the first \<open>m\<close> bits of an address stand for.\<close>

fun masked_number :: "nat \<Rightarrow> tor_addr_t \<Rightarrow> nat" where
  "masked_number m Addr_unspec = 0"
| "masked_number m (Addr_unix p) = p"
| "masked_number m (Addr_ipv4 a) = unat a div 2 ^ (32 - m)"
| "masked_number m (Addr_ipv6 b) = bytes_number b div 2 ^ (128 - m)"

lemma bytes_number_less: "bytes_number xs < 256 ^ length xs"
proof (induction xs)
  case (Cons x xs)
  have "(unat x + 1) * 256 ^ length xs \<le> 256 * 256 ^ length xs"
    using unat_u8_less [of x] by (intro mult_right_mono) auto
  then have "unat x * 256 ^ length xs + 256 ^ length xs \<le> 256 * 256 ^ length xs" by (simp add: algebra_simps)
  then have "unat x * 256 ^ length xs + bytes_number xs < 256 * 256 ^ length xs" using Cons by linarith
  then show ?case by simp
qed simp

lemma bytes_number_append: "bytes_number (xs @ ys) = bytes_number xs * 256 ^ length ys + bytes_number ys"
  by (induction xs) (simp_all add: power_add algebra_simps)

lemma lex_number:
  fixes x y u v m :: nat
  assumes "u < m" "v < m"
  shows "x * m + u < y * m + v \<longleftrightarrow> x < y \<or> x = y \<and> u < v" "x * m + u = y * m + v \<longleftrightarrow> x = y \<and> u = v"
proof -
  have l: "x * m + u < y * m + v" if "x < y" "u < m" for x y u v :: nat
  proof -
    have "x * m + u < (x + 1) * m" using that by simp
    also have "\<dots> \<le> y * m" using that by (intro mult_right_mono) auto
    finally show ?thesis by simp
  qed
  show "x * m + u < y * m + v \<longleftrightarrow> x < y \<or> x = y \<and> u < v" "x * m + u = y * m + v \<longleftrightarrow> x = y \<and> u = v"
    using l [of x y u v] l [of y x v u] assms by (metis less_asym linorder_cases nat_add_left_cancel_less not_less_iff_gr_or_eq add_left_cancel)+
qed

lemma memcmp_number:
  "length a = length b \<Longrightarrow> n = length a \<Longrightarrow> sgn (memcmp a b n) = TRISTATE (bytes_number a) (bytes_number b)"
proof (induction a b n rule: memcmp.induct)
  case (1 x xs y ys n)
  have l: "length xs = length ys" "n = length xs" using 1 by auto
  note b = bytes_number_less [of xs] bytes_number_less [of ys, folded l(1)]
  have u: "uint x < uint y \<longleftrightarrow> unat x < unat y" "uint x = uint y \<longleftrightarrow> unat x = unat y"
    using word_less_def [of x y] word_less_nat_alt [of x y] unat_inj_iff [of x y] word_uint_eq_iff [of x y] by auto
  show ?case
  proof (cases "x = y")
    case True
    then show ?thesis using 1(1) [OF True] l by (simp add: TRISTATE_def)
  next
    case False
    then have "unat x \<noteq> unat y" by (simp add: unat_inj_iff)
    then have "sgn (uint x - uint y) = (if unat x < unat y then - 1 else 1)" using u by (auto simp: sgn_if)
    then show ?thesis using False lex_number [OF b, of "unat x" "unat y"] l \<open>unat x \<noteq> unat y\<close>
      by (auto simp: TRISTATE_def)
  qed
qed (auto simp: TRISTATE_def)

lemma drop_bit_number: "unat (drop_bit k (w :: 'a::len word)) = unat w div 2 ^ k"
  by (rule unat_drop_bit)

lemma TRISTATE_unat: "TRISTATE a b = TRISTATE (unat a) (unat (b :: 'a::len word))"
  by (auto simp: TRISTATE_def word_less_nat_alt unat_inj_iff)

lemma ipv4_masked: "compare_ipv4_masked a1 a2 m = TRISTATE (unat a1 div 2 ^ (32 - m)) (unat a2 div 2 ^ (32 - m))"
proof (cases "m = 0")
  case True
  have "unat (a :: u32) div 2 ^ 32 = 0" for a using unat_u32_less [of a] by simp
  then show ?thesis using True by (simp add: compare_ipv4_masked_def TRISTATE_def)
next
  case False
  then show ?thesis by (simp add: compare_ipv4_masked_def Let_def TRISTATE_unat [of "drop_bit _ _"] unat_drop_bit)
qed

text \<open>The first \<open>m\<close> bits of sixteen bytes: whole bytes, then the upper bits of the next.\<close>

lemma bytes_prefix_number:
  assumes "length b = 16" "n < 16" "r < 8"
  shows "bytes_number b div 2 ^ (128 - (8 * n + r)) =
    bytes_number (take n b) * 2 ^ r + unat (b ! n) div 2 ^ (8 - r)"
proof -
  let ?rest = "drop (Suc n) b"
  have b: "b = take n b @ [b ! n] @ ?rest" using assms(1,2) nth_eq_take_drop [of n b] by simp
  have l: "length ?rest = 15 - n" using assms(1) by simp
  have e: "128 - (8 * n + r) = 8 * (15 - n) + (8 - r)" using assms(2,3) by simp
  have "bytes_number (take n b @ [b ! n] @ ?rest) =
      (bytes_number (take n b) * 256 + unat (b ! n)) * 256 ^ (15 - n) + bytes_number ?rest"
    unfolding bytes_number_append length_append l by (simp add: algebra_simps)
  then have "bytes_number b = (bytes_number (take n b) * 256 + unat (b ! n)) * 256 ^ (15 - n) + bytes_number ?rest"
    using b by simp
  moreover have "bytes_number ?rest < 256 ^ (15 - n)" using bytes_number_less [of ?rest] l by simp
  moreover have "(2 :: nat) ^ (8 * (15 - n)) = 256 ^ (15 - n)" by (simp add: power_mult)
  ultimately have "bytes_number b div 2 ^ (8 * (15 - n)) = bytes_number (take n b) * 256 + unat (b ! n)"
    by (simp add: div_mult_self3 [symmetric])
  then have "bytes_number b div 2 ^ (128 - (8 * n + r)) = (bytes_number (take n b) * 256 + unat (b ! n)) div 2 ^ (8 - r)"
    by (simp add: e power_add div_mult2_eq)
  also have "bytes_number (take n b) * 256 = (bytes_number (take n b) * 2 ^ r) * 2 ^ (8 - r)"
    using assms(3) by (simp add: power_add [symmetric] mult.assoc)
  finally show ?thesis by simp
qed

lemma bytes_all_number:
  assumes "length b = 16" "n \<le> 16"
  shows "bytes_number b div 2 ^ (128 - 8 * n) = bytes_number (take n b)"
proof (cases "n = 16")
  case False
  then show ?thesis using bytes_prefix_number [OF assms(1), of n 0] assms(2) unat_u8_less [of "b ! n"] by simp
qed (use assms in simp)

lemma memcmp_take: "memcmp a b n = memcmp (take n a) (take n b) n"
  by (induction a b n rule: memcmp.induct) auto

lemma TRISTATE_refl [simp]: "TRISTATE a a = 0"
  by (simp add: TRISTATE_def)

lemma sgn_TRISTATE [simp]: "sgn (TRISTATE a b) = TRISTATE a b"
  by (simp add: TRISTATE_def)

lemma ipv6_masked:
  assumes "length a = 16" "length b = 16"
  shows "sgn (compare_ipv6_masked a b m) = TRISTATE (bytes_number a div 2 ^ (128 - m)) (bytes_number b div 2 ^ (128 - m))"
proof -
  define k where "k = (if m > 128 then 128 else m)"
  have k: "k \<le> 128" "128 - m = 128 - k" by (auto simp: k_def)
  let ?n = "k div 8" and ?r = "k mod 8"
  let ?x = "bytes_number (take ?n a)" and ?y = "bytes_number (take ?n b)"
  have n: "?n \<le> 16" "k = 8 * ?n + ?r" using k(1) by auto
  have s: "sgn (tor_memcmp a b ?n) = TRISTATE ?x ?y"
    unfolding tor_memcmp_def using n(1) assms by (subst memcmp_take) (simp add: memcmp_number)
  have z: "?n = 0 \<Longrightarrow> tor_memcmp a b ?n = 0" by (cases a; cases b) (simp_all add: tor_memcmp_def)
  have c: "compare_ipv6_masked a b m = (if tor_memcmp a b ?n \<noteq> 0 then tor_memcmp a b ?n
      else if ?r \<noteq> 0 then TRISTATE (drop_bit (8 - ?r) (a ! ?n)) (drop_bit (8 - ?r) (b ! ?n)) else 0)"
    using z by (auto simp: compare_ipv6_masked_def Let_def k_def [symmetric])
  have zero: "tor_memcmp a b ?n = 0 \<longleftrightarrow> ?x = ?y" using s by (auto simp: TRISTATE_def sgn_if split: if_splits)
  show ?thesis
  proof (cases "?r = 0")
    case True
    then have "k = 8 * ?n" using n(2) by simp
    then have "bytes_number a div 2 ^ (128 - k) = ?x" "bytes_number b div 2 ^ (128 - k) = ?y"
      using bytes_all_number [OF assms(1) n(1)] bytes_all_number [OF assms(2) n(1)] by metis+
    then show ?thesis using c s True zero k(2) by (auto simp: TRISTATE_def)
  next
    case False
    have r8: "?r < 8" by simp
    have n16: "?n < 16" using False k(1) n by linarith
    let ?u = "unat (a ! ?n) div 2 ^ (8 - ?r)" and ?v = "unat (b ! ?n) div 2 ^ (8 - ?r)"
    have uv: "unat (w :: u8) div 2 ^ (8 - ?r) < 2 ^ ?r" for w
    proof -
      have "unat w < 2 ^ ?r * 2 ^ (8 - ?r)" using unat_u8_less [of w] by (simp add: power_add [symmetric])
      then show ?thesis by (simp add: less_mult_imp_div_less)
    qed
    have e: "bytes_number a div 2 ^ (128 - k) = ?x * 2 ^ ?r + ?u" "bytes_number b div 2 ^ (128 - k) = ?y * 2 ^ ?r + ?v"
      using bytes_prefix_number [OF assms(1) n16 r8] bytes_prefix_number [OF assms(2) n16 r8] n(2) by metis+
    have t: "TRISTATE (?x * 2 ^ ?r + ?u) (?y * 2 ^ ?r + ?v) = (if ?x = ?y then TRISTATE ?u ?v else TRISTATE ?x ?y)"
      using lex_number [OF uv uv, of ?x "a ! ?n" ?y "b ! ?n"] by (auto simp: TRISTATE_def)
    have d: "TRISTATE (drop_bit (8 - ?r) (a ! ?n)) (drop_bit (8 - ?r) (b ! ?n)) = TRISTATE ?u ?v"
      by (simp add: TRISTATE_unat [of "drop_bit _ _"] unat_drop_bit)
    show ?thesis
    proof (cases "?x = ?y")
      case True
      then have "compare_ipv6_masked a b m = TRISTATE ?u ?v" unfolding c d using False zero by (simp only: if_False if_True simp_thms)
      then show ?thesis unfolding k(2) e t using True by (simp only: sgn_TRISTATE if_True refl)
    next
      case neq: False
      then have "compare_ipv6_masked a b m = tor_memcmp a b ?n" unfolding c using zero by (simp only: if_True simp_thms)
      then show ?thesis unfolding k(2) e t using neq s by (simp only: if_False)
    qed
  qed
qed

lemma compare_same_family:
  "tor_addr_compare_masked Addr_unspec Addr_unspec m how = 0"
  "tor_addr_compare_masked (Addr_unix p) (Addr_unix q) m how = TRISTATE p q"
  "tor_addr_compare_masked (Addr_ipv4 x) (Addr_ipv4 y) m how = compare_ipv4_masked x y m"
  "tor_addr_compare_masked (Addr_ipv6 b) (Addr_ipv6 c) m how = compare_ipv6_masked b c m"
  by (simp_all only: tor_addr_compare_masked_def Let_def tor_addr_family.simps if_True prod.case tor_addr_t.case refl simp_thms)

lemma compare_other_family:
  "tor_addr_family a \<noteq> tor_addr_family b \<Longrightarrow> tor_addr_compare_masked a b m CMP_EXACT =
     TRISTATE (family_number (tor_addr_family a)) (family_number (tor_addr_family b))"
  by (simp only: tor_addr_compare_masked_def Let_def if_False if_True refl)

lemma exact_compare:
  assumes "addr_ok a" "addr_ok b"
  shows "sgn (tor_addr_compare_masked a b m CMP_EXACT) =
    (if tor_addr_family a = tor_addr_family b then TRISTATE (masked_number m a) (masked_number m b)
     else TRISTATE (family_number (tor_addr_family a)) (family_number (tor_addr_family b)))"
proof (cases "tor_addr_family a = tor_addr_family b")
  case True
  have "sgn (tor_addr_compare_masked a b m CMP_EXACT) = TRISTATE (masked_number m a) (masked_number m b)"
  proof (cases a)
    case Addr_unspec
    then show ?thesis using True by (cases b) (auto simp only: compare_same_family masked_number.simps TRISTATE_refl sgn_0 tor_addr_family.simps)
  next
    case (Addr_unix p)
    then show ?thesis using True by (cases b) (auto simp only: compare_same_family masked_number.simps sgn_TRISTATE tor_addr_family.simps)
  next
    case (Addr_ipv4 x)
    then show ?thesis using True by (cases b) (auto simp only: compare_same_family masked_number.simps sgn_TRISTATE ipv4_masked tor_addr_family.simps)
  next
    case (Addr_ipv6 x)
    then show ?thesis using True assms ipv6_masked by (cases b) (auto simp only: compare_same_family masked_number.simps tor_addr_family.simps addr_ok.simps)
  qed
  then show ?thesis using True by simp
next
  case False
  then show ?thesis using compare_other_family [OF False] by (simp only: sgn_TRISTATE if_False)
qed

lemma exact_compare_zero:
  assumes "addr_ok a" "addr_ok b"
  shows "tor_addr_compare_masked a b m CMP_EXACT = 0 \<longleftrightarrow>
    tor_addr_family a = tor_addr_family b \<and> masked_number m a = masked_number m b"
proof -
  have fam: "family_number f = family_number g \<Longrightarrow> f = g" for f g by (cases f; cases g) auto
  have "tor_addr_compare_masked a b m CMP_EXACT = 0 \<longleftrightarrow> sgn (tor_addr_compare_masked a b m CMP_EXACT) = 0"
    by (simp add: sgn_0_0)
  then show ?thesis using fam by (auto simp: exact_compare [OF assms] TRISTATE_def split: if_splits)
qed

lemma family_number_inj: "family_number f = family_number g \<longleftrightarrow> f = g"
  by (cases f; cases g) simp_all

subsection \<open>Addresses that agree under a mask\<close>

text \<open>What the policies rely on: agreement in the first \<open>m\<close> bits is symmetric, transitive and inherited by
  shorter prefixes.\<close>

locale prefix_equality =
  fixes ok :: "'a \<Rightarrow> bool" and same :: "nat \<Rightarrow> 'a \<Rightarrow> 'a \<Rightarrow> bool"
  assumes same_sym: "ok a \<Longrightarrow> ok b \<Longrightarrow> same m a b \<Longrightarrow> same m b a"
    and same_trans: "ok a \<Longrightarrow> ok b \<Longrightarrow> ok c \<Longrightarrow> same m a b \<Longrightarrow> same m b c \<Longrightarrow> same m a c"
    and same_coarser: "ok a \<Longrightarrow> ok b \<Longrightarrow> same n a b \<Longrightarrow> m \<le> n \<Longrightarrow> same m a b"
begin

lemma covered: "ok a \<Longrightarrow> ok p \<Longrightarrow> ok q \<Longrightarrow> same m p q \<Longrightarrow> m \<le> n \<Longrightarrow> same n a q \<Longrightarrow> same m a p"
  using same_trans [of a q p m] same_sym [of p q m] same_coarser [of a q n m] by blast

lemma common_prefix: "ok a \<Longrightarrow> ok p \<Longrightarrow> ok q \<Longrightarrow> same m a p \<Longrightarrow> same n a q \<Longrightarrow> same (min m n) p q"
  using same_trans [of p a q "min m n"] same_sym [of a p "min m n"] same_coarser [of a p m "min m n"]
    same_coarser [of a q n "min m n"] by simp

lemma cover_meets: "ok p \<Longrightarrow> ok q \<Longrightarrow> ok r \<Longrightarrow> same m q p \<Longrightarrow> m \<le> n \<Longrightarrow> same (min n k) p r \<Longrightarrow> same (min m k) q r"
  using same_trans [of q p r "min m k"] same_coarser [of q p m "min m k"] same_coarser [of p r "min n k" "min m k"] by simp

end

lemma div_coarser: "x div 2 ^ i = y div 2 ^ i \<Longrightarrow> i \<le> j \<Longrightarrow> (x :: nat) div 2 ^ j = y div 2 ^ j"
  by (metis div_exp_eq le_add_diff_inverse)

lemma masked_coarser:
  assumes "tor_addr_family a = tor_addr_family b" "masked_number n a = masked_number n b" "m \<le> n"
  shows "masked_number m a = masked_number m b"
proof -
  have "(32 - n) \<le> 32 - m" "128 - n \<le> 128 - m" using assms(3) by simp_all
  then show ?thesis using assms(1,2) by (cases a; cases b) (auto intro: div_coarser)
qed

interpretation addr_prefix: prefix_equality addr_ok "\<lambda>m a b. tor_addr_compare_masked a b m CMP_EXACT = 0"
  by unfold_locales (auto simp: exact_compare_zero intro: masked_coarser)

text \<open>The pair that orders addresses: the family, then the number.\<close>

definition addr_key :: "nat \<Rightarrow> tor_addr_t \<Rightarrow> nat \<times> nat" where
  "addr_key m a = (family_number (tor_addr_family a), masked_number m a)"

definition key_less :: "nat \<times> nat \<Rightarrow> nat \<times> nat \<Rightarrow> bool" where
  "key_less x y \<longleftrightarrow> fst x < fst y \<or> fst x = fst y \<and> snd x < snd y"

lemma key_less_trans: "\<not> key_less y x \<Longrightarrow> \<not> key_less z y \<Longrightarrow> \<not> key_less z x"
  by (auto simp: key_less_def)

lemma TRISTATE_sign: "TRISTATE x y < 0 \<longleftrightarrow> x < y" "TRISTATE x y > 0 \<longleftrightarrow> y < x"
  by (auto simp: TRISTATE_def)

lemma exact_compare_sign:
  assumes "addr_ok a" "addr_ok b"
  shows "tor_addr_compare_masked a b m CMP_EXACT < 0 \<longleftrightarrow> key_less (addr_key m a) (addr_key m b)"
    "tor_addr_compare_masked a b m CMP_EXACT > 0 \<longleftrightarrow> key_less (addr_key m b) (addr_key m a)"
proof -
  let ?c = "tor_addr_compare_masked a b m CMP_EXACT"
  have s: "?c < 0 \<longleftrightarrow> sgn ?c < 0" "?c > 0 \<longleftrightarrow> sgn ?c > 0" by (auto simp: sgn_if)
  show "?c < 0 \<longleftrightarrow> key_less (addr_key m a) (addr_key m b)" "?c > 0 \<longleftrightarrow> key_less (addr_key m b) (addr_key m a)"
    unfolding s exact_compare [OF assms]
    by (simp_all add: TRISTATE_sign key_less_def addr_key_def family_number_inj)
qed

interpretation addr_order: comparison "{a. addr_ok a}" "\<lambda>a b. tor_addr_compare_masked a b m CMP_EXACT" for m
proof
  show "tor_addr_compare_masked a b m CMP_EXACT < 0 \<longleftrightarrow> tor_addr_compare_masked b a m CMP_EXACT > 0"
    if "a \<in> {a. addr_ok a}" "b \<in> {a. addr_ok a}" for a b
    using that by (simp add: exact_compare_sign)
  show "tor_addr_compare_masked a c m CMP_EXACT \<le> 0"
    if "a \<in> {a. addr_ok a}" "b \<in> {a. addr_ok a}" "c \<in> {a. addr_ok a}"
      "tor_addr_compare_masked a b m CMP_EXACT \<le> 0" "tor_addr_compare_masked b c m CMP_EXACT \<le> 0" for a b c
    using that key_less_trans [of "addr_key m b" "addr_key m a" "addr_key m c"]
    by (simp add: not_less [symmetric] exact_compare_sign)
qed

section \<open>Numbers in address patterns\<close>

lemma no_digit_end: "no_digit_first []"
  by (simp add: no_digit_first_def)

lemma mask_number:
  assumes "- INT64_MAX - 1 \<le> v" "v \<le> INT64_MAX"
  shows "strtol (print_int v) 10 = \<lparr>strtox_r = v, endptr = Some [], erange = False\<rparr>"
  using strtol_print_int [OF no_digit_end assms] by simp

lemma print_int_not_empty: "print_int v \<noteq> []"
  by (simp add: print_int_def)

lemma dash_not_digit: "no_digit_first (CHR ''-'' # s)"
  by (simp add: no_digit_first_def is_digit_of_def digit_val_def)

lemma parse_long_print:
  assumes "no_digit_first rest" "lo \<le> v" "v \<le> hi" "- INT64_MAX - 1 \<le> v" "v \<le> INT64_MAX"
  shows "tor_parse_long (print_int v @ rest) 10 lo hi True = Some (v, True, Some rest)"
  using assms(2,3)
  by (simp add: tor_parse_long_def base_defined_def CHECK_STRTOX_RESULT_def Let_def strtol_print_int [OF assms(1,4,5)])

lemma print_int_not_star: "0 \<le> v \<Longrightarrow> print_int v @ s \<noteq> ''*''"
proof
  assume "0 \<le> v" "print_int v @ s = ''*''"
  then have "CHR ''*'' \<in> set (dec_digits (nat v))" using dec_digits_not_Nil [of "nat v"]
    by (cases "dec_digits (nat v)") (auto simp: print_int_def split: if_splits)
  then show False using dec_digits_all [of "nat v"] by (auto simp: is_digit_of_def digit_val_def)
qed

section \<open>Properties\<close>

text \<open>C16: The text of an IPv4 or IPv6 address fits the buffer of \<open>TOR_ADDR_BUF_LEN\<close> bytes, with or without
  brackets, and \<open>tor_addr_parse\<close> reads the same address back from it; so does
  \<open>tor_addr_parse_PTR_name\<close> from the reverse lookup name.  The IPv4 parser accepts nothing but
  the text the printer writes: no leading zeros, signs, spaces or missing parts.\<close>

theorem addr_text_roundtrip:
  assumes "addr_ok a" "tor_addr_family a = AF_INET \<or> tor_addr_family a = AF_INET6"
  shows "(\<exists>t. tor_addr_to_str a TOR_ADDR_BUF_LEN decorate = Some t \<and> length t < TOR_ADDR_BUF_LEN \<and> tor_addr_parse t = Done a) \<and>
    (\<exists>t. tor_addr_to_PTR_name REVERSE_LOOKUP_NAME_BUF_LEN a = Some t \<and>
         tor_addr_parse_PTR_name t AF_UNSPEC regular = Done (Ptr_is a)) \<and>
    (tor_inet_aton s = Done w \<longleftrightarrow> s = quad_text w)"
proof (intro conjI)
  show "\<exists>t. tor_addr_to_str a TOR_ADDR_BUF_LEN decorate = Some t \<and> length t < TOR_ADDR_BUF_LEN \<and> tor_addr_parse t = Done a"
  proof (cases a)
    case (Addr_ipv4 x)
    then show ?thesis using quad_text_length [of x] parse_ipv4_text [of x True]
      by (simp add: tor_inet_ntoa_def tor_snprintf_def tor_addr_parse_def)
  next
    case (Addr_ipv6 b)
    then show ?thesis using in6_text_length [of b] parse_ipv6_text [of b] assms(1)
      by (simp add: tor_inet_ntop_in6_def tor_addr_parse_def)
  qed (use assms(2) in simp_all)
  show "\<exists>t. tor_addr_to_PTR_name REVERSE_LOOKUP_NAME_BUF_LEN a = Some t \<and>
         tor_addr_parse_PTR_name t AF_UNSPEC regular = Done (Ptr_is a)"
  proof (cases a)
    case (Addr_ipv4 x)
    then show ?thesis using ptr_ipv4 [of REVERSE_LOOKUP_NAME_BUF_LEN AF_UNSPEC x regular] by simp
  next
    case (Addr_ipv6 b)
    then show ?thesis using ptr_ipv6 [of REVERSE_LOOKUP_NAME_BUF_LEN AF_UNSPEC b regular] assms(1) by simp
  qed (use assms(2) in simp_all)
  show "tor_inet_aton s = Done w \<longleftrightarrow> s = quad_text w" by (rule aton_iff)
qed

theorem addr_text_roundtrip_witness:
  "\<exists>t. tor_addr_to_str (Addr_ipv6 ([0x20, 1, 0xd, 0xb8] @ replicate 11 0 @ [1])) TOR_ADDR_BUF_LEN True = Some t \<and>
     length t < TOR_ADDR_BUF_LEN \<and> tor_addr_parse t = Done (Addr_ipv6 ([0x20, 1, 0xd, 0xb8] @ replicate 11 0 @ [1]))"
  using addr_text_roundtrip [of "Addr_ipv6 ([0x20, 1, 0xd, 0xb8] @ replicate 11 0 @ [1])" True True "''1.2.3.4''" 0] by simp

text \<open>C17: No text, however malformed, makes the address parsers fail an assertion or read behind the end
  of the text: the parsers of addresses, of addresses with a port, of patterns with masks and ports
  (unless the caller asks for IPv4 only and IPv6 only at once), and of reverse lookup names.  For patterns
  this covers the order of the separators, which the code asserts: wherever they stand in the text, the port
  starts behind the mask and the mask behind the closing bracket.\<close>

theorem address_parsers_never_assert:
  assumes "\<not> (TAPMP_STAR_IPV4_ONLY flags \<and> TAPMP_STAR_IPV6_ONLY flags)" "NUL \<notin> set s"
  shows "tor_inet_pton af s \<noteq> Assertion_failed \<and> tor_addr_parse s \<noteq> Assertion_failed \<and>
    tor_addr_port_parse s default_port \<noteq> Assertion_failed \<and>
    tor_addr_parse_mask_ports s flags want_mask want_ports \<noteq> Assertion_failed \<and>
    tor_addr_parse_PTR_name s family regular \<noteq> Assertion_failed"
  using pton_no_assert parse_no_assert port_parse_no_assert mask_ports_no_assert [OF assms(1)] ptr_no_assert [OF assms(2)]
  by (simp add: tor_addr_parse_def)

theorem address_parsers_never_assert_witness:
  "tor_addr_parse_mask_ports ''[1::2::3]/129:x'' tapmp_none True True \<noteq> Assertion_failed"
  using address_parsers_never_assert [of tapmp_none "''[1::2::3]/129:x''" AF_INET6 0 True True AF_UNSPEC True] by simp

text \<open>C18: With \<open>CMP_EXACT\<close>, \<open>tor_addr_compare_masked\<close> orders addresses by family and then by the
  number their first \<open>m\<close> bits stand for, and returns 0 exactly when both agree; so it is a total order for
  every mask, as its comment promises.  With \<open>CMP_SEMANTIC\<close> the promise fails: there are three
  addresses, each smaller than the next and the last smaller than the first.\<close>

theorem exact_comparison_orders:
  assumes "addr_ok a" "addr_ok b"
  shows "(tor_addr_compare_masked a b m CMP_EXACT < 0 \<longleftrightarrow> key_less (addr_key m a) (addr_key m b)) \<and>
    (tor_addr_compare_masked a b m CMP_EXACT = 0 \<longleftrightarrow> addr_key m a = addr_key m b) \<and>
    (tor_addr_compare_masked a b m CMP_EXACT > 0 \<longleftrightarrow> key_less (addr_key m b) (addr_key m a)) \<and>
    (\<exists>x y z. addr_ok x \<and> addr_ok y \<and> addr_ok z \<and> tor_addr_compare x y CMP_SEMANTIC < 0 \<and>
       tor_addr_compare y z CMP_SEMANTIC < 0 \<and> tor_addr_compare z x CMP_SEMANTIC < 0)"
proof (intro conjI)
  show "tor_addr_compare_masked a b m CMP_EXACT < 0 \<longleftrightarrow> key_less (addr_key m a) (addr_key m b)"
    "tor_addr_compare_masked a b m CMP_EXACT > 0 \<longleftrightarrow> key_less (addr_key m b) (addr_key m a)"
    by (rule exact_compare_sign [OF assms])+
  show "tor_addr_compare_masked a b m CMP_EXACT = 0 \<longleftrightarrow> addr_key m a = addr_key m b"
    by (simp add: exact_compare_zero [OF assms] addr_key_def family_number_inj)
  let ?x = "Addr_ipv6 (replicate 15 0 @ [1])" and ?y = "Addr_ipv6 (replicate 10 0 @ [0xff, 0xff, 1, 2, 3, 4])"
    and ?z = "Addr_ipv4 0x01020305"
  have "tor_addr_compare ?x ?y CMP_SEMANTIC < 0" "tor_addr_compare ?y ?z CMP_SEMANTIC < 0" "tor_addr_compare ?z ?x CMP_SEMANTIC < 0"
    by code_simp+
  moreover have "addr_ok ?x" "addr_ok ?y" "addr_ok ?z" by simp_all
  ultimately show "\<exists>x y z. addr_ok x \<and> addr_ok y \<and> addr_ok z \<and> tor_addr_compare x y CMP_SEMANTIC < 0 \<and>
       tor_addr_compare y z CMP_SEMANTIC < 0 \<and> tor_addr_compare z x CMP_SEMANTIC < 0" by blast
qed

theorem exact_comparison_orders_witness:
  "tor_addr_compare_masked (Addr_ipv4 0x0a010203) (Addr_ipv4 0x0a0affff) 8 CMP_EXACT = 0 \<longleftrightarrow>
     addr_key 8 (Addr_ipv4 0x0a010203) = addr_key 8 (Addr_ipv4 0x0a0affff)"
  using exact_comparison_orders [of "Addr_ipv4 0x0a010203" "Addr_ipv4 0x0a0affff" 8] by simp

text \<open>C31: How numbers in an address pattern are read.  A mask is converted to \<open>int\<close> before it is checked, so
  that it counts modulo \<open>2 ^ 32\<close>; a mask without digits is the mask 0, which matches every address; and on an
  IPv4-mapped IPv6 address a mask of 128 or 32 bits becomes 96.  A port is the range of that port alone,
  but port 0 becomes the empty range from 1 to 0, and text after the second port is ignored.\<close>

theorem pattern_numbers:
  assumes "- INT64_MAX - 1 \<le> v" "v \<le> INT64_MAX" "0 \<le> p" "p \<le> q" "1 \<le> q" "q \<le> 65535" "no_digit_first junk"
  shows "parse_pattern_mask (Addr_ipv4 a) False (Some (print_int v)) =
      (if 0 \<le> to_int32 v \<and> to_int32 v \<le> 32 then Done (to_int32 v) else Minus_1) \<and>
    parse_pattern_mask (Addr_ipv4 a) False (Some []) = Done 0 \<and>
    (tor_addr_is_v4 (Addr_ipv6 b) \<longrightarrow>
       parse_pattern_mask (Addr_ipv6 b) False (Some (print_int 128)) = Done 96 \<and>
       parse_pattern_mask (Addr_ipv6 b) False (Some (print_int 32)) = Done 96) \<and>
    parse_port_range (Some (print_int q)) = Some (word_of_int q, word_of_int q) \<and>
    parse_port_range (Some (print_int 0)) = Some (1, 0) \<and>
    parse_port_range (Some (print_int p @ ''-'' @ print_int q @ junk)) = Some (word_of_int (max 1 p), word_of_int q)"
proof (intro conjI impI)
  show "parse_pattern_mask (Addr_ipv4 a) False (Some (print_int v)) =
      (if 0 \<le> to_int32 v \<and> to_int32 v \<le> 32 then Done (to_int32 v) else Minus_1)"
    using mask_number [OF assms(1,2)] by (simp add: parse_pattern_mask_def Let_def not_le)
  show "parse_pattern_mask (Addr_ipv4 a) False (Some []) = Done 0"
    by (simp add: parse_pattern_mask_def strtol_def strto_scan_def split_base_def Let_def)
  show "parse_pattern_mask (Addr_ipv6 b) False (Some (print_int 128)) = Done 96"
    "parse_pattern_mask (Addr_ipv6 b) False (Some (print_int 32)) = Done 96" if "tor_addr_is_v4 (Addr_ipv6 b)"
    using that mask_number [of 128] mask_number [of 32] by (simp_all add: parse_pattern_mask_def Let_def)
  have one: "tor_parse_long (print_int x) 10 0 65535 True = Some (x, True, Some [])" if "0 \<le> x" "x \<le> 65535" for x
    using parse_long_print [OF no_digit_end, of 0 x 65535] that by simp
  have ns: "print_int x \<noteq> ''*''" if "0 \<le> x" for x using print_int_not_star [OF that, of "[]"] by simp
  show "parse_port_range (Some (print_int q)) = Some (word_of_int q, word_of_int q)"
    using one [of q] ns [of q] assms(3-6) by (simp add: parse_port_range_def print_int_not_empty Let_def)
  show "parse_port_range (Some (print_int 0)) = Some (1, 0)"
    using one [of 0] ns [of 0] by (simp add: parse_port_range_def print_int_not_empty Let_def)
  have "tor_parse_long (print_int p @ ''-'' @ print_int q @ junk) 10 0 65535 True = Some (p, True, Some (''-'' @ print_int q @ junk))"
    using parse_long_print [of "''-'' @ print_int q @ junk" 0 p 65535] dash_not_digit assms by simp
  moreover have "tor_parse_long (print_int q @ junk) 10 1 65535 True = Some (q, True, Some junk)"
    using parse_long_print [OF assms(7), of 1 q 65535] assms by simp
  moreover have "print_int p @ ''-'' @ print_int q @ junk \<noteq> ''*''" using print_int_not_star assms(3) by blast
  ultimately show "parse_port_range (Some (print_int p @ ''-'' @ print_int q @ junk)) = Some (word_of_int (max 1 p), word_of_int q)"
    using assms(3-6) by (simp add: parse_port_range_def print_int_not_empty Let_def max_def)
qed

theorem pattern_numbers_witness:
  "parse_pattern_mask (Addr_ipv4 0x01020304) False (Some (print_int 4294967304)) = Done 8 \<and>
     parse_port_range (Some (print_int 80 @ ''-'' @ print_int 90 @ ''x'')) = Some (80, 90)"
  using pattern_numbers [where v = 4294967304 and p = 80 and q = 90 and junk = "''x''" and a = "0x01020304" and b = "replicate 16 0"]
  by (simp add: to_int32_def no_digit_first_def is_digit_of_def digit_val_def)

end
