(* ===== verification/Policies.thy ===== *)
theory Policies
  imports Addresses Smart_List
begin

text \<open>
  Exit policies of \<open>core/or/policies.c\<close>: the rules, the decision for an address and a port when both or one of them
  are known, the removal of redundant rules, the tests for a general exit and for a policy that rejects everything, and
  the text of a rule.

  A rule is a record; the reference count and the flag of the table of canonical rules only manage memory and are left
  out.  A policy is the list of its rules, and \<open>None\<close> stands for a NULL pointer.  Options of the process that are read
  on the way are arguments.
\<close>

section \<open>Definitions\<close>

subsection \<open>Rules\<close>

datatype addr_policy_action_t = ADDR_POLICY_ACCEPT | ADDR_POLICY_REJECT

record addr_policy_t =
  policy_type :: addr_policy_action_t
  is_private :: bool
  maskbits :: nat
  pol_addr :: tor_addr_t
  prt_min :: u16
  prt_max :: u16

datatype addr_policy_result_t =
  ADDR_POLICY_ACCEPTED | ADDR_POLICY_REJECTED | ADDR_POLICY_PROBABLY_ACCEPTED | ADDR_POLICY_PROBABLY_REJECTED

definition private_nets :: "string list" where
  "private_nets =
     [''0.0.0.0/8'', ''169.254.0.0/16'', ''127.0.0.0/8'', ''192.168.0.0/16'', ''10.0.0.0/8'', ''172.16.0.0/12'',
      ''[::]/8'', ''[fc00::]/7'', ''[fe80::]/10'', ''[fec0::]/10'', ''[ff00::]/8'', ''[::]/127'']"

text \<open>The address and mask of one of these texts.  The caller that wants ports as well ignores them.\<close>

definition private_net :: "string \<Rightarrow> bool \<Rightarrow> (tor_addr_t \<times> nat) outcome" where
  "private_net net want_ports =
     (case tor_addr_parse_mask_ports net tapmp_none True want_ports of
        Done (addr, bits, _, _) \<Rightarrow> Done (addr, bits)
      | _ \<Rightarrow> Assertion_failed)"

fun expand_private_rule :: "addr_policy_t \<Rightarrow> string list \<Rightarrow> addr_policy_t list outcome" where
  "expand_private_rule p [] = Done []"
| "expand_private_rule p (net # nets) =
     and_then (private_net net True)
       (\<lambda>(addr, bits). and_then (expand_private_rule p nets)
          (\<lambda>tmp. Done (p\<lparr>is_private := False, pol_addr := addr, maskbits := bits\<rparr> # tmp)))"

fun policy_expand_private :: "addr_policy_t list \<Rightarrow> addr_policy_t list outcome" where
  "policy_expand_private [] = Done []"
| "policy_expand_private (p # policy) =
     and_then (if is_private p then expand_private_rule p private_nets else Done [p])
       (\<lambda>rules. and_then (policy_expand_private policy) (\<lambda>tmp. Done (rules @ tmp)))"

fun policy_expand_unspec :: "addr_policy_t list \<Rightarrow> addr_policy_t list" where
  "policy_expand_unspec [] = []"
| "policy_expand_unspec (p # policy) =
     (let family = tor_addr_family (pol_addr p)
      in (if family = AF_INET6 \<or> family = AF_INET \<or> is_private p then [p]
          else if family = AF_UNSPEC
          then let newpolicy = (if maskbits p \<noteq> 0 then p\<lparr>maskbits := 0\<rparr> else p)
               in [newpolicy\<lparr>pol_addr := Addr_ipv4 0\<rparr>, newpolicy\<lparr>pol_addr := Addr_ipv6 (replicate 16 0)\<rparr>]
          else [p]) @ policy_expand_unspec policy)"

definition single_addr_policy_eq :: "addr_policy_t \<Rightarrow> addr_policy_t \<Rightarrow> bool" where
  "single_addr_policy_eq a b =
     (if policy_type a \<noteq> policy_type b then False
      else if is_private a \<noteq> is_private b then False
      else if tor_addr_compare (pol_addr a) (pol_addr b) CMP_EXACT \<noteq> 0 then False
      else if maskbits a \<noteq> maskbits b then False
      else if prt_min a \<noteq> prt_min b then False
      else if prt_max a \<noteq> prt_max b then False
      else True)"

definition addr_policies_eq :: "addr_policy_t list option \<Rightarrow> addr_policy_t list option \<Rightarrow> bool" where
  "addr_policies_eq a b =
     (let a = (case a of None \<Rightarrow> [] | Some l \<Rightarrow> l); b = (case b of None \<Rightarrow> [] | Some l \<Rightarrow> l)
      in if length a \<noteq> length b then False
         else list_all (\<lambda>(x, y). single_addr_policy_eq x y) (zip a b))"

subsection \<open>Decisions\<close>

fun compare_known_tor_addr_to_addr_policy :: "tor_addr_t \<Rightarrow> u16 \<Rightarrow> addr_policy_t list \<Rightarrow> addr_policy_result_t" where
  "compare_known_tor_addr_to_addr_policy addr port [] = ADDR_POLICY_ACCEPTED"
| "compare_known_tor_addr_to_addr_policy addr port (tmpe # policy) =
     (if tor_addr_compare_masked addr (pol_addr tmpe) (maskbits tmpe) CMP_EXACT = 0
      then if port \<ge> prt_min tmpe \<and> port \<le> prt_max tmpe
           then if policy_type tmpe = ADDR_POLICY_ACCEPT then ADDR_POLICY_ACCEPTED else ADDR_POLICY_REJECTED
           else compare_known_tor_addr_to_addr_policy addr port policy
      else compare_known_tor_addr_to_addr_policy addr port policy)"

fun noport_loop :: "tor_addr_t \<Rightarrow> addr_policy_t list \<Rightarrow> bool \<Rightarrow> bool \<Rightarrow> addr_policy_result_t" where
  "noport_loop addr [] maybe_accept maybe_reject =
     (if maybe_reject then ADDR_POLICY_PROBABLY_ACCEPTED else ADDR_POLICY_ACCEPTED)"
| "noport_loop addr (tmpe # policy) maybe_accept maybe_reject =
     (if tor_addr_compare_masked addr (pol_addr tmpe) (maskbits tmpe) CMP_EXACT = 0
      then if prt_min tmpe \<le> 1 \<and> prt_max tmpe \<ge> 65535
           then if policy_type tmpe = ADDR_POLICY_ACCEPT
                then if maybe_reject then ADDR_POLICY_PROBABLY_ACCEPTED else ADDR_POLICY_ACCEPTED
                else if maybe_accept then ADDR_POLICY_PROBABLY_REJECTED else ADDR_POLICY_REJECTED
           else if policy_type tmpe = ADDR_POLICY_REJECT
           then noport_loop addr policy maybe_accept True
           else noport_loop addr policy True maybe_reject
      else noport_loop addr policy maybe_accept maybe_reject)"

definition compare_known_tor_addr_to_addr_policy_noport :: "tor_addr_t \<Rightarrow> addr_policy_t list \<Rightarrow> addr_policy_result_t" where
  "compare_known_tor_addr_to_addr_policy_noport addr policy = noport_loop addr policy False False"

fun unknown_loop :: "u16 \<Rightarrow> addr_policy_t list \<Rightarrow> bool \<Rightarrow> bool \<Rightarrow> addr_policy_result_t" where
  "unknown_loop port [] maybe_accept maybe_reject =
     (if maybe_reject then ADDR_POLICY_PROBABLY_ACCEPTED else ADDR_POLICY_ACCEPTED)"
| "unknown_loop port (tmpe # policy) maybe_accept maybe_reject =
     (if prt_min tmpe \<le> port \<and> port \<le> prt_max tmpe
      then if maskbits tmpe = 0
           then if policy_type tmpe = ADDR_POLICY_ACCEPT
                then if maybe_reject then ADDR_POLICY_PROBABLY_ACCEPTED else ADDR_POLICY_ACCEPTED
                else if maybe_accept then ADDR_POLICY_PROBABLY_REJECTED else ADDR_POLICY_REJECTED
           else if policy_type tmpe = ADDR_POLICY_REJECT
           then unknown_loop port policy maybe_accept True
           else unknown_loop port policy True maybe_reject
      else unknown_loop port policy maybe_accept maybe_reject)"

definition compare_unknown_tor_addr_to_addr_policy :: "u16 \<Rightarrow> addr_policy_t list \<Rightarrow> addr_policy_result_t" where
  "compare_unknown_tor_addr_to_addr_policy port policy = unknown_loop port policy False False"

definition compare_tor_addr_to_addr_policy ::
    "tor_addr_t option \<Rightarrow> u16 \<Rightarrow> addr_policy_t list option \<Rightarrow> addr_policy_result_t" where
  "compare_tor_addr_to_addr_policy addr port policy =
     (case policy of
        None \<Rightarrow> ADDR_POLICY_ACCEPTED
      | Some policy \<Rightarrow>
          if (case addr of None \<Rightarrow> True | Some a \<Rightarrow> tor_addr_is_null a)
          then if port = 0 then ADDR_POLICY_REJECTED
               else compare_unknown_tor_addr_to_addr_policy port policy
          else if port = 0 then compare_known_tor_addr_to_addr_policy_noport (the addr) policy
          else compare_known_tor_addr_to_addr_policy (the addr) port policy)"

subsection \<open>Redundant rules\<close>

definition addr_policy_covers :: "addr_policy_t \<Rightarrow> addr_policy_t \<Rightarrow> bool" where
  "addr_policy_covers a b =
     (if tor_addr_family (pol_addr a) \<noteq> tor_addr_family (pol_addr b) then False
      else if maskbits a > maskbits b then False
      else if tor_addr_compare_masked (pol_addr a) (pol_addr b) (maskbits a) CMP_EXACT \<noteq> 0 then False
      else prt_min a \<le> prt_min b \<and> prt_max a \<ge> prt_max b)"

definition addr_policy_intersects :: "addr_policy_t \<Rightarrow> addr_policy_t \<Rightarrow> bool" where
  "addr_policy_intersects a b =
     (let minbits = (if maskbits a < maskbits b then maskbits a else maskbits b)
      in if tor_addr_compare_masked (pol_addr a) (pol_addr b) minbits CMP_EXACT \<noteq> 0 then False
         else if prt_max a < prt_min b \<or> prt_max b < prt_min a then False
         else True)"

text \<open>The three steps of \<open>exit_policy_remove_redundancies\<close>.\<close>

fun kill_after_wildcards :: "bool \<Rightarrow> bool \<Rightarrow> addr_policy_t list \<Rightarrow> addr_policy_t list" where
  "kill_after_wildcards kill_v4 kill_v6 [] = []"
| "kill_after_wildcards kill_v4 kill_v6 (ap # dest) =
     (let family = tor_addr_family (pol_addr ap)
      in if family = AF_INET \<and> kill_v4 \<or> family = AF_INET6 \<and> kill_v6
         then kill_after_wildcards kill_v4 kill_v6 dest
         else let catch_all = (maskbits ap = 0 \<and> prt_min ap \<le> 1 \<and> prt_max ap \<ge> 65535)
              in ap # kill_after_wildcards (kill_v4 \<or> catch_all \<and> family = AF_INET)
                        (kill_v6 \<or> catch_all \<and> family = AF_INET6) dest)"

fun remove_covered :: "addr_policy_t \<Rightarrow> addr_policy_t list \<Rightarrow> addr_policy_t list" where
  "remove_covered ap [] = []"
| "remove_covered ap (tmp # dest) =
     (if addr_policy_covers ap tmp then remove_covered ap dest else tmp # remove_covered ap dest)"

lemma remove_covered_filter: "remove_covered ap dest = filter (\<lambda>tmp. \<not> addr_policy_covers ap tmp) dest"
  by (induction dest) simp_all

function remove_later_covered :: "addr_policy_t list \<Rightarrow> addr_policy_t list" where
  "remove_later_covered [] = []"
| "remove_later_covered (ap # dest) = ap # remove_later_covered (remove_covered ap dest)"
  by pat_completeness auto
termination by (relation "measure length") (auto simp: remove_covered_filter less_Suc_eq_le)

fun covered_later :: "addr_policy_t \<Rightarrow> addr_policy_t list \<Rightarrow> bool" where
  "covered_later ap [] = False"
| "covered_later ap (tmp # dest) =
     (if policy_type ap \<noteq> policy_type tmp
      then if addr_policy_intersects ap tmp then False else covered_later ap dest
      else if addr_policy_covers tmp ap then True
      else covered_later ap dest)"

fun remove_covered_later :: "addr_policy_t list \<Rightarrow> addr_policy_t list" where
  "remove_covered_later [] = []"
| "remove_covered_later (ap # dest) =
     (if covered_later ap dest then remove_covered_later dest else ap # remove_covered_later dest)"

definition exit_policy_remove_redundancies :: "addr_policy_t list \<Rightarrow> addr_policy_t list" where
  "exit_policy_remove_redundancies dest =
     remove_covered_later (remove_later_covered (kill_after_wildcards False False dest))"

subsection \<open>Rejecting the addresses of this relay\<close>

definition addr_policy_append_reject_addr :: "addr_policy_t list option \<Rightarrow> tor_addr_t \<Rightarrow> addr_policy_t list option" where
  "addr_policy_append_reject_addr dest addr =
     (let p = \<lparr>policy_type = ADDR_POLICY_REJECT, is_private = False,
               maskbits = (if tor_addr_family addr = AF_INET6 then 128 else 32),
               pol_addr = addr, prt_min = 1, prt_max = 65535\<rparr>
      in Some ((case dest of None \<Rightarrow> [] | Some l \<Rightarrow> l) @ [p]))"

definition tor_addr_is_public_for_reject :: "tor_addr_t \<Rightarrow> bool" where
  "tor_addr_is_public_for_reject addr =
     (\<not> tor_addr_is_null addr \<and> \<not> tor_addr_is_internal addr False \<and> \<not> tor_addr_is_multicast addr)"

definition addr_policy_append_reject_addr_filter ::
    "addr_policy_t list option \<Rightarrow> tor_addr_t \<Rightarrow> bool \<Rightarrow> bool \<Rightarrow> addr_policy_t list option" where
  "addr_policy_append_reject_addr_filter dest addr ipv4_rules ipv6_rules =
     (if tor_addr_is_public_for_reject addr
      then let is_ipv4 = tor_addr_is_v4 addr
           in if is_ipv4 \<and> ipv4_rules \<or> \<not> is_ipv4 \<and> ipv6_rules
              then addr_policy_append_reject_addr dest addr else dest
      else dest)"

definition addr_policy_append_reject_addr_list ::
    "addr_policy_t list option \<Rightarrow> tor_addr_t list \<Rightarrow> addr_policy_t list option" where
  "addr_policy_append_reject_addr_list dest addrs = foldl addr_policy_append_reject_addr dest addrs"

definition addr_policy_append_reject_addr_list_filter ::
    "addr_policy_t list option \<Rightarrow> tor_addr_t list \<Rightarrow> bool \<Rightarrow> bool \<Rightarrow> addr_policy_t list option" where
  "addr_policy_append_reject_addr_list_filter dest addrs ipv4_rules ipv6_rules =
     foldl (\<lambda>dest addr. addr_policy_append_reject_addr_filter dest addr ipv4_rules ipv6_rules) dest addrs"

text \<open>The ports of this relay are given with a mark for Unix sockets; the addresses of its interfaces, which the
  operating system is asked for, are given for both families.\<close>

definition reject_ports :: "addr_policy_t list option \<Rightarrow> (bool \<times> tor_addr_t) list \<Rightarrow> bool \<Rightarrow> addr_policy_t list option" where
  "reject_ports dest ports ipv6_exit =
     foldl (\<lambda>dest (is_unix_addr, addr). if \<not> is_unix_addr then addr_policy_append_reject_addr_filter dest addr True ipv6_exit else dest)
       dest ports"

definition policies_parse_exit_policy_reject_private ::
    "addr_policy_t list option \<Rightarrow> bool \<Rightarrow> tor_addr_t list option \<Rightarrow> bool \<Rightarrow> bool \<Rightarrow>
     (bool \<times> tor_addr_t) list \<Rightarrow> (sa_family_t \<Rightarrow> tor_addr_t list) \<Rightarrow> addr_policy_t list option" where
  "policies_parse_exit_policy_reject_private dest ipv6_exit configured_addresses reject_interface_addresses
       reject_configured_port_addresses ports interfaces =
     (let dest = (case configured_addresses of
                    None \<Rightarrow> dest
                  | Some addrs \<Rightarrow> addr_policy_append_reject_addr_list_filter dest addrs True ipv6_exit);
          dest = (if reject_configured_port_addresses then reject_ports dest ports ipv6_exit else dest);
          dest = (if reject_interface_addresses
                  then let dest = addr_policy_append_reject_addr_list_filter dest (interfaces AF_INET) True False
                       in if ipv6_exit then addr_policy_append_reject_addr_list_filter dest (interfaces AF_INET6) False True
                          else dest
                  else dest)
      in map_option exit_policy_remove_redundancies dest)"

text \<open>The index of the rule that \<open>policies_log_first_redundant_entry\<close> warns of, if any: the one after the first rule
  that is a wildcard for both families.  The flags for the families are those of one rule.\<close>

fun first_redundant_loop :: "addr_policy_t list \<Rightarrow> nat \<Rightarrow> nat \<Rightarrow> nat option" where
  "first_redundant_loop [] i n = None"
| "first_redundant_loop (p # policy) i n =
     (let wildcard = (prt_min p \<le> 1 \<and> prt_max p = 65535 \<and> maskbits p = 0);
          family = tor_addr_family (pol_addr p);
          found_ipv4_wildcard = (wildcard \<and> (family = AF_INET \<or> family = AF_UNSPEC));
          found_ipv6_wildcard = (wildcard \<and> (family = AF_INET6 \<or> family = AF_UNSPEC))
      in if found_ipv4_wildcard \<and> found_ipv6_wildcard
         then if i < n - 1 then Some (i + 1) else None
         else first_redundant_loop policy (i + 1) n)"

definition policies_log_first_redundant_entry :: "addr_policy_t list \<Rightarrow> nat option" where
  "policies_log_first_redundant_entry policy = first_redundant_loop policy 0 (length policy)"

subsection \<open>What a policy allows at all\<close>

definition subnet_first :: "addr_policy_t \<Rightarrow> nat" where
  "subnet_first p =
     (let m = (if maskbits p \<noteq> 0 then push_bit (32 - maskbits p) UINT32_MAX else 0);
          ip = tor_addr_to_ipv4h (pol_addr p)
      in unat (drop_bit 24 (m AND ip)))"

definition subnet_last :: "addr_policy_t \<Rightarrow> nat" where
  "subnet_last p =
     (let m = (if maskbits p \<noteq> 0 then push_bit (32 - maskbits p) UINT32_MAX else 0);
          ip = tor_addr_to_ipv4h (pol_addr p)
      in unat (drop_bit 24 (NOT ((m AND ip) XOR m))))"

text \<open>The loop over the /8 networks a rule touches.  \<open>None\<close> is the \<open>return 1\<close> inside it.\<close>

fun subnet_loop :: "addr_policy_t \<Rightarrow> bool \<Rightarrow> nat list \<Rightarrow> bool list \<Rightarrow> bool list option" where
  "subnet_loop p allow_private [] subnet_status = Some subnet_status"
| "subnet_loop p allow_private (i # is) subnet_status =
     (if subnet_status ! i then subnet_loop p allow_private is subnet_status
      else if tor_addr_is_internal (Addr_ipv4 (push_bit 24 (of_nat i))) False \<and> \<not> allow_private
      then subnet_loop p allow_private is subnet_status
      else if policy_type p = ADDR_POLICY_ACCEPT
      then if maskbits p > 8 then subnet_loop p allow_private is subnet_status else None
      else subnet_loop p allow_private is (subnet_status[i := True]))"

fun general_exit_loop :: "addr_policy_t list \<Rightarrow> u16 \<Rightarrow> bool \<Rightarrow> bool list \<Rightarrow> bool outcome" where
  "general_exit_loop [] port allow_private subnet_status = Done False"
| "general_exit_loop (p # policy) port allow_private subnet_status =
     (if tor_addr_family (pol_addr p) \<noteq> AF_INET then general_exit_loop policy port allow_private subnet_status
      else if prt_min p > port \<or> prt_max p < port then general_exit_loop policy port allow_private subnet_status
      else if \<not> maskbits p \<le> 32 then Assertion_failed
      else case subnet_loop p allow_private [subnet_first p ..< subnet_last p + 1] subnet_status of
             None \<Rightarrow> Done True
           | Some subnet_status \<Rightarrow> general_exit_loop policy port allow_private subnet_status)"

definition exit_policy_is_general_exit_helper :: "addr_policy_t list \<Rightarrow> u16 \<Rightarrow> bool \<Rightarrow> bool outcome" where
  "exit_policy_is_general_exit_helper policy port allow_private =
     general_exit_loop policy port allow_private (replicate 256 False)"

definition exit_policy_is_general_exit :: "addr_policy_t list option \<Rightarrow> bool \<Rightarrow> bool outcome" where
  "exit_policy_is_general_exit policy allow_private =
     (case policy of
        None \<Rightarrow> Done False
      | Some policy \<Rightarrow>
          and_then (exit_policy_is_general_exit_helper policy 80 allow_private)
            (\<lambda>r. if r then exit_policy_is_general_exit_helper policy 443 allow_private else Done False))"

fun reject_star_loop :: "addr_policy_t list \<Rightarrow> sa_family_t \<Rightarrow> bool \<Rightarrow> bool" where
  "reject_star_loop [] family default_reject = default_reject"
| "reject_star_loop (p # policy) family default_reject =
     (let f = tor_addr_family (pol_addr p)
      in if policy_type p = ADDR_POLICY_ACCEPT \<and> (f = family \<or> f = AF_UNSPEC) then False
         else if policy_type p = ADDR_POLICY_REJECT \<and> prt_min p \<le> 1 \<and> prt_max p = 65535 \<and> maskbits p = 0 \<and>
                 (f = family \<or> f = AF_UNSPEC) then True
         else reject_star_loop policy family default_reject)"

definition policy_is_reject_star :: "addr_policy_t list option \<Rightarrow> sa_family_t \<Rightarrow> bool \<Rightarrow> bool" where
  "policy_is_reject_star policy family default_reject =
     (case policy of None \<Rightarrow> default_reject | Some policy \<Rightarrow> reject_star_loop policy family default_reject)"

subsection \<open>Text of a rule\<close>

text \<open>\<open>policy_write_item\<close>: \<open>Minus_1\<close> when the buffer is too small.  The code reads the buffer of
  \<open>tor_addr_to_str\<close> also when that failed; the bytes read then are undefined, and the result here is
  \<open>Assertion_failed\<close>.\<close>

abbreviation (input) POLICY_BUF_LEN :: nat where "POLICY_BUF_LEN \<equiv> 72"

definition policy_addr_part :: "addr_policy_t \<Rightarrow> bool \<Rightarrow> string outcome" where
  "policy_addr_part policy format_for_desc =
     (let family = tor_addr_family (pol_addr policy)
      in if is_private policy then Done ''private''
         else if maskbits policy = 0
         then Done (if format_for_desc then ''*''
                    else if family = AF_INET6 then ''*6''
                    else if family = AF_INET then ''*4''
                    else ''*'')
         else case tor_addr_to_str (pol_addr policy) TOR_ADDR_BUF_LEN True of
                Some addrbuf \<Rightarrow> Done addrbuf
              | None \<Rightarrow> Assertion_failed)"

text \<open>A further piece of text behind the \<open>written\<close> bytes in the buffer.\<close>

definition append_item_text :: "nat \<Rightarrow> string \<Rightarrow> string \<Rightarrow> string outcome" where
  "append_item_text buflen written piece =
     (case tor_snprintf (buflen - length written) piece of None \<Rightarrow> Minus_1 | Some t \<Rightarrow> Done (written @ t))"

definition policy_port_part :: "nat \<Rightarrow> addr_policy_t \<Rightarrow> string \<Rightarrow> string outcome" where
  "policy_port_part buflen policy written =
     (let lo = prt_min policy; hi = prt_max policy
      in if lo \<le> 1 \<and> hi = 65535
         then if length written + 4 > buflen then Minus_1 else Done (written @ '':*'')
         else if lo = hi then append_item_text buflen written ('':'' @ dec_digits (unat lo))
         else append_item_text buflen written ('':'' @ dec_digits (unat lo) @ ''-'' @ dec_digits (unat hi)))"

definition policy_write_item :: "nat \<Rightarrow> addr_policy_t \<Rightarrow> bool \<Rightarrow> string outcome" where
  "policy_write_item buflen policy format_for_desc =
     (let is_ip6 = (tor_addr_family (pol_addr policy) = AF_INET6)
      in and_then (policy_addr_part policy format_for_desc)
           (\<lambda>addrpart. and_then (append_item_text buflen []
              ((if policy_type policy = ADDR_POLICY_ACCEPT then ''accept'' else ''reject'') @
               (if is_ip6 \<and> format_for_desc then ''6'' else []) @ '' '' @ addrpart))
           (\<lambda>written. and_then
              (if maskbits policy < (if is_ip6 then 128 else 32) \<and> maskbits policy > 0
               then append_item_text buflen written (''/'' @ dec_digits (maskbits policy)) else Done written)
           (\<lambda>written. and_then (policy_port_part buflen policy written)
           (\<lambda>written. if length written < buflen then Done written else Minus_1)))))"

fun dump_loop :: "addr_policy_t list \<Rightarrow> bool \<Rightarrow> bool \<Rightarrow> string list outcome" where
  "dump_loop [] include_ipv4 include_ipv6 = Done []"
| "dump_loop (tmpe # policy_list) include_ipv4 include_ipv6 =
     (if tor_addr_family (pol_addr tmpe) = AF_INET6 \<and> \<not> include_ipv6 then dump_loop policy_list include_ipv4 include_ipv6
      else if tor_addr_family (pol_addr tmpe) = AF_INET \<and> \<not> include_ipv4 then dump_loop policy_list include_ipv4 include_ipv6
      else and_then (policy_write_item POLICY_BUF_LEN tmpe True)
             (\<lambda>pbuf. and_then (dump_loop policy_list include_ipv4 include_ipv6) (\<lambda>l. Done (pbuf # l))))"

definition policy_dump_to_string :: "addr_policy_t list \<Rightarrow> bool \<Rightarrow> bool \<Rightarrow> string outcome" where
  "policy_dump_to_string policy_list include_ipv4 include_ipv6 =
     and_then (dump_loop policy_list include_ipv4 include_ipv6)
       (\<lambda>l. Done (fst (smartlist_join_strings l [NL] False)))"

end
