(* ===== verification/Policy_Summary.thy ===== *)
theory Policy_Summary
  imports Policies
begin

text \<open>
  Summaries of exit policies: the list of port ranges with the number of addresses rejected for each that
  \<open>policy_summarize\<close> builds, the text made of it, and the short policies parsed from such texts, on which clients
  base their choice of exits.

  A summary is a list of items.  The loops that step from item to item by index are recursive functions or go over the
  part of the list they cover; a read behind the last item and a failed assertion are both \<open>Assertion_failed\<close>.
\<close>

section \<open>Definitions\<close>

subsection \<open>Summaries\<close>

record policy_summary_item_t =
  item_min :: u16
  item_max :: u16
  reject_count :: u64
  accepted :: bool

abbreviation (input) MAX_EXITPOLICY_SUMMARY_LEN :: nat where "MAX_EXITPOLICY_SUMMARY_LEN \<equiv> 1000"
abbreviation (input) IPV4_BITS :: nat where "IPV4_BITS \<equiv> 32"
abbreviation (input) IPV6_BITS :: nat where "IPV6_BITS \<equiv> 128"
abbreviation (input) REJECT_CUTOFF_SCALE_IPV4 :: nat where "REJECT_CUTOFF_SCALE_IPV4 \<equiv> 0"
abbreviation (input) REJECT_CUTOFF_SCALE_IPV6 :: nat where "REJECT_CUTOFF_SCALE_IPV6 \<equiv> 64"
abbreviation (input) REJECT_CUTOFF_COUNT_IPV4 :: u64 where
  "REJECT_CUTOFF_COUNT_IPV4 \<equiv> push_bit (IPV4_BITS - REJECT_CUTOFF_SCALE_IPV4 - 7) 1"
abbreviation (input) REJECT_CUTOFF_COUNT_IPV6 :: u64 where
  "REJECT_CUTOFF_COUNT_IPV6 \<equiv> push_bit (IPV6_BITS - REJECT_CUTOFF_SCALE_IPV6 - 16) 1"

definition policy_summary_create :: "policy_summary_item_t list" where
  "policy_summary_create = [\<lparr>item_min = 1, item_max = 65535, reject_count = 0, accepted = False\<rparr>]"

text \<open>The old item and the new one.\<close>

definition policy_summary_item_split ::
    "policy_summary_item_t \<Rightarrow> u16 \<Rightarrow> (policy_summary_item_t \<times> policy_summary_item_t) outcome" where
  "policy_summary_item_split old new_starts =
     (let new = old\<lparr>item_min := new_starts\<rparr>;
          old = old\<lparr>item_max := new_starts - 1\<rparr>
      in if \<not> item_min old \<le> item_max old then Assertion_failed
         else if \<not> item_min new \<le> item_max new then Assertion_failed
         else Done (old, new))"

text \<open>The loops \<open>while (AT(i)->prt_max < port) i++\<close>; \<open>Assertion_failed\<close> is a read behind the last item.\<close>

function seek_item :: "policy_summary_item_t list \<Rightarrow> nat \<Rightarrow> u16 \<Rightarrow> nat outcome" where
  "seek_item summary i port =
     (if i < length summary
      then if item_max (summary ! i) < port then seek_item summary (Suc i) port else Done i
      else Assertion_failed)"
  by pat_completeness auto
termination by (relation "measure (\<lambda>(summary, i, port). length summary - i)") auto

declare seek_item.simps [simp del]

text \<open>Splitting item \<open>i\<close>, the new item being inserted after it.\<close>

definition split_item_at :: "policy_summary_item_t list \<Rightarrow> nat \<Rightarrow> u16 \<Rightarrow> policy_summary_item_t list outcome" where
  "split_item_at summary i new_starts =
     and_then (policy_summary_item_split (summary ! i) new_starts)
       (\<lambda>(old, new). Done (take i summary @ old # new # drop (i + 1) summary))"

definition policy_summary_split ::
    "policy_summary_item_t list \<Rightarrow> u16 \<Rightarrow> u16 \<Rightarrow> (policy_summary_item_t list \<times> nat) outcome" where
  "policy_summary_split summary lo hi =
     and_then (seek_item summary 0 lo)
       (\<lambda>i. and_then (if item_min (summary ! i) \<noteq> lo
                      then and_then (split_item_at summary i lo) (\<lambda>summary. Done (summary, i + 1))
                      else Done (summary, i))
       (\<lambda>(summary, start_at_index). and_then (seek_item summary start_at_index hi)
       (\<lambda>i. and_then (if item_max (summary ! i) \<noteq> hi then split_item_at summary i (hi + 1) else Done summary)
       (\<lambda>summary. Done (summary, start_at_index)))))"

text \<open>The loop from the first item over all items that end by \<open>hi\<close>, and the assertion after it.\<close>

definition update_items ::
    "(policy_summary_item_t \<Rightarrow> policy_summary_item_t) \<Rightarrow> policy_summary_item_t list \<Rightarrow> nat \<Rightarrow> u16
     \<Rightarrow> policy_summary_item_t list outcome" where
  "update_items f summary i hi =
     (let within = takeWhile (\<lambda>x. item_max x \<le> hi) (drop i summary);
          rest = dropWhile (\<lambda>x. item_max x \<le> hi) (drop i summary)
      in if \<not> (rest \<noteq> [] \<or> hi = 65535) then Assertion_failed
         else Done (take i summary @ map f within @ rest))"

definition accept_item :: "u64 \<Rightarrow> policy_summary_item_t \<Rightarrow> policy_summary_item_t" where
  "accept_item family_reject_count x =
     (if \<not> accepted x \<and> reject_count x \<le> family_reject_count then x\<lparr>accepted := True\<rparr> else x)"

definition policy_summary_accept ::
    "policy_summary_item_t list \<Rightarrow> u16 \<Rightarrow> u16 \<Rightarrow> sa_family_t \<Rightarrow> policy_summary_item_t list outcome" where
  "policy_summary_accept summary lo hi family =
     (let family_reject_count = (if family = AF_INET then REJECT_CUTOFF_COUNT_IPV4 else REJECT_CUTOFF_COUNT_IPV6)
      in and_then (policy_summary_split summary lo hi)
           (\<lambda>(summary, i). update_items (accept_item family_reject_count) summary i hi))"

definition reject_item :: "u64 \<Rightarrow> policy_summary_item_t \<Rightarrow> policy_summary_item_t" where
  "reject_item addresses x =
     (if reject_count x \<le> UINT64_MAX - addresses then x\<lparr>reject_count := reject_count x + addresses\<rparr>
      else x\<lparr>reject_count := UINT64_MAX\<rparr>)"

text \<open>The number of addresses a mask leaves open, or \<open>None\<close> when they are too few to count.\<close>

definition rejected_addresses :: "nat \<Rightarrow> sa_family_t \<Rightarrow> u64 option" where
  "rejected_addresses bits family =
     (let addrbits = (if family = AF_INET then IPV4_BITS else IPV6_BITS);
          scale = (if family = AF_INET then REJECT_CUTOFF_SCALE_IPV4 else REJECT_CUTOFF_SCALE_IPV6)
      in if bits > addrbits - scale then None
         else if addrbits - scale - bits \<ge> 64 then Some UINT64_MAX
         else Some (push_bit (addrbits - scale - bits) 1))"

definition policy_summary_reject ::
    "policy_summary_item_t list \<Rightarrow> nat \<Rightarrow> u16 \<Rightarrow> u16 \<Rightarrow> sa_family_t \<Rightarrow> policy_summary_item_t list outcome" where
  "policy_summary_reject summary bits lo hi family =
     and_then (policy_summary_split summary lo hi)
       (\<lambda>(summary, i). case rejected_addresses bits family of
            None \<Rightarrow> Done summary
          | Some addresses \<Rightarrow> update_items (reject_item addresses) summary i hi)"

fun rule_is_private_net :: "addr_policy_t \<Rightarrow> string list \<Rightarrow> bool outcome" where
  "rule_is_private_net p [] = Done False"
| "rule_is_private_net p (net # nets) =
     and_then (private_net net False)
       (\<lambda>(addr, bits). if tor_addr_compare (pol_addr p) addr CMP_EXACT = 0 \<and> maskbits p = bits then Done True
                       else rule_is_private_net p nets)"

definition policy_summary_add_item ::
    "policy_summary_item_t list \<Rightarrow> addr_policy_t \<Rightarrow> policy_summary_item_t list outcome" where
  "policy_summary_add_item summary p =
     (case policy_type p of
        ADDR_POLICY_ACCEPT \<Rightarrow>
          if maskbits p = 0
          then policy_summary_accept summary (prt_min p) (prt_max p) (tor_addr_family (pol_addr p))
          else Done summary
      | ADDR_POLICY_REJECT \<Rightarrow>
          and_then (rule_is_private_net p private_nets)
            (\<lambda>private. if \<not> private
                then policy_summary_reject summary (maskbits p) (prt_min p) (prt_max p) (tor_addr_family (pol_addr p))
                else Done summary))"

fun summary_of_rules ::
    "addr_policy_t list \<Rightarrow> sa_family_t \<Rightarrow> policy_summary_item_t list \<Rightarrow> policy_summary_item_t list outcome" where
  "summary_of_rules [] family summary = Done summary"
| "summary_of_rules (p # policy) family summary =
     (if tor_addr_family (pol_addr p) \<noteq> family then summary_of_rules policy family summary
      else and_then (policy_summary_add_item summary p) (summary_of_rules policy family))"

text \<open>The texts of the accepted and of the rejected ranges, neighbours of the same kind merged.\<close>

definition range_piece :: "u16 \<Rightarrow> u16 \<Rightarrow> string" where
  "range_piece start_prt hi =
     (if start_prt = hi then dec_digits (unat start_prt)
      else dec_digits (unat start_prt) @ ''-'' @ dec_digits (unat hi))"

fun summary_strings :: "policy_summary_item_t list \<Rightarrow> u16 \<Rightarrow> string list \<Rightarrow> string list \<Rightarrow> string list \<times> string list" where
  "summary_strings [] start_prt accepts rejects = (accepts, rejects)"
| "summary_strings (x # xs) start_prt accepts rejects =
     (if xs = [] \<or> accepted x \<noteq> accepted (hd xs)
      then let buf = range_piece start_prt (item_max x);
               accepts' = (if accepted x then accepts @ [buf] else accepts);
               rejects' = (if accepted x then rejects else rejects @ [buf])
           in if xs = [] then (accepts', rejects')
              else summary_strings xs (item_min (hd xs)) accepts' rejects'
      else summary_strings xs start_prt accepts rejects)"

text \<open>Stepping back to a comma; \<open>Assertion_failed\<close> when there is none.\<close>

fun back_to_comma :: "string \<Rightarrow> nat \<Rightarrow> nat outcome" where
  "back_to_comma s 0 = (if s ! 0 = CHR '','' then Done 0 else Assertion_failed)"
| "back_to_comma s (Suc c) = (if s ! Suc c = CHR '','' then Done (Suc c) else back_to_comma s c)"

definition summary_text :: "string list \<Rightarrow> string list \<Rightarrow> string outcome" where
  "summary_text accepts rejects =
     (if accepts = [] then Done ''reject 1-65535''
      else if rejects = [] then Done ''accept 1-65535''
      else case smartlist_join_strings accepts '','' False of (accepts_str, accepts_len) \<Rightarrow>
           case smartlist_join_strings rejects '','' False of (rejects_str, rejects_len) \<Rightarrow>
             if rejects_len > MAX_EXITPOLICY_SUMMARY_LEN - length ''reject'' - 1 \<and>
                accepts_len > MAX_EXITPOLICY_SUMMARY_LEN - length ''accept'' - 1
             then and_then (back_to_comma accepts_str (MAX_EXITPOLICY_SUMMARY_LEN - length ''accept'' - 1))
                    (\<lambda>c. Done (''accept '' @ take c accepts_str))
             else if rejects_len < accepts_len then Done (''reject '' @ rejects_str)
             else Done (''accept '' @ accepts_str))"

definition policy_summarize :: "addr_policy_t list option \<Rightarrow> sa_family_t \<Rightarrow> string outcome" where
  "policy_summarize policy family =
     (case policy of
        None \<Rightarrow> Assertion_failed
      | Some policy \<Rightarrow>
          and_then (summary_of_rules policy family policy_summary_create)
            (\<lambda>summary. case summary_strings summary 1 [] [] of (accepts, rejects) \<Rightarrow> summary_text accepts rejects))"

subsection \<open>Short policies\<close>

record short_policy_entry_t =
  min_port :: u16
  max_port :: u16

record short_policy_t =
  is_accept :: bool
  entries :: "short_policy_entry_t list"

lemma parse_ulong_rest:
  "tor_parse_ulong s base lo hi True = Some (r, ok, Some rest) \<Longrightarrow> length rest \<le> length s \<and> (ok \<longrightarrow> length rest < length s)"
proof -
  have e: "endptr (strtoull s b) = Some e \<Longrightarrow> length e < length s" for b e
    by (auto simp: strtoull_def dest: strto_scan_rest split: option.splits if_splits)
  assume "tor_parse_ulong s base lo hi True = Some (r, ok, Some rest)"
  then show ?thesis
    by (auto simp: tor_parse_ulong_def CHECK_STRTOX_RESULT_def Let_def less_imp_le dest: e split: if_splits option.splits)
qed

text \<open>The loop over the entries.  \<open>None\<close> stands for \<open>bad_ent\<close> and for too long a list.\<close>

function parse_short_entries :: "string \<Rightarrow> short_policy_entry_t list \<Rightarrow> short_policy_entry_t list option" where
  "parse_short_entries summary ents =
     (if summary = [] then Some ents
      else if length ents = MAX_EXITPOLICY_SUMMARY_LEN then None
      else case tor_parse_ulong summary 10 1 65535 True of
             Some (low, ok, Some next) \<Rightarrow>
               if \<not> ok
               then if \<not> TOR_ISDIGIT (hd summary) \<or> hd summary = CHR '',''
                    then case memchr next (CHR '','') of
                           None \<Rightarrow> Some ents
                         | Some k \<Rightarrow> parse_short_entries (drop (k + 1) next) ents
                    else None
               else (case next of
                       [] \<Rightarrow> parse_short_entries [] (ents @ [\<lparr>min_port = ucast low, max_port = ucast low\<rparr>])
                     | c # cs \<Rightarrow>
                         if c = CHR '','' then parse_short_entries cs (ents @ [\<lparr>min_port = ucast low, max_port = ucast low\<rparr>])
                         else if c = CHR ''-''
                         then (case tor_parse_ulong cs 10 low 65535 True of
                                 Some (high, ok2, Some next2) \<Rightarrow>
                                   if \<not> ok2 then None
                                   else if next2 = []
                                   then parse_short_entries [] (ents @ [\<lparr>min_port = ucast low, max_port = ucast high\<rparr>])
                                   else if hd next2 = CHR '',''
                                   then parse_short_entries (tl next2) (ents @ [\<lparr>min_port = ucast low, max_port = ucast high\<rparr>])
                                   else None
                               | _ \<Rightarrow> None)
                         else None)
           | _ \<Rightarrow> None)"
  by pat_completeness auto
termination
  by (relation "measure (\<lambda>(s, _). length s)") (auto dest!: parse_ulong_rest memchr_less)

declare parse_short_entries.simps [simp del]

definition parse_short_policy :: "string \<Rightarrow> short_policy_t option" where
  "parse_short_policy summary =
     (case (if strcmpstart summary ''accept '' = 0 then Some (True, drop (length ''accept '') summary)
            else if strcmpstart summary ''reject '' = 0 then Some (False, drop (length ''reject '') summary)
            else None) of
        None \<Rightarrow> None
      | Some (acc, summary) \<Rightarrow>
          (case parse_short_entries summary [] of
             None \<Rightarrow> None
           | Some ents \<Rightarrow> if length ents = 0 then None else Some \<lparr>is_accept = acc, entries = ents\<rparr>))"

definition short_entry_text :: "short_policy_entry_t \<Rightarrow> string" where
  "short_entry_text e =
     (if min_port e = max_port e then dec_digits (unat (min_port e))
      else dec_digits (unat (min_port e)) @ ''-'' @ dec_digits (unat (max_port e)))"

fun write_entries :: "short_policy_entry_t list \<Rightarrow> string list" where
  "write_entries [] = []"
| "write_entries (e # es) = short_entry_text e # (if es \<noteq> [] then ['',''] else []) @ write_entries es"

definition write_short_policy :: "short_policy_t \<Rightarrow> string" where
  "write_short_policy policy =
     fst (smartlist_join_strings
           ((if is_accept policy then ''accept '' else ''reject '') # write_entries (entries policy)) [] False)"

definition compare_tor_addr_to_short_policy ::
    "tor_addr_t option \<Rightarrow> u16 \<Rightarrow> short_policy_t \<Rightarrow> bool \<Rightarrow> addr_policy_result_t outcome" where
  "compare_tor_addr_to_short_policy addr port policy reject_internal =
     (if \<not> port \<noteq> 0 then Assertion_failed
      else let addr = (case addr of Some a \<Rightarrow> if tor_addr_is_null a then None else Some a | None \<Rightarrow> None)
           in if (case addr of Some a \<Rightarrow> reject_internal \<and> (tor_addr_is_internal a False \<or> tor_addr_is_loopback a)
                              | None \<Rightarrow> False)
              then Done ADDR_POLICY_REJECTED
              else let found_match = list_ex (\<lambda>e. min_port e \<le> port \<and> port \<le> max_port e) (entries policy);
                       accept1 = (if found_match then is_accept policy else \<not> is_accept policy)
                   in Done (if accept1 then ADDR_POLICY_PROBABLY_ACCEPTED else ADDR_POLICY_REJECTED))"

definition short_policy_is_reject_star :: "short_policy_t \<Rightarrow> bool" where
  "short_policy_is_reject_star policy =
     (\<not> is_accept policy \<and> length (entries policy) = 1 \<and>
      min_port (hd (entries policy)) = 1 \<and> max_port (hd (entries policy)) = 65535)"

text \<open>What a node says of its exit policy: in its descriptor (\<open>ri\<close>) or its microdescriptor (\<open>md\<close>).\<close>

record node_policies =
  rejects_all :: bool
  ri_policies :: "(addr_policy_t list option \<times> short_policy_t option) option"
  md_policies :: "(short_policy_t option \<times> short_policy_t option) option"

definition compare_tor_addr_to_node_policy ::
    "tor_addr_t option \<Rightarrow> u16 \<Rightarrow> node_policies \<Rightarrow> bool \<Rightarrow> addr_policy_result_t outcome" where
  "compare_tor_addr_to_node_policy addr port node reject_internal =
     (if rejects_all node then Done ADDR_POLICY_REJECTED
      else if (case addr of Some a \<Rightarrow> tor_addr_family a = AF_INET6 | None \<Rightarrow> False)
      then let p = (case ri_policies node of
                      Some (_, ipv6_exit_policy) \<Rightarrow> ipv6_exit_policy
                    | None \<Rightarrow> (case md_policies node of Some (_, ipv6_exit_policy) \<Rightarrow> ipv6_exit_policy | None \<Rightarrow> None))
           in case p of
                Some p \<Rightarrow> compare_tor_addr_to_short_policy addr port p reject_internal
              | None \<Rightarrow> Done ADDR_POLICY_REJECTED
      else case ri_policies node of
             Some (exit_policy, _) \<Rightarrow> Done (compare_tor_addr_to_addr_policy addr port exit_policy)
           | None \<Rightarrow> (case md_policies node of
                 Some (exit_policy, _) \<Rightarrow>
                   (case exit_policy of
                      None \<Rightarrow> Done ADDR_POLICY_REJECTED
                    | Some p \<Rightarrow> compare_tor_addr_to_short_policy addr port p reject_internal)
               | None \<Rightarrow> Done ADDR_POLICY_PROBABLY_REJECTED))"

end
