(* ===== verification/Policy_Rules.thy ===== *)
theory Policy_Rules
  imports Policy_Summary Address_Props
begin

text \<open>
  The lemmas on decisions: a rule as a set of addresses and ports, covering and intersecting rules, the three steps of
  the removal of redundant rules, decisions on partial knowledge, wildcards for both families, and the loop over /8
  networks.  What they need of addresses is the interface \<open>prefix_equality\<close>.
\<close>

section \<open>Rules as sets of addresses and ports\<close>

definition rule_matches :: "tor_addr_t \<Rightarrow> u16 \<Rightarrow> addr_policy_t \<Rightarrow> bool" where
  "rule_matches a port p \<longleftrightarrow> tor_addr_compare_masked a (pol_addr p) (maskbits p) CMP_EXACT = 0 \<and>
     prt_min p \<le> port \<and> port \<le> prt_max p"

definition rules_ok :: "addr_policy_t list \<Rightarrow> bool" where
  "rules_ok l \<longleftrightarrow> (\<forall>p \<in> set l. addr_ok (pol_addr p))"

lemma rules_ok_simps [simp]: "rules_ok []" "rules_ok (p # l) \<longleftrightarrow> addr_ok (pol_addr p) \<and> rules_ok l"
  by (auto simp: rules_ok_def)

lemma rules_ok_subseq: "subseq l' l \<Longrightarrow> rules_ok l \<Longrightarrow> rules_ok l'"
  by (auto simp: rules_ok_def dest: list_emb_set)

lemma known_Cons:
  "compare_known_tor_addr_to_addr_policy a port (p # l) =
     (if rule_matches a port p
      then if policy_type p = ADDR_POLICY_ACCEPT then ADDR_POLICY_ACCEPTED else ADDR_POLICY_REJECTED
      else compare_known_tor_addr_to_addr_policy a port l)"
  by (simp add: rule_matches_def)

declare compare_known_tor_addr_to_addr_policy.simps(2) [simp del]

lemma known_skip: "\<not> rule_matches a port p \<Longrightarrow>
    compare_known_tor_addr_to_addr_policy a port (p # l) = compare_known_tor_addr_to_addr_policy a port l"
  by (simp add: known_Cons)

lemma known_cases: "compare_known_tor_addr_to_addr_policy a port l = ADDR_POLICY_ACCEPTED \<or>
    compare_known_tor_addr_to_addr_policy a port l = ADDR_POLICY_REJECTED"
  by (induction l) (simp_all add: known_Cons)

subsection \<open>Wildcards\<close>

lemma masked_zero: "addr_ok a \<Longrightarrow> tor_addr_family a = AF_INET \<or> tor_addr_family a = AF_INET6 \<Longrightarrow> masked_number 0 a = 0"
proof (cases a)
  case (Addr_ipv4 x)
  have "unat x < 2 ^ 32" using unat_u32_less [of x] by simp
  then show ?thesis unfolding Addr_ipv4 by (simp only: masked_number.simps diff_zero div_less)
next
  case (Addr_ipv6 b)
  assume "addr_ok a"
  then have "bytes_number b < 2 ^ 128" using bytes_number_less [of b] Addr_ipv6 by simp
  then show ?thesis unfolding Addr_ipv6 by (simp only: masked_number.simps diff_zero div_less)
qed simp_all

lemmas zero_iff = exact_compare_zero

lemma wildcard_matches:
  assumes "addr_ok a" "addr_ok (pol_addr p)" "tor_addr_family (pol_addr p) = tor_addr_family a"
    "tor_addr_family a = AF_INET \<or> tor_addr_family a = AF_INET6" "maskbits p = 0"
  shows "tor_addr_compare_masked a (pol_addr p) (maskbits p) CMP_EXACT = 0"
  using assms masked_zero by (simp add: zero_iff)

lemma matches_family: "rule_matches a port p \<Longrightarrow> addr_ok a \<Longrightarrow> addr_ok (pol_addr p) \<Longrightarrow> tor_addr_family (pol_addr p) = tor_addr_family a"
  by (simp add: rule_matches_def zero_iff)

subsection \<open>Covering and intersecting\<close>

lemma covers_matches:
  assumes "addr_policy_covers p q" "rule_matches a port q" "addr_ok a" "addr_ok (pol_addr p)" "addr_ok (pol_addr q)"
  shows "rule_matches a port p"
proof -
  have c: "tor_addr_compare_masked a (pol_addr q) (maskbits q) CMP_EXACT = 0" "maskbits p \<le> maskbits q"
    "tor_addr_compare_masked (pol_addr p) (pol_addr q) (maskbits p) CMP_EXACT = 0"
    "prt_min p \<le> prt_min q" "prt_max q \<le> prt_max p" "prt_min q \<le> port" "port \<le> prt_max q"
    using assms(1,2) by (auto simp: addr_policy_covers_def rule_matches_def split: if_splits)
  have "tor_addr_compare_masked a (pol_addr p) (maskbits p) CMP_EXACT = 0"
    by (rule addr_prefix.covered [OF assms(3,4,5) c(3,2,1)])
  then show ?thesis using c(4-7) by (auto simp: rule_matches_def)
qed

lemma intersects_iff:
  "addr_policy_intersects p q \<longleftrightarrow>
     tor_addr_compare_masked (pol_addr p) (pol_addr q) (min (maskbits p) (maskbits q)) CMP_EXACT = 0 \<and>
     prt_min q \<le> prt_max p \<and> prt_min p \<le> prt_max q"
  by (auto simp: addr_policy_intersects_def Let_def min_def not_le not_less)

lemma matches_intersects:
  assumes "rule_matches a port p" "rule_matches a port q" "addr_ok a" "addr_ok (pol_addr p)" "addr_ok (pol_addr q)"
  shows "addr_policy_intersects p q"
proof -
  have "tor_addr_compare_masked (pol_addr p) (pol_addr q) (min (maskbits p) (maskbits q)) CMP_EXACT = 0"
    using assms(1,2) by (intro addr_prefix.common_prefix [OF assms(3,4,5)]) (simp_all add: rule_matches_def)
  then show ?thesis using assms(1,2) by (auto simp: intersects_iff rule_matches_def intro: order_trans)
qed

lemma intersects_sym: "addr_ok (pol_addr p) \<Longrightarrow> addr_ok (pol_addr q) \<Longrightarrow> addr_policy_intersects p q \<longleftrightarrow> addr_policy_intersects q p"
  using addr_prefix.same_sym by (auto simp: intersects_iff min.commute)

text \<open>What intersects a rule intersects every rule that covers it.\<close>

lemma covers_intersects:
  assumes "addr_policy_covers q p" "addr_policy_intersects p r" "addr_ok (pol_addr p)" "addr_ok (pol_addr q)" "addr_ok (pol_addr r)"
  shows "addr_policy_intersects q r"
proof -
  have c: "maskbits q \<le> maskbits p" "tor_addr_compare_masked (pol_addr q) (pol_addr p) (maskbits q) CMP_EXACT = 0"
    "prt_min q \<le> prt_min p" "prt_max p \<le> prt_max q"
    using assms(1) by (auto simp: addr_policy_covers_def split: if_splits)
  have "tor_addr_compare_masked (pol_addr q) (pol_addr r) (min (maskbits q) (maskbits r)) CMP_EXACT = 0"
    using assms(2) by (intro addr_prefix.cover_meets [OF assms(3,4,5) c(2,1)]) (simp add: intersects_iff)
  then show ?thesis using assms(2) c(3,4) by (auto simp: intersects_iff)
qed

section \<open>Removing redundant rules\<close>

lemma u16_range: "(port :: u16) \<noteq> 0 \<Longrightarrow> lo \<le> 1 \<Longrightarrow> 65535 \<le> hi \<Longrightarrow> lo \<le> port \<and> port \<le> hi"
proof -
  assume a: "port \<noteq> 0" "lo \<le> 1" "65535 \<le> hi"
  have "unat port \<le> 65535" using unsigned_less [of port, where ?'a = nat] by simp
  moreover have "unat port \<noteq> 0" using a(1) by (simp add: unat_eq_0)
  ultimately show ?thesis using a(2,3) by (auto simp: word_le_nat_alt)
qed

lemma kill_keeps:
  assumes "addr_ok a" "port \<noteq> 0"
  shows "rules_ok l \<Longrightarrow> (k4 \<longrightarrow> tor_addr_family a \<noteq> AF_INET) \<Longrightarrow> (k6 \<longrightarrow> tor_addr_family a \<noteq> AF_INET6) \<Longrightarrow>
    compare_known_tor_addr_to_addr_policy a port (kill_after_wildcards k4 k6 l) = compare_known_tor_addr_to_addr_policy a port l"
proof (induction l arbitrary: k4 k6)
  case (Cons p l)
  have ok: "addr_ok (pol_addr p)" "rules_ok l" using Cons.prems(1) by simp_all
  let ?f = "tor_addr_family (pol_addr p)" and ?c = "maskbits p = 0 \<and> prt_min p \<le> 1 \<and> prt_max p \<ge> 65535"
  show ?case
  proof (cases "?f = AF_INET \<and> k4 \<or> ?f = AF_INET6 \<and> k6")
    case True
    then have "\<not> rule_matches a port p" using Cons.prems(2,3) matches_family [OF _ assms(1) ok(1)] by auto
    then show ?thesis using True Cons by (simp add: known_skip)
  next
    case False
    have e: "kill_after_wildcards k4 k6 (p # l) =
        p # kill_after_wildcards (k4 \<or> ?c \<and> ?f = AF_INET) (k6 \<or> ?c \<and> ?f = AF_INET6) l"
      using False by (simp add: Let_def)
    show ?thesis
    proof (cases "rule_matches a port p")
      case True
      then show ?thesis unfolding e known_Cons by (simp only: if_True)
    next
      case nm: False
      have "tor_addr_family a \<noteq> ?f" if "?c" "?f = AF_INET \<or> ?f = AF_INET6"
      proof
        assume f: "tor_addr_family a = ?f"
        have "rule_matches a port p"
          using wildcard_matches [OF assms(1) ok(1)] f that u16_range [OF assms(2)] by (auto simp: rule_matches_def)
        then show False using nm by blast
      qed
      then show ?thesis unfolding e known_skip [OF nm] using Cons.prems(2,3) by (intro Cons.IH ok(2)) auto
    qed
  qed
qed simp

lemma remove_covered_keeps:
  assumes "addr_ok a" "addr_ok (pol_addr p)" "\<not> rule_matches a port p"
  shows "rules_ok l \<Longrightarrow>
    compare_known_tor_addr_to_addr_policy a port (remove_covered p l) = compare_known_tor_addr_to_addr_policy a port l"
proof (induction l)
  case (Cons q l)
  then show ?case
    using assms covers_matches [of p q a port] by (cases "addr_policy_covers p q") (auto simp: known_Cons)
qed simp

lemma remove_covered_ok: "rules_ok l \<Longrightarrow> rules_ok (remove_covered p l)"
  by (auto simp: remove_covered_filter rules_ok_def)

lemma remove_later_covered_keeps:
  assumes "addr_ok a"
  shows "rules_ok l \<Longrightarrow>
    compare_known_tor_addr_to_addr_policy a port (remove_later_covered l) = compare_known_tor_addr_to_addr_policy a port l"
proof (induction l rule: remove_later_covered.induct)
  case (2 p l)
  then show ?case using remove_covered_ok [of l p] remove_covered_keeps [OF assms, of p port l]
    by (cases "rule_matches a port p") (auto simp: known_Cons)
qed simp

lemma covered_later_decides:
  assumes "addr_ok a" "addr_ok (pol_addr p)" "rule_matches a port p"
  shows "rules_ok l \<Longrightarrow> covered_later p l \<Longrightarrow>
    compare_known_tor_addr_to_addr_policy a port l =
      (if policy_type p = ADDR_POLICY_ACCEPT then ADDR_POLICY_ACCEPTED else ADDR_POLICY_REJECTED)"
proof (induction l)
  case (Cons q l)
  then have ok: "addr_ok (pol_addr q)" "rules_ok l" by simp_all
  show ?case
  proof (cases "policy_type p = policy_type q")
    case True
    then show ?thesis using Cons ok covers_matches [of q p a port] assms by (auto simp: known_Cons split: if_splits)
  next
    case False
    then have "\<not> rule_matches a port q" using matches_intersects [OF assms(3) _ assms(1,2) ok(1)] Cons.prems(2) by auto
    then show ?thesis using Cons ok False by (simp add: known_skip split: if_splits)
  qed
qed simp

lemma remove_covered_later_subseq: "subseq (remove_covered_later l) l"
  by (induction l) auto

lemma remove_covered_later_keeps:
  assumes "addr_ok a"
  shows "rules_ok l \<Longrightarrow>
    compare_known_tor_addr_to_addr_policy a port (remove_covered_later l) = compare_known_tor_addr_to_addr_policy a port l"
proof (induction l)
  case (Cons p l)
  then have ok: "addr_ok (pol_addr p)" "rules_ok l" by simp_all
  show ?case
    using Cons.IH [OF ok(2)] covered_later_decides [OF assms ok(1) _ ok(2), of port] by (auto simp: known_Cons)
qed simp

subsection \<open>Nothing redundant is left\<close>

lemma kill_subseq: "subseq (kill_after_wildcards k4 k6 l) l"
  by (induction k4 k6 l rule: kill_after_wildcards.induct) (auto simp: Let_def)

lemma remove_later_covered_subseq: "subseq (remove_later_covered l) l"
proof (induction l rule: remove_later_covered.induct)
  case (2 p l)
  then show ?case using subseq_order.trans [OF 2 [unfolded remove_covered_filter] subseq_filter_left]
    by (simp add: remove_covered_filter)
qed simp

lemma kill_ok: "rules_ok l \<Longrightarrow> rules_ok (kill_after_wildcards k4 k6 l)"
  by (rule rules_ok_subseq [OF kill_subseq])

lemma remove_later_covered_ok: "rules_ok l \<Longrightarrow> rules_ok (remove_later_covered l)"
  by (rule rules_ok_subseq [OF remove_later_covered_subseq])

lemma remove_redundancies_subseq: "subseq (exit_policy_remove_redundancies l) l"
  unfolding exit_policy_remove_redundancies_def
  using remove_covered_later_subseq remove_later_covered_subseq kill_subseq by (blast intro: subseq_order.trans)

text \<open>The flags of the first step only make it remove more.\<close>

definition kill_none :: "bool \<Rightarrow> bool \<Rightarrow> addr_policy_t list \<Rightarrow> bool" where
  "kill_none k4 k6 l \<longleftrightarrow> kill_after_wildcards k4 k6 l = l"

lemma kill_length: "length (kill_after_wildcards k4 k6 l) \<le> length l"
  by (rule list_emb_length [OF kill_subseq])

lemma kill_none_Cons:
  "kill_none k4 k6 (p # l) \<longleftrightarrow>
     \<not> (tor_addr_family (pol_addr p) = AF_INET \<and> k4 \<or> tor_addr_family (pol_addr p) = AF_INET6 \<and> k6) \<and>
     kill_none (k4 \<or> (maskbits p = 0 \<and> prt_min p \<le> 1 \<and> prt_max p \<ge> 65535) \<and> tor_addr_family (pol_addr p) = AF_INET)
               (k6 \<or> (maskbits p = 0 \<and> prt_min p \<le> 1 \<and> prt_max p \<ge> 65535) \<and> tor_addr_family (pol_addr p) = AF_INET6) l"
  using kill_length [of k4 k6 l] by (auto simp: kill_none_def Let_def)

lemma kill_none_mono: "kill_none k4 k6 l \<Longrightarrow> (j4 \<longrightarrow> k4) \<Longrightarrow> (j6 \<longrightarrow> k6) \<Longrightarrow> kill_none j4 j6 l"
proof (induction l arbitrary: k4 k6 j4 j6)
  case (Cons p l)
  show ?case using Cons.prems unfolding kill_none_Cons by (blast intro: Cons.IH)
qed (simp add: kill_none_def)

lemma kill_none_subseq: "subseq l' l \<Longrightarrow> kill_none k4 k6 l \<Longrightarrow> kill_none k4 k6 l'"
proof (induction arbitrary: k4 k6 rule: list_emb.induct)
  case (list_emb_Nil ys)
  then show ?case by (simp add: kill_none_def)
next
  case (list_emb_Cons xs ys y)
  have "kill_none k4 k6 ys" using list_emb_Cons.prems unfolding kill_none_Cons by (blast intro: kill_none_mono)
  then show ?case by (rule list_emb_Cons.IH)
next
  case (list_emb_Cons2 x y xs ys)
  then show ?case unfolding kill_none_Cons by blast
qed

lemma kill_idem: "kill_none k4 k6 (kill_after_wildcards k4 k6 l)"
proof (induction k4 k6 l rule: kill_after_wildcards.induct)
  case (2 k4 k6 p l)
  then show ?case by (auto simp: Let_def kill_none_Cons)
qed (simp add: kill_none_def)

lemma remove_later_covered_pairs: "sorted_wrt (\<lambda>p q. \<not> addr_policy_covers p q) (remove_later_covered l)"
proof (induction l rule: remove_later_covered.induct)
  case (2 p l)
  have "set (remove_later_covered (remove_covered p l)) \<subseteq> set (remove_covered p l)"
    using remove_later_covered_subseq by (auto dest: list_emb_set)
  then show ?case using 2 by (auto simp: remove_covered_filter)
qed simp

lemma sorted_wrt_subseq: "subseq l' l \<Longrightarrow> sorted_wrt P l \<Longrightarrow> sorted_wrt P l'"
  by (induction rule: list_emb.induct) (auto dest: list_emb_set)

lemma pairs_remove_nothing: "sorted_wrt (\<lambda>p q. \<not> addr_policy_covers p q) l \<Longrightarrow> remove_later_covered l = l"
proof (induction l rule: remove_later_covered.induct)
  case (2 p l)
  then have "remove_covered p l = l" by (simp add: remove_covered_filter)
  then show ?case using 2 by simp
qed simp

lemma covered_blocked:
  assumes "addr_policy_intersects p q" "policy_type p \<noteq> policy_type q" "addr_ok (pol_addr p)" "addr_ok (pol_addr q)"
  shows "rules_ok l \<Longrightarrow> covered_later q l \<Longrightarrow> \<not> covered_later p l"
proof (induction l)
  case (Cons r l)
  then have ok: "addr_ok (pol_addr r)" "rules_ok l" by simp_all
  have ty: "policy_type r = policy_type p \<or> policy_type r = policy_type q"
    using assms(2) by (cases "policy_type p"; cases "policy_type q"; cases "policy_type r") simp_all
  have qp: "addr_policy_intersects q p" using assms intersects_sym by blast
  from ty show ?case
  proof
    assume r: "policy_type r = policy_type q"
    have "covered_later q l" if "\<not> addr_policy_intersects p r"
    proof -
      have "\<not> addr_policy_covers r q"
        using covers_intersects [OF _ qp assms(4) ok(1) assms(3)] that intersects_sym [OF assms(3) ok(1)] by blast
      then show ?thesis using Cons.prems(2) r by (simp split: if_splits)
    qed
    then show ?thesis using Cons.IH [OF ok(2)] r assms(2) by auto
  next
    assume r: "policy_type r = policy_type p"
    have "covered_later q l" "\<not> addr_policy_intersects q r" using Cons.prems(2) r assms(2) by (auto split: if_splits)
    moreover have "\<not> addr_policy_covers r p"
      using covers_intersects [OF _ assms(1,3) ok(1) assms(4)] calculation(2) intersects_sym [OF assms(4) ok(1)] by blast
    ultimately show ?thesis using Cons.IH [OF ok(2)] r by auto
  qed
qed simp

lemma covered_in_result:
  assumes "addr_ok (pol_addr p)"
  shows "rules_ok l \<Longrightarrow> covered_later p (remove_covered_later l) \<Longrightarrow> covered_later p l"
proof (induction l)
  case (Cons q l)
  then have ok: "addr_ok (pol_addr q)" "rules_ok l" by simp_all
  show ?case
  proof (cases "covered_later q l")
    case True
    then have c: "covered_later p l" using Cons ok by simp
    then show ?thesis using covered_blocked [OF _ _ assms ok True] by auto
  next
    case False
    then show ?thesis using Cons ok by (auto split: if_splits)
  qed
qed simp

lemma remove_covered_later_idem: "rules_ok l \<Longrightarrow> remove_covered_later (remove_covered_later l) = remove_covered_later l"
proof (induction l)
  case (Cons p l)
  then show ?case using covered_in_result [of p l] by (auto split: if_splits)
qed simp

lemma remove_redundancies_idem:
  assumes "rules_ok l"
  shows "exit_policy_remove_redundancies (exit_policy_remove_redundancies l) = exit_policy_remove_redundancies l"
proof -
  let ?k = "kill_after_wildcards False False l"
  let ?r = "exit_policy_remove_redundancies l"
  have s: "subseq ?r (remove_later_covered ?k)" "subseq ?r ?k"
    unfolding exit_policy_remove_redundancies_def
    using remove_covered_later_subseq remove_later_covered_subseq by (blast intro: subseq_order.trans)+
  have "kill_after_wildcards False False ?r = ?r"
    using kill_none_subseq [OF s(2) kill_idem] by (simp add: kill_none_def)
  moreover have "remove_later_covered ?r = ?r"
    by (rule pairs_remove_nothing [OF sorted_wrt_subseq [OF s(1) remove_later_covered_pairs]])
  moreover have "remove_covered_later ?r = ?r"
    using remove_covered_later_idem [OF remove_later_covered_ok [OF kill_ok [OF assms]]]
    by (simp add: exit_policy_remove_redundancies_def)
  ultimately show ?thesis by (simp add: exit_policy_remove_redundancies_def [of ?r])
qed

lemma remove_redundancies_decides:
  assumes "addr_ok a" "port \<noteq> 0" "rules_ok l"
  shows "compare_known_tor_addr_to_addr_policy a port (exit_policy_remove_redundancies l) =
    compare_known_tor_addr_to_addr_policy a port l"
proof -
  let ?k = "kill_after_wildcards False False l"
  have ok: "rules_ok ?k" "rules_ok (remove_later_covered ?k)"
    by (rule kill_ok [OF assms(3)]) (rule remove_later_covered_ok [OF kill_ok [OF assms(3)]])
  show ?thesis
    unfolding exit_policy_remove_redundancies_def
    using remove_covered_later_keeps [OF assms(1) ok(2)] remove_later_covered_keeps [OF assms(1) ok(1)]
      kill_keeps [OF assms, of False False] by simp
qed

section \<open>Partial knowledge\<close>

lemma noport_sound:
  assumes "port \<noteq> 0"
  shows "(noport_loop a l ma mr = ADDR_POLICY_ACCEPTED \<longrightarrow> \<not> mr \<and> compare_known_tor_addr_to_addr_policy a port l = ADDR_POLICY_ACCEPTED) \<and>
    (noport_loop a l ma mr = ADDR_POLICY_REJECTED \<longrightarrow> \<not> ma \<and> compare_known_tor_addr_to_addr_policy a port l = ADDR_POLICY_REJECTED)"
proof (induction l arbitrary: ma mr)
  case (Cons p l)
  show ?case
  proof (cases "tor_addr_compare_masked a (pol_addr p) (maskbits p) CMP_EXACT = 0")
    case False
    then show ?thesis using Cons.IH [of ma mr] by (auto simp: known_Cons rule_matches_def)
  next
    case c: True
    show ?thesis
    proof (cases "prt_min p \<le> 1 \<and> prt_max p \<ge> 65535")
      case True
      then have "rule_matches a port p" using c u16_range [OF assms, of "prt_min p" "prt_max p"] by (simp add: rule_matches_def)
      then show ?thesis using True c by (auto simp: known_Cons)
    next
      case False
      show ?thesis
      proof (cases "policy_type p")
        case ADDR_POLICY_ACCEPT
        then have "noport_loop a (p # l) ma mr = noport_loop a l True mr"
          using c False by (simp only: noport_loop.simps if_True if_False simp_thms addr_policy_action_t.distinct)
        then show ?thesis using Cons.IH [of True mr] ADDR_POLICY_ACCEPT by (auto simp: known_Cons simp del: noport_loop.simps unknown_loop.simps)
      next
        case ADDR_POLICY_REJECT
        then have "noport_loop a (p # l) ma mr = noport_loop a l ma True"
          using c False by (simp only: noport_loop.simps if_True if_False simp_thms)
        then show ?thesis using Cons.IH [of ma True] ADDR_POLICY_REJECT by (auto simp: known_Cons simp del: noport_loop.simps unknown_loop.simps)
      qed
    qed
  qed
qed simp

lemma unknown_sound:
  assumes "addr_ok a" "tor_addr_family a = AF_INET \<or> tor_addr_family a = AF_INET6"
  shows "rules_ok l \<Longrightarrow> \<forall>p \<in> set l. maskbits p = 0 \<longrightarrow> tor_addr_family (pol_addr p) = tor_addr_family a \<Longrightarrow>
    (unknown_loop port l ma mr = ADDR_POLICY_ACCEPTED \<longrightarrow> \<not> mr \<and> compare_known_tor_addr_to_addr_policy a port l = ADDR_POLICY_ACCEPTED) \<and>
    (unknown_loop port l ma mr = ADDR_POLICY_REJECTED \<longrightarrow> \<not> ma \<and> compare_known_tor_addr_to_addr_policy a port l = ADDR_POLICY_REJECTED)"
proof (induction l arbitrary: ma mr)
  case (Cons p l)
  have ok: "addr_ok (pol_addr p)" "rules_ok l" "\<forall>p \<in> set l. maskbits p = 0 \<longrightarrow> tor_addr_family (pol_addr p) = tor_addr_family a"
    using Cons.prems by simp_all
  note IH = Cons.IH [OF ok(2,3)]
  show ?case
  proof (cases "prt_min p \<le> port \<and> port \<le> prt_max p")
    case False
    then show ?thesis using IH [of ma mr] by (auto simp: known_Cons rule_matches_def)
  next
    case c: True
    show ?thesis
    proof (cases "maskbits p = 0")
      case True
      then have "rule_matches a port p" using c wildcard_matches [OF assms(1) ok(1) _ assms(2)] Cons.prems(2) by (simp add: rule_matches_def)
      then show ?thesis using True c by (auto simp: known_Cons)
    next
      case False
      show ?thesis
      proof (cases "policy_type p")
        case ADDR_POLICY_ACCEPT
        then have "unknown_loop port (p # l) ma mr = unknown_loop port l True mr"
          using c False by (simp only: unknown_loop.simps if_True if_False simp_thms addr_policy_action_t.distinct)
        then show ?thesis using IH [of True mr] ADDR_POLICY_ACCEPT by (auto simp: known_Cons simp del: noport_loop.simps unknown_loop.simps)
      next
        case ADDR_POLICY_REJECT
        then have "unknown_loop port (p # l) ma mr = unknown_loop port l ma True"
          using c False by (simp only: unknown_loop.simps if_True if_False simp_thms)
        then show ?thesis using IH [of ma True] ADDR_POLICY_REJECT by (auto simp: known_Cons simp del: noport_loop.simps unknown_loop.simps)
      qed
    qed
  qed
qed simp

lemma reject_star_sound:
  assumes "addr_ok a" "tor_addr_family a = AF_INET \<or> tor_addr_family a = AF_INET6" "port \<noteq> 0"
  shows "rules_ok l \<Longrightarrow> \<forall>p \<in> set l. tor_addr_family (pol_addr p) \<noteq> AF_UNSPEC \<Longrightarrow> reject_star_loop l (tor_addr_family a) False \<Longrightarrow>
    compare_known_tor_addr_to_addr_policy a port l = ADDR_POLICY_REJECTED"
proof (induction l)
  case (Cons p l)
  have ok: "addr_ok (pol_addr p)" "rules_ok l" "\<forall>p \<in> set l. tor_addr_family (pol_addr p) \<noteq> AF_UNSPEC"
    "tor_addr_family (pol_addr p) \<noteq> AF_UNSPEC" using Cons.prems by simp_all
  show ?case
  proof (cases "rule_matches a port p")
    case True
    then have "tor_addr_family (pol_addr p) = tor_addr_family a" by (rule matches_family [OF _ assms(1) ok(1)])
    then have "policy_type p \<noteq> ADDR_POLICY_ACCEPT" using Cons.prems(3) by (auto simp: Let_def)
    then show ?thesis using True by (simp add: known_Cons)
  next
    case False
    have "\<not> (prt_min p \<le> 1 \<and> prt_max p = 65535 \<and> maskbits p = 0 \<and> tor_addr_family (pol_addr p) = tor_addr_family a)"
    proof
      assume w: "prt_min p \<le> 1 \<and> prt_max p = 65535 \<and> maskbits p = 0 \<and> tor_addr_family (pol_addr p) = tor_addr_family a"
      then have "rule_matches a port p"
        using wildcard_matches [OF assms(1) ok(1) _ assms(2)] u16_range [OF assms(3), of "prt_min p" "prt_max p"] by (simp add: rule_matches_def)
      then show False using False by blast
    qed
    then have "reject_star_loop l (tor_addr_family a) False"
      using Cons.prems(3) ok(4) by (auto simp: Let_def split: if_splits)
    then show ?thesis using Cons.IH [OF ok(2,3)] by (simp add: known_skip [OF False])
  qed
qed simp

subsection \<open>Wildcards for both families\<close>

text \<open>The decision when an \<open>AF_UNSPEC\<close> rule matches every address.\<close>

fun decide_with_unspec :: "tor_addr_t \<Rightarrow> u16 \<Rightarrow> addr_policy_t list \<Rightarrow> addr_policy_result_t" where
  "decide_with_unspec a port [] = ADDR_POLICY_ACCEPTED"
| "decide_with_unspec a port (p # l) =
     (if (tor_addr_family (pol_addr p) = AF_UNSPEC \<and> prt_min p \<le> port \<and> port \<le> prt_max p) \<or> rule_matches a port p
      then if policy_type p = ADDR_POLICY_ACCEPT then ADDR_POLICY_ACCEPTED else ADDR_POLICY_REJECTED
      else decide_with_unspec a port l)"

lemma expand_unspec_decides:
  assumes "addr_ok a" "tor_addr_family a = AF_INET \<or> tor_addr_family a = AF_INET6"
  shows "rules_ok l \<Longrightarrow> \<forall>p \<in> set l. \<not> is_private p \<Longrightarrow>
    compare_known_tor_addr_to_addr_policy a port (policy_expand_unspec l) = decide_with_unspec a port l"
proof (induction l)
  case (Cons p l)
  have ok: "addr_ok (pol_addr p)" "rules_ok l" "\<not> is_private p" using Cons.prems by simp_all
  have IH: "compare_known_tor_addr_to_addr_policy a port (policy_expand_unspec l) = decide_with_unspec a port l"
    using Cons by simp
  show ?case
  proof (cases "tor_addr_family (pol_addr p) = AF_UNSPEC")
    case False
    then have "policy_expand_unspec (p # l) = p # policy_expand_unspec l" by (auto simp: Let_def)
    then show ?thesis using IH False by (simp add: known_Cons)
  next
    case True
    define q where "q = (if maskbits p \<noteq> 0 then p\<lparr>maskbits := 0\<rparr> else p)"
    have q: "maskbits q = 0" "prt_min q = prt_min p" "prt_max q = prt_max p" "policy_type q = policy_type p" by (auto simp: q_def)
    have e: "policy_expand_unspec (p # l) = q\<lparr>pol_addr := Addr_ipv4 0\<rparr> # q\<lparr>pol_addr := Addr_ipv6 (replicate 16 0)\<rparr> # policy_expand_unspec l"
      using True ok(3) by (simp add: Let_def q_def)
    let ?in = "prt_min p \<le> port \<and> port \<le> prt_max p"
    have m4: "rule_matches a port (q\<lparr>pol_addr := Addr_ipv4 0\<rparr>) \<longleftrightarrow> tor_addr_family a = AF_INET \<and> ?in"
      using wildcard_matches [OF assms(1), of "q\<lparr>pol_addr := Addr_ipv4 0\<rparr>"] matches_family [OF _ assms(1), of port "q\<lparr>pol_addr := Addr_ipv4 0\<rparr>"] q
      by (auto simp: rule_matches_def)
    have m6: "rule_matches a port (q\<lparr>pol_addr := Addr_ipv6 (replicate 16 0)\<rparr>) \<longleftrightarrow> tor_addr_family a = AF_INET6 \<and> ?in"
      using wildcard_matches [OF assms(1), of "q\<lparr>pol_addr := Addr_ipv6 (replicate 16 0)\<rparr>"]
        matches_family [OF _ assms(1), of port "q\<lparr>pol_addr := Addr_ipv6 (replicate 16 0)\<rparr>"] q
      by (auto simp: rule_matches_def)
    have "\<not> rule_matches a port p" using matches_family [OF _ assms(1) ok(1)] True assms(2) by auto
    then show ?thesis using IH True assms(2) q(4) unfolding e known_Cons m4 m6 by auto
  qed
qed simp

lemma expand_unspec_none: "\<forall>p \<in> set l. \<not> is_private p \<Longrightarrow> \<forall>p \<in> set (policy_expand_unspec l). tor_addr_family (pol_addr p) \<noteq> AF_UNSPEC"
  by (induction l) (auto simp: Let_def)

section \<open>General exits\<close>

lemma ipv4_matches:
  "tor_addr_compare_masked (Addr_ipv4 x) (Addr_ipv4 y) m CMP_EXACT = 0 \<longleftrightarrow> unat x div 2 ^ (32 - m) = unat y div 2 ^ (32 - m)"
  by (simp add: zero_iff)

lemma top_byte: "unat (drop_bit 24 (x :: u32)) = unat x div 2 ^ 24"
  by (rule unat_drop_bit)

text \<open>The first and the last address of a network.\<close>

lemma network_bound: "unat (drop_bit k (x :: u32)) * 2 ^ k < 2 ^ LENGTH(32)"
proof -
  have "unat x div 2 ^ k * 2 ^ k \<le> unat x" by simp
  also have "\<dots> < 2 ^ LENGTH(32)" by (rule unsigned_less)
  finally show ?thesis by (simp only: unat_drop_bit)
qed

lemma u32_max_ones: "UINT32_MAX = (- 1 :: u32)"
  by simp

lemma network_first:
  assumes "m \<le> 32"
  shows "unat ((if m \<noteq> 0 then push_bit (32 - m) UINT32_MAX else 0) AND (x :: u32)) = unat x div 2 ^ (32 - m) * 2 ^ (32 - m)"
proof -
  have "(if m \<noteq> 0 then push_bit (32 - m) UINT32_MAX else 0) AND x = push_bit (32 - m) (drop_bit (32 - m) x)"
  proof (rule bit_word_eqI)
    fix n assume n: "n < LENGTH(32)"
    show "bit ((if m \<noteq> 0 then push_bit (32 - m) UINT32_MAX else 0) AND x) n = bit (push_bit (32 - m) (drop_bit (32 - m) x)) n"
      using n assms unfolding u32_max_ones by (auto simp: bit_and_iff bit_push_bit_iff bit_drop_bit_eq bit_minus_1_iff bit_not_iff bit_mask_iff)
  qed
  moreover have "unat (drop_bit (32 - m) x) * 2 ^ (32 - m) < 2 ^ LENGTH(32)" by (simp only: network_bound)
  ultimately show ?thesis by (simp only: unat_push_bit_exact unat_drop_bit)
qed

lemma unat_low_mask: "k \<le> 32 \<Longrightarrow> unat (mask k :: u32) = 2 ^ k - 1"
  by (simp only: unat_eq_nat_uint uint_mask_eq) (simp add: mask_eq_exp_minus_1 nat_diff_distrib nat_power_eq min_def)

lemma network_last_bits:
  assumes "m \<le> 32"
  shows "NOT (((if m \<noteq> 0 then push_bit (32 - m) UINT32_MAX else 0) AND (x :: u32)) XOR (if m \<noteq> 0 then push_bit (32 - m) UINT32_MAX else 0)) =
    push_bit (32 - m) (drop_bit (32 - m) x) OR mask (32 - m)"
proof (rule bit_word_eqI)
  fix n assume n: "n < LENGTH(32)"
  show "bit (NOT (((if m \<noteq> 0 then push_bit (32 - m) UINT32_MAX else 0) AND x) XOR (if m \<noteq> 0 then push_bit (32 - m) UINT32_MAX else 0))) n =
      bit (push_bit (32 - m) (drop_bit (32 - m) x) OR mask (32 - m)) n"
    using n assms unfolding u32_max_ones
    by (cases "m = 0"; cases "32 - m \<le> n")
      (simp_all add: bit_and_iff bit_push_bit_iff bit_drop_bit_eq bit_not_iff bit_xor_iff bit_or_iff bit_mask_iff bit_minus_1_iff)
qed

lemma network_last_bound:
  assumes "m \<le> 32"
  shows "unat (drop_bit (32 - m) (x :: u32)) * 2 ^ (32 - m) + (2 ^ (32 - m) - 1) < 2 ^ LENGTH(32)"
proof -
  let ?k = "32 - m"
  have "unat x < 2 ^ m * 2 ^ ?k" using unsigned_less [of x, where ?'a = nat] assms by (simp add: power_add [symmetric])
  then have "unat (drop_bit ?k x) < 2 ^ m" unfolding unat_drop_bit by (rule less_mult_imp_div_less)
  then have "(unat (drop_bit ?k x) + 1) * 2 ^ ?k \<le> 2 ^ m * 2 ^ ?k" by (intro mult_right_mono) simp_all
  also have "\<dots> = 2 ^ LENGTH(32)" using assms by (simp add: power_add [symmetric])
  finally have "unat (drop_bit ?k x) * 2 ^ ?k + 2 ^ ?k \<le> 2 ^ LENGTH(32)" by (simp only: add_mult_distrib mult_1)
  moreover have "0 < (2 :: nat) ^ ?k" by simp
  ultimately show ?thesis by linarith
qed

lemma network_last:
  assumes "m \<le> 32"
  shows "unat (NOT (((if m \<noteq> 0 then push_bit (32 - m) UINT32_MAX else 0) AND (x :: u32)) XOR (if m \<noteq> 0 then push_bit (32 - m) UINT32_MAX else 0))) =
    unat x div 2 ^ (32 - m) * 2 ^ (32 - m) + (2 ^ (32 - m) - 1)"
proof -
  have l: "unat (mask (32 - m) :: u32) = 2 ^ (32 - m) - 1" by (rule unat_low_mask) simp
  have "unat (push_bit (32 - m) (drop_bit (32 - m) x) OR mask (32 - m)) =
      unat (drop_bit (32 - m) x) * 2 ^ (32 - m) + unat (mask (32 - m) :: u32)"
    using network_last_bound [OF assms, of x] unfolding l [symmetric] by (rule unat_shift_or) (simp only: l, simp)
  then show ?thesis unfolding network_last_bits [OF assms] l unat_drop_bit .
qed

text \<open>A rule touches exactly the /8 networks of its addresses.\<close>

lemma subnets_of_rule:
  assumes "pol_addr p = Addr_ipv4 x" "maskbits p \<le> 32" "unat a div 2 ^ (32 - maskbits p) = unat x div 2 ^ (32 - maskbits p)"
  shows "subnet_first p \<le> unat a div 2 ^ 24 \<and> unat a div 2 ^ 24 \<le> subnet_last p"
proof -
  let ?k = "32 - maskbits p"
  let ?q = "unat x div 2 ^ ?k"
  have f: "subnet_first p = ?q * 2 ^ ?k div 2 ^ 24" and l: "subnet_last p = (?q * 2 ^ ?k + (2 ^ ?k - 1)) div 2 ^ 24"
    using network_first [OF assms(2), of x] network_last [OF assms(2), of x]
    by (simp_all only: subnet_first_def subnet_last_def Let_def assms(1) tor_addr_to_ipv4h.simps unat_drop_bit)
  have "?q * 2 ^ ?k \<le> unat a" unfolding assms(3) [symmetric] by simp
  moreover have "unat a \<le> ?q * 2 ^ ?k + (2 ^ ?k - 1)"
  proof -
    have "unat a = ?q * 2 ^ ?k + unat a mod 2 ^ ?k" using div_mult_mod_eq [of "unat a" "2 ^ ?k"] assms(3) by simp
    moreover have "unat a mod 2 ^ ?k < 2 ^ ?k" by simp
    ultimately show ?thesis by linarith
  qed
  ultimately show ?thesis unfolding f l by (simp add: div_le_mono)
qed

lemma rule_of_subnets:
  assumes "pol_addr p = Addr_ipv4 x" "maskbits p \<le> 8" "subnet_first p \<le> unat a div 2 ^ 24" "unat a div 2 ^ 24 \<le> subnet_last p"
  shows "unat a div 2 ^ (32 - maskbits p) = unat x div 2 ^ (32 - maskbits p)"
proof -
  define j where "j = 8 - maskbits p"
  have k: "32 - maskbits p = 24 + j" using assms(2) by (simp add: j_def)
  let ?q = "unat x div 2 ^ (24 + j)"
  have m: "maskbits p \<le> 32" using assms(2) by simp
  have f: "subnet_first p = ?q * 2 ^ (24 + j) div 2 ^ 24" and l: "subnet_last p = (?q * 2 ^ (24 + j) + (2 ^ (24 + j) - 1)) div 2 ^ 24"
    using network_first [OF m, of x] network_last [OF m, of x]
    by (simp_all only: subnet_first_def subnet_last_def Let_def assms(1) tor_addr_to_ipv4h.simps unat_drop_bit k)
  have "?q * 2 ^ (24 + j) div 2 ^ 24 = ?q * 2 ^ j" by (simp add: power_add)
  then have lo: "?q * 2 ^ j \<le> unat a div 2 ^ 24" using assms(3) f by simp
  have "(?q * 2 ^ (24 + j) + (2 ^ (24 + j) - 1)) div 2 ^ 24 < ?q * 2 ^ j + 2 ^ j"
  proof (rule less_mult_imp_div_less)
    have "(?q * 2 ^ j + 2 ^ j) * 2 ^ 24 = ?q * 2 ^ (24 + j) + 2 ^ (24 + j)" by (simp add: power_add algebra_simps)
    moreover have "0 < (2 :: nat) ^ (24 + j)" by simp
    ultimately show "?q * 2 ^ (24 + j) + (2 ^ (24 + j) - 1) < (?q * 2 ^ j + 2 ^ j) * 2 ^ 24" by linarith
  qed
  then have hi: "unat a div 2 ^ 24 < (?q + 1) * 2 ^ j" using assms(4) l by simp
  have "unat a div 2 ^ 24 div 2 ^ j = ?q"
    using lo hi by (intro div_nat_eqI) (simp_all add: mult.commute)
  then show ?thesis unfolding k by (simp only: div_exp_eq)
qed

subsection \<open>The loops\<close>

abbreviation skipped_subnet :: "bool \<Rightarrow> nat \<Rightarrow> bool" where
  "skipped_subnet allow i \<equiv> tor_addr_is_internal (Addr_ipv4 (push_bit 24 (of_nat i))) False \<and> \<not> allow"

lemma subnet_loop_accept:
  "policy_type p = ADDR_POLICY_ACCEPT \<Longrightarrow>
    (case subnet_loop p allow nets st of
       None \<Rightarrow> maskbits p \<le> 8 \<and> (\<exists>i \<in> set nets. \<not> st ! i \<and> \<not> skipped_subnet allow i)
     | Some st' \<Rightarrow> st' = st)"
proof (induction nets)
  case (Cons i nets)
  then show ?case by (cases "subnet_loop p allow nets st") auto
qed simp

lemma subnet_loop_reject:
  "policy_type p = ADDR_POLICY_REJECT \<Longrightarrow> \<forall>i \<in> set nets. i < length st \<Longrightarrow>
    \<exists>st'. subnet_loop p allow nets st = Some st' \<and> length st' = length st \<and>
      (\<forall>j < length st. st' ! j \<longleftrightarrow> st ! j \<or> (j \<in> set nets \<and> \<not> skipped_subnet allow j))"
proof (induction nets arbitrary: st)
  case (Cons i nets)
  show ?case
  proof (cases "st ! i \<or> skipped_subnet allow i")
    case True
    then have e: "subnet_loop p allow (i # nets) st = subnet_loop p allow nets st" by auto
    show ?thesis unfolding e using Cons.IH [of st] Cons.prems True by auto
  next
    case False
    then have e: "subnet_loop p allow (i # nets) st = subnet_loop p allow nets (st[i := True])" using Cons.prems(1) by auto
    have "\<forall>j \<in> set nets. j < length (st[i := True])" using Cons.prems(2) by simp
    from Cons.IH [OF Cons.prems(1) this] obtain st' where s: "subnet_loop p allow nets (st[i := True]) = Some st'"
      "length st' = length st"
      "\<forall>j < length st. st' ! j \<longleftrightarrow> st[i := True] ! j \<or> (j \<in> set nets \<and> \<not> skipped_subnet allow j)" by auto
    have "st' ! j \<longleftrightarrow> st ! j \<or> (j \<in> set (i # nets) \<and> \<not> skipped_subnet allow j)" if "j < length st" for j
      using s(3) that False Cons.prems(2) by (cases "j = i") auto
    then show ?thesis unfolding e using s(1,2) by blast
  qed
qed simp

lemma subnet_last_less: "subnet_last p < 256"
proof -
  have "unat (drop_bit 24 (w :: u32)) < 256" for w
    using unat_u32_less [of w] by (simp add: unat_drop_bit)
  then show ?thesis unfolding subnet_last_def Let_def by blast
qed

lemma ipv4_of_family: "tor_addr_family a = AF_INET \<Longrightarrow> \<exists>x. a = Addr_ipv4 x"
  by (cases a) auto

lemma general_exit_sound:
  "length st = 256 \<Longrightarrow> rules_ok l \<Longrightarrow> general_exit_loop l port allow st = Done True \<Longrightarrow>
    \<exists>i < 256. \<not> st ! i \<and> \<not> skipped_subnet allow i \<and>
      (\<forall>a. unat a div 2 ^ 24 = i \<longrightarrow> compare_known_tor_addr_to_addr_policy (Addr_ipv4 a) port l = ADDR_POLICY_ACCEPTED)"
proof (induction l arbitrary: st)
  case (Cons p l)
  have ok: "addr_ok (pol_addr p)" "rules_ok l" using Cons.prems(2) by simp_all
  let ?skip = "tor_addr_family (pol_addr p) \<noteq> AF_INET \<or> prt_min p > port \<or> prt_max p < port"
  show ?case
  proof (cases ?skip)
    case True
    then have nm: "\<not> rule_matches (Addr_ipv4 a) port p" for a
      using matches_family [OF _ _ ok(1), of "Addr_ipv4 a" port] by (auto simp: rule_matches_def)
    have "general_exit_loop l port allow st = Done True" using Cons.prems(3) True by (auto split: if_splits)
    then show ?thesis using Cons.IH [OF Cons.prems(1) ok(2)] by (simp add: known_skip [OF nm])
  next
    case False
    then obtain x where x: "pol_addr p = Addr_ipv4 x" using ipv4_of_family by blast
    have m: "maskbits p \<le> 32" using Cons.prems(3) False by (auto split: if_splits)
    let ?is = "[subnet_first p ..< subnet_last p + 1]"
    have s: "(case subnet_loop p allow ?is st of None \<Rightarrow> Done True | Some st \<Rightarrow> general_exit_loop l port allow st) = Done True"
      using Cons.prems(3) False m by (simp only: general_exit_loop.simps) (simp only: if_False de_Morgan_disj simp_thms not_not)
    have hit: "rule_matches (Addr_ipv4 a) port p \<longleftrightarrow> unat a div 2 ^ (32 - maskbits p) = unat x div 2 ^ (32 - maskbits p)" for a
      using False by (auto simp: rule_matches_def x ipv4_matches)
    have isl: "\<forall>i \<in> set ?is. i < length st" using subnet_last_less [of p] Cons.prems(1) by auto
    show ?thesis
    proof (cases "policy_type p")
      case ADDR_POLICY_ACCEPT
      show ?thesis
      proof (cases "subnet_loop p allow ?is st")
        case None
        then obtain i where i: "i \<in> set ?is" "\<not> st ! i" "\<not> skipped_subnet allow i" "maskbits p \<le> 8"
          using subnet_loop_accept [OF ADDR_POLICY_ACCEPT, where allow = allow and st = st and nets = ?is] by auto
        have "compare_known_tor_addr_to_addr_policy (Addr_ipv4 a) port (p # l) = ADDR_POLICY_ACCEPTED" if "unat a div 2 ^ 24 = i" for a
          using rule_of_subnets [OF x i(4), of a] that i(1) ADDR_POLICY_ACCEPT by (auto simp: known_Cons hit)
        then show ?thesis using i isl Cons.prems(1) by metis
      next
        case (Some st')
        then have "st' = st" using subnet_loop_accept [OF ADDR_POLICY_ACCEPT, where allow = allow and st = st and nets = ?is] by simp
        then show ?thesis using s Some Cons.IH [OF Cons.prems(1) ok(2)] ADDR_POLICY_ACCEPT by (auto simp: known_Cons)
      qed
    next
      case ADDR_POLICY_REJECT
      obtain st' where st': "subnet_loop p allow ?is st = Some st'" "length st' = length st"
        "\<forall>j < length st. st' ! j \<longleftrightarrow> st ! j \<or> (j \<in> set ?is \<and> \<not> skipped_subnet allow j)"
        using subnet_loop_reject [OF ADDR_POLICY_REJECT isl] by blast
      have "general_exit_loop l port allow st' = Done True" using s st'(1) by simp
      then obtain i where i: "i < 256" "\<not> st' ! i" "\<not> skipped_subnet allow i"
        "\<forall>a. unat a div 2 ^ 24 = i \<longrightarrow> compare_known_tor_addr_to_addr_policy (Addr_ipv4 a) port l = ADDR_POLICY_ACCEPTED"
        using Cons.IH [of st'] st'(2) Cons.prems(1) ok(2) by auto
      have nin: "\<not> st ! i" "i \<notin> set ?is" using st'(3) [rule_format, of i] i(1-3) Cons.prems(1) by auto
      have "\<not> rule_matches (Addr_ipv4 a) port p" if "unat a div 2 ^ 24 = i" for a
        using subnets_of_rule [OF x m, of a] nin(2) that by (auto simp: hit)
      then have "\<forall>a. unat a div 2 ^ 24 = i \<longrightarrow> compare_known_tor_addr_to_addr_policy (Addr_ipv4 a) port (p # l) = ADDR_POLICY_ACCEPTED"
        using i(4) by (simp add: known_skip)
      then show ?thesis using i(1,3) nin(1) by blast
    qed
  qed
qed simp

lemma general_exit_no_assert:
  "length st = 256 \<Longrightarrow> \<forall>p \<in> set l. tor_addr_family (pol_addr p) = AF_INET \<longrightarrow> maskbits p \<le> 32 \<Longrightarrow>
    general_exit_loop l port allow st \<noteq> Assertion_failed"
proof (induction l arbitrary: st)
  case (Cons p l)
  have IH: "general_exit_loop l port allow st' \<noteq> Assertion_failed" if "length st' = 256" for st'
    using Cons that by simp
  let ?is = "[subnet_first p ..< subnet_last p + 1]"
  have isl: "\<forall>i \<in> set ?is. i < length st" using subnet_last_less [of p] Cons.prems(1) by auto
  have "subnet_loop p allow ?is st = Some st' \<Longrightarrow> length st' = 256" for st'
    using subnet_loop_accept [where p = p and allow = allow and st = st and nets = ?is] subnet_loop_reject [OF _ isl, where p = p and allow = allow] Cons.prems(1)
    by (cases "policy_type p") auto
  then show ?case using IH Cons.prems by (auto split: option.splits)
qed simp

end
