(* ===== verification/Policy_Text.thy ===== *)
theory Policy_Text
  imports Policy_Summary Address_Props Ed_Script
begin

text \<open>
  The lemmas on text: an address pattern made of the text of an address, a mask and ports is parsed back, hence the
  private networks are what their texts say, a rule is read back from its text, and a short policy from its own.
\<close>

section \<open>Patterns made of the text of an address, a mask and ports\<close>

definition mask_part :: "string option \<Rightarrow> string" where
  "mask_part m = (case m of None \<Rightarrow> [] | Some t \<Rightarrow> CHR ''/'' # t)"

definition port_part :: "string option \<Rightarrow> string" where
  "port_part p = (case p of None \<Rightarrow> [] | Some t \<Rightarrow> CHR '':'' # t)"

abbreviation plain_text :: "string option \<Rightarrow> bool" where
  "plain_text t \<equiv> (case t of None \<Rightarrow> True | Some s \<Rightarrow> CHR ''/'' \<notin> set s \<and> CHR '':'' \<notin> set s \<and> NUL \<notin> set s)"

lemma memchr_skip: "c \<notin> set xs \<Longrightarrow> memchr (xs @ ys) c = map_option (\<lambda>k. length xs + k) (memchr ys c)"
proof (induction xs)
  case Nil
  then show ?case by (cases "memchr ys c") simp_all
next
  case (Cons x xs)
  then show ?case by (cases "memchr ys c") auto
qed

lemma memchr_no: "c \<notin> set xs \<Longrightarrow> memchr xs c = None"
  by (simp add: memchr_None)

lemma mask_part_chars: "plain_text m \<Longrightarrow> CHR '':'' \<notin> set (mask_part m)"
  and port_part_chars: "plain_text p \<Longrightarrow> CHR ''/'' \<notin> set (port_part p)"
  by (auto simp: mask_part_def port_part_def split: option.splits)

lemma find_parts:
  assumes "plain_text m" "plain_text p"
  shows "memchr (mask_part m @ port_part p) (CHR ''/'') = (case m of None \<Rightarrow> None | Some _ \<Rightarrow> Some 0)"
    "memchr (mask_part m @ port_part p) (CHR '':'') =
       (case p of None \<Rightarrow> None | Some _ \<Rightarrow> Some (case m of None \<Rightarrow> 0 | Some x \<Rightarrow> Suc (length x)))"
  using assms by (auto simp: mask_part_def port_part_def memchr_skip memchr_no split: option.splits)

lemma strchr_from_skip:
  assumes "c \<notin> set (drop i pre)" "i \<le> length pre"
  shows "strchr_from (pre @ ys) i c = map_option (\<lambda>k. length pre + k) (memchr ys c)"
proof -
  have "drop i (pre @ ys) = drop i pre @ ys" using assms(2) by simp
  then show ?thesis using assms by (simp add: strchr_from_def memchr_skip option.map_comp comp_def)
qed

text \<open>The parts after a NUL was written at each separator.\<close>

definition nul_part :: "string option \<Rightarrow> string" where
  "nul_part t = (case t of None \<Rightarrow> [] | Some x \<Rightarrow> NUL # x)"

lemma text_at_NUL: "NUL \<notin> set xs \<Longrightarrow> i = length pre \<Longrightarrow> text_at (pre @ xs @ nul_part q) i = xs"
  by (cases q) (auto simp: text_at_def nul_part_def takeWhile_append)

lemma cut_parts:
  assumes "CHR ''/'' \<notin> set (drop i pre)" "CHR '':'' \<notin> set (drop i pre)" "i \<le> length pre" "plain_text m" "plain_text p"
    and s: "s = pre @ mask_part m @ port_part p"
    and slash: "slash = strchr_from s i (CHR ''/'')"
    and colon: "colon = strchr_from s (case slash of Some k \<Rightarrow> k | None \<Rightarrow> i) (CHR '':'')"
  shows "terminate_at slash (terminate_at colon s) = pre @ nul_part m @ nul_part p"
    "length pre' = length pre \<Longrightarrow> map_option (text_at (pre' @ nul_part m @ nul_part p)) (map_option Suc slash) = m"
    "length pre' = length pre \<Longrightarrow> map_option (text_at (pre' @ nul_part m @ nul_part p)) (map_option Suc colon) = p"
    "\<And>k. slash = Some k \<Longrightarrow> k = length pre"
proof -
  have sl: "slash = (case m of None \<Rightarrow> None | Some _ \<Rightarrow> Some (length pre))"
    unfolding slash s strchr_from_skip [OF assms(1,3)] find_parts(1) [OF assms(4,5)] by (simp split: option.split)
  have "CHR '':'' \<notin> set (drop (case slash of Some k \<Rightarrow> k | None \<Rightarrow> i) pre)" "(case slash of Some k \<Rightarrow> k | None \<Rightarrow> i) \<le> length pre"
    using assms(2,3) by (simp_all add: sl split: option.split)
  from strchr_from_skip [OF this]
  have "colon = map_option (\<lambda>k. length pre + k) (memchr (mask_part m @ port_part p) (CHR '':''))"
    unfolding colon s .
  then have co: "colon = (case p of None \<Rightarrow> None | Some _ \<Rightarrow> Some (length pre + (case m of None \<Rightarrow> 0 | Some x \<Rightarrow> Suc (length x))))"
    unfolding find_parts(2) [OF assms(4,5)] by (simp split: option.split)
  show "\<And>k. slash = Some k \<Longrightarrow> k = length pre" by (simp add: sl split: option.splits)
  show "terminate_at slash (terminate_at colon s) = pre @ nul_part m @ nul_part p"
  proof (cases m)
    case None
    then show ?thesis by (cases p) (simp_all add: sl co s terminate_at_def nul_part_def mask_part_def port_part_def)
  next
    case (Some x)
    have "(pre @ CHR ''/'' # x @ CHR '':'' # q) [Suc (length pre + length x) := NUL] = pre @ CHR ''/'' # x @ NUL # q" for q
      using list_update_length [of "pre @ CHR ''/'' # x" "CHR '':''" q NUL] by simp
    then show ?thesis using Some
      by (cases p) (simp_all add: sl co s terminate_at_def nul_part_def mask_part_def port_part_def)
  qed
  assume l: "length pre' = length pre"
  show "map_option (text_at (pre' @ nul_part m @ nul_part p)) (map_option Suc slash) = m"
  proof (cases m)
    case (Some x)
    then have "text_at ((pre' @ [NUL]) @ x @ nul_part p) (Suc (length pre)) = x"
      using assms(4) l by (intro text_at_NUL) simp_all
    then show ?thesis using Some by (simp add: sl nul_part_def)
  qed (simp add: sl)
  show "map_option (text_at (pre' @ nul_part m @ nul_part p)) (map_option Suc colon) = p"
  proof (cases p)
    case (Some q)
    then have "text_at ((pre' @ nul_part m @ [NUL]) @ q @ nul_part None)
        (Suc (length pre + (case m of None \<Rightarrow> 0 | Some x \<Rightarrow> Suc (length x)))) = q"
      using assms(5) l by (intro text_at_NUL) (simp_all add: nul_part_def split: option.split)
    then show ?thesis using Some by (simp add: co nul_part_def)
  qed (simp add: co)
qed

text \<open>Cutting does not fail an assertion, so that only the parts matter.\<close>

lemma split_plain:
  assumes "CHR ''/'' \<notin> set t" "CHR '':'' \<notin> set t" "NUL \<notin> set t" "t \<noteq> []" "hd t \<noteq> CHR ''[''"
    "plain_text m" "plain_text p"
  shows "split_pattern (t @ mask_part m @ port_part p) = Done (t, m, p)"
proof -
  let ?s = "t @ mask_part m @ port_part p"
  have b: "take 1 ?s \<noteq> ''[''" using assms(4,5) by (cases t) auto
  have "CHR ''/'' \<notin> set (drop 0 t)" "CHR '':'' \<notin> set (drop 0 t)" using assms(1,2) by simp_all
  note C = cut_parts [OF this le0 assms(6,7) refl refl refl]
  have "text_at (t @ nul_part m @ nul_part p) 0 = t"
    using assms(3) by (cases m; cases p) (auto simp: text_at_def nul_part_def takeWhile_append)
  then have "split_pattern ?s = Done (t, m, p) \<or> split_pattern ?s = Assertion_failed"
    using b C(1) C(2,3) [of t]
    by (simp only: split_pattern_def Let_def simp_thms if_False option.case terminate_at_def [of None]) auto
  then show ?thesis using split_no_assert by blast
qed

lemma split_bracket:
  assumes "CHR '']'' \<notin> set t" "NUL \<notin> set t" "plain_text m" "plain_text p"
  shows "split_pattern (''['' @ t @ '']'' @ mask_part m @ port_part p) = Done (t, m, p)"
proof -
  let ?pre = "''['' @ t @ '']''"
  let ?s = "''['' @ t @ '']'' @ mask_part m @ port_part p"
  have r: "strchr_from ?s 1 (CHR '']'') = Some (Suc (length t))"
    using memchr_append [OF assms(1), of "mask_part m @ port_part p"] by (simp add: strchr_from_def)
  have "CHR ''/'' \<notin> set (drop (Suc (length t)) ?pre)" "CHR '':'' \<notin> set (drop (Suc (length t)) ?pre)"
    "Suc (length t) \<le> length ?pre" "?s = ?pre @ mask_part m @ port_part p" by simp_all
  note C = cut_parts [OF this(1-3) assms(3,4) this(4) refl refl]
  let ?cut = "''['' @ t @ [NUL]"
  have e: "terminate_at (Some (Suc (length t))) (?pre @ nul_part m @ nul_part p) = ?cut @ nul_part m @ nul_part p"
    by (simp add: terminate_at_def list_update_append)
  have "text_at (?cut @ nul_part m @ nul_part p) 1 = t"
    using text_at_NUL [OF assms(2), of 1 "''[''" "Some (nul_part m @ nul_part p)"] by (simp add: nul_part_def)
  moreover have "take 1 ?s = ''[''" by simp
  ultimately have "split_pattern ?s = Done (t, m, p) \<or> split_pattern ?s = Assertion_failed"
    using r C(1) e C(2,3) [of ?cut]
    by (simp only: split_pattern_def Let_def simp_thms if_True if_False option.case option.distinct) auto
  then show ?thesis using split_no_assert by blast
qed

lemma in6_text_chars: "\<forall>c \<in> set (in6_text b). is_hex c \<or> c = CHR '':'' \<or> c = CHR ''.''"
proof -
  obtain pos n where g: "longest_gap (in6_words b) 0 (- 1) 0 = (pos, n)" by fastforce
  have d: "\<forall>c \<in> set (dec_digits k). is_hex c" for k
    using dec_digits_all [of k] by (auto simp: is_digit_of_def split: option.splits)
  have w: "\<forall>c \<in> set (print_words ws i gap). is_hex c \<or> c = CHR '':'' \<or> c = CHR ''.''" for ws i gap
    using print_words_chars [of ws i gap] by (auto simp: word_char_def)
  show ?thesis using d w hex_digits_hex by (auto simp: in6_text_def Let_def g dotted_quad_def)
qed

lemma hex_no_bracket: "\<not> is_hex (CHR '']'')" "\<not> is_hex (CHR ''/'')" "\<not> is_hex (CHR ''*'')" "\<not> is_hex NUL"
  by (simp_all add: is_digit_of_def digit_val_def)

lemma quad_text_chars: "\<forall>c \<in> set (quad_text w). is_dig c \<or> c = CHR ''.''"
  using dec_digits_all by (auto simp: quad_text_def dotted_quad_def)

lemma dig_no_sep: "\<not> is_dig (CHR ''/'')" "\<not> is_dig (CHR '':'')" "\<not> is_dig (CHR ''['')" "\<not> is_dig (CHR ''*'')" "\<not> is_dig (CHR ''-'')"
  "\<not> is_dig NUL"
  by (simp_all add: is_digit_of_def digit_val_def)

subsection \<open>The parts\<close>

lemma parse_part_ipv4: "parse_pattern_addr flags (quad_text w) = Done (Addr_ipv4 w, False)"
proof -
  have s: "quad_text w \<noteq> CHR ''*'' # r" for r using quad_text_hd [of w] dig_no_sep by auto
  have "CHR '':'' \<notin> set (quad_text w)" "CHR ''.'' \<in> set (quad_text w)"
    using quad_text_chars [of w] dig_no_sep by (auto simp: quad_text_def dotted_quad_def)
  then have "tor_inet_pton_in6 (quad_text w) = Minus_1" by (rule pton_in6_needs_colon)
  then show ?thesis using s aton_iff [of "quad_text w" w] by (simp add: parse_pattern_addr_def tor_inet_pton_def)
qed

lemma parse_part_ipv6: "length b = 16 \<Longrightarrow> parse_pattern_addr flags (in6_text b) = Done (Addr_ipv6 b, False)"
proof -
  assume b: "length b = 16"
  have s: "in6_text b \<noteq> CHR ''*'' # r" for r using in6_text_chars [of b] hex_no_bracket by auto
  show ?thesis using s in6_roundtrip [OF b] by (simp add: parse_pattern_addr_def tor_inet_pton_def)
qed

lemma mask_number_nat: "m \<le> 128 \<Longrightarrow> strtol (dec_digits m) 10 = \<lparr>strtox_r = int m, endptr = Some [], erange = False\<rparr>"
  using mask_number [of "int m"] by (simp add: print_int_def)

lemma parse_part_mask:
  assumes "tor_addr_family a = AF_INET \<and> m \<le> 32 \<or> tor_addr_family a = AF_INET6 \<and> \<not> tor_addr_is_v4 a \<and> m \<le> 128"
  shows "parse_pattern_mask a False (Some (dec_digits m)) = Done (int m)"
proof -
  have "m \<le> 128" using assms by auto
  then have "strtox_r (strtol (dec_digits m) 10) = int m" "endptr (strtol (dec_digits m) 10) = Some []" "to_int32 (int m) = int m"
    using mask_number_nat [of m] by simp_all
  then show ?thesis using assms by (auto simp: parse_pattern_mask_def Let_def)
qed

abbreviation port_text :: "u16 \<Rightarrow> u16 \<Rightarrow> string" where
  "port_text lo hi \<equiv> (if lo \<le> 1 \<and> hi = 65535 then ''*'' else if lo = hi then dec_digits (unat lo)
     else dec_digits (unat lo) @ ''-'' @ dec_digits (unat hi))"

lemma u16_int: "word_of_int (int (unat (w :: u16))) = w"
  by simp

lemma parse_part_ports:
  assumes "lo \<noteq> 0" "lo \<le> hi"
  shows "parse_port_range (Some (port_text lo hi)) = Some (lo, hi)"
proof -
  have u: "1 \<le> unat lo" "unat lo \<le> unat hi" "unat hi \<le> 65535"
    using assms unsigned_less [of hi, where ?'a = nat] by (simp_all add: word_le_nat_alt Suc_le_eq unat_gt_0)
  have one: "lo = 1" if "lo \<le> 1"
  proof -
    have "unat lo = unat (1 :: u16)" using that u(1) by (simp add: word_le_nat_alt)
    then show ?thesis by (simp only: unat_inj_iff)
  qed
  have d: "dec_digits k @ s \<noteq> ''*''" "dec_digits k \<noteq> ''*''" for k s
    using print_int_not_star [of "int k" s] print_int_not_star [of "int k" "[]"] by (simp_all add: print_int_def)
  have p: "tor_parse_long (dec_digits k @ rest) 10 l 65535 True = Some (int k, True, Some rest)"
    if "no_digit_first rest" "l \<le> int k" "k \<le> 65535" for k rest l
    using parse_long_print [OF that(1,2), of 65535] that(3) by (simp add: print_int_def)
  have int_lo: "word_of_int (int (unat lo)) = lo" "word_of_int (int (unat hi)) = hi" by simp_all
  consider "lo \<le> 1" "hi = 65535" | "\<not> (lo \<le> 1 \<and> hi = 65535)" "lo = hi" | "\<not> (lo \<le> 1 \<and> hi = 65535)" "lo \<noteq> hi" by blast
  then show ?thesis
  proof cases
    case 1
    then show ?thesis using one by (simp add: parse_port_range_def)
  next
    case 2
    have "tor_parse_long (dec_digits (unat lo)) 10 0 65535 True = Some (int (unat lo), True, Some [])"
      using p [OF no_digit_end, of 0 "unat lo"] u by simp
    moreover have "\<not> int (unat lo) < 1" "\<not> int (unat lo) > 65535" using u by linarith+
    moreover have "port_text lo hi = dec_digits (unat lo)" unfolding if_not_P [OF 2(1)] if_P [OF 2(2)] ..
    ultimately show ?thesis using 2(2) d int_lo by (simp only: parse_port_range_def Let_def option.case) simp
  next
    case 3
    have "tor_parse_long (dec_digits (unat lo) @ ''-'' @ dec_digits (unat hi)) 10 0 65535 True =
        Some (int (unat lo), True, Some (''-'' @ dec_digits (unat hi)))"
      using p [OF dash_not_digit, of 0 "unat lo" "dec_digits (unat hi)"] u by simp
    moreover have "tor_parse_long (dec_digits (unat hi)) 10 1 65535 True = Some (int (unat hi), True, Some [])"
      using p [OF no_digit_end, of 1 "unat hi"] u by (simp only: append_Nil2)
    moreover have "\<not> int (unat lo) < 1" "\<not> int (unat hi) > 65535" "\<not> int (unat lo) > int (unat hi)" using u by linarith+
    moreover have "port_text lo hi = dec_digits (unat lo) @ ''-'' @ dec_digits (unat hi)"
      unfolding if_not_P [OF 3(1)] if_not_P [OF 3(2)] ..
    ultimately show ?thesis using d int_lo by (simp only: parse_port_range_def Let_def option.case) simp
  qed
qed

lemma port_text_plain: "plain_text (Some (port_text lo hi))"
  using dec_digits_all [of "unat lo"] dec_digits_all [of "unat hi"] dig_no_sep by auto

lemma dec_mask_plain: "plain_text (Some (dec_digits m))"
  using dec_digits_all [of m] dig_no_sep by auto

text \<open>The text of an address as it stands in a pattern.\<close>

fun pattern_text :: "tor_addr_t \<Rightarrow> string" where
  "pattern_text (Addr_ipv4 w) = quad_text w"
| "pattern_text (Addr_ipv6 b) = ''['' @ in6_text b @ '']''"
| "pattern_text _ = []"

lemma split_pattern_text:
  assumes "tor_addr_family a = AF_INET \<or> tor_addr_family a = AF_INET6" "addr_ok a" "plain_text m" "plain_text p"
  shows "\<exists>t. split_pattern (pattern_text a @ mask_part m @ port_part p) = Done (t, m, p) \<and> parse_pattern_addr flags t = Done (a, False)"
proof (cases a)
  case (Addr_ipv4 w)
  have "CHR ''/'' \<notin> set (quad_text w)" "CHR '':'' \<notin> set (quad_text w)" "NUL \<notin> set (quad_text w)"
    "quad_text w \<noteq> []" "hd (quad_text w) \<noteq> CHR ''[''"
    using quad_text_chars [of w] quad_text_hd [of w] dig_no_sep by auto
  from split_plain [OF this assms(3,4)] show ?thesis using Addr_ipv4 parse_part_ipv4 by simp
next
  case (Addr_ipv6 b)
  have "CHR '']'' \<notin> set (in6_text b)" "NUL \<notin> set (in6_text b)"
    using in6_text_chars [of b] hex_no_bracket by auto
  from split_bracket [OF this assms(3,4)] show ?thesis using Addr_ipv6 parse_part_ipv6 [of b] assms(2) by simp
qed (use assms(1) in simp_all)

text \<open>The mask is left out when it is that of a single address.\<close>

definition whole_address :: "tor_addr_t \<Rightarrow> nat" where
  "whole_address a = (if tor_addr_family a = AF_INET6 then 128 else 32)"

lemma pattern_text_length: "length (pattern_text a) \<le> 42"
proof (cases a)
  case (Addr_ipv4 w)
  then show ?thesis using quad_text_length [of w] by simp
next
  case (Addr_ipv6 b)
  then show ?thesis using in6_text_length [of b] by simp
qed simp_all

lemma pattern_parses:
  assumes "tor_addr_family a = AF_INET \<or> tor_addr_family a = AF_INET6" "addr_ok a" "m \<le> whole_address a"
    "m = whole_address a \<or> tor_addr_family a = AF_INET6 \<longrightarrow> m = whole_address a \<or> \<not> tor_addr_is_v4 a"
    "\<not> (TAPMP_STAR_IPV4_ONLY flags \<and> TAPMP_STAR_IPV6_ONLY flags)"
    "mt = (if m < whole_address a then Some (dec_digits m) else None)"
    "plain_text p" "length (port_part p) \<le> 20"
    "want_ports \<and> parse_port_range p = Some (lo, hi) \<or> \<not> want_ports \<and> p = None \<and> lo = 0 \<and> hi = 0"
  shows "tor_addr_parse_mask_ports (pattern_text a @ mask_part mt @ port_part p) flags True want_ports = Done (a, m, lo, hi)"
proof -
  have w: "whole_address a \<le> 128" by (simp add: whole_address_def)
  have pm: "plain_text mt" using dec_mask_plain [of m] assms(6) by simp
  from split_pattern_text [OF assms(1,2) pm assms(7)] obtain t where t: "split_pattern (pattern_text a @ mask_part mt @ port_part p) = Done (t, mt, p)"
    "parse_pattern_addr flags t = Done (a, False)" by blast
  have "length (mask_part mt) \<le> 4" using dec_digits_length [of m] assms(3,6) w by (auto simp: mask_part_def)
  then have len: "\<not> length (pattern_text a @ mask_part mt @ port_part p) > MAX_ADDRESS_LENGTH"
    using pattern_text_length [of a] assms(8) by simp
  have k: "parse_pattern_mask a False mt = Done (int m)"
  proof (cases "m < whole_address a")
    case True
    then show ?thesis using assms(1,4,6) parse_part_mask [of a m] by (auto simp: whole_address_def split: if_splits)
  next
    case False
    then show ?thesis using assms(1,3,6) by (auto simp: parse_pattern_mask_def whole_address_def)
  qed
  have "nat (int m mod 256) = m" using assms(3) w by simp
  then show ?thesis
    unfolding tor_addr_parse_mask_ports_def
    using assms(5,9) len by (auto simp: t k)
qed

section \<open>The private networks\<close>

definition private_networks :: "(tor_addr_t \<times> nat) list" where
  "private_networks =
     [(Addr_ipv4 0, 8), (Addr_ipv4 0xa9fe0000, 16), (Addr_ipv4 0x7f000000, 8), (Addr_ipv4 0xc0a80000, 16),
      (Addr_ipv4 0x0a000000, 8), (Addr_ipv4 0xac100000, 12), (Addr_ipv6 (replicate 16 0), 8),
      (Addr_ipv6 (0xfc # replicate 15 0), 7), (Addr_ipv6 (0xfe # 0x80 # replicate 14 0), 10),
      (Addr_ipv6 (0xfe # 0xc0 # replicate 14 0), 10), (Addr_ipv6 (0xff # replicate 15 0), 8), (Addr_ipv6 (replicate 16 0), 127)]"

lemma net_parses:
  assumes "tor_addr_family a = AF_INET \<or> tor_addr_family a = AF_INET6" "addr_ok a" "m < whole_address a"
    "tor_addr_family a = AF_INET6 \<longrightarrow> \<not> tor_addr_is_v4 a" "net = pattern_text a @ CHR ''/'' # dec_digits m"
  shows "private_net net w = Done (a, m)"
proof -
  have p: "parse_port_range None = Some (1, 65535)" by (simp add: parse_port_range_def)
  have "tor_addr_parse_mask_ports net tapmp_none True w = Done (a, m, if w then 1 else 0, if w then 65535 else 0)"
    using pattern_parses [of a m tapmp_none "Some (dec_digits m)" None w "if w then 1 else 0" "if w then 65535 else 0"] assms p
    by (auto simp: port_part_def mask_part_def)
  then show ?thesis by (simp add: private_net_def)
qed

text \<open>The texts of the IPv6 networks.\<close>

lemma net_words:
  "in6_words (replicate 16 0) = [0, 0, 0, 0, 0, 0, 0, 0]"
  "in6_words (0xfc # replicate 15 0) = [0xfc00, 0, 0, 0, 0, 0, 0, 0]"
  "in6_words (0xfe # 0x80 # replicate 14 0) = [0xfe80, 0, 0, 0, 0, 0, 0, 0]"
  "in6_words (0xfe # 0xc0 # replicate 14 0) = [0xfec0, 0, 0, 0, 0, 0, 0, 0]"
  "in6_words (0xff # replicate 15 0) = [0xff00, 0, 0, 0, 0, 0, 0, 0]"
  by code_simp+

lemma in6_text_net:
  assumes "in6_words b = [w, 0, 0, 0, 0, 0, 0, 0]"
  shows "in6_text b = (if w = 0 then ''::'' else hex_digits (unat w) @ ''::'')"
proof (cases "w = 0")
  case True
  have "longest_gap [0, 0, 0, 0, 0, 0, 0, 0] 0 (- 1) 0 = (0, 8)" by (simp add: longest_gap.simps skip_zeros.simps)
  moreover have "print_words [0, 0, 0, 0, 0, 0, 0, 0] 0 0 = ''::''" by (simp add: print_words.simps skip_zeros.simps)
  ultimately show ?thesis using assms True by (simp add: in6_text_def)
next
  case False
  then have "longest_gap [w, 0, 0, 0, 0, 0, 0, 0] 0 (- 1) 0 = (1, 7)" by (simp add: longest_gap.simps skip_zeros.simps)
  moreover have "print_words [w, 0, 0, 0, 0, 0, 0, 0] 0 1 = hex_digits (unat w) @ ''::''"
    using False by (simp add: print_words.simps skip_zeros.simps)
  ultimately show ?thesis using assms False by (simp add: in6_text_def)
qed

lemma net_texts6:
  "in6_text (replicate 16 0) = ''::''" "in6_text (0xfc # replicate 15 0) = ''fc00::''"
  "in6_text (0xfe # 0x80 # replicate 14 0) = ''fe80::''" "in6_text (0xfe # 0xc0 # replicate 14 0) = ''fec0::''"
  "in6_text (0xff # replicate 15 0) = ''ff00::''"
  using net_words [THEN in6_text_net] by (simp_all add: hex_digits.simps)

lemma net_texts4:
  "quad_text 0 = ''0.0.0.0''" "quad_text 0xa9fe0000 = ''169.254.0.0''" "quad_text 0x7f000000 = ''127.0.0.0''"
  "quad_text 0xc0a80000 = ''192.168.0.0''" "quad_text 0x0a000000 = ''10.0.0.0''" "quad_text 0xac100000 = ''172.16.0.0''"
  "dec_digits 7 = ''7''" "dec_digits 8 = ''8''" "dec_digits 10 = ''10''" "dec_digits 12 = ''12''" "dec_digits 16 = ''16''" "dec_digits 127 = ''127''"
  by code_simp+

lemma net_texts:
  "list_all2 (\<lambda>net (a, m). net = pattern_text a @ CHR ''/'' # dec_digits m) private_nets private_networks"
  unfolding private_nets_def private_networks_def
  by (simp only: list_all2_Cons list_all2_Nil prod.case pattern_text.simps net_texts4 net_texts6) simp

lemma private_networks_ok:
  "list_all (\<lambda>(a, m). (tor_addr_family a = AF_INET \<or> tor_addr_family a = AF_INET6) \<and> addr_ok a \<and> m < whole_address a \<and>
     (tor_addr_family a = AF_INET6 \<longrightarrow> \<not> tor_addr_is_v4 a)) private_networks"
  by code_simp

lemma private_nets_values: "list_all2 (\<lambda>net v. private_net net w = Done v) private_nets private_networks"
  using net_texts private_networks_ok
proof (induction rule: list_all2_induct)
  case (Cons net nets v vs)
  obtain a m where v: "v = (a, m)" by force
  then have "private_net net w = Done (a, m)" using Cons by (intro net_parses) auto
  then show ?case using Cons v by simp
qed simp

lemma private_rule_spec:
  "list_all2 (\<lambda>net v. private_net net False = Done v) nets vs \<Longrightarrow>
    rule_is_private_net p nets = Done (\<exists>(a, m) \<in> set vs. tor_addr_compare (pol_addr p) a CMP_EXACT = 0 \<and> maskbits p = m)"
proof (induction rule: list_all2_induct)
  case (Cons net nets v vs)
  obtain a m where v: "v = (a, m)" by force
  show ?case using Cons by (cases "tor_addr_compare (pol_addr p) a CMP_EXACT = 0 \<and> maskbits p = m") (auto simp: v)
qed simp

lemma private_nets_parse:
  "rule_is_private_net p private_nets = Done (\<exists>(a, m) \<in> set private_networks. tor_addr_compare (pol_addr p) a CMP_EXACT = 0 \<and> maskbits p = m)"
  by (rule private_rule_spec [OF private_nets_values])

text \<open>A rule for private addresses becomes one rule for each network.\<close>

lemma expand_private_rule_spec:
  "list_all2 (\<lambda>net v. private_net net True = Done v) nets vs \<Longrightarrow>
    expand_private_rule p nets = Done (map (\<lambda>(a, m). p\<lparr>is_private := False, pol_addr := a, maskbits := m\<rparr>) vs)"
  by (induction rule: list_all2_induct) auto

lemma expand_private_spec:
  "policy_expand_private l = Done (concat (map (\<lambda>p. if is_private p
     then map (\<lambda>(a, m). p\<lparr>is_private := False, pol_addr := a, maskbits := m\<rparr>) private_networks else [p]) l))"
  using expand_private_rule_spec [OF private_nets_values] by (induction l) auto

section \<open>A rule is read back from its text\<close>

lemma addr_text_is: "tor_addr_family a = AF_INET \<or> tor_addr_family a = AF_INET6 \<Longrightarrow> tor_addr_to_str a TOR_ADDR_BUF_LEN True = Some (pattern_text a)"
proof (cases a)
  case (Addr_ipv4 w)
  then show ?thesis using quad_text_length [of w] by (simp add: tor_inet_ntoa_def tor_snprintf_def)
next
  case (Addr_ipv6 b)
  then show ?thesis using in6_text_length [of b] by (simp add: tor_inet_ntop_in6_def)
qed simp_all

text \<open>What the pattern in the text of a rule stands for.\<close>

definition rule_pattern :: "addr_policy_t \<Rightarrow> string" where
  "rule_pattern p =
     (if maskbits p = 0 then (if tor_addr_family (pol_addr p) = AF_INET6 then ''*6'' else ''*4'')
      else pattern_text (pol_addr p) @
        mask_part (if maskbits p < whole_address (pol_addr p) then Some (dec_digits (maskbits p)) else None)) @
     port_part (Some (port_text (prt_min p) (prt_max p)))"

lemma port_text_length: "length (port_text lo hi) \<le> 11"
proof -
  have "length (dec_digits (unat w)) \<le> 5" for w :: u16
    using length_dec_digits [of "unat w" 4] unsigned_less [of w, where ?'a = nat] by simp
  then have "length (dec_digits (unat lo)) \<le> 5" "length (dec_digits (unat hi)) \<le> 5" by blast+
  then show ?thesis by (cases "lo \<le> 1 \<and> hi = 65535"; cases "lo = hi") (simp_all only: if_True if_False length_append, auto)
qed

lemma rule_pattern_length: "maskbits p \<le> whole_address (pol_addr p) \<Longrightarrow> length (rule_pattern p) \<le> 58"
proof -
  assume m: "maskbits p \<le> whole_address (pol_addr p)"
  then have "maskbits p < 1000" by (simp add: whole_address_def split: if_splits)
  then have "length (dec_digits (maskbits p)) \<le> 3" by (rule dec_digits_length)
  then have "length (mask_part (if maskbits p < whole_address (pol_addr p) then Some (dec_digits (maskbits p)) else None)) \<le> 4"
    by (simp add: mask_part_def)
  then show ?thesis
    using pattern_text_length [of "pol_addr p"] port_text_length [of "prt_min p" "prt_max p"]
    unfolding rule_pattern_def by (auto simp: port_part_def simp del: length_append split: if_splits simp: length_append)
qed

abbreviation tapmp_torrc :: tapmp_flags where
  "tapmp_torrc \<equiv> \<lparr>TAPMP_EXTENDED_STAR = True, TAPMP_STAR_IPV4_ONLY = False, TAPMP_STAR_IPV6_ONLY = False\<rparr>"

definition action_text :: "addr_policy_t \<Rightarrow> string" where
  "action_text p = (if policy_type p = ADDR_POLICY_ACCEPT then ''accept '' else ''reject '')"

lemma append_item: "length w + length t < n \<Longrightarrow> append_item_text n w t = Done (w @ t)"
  by (simp add: append_item_text_def tor_snprintf_def)

lemma port_part_text:
  "policy_port_part n p w = (let t = CHR '':'' # port_text (prt_min p) (prt_max p)
     in if prt_min p \<le> 1 \<and> prt_max p = 65535 then (if length w + 4 > n then Minus_1 else Done (w @ t)) else append_item_text n w t)"
proof (cases "prt_min p \<le> 1 \<and> prt_max p = 65535")
  case True
  then show ?thesis by (simp add: policy_port_part_def Let_def)
next
  case False
  show ?thesis unfolding policy_port_part_def Let_def if_not_P [OF False] by (cases "prt_min p = prt_max p") (simp_all only: if_True if_False refl append_Cons append_Nil)
qed

lemma write_item_text:
  assumes "\<not> is_private p" "tor_addr_family (pol_addr p) = AF_INET \<or> tor_addr_family (pol_addr p) = AF_INET6"
    "maskbits p \<le> whole_address (pol_addr p)"
  shows "policy_write_item POLICY_BUF_LEN p False = Done (action_text p @ rule_pattern p)"
proof -
  define ap where "ap = (if maskbits p = 0 then (if tor_addr_family (pol_addr p) = AF_INET6 then ''*6'' else ''*4'') else pattern_text (pol_addr p))"
  define mp where "mp = (if maskbits p < whole_address (pol_addr p) \<and> maskbits p > 0 then ''/'' @ dec_digits (maskbits p) else [])"
  define pp where "pp = CHR '':'' # port_text (prt_min p) (prt_max p)"
  have r: "rule_pattern p = ap @ mp @ pp"
    using assms(3) by (simp add: rule_pattern_def port_part_def mask_part_def ap_def mp_def pp_def)
  have len: "length ap + length mp + length pp \<le> 58" using rule_pattern_length [OF assms(3)] unfolding r by simp
  have a: "policy_addr_part p False = Done ap"
    using assms(1,2) addr_text_is [OF assms(2)] by (auto simp: policy_addr_part_def Let_def ap_def)
  have w: "(if tor_addr_family (pol_addr p) = AF_INET6 then 128 else 32) = whole_address (pol_addr p)" by (simp add: whole_address_def)
  have at: "length (action_text p) = 7"
    "(if policy_type p = ADDR_POLICY_ACCEPT then ''accept'' else ''reject'') @ [] @ '' '' @ ap = action_text p @ ap"
    by (simp_all add: action_text_def)
  have s1: "append_item_text 72 [] (action_text p @ ap) = Done (action_text p @ ap)"
    using append_item [of "[]" "action_text p @ ap" 72] len at(1) by simp
  have s2: "(if maskbits p < whole_address (pol_addr p) \<and> maskbits p > 0 then append_item_text 72 (action_text p @ ap) (''/'' @ dec_digits (maskbits p))
      else Done (action_text p @ ap)) = Done ((action_text p @ ap) @ mp)"
    using append_item [of "action_text p @ ap" mp 72] len at(1) by (auto simp: mp_def)
  have s3: "policy_port_part 72 p ((action_text p @ ap) @ mp) = Done (((action_text p @ ap) @ mp) @ pp)"
    unfolding port_part_text Let_def pp_def [symmetric] using append_item [of "(action_text p @ ap) @ mp" pp 72] len at(1) by simp
  have s4: "length (((action_text p @ ap) @ mp) @ pp) < 72" using len at(1) by simp
  show ?thesis
    unfolding policy_write_item_def Let_def a and_then_simps w simp_thms if_False at(2) s1 s2 s3 r
    using s4 by (simp only: if_True append_assoc)
qed

lemma rule_pattern_parses:
  assumes "tor_addr_family (pol_addr p) = AF_INET \<or> tor_addr_family (pol_addr p) = AF_INET6" "addr_ok (pol_addr p)"
    "maskbits p \<le> whole_address (pol_addr p)" "maskbits p = 0 \<or> maskbits p = 128 \<or> tor_addr_family (pol_addr p) = AF_INET \<or> \<not> tor_addr_is_v4 (pol_addr p)"
    "prt_min p \<noteq> 0" "prt_min p \<le> prt_max p"
  shows "tor_addr_parse_mask_ports (rule_pattern p) tapmp_torrc True True =
    Done (if maskbits p = 0 then tor_addr_make_null (tor_addr_family (pol_addr p)) else pol_addr p, maskbits p, prt_min p, prt_max p)"
proof (cases "maskbits p = 0")
  case False
  let ?port = "Some (port_text (prt_min p) (prt_max p))"
  have l: "length (port_part ?port) \<le> 20"
    using port_text_length [of "prt_min p" "prt_max p"] by (simp add: port_part_def del: if_image_distrib)
  show ?thesis
    using False assms
      pattern_parses [OF assms(1-3) _ _ refl port_text_plain l, of tapmp_torrc True "prt_min p" "prt_max p"]
      parse_part_ports [OF assms(5,6)]
    by (auto simp: rule_pattern_def whole_address_def)
next
  case True
  let ?port = "Some (port_text (prt_min p) (prt_max p))"
  let ?t = "if tor_addr_family (pol_addr p) = AF_INET6 then ''*6'' else ''*4''"
  have r: "rule_pattern p = ?t @ mask_part None @ port_part ?port" using True by (simp add: rule_pattern_def mask_part_def)
  have sp: "split_pattern (rule_pattern p) = Done (?t, None, ?port)"
    unfolding r by (rule split_plain [OF _ _ _ _ _ _ port_text_plain]) auto
  have a: "parse_pattern_addr tapmp_torrc ?t = Done (tor_addr_make_null (tor_addr_family (pol_addr p)), True)"
    using assms(1) by (auto simp: parse_pattern_addr_def)
  have len: "\<not> length (rule_pattern p) > MAX_ADDRESS_LENGTH" using rule_pattern_length [OF assms(3)] by simp
  show ?thesis
    unfolding tor_addr_parse_mask_ports_def using len sp a True parse_part_ports [OF assms(5,6)]
    by (simp add: parse_pattern_mask_def)
qed

section \<open>Entries of a short policy are read back\<close>

lemma join_with_step: "join_with j (x # xs) = x @ (if xs = [] then [] else j @ join_with j xs)"
  by (cases xs) simp_all

lemma join_strings_with: "smartlist_join_strings sl j False = (join_with j sl, length (join_with j sl))"
  by (simp add: smartlist_join_strings_def smartlist_join_strings2_def Let_def join_loop_eq)

definition entry_ok :: "short_policy_entry_t \<Rightarrow> bool" where
  "entry_ok e \<longleftrightarrow> min_port e \<noteq> 0 \<and> min_port e \<le> max_port e"

abbreviation in_entry :: "short_policy_entry_t \<Rightarrow> nat \<Rightarrow> bool" where
  "in_entry e port \<equiv> unat (min_port e) \<le> port \<and> port \<le> unat (max_port e)"

lemma ulong_print:
  assumes "no_digit_first rest" "lo \<le> of_nat n" "of_nat n \<le> hi" "n < 2 ^ 64"
  shows "tor_parse_ulong (dec_digits n @ rest) 10 lo hi True = Some (of_nat n, True, Some rest)"
proof -
  have "strto_scan (dec_digits n @ rest) 10 = Some (False, n, rest)"
    using strto_scan_print_int [OF assms(1), of "int n"] by (simp add: print_int_def)
  then have "strtoull (dec_digits n @ rest) 10 = \<lparr>strtox_r = of_nat n, endptr = Some rest, erange = False\<rparr>"
    using assms(4) by (simp add: strtoull_def)
  then show ?thesis using assms(2,3) by (auto simp: tor_parse_ulong_def base_defined_def CHECK_STRTOX_RESULT_def Let_def not_less)
qed

lemma port_number_bounds:
  assumes "n \<le> m" "1 \<le> n" "m \<le> 65535"
  shows "(1 :: u64) \<le> of_nat n" "(of_nat n :: u64) \<le> of_nat m" "(of_nat m :: u64) \<le> 65535" "m < 2 ^ 64"
proof -
  have "unat (of_nat n :: u64) = n" "unat (of_nat m :: u64) = m" using assms by (simp_all add: unsigned_of_nat take_bit_nat_eq_self)
  then show "(1 :: u64) \<le> of_nat n" "(of_nat n :: u64) \<le> of_nat m" "(of_nat m :: u64) \<le> 65535" "m < 2 ^ 64"
    using assms by (simp_all add: word_le_nat_alt)
qed

lemma ucast_port [simp]: "ucast (ucast (p :: u16) :: u64) = p"
  by (rule bit_word_eqI) (auto simp: bit_ucast_iff)

lemma entry_first_char: "short_entry_text e @ s = c # cs \<Longrightarrow> c \<noteq> CHR '','' \<and> is_dig c"
  using dec_digits_all [of "unat (min_port e)"] dec_digits_not_Nil [of "unat (min_port e)"]
  by (cases "dec_digits (unat (min_port e))") (auto simp: short_entry_text_def is_digit_of_def digit_val_def split: if_splits)

lemma parse_one_entry:
  assumes "entry_ok e" "length ents < MAX_EXITPOLICY_SUMMARY_LEN" "rest = [] \<or> hd rest = CHR '',''"
  shows "parse_short_entries (short_entry_text e @ rest) ents = parse_short_entries (tl rest) (ents @ [e])"
proof -
  let ?lo = "unat (min_port e)" and ?hi = "unat (max_port e)"
  have u: "1 \<le> ?lo" "?lo \<le> ?hi" "?hi \<le> 65535"
    using assms(1) unsigned_less [of "max_port e", where ?'a = nat] by (simp_all add: entry_ok_def word_le_nat_alt Suc_le_eq unat_gt_0)
  note b = port_number_bounds [OF u(2,1,3)]
  have l: "(of_nat ?lo :: u64) \<le> 65535" "?lo < 2 ^ 64" using b(2,3,4) u by simp_all
  have nr: "no_digit_first rest" using assms(3) by (cases rest) (auto simp: no_digit_first_def is_digit_of_def digit_val_def)
  have ne: "short_entry_text e @ rest \<noteq> []" by (simp add: short_entry_text_def)
  show ?thesis
  proof (cases "min_port e = max_port e")
    case True
    have p: "tor_parse_ulong (short_entry_text e @ rest) 10 1 65535 True = Some (of_nat ?lo, True, Some rest)"
      using ulong_print [OF nr b(1) l] True by (simp add: short_entry_text_def)
    have e1': "\<lparr>min_port = max_port e, max_port = max_port e\<rparr> = e" using True by (cases e) simp
    show ?thesis
      unfolding parse_short_entries.simps [of "short_entry_text e @ rest"] if_not_P [OF ne] p option.case prod.case
      using assms(2,3) by (cases rest) (simp_all add: True e1')
  next
    case False
    let ?r = "CHR ''-'' # dec_digits ?hi @ rest"
    have t: "short_entry_text e @ rest = dec_digits ?lo @ ?r" using False by (simp add: short_entry_text_def)
    have p: "tor_parse_ulong (short_entry_text e @ rest) 10 1 65535 True = Some (of_nat ?lo, True, Some ?r)"
      unfolding t by (rule ulong_print [OF dash_not_digit b(1) l])
    have q: "tor_parse_ulong (dec_digits ?hi @ rest) 10 (of_nat ?lo) 65535 True = Some (of_nat ?hi, True, Some rest)"
      by (rule ulong_print [OF nr b(2,3,4)])
    show ?thesis
      unfolding parse_short_entries.simps [of "short_entry_text e @ rest"] if_not_P [OF ne] p option.case prod.case
      using assms(2,3) q by (cases rest; cases e) simp_all
  qed
qed

lemma parse_entries_join:
  "\<forall>e \<in> set es. entry_ok e \<Longrightarrow> length ents + length es \<le> MAX_EXITPOLICY_SUMMARY_LEN \<Longrightarrow>
    parse_short_entries (join_with '','' (map short_entry_text es)) ents = Some (ents @ es)"
proof (induction es arbitrary: ents)
  case Nil
  then show ?case by (subst parse_short_entries.simps) simp
next
  case (Cons e es)
  let ?rest = "if es = [] then [] else '','' @ join_with '','' (map short_entry_text es)"
  have "parse_short_entries (short_entry_text e @ ?rest) ents = parse_short_entries (tl ?rest) (ents @ [e])"
    using Cons.prems by (intro parse_one_entry) auto
  moreover have "tl ?rest = join_with '','' (map short_entry_text es)" by simp
  ultimately show ?case using Cons.IH [of "ents @ [e]"] Cons.prems by (simp add: join_with_step)
qed

lemma accept_prefix: "strcmpstart (''accept '' @ s) ''accept '' = 0"
  and reject_prefix: "strcmpstart (''reject '' @ s) ''accept '' \<noteq> 0" "strcmpstart (''reject '' @ s) ''reject '' = 0"
  by (simp_all add: strcmpstart_def numeral_eq_Suc)

lemma parse_short_join:
  assumes "\<forall>e \<in> set es. entry_ok e" "es \<noteq> []" "length es \<le> MAX_EXITPOLICY_SUMMARY_LEN"
  shows "parse_short_policy ((if a then ''accept '' else ''reject '') @ join_with '','' (map short_entry_text es)) =
    Some \<lparr>is_accept = a, entries = es\<rparr>"
proof (cases a)
  case True
  show ?thesis
    unfolding parse_short_policy_def if_P [OF True] if_P [OF accept_prefix] option.case prod.case
    using parse_entries_join [OF assms(1), of "[]"] assms(2,3) True by simp
next
  case False
  show ?thesis
    unfolding parse_short_policy_def if_not_P [OF False] if_not_P [OF reject_prefix(1)] if_P [OF reject_prefix(2)] option.case prod.case
    using parse_entries_join [OF assms(1), of "[]"] assms(2,3) False by simp
qed

lemma write_entries_join: "concat (write_entries es) = join_with '','' (map short_entry_text es)"
  by (induction es) (auto simp: join_with_step)

lemma join_empty: "join_with [] sl = concat sl"
  by (induction sl) (auto simp: join_with_step)

lemma write_short_text:
  "write_short_policy sp = (if is_accept sp then ''accept '' else ''reject '') @ join_with '','' (map short_entry_text (entries sp))"
  by (simp add: write_short_policy_def join_strings_with join_empty write_entries_join)

end
