(* ===== verification/Policy_Props.thy ===== *)
theory Policy_Props
  imports Policy_Rules Policy_Text
begin

text \<open>
  A summary as a function from ports to the number of rejected addresses and the mark of acceptance; splitting and
  updating it; the text made of it and the cut of a long text at a comma; and the properties of exit policies.
\<close>

section \<open>Summaries as functions of the port\<close>

text \<open>The items of a summary cover the ports from \<open>lo\<close> up to, but not including, \<open>hi\<close>, in order.\<close>

fun tiles :: "nat \<Rightarrow> policy_summary_item_t list \<Rightarrow> nat \<Rightarrow> bool" where
  "tiles lo [] hi \<longleftrightarrow> lo = hi"
| "tiles lo (x # xs) hi \<longleftrightarrow> unat (item_min x) = lo \<and> lo \<le> unat (item_max x) \<and> tiles (unat (item_max x) + 1) xs hi"

lemma tiles_append: "tiles lo (xs @ ys) hi \<longleftrightarrow> (\<exists>m. tiles lo xs m \<and> tiles m ys hi)"
  by (induction xs arbitrary: lo) auto

lemma tiles_le: "tiles lo xs hi \<Longrightarrow> lo \<le> hi"
  by (induction xs arbitrary: lo) force+

lemma tiles_items: "tiles lo xs hi \<Longrightarrow> x \<in> set xs \<Longrightarrow> lo \<le> unat (item_min x) \<and> item_min x \<le> item_max x \<and> unat (item_max x) < hi"
proof (induction xs arbitrary: lo)
  case (Cons y xs)
  have "unat (item_max y) < hi" using Cons.prems(1) tiles_le [of "unat (item_max y) + 1" xs hi] by simp
  then show ?case using Cons by (force simp: word_le_nat_alt)
qed simp

text \<open>What a summary says of a port: its count of rejections and whether it is accepted.\<close>

fun port_state :: "policy_summary_item_t list \<Rightarrow> nat \<Rightarrow> u64 \<times> bool" where
  "port_state [] p = (0, False)"
| "port_state (x # xs) p = (if p \<le> unat (item_max x) then (reject_count x, accepted x) else port_state xs p)"

lemma port_state_append:
  "tiles lo xs m \<Longrightarrow> port_state (xs @ ys) p = (if p < m \<and> lo \<le> p then port_state xs p else if p < lo \<and> xs \<noteq> [] then port_state xs p else port_state ys p)"
proof (induction xs arbitrary: lo)
  case (Cons x xs)
  have "unat (item_max x) < m" using tiles_items [OF Cons.prems(1)] by simp
  then show ?case using Cons.IH [of "unat (item_max x) + 1"] Cons.prems by auto
qed auto

lemma port_state_below: "tiles lo xs m \<Longrightarrow> lo \<le> p \<Longrightarrow> p < m \<Longrightarrow> port_state (xs @ ys) p = port_state xs p"
  using port_state_append by simp

lemma port_state_above: "tiles lo xs m \<Longrightarrow> lo \<le> m \<Longrightarrow> m \<le> p \<Longrightarrow> port_state (xs @ ys) p = port_state ys p"
  using port_state_append [of lo xs m ys p] by auto

lemma port_state_map:
  assumes "\<forall>x. item_max (f x) = item_max x" "\<forall>x. (reject_count (f x), accepted (f x)) = g (reject_count x, accepted x)"
  shows "tiles lo xs m \<Longrightarrow> lo \<le> p \<Longrightarrow> p < m \<Longrightarrow> port_state (map f xs) p = g (port_state xs p)"
  using assms by (induction xs arbitrary: lo) auto

lemma tiles_map: "\<forall>x. item_max (f x) = item_max x \<and> item_min (f x) = item_min x \<Longrightarrow> tiles lo (map f xs) m \<longleftrightarrow> tiles lo xs m"
  by (induction xs arbitrary: lo) auto

subsection \<open>Splitting\<close>

lemma seek_item_finds:
  "i \<le> length s \<Longrightarrow> (\<exists>k \<ge> i. k < length s \<and> \<not> item_max (s ! k) < port) \<Longrightarrow>
    \<exists>k \<ge> i. seek_item s i port = Done k \<and> k < length s \<and> port \<le> item_max (s ! k) \<and> (\<forall>j. i \<le> j \<and> j < k \<longrightarrow> item_max (s ! j) < port)"
proof (induction s i port rule: seek_item.induct)
  case (1 s i port)
  then obtain k0 where k0: "i \<le> k0" "k0 < length s" "\<not> item_max (s ! k0) < port" by blast
  show ?case
  proof (cases "item_max (s ! i) < port")
    case True
    then have "Suc i \<le> k0" using k0 by (metis le_antisym not_less_eq_eq)
    then have "\<exists>k \<ge> Suc i. seek_item s (Suc i) port = Done k \<and> k < length s \<and> port \<le> item_max (s ! k) \<and>
        (\<forall>j. Suc i \<le> j \<and> j < k \<longrightarrow> item_max (s ! j) < port)"
      using 1(1) True k0 by auto
    moreover have "seek_item s i port = seek_item s (Suc i) port" using k0 True by (subst seek_item.simps) simp
    ultimately show ?thesis using True by (metis Suc_leD Suc_leI le_neq_implies_less)
  next
    case False
    then have "seek_item s i port = Done i" using k0 by (subst seek_item.simps) simp
    then show ?thesis using False k0 by (intro exI [of _ i]) auto
  qed
qed

text \<open>Seeking from the start of a part of the summary that covers the port.\<close>

lemma seek_in_part:
  assumes "tiles lo b hi" "lo \<le> unat port" "unat port < hi"
  shows "\<exists>pre x post. b = pre @ x # post \<and> seek_item (a @ b) (length a) port = Done (length a + length pre) \<and>
    port \<le> item_max x \<and> tiles lo pre (unat (item_min x)) \<and> item_min x \<le> port \<and> tiles (unat (item_max x) + 1) post hi"
proof -
  have ex: "\<exists>k < length b. \<not> item_max (b ! k) < port"
    using assms
  proof (induction b arbitrary: lo)
    case (Cons x b)
    show ?case
    proof (cases "item_max x < port")
      case True
      then have "\<exists>k < length b. \<not> item_max (b ! k) < port"
        using Cons.prems Cons.IH [of "unat (item_max x) + 1"] by (simp add: word_less_nat_alt)
      then show ?thesis by (metis Suc_less_eq length_Cons nth_Cons_Suc)
    qed auto
  qed simp
  then have "\<exists>k \<ge> length a. k < length (a @ b) \<and> \<not> item_max ((a @ b) ! k) < port"
    by (metis add_less_cancel_left le_add1 length_append nth_append_length_plus)
  from seek_item_finds [OF _ this] obtain k where k: "length a \<le> k" "seek_item (a @ b) (length a) port = Done k"
    "k < length (a @ b)" "port \<le> item_max ((a @ b) ! k)" "\<forall>j. length a \<le> j \<and> j < k \<longrightarrow> item_max ((a @ b) ! j) < port" by auto
  define n where "n = k - length a"
  have n: "k = length a + n" "n < length b" using k(1,3) by (auto simp: n_def)
  let ?pre = "take n b" and ?x = "b ! n" and ?post = "drop (Suc n) b"
  have b: "b = ?pre @ ?x # ?post" using n(2) by (simp add: id_take_nth_drop)
  have before: "\<forall>y \<in> set ?pre. item_max y < port"
  proof -
    have "item_max (b ! j) < port" if "j < n" for j using k(5) [rule_format, of "length a + j"] n that by (simp add: nth_append)
    then show ?thesis using n(2) by (auto simp: in_set_conv_nth)
  qed
  obtain m where m: "tiles lo ?pre m" "m = unat (item_min ?x)" "tiles (unat (item_max ?x) + 1) ?post hi"
    using assms(1) b tiles_append [of lo ?pre "?x # ?post" hi] by auto
  have "item_min ?x \<le> port"
  proof (cases "?pre = []")
    case True
    then have "lo = m" using m(1) by (simp only: tiles.simps)
    then show ?thesis using m(2) assms(2) by (simp add: word_le_nat_alt)
  next
    case False
    then obtain ys y where y: "?pre = ys @ [y]" by (metis append_butlast_last_id)
    then have "m = unat (item_max y) + 1" using m(1) tiles_append [of lo ys "[y]" m] by auto
    moreover have "item_max y < port" using before y by simp
    ultimately show ?thesis using m(2) by (simp add: word_le_nat_alt word_less_nat_alt)
  qed
  moreover have "port \<le> item_max ?x" using k(4) n by (simp add: nth_append)
  ultimately show ?thesis using b k(2) n(1,2) m by (intro exI [of _ ?pre] exI [of _ ?x] exI [of _ ?post]) (simp add: min_def)
qed

lemma item_split:
  assumes "item_min x < q" "q \<le> item_max x"
  shows "policy_summary_item_split x q = Done (x\<lparr>item_max := q - 1\<rparr>, x\<lparr>item_min := q\<rparr>)"
    and "unat (q - 1) + 1 = unat q"
proof -
  have "unat q \<noteq> 0" using assms(1) by (simp add: word_less_nat_alt)
  then have u: "unat (q - 1) = unat q - 1" by (intro unat_minus_one) (auto simp: unat_eq_0)
  then show "unat (q - 1) + 1 = unat q" using \<open>unat q \<noteq> 0\<close> by simp
  have "item_min x \<le> q - 1" using assms(1) u by (simp add: word_le_nat_alt word_less_nat_alt)
  then show "policy_summary_item_split x q = Done (x\<lparr>item_max := q - 1\<rparr>, x\<lparr>item_min := q\<rparr>)"
    using assms(2) by (simp add: policy_summary_item_split_def Let_def)
qed

lemma port_state_split:
  "q \<le> item_max x \<Longrightarrow> unat (q - 1) + 1 = unat q \<Longrightarrow>
    port_state (pre @ x\<lparr>item_max := q - 1\<rparr> # x\<lparr>item_min := q\<rparr> # post) p = port_state (pre @ x # post) p"
  by (induction pre) (auto simp: word_le_nat_alt)

lemma tiles_split:
  assumes "tiles lo pre (unat (item_min x))" "tiles (unat (item_max x) + 1) post hi" "item_min x < q" "q \<le> item_max x"
  shows "tiles lo (pre @ [x\<lparr>item_max := q - 1\<rparr>]) (unat q)" "tiles (unat q) (x\<lparr>item_min := q\<rparr> # post) hi"
  using assms item_split(2) [OF assms(3,4)] by (auto simp: tiles_append word_le_nat_alt word_less_nat_alt)

lemma split_first:
  assumes "tiles 1 s 65536" "lo \<noteq> 0"
  shows "\<exists>A R. and_then (seek_item s 0 lo)
      (\<lambda>i. if item_min (s ! i) \<noteq> lo then and_then (split_item_at s i lo) (\<lambda>s. Done (s, i + 1)) else Done (s, i)) =
      Done (A @ R, length A) \<and> tiles 1 A (unat lo) \<and> tiles (unat lo) R 65536 \<and> (\<forall>p. port_state (A @ R) p = port_state s p)"
proof -
  have b: "1 \<le> unat lo" "unat lo < 65536" using assms(2) unsigned_less [of lo, where ?'a = nat] by (simp_all add: Suc_le_eq unat_gt_0)
  from seek_in_part [OF assms(1) b, of "[]"] obtain pre x post where x: "s = pre @ x # post"
    "seek_item s 0 lo = Done (length pre)" "lo \<le> item_max x" "tiles 1 pre (unat (item_min x))" "item_min x \<le> lo"
    "tiles (unat (item_max x) + 1) post 65536" by auto
  show ?thesis
  proof (cases "item_min x = lo")
    case True
    then have "tiles 1 pre (unat lo)" "tiles (unat lo) (x # post) 65536" using x by (simp_all add: word_le_nat_alt)
    then show ?thesis using True x(1,2) by (intro exI [of _ pre] exI [of _ "x # post"]) simp
  next
    case False
    then have less: "item_min x < lo" using x(5) by simp
    let ?A = "pre @ [x\<lparr>item_max := lo - 1\<rparr>]" and ?R = "x\<lparr>item_min := lo\<rparr> # post"
    have "split_item_at s (length pre) lo = Done (?A @ ?R)"
      using item_split(1) [OF less x(3)] by (simp add: split_item_at_def x(1))
    moreover have "port_state (?A @ ?R) p = port_state s p" for p
      using port_state_split [OF x(3) item_split(2) [OF less x(3)]] by (simp add: x(1))
    ultimately show ?thesis using tiles_split [OF x(4,6) less x(3)] x(2) False
      by (intro exI [of _ ?A] exI [of _ ?R]) (simp add: x(1))
  qed
qed

lemma split_second:
  assumes "tiles (unat lo) R 65536" "lo \<le> hi"
  shows "\<exists>B C. and_then (seek_item (A @ R) (length A) hi)
      (\<lambda>i. if item_max ((A @ R) ! i) \<noteq> hi then split_item_at (A @ R) i (hi + 1) else Done (A @ R)) = Done (A @ B @ C) \<and>
      tiles (unat lo) B (unat hi + 1) \<and> tiles (unat hi + 1) C 65536 \<and> (\<forall>p. port_state (A @ B @ C) p = port_state (A @ R) p)"
proof -
  have b: "unat lo \<le> unat hi" "unat hi < 65536" using assms(2) unsigned_less [of hi, where ?'a = nat] by (simp_all add: word_le_nat_alt)
  from seek_in_part [OF assms(1) b, of A] obtain pre x post where x: "R = pre @ x # post"
    "seek_item (A @ R) (length A) hi = Done (length A + length pre)" "hi \<le> item_max x" "tiles (unat lo) pre (unat (item_min x))"
    "item_min x \<le> hi" "tiles (unat (item_max x) + 1) post 65536" by auto
  show ?thesis
  proof (cases "item_max x = hi")
    case True
    then have "tiles (unat lo) (pre @ [x]) (unat hi + 1)" "tiles (unat hi + 1) post 65536"
      using x by (auto simp: tiles_append word_le_nat_alt)
    then show ?thesis using True x(1,2) by (intro exI [of _ "pre @ [x]"] exI [of _ post]) (simp add: nth_append)
  next
    case False
    then have less: "hi < item_max x" using x(3) by simp
    then have "unat hi + unat (1 :: u16) < 2 ^ LENGTH(16)"
      using unsigned_less [of "item_max x", where ?'a = nat] by (simp add: word_less_nat_alt)
    then have u: "unat (hi + 1) = unat hi + 1" using unat_add_exact [of hi 1] by simp
    have q: "item_min x < hi + 1" "hi + 1 \<le> item_max x" using less x(5) u by (simp_all add: word_less_nat_alt word_le_nat_alt)
    let ?B = "pre @ [x\<lparr>item_max := hi + 1 - 1\<rparr>]" and ?C = "x\<lparr>item_min := hi + 1\<rparr> # post"
    have "split_item_at (A @ R) (length A + length pre) (hi + 1) = Done (A @ ?B @ ?C)"
      using item_split(1) [OF q] by (simp add: split_item_at_def x(1) nth_append)
    moreover have "port_state (A @ ?B @ ?C) p = port_state (A @ R) p" for p
      using port_state_split [OF q(2) item_split(2) [OF q], of "A @ pre"] by (simp add: x(1))
    ultimately show ?thesis using tiles_split [OF x(4,6) q] x(2) False u
      by (intro exI [of _ ?B] exI [of _ ?C]) (simp add: x(1) nth_append)
  qed
qed

lemma summary_split:
  assumes "tiles 1 s 65536" "lo \<noteq> 0" "lo \<le> hi"
  shows "\<exists>A B C. policy_summary_split s lo hi = Done (A @ B @ C, length A) \<and> tiles 1 A (unat lo) \<and>
    tiles (unat lo) B (unat hi + 1) \<and> tiles (unat hi + 1) C 65536 \<and> (\<forall>p. port_state (A @ B @ C) p = port_state s p)"
proof -
  from split_first [OF assms(1,2)] obtain A R where f: "and_then (seek_item s 0 lo)
      (\<lambda>i. if item_min (s ! i) \<noteq> lo then and_then (split_item_at s i lo) (\<lambda>s. Done (s, i + 1)) else Done (s, i)) =
      Done (A @ R, length A)" "tiles 1 A (unat lo)" "tiles (unat lo) R 65536" "\<forall>p. port_state (A @ R) p = port_state s p" by blast
  from split_second [OF f(3) assms(3), of A] obtain B C where g: "and_then (seek_item (A @ R) (length A) hi)
      (\<lambda>i. if item_max ((A @ R) ! i) \<noteq> hi then split_item_at (A @ R) i (hi + 1) else Done (A @ R)) = Done (A @ B @ C)"
      "tiles (unat lo) B (unat hi + 1)" "tiles (unat hi + 1) C 65536" "\<forall>p. port_state (A @ B @ C) p = port_state (A @ R) p" by blast
  have assoc: "and_then (and_then r h) k = and_then r (\<lambda>i. and_then (h i) k)" for r :: "nat outcome" and h :: "nat \<Rightarrow> 'b outcome" and k :: "'b \<Rightarrow> 'c outcome"
    by (cases r) simp_all
  have "policy_summary_split s lo hi = and_then (and_then (seek_item s 0 lo)
      (\<lambda>i. if item_min (s ! i) \<noteq> lo then and_then (split_item_at s i lo) (\<lambda>s. Done (s, i + 1)) else Done (s, i)))
      (\<lambda>(s, i). and_then (and_then (seek_item s i hi) (\<lambda>j. if item_max (s ! j) \<noteq> hi then split_item_at s j (hi + 1) else Done s)) (\<lambda>s. Done (s, i)))"
    unfolding policy_summary_split_def assoc ..
  then have "policy_summary_split s lo hi = Done (A @ B @ C, length A)" unfolding f(1) by (simp only: and_then_simps prod.case g(1))
  then show ?thesis using f(2,4) g(2-4) by (intro exI [of _ A] exI [of _ B] exI [of _ C]) simp
qed

subsection \<open>One rule\<close>

lemma update_items_part:
  assumes "tiles 1 A (unat lo)" "tiles (unat lo) B (unat hi + 1)" "tiles (unat hi + 1) C 65536"
  shows "update_items f (A @ B @ C) (length A) hi = Done (A @ map f B @ C)"
proof -
  have B: "\<forall>x \<in> set B. item_max x \<le> hi" using tiles_items [OF assms(2)] by (auto simp: word_le_nat_alt less_Suc_eq_le)
  have C: "C = [] \<or> \<not> item_max (hd C) \<le> hi" using assms(3) by (cases C) (auto simp: word_le_nat_alt)
  have "takeWhile (\<lambda>x. item_max x \<le> hi) (B @ C) = B" "dropWhile (\<lambda>x. item_max x \<le> hi) (B @ C) = C"
    using B C by (auto simp: takeWhile_append dropWhile_append takeWhile_eq_Nil_iff dropWhile_eq_self_iff)
  moreover have "C = [] \<Longrightarrow> hi = 65535"
  proof -
    assume "C = []"
    then have "unat hi = unat (65535 :: u16)" using assms(3) by simp
    then show "hi = 65535" by (simp only: unat_inj_iff)
  qed
  ultimately show ?thesis by (auto simp: update_items_def Let_def)
qed

text \<open>What a change of the items of a range does to the ports.\<close>

lemma update_ports:
  assumes "tiles 1 A (unat lo)" "tiles (unat lo) B (unat hi + 1)" "tiles (unat hi + 1) C 65536" "1 \<le> p" "p < 65536" "lo \<le> hi"
    and f: "\<forall>x. item_max (f x) = item_max x \<and> item_min (f x) = item_min x"
      "\<forall>x. (reject_count (f x), accepted (f x)) = g (reject_count x, accepted x)"
  shows "port_state (A @ map f B @ C) p =
    (if unat lo \<le> p \<and> p \<le> unat hi then g (port_state (A @ B @ C) p) else port_state (A @ B @ C) p)"
proof -
  have fB: "tiles (unat lo) (map f B) (unat hi + 1)" using assms(2) tiles_map [OF f(1)] by simp
  have le: "1 \<le> unat lo" "unat lo \<le> unat hi + 1" using tiles_le assms(1,2) by blast+
  consider "p < unat lo" | "unat lo \<le> p" "p \<le> unat hi" | "unat hi < p" by linarith
  then show ?thesis
  proof cases
    case 1
    then show ?thesis using port_state_below [OF assms(1,4)] by simp
  next
    case 2
    have "port_state (map f B) p = g (port_state B p)" using 2 f by (intro port_state_map [OF _ _ assms(2)]) auto
    then show ?thesis
      using 2 le port_state_above [OF assms(1) _ 2(1)] port_state_below [OF assms(2) 2(1)] port_state_below [OF fB 2(1)] by simp
  next
    case 3
    then have "\<not> (unat lo \<le> p \<and> p \<le> unat hi)" "unat lo \<le> p" "unat hi + 1 \<le> p" using le by simp_all
    then show ?thesis
      using le port_state_above [OF assms(1), of p] port_state_above [OF assms(2), of p] port_state_above [OF fB, of p] by simp
  qed
qed

lemma update_tiles:
  assumes "tiles 1 A (unat lo)" "tiles (unat lo) B (unat hi + 1)" "tiles (unat hi + 1) C 65536"
    and f: "\<forall>x. item_max (f x) = item_max x \<and> item_min (f x) = item_min x"
  shows "tiles 1 (A @ map f B @ C) 65536"
proof -
  have "tiles (unat lo) (map f B) (unat hi + 1)" using assms(2) tiles_map [OF f(1)] by simp
  then show ?thesis using assms(1,3) by (auto simp: tiles_append)
qed

text \<open>The effect of a rule on the count and the mark of a port in its range.\<close>

definition accept_step :: "u64 \<Rightarrow> u64 \<times> bool \<Rightarrow> u64 \<times> bool" where
  "accept_step cutoff s = (fst s, snd s \<or> fst s \<le> cutoff)"

definition reject_step :: "u64 \<Rightarrow> u64 \<times> bool \<Rightarrow> u64 \<times> bool" where
  "reject_step n s = (of_nat (min (unat (fst s) + unat n) (2 ^ 64 - 1)), snd s)"

definition reject_cutoff :: "sa_family_t \<Rightarrow> u64" where
  "reject_cutoff family = (if family = AF_INET then REJECT_CUTOFF_COUNT_IPV4 else REJECT_CUTOFF_COUNT_IPV6)"

definition in_private_nets :: "addr_policy_t \<Rightarrow> bool" where
  "in_private_nets p \<longleftrightarrow> rule_is_private_net p private_nets = Done True"

definition port_step :: "nat \<Rightarrow> addr_policy_t \<Rightarrow> u64 \<times> bool \<Rightarrow> u64 \<times> bool" where
  "port_step port p s =
     (if unat (prt_min p) \<le> port \<and> port \<le> unat (prt_max p)
      then case policy_type p of
             ADDR_POLICY_ACCEPT \<Rightarrow> if maskbits p = 0 then accept_step (reject_cutoff (tor_addr_family (pol_addr p))) s else s
           | ADDR_POLICY_REJECT \<Rightarrow>
               if in_private_nets p then s
               else (case rejected_addresses (maskbits p) (tor_addr_family (pol_addr p)) of None \<Rightarrow> s | Some n \<Rightarrow> reject_step n s)
      else s)"

text \<open>The state of a port after all rules of the family.\<close>

definition port_summary :: "addr_policy_t list \<Rightarrow> sa_family_t \<Rightarrow> nat \<Rightarrow> u64 \<times> bool" where
  "port_summary policy family port =
     foldl (\<lambda>s p. port_step port p s) (0, False) (filter (\<lambda>p. tor_addr_family (pol_addr p) = family) policy)"

lemma accept_item_step: "(reject_count (accept_item c x), accepted (accept_item c x)) = accept_step c (reject_count x, accepted x)"
  by (auto simp: accept_item_def accept_step_def)

lemma reject_item_step: "(reject_count (reject_item n x), accepted (reject_item n x)) = reject_step n (reject_count x, accepted x)"
proof -
  have s: "unat (UINT64_MAX - n) = 2 ^ 64 - 1 - unat n"
    using unat_sub_exact [of n UINT64_MAX] unat_u64_less [of n] by simp
  show ?thesis
  proof (cases "reject_count x \<le> UINT64_MAX - n")
    case True
    then have "unat (reject_count x) + unat n \<le> 2 ^ 64 - 1" using s unat_u64_less [of n] by (simp add: word_le_nat_alt)
    then have "of_nat (min (unat (reject_count x) + unat n) (2 ^ 64 - 1)) = reject_count x + n" by (simp add: min_def)
    then show ?thesis using True by (simp add: reject_item_def reject_step_def)
  next
    case False
    then have "\<not> unat (reject_count x) + unat n \<le> 2 ^ 64 - 1" using s unat_u64_less [of n] by (simp add: word_le_nat_alt)
    then have "min (unat (reject_count x) + unat n) (2 ^ 64 - 1) = 2 ^ 64 - 1" by (simp only: min_def if_False if_True)
    then have "of_nat (min (unat (reject_count x) + unat n) (2 ^ 64 - 1)) = UINT64_MAX" by simp
    then show ?thesis using False by (simp add: reject_item_def reject_step_def)
  qed
qed

lemma accept_item_ends: "item_max (accept_item c x) = item_max x \<and> item_min (accept_item c x) = item_min x"
  and reject_item_ends: "item_max (reject_item n x) = item_max x \<and> item_min (reject_item n x) = item_min x"
  by (simp_all add: accept_item_def reject_item_def)


lemma add_item_ports:
  assumes "tiles 1 s 65536" "prt_min p \<noteq> 0" "prt_min p \<le> prt_max p"
  shows "\<exists>s'. policy_summary_add_item s p = Done s' \<and> tiles 1 s' 65536 \<and>
    (\<forall>port. 1 \<le> port \<and> port < 65536 \<longrightarrow> port_state s' port = port_step port p (port_state s port))"
proof -
  let ?lo = "prt_min p" and ?hi = "prt_max p" and ?fam = "tor_addr_family (pol_addr p)"
  from summary_split [OF assms] obtain A B C where sp: "policy_summary_split s ?lo ?hi = Done (A @ B @ C, length A)"
    "tiles 1 A (unat ?lo)" "tiles (unat ?lo) B (unat ?hi + 1)" "tiles (unat ?hi + 1) C 65536"
    "\<forall>q. port_state (A @ B @ C) q = port_state s q" by blast
  have same: "tiles 1 (A @ B @ C) 65536" using sp(2-4) by (auto simp: tiles_append)
  have upd: "\<exists>s'. update_items f (A @ B @ C) (length A) ?hi = Done s' \<and> tiles 1 s' 65536 \<and>
      (\<forall>port. 1 \<le> port \<and> port < 65536 \<longrightarrow> port_state s' port =
         (if unat ?lo \<le> port \<and> port \<le> unat ?hi then g (port_state s port) else port_state s port))"
    if f: "\<forall>x. item_max (f x) = item_max x \<and> item_min (f x) = item_min x"
      "\<forall>x. (reject_count (f x), accepted (f x)) = g (reject_count x, accepted x)" for f g
    using update_items_part [OF sp(2-4)] update_tiles [OF sp(2-4) f(1)] update_ports [OF sp(2-4) _ _ assms(3) f] sp(5) by simp
  show ?thesis
  proof (cases "policy_type p")
    case ADDR_POLICY_ACCEPT
    show ?thesis
    proof (cases "maskbits p = 0")
      case True
      have "policy_summary_add_item s p = update_items (accept_item (reject_cutoff ?fam)) (A @ B @ C) (length A) ?hi"
        using ADDR_POLICY_ACCEPT True by (simp add: policy_summary_add_item_def policy_summary_accept_def sp(1) reject_cutoff_def)
      moreover have "port_step port p st = (if unat ?lo \<le> port \<and> port \<le> unat ?hi then accept_step (reject_cutoff ?fam) st else st)" for port st
        using ADDR_POLICY_ACCEPT True by (simp add: port_step_def)
      ultimately show ?thesis using upd [of "accept_item (reject_cutoff ?fam)" "accept_step (reject_cutoff ?fam)"] accept_item_step accept_item_ends
        by (simp only: simp_thms)
    next
      case False
      then show ?thesis using ADDR_POLICY_ACCEPT assms(1) by (simp add: policy_summary_add_item_def port_step_def)
    qed
  next
    case ADDR_POLICY_REJECT
    obtain b where b: "rule_is_private_net p private_nets = Done b" using private_nets_parse [of p] by (cases "rule_is_private_net p private_nets") auto
    show ?thesis
    proof (cases b)
      case True
      then show ?thesis using ADDR_POLICY_REJECT b assms(1) by (simp add: policy_summary_add_item_def port_step_def in_private_nets_def)
    next
      case nb: False
      have e: "policy_summary_add_item s p = (case rejected_addresses (maskbits p) ?fam of None \<Rightarrow> Done (A @ B @ C)
          | Some n \<Rightarrow> update_items (reject_item n) (A @ B @ C) (length A) ?hi)"
        using ADDR_POLICY_REJECT b nb by (simp add: policy_summary_add_item_def policy_summary_reject_def sp(1))
      show ?thesis
      proof (cases "rejected_addresses (maskbits p) ?fam")
        case None
        then show ?thesis using e same sp(5) ADDR_POLICY_REJECT b nb by (simp add: port_step_def)
      next
        case (Some n)
        then have "policy_summary_add_item s p = update_items (reject_item n) (A @ B @ C) (length A) ?hi" using e by simp
        moreover have "port_step port p st = (if unat ?lo \<le> port \<and> port \<le> unat ?hi then reject_step n st else st)" for port st
          using ADDR_POLICY_REJECT b nb Some by (simp add: port_step_def in_private_nets_def)
        ultimately show ?thesis using upd [of "reject_item n" "reject_step n"] reject_item_step reject_item_ends
          by (simp only: simp_thms)
      qed
    qed
  qed
qed

lemma rules_ports:
  assumes "\<forall>p \<in> set policy. tor_addr_family (pol_addr p) = family \<longrightarrow> prt_min p \<noteq> 0 \<and> prt_min p \<le> prt_max p"
  shows "tiles 1 s 65536 \<Longrightarrow> \<exists>s'. summary_of_rules policy family s = Done s' \<and> tiles 1 s' 65536 \<and>
    (\<forall>port. 1 \<le> port \<and> port < 65536 \<longrightarrow> port_state s' port =
       foldl (\<lambda>s p. port_step port p s) (port_state s port) (filter (\<lambda>p. tor_addr_family (pol_addr p) = family) policy))"
  using assms
proof (induction policy arbitrary: s)
  case (Cons p policy)
  show ?case
  proof (cases "tor_addr_family (pol_addr p) = family")
    case True
    from add_item_ports [OF Cons.prems(1), of p] obtain s1 where s1: "policy_summary_add_item s p = Done s1" "tiles 1 s1 65536"
      "\<forall>port. 1 \<le> port \<and> port < 65536 \<longrightarrow> port_state s1 port = port_step port p (port_state s port)" using True Cons.prems(2) by auto
    then show ?thesis using Cons.IH [OF s1(2)] Cons.prems(2) True by simp
  next
    case False
    then show ?thesis using Cons by simp
  qed
qed simp

lemma create_tiles: "tiles 1 policy_summary_create 65536"
  by (simp add: policy_summary_create_def)

lemma summary_ports:
  assumes "\<forall>p \<in> set policy. tor_addr_family (pol_addr p) = family \<longrightarrow> prt_min p \<noteq> 0 \<and> prt_min p \<le> prt_max p"
  shows "\<exists>s. summary_of_rules policy family policy_summary_create = Done s \<and> tiles 1 s 65536 \<and>
    (\<forall>port. 1 \<le> port \<and> port < 65536 \<longrightarrow> port_state s port = port_summary policy family port)"
proof -
  have "port_state policy_summary_create port = (0, False)" for port by (simp add: policy_summary_create_def)
  then show ?thesis using rules_ports [OF assms create_tiles] by (simp add: port_summary_def)
qed

subsection \<open>A rule for port 0 only\<close>

lemma split_port_zero:
  assumes "tiles 1 s 65536"
  shows "policy_summary_split s 1 0 = Assertion_failed"
proof -
  obtain x xs where x: "s = x # xs" "item_min x = 1" "item_max x \<noteq> 0"
  proof (cases s)
    case (Cons x xs)
    have "unat (item_min x) = unat (1 :: u16)" "unat (item_max x) \<noteq> 0" using assms Cons by auto
    then have "item_min x = 1" "item_max x \<noteq> 0" by (simp_all only: unat_inj_iff unat_eq_0 not_False_eq_True)
    then show ?thesis using Cons that by blast
  qed (use assms in simp)
  have "\<not> item_max x < 1" using x(3) by (simp add: word_less_1)
  moreover have "\<not> item_max x < (0 :: u16)" by simp
  ultimately have "seek_item s 0 1 = Done 0" "seek_item s 0 0 = Done 0" using x(1) by (subst seek_item.simps; simp)+
  then show ?thesis using x
    by (simp add: policy_summary_split_def split_item_at_def policy_summary_item_split_def)
qed

section \<open>The text of a summary\<close>

lemma entry_text_piece: "short_entry_text \<lparr>min_port = lo, max_port = hi\<rparr> = range_piece lo hi"
  by (simp add: short_entry_text_def range_piece_def)

text \<open>The entries \<open>ea\<close> and \<open>er\<close> describe the accepted and the rejected ports from \<open>start\<close> on, as
  \<open>st\<close> has them.\<close>

definition describe :: "short_policy_entry_t list \<Rightarrow> short_policy_entry_t list \<Rightarrow> nat \<Rightarrow> (nat \<Rightarrow> bool) \<Rightarrow> bool" where
  "describe ea er start st \<longleftrightarrow>
     (\<forall>e \<in> set (ea @ er). entry_ok e \<and> start \<le> unat (min_port e)) \<and>
     (\<forall>p. start \<le> p \<and> p < 65536 \<longrightarrow> ((\<exists>e \<in> set ea. in_entry e p) \<longleftrightarrow> st p) \<and> ((\<exists>e \<in> set er. in_entry e p) \<longleftrightarrow> \<not> st p))"

lemma describe_Cons:
  assumes "describe ea er (unat hi + 1) st" "lo \<noteq> 0" "lo \<le> hi" "\<forall>p. unat lo \<le> p \<and> p \<le> unat hi \<longrightarrow> st p = b"
  shows "describe (if b then \<lparr>min_port = lo, max_port = hi\<rparr> # ea else ea) (if b then er else \<lparr>min_port = lo, max_port = hi\<rparr> # er) (unat lo) st"
proof -
  have le: "unat lo \<le> unat hi" using assms(3) by (simp add: word_le_nat_alt)
  have later: "\<not> in_entry e p" if "e \<in> set (ea @ er)" "p \<le> unat hi" for e p
    using assms(1) that by (force simp: describe_def)
  have up: "((\<exists>e \<in> set ea. in_entry e p) \<longleftrightarrow> st p) \<and> ((\<exists>e \<in> set er. in_entry e p) \<longleftrightarrow> \<not> st p)" if "unat hi < p" "p < 65536" for p
    using assms(1) that by (simp add: describe_def)
  let ?e = "\<lparr>min_port = lo, max_port = hi\<rparr>"
  have ok: "\<forall>e \<in> set (?e # ea @ er). entry_ok e \<and> unat lo \<le> unat (min_port e)"
    using assms(1-3) le by (force simp: describe_def entry_ok_def)
  have "((\<exists>e \<in> set (if b then ?e # ea else ea). in_entry e p) \<longleftrightarrow> st p) \<and> ((\<exists>e \<in> set (if b then er else ?e # er). in_entry e p) \<longleftrightarrow> \<not> st p)"
    if p: "unat lo \<le> p" "p < 65536" for p
  proof (cases "p \<le> unat hi")
    case True
    then show ?thesis using later [OF _ True] assms(4) p by (cases b) auto
  next
    case False
    then show ?thesis using up [of p] p by (cases b) auto
  qed
  then show ?thesis unfolding describe_def using ok by (cases b) auto
qed

lemma summary_strings_describe:
  "tiles lo s 65536 \<Longrightarrow> s \<noteq> [] \<Longrightarrow> start \<noteq> 0 \<Longrightarrow> unat start \<le> lo \<Longrightarrow>
    \<exists>ea er. summary_strings s start acc rej = (acc @ map short_entry_text ea, rej @ map short_entry_text er) \<and>
      describe ea er (unat start) (\<lambda>p. if p < lo then accepted (hd s) else snd (port_state s p))"
proof (induction s arbitrary: lo start acc rej)
  case (Cons x xs)
  define hi where "hi = item_max x"
  have x: "unat (item_min x) = lo" "lo \<le> unat hi" "tiles (unat hi + 1) xs 65536" using Cons.prems(1) by (simp_all add: hi_def)
  have sh: "start \<le> hi" using x Cons.prems(4) by (simp add: word_le_nat_alt)
  let ?st = "\<lambda>p. if p < lo then accepted (hd (x # xs)) else snd (port_state (x # xs) p)"
  have st: "\<forall>p. unat start \<le> p \<and> p \<le> unat hi \<longrightarrow> ?st p = accepted x" by (simp add: hi_def)
  let ?e = "\<lparr>min_port = start, max_port = hi\<rparr>"
  show ?case
  proof (cases "xs = []")
    case True
    have "describe [] [] (unat hi + 1) ?st" using x(3) True by (auto simp: describe_def)
    then have d: "describe (if accepted x then [?e] else []) (if accepted x then [] else [?e]) (unat start) ?st"
      using describe_Cons [OF _ Cons.prems(3) sh st] by simp
    then show ?thesis using True
      by (intro exI [of _ "if accepted x then [?e] else []"] exI [of _ "if accepted x then [] else [?e]"])
         (simp add: Let_def entry_text_piece hi_def [symmetric])
  next
    case False
    then obtain y ys where y: "xs = y # ys" by (cases xs) auto
    have miny: "unat (item_min y) = unat hi + 1" using x(3) y by simp
    show ?thesis
    proof (cases "accepted x = accepted y")
      case True
      have e: "summary_strings (x # xs) start acc rej = summary_strings xs start acc rej" using True y by simp
      have s': "unat start \<le> unat hi + 1" using sh by (simp add: word_le_nat_alt)
      from Cons.IH [OF x(3) False Cons.prems(3) s', of acc rej] obtain ea er where h:
        "summary_strings xs start acc rej = (acc @ map short_entry_text ea, rej @ map short_entry_text er)"
        "describe ea er (unat start) (\<lambda>p. if p < unat hi + 1 then accepted (hd xs) else snd (port_state xs p))" by blast
      have eq: "(\<lambda>p. if p < unat hi + 1 then accepted (hd xs) else snd (port_state xs p)) = ?st"
        using True y x(2) by (auto simp: fun_eq_iff hi_def [symmetric])
      show ?thesis unfolding e using h(1) h(2) [unfolded eq] by blast
    next
      case nacc: False
      let ?acc = "if accepted x then acc @ [short_entry_text ?e] else acc" and ?rej = "if accepted x then rej else rej @ [short_entry_text ?e]"
      have e: "summary_strings (x # xs) start acc rej = summary_strings xs (item_min y) ?acc ?rej"
        using nacc y by (auto simp: Let_def entry_text_piece hi_def [symmetric])
      have m0: "item_min y \<noteq> 0" using miny by auto
      from Cons.IH [OF x(3) False m0, of ?acc ?rej] miny obtain ea er where h:
        "summary_strings xs (item_min y) ?acc ?rej = (?acc @ map short_entry_text ea, ?rej @ map short_entry_text er)"
        "describe ea er (unat hi + 1) (\<lambda>p. if p < unat hi + 1 then accepted (hd xs) else snd (port_state xs p))" by auto
      have "describe ea er (unat hi + 1) ?st"
        using h(2) x(2) by (auto simp: describe_def hi_def [symmetric])
      from describe_Cons [OF this Cons.prems(3) sh st]
      have d: "describe (if accepted x then ?e # ea else ea) (if accepted x then er else ?e # er) (unat start) ?st" .
      show ?thesis unfolding e h(1)
        using d by (intro exI [of _ "if accepted x then ?e # ea else ea"] exI [of _ "if accepted x then er else ?e # er"]) simp
    qed
  qed
qed simp

subsection \<open>Cutting a long list at a comma\<close>

lemma back_to_comma_finds:
  "s ! c = CHR '','' \<Longrightarrow> c \<le> n \<Longrightarrow> \<forall>j. c < j \<and> j \<le> n \<longrightarrow> s ! j \<noteq> CHR '','' \<Longrightarrow> back_to_comma s n = Done c"
proof (induction n)
  case (Suc n)
  then show ?case by (cases "c = Suc n") auto
qed simp

lemma comma_in_join:
  "\<forall>x \<in> set xs. x \<noteq> [] \<and> length x \<le> 11 \<and> CHR '','' \<notin> set x \<Longrightarrow> n < length (join_with '','' xs) \<Longrightarrow>
    n < 11 \<and> (\<forall>j \<le> n. join_with '','' xs ! j \<noteq> CHR '','') \<or>
    (\<exists>c k. join_with '','' xs ! c = CHR '','' \<and> c \<le> n \<and> n \<le> c + 11 \<and> (\<forall>j. c < j \<and> j \<le> n \<longrightarrow> join_with '','' xs ! j \<noteq> CHR '','') \<and>
       0 < k \<and> k < length xs \<and> take c (join_with '','' xs) = join_with '','' (take k xs))"
proof (induction xs arbitrary: n)
  case (Cons x xs)
  let ?s = "join_with '','' (x # xs)"
  have x: "x \<noteq> []" "length x \<le> 11" "CHR '','' \<notin> set x" using Cons.prems(1) by simp_all
  have inx: "?s ! j \<noteq> CHR '',''" if "j < length x" for j
  proof -
    have "x ! j \<noteq> CHR '',''" using x(3) that by (metis nth_mem)
    then show ?thesis using that by (simp add: join_with_step nth_append)
  qed
  show ?case
  proof (cases "n < length x")
    case True
    then show ?thesis using inx x(2) by auto
  next
    case False
    then have ne: "xs \<noteq> []" using Cons.prems(2) by (auto simp: join_with_step)
    then have s: "?s = x @ CHR '','' # join_with '','' xs" by (simp add: join_with_step)
    have at: "?s ! length x = CHR '',''" by (simp add: s)
    have after: "?s ! (length x + 1 + j) = join_with '','' xs ! j" for j by (simp add: s nth_append)
    show ?thesis
    proof (cases "n = length x")
      case True
      have "take (length x) ?s = join_with '','' (take 1 (x # xs))" by (simp add: s)
      then show ?thesis using at True ne by (intro disjI2 exI [of _ "length x"] exI [of _ 1]) auto
    next
      case n: False
      define m where "m = n - (length x + 1)"
      have nm: "n = length x + 1 + m" using n False by (simp add: m_def)
      have ml: "m < length (join_with '','' xs)" using Cons.prems(2) by (simp add: s nm)
      from Cons.IH [OF _ ml] Cons.prems(1) consider
        "m < 11" "\<forall>j \<le> m. join_with '','' xs ! j \<noteq> CHR '',''"
        | c k where "join_with '','' xs ! c = CHR '',''" "c \<le> m" "m \<le> c + 11" "\<forall>j. c < j \<and> j \<le> m \<longrightarrow> join_with '','' xs ! j \<noteq> CHR '',''"
          "0 < k" "k < length xs" "take c (join_with '','' xs) = join_with '','' (take k xs)" by auto
      then show ?thesis
      proof cases
        case 1
        have "?s ! j \<noteq> CHR '',''" if "length x < j" "j \<le> n" for j
          using after [of "j - (length x + 1)"] 1(2) that nm by (simp add: le_diff_conv)
        moreover have "take (length x) ?s = join_with '','' (take 1 (x # xs))" by (simp add: s)
        ultimately show ?thesis using at 1(1) nm ne by (intro disjI2 exI [of _ "length x"] exI [of _ 1]) auto
      next
        case (2 c k)
        have "?s ! j \<noteq> CHR '',''" if "length x + 1 + c < j" "j \<le> n" for j
          using after [of "j - (length x + 1)"] 2(4) that nm by (simp add: le_diff_conv less_diff_conv)
        moreover have "take (length x + 1 + c) ?s = join_with '','' (take (Suc k) (x # xs))"
          using 2(5-7) ne by (simp add: s join_with_step)
        ultimately show ?thesis using after [of c] 2 nm
          by (intro disjI2 exI [of _ "length x + 1 + c"] exI [of _ "Suc k"]) auto
      qed
    qed
  qed
qed simp

lemma join_length: "\<forall>x \<in> set xs. x \<noteq> [] \<Longrightarrow> 2 * length xs \<le> length (join_with '','' xs) + 1"
proof (induction xs)
  case (Cons x xs)
  then have "1 \<le> length x" by (simp add: Suc_le_eq)
  then show ?case using Cons by (auto simp: join_with_step)
qed simp

section \<open>Summaries in words\<close>

definition short_accepts :: "short_policy_t \<Rightarrow> nat \<Rightarrow> bool" where
  "short_accepts sp port \<longleftrightarrow> ((\<exists>e \<in> set (entries sp). in_entry e port) = is_accept sp)"

lemma short_decides:
  assumes "port \<noteq> 0"
  shows "compare_tor_addr_to_short_policy None port sp r =
    Done (if short_accepts sp (unat port) then ADDR_POLICY_PROBABLY_ACCEPTED else ADDR_POLICY_REJECTED)"
proof -
  have "list_ex (\<lambda>e. min_port e \<le> port \<and> port \<le> max_port e) (entries sp) \<longleftrightarrow> (\<exists>e \<in> set (entries sp). in_entry e (unat port))"
    by (simp add: list_ex_iff word_le_nat_alt)
  then show ?thesis using assms by (simp add: compare_tor_addr_to_short_policy_def short_accepts_def Let_def)
qed

lemma all_ports_entry: "join_with '','' (map short_entry_text [\<lparr>min_port = 1, max_port = 65535\<rparr>]) = ''1-65535''"
proof -
  have "dec_digits 1 = ''1''" by code_simp
  moreover have "dec_digits 65535 = ''65535''" by (simp add: dec_digits.simps) code_simp
  ultimately show ?thesis by (simp add: short_entry_text_def)
qed

lemma parse_all_ports:
  "parse_short_policy ''reject 1-65535'' = Some \<lparr>is_accept = False, entries = [\<lparr>min_port = 1, max_port = 65535\<rparr>]\<rparr>"
  "parse_short_policy ''accept 1-65535'' = Some \<lparr>is_accept = True, entries = [\<lparr>min_port = 1, max_port = 65535\<rparr>]\<rparr>"
  using parse_short_join [of "[\<lparr>min_port = 1, max_port = 65535\<rparr>]" False] parse_short_join [of "[\<lparr>min_port = 1, max_port = 65535\<rparr>]" True]
  unfolding all_ports_entry by (simp_all add: entry_ok_def)

lemma entry_texts:
  assumes "\<forall>e \<in> set es. entry_ok e"
  shows "\<forall>x \<in> set (map short_entry_text es). x \<noteq> [] \<and> length x \<le> 11 \<and> CHR '','' \<notin> set x"
proof -
  have d: "length (dec_digits (unat w)) \<le> 5" for w :: u16
    using length_dec_digits [of "unat w" 4] unsigned_less [of w, where ?'a = nat] by simp
  have l: "length (short_entry_text e) \<le> 11" for e
    using d [of "min_port e"] d [of "max_port e"] by (cases "min_port e = max_port e") (simp_all add: short_entry_text_def)
  have c: "CHR '','' \<notin> set (short_entry_text e)" for e
    using dec_digits_all [of "unat (min_port e)"] dec_digits_all [of "unat (max_port e)"]
    by (auto simp: short_entry_text_def is_digit_of_def digit_val_def split: if_splits)
  have "short_entry_text e \<noteq> []" for e by (simp add: short_entry_text_def)
  then show ?thesis using l c by simp
qed

lemma describe_subset: "describe ea er 1 st \<Longrightarrow> 1 \<le> p \<Longrightarrow> p < 65536 \<Longrightarrow> e \<in> set ea \<Longrightarrow> in_entry e p \<Longrightarrow> st p"
  by (auto simp: describe_def)

lemma summary_text_ok:
  assumes "describe ea er 1 st"
  shows "\<exists>t sp. summary_text (map short_entry_text ea) (map short_entry_text er) = Done t \<and> length t \<le> 1000 \<and> parse_short_policy t = Some sp \<and>
    (\<forall>p. 1 \<le> p \<and> p < 65536 \<longrightarrow> (short_accepts sp p \<longrightarrow> st p) \<and> (length t < 989 \<longrightarrow> (short_accepts sp p \<longleftrightarrow> st p)))"
proof -
  have ok: "\<forall>e \<in> set ea. entry_ok e" "\<forall>e \<in> set er. entry_ok e" using assms by (auto simp: describe_def)
  note ta = entry_texts [OF ok(1)] and tr = entry_texts [OF ok(2)]
  let ?a = "join_with '','' (map short_entry_text ea)" and ?r = "join_with '','' (map short_entry_text er)"
  have exact: "\<forall>p. 1 \<le> p \<and> p < 65536 \<longrightarrow> short_accepts \<lparr>is_accept = True, entries = ea\<rparr> p \<longleftrightarrow> st p"
    "\<forall>p. 1 \<le> p \<and> p < 65536 \<longrightarrow> short_accepts \<lparr>is_accept = False, entries = er\<rparr> p \<longleftrightarrow> st p"
    using assms by (auto simp: describe_def short_accepts_def)
  consider "ea = []" | "ea \<noteq> []" "er = []" | "ea \<noteq> []" "er \<noteq> []" "length ?r > 993" "length ?a > 993"
    | "ea \<noteq> []" "er \<noteq> []" "\<not> (length ?r > 993 \<and> length ?a > 993)" by blast
  then show ?thesis
  proof cases
    case 1
    then have "\<not> st p" if "1 \<le> p" "p < 65536" for p using assms that by (auto simp: describe_def)
    then show ?thesis using 1
      by (intro exI [of _ "''reject 1-65535''"] exI [of _ "\<lparr>is_accept = False, entries = [\<lparr>min_port = 1, max_port = 65535\<rparr>]\<rparr>"])
         (simp add: summary_text_def parse_all_ports short_accepts_def)
  next
    case 2
    then have "st p" if "1 \<le> p" "p < 65536" for p using assms that by (auto simp: describe_def)
    then show ?thesis using 2
      by (intro exI [of _ "''accept 1-65535''"] exI [of _ "\<lparr>is_accept = True, entries = [\<lparr>min_port = 1, max_port = 65535\<rparr>]\<rparr>"])
         (simp add: summary_text_def parse_all_ports short_accepts_def)
  next
    case 3
    from comma_in_join [OF ta, of 993] 3(4) obtain c k where c: "?a ! c = CHR '',''" "c \<le> 993" "993 \<le> c + 11"
      "\<forall>j. c < j \<and> j \<le> 993 \<longrightarrow> ?a ! j \<noteq> CHR '',''" "0 < k" "k < length ea" "take c ?a = join_with '','' (take k (map short_entry_text ea))" by auto
    let ?t = "''accept '' @ take c ?a"
    have s: "summary_text (map short_entry_text ea) (map short_entry_text er) = Done ?t"
      using 3 back_to_comma_finds [OF c(1,2,4)] by (simp add: summary_text_def join_strings_with)
    have len: "length ?t = c + 7" using c(2) 3(4) by simp
    have "2 * length (take k (map short_entry_text ea)) \<le> length (take c ?a) + 1"
      unfolding c(7) using ta by (intro join_length) (meson in_set_takeD)
    then have k: "length (take k ea) \<le> 1000" using c(2,6) by simp
    have "parse_short_policy ?t = Some \<lparr>is_accept = True, entries = take k ea\<rparr>"
    proof -
      have "\<forall>e \<in> set (take k ea). entry_ok e" using ok(1) by (meson in_set_takeD)
      then show ?thesis using parse_short_join [of "take k ea" True] c(5,6,7) k 3(1) by (simp add: take_map)
    qed
    moreover have "short_accepts \<lparr>is_accept = True, entries = take k ea\<rparr> p \<longrightarrow> st p" if "1 \<le> p" "p < 65536" for p
      using describe_subset [OF assms that] by (auto simp: short_accepts_def dest: in_set_takeD)
    ultimately show ?thesis using s len c(2,3) by (intro exI [of _ ?t] exI) auto
  next
    case 4
    have sa: "2 * length ea \<le> length ?a + 1" "2 * length er \<le> length ?r + 1"
      using join_length [of "map short_entry_text ea"] join_length [of "map short_entry_text er"] ta tr by auto
    show ?thesis
    proof (cases "length ?r < length ?a")
      case True
      then have s: "summary_text (map short_entry_text ea) (map short_entry_text er) = Done (''reject '' @ ?r)"
        using 4 by (simp add: summary_text_def join_strings_with)
      have r: "length ?r \<le> 993" using True 4(3) by simp
      then have "parse_short_policy (''reject '' @ ?r) = Some \<lparr>is_accept = False, entries = er\<rparr>"
        using parse_short_join [of er False] ok(2) 4(2) sa by simp
      then show ?thesis using s r exact(2) by (intro exI [of _ "''reject '' @ ?r"] exI) auto
    next
      case False
      then have s: "summary_text (map short_entry_text ea) (map short_entry_text er) = Done (''accept '' @ ?a)"
        using 4 by (auto simp: summary_text_def join_strings_with)
      have a: "length ?a \<le> 993" using False 4(3) by (metis not_le not_less less_le_trans)
      then have "parse_short_policy (''accept '' @ ?a) = Some \<lparr>is_accept = True, entries = ea\<rparr>"
        using parse_short_join [of ea True] ok(1) 4(1) sa by simp
      then show ?thesis using s a exact(1) by (intro exI [of _ "''accept '' @ ?a"] exI) auto
    qed
  qed
qed

abbreviation (input) ports_ok :: "addr_policy_t list \<Rightarrow> sa_family_t \<Rightarrow> bool" where
  "ports_ok policy family \<equiv> \<forall>p \<in> set policy. tor_addr_family (pol_addr p) = family \<longrightarrow> prt_min p \<noteq> 0 \<and> prt_min p \<le> prt_max p"

lemma summarize_ok:
  assumes "ports_ok policy family"
  shows "\<exists>t sp. policy_summarize (Some policy) family = Done t \<and> length t \<le> 1000 \<and> parse_short_policy t = Some sp \<and>
    (\<forall>p. 1 \<le> p \<and> p < 65536 \<longrightarrow> (short_accepts sp p \<longrightarrow> snd (port_summary policy family p)) \<and>
       (length t < 989 \<longrightarrow> (short_accepts sp p \<longleftrightarrow> snd (port_summary policy family p))))"
proof -
  from summary_ports [OF assms] obtain s where s: "summary_of_rules policy family policy_summary_create = Done s" "tiles 1 s 65536"
    "\<forall>port. 1 \<le> port \<and> port < 65536 \<longrightarrow> port_state s port = port_summary policy family port" by blast
  have ne: "s \<noteq> []" using s(2) by auto
  from summary_strings_describe [OF s(2) ne, of 1 "[]" "[]"] obtain ea er where d:
    "summary_strings s 1 [] [] = (map short_entry_text ea, map short_entry_text er)"
    "describe ea er 1 (\<lambda>p. if p < 1 then accepted (hd s) else snd (port_state s p))" by auto
  from summary_text_ok [OF d(2)] obtain t sp where t: "summary_text (map short_entry_text ea) (map short_entry_text er) = Done t"
    "length t \<le> 1000" "parse_short_policy t = Some sp"
    "\<forall>p. 1 \<le> p \<and> p < 65536 \<longrightarrow> (short_accepts sp p \<longrightarrow> (if p < 1 then accepted (hd s) else snd (port_state s p))) \<and>
      (length t < 989 \<longrightarrow> (short_accepts sp p \<longleftrightarrow> (if p < 1 then accepted (hd s) else snd (port_state s p))))" by blast
  have "policy_summarize (Some policy) family = Done t" using s(1) d(1) t(1) by (simp add: policy_summarize_def)
  moreover have "(if p < 1 then accepted (hd s) else snd (port_state s p)) = snd (port_summary policy family p)"
    if "1 \<le> p" "p < 65536" for p using s(3) that by simp
  ultimately show ?thesis using t(2-4) by (intro exI [of _ t] exI [of _ sp]) simp
qed

lemma no_redundant_warning:
  "\<forall>p \<in> set l. tor_addr_family (pol_addr p) \<noteq> AF_UNSPEC \<Longrightarrow> policies_log_first_redundant_entry l = None"
proof -
  have "\<forall>p \<in> set l. tor_addr_family (pol_addr p) \<noteq> AF_UNSPEC \<Longrightarrow> first_redundant_loop l i n = None" for i n
    by (induction l arbitrary: i) (auto simp: Let_def)
  then show "\<forall>p \<in> set l. tor_addr_family (pol_addr p) \<noteq> AF_UNSPEC \<Longrightarrow> policies_log_first_redundant_entry l = None"
    by (simp add: policies_log_first_redundant_entry_def)
qed

section \<open>Properties\<close>

text \<open>C11: \<open>exit_policy_remove_redundancies\<close> removes rules only.  The rules it leaves decide every address and
  port as all the rules did, no rule is covered by an earlier one, and there is nothing left to remove: a second
  pass changes nothing, although in the third step a rule that was kept is not looked at again when rules behind it
  are removed.  The warning about redundant rules that comes with it is never given for a policy without
  \<open>AF_UNSPEC\<close> rules, whatever wildcards it has.\<close>

theorem remove_redundancies_keeps_decisions:
  assumes "rules_ok l"
  shows "(\<forall>a port. addr_ok a \<and> port \<noteq> 0 \<longrightarrow>
      compare_known_tor_addr_to_addr_policy a port (exit_policy_remove_redundancies l) =
      compare_known_tor_addr_to_addr_policy a port l) \<and>
    subseq (exit_policy_remove_redundancies l) l \<and>
    sorted_wrt (\<lambda>p q. \<not> addr_policy_covers p q) (exit_policy_remove_redundancies l) \<and>
    exit_policy_remove_redundancies (exit_policy_remove_redundancies l) = exit_policy_remove_redundancies l \<and>
    ((\<forall>p \<in> set l. tor_addr_family (pol_addr p) \<noteq> AF_UNSPEC) \<longrightarrow> policies_log_first_redundant_entry l = None)"
proof (intro conjI)
  show "sorted_wrt (\<lambda>p q. \<not> addr_policy_covers p q) (exit_policy_remove_redundancies l)"
    unfolding exit_policy_remove_redundancies_def
    by (rule sorted_wrt_subseq [OF remove_covered_later_subseq remove_later_covered_pairs])
qed (use remove_redundancies_decides remove_redundancies_subseq remove_redundancies_idem no_redundant_warning assms in auto)

abbreviation (input) rule4 :: "addr_policy_action_t \<Rightarrow> u32 \<Rightarrow> nat \<Rightarrow> u16 \<Rightarrow> u16 \<Rightarrow> addr_policy_t" where
  "rule4 t a m lo hi \<equiv> \<lparr>policy_type = t, is_private = False, maskbits = m, pol_addr = Addr_ipv4 a, prt_min = lo, prt_max = hi\<rparr>"

theorem remove_redundancies_keeps_decisions_witness:
  "compare_known_tor_addr_to_addr_policy (Addr_ipv4 0x01020304) 80
     (exit_policy_remove_redundancies [rule4 ADDR_POLICY_REJECT 0x01020000 16 1 65535, rule4 ADDR_POLICY_REJECT 0 0 1 65535]) =
   compare_known_tor_addr_to_addr_policy (Addr_ipv4 0x01020304) 80
     [rule4 ADDR_POLICY_REJECT 0x01020000 16 1 65535, rule4 ADDR_POLICY_REJECT 0 0 1 65535]"
  using remove_redundancies_keeps_decisions [of "[rule4 ADDR_POLICY_REJECT 0x01020000 16 1 65535, rule4 ADDR_POLICY_REJECT 0 0 1 65535]"]
  by simp

text \<open>C13: A definite answer without the port is right for every port.  A definite answer without the address is right
  for every address of a family when all wildcard rules are of that family; otherwise it need not be, since a
  wildcard of one family counts for both.  A policy without \<open>AF_UNSPEC\<close> rules that is called reject-all for a family
  rejects every address of it.\<close>

theorem partial_decisions_sound:
  assumes "addr_ok a" "tor_addr_family a = AF_INET \<or> tor_addr_family a = AF_INET6" "\<not> tor_addr_is_null a" "port \<noteq> 0" "rules_ok l"
    "r = ADDR_POLICY_ACCEPTED \<or> r = ADDR_POLICY_REJECTED"
  shows "(compare_tor_addr_to_addr_policy (Some a) 0 (Some l) = r \<longrightarrow> compare_tor_addr_to_addr_policy (Some a) port (Some l) = r) \<and>
    ((\<forall>p \<in> set l. maskbits p = 0 \<longrightarrow> tor_addr_family (pol_addr p) = tor_addr_family a) \<longrightarrow>
       compare_tor_addr_to_addr_policy None port (Some l) = r \<longrightarrow> compare_tor_addr_to_addr_policy (Some a) port (Some l) = r) \<and>
    ((\<forall>p \<in> set l. tor_addr_family (pol_addr p) \<noteq> AF_UNSPEC) \<longrightarrow> policy_is_reject_star (Some l) (tor_addr_family a) False \<longrightarrow>
       compare_tor_addr_to_addr_policy (Some a) port (Some l) = ADDR_POLICY_REJECTED) \<and>
    (\<exists>l' b. rules_ok l' \<and> addr_ok b \<and> compare_tor_addr_to_addr_policy None port (Some l') = ADDR_POLICY_REJECTED \<and>
       compare_tor_addr_to_addr_policy (Some b) port (Some l') = ADDR_POLICY_ACCEPTED)"
proof (intro conjI impI)
  show "compare_tor_addr_to_addr_policy (Some a) port (Some l) = r" if "compare_tor_addr_to_addr_policy (Some a) 0 (Some l) = r"
    using that assms(3,4,6) noport_sound [OF assms(4), of a l False False]
    by (auto simp: compare_tor_addr_to_addr_policy_def compare_known_tor_addr_to_addr_policy_noport_def)
  show "compare_tor_addr_to_addr_policy (Some a) port (Some l) = r"
    if "\<forall>p \<in> set l. maskbits p = 0 \<longrightarrow> tor_addr_family (pol_addr p) = tor_addr_family a" "compare_tor_addr_to_addr_policy None port (Some l) = r"
    using that(2) assms(3,4,6) unknown_sound [OF assms(1,2,5) that(1), of port False False]
    by (auto simp: compare_tor_addr_to_addr_policy_def compare_unknown_tor_addr_to_addr_policy_def)
  show "compare_tor_addr_to_addr_policy (Some a) port (Some l) = ADDR_POLICY_REJECTED"
    if "\<forall>p \<in> set l. tor_addr_family (pol_addr p) \<noteq> AF_UNSPEC" "policy_is_reject_star (Some l) (tor_addr_family a) False"
    using that(2) assms(3) reject_star_sound [OF assms(1,2,4,5) that(1)] assms(4)
    by (simp add: compare_tor_addr_to_addr_policy_def policy_is_reject_star_def)
  let ?l = "[rule4 ADDR_POLICY_REJECT 0 0 1 65535]" and ?b = "Addr_ipv6 (replicate 15 0 @ [9])"
  have n: "\<not> tor_addr_is_null ?b" by code_simp
  have "compare_tor_addr_to_addr_policy None port (Some ?l) = ADDR_POLICY_REJECTED"
    using assms(4) u16_range [OF assms(4), of 1 65535]
    by (simp add: compare_tor_addr_to_addr_policy_def compare_unknown_tor_addr_to_addr_policy_def)
  moreover have "compare_tor_addr_to_addr_policy (Some ?b) port (Some ?l) = ADDR_POLICY_ACCEPTED"
    unfolding compare_tor_addr_to_addr_policy_def option.case if_not_P [OF n] if_not_P [OF assms(4)] option.sel
    by (simp add: known_Cons rule_matches_def zero_iff)
  moreover have "rules_ok ?l" "addr_ok ?b" by simp_all
  ultimately show "\<exists>l' b. rules_ok l' \<and> addr_ok b \<and> compare_tor_addr_to_addr_policy None port (Some l') = ADDR_POLICY_REJECTED \<and>
       compare_tor_addr_to_addr_policy (Some b) port (Some l') = ADDR_POLICY_ACCEPTED" by blast
qed

theorem partial_decisions_sound_witness:
  "compare_tor_addr_to_addr_policy (Some (Addr_ipv4 0x08080808)) 25
     (Some [rule4 ADDR_POLICY_REJECT 0x08000000 8 1 65535, rule4 ADDR_POLICY_ACCEPT 0 0 80 80]) = ADDR_POLICY_REJECTED"
proof -
  let ?l = "[rule4 ADDR_POLICY_REJECT 0x08000000 8 1 65535, rule4 ADDR_POLICY_ACCEPT 0 0 80 80]"
  have "compare_tor_addr_to_addr_policy (Some (Addr_ipv4 0x08080808)) 0 (Some ?l) = ADDR_POLICY_REJECTED" by code_simp
  then show ?thesis using partial_decisions_sound [of "Addr_ipv4 0x08080808" 25 ?l ADDR_POLICY_REJECTED] by simp
qed

text \<open>C15: A policy counted as that of a general exit accepts, for port 80 and for port 443, every address of some /8
  network, which is not an internal one unless the caller allows those; and the test fails no assertion when the
  masks of the IPv4 rules have at most 32 bits.\<close>

theorem general_exit_accepts_subnet:
  assumes "rules_ok l"
  shows "(exit_policy_is_general_exit (Some l) allow = Done True \<longrightarrow>
      (\<forall>port \<in> {80, 443}. \<exists>i < 256. \<not> skipped_subnet allow i \<and>
         (\<forall>a. unat a div 2 ^ 24 = i \<longrightarrow> compare_known_tor_addr_to_addr_policy (Addr_ipv4 a) port l = ADDR_POLICY_ACCEPTED))) \<and>
    ((\<forall>p \<in> set l. tor_addr_family (pol_addr p) = AF_INET \<longrightarrow> maskbits p \<le> 32) \<longrightarrow>
       exit_policy_is_general_exit (Some l) allow \<noteq> Assertion_failed)"
proof (intro conjI impI)
  have st: "length (replicate 256 False) = 256" by simp
  have one: "\<exists>i < 256. \<not> skipped_subnet allow i \<and>
      (\<forall>a. unat a div 2 ^ 24 = i \<longrightarrow> compare_known_tor_addr_to_addr_policy (Addr_ipv4 a) port l = ADDR_POLICY_ACCEPTED)"
    if "exit_policy_is_general_exit_helper l port allow = Done True" for port
    using general_exit_sound [OF st assms that [unfolded exit_policy_is_general_exit_helper_def]] by blast
  show "\<forall>port \<in> {80, 443}. \<exists>i < 256. \<not> skipped_subnet allow i \<and>
         (\<forall>a. unat a div 2 ^ 24 = i \<longrightarrow> compare_known_tor_addr_to_addr_policy (Addr_ipv4 a) port l = ADDR_POLICY_ACCEPTED)"
    if "exit_policy_is_general_exit (Some l) allow = Done True"
  proof -
    have "exit_policy_is_general_exit_helper l 80 allow = Done True" "exit_policy_is_general_exit_helper l 443 allow = Done True"
      using that by (auto simp: exit_policy_is_general_exit_def and_then_Done split: if_splits)
    then show ?thesis using one by blast
  qed
  show "exit_policy_is_general_exit (Some l) allow \<noteq> Assertion_failed"
    if "\<forall>p \<in> set l. tor_addr_family (pol_addr p) = AF_INET \<longrightarrow> maskbits p \<le> 32"
    using general_exit_no_assert [OF st that]
    by (auto simp: exit_policy_is_general_exit_def exit_policy_is_general_exit_helper_def and_then_def split: outcome.splits)
qed

theorem general_exit_accepts_subnet_witness:
  "let l = [rule4 ADDR_POLICY_REJECT 0x08080808 32 1 65535, rule4 ADDR_POLICY_ACCEPT 0 0 1 65535]
   in exit_policy_is_general_exit (Some l) False = Done True \<and>
     (\<exists>i < 256. \<not> skipped_subnet False i \<and>
        (\<forall>a. unat a div 2 ^ 24 = i \<longrightarrow> compare_known_tor_addr_to_addr_policy (Addr_ipv4 a) 443 l = ADDR_POLICY_ACCEPTED))"
proof -
  let ?l = "[rule4 ADDR_POLICY_REJECT 0x08080808 32 1 65535, rule4 ADDR_POLICY_ACCEPT 0 0 1 65535]"
  have "exit_policy_is_general_exit (Some ?l) False = Done True" by code_simp
  then show ?thesis unfolding Let_def
    using general_exit_accepts_subnet [of ?l False] by simp
qed

text \<open>C12: For rules whose port ranges are not empty, summarising never fails an assertion; the items cover the ports 1 to
  65535 in order and without overlap, and what they say of a port is what the rules of the family do to that port one
  after the other: a wildcard acceptance marks it if not too many addresses were rejected before, and a rejection
  outside the private networks adds the number of its addresses, up to the largest number.\<close>

theorem summary_refines_ports:
  assumes "ports_ok policy family"
  shows "\<exists>s. summary_of_rules policy family policy_summary_create = Done s \<and> tiles 1 s 65536 \<and>
    (\<forall>port. 1 \<le> port \<and> port < 65536 \<longrightarrow> port_state s port = port_summary policy family port)"
  by (rule summary_ports [OF assms])

theorem summary_refines_ports_witness:
  "\<exists>s. summary_of_rules [rule4 ADDR_POLICY_ACCEPT 0 0 80 443] AF_INET policy_summary_create = Done s \<and>
     snd (port_state s 80) \<and> \<not> snd (port_state s 79)"
proof -
  let ?l = "[rule4 ADDR_POLICY_ACCEPT 0 0 80 443]"
  have "snd (port_summary ?l AF_INET 80)" "\<not> snd (port_summary ?l AF_INET 79)"
    by (simp_all add: port_summary_def port_step_def accept_step_def)
  then show ?thesis using summary_refines_ports [of ?l AF_INET] by force
qed

text \<open>C10: For a policy of rules whose port ranges are not empty, the summary is a text of at most 1000 characters that
  \<open>parse_short_policy\<close> reads back, and the short policy says that a port is probably accepted only if the summary's state
  for the port marks it as accepted.  When the text is shorter than 989 characters, so that nothing was cut off, it says
  so exactly if the port is marked; of a longer text only the first direction is shown.\<close>

theorem policy_summary_roundtrip:
  assumes "ports_ok policy family"
  shows "\<exists>t sp. policy_summarize (Some policy) family = Done t \<and> length t \<le> MAX_EXITPOLICY_SUMMARY_LEN \<and> parse_short_policy t = Some sp \<and>
    (\<forall>port. port \<noteq> 0 \<longrightarrow>
       (compare_tor_addr_to_short_policy None port sp reject_internal = Done ADDR_POLICY_PROBABLY_ACCEPTED \<longrightarrow>
          snd (port_summary policy family (unat port))) \<and>
       (length t < 989 \<longrightarrow>
          compare_tor_addr_to_short_policy None port sp reject_internal =
            Done (if snd (port_summary policy family (unat port)) then ADDR_POLICY_PROBABLY_ACCEPTED else ADDR_POLICY_REJECTED)))"
proof -
  from summarize_ok [OF assms] obtain t sp where t: "policy_summarize (Some policy) family = Done t" "length t \<le> 1000" "parse_short_policy t = Some sp"
    "\<forall>p. 1 \<le> p \<and> p < 65536 \<longrightarrow> (short_accepts sp p \<longrightarrow> snd (port_summary policy family p)) \<and>
       (length t < 989 \<longrightarrow> (short_accepts sp p \<longleftrightarrow> snd (port_summary policy family p)))" by blast
  have "1 \<le> unat port \<and> unat port < 65536" if "port \<noteq> 0" for port :: u16
    using that unsigned_less [of port, where ?'a = nat] by (simp add: Suc_le_eq unat_gt_0)
  then show ?thesis using t by (intro exI [of _ t] exI [of _ sp]) (simp add: short_decides)
qed

theorem policy_summary_roundtrip_witness:
  "\<exists>t sp. policy_summarize (Some [rule4 ADDR_POLICY_REJECT 0 0 25 25, rule4 ADDR_POLICY_ACCEPT 0 0 1 65535]) AF_INET = Done t \<and>
     parse_short_policy t = Some sp"
  using policy_summary_roundtrip [of "[rule4 ADDR_POLICY_REJECT 0 0 25 25, rule4 ADDR_POLICY_ACCEPT 0 0 1 65535]" AF_INET] by fastforce

text \<open>C14: A rule for port 0, which \<open>tor_addr_parse_mask_ports\<close> accepts and stores as the range from 1 to 0, makes
  \<open>policy_summarize\<close> fail the assertion of \<open>policy_summary_item_split\<close>: when it rejects addresses that are not a private
  network, and when it accepts all addresses.\<close>

theorem port_zero_rule_fails_assertion:
  assumes "ports_ok pre family" "tor_addr_family (pol_addr p) = family" "prt_min p = 1" "prt_max p = 0"
    "policy_type p = ADDR_POLICY_ACCEPT \<and> maskbits p = 0 \<or> policy_type p = ADDR_POLICY_REJECT \<and> \<not> in_private_nets p"
  shows "policy_summarize (Some (pre @ p # post)) family = Assertion_failed \<and>
    tor_addr_parse_mask_ports ''*:0'' tapmp_none True True = Done (Addr_ipv4 0, 0, 1, 0)"
proof
  have app: "summary_of_rules (pre @ l) family s = and_then (summary_of_rules pre family s) (summary_of_rules l family)" for l s
  proof (induction pre arbitrary: s)
    case (Cons q pre)
    then show ?case by (cases "policy_summary_add_item s q") simp_all
  qed simp
  from summary_ports [OF assms(1)] obtain s where s: "summary_of_rules pre family policy_summary_create = Done s" "tiles 1 s 65536" by blast
  have "policy_summary_add_item s p = Assertion_failed"
    using assms(5)
  proof
    assume "policy_type p = ADDR_POLICY_ACCEPT \<and> maskbits p = 0"
    then show ?thesis using split_port_zero [OF s(2)] assms(3,4) by (simp add: policy_summary_add_item_def policy_summary_accept_def)
  next
    assume r: "policy_type p = ADDR_POLICY_REJECT \<and> \<not> in_private_nets p"
    then have "rule_is_private_net p private_nets = Done False" using private_nets_parse [of p] by (auto simp: in_private_nets_def)
    then show ?thesis using r split_port_zero [OF s(2)] assms(3,4) by (simp add: policy_summary_add_item_def policy_summary_reject_def)
  qed
  then show "policy_summarize (Some (pre @ p # post)) family = Assertion_failed"
    using s(1) assms(2) by (simp add: policy_summarize_def app)
  have "parse_port_range (Some ''0'') = Some (1, 0)"
  proof -
    have "print_int 0 = ''0''" by (simp add: print_int_def) code_simp
    then show ?thesis using parse_long_print [OF no_digit_end, of 0 0 65535] by (simp add: parse_port_range_def Let_def)
  qed
  moreover have "split_pattern ''*:0'' = Done (''*'', None, Some ''0'')"
    using split_plain [of "''*''" None "Some ''0''"] by (simp add: mask_part_def port_part_def)
  ultimately show "tor_addr_parse_mask_ports ''*:0'' tapmp_none True True = Done (Addr_ipv4 0, 0, 1, 0)"
    by (simp add: tor_addr_parse_mask_ports_def parse_pattern_addr_def parse_pattern_mask_def Let_def)
qed

theorem port_zero_rule_fails_assertion_witness:
  "policy_summarize (Some [rule4 ADDR_POLICY_ACCEPT 0 0 80 80, rule4 ADDR_POLICY_ACCEPT 0 0 1 0]) AF_INET = Assertion_failed"
  using port_zero_rule_fails_assertion [of "[rule4 ADDR_POLICY_ACCEPT 0 0 80 80]" AF_INET "rule4 ADDR_POLICY_ACCEPT 0 0 1 0" "[]"] by simp

text \<open>C32: The text of a rule is its action and a pattern that \<open>tor_addr_parse_mask_ports\<close> reads back as the same address,
  mask and ports, a wildcard as the null address of its family; and the text of a short policy of at most 1000 entries
  is read back.  Rules for the private networks, rules with an empty port range, and rules for an IPv4-mapped
  IPv6 address with a mask other than 0 or 128 bits are not covered.\<close>

theorem policy_text_roundtrip:
  assumes "\<not> is_private p" "tor_addr_family (pol_addr p) = AF_INET \<or> tor_addr_family (pol_addr p) = AF_INET6" "addr_ok (pol_addr p)"
    "maskbits p \<le> whole_address (pol_addr p)" "maskbits p = 0 \<or> maskbits p = 128 \<or> tor_addr_family (pol_addr p) = AF_INET \<or> \<not> tor_addr_is_v4 (pol_addr p)"
    "prt_min p \<noteq> 0" "prt_min p \<le> prt_max p"
    "\<forall>e \<in> set (entries sp). entry_ok e" "entries sp \<noteq> []" "length (entries sp) \<le> MAX_EXITPOLICY_SUMMARY_LEN"
  shows "(\<exists>pattern. policy_write_item POLICY_BUF_LEN p False =
        Done ((if policy_type p = ADDR_POLICY_ACCEPT then ''accept '' else ''reject '') @ pattern) \<and>
      tor_addr_parse_mask_ports pattern tapmp_torrc True True =
        Done (if maskbits p = 0 then tor_addr_make_null (tor_addr_family (pol_addr p)) else pol_addr p, maskbits p, prt_min p, prt_max p)) \<and>
    parse_short_policy (write_short_policy sp) = Some sp"
proof
  show "\<exists>pattern. policy_write_item POLICY_BUF_LEN p False =
        Done ((if policy_type p = ADDR_POLICY_ACCEPT then ''accept '' else ''reject '') @ pattern) \<and>
      tor_addr_parse_mask_ports pattern tapmp_torrc True True =
        Done (if maskbits p = 0 then tor_addr_make_null (tor_addr_family (pol_addr p)) else pol_addr p, maskbits p, prt_min p, prt_max p)"
    using write_item_text [OF assms(1,2,4)] rule_pattern_parses [OF assms(2-7)] unfolding action_text_def by blast
  show "parse_short_policy (write_short_policy sp) = Some sp"
    unfolding write_short_text using parse_short_join [OF assms(8-10)] by simp
qed

theorem policy_text_roundtrip_witness:
  "\<exists>pattern. policy_write_item POLICY_BUF_LEN (rule4 ADDR_POLICY_REJECT 0x0a000000 8 80 443) False = Done (''reject '' @ pattern) \<and>
     tor_addr_parse_mask_ports pattern tapmp_torrc True True = Done (Addr_ipv4 0x0a000000, 8, 80, 443)"
  using policy_text_roundtrip [of "rule4 ADDR_POLICY_REJECT 0x0a000000 8 80 443" "\<lparr>is_accept = True, entries = [\<lparr>min_port = 80, max_port = 443\<rparr>]\<rparr>"]
  by (simp add: whole_address_def entry_ok_def)

end
