(* ===== verification/Spec2Isabelle.thy ===== *)
theory Spec2Isabelle
  imports Int_Math Token_Bucket Di_Ops Smartlist_Core C_Strings Util_String Smartlist_Split Bin_Ascii Smart_List Pqueue
    Line_Diff Ed_Script Cons_Diff Buffers Buffer_Props Versions Version_Props Protover Protover_Props
    Scanf Addresses Address_Text Address_Props Policies Policy_Summary Policy_Rules Policy_Text Policy_Props
begin

text \<open>
  Verification of the core of the tor tree in this repository (all paths below are relative to
  \<open>src/Shadow/tor/src\<close>).  The tree is a C program in layers: libraries of integer,
  string, container, address and buffer code (\<open>lib\<close>) under the protocol code (\<open>core\<close>) and the features
  (\<open>feature\<close>).  The development follows these layers from the bottom; each theory holds the
  definitions of one file or a few, translated from the source, and the facts about them.

  Conventions.  Fixed-width unsigned integers are words, so that arithmetic wraps as in C;
  signed integers are \<open>int\<close>, with truncation written out.  A string or block of memory is a list
  (without the terminating NUL); a pointer into a string is the suffix it points at, or an
  index.  A struct is a record, an enum or tagged union a datatype; a field or variable keeps its name
  where HOL allows it.  A call that can fail returns an option or an \<open>outcome\<close>: a failed assertion,
  \<open>-1\<close> or a result.  A function with an output argument or one that changes an object returns the new value.  A loop
  that may not end is a \<open>partial_function\<close> on options; every other loop is structural or has a
  termination proof, so no fuel is used anywhere and no statement depends on a bound on steps.

  Libraries.
  \<^item> \<open>Tor_Prelude\<close>: integer types, outcomes, words, shared list facts.
  \<^item> \<open>Int_Math\<close>: \<open>lib/intmath\<close>: saturating arithmetic, logarithms, rounding, the simplification of
    fractions, and the weak generator, whose rejection loop is shown to end.
  \<^item> \<open>Token_Bucket\<close>: \<open>lib/evloop/token_bucket.c\<close>: the three kinds of bucket with wrapping stamps; the
    invariant of each, the refill as an exact number of steps, and for any sequence of withdrawals and
    refills by how much it can exceed the burst and what was refilled: the debt it leaves, and nothing
    when each withdrawal is covered by the level, which the code leaves to its callers.  The sequences
    (\<open>limiter_run\<close>) are not code of the tree but runs of the file's own operations.
  \<^item> \<open>Di_Ops\<close>: \<open>lib/ctime/di_ops.c\<close>: the bit tricks compute the plain comparison, selection and map.
  \<^item> \<open>Smartlist_Core\<close>, \<open>Smart_List\<close>, \<open>Pqueue\<close>, \<open>Smartlist_Split\<close>: \<open>lib/smartlist_core\<close> and
    \<open>lib/container/smartlist.c\<close>: the resizable array with its capacity, the
    operations on it, the heap whose items store their index, and splitting.
    The locale \<open>comparison\<close> is the contract of the comparison callbacks, which the clients interpret.
  \<^item> \<open>C_Strings\<close>, \<open>Util_String\<close>, \<open>Scanf\<close>, \<open>Bin_Ascii\<close>: \<open>lib/string\<close> and \<open>lib/encoding/binascii.c\<close>: character
    classes, integer parsing against the grammar of numbers, string helpers, the UTF-8 validator, the minimal \<open>sscanf\<close>, base 16, 32 and 64.
  \<^item> \<open>Buffers\<close>, \<open>Buffer_Props\<close>: \<open>lib/buf/buffers.c\<close>, chunk by chunk with memory, window and sentinel.
    The abstract specification is a queue of bytes, and each operation refines the one on the queue.
  \<^item> \<open>Addresses\<close>, \<open>Address_Text\<close>, \<open>Address_Props\<close>: \<open>lib/net/inaddr.c\<close> and \<open>lib/net/address.c\<close>: the text
    of addresses in both directions, their tests, the comparison under a mask, and the patterns of
    address, mask and ports.  The locale \<open>prefix_equality\<close> is what a comparison of
    prefixes promises; its interpretation \<open>addr_prefix\<close> is the code's comparison.

  Protocol and features.
  \<^item> \<open>Versions\<close>, \<open>Version_Props\<close>: \<open>core/or/versions.c\<close>: version numbers, their order, sorting and the
    recommendation status.
  \<^item> \<open>Protover\<close>, \<open>Protover_Props\<close>: \<open>core/or/protover.c\<close> and the protocol summaries of
    \<open>core/or/versions.c\<close>: protocol lists as sets of numbers, their vote, queries, and the cache of summaries.
  \<^item> \<open>Policies\<close>, \<open>Policy_Summary\<close>: \<open>core/or/policies.c\<close>: rules and the decision for an address and a
    port, known or not, the removal of redundant rules, the tests for general exits, the summaries of policies and the
    short policies clients parse from them.
    \<open>Policy_Rules\<close> reads a rule as a set of addresses and ports; its lemmas rest on \<open>prefix_equality\<close> alone.
    \<open>Policy_Text\<close> shows that texts of patterns, rules and short policies are parsed back.
    \<open>Policy_Props\<close> refines a summary to a function of the port, the count of rejected addresses and the mark that
    the rules leave there, and composes all of these: the ports a client reads in a descriptor's summary
    are ports so marked.
  \<^item> \<open>Line_Diff\<close>, \<open>Ed_Script\<close>, \<open>Cons_Diff\<close>: \<open>feature/dircommon/consdiff.c\<close>, from the longest common
    subsequence to the two entry points; applying a generated diff gives the target consensus.  Lists of
    lines are unbounded here: the assertion of \<open>smartlist_ensure_capacity\<close> on their capacity, which
    \<open>Smartlist_Core\<close> has, matters only from 2^31 - 1 lines on and is not repeated.

  How the parts meet.  Consensus diffs use splitting, base 16 and integer parsing; addresses use the scanner and the
  data-independent comparison of bytes; policies use addresses, splitting and joining; protocol lists, versions and
  policies sort through \<open>comparison\<close> or search sorted lists.

  Parameters.  What is not in the tree, or is state of the process, is an argument of the definitions:
  the C library's \<open>qsort\<close>, the hash SHA3-256 of consensus diffs, the contents of fresh memory and the
  coarse clock of buffers, the options that decide how private addresses are treated, and the
  addresses of the local interfaces.

  Not modelled.  Whatever is network input and output, event handling or a call into a cryptographic or system library
  leaves nothing to state without a model of those: \<open>core/mainloop\<close>, \<open>core/crypto\<close>, \<open>lib/tls\<close>,
  \<open>lib/crypt_ops\<close>, \<open>lib/fs\<close>, \<open>lib/process\<close> and most of \<open>lib/evloop\<close>.  \<open>ext\<close> is third-party code and \<open>trunnel\<close>
  is generated.  Circuits, channels and the features other than those above are within reach of the same method.
  Of the files above: conversion to socket
  addresses and hashing of addresses, the parsing of rules by the tokenizer of directory documents and the
  process-wide policies of a relay, the double parser, the formats of \<open>printf\<close>, and memory release.
\<close>

end
